(* ===== verification/Prelude.thy ===== *)
theory Prelude
  imports Complex_Main "HOL-Library.AList" "HOL-Library.Multiset" "HOL-Library.Product_Lexorder"
    "HOL-Library.Char_ord" "HOL-Library.List_Lexorder"
begin

text \<open>
  Shared vocabulary of the development: the exceptions a Python call may raise, results as sums,
  Python dictionaries as insertion-ordered association lists, the facts about lists, options and
  sorted insertion that several components use, and two generic interfaces stated as locales
  (ordered dictionaries, transition systems with an invariant).

  Floating point numbers of the source (time stamps, rates, delays) are rational numbers here:
  every finite float is a rational, comparison is exact, and only the rounding of arithmetic is
  left out. Python integers are unbounded and are \<open>int\<close> or \<open>nat\<close>.
\<close>

named_theorems dict_simps \<open>rewriting of dictionary reads after dictionary writes\<close>
named_theorems inv_intros \<open>preservation of component invariants\<close>

section \<open>Exceptions and results\<close>

text \<open>
  \<open>Diverges\<close> is not a Python exception: it is the outcome of a call that never returns, so that a
  loop of the source which may run forever has a value in the model and a theorem can exclude it.
\<close>

datatype exn =
    KeyError
  | IndexError
  | ValueError
  | TypeError
  | AttributeError
  | StopIteration
  | EmptyQueue
  | RuntimeError
  | NotImplemented
  | ZeroDivision
  | OverflowError
  | Diverges

type_synonym 'a result = "exn + 'a"

fun res_bind :: "'e + 'a \<Rightarrow> ('a \<Rightarrow> 'e + 'b) \<Rightarrow> 'e + 'b" where
  "res_bind (Inl e) f = Inl e"
| "res_bind (Inr x) f = f x"

lemma res_bind_cong [fundef_cong]:
  assumes "r = r'" and "\<And>x. r' = Inr x \<Longrightarrow> f x = g x"
  shows "res_bind r f = res_bind r' g"
  using assms by (cases r') auto

lemma res_bind_Inr_iff: "res_bind r f = Inr y \<longleftrightarrow> (\<exists>x. r = Inr x \<and> f x = Inr y)"
  by (cases r) auto

lemma res_bind_Inl_iff:
  "res_bind r f = Inl e \<longleftrightarrow> r = Inl e \<or> (\<exists>x. r = Inr x \<and> f x = Inl e)"
  by (cases r) auto

section \<open>Dictionaries\<close>

text \<open>
  A Python \<open>dict\<close> keeps its keys in insertion order; assigning to a present key keeps its
  place. \<open>AList.update\<close> has exactly this behaviour on an association list with distinct keys.
\<close>

type_synonym ('k, 'v) dict = "('k \<times> 'v) list"

abbreviation dict_get :: "('k, 'v) dict \<Rightarrow> 'k \<Rightarrow> 'v option" where
  "dict_get \<equiv> map_of"

abbreviation dict_set :: "'k \<Rightarrow> 'v \<Rightarrow> ('k, 'v) dict \<Rightarrow> ('k, 'v) dict" where
  "dict_set \<equiv> AList.update"

abbreviation dict_del :: "'k \<Rightarrow> ('k, 'v) dict \<Rightarrow> ('k, 'v) dict" where
  "dict_del \<equiv> AList.delete"

abbreviation keys :: "('k, 'v) dict \<Rightarrow> 'k list" where
  "keys d \<equiv> map fst d"

abbreviation vals :: "('k, 'v) dict \<Rightarrow> 'v list" where
  "vals d \<equiv> map snd d"

abbreviation dict_wf :: "('k, 'v) dict \<Rightarrow> bool" where
  "dict_wf d \<equiv> distinct (keys d)"

fun dict_update :: "('k, 'v) dict \<Rightarrow> ('k, 'v) dict \<Rightarrow> ('k, 'v) dict" where
  "dict_update d [] = d"
| "dict_update d ((k, v) # e) = dict_update (dict_set k v d) e"

definition dict_setdefault :: "'k \<Rightarrow> 'v \<Rightarrow> ('k, 'v) dict \<Rightarrow> ('k, 'v) dict" where
  "dict_setdefault k v d = (case dict_get d k of None \<Rightarrow> dict_set k v d | Some _ \<Rightarrow> d)"

lemma dict_get_set [dict_simps]: "dict_get (dict_set k v d) k' = (if k' = k then Some v else dict_get d k')"
  by (simp add: update_conv')

lemma dict_get_del [dict_simps]: "dict_get (dict_del k d) k' = (if k' = k then None else dict_get d k')"
  by (simp add: delete_conv)

lemma dict_wf_set [inv_intros]: "dict_wf d \<Longrightarrow> dict_wf (dict_set k v d)"
  by (simp add: distinct_update)

lemma dict_wf_del [inv_intros]: "dict_wf d \<Longrightarrow> dict_wf (dict_del k d)"
  by (simp add: distinct_delete)

lemma set_keys_set [simp]: "fst ` set (dict_set k v d) = insert k (fst ` set d)"
  by (simp add: dom_update)

lemma set_keys_del [simp]: "fst ` set (dict_del k d) = fst ` set d - {k}"
  by (induction d) auto

lemma keys_set: "keys (dict_set k v d) = (if k \<in> set (keys d) then keys d else keys d @ [k])"
  by (simp add: update_keys)

lemma keys_del: "keys (dict_del k d) = filter (\<lambda>k'. k' \<noteq> k) (keys d)"
  by (induction d) auto

lemma dict_get_None_iff: "dict_get d k = None \<longleftrightarrow> k \<notin> set (keys d)"
  by (simp add: map_of_eq_None_iff)

lemma dict_get_Some_iff: "(\<exists>v. dict_get d k = Some v) \<longleftrightarrow> k \<in> set (keys d)"
  using dict_get_None_iff [of d k] by auto

lemma dict_get_mem: "dict_get d k = Some v \<Longrightarrow> (k, v) \<in> set d"
  by (rule map_of_SomeD)

lemma dict_get_iff_mem: "dict_wf d \<Longrightarrow> dict_get d k = Some v \<longleftrightarrow> (k, v) \<in> set d"
  by (rule map_of_eq_Some_iff)

lemma dict_set_fresh: "k \<notin> set (keys d) \<Longrightarrow> dict_set k v d = d @ [(k, v)]"
  by (induction d) auto

lemma dict_del_fresh: "k \<notin> set (keys d) \<Longrightarrow> dict_del k d = d"
  by simp

lemma set_dict_set: "dict_wf d \<Longrightarrow> set (dict_set k v d) = insert (k, v) {p \<in> set d. fst p \<noteq> k}"
  by (induction d) (auto simp: rev_image_eqI)

lemma set_dict_del: "set (dict_del k d) = {p \<in> set d. fst p \<noteq> k}"
  by (induction d) auto

lemma length_dict_set: "length (dict_set k v d) = (if k \<in> set (keys d) then length d else Suc (length d))"
  by (induction d) auto

lemma length_dict_del:
  "dict_wf d \<Longrightarrow> k \<in> set (keys d) \<Longrightarrow> Suc (length (dict_del k d)) = length d"
  by (induction d) auto

lemma dict_wf_update [inv_intros]: "dict_wf d \<Longrightarrow> dict_wf (dict_update d e)"
  by (induction d e rule: dict_update.induct) (simp_all add: distinct_update)

lemma dict_get_update:
  "dict_wf e \<Longrightarrow> dict_get (dict_update d e) k =
     (case dict_get e k of None \<Rightarrow> dict_get d k | Some v \<Rightarrow> Some v)"
proof (induction d e rule: dict_update.induct)
  case (1 d)
  then show ?case by simp
next
  case (2 d k' v e)
  then have "k' \<notin> set (keys e)" and "dict_wf e" by auto
  then have "dict_get e k' = None" by (simp add: dict_get_None_iff)
  with 2 show ?case by (auto simp: dict_simps split: option.split)
qed

lemma set_keys_update [simp]: "fst ` set (dict_update d e) = fst ` set d \<union> fst ` set e"
  by (induction d e rule: dict_update.induct) (auto simp: dom_update)

section \<open>Lists, options, sorted insertion\<close>

lemma insort_fresh_last: "\<forall>y \<in> set xs. y < x \<Longrightarrow> insort x xs = xs @ [x]"
  for x :: "'a::linorder"
  by (induction xs) auto

lemma hd_sorted_le: "sorted xs \<Longrightarrow> x \<in> set xs \<Longrightarrow> hd xs \<le> x"
  for x :: "'a::linorder"
  by (cases xs) auto

lemma sum_list_map_eq_0: "(\<And>x. x \<in> set xs \<Longrightarrow> f x = 0) \<Longrightarrow> sum_list (map f xs) = (0::nat)"
  by (induction xs) auto

section \<open>Interface: ordered dictionaries\<close>

text \<open>
  What the components rely on when they keep their state in a dictionary: reads after writes,
  reads after deletions, and that distinctness of keys is kept.
\<close>

locale dict_spec =
  fixes empty :: 'd
    and get :: "'d \<Rightarrow> 'k \<Rightarrow> 'v option"
    and put :: "'k \<Rightarrow> 'v \<Rightarrow> 'd \<Rightarrow> 'd"
    and del :: "'k \<Rightarrow> 'd \<Rightarrow> 'd"
    and ok :: "'d \<Rightarrow> bool"
  assumes ok_empty: "ok empty"
    and ok_put: "ok d \<Longrightarrow> ok (put k v d)"
    and ok_del: "ok d \<Longrightarrow> ok (del k d)"
    and get_empty: "get empty k = None"
    and get_put: "ok d \<Longrightarrow> get (put k v d) k' = (if k' = k then Some v else get d k')"
    and get_del: "ok d \<Longrightarrow> get (del k d) k' = (if k' = k then None else get d k')"
begin

lemma put_del_roundtrip: "ok d \<Longrightarrow> get d k = None \<Longrightarrow> get (del k (put k v d)) = get d"
  by (rule ext) (simp add: get_put get_del ok_put)

lemma put_put: "ok d \<Longrightarrow> get (put k v (put k w d)) = get (put k v d)"
  by (rule ext) (simp add: get_put ok_put)

lemma put_commute: "ok d \<Longrightarrow> k \<noteq> l \<Longrightarrow> get (put k v (put l w d)) = get (put l w (put k v d))"
  by (rule ext) (simp add: get_put ok_put)

end

interpretation alist: dict_spec "[]" dict_get dict_set dict_del dict_wf
  by unfold_locales (auto simp: dict_simps inv_intros distinct_update distinct_delete)

section \<open>Interface: transition systems\<close>

text \<open>
  A component that is driven by a sequence of calls is a transition system; an invariant that
  holds initially and is kept by every step holds in every reachable state.
\<close>

inductive reach :: "('s \<Rightarrow> bool) \<Rightarrow> ('s \<Rightarrow> 'e \<Rightarrow> 's \<Rightarrow> bool) \<Rightarrow> 's \<Rightarrow> bool"
  for ini :: "'s \<Rightarrow> bool" and stp :: "'s \<Rightarrow> 'e \<Rightarrow> 's \<Rightarrow> bool" where
  reach_init: "ini s \<Longrightarrow> reach ini stp s"
| reach_step: "reach ini stp s \<Longrightarrow> stp s e t \<Longrightarrow> reach ini stp t"

locale invariant_system =
  fixes ini :: "'s \<Rightarrow> bool"
    and stp :: "'s \<Rightarrow> 'e \<Rightarrow> 's \<Rightarrow> bool"
    and I :: "'s \<Rightarrow> bool"
  assumes inv_init: "ini s \<Longrightarrow> I s"
    and inv_step: "I s \<Longrightarrow> stp s e t \<Longrightarrow> I t"
begin

lemma inv_reach: "reach ini stp s \<Longrightarrow> I s"
  by (induction rule: reach.induct) (auto intro: inv_init inv_step)

end

end
