(* ===== verification/States.thy ===== *)
theory States
  imports Prelude
begin

text \<open>
  \<open>celery/states.py\<close>: the built-in task states, the precedence table and the comparison
  methods of the class \<open>state\<close>, and the named sets of states. The comparison is a total
  preorder (two custom states compare equal), which is an instance of the class \<open>preorder\<close>
  and of the interface \<open>precedence_spec\<close> that the event-merging code relies on.
\<close>

section \<open>Data and operations\<close>

definition PENDING :: string where "PENDING = ''PENDING''"
definition RECEIVED :: string where "RECEIVED = ''RECEIVED''"
definition STARTED :: string where "STARTED = ''STARTED''"
definition SUCCESS :: string where "SUCCESS = ''SUCCESS''"
definition FAILURE :: string where "FAILURE = ''FAILURE''"
definition REVOKED :: string where "REVOKED = ''REVOKED''"
definition REJECTED :: string where "REJECTED = ''REJECTED''"
definition RETRY :: string where "RETRY = ''RETRY''"
definition IGNORED :: string where "IGNORED = ''IGNORED''"

lemmas state_names = PENDING_def RECEIVED_def STARTED_def SUCCESS_def FAILURE_def REVOKED_def
  REJECTED_def RETRY_def IGNORED_def

definition PRECEDENCE :: "string option list" where
  "PRECEDENCE =
     [Some ''SUCCESS'', Some ''FAILURE'', None, Some ''REVOKED'', Some ''STARTED'',
      Some ''RECEIVED'', Some ''REJECTED'', Some ''RETRY'', Some ''PENDING'']"

definition PRECEDENCE_LOOKUP :: "(string option, nat) dict" where
  "PRECEDENCE_LOOKUP = zip PRECEDENCE [0..<length PRECEDENCE]"

definition NONE_PRECEDENCE :: nat where
  "NONE_PRECEDENCE = (case dict_get PRECEDENCE_LOOKUP None of Some n \<Rightarrow> n | None \<Rightarrow> 0)"

definition precedence :: "string \<Rightarrow> nat" where
  "precedence s = (case dict_get PRECEDENCE_LOOKUP (Some s) of Some n \<Rightarrow> n | None \<Rightarrow> NONE_PRECEDENCE)"

datatype state = State (state_name: string)

definition state_gt :: "state \<Rightarrow> state \<Rightarrow> bool" where
  "state_gt self other = (precedence (state_name self) < precedence (state_name other))"

definition state_ge :: "state \<Rightarrow> state \<Rightarrow> bool" where
  "state_ge self other = (precedence (state_name self) \<le> precedence (state_name other))"

definition state_lt :: "state \<Rightarrow> state \<Rightarrow> bool" where
  "state_lt self other = (precedence (state_name self) > precedence (state_name other))"

definition state_le :: "state \<Rightarrow> state \<Rightarrow> bool" where
  "state_le self other = (precedence (state_name self) \<ge> precedence (state_name other))"

definition READY_STATES :: "string set" where
  "READY_STATES = {SUCCESS, FAILURE, REVOKED}"

definition UNREADY_STATES :: "string set" where
  "UNREADY_STATES = {PENDING, RECEIVED, STARTED, REJECTED, RETRY}"

definition EXCEPTION_STATES :: "string set" where
  "EXCEPTION_STATES = {RETRY, FAILURE, REVOKED}"

definition PROPAGATE_STATES :: "string set" where
  "PROPAGATE_STATES = {FAILURE, REVOKED}"

definition ALL_STATES :: "string set" where
  "ALL_STATES = {PENDING, RECEIVED, STARTED, SUCCESS, FAILURE, RETRY, REVOKED}"

lemmas state_sets = READY_STATES_def UNREADY_STATES_def EXCEPTION_STATES_def
  PROPAGATE_STATES_def ALL_STATES_def

section \<open>The precedence table\<close>

definition builtin_states :: "string set" where
  "builtin_states = {SUCCESS, FAILURE, REVOKED, STARTED, RECEIVED, REJECTED, RETRY, PENDING}"

lemma PRECEDENCE_LOOKUP_eq:
  "PRECEDENCE_LOOKUP =
     [(Some ''SUCCESS'', 0), (Some ''FAILURE'', 1), (None, 2), (Some ''REVOKED'', 3),
      (Some ''STARTED'', 4), (Some ''RECEIVED'', 5), (Some ''REJECTED'', 6),
      (Some ''RETRY'', 7), (Some ''PENDING'', 8)]"
  by (simp add: PRECEDENCE_LOOKUP_def PRECEDENCE_def upt_rec)

lemma NONE_PRECEDENCE_eq: "NONE_PRECEDENCE = 2"
  by (simp add: NONE_PRECEDENCE_def PRECEDENCE_LOOKUP_eq)

lemma precedence_builtin [simp]:
  "precedence SUCCESS = 0" "precedence FAILURE = 1" "precedence REVOKED = 3"
  "precedence STARTED = 4" "precedence RECEIVED = 5" "precedence REJECTED = 6"
  "precedence RETRY = 7" "precedence PENDING = 8"
  by (simp_all add: precedence_def PRECEDENCE_LOOKUP_eq state_names)

lemma precedence_custom: "s \<notin> builtin_states \<Longrightarrow> precedence s = 2"
  by (simp add: precedence_def PRECEDENCE_LOOKUP_eq NONE_PRECEDENCE_eq builtin_states_def state_names)

lemma precedence_le_8: "precedence s \<le> 8"
  by (cases "s \<in> builtin_states") (auto simp: precedence_custom builtin_states_def)

lemma precedence_inj_builtin:
  "s \<in> builtin_states \<Longrightarrow> precedence s = precedence t \<Longrightarrow> s = t"
  by (cases "t \<in> builtin_states") (auto simp: precedence_custom builtin_states_def)

section \<open>Comparison as a preorder\<close>

instantiation state :: preorder
begin

definition less_eq_state :: "state \<Rightarrow> state \<Rightarrow> bool" where
  "less_eq_state a b = state_le a b"

definition less_state :: "state \<Rightarrow> state \<Rightarrow> bool" where
  "less_state a b = state_lt a b"

instance
  by standard (auto simp: less_eq_state_def less_state_def state_le_def state_lt_def)

end

text \<open>
  What a client that merges competing values needs of an order: \<open>keep a b\<close> says that \<open>a\<close> is
  kept against a later \<open>b\<close>, \<open>no_worse\<close> is the preorder it comes from.
\<close>

definition pick_best :: "('a \<Rightarrow> 'a \<Rightarrow> bool) \<Rightarrow> 'a \<Rightarrow> 'a list \<Rightarrow> 'a" where
  "pick_best keep a xs = foldl (\<lambda>acc x. if keep acc x then acc else x) a xs"

locale precedence_spec =
  fixes keep :: "'a \<Rightarrow> 'a \<Rightarrow> bool"
    and no_worse :: "'a \<Rightarrow> 'a \<Rightarrow> bool"
  assumes keep_iff: "keep a b \<longleftrightarrow> \<not> no_worse b a"
    and total: "no_worse a b \<or> no_worse b a"
    and trans: "no_worse a b \<Longrightarrow> no_worse b c \<Longrightarrow> no_worse a c"
begin

lemma refl: "no_worse a a"
  using total by blast

lemma pick_best_mem: "pick_best keep a xs \<in> insert a (set xs)"
proof (induction xs arbitrary: a)
  case Nil
  then show ?case by (simp add: pick_best_def)
next
  case (Cons x xs)
  have "pick_best keep a (x # xs) = pick_best keep (if keep a x then a else x) xs"
    by (simp add: pick_best_def)
  then show ?case using Cons [of "if keep a x then a else x"] by (auto split: if_splits)
qed

lemma pick_best_optimal: "y \<in> insert a (set xs) \<Longrightarrow> no_worse (pick_best keep a xs) y"
proof (induction xs arbitrary: a y)
  case Nil
  then show ?case by (simp add: pick_best_def refl)
next
  case (Cons x xs)
  let ?b = "if keep a x then a else x"
  have eq: "pick_best keep a (x # xs) = pick_best keep ?b xs"
    by (simp add: pick_best_def)
  have b: "no_worse ?b a" "no_worse ?b x"
    using total [of a x] by (auto simp: keep_iff refl)
  have best: "no_worse (pick_best keep ?b xs) ?b"
    by (rule Cons.IH) simp
  consider "y = a" | "y = x" | "y \<in> set xs" using Cons.prems by auto
  then show ?case
  proof cases
    case 1
    then show ?thesis using trans [OF best b(1)] eq by simp
  next
    case 2
    then show ?thesis using trans [OF best b(2)] eq by simp
  next
    case 3
    then show ?thesis using Cons.IH [of y ?b] eq by simp
  qed
qed

lemma pick_best_order_free:
  assumes "set (a # xs) = set (b # ys)"
  shows "no_worse (pick_best keep a xs) (pick_best keep b ys)"
  using assms pick_best_optimal [of "pick_best keep b ys" a xs] pick_best_mem [of b ys] by auto

end

interpretation state_order: precedence_spec state_gt state_ge
  by unfold_locales (auto simp: state_gt_def state_ge_def)

section \<open>Properties\<close>

text \<open>
  the order of task states is the documented one. Every built-in state has its own rank; a
  custom state ranks below FAILURE and SUCCESS and above every other built-in state; and a state
  is comparable with every other.
\<close>

theorem custom_state_between:
  assumes "s \<notin> builtin_states"
  shows "State s < State SUCCESS \<and> State s < State FAILURE
    \<and> (\<forall>t \<in> {REVOKED, STARTED, RECEIVED, REJECTED, RETRY, PENDING}. State t < State s)
    \<and> (\<forall>u. State s \<le> State u \<or> State u \<le> State s)
    \<and> (\<forall>u. u \<notin> builtin_states \<longrightarrow> State s \<le> State u)"
  using assms
  by (auto simp: less_state_def less_eq_state_def state_lt_def state_le_def precedence_custom)

theorem custom_state_between_witness:
  "''PROGRESS'' \<notin> builtin_states \<and> State ''PROGRESS'' < State SUCCESS \<and> State STARTED < State ''PROGRESS''"
proof -
  have h: "''PROGRESS'' \<notin> builtin_states"
    by (simp add: builtin_states_def state_names)
  show ?thesis using h custom_state_between [OF h] by simp
qed

lemma ready_unready_disjoint: "READY_STATES \<inter> UNREADY_STATES = {}"
  by (auto simp: state_sets state_names)

lemma propagate_ready: "PROPAGATE_STATES \<subseteq> READY_STATES \<inter> EXCEPTION_STATES"
  by (auto simp: state_sets)

end
