(* ===== verification/Heapq.thy ===== *)
theory Heapq
  imports Prelude
begin

text \<open>
  The part of Python's \<open>heapq\<close> module that the scheduler and the limited set use: \<open>heapify\<close>,
  \<open>heappush\<close>, \<open>heappop\<close> and the read of index 0. A heap is kept here as a sorted list, which is
  one of the arrangements \<open>heapq\<close> allows; the element at index 0 and the element \<open>heappop\<close> returns
  are the least one in every arrangement, so they depend on the stored multiset only. The laws
  the clients use are the interface \<open>heap_spec\<close>.
\<close>

type_synonym 'a heap = "'a list"

definition heapify :: "'a::linorder list \<Rightarrow> 'a heap" where
  "heapify xs = sort xs"

definition heappush :: "'a::linorder heap \<Rightarrow> 'a \<Rightarrow> 'a heap" where
  "heappush h x = insort x h"

fun heappop :: "'a::linorder heap \<Rightarrow> ('a \<times> 'a heap) result" where
  "heappop [] = Inl IndexError"
| "heappop (x # h) = Inr (x, h)"

fun heap_top :: "'a::linorder heap \<Rightarrow> 'a result" where
  "heap_top [] = Inl IndexError"
| "heap_top (x # h) = Inr x"

locale heap_spec =
  fixes build :: "'a::linorder list \<Rightarrow> 'h"
    and push :: "'h \<Rightarrow> 'a \<Rightarrow> 'h"
    and pop :: "'h \<Rightarrow> ('a \<times> 'h) result"
    and top :: "'h \<Rightarrow> 'a result"
    and elems :: "'h \<Rightarrow> 'a multiset"
    and ok :: "'h \<Rightarrow> bool"
  assumes ok_build: "ok (build xs)"
    and elems_build: "elems (build xs) = mset xs"
    and ok_push: "ok h \<Longrightarrow> ok (push h x)"
    and elems_push: "ok h \<Longrightarrow> elems (push h x) = add_mset x (elems h)"
    and pop_empty: "ok h \<Longrightarrow> elems h = {#} \<Longrightarrow> pop h = Inl IndexError"
    and pop_least: "ok h \<Longrightarrow> pop h = Inr (x, h') \<Longrightarrow> x \<in># elems h \<and> (\<forall>y \<in># elems h. x \<le> y)"
    and pop_rest: "ok h \<Longrightarrow> pop h = Inr (x, h') \<Longrightarrow> ok h' \<and> elems h = add_mset x (elems h')"
    and pop_total: "ok h \<Longrightarrow> elems h \<noteq> {#} \<Longrightarrow> \<exists>x h'. pop h = Inr (x, h')"
    and top_pop: "ok h \<Longrightarrow> top h = (case pop h of Inl e \<Rightarrow> Inl e | Inr (x, _) \<Rightarrow> Inr x)"
begin

lemma pop_Min: "ok h \<Longrightarrow> pop h = Inr (x, h') \<Longrightarrow> x = Min_mset (elems h)"
  using pop_least [of h x h'] by (auto intro!: Min_eqI [symmetric])

lemma pop_size: "ok h \<Longrightarrow> pop h = Inr (x, h') \<Longrightarrow> size (elems h) = Suc (size (elems h'))"
  using pop_rest [of h x h'] by simp

lemma push_pop_least:
  assumes "ok h" and "\<forall>y \<in># elems h. x \<le> y"
  shows "\<exists>h'. pop (push h x) = Inr (x, h') \<and> elems h' = elems h"
proof -
  have okp: "ok (push h x)" using assms(1) by (rule ok_push)
  have el: "elems (push h x) = add_mset x (elems h)" using assms(1) by (rule elems_push)
  then obtain y h' where p: "pop (push h x) = Inr (y, h')"
    using pop_total [OF okp] by auto
  have "y \<le> x" "y \<in># elems (push h x)" using pop_least [OF okp p] el by auto
  moreover have "x \<le> y" using \<open>y \<in># elems (push h x)\<close> assms(2) el by auto
  ultimately have "y = x" by simp
  moreover have "elems (push h x) = add_mset y (elems h')" using pop_rest [OF okp p] by simp
  ultimately show ?thesis using p el by auto
qed

end

interpretation sorted_heap: heap_spec heapify heappush heappop heap_top mset sorted
proof unfold_locales
  fix h :: "'a heap" and x h'
  assume h: "sorted h" and p: "heappop h = Inr (x, h')"
  then have "h = x # h'" by (cases h) auto
  then show "x \<in># mset h \<and> (\<forall>y \<in># mset h. x \<le> y)" "sorted h' \<and> mset h = add_mset x (mset h')"
    using h by auto
next
  fix h :: "'a heap"
  assume "mset h \<noteq> {#}"
  then show "\<exists>x h'. heappop h = Inr (x, h')" by (cases h) auto
next
  fix h :: "'a heap"
  show "heap_top h = (case heappop h of Inl e \<Rightarrow> Inl e | Inr (x, _) \<Rightarrow> Inr x)"
    by (cases h) auto
qed (auto simp: heapify_def heappush_def sorted_insort)

lemma length_heappush [simp]: "length (heappush h x) = Suc (length h)"
  by (simp add: heappush_def)

lemma set_heappush [simp]: "set (heappush h x) = insert x (set h)"
  by (simp add: heappush_def set_insort_key)

lemma heappop_length: "heappop h = Inr (x, h') \<Longrightarrow> length h = Suc (length h')"
  by (cases h) auto

lemma set_heapify [simp]: "set (heapify xs) = set xs"
  by (simp add: heapify_def)

lemma length_heapify [simp]: "length (heapify xs) = length xs"
  by (simp add: heapify_def)

end
