(* ===== verification/Limited_Set.thy ===== *)
theory Limited_Set
  imports Heapq
begin

text \<open>
  \<open>celery/utils/collections.py\<close>, class \<open>LimitedSet\<close>: the bounded set with time stamps that holds
  the revoked task ids and the recently successful ones. The dictionary \<open>_data\<close> maps an item to
  its entry \<open>(inserted, sequence number, item)\<close>, the heap holds the entries by age and may hold
  stale ones. Readings of \<open>time.monotonic\<close> are arguments. The loops of \<open>purge\<close> raise
  \<open>IndexError\<close> where the source reads \<open>_heap[0]\<close> of an empty heap, and are \<open>Diverges\<close> where
  the source would spin on a \<open>pop\<close> that removes nothing.
\<close>

section \<open>State and operations\<close>

type_synonym 'a entry = "rat \<times> nat \<times> 'a"

abbreviation inserted :: "'a entry \<Rightarrow> rat" where "inserted e \<equiv> fst e"
abbreviation entry_item :: "'a entry \<Rightarrow> 'a" where "entry_item e \<equiv> snd (snd e)"

record 'a limited_set =
  maxlen :: int
  minlen :: int
  expires :: rat
  ls_data :: "('a, 'a entry) dict"
  ls_heap :: "'a entry heap"
  ls_seq :: nat

definition max_heap_percent_overload :: rat where
  "max_heap_percent_overload = 15"

definition ls_len :: "'a limited_set \<Rightarrow> int" where
  "ls_len s = int (length (ls_data s))"

definition heap_overload :: "'a limited_set \<Rightarrow> rat" where
  "heap_overload s =
     of_nat (length (ls_heap s)) * 100 / of_nat (max (length (ls_data s)) 1) - 100"

definition refresh_heap :: "'a::linorder limited_set \<Rightarrow> 'a limited_set" where
  "refresh_heap s = s\<lparr>ls_heap := heapify (vals (ls_data s))\<rparr>"

definition maybe_refresh_heap :: "'a::linorder limited_set \<Rightarrow> 'a limited_set" where
  "maybe_refresh_heap s =
     (if max_heap_percent_overload \<le> heap_overload s then refresh_heap s else s)"

definition clear :: "'a limited_set \<Rightarrow> 'a limited_set" where
  "clear s = s\<lparr>ls_data := [], ls_heap := []\<rparr>"

definition discard :: "'a::linorder \<Rightarrow> 'a limited_set \<Rightarrow> 'a limited_set" where
  "discard item s = maybe_refresh_heap (s\<lparr>ls_data := dict_del item (ls_data s)\<rparr>)"

text \<open>The loop of \<open>pop\<close>; on a non-empty heap \<open>heappop (e # h) = Inr (e, h)\<close>.\<close>

fun pop_loop :: "'a::linorder entry heap \<Rightarrow> ('a, 'a entry) dict \<Rightarrow>
    'a option \<times> 'a entry heap \<times> ('a, 'a entry) dict" where
  "pop_loop [] d = (None, [], d)"
| "pop_loop (e # h) d =
     (case dict_get d (entry_item e) of
        None \<Rightarrow> pop_loop h d
      | Some _ \<Rightarrow> (Some (entry_item e), h, dict_del (entry_item e) d))"

definition pop :: "'a::linorder limited_set \<Rightarrow> 'a option \<times> 'a limited_set" where
  "pop s = (case pop_loop (ls_heap s) (ls_data s) of
     (r, h, d) \<Rightarrow> (r, s\<lparr>ls_heap := h, ls_data := d\<rparr>))"

lemma pop_loop_length:
  "length (fst (snd (pop_loop h d))) \<le> length h - 1"
  by (induction h d rule: pop_loop.induct) (auto split: option.split)

lemma pop_length:
  assumes "ls_heap s \<noteq> []"
  shows "length (ls_heap (snd (pop s))) < length (ls_heap s)"
proof -
  have eq: "ls_heap (snd (pop s)) = fst (snd (pop_loop (ls_heap s) (ls_data s)))"
    by (simp add: pop_def split: prod.split)
  have "length (ls_heap s) > 0" using assms by simp
  then show ?thesis unfolding eq using pop_loop_length [of "ls_heap s" "ls_data s"] by linarith
qed

function purge_excess :: "'a::linorder limited_set \<Rightarrow> 'a limited_set result" where
  "purge_excess s =
     (if ls_len s > maxlen s
      then if ls_heap s = [] then Inl Diverges else purge_excess (snd (pop s))
      else Inr s)"
  by pat_completeness auto
termination
  by (relation "measure (\<lambda>s. length (ls_heap s))") (auto simp: pop_length)

function purge_expired :: "rat \<Rightarrow> 'a::linorder limited_set \<Rightarrow> 'a limited_set result" where
  "purge_expired now s =
     (if ls_len s > minlen s \<and> minlen s \<ge> 0
      then (case heap_top (ls_heap s) of
              Inl e \<Rightarrow> Inl e
            | Inr e \<Rightarrow> if inserted e + expires s > now then Inr s
                       else purge_expired now (snd (pop s)))
      else Inr s)"
  by pat_completeness auto
termination
  by (relation "measure (\<lambda>(now, s). length (ls_heap s))")
    (auto intro!: pop_length)

declare purge_excess.simps [simp del] purge_expired.simps [simp del]

definition purge :: "rat \<Rightarrow> 'a::linorder limited_set \<Rightarrow> 'a limited_set result" where
  "purge now s =
     res_bind (if maxlen s \<noteq> 0 then purge_excess s else Inr s)
       (\<lambda>s'. if expires s' \<noteq> 0 then purge_expired now s' else Inr s')"

definition add_entry :: "'a::linorder \<Rightarrow> rat \<Rightarrow> 'a limited_set \<Rightarrow> 'a limited_set" where
  "add_entry item now s =
     (let s = (if dict_get (ls_data s) item \<noteq> None then discard item s else s);
          e = (now, ls_seq s, item)
      in s\<lparr>ls_seq := Suc (ls_seq s), ls_data := dict_set item e (ls_data s),
            ls_heap := heappush (ls_heap s) e\<rparr>)"

definition add :: "rat \<Rightarrow> rat \<Rightarrow> 'a::linorder \<Rightarrow> rat option \<Rightarrow> 'a limited_set \<Rightarrow> 'a limited_set result" where
  "add clk clk' item now s =
     (let s = add_entry item (case now of None \<Rightarrow> clk | Some t \<Rightarrow> t) s
      in if maxlen s \<noteq> 0 \<and> ls_len s \<ge> maxlen s then purge clk' s else Inr s)"

datatype py_stamp = PyFloat rat | PySeq "py_stamp list" | PyOther

datatype 'a update_arg =
    FromSet "'a limited_set"
  | FromDict "('a, py_stamp) dict"
  | FromIter "'a list"

fun stamp_float :: "py_stamp \<Rightarrow> rat result" where
  "stamp_float (PyFloat t) = Inr t"
| "stamp_float PyOther = Inl ValueError"
| "stamp_float (PySeq []) = Inl IndexError"
| "stamp_float (PySeq (PyFloat t # _)) = Inr t"
| "stamp_float (PySeq (_ # _)) = Inl ValueError"

fun update_dict :: "(nat \<Rightarrow> rat) \<Rightarrow> ('a::linorder, py_stamp) dict \<Rightarrow> 'a limited_set \<Rightarrow> 'a limited_set result" where
  "update_dict clk [] s = Inr s"
| "update_dict clk ((key, v) # rest) s =
     res_bind (stamp_float v) (\<lambda>t.
     res_bind (add (clk 0) (clk 1) key (Some t) s) (\<lambda>s'.
     update_dict (\<lambda>i. clk (i + 2)) rest s'))"

fun update_iter :: "(nat \<Rightarrow> rat) \<Rightarrow> 'a::linorder list \<Rightarrow> 'a limited_set \<Rightarrow> 'a limited_set result" where
  "update_iter clk [] s = Inr s"
| "update_iter clk (x # xs) s =
     res_bind (add (clk 0) (clk 1) x None s) (\<lambda>s'. update_iter (\<lambda>i. clk (i + 2)) xs s')"

fun update :: "(nat \<Rightarrow> rat) \<Rightarrow> 'a::linorder update_arg \<Rightarrow> 'a limited_set \<Rightarrow> 'a limited_set result" where
  "update clk (FromSet other) s =
     (if ls_data other = [] then Inr s
      else purge (clk 0) (refresh_heap (s\<lparr>ls_data := dict_update (ls_data s) (ls_data other)\<rparr>)))"
| "update clk (FromDict d) s = update_dict clk d s"
| "update clk (FromIter xs) s = update_iter clk xs s"

definition empty_set :: "int \<Rightarrow> rat \<Rightarrow> int \<Rightarrow> 'a limited_set" where
  "empty_set mx ex mn =
     \<lparr>maxlen = mx, minlen = mn, expires = ex, ls_data = [], ls_heap = [], ls_seq = 0\<rparr>"

definition init :: "(nat \<Rightarrow> rat) \<Rightarrow> int \<Rightarrow> rat \<Rightarrow> 'a::linorder update_arg option \<Rightarrow> int \<Rightarrow> 'a limited_set result" where
  "init clk mx ex data mn =
     res_bind (case data of None \<Rightarrow> Inr (empty_set mx ex mn) | Some d \<Rightarrow> update clk d (empty_set mx ex mn))
       (\<lambda>s. if \<not> (maxlen s \<ge> minlen s \<and> minlen s \<ge> 0) then Inl ValueError
            else if expires s < 0 then Inl ValueError else Inr s)"

definition as_dict :: "'a limited_set \<Rightarrow> ('a, rat) dict" where
  "as_dict s = map (\<lambda>(_, e). (entry_item e, inserted e)) (ls_data s)"

definition ls_iter :: "'a::linorder limited_set \<Rightarrow> 'a list" where
  "ls_iter s = map entry_item (sort (vals (ls_data s)))"

definition ls_contains :: "'a \<Rightarrow> 'a limited_set \<Rightarrow> bool" where
  "ls_contains key s = (dict_get (ls_data s) key \<noteq> None)"

definition ls_eq :: "'a limited_set \<Rightarrow> 'a limited_set \<Rightarrow> bool" where
  "ls_eq s t \<longleftrightarrow> set (as_dict s) = set (as_dict t)"

definition ls_bool :: "'a limited_set \<Rightarrow> bool" where
  "ls_bool s \<longleftrightarrow> ls_data s \<noteq> []"

definition ls_reduce :: "'a limited_set \<Rightarrow> int \<times> rat \<times> 'a update_arg \<times> int" where
  "ls_reduce s = (maxlen s, expires s, FromDict (map (\<lambda>(k, t). (k, PyFloat t)) (as_dict s)), minlen s)"

section \<open>Invariant\<close>

text \<open>
  Keys are distinct and match their entries, the heap is in order, and every entry of the
  dictionary is in the heap. Stale heap entries are allowed.
\<close>

definition covered :: "('a, 'a entry) dict \<Rightarrow> 'a::linorder entry heap \<Rightarrow> bool" where
  "covered d h \<longleftrightarrow> (\<forall>(k, e) \<in> set d. entry_item e = k \<and> e \<in> set h)"

definition ls_inv :: "'a::linorder limited_set \<Rightarrow> bool" where
  "ls_inv s \<longleftrightarrow> dict_wf (ls_data s) \<and> sorted (ls_heap s) \<and> covered (ls_data s) (ls_heap s)"

definition same_limits :: "'a limited_set \<Rightarrow> 'a limited_set \<Rightarrow> bool" where
  "same_limits s t \<longleftrightarrow> maxlen t = maxlen s \<and> minlen t = minlen s \<and> expires t = expires s"

definition limits_ok :: "'a limited_set \<Rightarrow> bool" where
  "limits_ok s \<longleftrightarrow> 0 \<le> minlen s \<and> minlen s \<le> maxlen s \<and> 0 \<le> expires s"

text \<open>Entries of the heap beyond those of the dictionary: the stale ones of discarded or renewed items.\<close>

definition stale :: "'a limited_set \<Rightarrow> int" where
  "stale s = int (length (ls_heap s)) - int (length (ls_data s))"

text \<open>With a maximum size, at most one stale entry or fewer than 15 per cent of the maximum.\<close>

definition lean :: "'a limited_set \<Rightarrow> bool" where
  "lean s \<longleftrightarrow> maxlen s \<noteq> 0 \<longrightarrow> stale s \<le> 1 \<or> 100 * stale s < 15 * maxlen s"

definition within_maxlen :: "'a limited_set \<Rightarrow> bool" where
  "within_maxlen s \<longleftrightarrow> maxlen s \<noteq> 0 \<longrightarrow> ls_len s \<le> maxlen s"

lemma same_limits_refl [simp]: "same_limits s s"
  by (simp add: same_limits_def)

lemma same_limits_trans: "same_limits s t \<Longrightarrow> same_limits t u \<Longrightarrow> same_limits s u"
  by (simp add: same_limits_def)

lemma coveredD: "covered d h \<Longrightarrow> (k, e) \<in> set d \<Longrightarrow> entry_item e = k \<and> e \<in> set h"
  by (auto simp: covered_def)

lemma covered_sub: "covered d h \<Longrightarrow> set d' \<subseteq> set d \<Longrightarrow> covered d' h"
  by (auto simp: covered_def)

lemma ls_inv_empty [simp, inv_intros]: "ls_inv (empty_set mx ex mn)"
  by (simp add: ls_inv_def empty_set_def covered_def)

lemma ls_inv_clear [inv_intros]: "ls_inv (clear s)"
  by (simp add: ls_inv_def clear_def covered_def)

lemma ls_inv_refresh:
  "dict_wf (ls_data s) \<Longrightarrow> (\<forall>(k, e) \<in> set (ls_data s). entry_item e = k) \<Longrightarrow> ls_inv (refresh_heap s)"
  by (force simp: ls_inv_def refresh_heap_def covered_def sorted_heap.ok_build)

lemma refresh_heap_frame [simp]:
  "ls_data (refresh_heap s) = ls_data s" "same_limits s (refresh_heap s)" "ls_seq (refresh_heap s) = ls_seq s"
  by (simp_all add: refresh_heap_def same_limits_def)

lemma maybe_refresh_frame [simp]:
  "ls_data (maybe_refresh_heap s) = ls_data s" "same_limits s (maybe_refresh_heap s)"
  "ls_seq (maybe_refresh_heap s) = ls_seq s"
  by (simp_all add: maybe_refresh_heap_def)

lemma ls_inv_maybe_refresh: "ls_inv s \<Longrightarrow> ls_inv (maybe_refresh_heap s)"
  by (auto simp: maybe_refresh_heap_def intro!: ls_inv_refresh) (auto simp: ls_inv_def covered_def)

lemma discard_frame [simp]:
  "ls_data (discard item s) = dict_del item (ls_data s)" "same_limits s (discard item s)"
  "ls_seq (discard item s) = ls_seq s"
  using maybe_refresh_frame(2) [of "s\<lparr>ls_data := dict_del item (ls_data s)\<rparr>"]
  by (simp_all add: discard_def same_limits_def)

lemma ls_inv_discard [inv_intros]: "ls_inv s \<Longrightarrow> ls_inv (discard item s)"
  unfolding discard_def
  by (rule ls_inv_maybe_refresh)
    (auto simp: ls_inv_def inv_intros set_dict_del intro: covered_sub)

lemma stale_refresh [simp]: "stale (refresh_heap s) = 0"
  by (simp add: stale_def refresh_heap_def)

text \<open>A refresh is due at an overload of 15 per cent, so there is less after one may have happened.\<close>

lemma overload_refreshed: "heap_overload (maybe_refresh_heap s) < max_heap_percent_overload"
proof (cases "max_heap_percent_overload \<le> heap_overload s")
  case True
  have "length (ls_heap (refresh_heap s)) = length (ls_data s)"
    using stale_refresh [of s] by (simp add: stale_def)
  then have "heap_overload (refresh_heap s) \<le> 0"
    by (simp add: heap_overload_def divide_simps max_def)
  with True show ?thesis by (simp add: maybe_refresh_heap_def max_heap_percent_overload_def)
qed (simp add: maybe_refresh_heap_def)

lemma overload_stale:
  assumes "heap_overload s < max_heap_percent_overload"
  shows "stale s \<le> 1 \<or> 100 * stale s < 15 * ls_len s"
proof (cases "ls_data s")
  case Nil
  with assms have "of_nat (length (ls_heap s)) * (100 :: rat) < 115"
    by (simp add: heap_overload_def max_heap_percent_overload_def)
  then have "length (ls_heap s) * 100 < 115" by (metis of_nat_less_iff of_nat_mult of_nat_numeral)
  with Nil show ?thesis by (simp add: stale_def)
next
  case (Cons p d)
  then have "of_nat (length (ls_heap s)) * 100 < (115 :: rat) * of_nat (length (ls_data s))"
    using assms by (simp add: heap_overload_def max_heap_percent_overload_def divide_simps)
  then have "of_nat (length (ls_heap s) * 100) < (of_nat (115 * length (ls_data s)) :: rat)" by simp
  then have "length (ls_heap s) * 100 < 115 * length (ls_data s)" by (simp only: of_nat_less_iff)
  then show ?thesis by (simp add: stale_def ls_len_def)
qed

lemma lean_discard:
  assumes "within_maxlen s"
  shows "lean (discard item s)"
proof -
  have "heap_overload (discard item s) < max_heap_percent_overload"
    unfolding discard_def by (rule overload_refreshed)
  then have "stale (discard item s) \<le> 1 \<or> 100 * stale (discard item s) < 15 * ls_len (discard item s)"
    by (rule overload_stale)
  moreover have "ls_len (discard item s) \<le> ls_len s"
    using length_delete_le [of item "ls_data s"] by (simp add: ls_len_def)
  ultimately show ?thesis
    using assms discard_frame(2) [of s item] by (auto simp: lean_def within_maxlen_def same_limits_def)
qed

section \<open>pop\<close>

lemma pop_loop_stale:
  "dict_wf d \<Longrightarrow> pop_loop h d = (r, h', d') \<Longrightarrow> int (length h') - int (length d') \<le> int (length h) - int (length d)"
proof (induction h d rule: pop_loop.induct)
  case (2 e h d)
  show ?case
  proof (cases "dict_get d (entry_item e)")
    case (Some v)
    then have "entry_item e \<in> set (keys d)" using dict_get_Some_iff by metis
    with 2 Some show ?thesis using length_dict_del [of d "entry_item e"] by auto
  qed (use 2 in fastforce)
qed simp

lemma pop_stale: "ls_inv s \<Longrightarrow> stale (snd (pop s)) \<le> stale s"
  using pop_loop_stale [of "ls_data s" "ls_heap s"]
  by (auto simp: stale_def pop_def ls_inv_def split: prod.split)

lemma pop_loop_spec:
  assumes "dict_wf d" and "sorted h" and "covered d h" and "pop_loop h d = (r, h', d')"
  shows "dict_wf d' \<and> sorted h' \<and> covered d' h' \<and> set h' \<subseteq> set h \<and>
    (case r of None \<Rightarrow> d = [] \<and> d' = [] | Some x \<Rightarrow> x \<in> set (keys d) \<and> d' = dict_del x d)"
  using assms
proof (induction h d rule: pop_loop.induct)
  case (1 d)
  then show ?case by (cases d) (auto simp: covered_def)
next
  case (2 e h d)
  show ?case
  proof (cases "dict_get d (entry_item e)")
    case None
    then have "covered d h"
      using 2(4) by (fastforce simp: covered_def dict_get_None_iff image_iff)
    then show ?thesis using 2 None by (auto split: option.splits)
  next
    case (Some v)
    then have "r = Some (entry_item e)" "h' = h" "d' = dict_del (entry_item e) d"
      using 2(5) by auto
    moreover have "entry_item e \<in> set (keys d)"
      using Some dict_get_Some_iff by metis
    moreover have "covered (dict_del (entry_item e) d) h"
      using 2(4) by (auto simp: covered_def set_dict_del)
    ultimately show ?thesis using 2 by (auto simp: inv_intros)
  qed
qed

lemma pop_spec:
  assumes "ls_inv s" and "pop s = (r, s')"
  shows "ls_inv s' \<and> same_limits s s' \<and> set (ls_heap s') \<subseteq> set (ls_heap s) \<and> ls_seq s' = ls_seq s \<and>
    (case r of None \<Rightarrow> ls_data s = [] \<and> ls_data s' = []
     | Some x \<Rightarrow> ls_contains x s \<and> ls_data s' = dict_del x (ls_data s))"
proof -
  obtain h d where p: "pop_loop (ls_heap s) (ls_data s) = (r, h, d)"
    and s': "s' = s\<lparr>ls_heap := h, ls_data := d\<rparr>"
    using assms(2) by (auto simp: pop_def split: prod.splits)
  show ?thesis
    using pop_loop_spec [OF _ _ _ p] assms(1)
    by (auto simp: ls_inv_def s' same_limits_def ls_contains_def dict_get_None_iff split: option.splits)
qed

lemma pop_len:
  assumes "ls_inv s" and "pop s = (r, s')" and "ls_data s \<noteq> []"
  shows "ls_len s' = ls_len s - 1"
proof -
  obtain x where "r = Some x" using pop_spec [OF assms(1,2)] assms(3) by (cases r) auto
  then have "x \<in> set (keys (ls_data s))" "ls_data s' = dict_del x (ls_data s)"
    using pop_spec [OF assms(1,2)] by (auto simp: ls_contains_def dict_get_None_iff)
  moreover have "dict_wf (ls_data s)" using assms(1) by (simp add: ls_inv_def)
  ultimately show ?thesis using length_dict_del [of "ls_data s" x] by (simp add: ls_len_def)
qed

lemma heap_nonempty: "ls_inv s \<Longrightarrow> ls_data s \<noteq> [] \<Longrightarrow> ls_heap s \<noteq> []"
  by (cases "ls_data s") (auto simp: ls_inv_def covered_def)

section \<open>purge, add and update keep the invariant\<close>

text \<open>What a purge may do to a set: keep the invariant and the limits, and only remove items.\<close>

definition shrunk :: "'a::linorder limited_set \<Rightarrow> 'a limited_set \<Rightarrow> bool" where
  "shrunk s t \<longleftrightarrow> ls_inv t \<and> same_limits s t \<and> set (ls_data t) \<subseteq> set (ls_data s)
     \<and> set (ls_heap t) \<subseteq> set (ls_heap s) \<and> ls_len t \<le> ls_len s \<and> ls_seq t = ls_seq s \<and> stale t \<le> stale s"

lemma shrunk_refl: "ls_inv s \<Longrightarrow> shrunk s s"
  by (simp add: shrunk_def)

lemma shrunk_trans: "shrunk s t \<Longrightarrow> shrunk t u \<Longrightarrow> shrunk s u"
  by (auto simp: shrunk_def same_limits_def)

lemma shrunk_pop:
  assumes "ls_inv s"
  shows "shrunk s (snd (pop s))"
proof (cases "ls_data s = []")
  case True
  then show ?thesis
    using pop_spec [OF assms surjective_pairing] pop_stale [OF assms]
    by (auto simp: shrunk_def ls_len_def split: option.splits)
next
  case False
  then show ?thesis
    using pop_spec [OF assms surjective_pairing] pop_len [OF assms surjective_pairing] pop_stale [OF assms]
    by (auto simp: shrunk_def set_dict_del split: option.splits)
qed

lemma purge_excess_spec:
  assumes "ls_inv s" and "0 \<le> maxlen s"
  shows "\<exists>t. purge_excess s = Inr t \<and> shrunk s t \<and> ls_len t \<le> maxlen s"
  using assms
proof (induction s rule: purge_excess.induct)
  case (1 s)
  show ?case
  proof (cases "ls_len s > maxlen s")
    case False
    then show ?thesis using "1.prems" by (simp add: purge_excess.simps [of s] shrunk_refl)
  next
    case True
    then have ne: "ls_data s \<noteq> []" using "1.prems" by (auto simp: ls_len_def)
    then have hne: "ls_heap s \<noteq> []" using "1.prems" heap_nonempty by blast
    have sh: "shrunk s (snd (pop s))" using "1.prems" shrunk_pop by blast
    then have "ls_inv (snd (pop s))" "maxlen (snd (pop s)) = maxlen s"
      by (auto simp: shrunk_def same_limits_def)
    then obtain t where "purge_excess (snd (pop s)) = Inr t" "shrunk (snd (pop s)) t" "ls_len t \<le> maxlen s"
      using "1.IH" [OF True hne] "1.prems" by auto
    then show ?thesis
      using True hne shrunk_trans [OF sh] by (auto simp: purge_excess.simps [of s])
  qed
qed

lemma purge_expired_spec:
  assumes "ls_inv s"
  shows "\<exists>t. purge_expired now s = Inr t \<and> shrunk s t \<and>
    (ls_len t \<le> minlen s \<or> minlen s < 0 \<or> (\<forall>e \<in> set (ls_heap t). now < inserted e + expires s))"
  using assms
proof (induction now s rule: purge_expired.induct)
  case (1 now s)
  show ?case
  proof (cases "ls_len s > minlen s \<and> minlen s \<ge> 0")
    case False
    then show ?thesis using "1.prems" by (auto simp: purge_expired.simps [of now s] shrunk_refl)
  next
    case True
    then have "ls_data s \<noteq> []" by (auto simp: ls_len_def)
    then have "ls_heap s \<noteq> []" using "1.prems" heap_nonempty by blast
    then obtain e h where h: "ls_heap s = e # h" by (cases "ls_heap s") auto
    show ?thesis
    proof (cases "inserted e + expires s > now")
      case late: True
      have "now < inserted e' + expires s" if "e' \<in> set (ls_heap s)" for e'
      proof -
        have "e \<le> e'" using that h "1.prems" by (auto simp: ls_inv_def)
        then have "inserted e \<le> inserted e'" by (auto simp: less_eq_prod_def)
        then show ?thesis using late by linarith
      qed
      then show ?thesis using True h late "1.prems"
        by (auto simp: purge_expired.simps [of now s] shrunk_refl)
    next
      case early: False
      have sh: "shrunk s (snd (pop s))" using "1.prems" shrunk_pop by blast
      then have lim: "ls_inv (snd (pop s))" "minlen (snd (pop s)) = minlen s" "expires (snd (pop s)) = expires s"
        by (auto simp: shrunk_def same_limits_def)
      have "heap_top (ls_heap s) = Inr e" using h by simp
      from "1.IH" [OF True this early lim(1)] obtain t where "purge_expired now (snd (pop s)) = Inr t"
        "shrunk (snd (pop s)) t"
        "ls_len t \<le> minlen s \<or> minlen s < 0 \<or> (\<forall>e \<in> set (ls_heap t). now < inserted e + expires s)"
        unfolding lim by blast
      then show ?thesis
        using True h early shrunk_trans [OF sh] by (auto simp: purge_expired.simps [of now s])
    qed
  qed
qed

lemma purge_spec:
  assumes "ls_inv s" and "0 \<le> maxlen s"
  shows "\<exists>t. purge now s = Inr t \<and> shrunk s t \<and> within_maxlen t \<and>
    (expires s \<noteq> 0 \<longrightarrow> ls_len t \<le> minlen s \<or> minlen s < 0 \<or> (\<forall>e \<in> set (ls_heap t). now < inserted e + expires s))"
proof -
  obtain u where u: "(if maxlen s \<noteq> 0 then purge_excess s else Inr s) = Inr u" "shrunk s u" "within_maxlen u"
  proof (cases "maxlen s = 0")
    case True
    then show ?thesis using that assms by (auto simp: shrunk_refl within_maxlen_def)
  next
    case False
    obtain t where "purge_excess s = Inr t" "shrunk s t" "ls_len t \<le> maxlen s"
      using purge_excess_spec [OF assms] by blast
    then show ?thesis using that False by (auto simp: within_maxlen_def shrunk_def same_limits_def)
  qed
  have lim: "ls_inv u" "minlen u = minlen s" "expires u = expires s"
    using u(2) by (auto simp: shrunk_def same_limits_def)
  show ?thesis
  proof (cases "expires s = 0")
    case True
    then show ?thesis using u lim by (simp add: purge_def)
  next
    case False
    obtain t where t: "purge_expired now u = Inr t" "shrunk u t"
      "ls_len t \<le> minlen s \<or> minlen s < 0 \<or> (\<forall>e \<in> set (ls_heap t). now < inserted e + expires s)"
      using purge_expired_spec [OF lim(1), of now] unfolding lim by blast
    have "within_maxlen t" using t(2) u(3) by (auto simp: within_maxlen_def shrunk_def same_limits_def)
    then show ?thesis using u(1) t False lim shrunk_trans [OF u(2) t(2)] by (auto simp: purge_def)
  qed
qed

lemma add_entry_data:
  assumes "dict_wf (ls_data s)"
  shows "ls_data (add_entry item now s) = dict_del item (ls_data s) @ [(item, now, ls_seq s, item)]"
proof -
  have "item \<notin> set (keys (dict_del item (ls_data s)))" by (simp add: set_keys_del)
  then show ?thesis
    using assms dict_set_fresh [of item "dict_del item (ls_data s)"]
    by (auto simp: add_entry_def Let_def dict_get_None_iff dict_set_fresh)
qed

lemma add_entry_frame [simp]:
  "same_limits s (add_entry item now s)" "ls_seq (add_entry item now s) = Suc (ls_seq s)"
  using discard_frame(2) [of s item] by (auto simp: add_entry_def Let_def same_limits_def)

lemma ls_inv_add_entry [inv_intros]:
  assumes "ls_inv s"
  shows "ls_inv (add_entry item now s)"
proof -
  define t where "t = (if dict_get (ls_data s) item \<noteq> None then discard item s else s)"
  have t: "ls_inv t" using assms by (auto simp: t_def inv_intros)
  have sq: "ls_seq t = ls_seq s" by (simp add: t_def)
  have eq: "add_entry item now s = t\<lparr>ls_seq := Suc (ls_seq s),
      ls_data := dict_set item (now, ls_seq s, item) (ls_data t),
      ls_heap := heappush (ls_heap t) (now, ls_seq s, item)\<rparr>"
    by (simp add: add_entry_def Let_def t_def)
  show ?thesis
    using t by (auto simp: eq ls_inv_def covered_def inv_intros set_dict_set sorted_heap.ok_push)
qed

lemma stale_add_entry:
  "ls_inv s \<Longrightarrow> stale (add_entry item now s) = stale (if dict_get (ls_data s) item \<noteq> None then discard item s else s)"
  by (auto simp: stale_def add_entry_def Let_def length_dict_set dict_get_None_iff)

lemma lean_shrunk: "shrunk s t \<Longrightarrow> lean s \<Longrightarrow> lean t"
  by (auto simp: shrunk_def lean_def same_limits_def)

lemma lean_add_entry:
  assumes "ls_inv s" and "within_maxlen s" and "lean s"
  shows "lean (add_entry item now s)"
  using assms stale_add_entry [OF assms(1), of item now] lean_discard [OF assms(2), of item]
    add_entry_frame(1) [of s item now] discard_frame(2) [of s item]
  by (auto simp: lean_def same_limits_def split: if_splits)

lemma add_spec:
  assumes "ls_inv s" and "0 \<le> maxlen s"
  shows "\<exists>t. add clk clk' item now s = Inr t \<and> ls_inv t \<and> same_limits s t \<and> within_maxlen t
    \<and> (within_maxlen s \<and> lean s \<longrightarrow> lean t)"
proof -
  define u where "u = add_entry item (case now of None \<Rightarrow> clk | Some t \<Rightarrow> t) s"
  have u: "ls_inv u" "same_limits s u" using assms by (auto simp: u_def inv_intros)
  then have "0 \<le> maxlen u" using assms by (simp add: same_limits_def)
  then obtain t where t: "purge clk' u = Inr t" "shrunk u t" "within_maxlen t"
    using purge_spec [OF u(1)] by blast
  have "same_limits s t" using u(2) t(2) by (auto simp: shrunk_def same_limits_def)
  moreover have "within_maxlen s \<and> lean s \<longrightarrow> lean u \<and> lean t"
    using lean_add_entry [OF assms(1)] lean_shrunk [OF t(2)] by (simp add: u_def)
  ultimately show ?thesis
    using u t by (auto simp: add_def u_def [symmetric] shrunk_def within_maxlen_def)
qed

fun arg_ok :: "'a::linorder update_arg \<Rightarrow> bool" where
  "arg_ok (FromSet other) = ls_inv other"
| "arg_ok (FromDict d) = True"
| "arg_ok (FromIter xs) = True"

definition bounded :: "'a limited_set \<Rightarrow> bool" where
  "bounded s \<longleftrightarrow> within_maxlen s \<and> lean s"

lemma update_dict_spec:
  assumes "ls_inv s" and "0 \<le> maxlen s" and "bounded s" and "update_dict clk d s = Inr t"
  shows "ls_inv t \<and> same_limits s t \<and> bounded t"
  using assms
proof (induction clk d s rule: update_dict.induct)
  case (1 clk s)
  then show ?case by auto
next
  case (2 clk key v rest s)
  obtain x u where x: "stamp_float v = Inr x" "add (clk 0) (clk 1) key (Some x) s = Inr u"
    "update_dict (\<lambda>i. clk (i + 2)) rest u = Inr t"
    using "2.prems" by (auto simp: res_bind_Inr_iff)
  have u: "ls_inv u" "same_limits s u" "bounded u"
    using add_spec [OF "2.prems"(1,2), of "clk 0" "clk 1" key "Some x"] x(2) "2.prems"(3) by (auto simp: bounded_def)
  then show ?case
    using "2.IH" [OF x(1,2) u(1)] x(3) "2.prems" same_limits_trans [OF u(2)] by (auto simp: same_limits_def)
qed

lemma update_iter_spec:
  assumes "ls_inv s" and "0 \<le> maxlen s" and "bounded s"
  shows "\<exists>t. update_iter clk xs s = Inr t \<and> ls_inv t \<and> same_limits s t \<and> bounded t"
  using assms
proof (induction xs arbitrary: clk s)
  case Nil
  then show ?case by auto
next
  case (Cons x xs)
  obtain u where u: "add (clk 0) (clk 1) x None s = Inr u" "ls_inv u" "same_limits s u" "bounded u"
    using add_spec [OF Cons.prems(1,2)] Cons.prems(3) unfolding bounded_def by blast
  moreover have "0 \<le> maxlen u" using u(3) Cons.prems(2) by (simp add: same_limits_def)
  ultimately show ?case
    using Cons.IH [of u "\<lambda>i. clk (i + 2)"] same_limits_trans [OF u(3)] by auto
qed

text \<open>The entries of another set, merged into the dictionary before the heap is rebuilt.\<close>

lemma ls_inv_merged:
  assumes "ls_inv s" and "ls_inv other"
  shows "ls_inv (refresh_heap (s\<lparr>ls_data := dict_update (ls_data s) (ls_data other)\<rparr>))"
proof -
  have wf: "dict_wf (ls_data s)" "dict_wf (ls_data other)" using assms by (auto simp: ls_inv_def)
  have "entry_item e = k" if "(k, e) \<in> set (dict_update (ls_data s) (ls_data other))" for k e
  proof -
    have "dict_get (dict_update (ls_data s) (ls_data other)) k = Some e"
      using that wf by (simp add: dict_get_iff_mem inv_intros)
    then have "(k, e) \<in> set (ls_data other) \<or> (k, e) \<in> set (ls_data s)"
      using wf by (auto simp: dict_get_update dict_get_iff_mem split: option.splits dest: dict_get_mem)
    then show ?thesis using assms by (auto simp: ls_inv_def dest: coveredD)
  qed
  then show ?thesis by (intro ls_inv_refresh) (auto simp: wf inv_intros)
qed

lemma update_set_spec:
  assumes "ls_inv s" and "0 \<le> maxlen s" and "bounded s" and "ls_inv other"
  shows "\<exists>t. update clk (FromSet other) s = Inr t \<and> ls_inv t \<and> same_limits s t \<and> bounded t"
proof -
  define u where "u = refresh_heap (s\<lparr>ls_data := dict_update (ls_data s) (ls_data other)\<rparr>)"
  have inv: "ls_inv u" unfolding u_def using assms(1,4) by (rule ls_inv_merged)
  have su: "same_limits s u"
    using refresh_heap_frame(2) [of "s\<lparr>ls_data := dict_update (ls_data s) (ls_data other)\<rparr>"]
    by (simp add: u_def same_limits_def)
  then have "0 \<le> maxlen u" using assms(2) by (simp add: same_limits_def)
  then obtain v where v: "purge (clk 0) u = Inr v" "shrunk u v" "within_maxlen v"
    using purge_spec [OF inv] by blast
  have "lean u" by (simp add: u_def lean_def)
  then have "bounded v" using v lean_shrunk by (auto simp: bounded_def)
  then show ?thesis
    using v assms su by (auto simp: u_def [symmetric] shrunk_def same_limits_def)
qed

lemma update_spec:
  assumes "ls_inv s" and "0 \<le> maxlen s" and "bounded s" and "arg_ok a" and "update clk a s = Inr t"
  shows "ls_inv t \<and> same_limits s t \<and> bounded t"
proof (cases a)
  case (FromDict d)
  then show ?thesis using assms update_dict_spec by auto
next
  case (FromIter xs)
  then show ?thesis using assms update_iter_spec [of s clk xs] by auto
next
  case (FromSet other)
  then show ?thesis using assms update_set_spec [OF assms(1-3), of other clk] by auto
qed

text \<open>No operation changes the limits, whatever they are.\<close>

lemma pop_limits: "same_limits s (snd (pop s))"
  by (simp add: pop_def same_limits_def split: prod.split)

lemma purge_excess_limits: "purge_excess s = Inr t \<Longrightarrow> same_limits s t"
proof (induction s rule: purge_excess.induct)
  case (1 s)
  then show ?case
    using pop_limits [of s]
    by (auto simp: purge_excess.simps [of s] same_limits_def split: if_splits)
qed

lemma purge_expired_limits: "purge_expired now s = Inr t \<Longrightarrow> same_limits s t"
proof (induction now s rule: purge_expired.induct)
  case (1 now s)
  then show ?case
    using pop_limits [of s]
    by (auto simp: purge_expired.simps [of now s] same_limits_def split: if_splits sum.splits)
qed

lemma purge_limits: "purge now s = Inr t \<Longrightarrow> same_limits s t"
  by (auto simp: purge_def res_bind_Inr_iff split: if_splits
      dest!: purge_excess_limits purge_expired_limits intro: same_limits_trans)

lemma add_limits: "add clk clk' item now s = Inr t \<Longrightarrow> same_limits s t"
  by (auto simp: add_def Let_def split: if_splits dest!: purge_limits intro: same_limits_trans add_entry_frame)

lemma update_dict_limits: "update_dict clk d s = Inr t \<Longrightarrow> same_limits s t"
  by (induction clk d s rule: update_dict.induct)
    (auto simp: res_bind_Inr_iff intro: same_limits_trans [OF add_limits])

lemma update_iter_limits: "update_iter clk xs s = Inr t \<Longrightarrow> same_limits s t"
  by (induction clk xs s rule: update_iter.induct)
    (auto simp: res_bind_Inr_iff intro: same_limits_trans [OF add_limits])

lemma update_maxlen: "update clk a s = Inr t \<Longrightarrow> maxlen t = maxlen s"
proof (cases a)
  case (FromSet other)
  moreover assume "update clk a s = Inr t"
  ultimately show ?thesis
    by (auto split: if_splits dest!: purge_limits simp: same_limits_def refresh_heap_def)
next
  case (FromDict d)
  moreover assume "update clk a s = Inr t"
  ultimately show ?thesis using update_dict_limits by (auto simp: same_limits_def)
next
  case (FromIter xs)
  moreover assume "update clk a s = Inr t"
  ultimately show ?thesis using update_iter_limits by (auto simp: same_limits_def)
qed

section \<open>Sequences of calls\<close>

datatype 'a ls_call =
    CAdd rat rat 'a "rat option"
  | CDiscard 'a
  | CPop
  | CPurge rat
  | CUpdate "nat \<Rightarrow> rat" "'a update_arg"
  | CClear

fun ls_exec :: "'a::linorder ls_call \<Rightarrow> 'a limited_set \<Rightarrow> 'a limited_set result" where
  "ls_exec (CAdd clk clk' item now) s = add clk clk' item now s"
| "ls_exec (CDiscard item) s = Inr (discard item s)"
| "ls_exec CPop s = Inr (snd (pop s))"
| "ls_exec (CPurge now) s = purge now s"
| "ls_exec (CUpdate clk a) s = update clk a s"
| "ls_exec CClear s = Inr (clear s)"

fun call_ok :: "'a::linorder ls_call \<Rightarrow> bool" where
  "call_ok (CUpdate clk a) = arg_ok a"
| "call_ok _ = True"

definition ls_start :: "'a::linorder limited_set \<Rightarrow> bool" where
  "ls_start s \<longleftrightarrow> (\<exists>clk mx ex data mn. (\<forall>a. data = Some a \<longrightarrow> arg_ok a) \<and> init clk mx ex data mn = Inr s)"

definition ls_step :: "'a::linorder limited_set \<Rightarrow> 'a ls_call \<Rightarrow> 'a limited_set \<Rightarrow> bool" where
  "ls_step s c t \<longleftrightarrow> call_ok c \<and> ls_exec c s = Inr t"

definition ls_good :: "'a::linorder limited_set \<Rightarrow> bool" where
  "ls_good s \<longleftrightarrow> ls_inv s \<and> limits_ok s \<and> bounded s"

lemma init_good:
  assumes "init clk mx ex data mn = Inr s" and "\<forall>a. data = Some a \<longrightarrow> arg_ok a"
  shows "ls_good s"
proof -
  let ?e = "empty_set mx ex mn :: 'a limited_set"
  have e: "ls_inv ?e" "maxlen ?e = mx" "minlen ?e = mn" "expires ?e = ex"
    by (simp_all only: ls_inv_empty) (simp_all add: empty_set_def)
  have s: "(case data of None \<Rightarrow> Inr ?e | Some d \<Rightarrow> update clk d ?e) = Inr s"
    "maxlen s \<ge> minlen s" "minlen s \<ge> 0" "expires s \<ge> 0"
    using assms(1) by (auto simp: init_def res_bind_Inr_iff not_less split: if_splits)
  show ?thesis
  proof (cases data)
    case None
    then show ?thesis using s e by (auto simp: ls_good_def limits_ok_def bounded_def within_maxlen_def lean_def stale_def ls_len_def empty_set_def)
  next
    case (Some a)
    show ?thesis
    proof (cases "0 \<le> mx")
      case True
      then have "bounded ?e" by (simp add: bounded_def within_maxlen_def lean_def stale_def ls_len_def empty_set_def)
      then show ?thesis
        using update_spec [of ?e a clk s] e True s Some assms(2) by (auto simp: ls_good_def limits_ok_def)
    next
      case False
      have "maxlen s = mx"
        using s(1) Some update_maxlen [of clk a ?e s] by (simp add: e)
      then show ?thesis using False s by simp
    qed
  qed
qed

lemma ls_step_good:
  assumes "ls_good s" and "ls_step s c t"
  shows "ls_good t"
proof -
  have s: "ls_inv s" "0 \<le> maxlen s" "bounded s" "limits_ok s"
    using assms(1) by (auto simp: ls_good_def limits_ok_def)
  have "ls_inv t \<and> same_limits s t \<and> bounded t"
  proof (cases c)
    case (CAdd clk clk' item now)
    then show ?thesis using assms(2) add_spec [OF s(1,2), of clk clk' item now] s(3) by (auto simp: ls_step_def bounded_def)
  next
    case (CDiscard item)
    then have t: "t = discard item s" using assms(2) by (simp add: ls_step_def)
    have "within_maxlen t"
      using s(3) length_delete_le [of item "ls_data s"] discard_frame(2) [of s item]
      by (auto simp: t bounded_def within_maxlen_def ls_len_def same_limits_def)
    moreover have "lean t" using s(3) by (simp add: t bounded_def lean_discard)
    ultimately have "bounded t" by (simp add: bounded_def)
    then show ?thesis using t s by (auto simp: inv_intros)
  next
    case CPop
    then show ?thesis using assms(2) s shrunk_pop [OF s(1)]
      by (auto simp: ls_step_def shrunk_def bounded_def within_maxlen_def lean_def stale_def same_limits_def)
  next
    case (CPurge now)
    then obtain u where "purge now s = Inr u" "shrunk s u" "within_maxlen u" "t = u"
      using assms(2) purge_spec [OF s(1,2), of now] by (auto simp: ls_step_def)
    then show ?thesis using s(3) lean_shrunk by (auto simp: shrunk_def bounded_def)
  next
    case (CUpdate clk a)
    then show ?thesis using assms(2) update_spec [OF s(1-3)] by (auto simp: ls_step_def)
  next
    case CClear
    then show ?thesis using assms(2) s
      by (auto simp: ls_step_def inv_intros) (auto simp: clear_def same_limits_def bounded_def within_maxlen_def lean_def stale_def ls_len_def limits_ok_def)
  qed
  then show ?thesis using s by (auto simp: ls_good_def limits_ok_def same_limits_def)
qed

text \<open>The stamps of a dictionary given to \<open>update\<close> are floating point numbers, or sequences that start with one.\<close>

fun well_stamped :: "'a ls_call \<Rightarrow> bool" where
  "well_stamped (CUpdate clk (FromDict d)) = list_all (\<lambda>(k, v). \<not> isl (stamp_float v)) d"
| "well_stamped _ = True"

lemma update_dict_total:
  assumes "ls_inv s" and "0 \<le> maxlen s" and "list_all (\<lambda>(k, v). \<not> isl (stamp_float v)) d"
  shows "\<exists>t. update_dict clk d s = Inr t"
  using assms
proof (induction clk d s rule: update_dict.induct)
  case (2 clk key v rest s)
  then obtain x where x: "stamp_float v = Inr x" by (cases "stamp_float v") auto
  obtain u where u: "add (clk 0) (clk 1) key (Some x) s = Inr u" "ls_inv u" "same_limits s u"
    using add_spec [OF "2.prems"(1,2)] by blast
  with 2 x show ?case by (simp add: same_limits_def)
qed simp

lemma ls_exec_total:
  assumes "ls_good s" and "call_ok c" and "well_stamped c"
  shows "\<exists>t. ls_exec c s = Inr t"
proof -
  have s: "ls_inv s" "0 \<le> maxlen s" "bounded s"
    using assms(1) by (auto simp: ls_good_def limits_ok_def)
  show ?thesis
  proof (cases c)
    case (CAdd clk clk' item now)
    then show ?thesis using add_spec [OF s(1,2), of clk clk' item now] by auto
  next
    case (CPurge now)
    then show ?thesis using purge_spec [OF s(1,2), of now] by auto
  next
    case (CUpdate clk a)
    show ?thesis
    proof (cases a)
      case (FromSet other)
      then show ?thesis using CUpdate assms(2) update_set_spec [OF s, of other clk] by auto
    next
      case (FromDict d)
      then show ?thesis using CUpdate assms(3) update_dict_total [OF s(1,2)] by simp
    next
      case (FromIter xs)
      then show ?thesis using CUpdate update_iter_spec [OF s, of clk xs] by auto
    qed
  qed simp_all
qed

interpretation ls_system: invariant_system ls_start ls_step ls_good
  by unfold_locales (auto simp: ls_start_def intro: init_good ls_step_good)

section \<open>Properties\<close>

text \<open>
  C10: a limited set stays consistent and bounded under any sequence of calls. In every state
  reached from the constructor by \<open>add\<close>, \<open>discard\<close>, \<open>pop\<close>, \<open>purge\<close>, \<open>update\<close> and \<open>clear\<close>
  the entries match their keys and are all in the heap. When a maximum is set, the set holds at
  most \<open>maxlen\<close> items, and the heap exceeds them by at most one entry or by less than 15 per cent
  of the maximum; after a \<open>discard\<close> the overload of the heap is below
  \<open>max_heap_percent_overload\<close>, with or without a maximum. No further call raises or spins:
  \<open>update\<close> alone can raise, for a dictionary with a value that is no time stamp.
\<close>

theorem limited_set_reachable:
  fixes s :: "'a::linorder limited_set"
  assumes "reach ls_start ls_step s"
  shows "ls_inv s \<and> limits_ok s
    \<and> (maxlen s \<noteq> 0 \<longrightarrow> ls_len s \<le> maxlen s
         \<and> (int (length (ls_heap s)) \<le> ls_len s + 1 \<or> 100 * (int (length (ls_heap s)) - ls_len s) < 15 * maxlen s))
    \<and> (\<forall>item. heap_overload (discard item s) < max_heap_percent_overload)
    \<and> (\<forall>c. call_ok c \<and> well_stamped c \<longrightarrow> (\<exists>t. ls_exec c s = Inr t))"
proof -
  have g: "ls_inv s" "limits_ok s" "bounded s"
    using ls_system.inv_reach [OF assms] by (auto simp: ls_good_def)
  have "heap_overload (discard item s) < max_heap_percent_overload" for item
    unfolding discard_def by (rule overload_refreshed)
  moreover have "\<exists>t. ls_exec c s = Inr t" if "call_ok c" "well_stamped c" for c
    using that g by (auto simp: ls_good_def intro: ls_exec_total)
  ultimately show ?thesis using g by (auto simp: bounded_def within_maxlen_def lean_def stale_def ls_len_def)
qed

lemma reach_empty_set: "0 \<le> mn \<Longrightarrow> mn \<le> mx \<Longrightarrow> 0 \<le> ex \<Longrightarrow> reach ls_start ls_step (empty_set mx ex mn)"
proof (rule reach_init)
  assume "0 \<le> mn" "mn \<le> mx" "0 \<le> ex"
  then have "init (\<lambda>_. 0) mx ex None mn = Inr (empty_set mx ex mn)"
    by (simp add: init_def empty_set_def)
  then show "ls_start (empty_set mx ex mn)" unfolding ls_start_def by blast
qed

theorem limited_set_reachable_witness:
  "\<exists>t. add 0 0 ''task-1'' None (empty_set 2 10 0) = Inr t \<and> ls_contains ''task-1'' t"
proof -
  have r: "reach ls_start ls_step (empty_set 2 10 0 :: string limited_set)"
    by (rule reach_empty_set) auto
  have "call_ok (CAdd 0 0 ''task-1'' None) \<and> well_stamped (CAdd 0 0 ''task-1'' None)" by simp
  then have "\<exists>t. ls_exec (CAdd 0 0 ''task-1'' None) (empty_set 2 10 0) = Inr t"
    using limited_set_reachable [OF r] by blast
  then obtain t where t: "add 0 0 ''task-1'' None (empty_set 2 10 0) = Inr t" by auto
  then show ?thesis
    by (auto simp: add_def add_entry_def empty_set_def ls_len_def ls_contains_def Let_def)
qed

text \<open>
  \<open>purge\<close> enforces the time to live. On a set that satisfies the invariant it returns, keeps
  only items that were there, and, when an expiry time is set, leaves either at most \<open>minlen\<close>
  items or only items that have not expired at the time of the purge.
\<close>

theorem purge_enforces_expiry:
  fixes s :: "'a::linorder limited_set"
  assumes "ls_inv s" and "limits_ok s"
  shows "\<exists>t. purge now s = Inr t \<and> set (ls_data t) \<subseteq> set (ls_data s)
    \<and> (expires s \<noteq> 0 \<longrightarrow> ls_len t \<le> minlen s \<or> (\<forall>(k, e) \<in> set (ls_data t). now < inserted e + expires s))"
proof -
  have "0 \<le> maxlen s" "0 \<le> minlen s" using assms(2) by (auto simp: limits_ok_def)
  then obtain t where t: "purge now s = Inr t" "shrunk s t"
    "expires s \<noteq> 0 \<longrightarrow> ls_len t \<le> minlen s \<or> (\<forall>e \<in> set (ls_heap t). now < inserted e + expires s)"
    using purge_spec [OF assms(1), of now] by (auto simp: not_less)
  then have "covered (ls_data t) (ls_heap t)" by (simp add: shrunk_def ls_inv_def)
  then show ?thesis using t by (fastforce simp: shrunk_def dest: coveredD)
qed

definition demo_set :: "nat limited_set" where
  "demo_set = \<lparr>maxlen = 8, minlen = 0, expires = 100,
     ls_data = map (\<lambda>i. (i, (if i = 0 then 0 else 50, i, i))) [0..<8],
     ls_heap = map (\<lambda>i. (if i = 0 then 0 else 50, i, i)) [0..<8], ls_seq = 8\<rparr>"

lemma demo_set_inv: "ls_inv demo_set" "limits_ok demo_set"
  by (simp_all add: ls_inv_def demo_set_def covered_def limits_ok_def upt_rec)

theorem purge_enforces_expiry_witness:
  "ls_inv demo_set \<and> limits_ok demo_set \<and> (\<exists>t. purge 149 demo_set = Inr t \<and> set (ls_data t) \<subseteq> set (ls_data demo_set))"
  using demo_set_inv purge_enforces_expiry [OF demo_set_inv, of 149] by blast

definition demo_stamps :: "nat update_arg" where
  "demo_stamps = FromDict (map (\<lambda>i. (i, PyFloat (if i = 0 then 0 else 50))) [0..<8])"

lemma demo_set_init: "init (\<lambda>_. 50) 8 100 (Some demo_stamps) 0 = Inr demo_set"
  by (simp add: demo_stamps_def init_def empty_set_def demo_set_def add_def add_entry_def upt_rec Let_def
      heappush_def ls_len_def purge_def purge_excess.simps purge_expired.simps)

lemma demo_set_reach: "reach ls_start ls_step demo_set"
proof (rule reach_init)
  have "\<forall>a. Some demo_stamps = Some a \<longrightarrow> arg_ok a" by (simp add: demo_stamps_def)
  then show "ls_start demo_set" using demo_set_init unfolding ls_start_def by blast
qed

text \<open>
  re-adding an item does not always renew it. With a full set whose heap still holds the stale
  entry of an item, \<open>add\<close> of that item at the current time purges by the stale entry and removes
  the item that was just added, although its new entry has not expired.
\<close>

theorem add_loses_renewed_item:
  "\<exists>(s :: nat limited_set) item now t. reach ls_start ls_step s \<and>
     add now now item None s = Inr t \<and> now < now + expires s \<and> \<not> ls_contains item t"
proof -
  have "reach ls_start ls_step demo_set" by (rule demo_set_reach)
  moreover obtain t where "add 100 100 0 None demo_set = Inr t \<and> \<not> ls_contains 0 t"
    by (simp add: Let_def demo_set_def add_def add_entry_def discard_def maybe_refresh_heap_def heap_overload_def
        max_heap_percent_overload_def upt_rec heappush_def ls_len_def purge_def purge_excess.simps
        purge_expired.simps pop_def ls_contains_def)
  ultimately show ?thesis
    by (intro exI [of _ demo_set] exI [of _ 0] exI [of _ 100] exI [of _ t]) (auto simp: demo_set_def)
qed

lemma add_below_max:
  assumes "maxlen s = 0 \<or> int (length (ls_data (add_entry item t s))) < maxlen s"
  shows "add clk clk' item (Some t) s = Inr (add_entry item t s)"
  using assms add_entry_frame(1) [of s item t] by (auto simp: add_def ls_len_def same_limits_def)

lemma update_dict_fresh:
  assumes "ls_inv s" and "dict_wf (as_dict s @ d)"
    and "maxlen s = 0 \<or> int (length (ls_data s) + length d) < maxlen s"
  shows "\<exists>t. update_dict clk (map (\<lambda>(k, x). (k, PyFloat x)) d) s = Inr t \<and> as_dict t = as_dict s @ d"
  using assms
proof (induction d arbitrary: clk s)
  case Nil
  then show ?case by simp
next
  case (Cons p d)
  obtain k x where p: "p = (k, x)" by (cases p)
  have keys: "keys (as_dict s) = keys (ls_data s)"
    using Cons.prems(1) by (auto simp: as_dict_def ls_inv_def covered_def)
  have fresh: "k \<notin> set (keys (ls_data s))"
    using Cons.prems(2) p unfolding keys [symmetric] by auto
  have data: "ls_data (add_entry k x s) = ls_data s @ [(k, x, ls_seq s, k)]"
    using Cons.prems(1) fresh by (subst add_entry_data) (auto simp: ls_inv_def)
  have ad: "as_dict (add_entry k x s) = as_dict s @ [(k, x)]"
    by (simp add: as_dict_def data)
  have inv: "ls_inv (add_entry k x s)" using Cons.prems(1) by (rule inv_intros)
  have mx: "maxlen (add_entry k x s) = maxlen s" using add_entry_frame(1) [of s k x] by (simp add: same_limits_def)
  have "\<exists>t. update_dict (\<lambda>i. clk (i + 2)) (map (\<lambda>(k, x). (k, PyFloat x)) d) (add_entry k x s) = Inr t
      \<and> as_dict t = as_dict (add_entry k x s) @ d"
    using Cons.prems by (intro Cons.IH inv) (auto simp: ad p mx data)
  moreover have "add (clk 0) (clk 1) k (Some x) s = Inr (add_entry k x s)"
    using Cons.prems(3) by (intro add_below_max) (auto simp: data)
  ultimately show ?case by (simp add: p ad)
qed

lemma reduce_init:
  fixes s :: "'a::linorder limited_set"
  assumes "ls_inv s" and "limits_ok s" and "maxlen s = 0 \<or> ls_len s < maxlen s"
  shows "\<exists>t. (case ls_reduce s of (mx, ex, d, mn) \<Rightarrow> init clk mx ex (Some d) mn) = Inr t
    \<and> as_dict t = as_dict s \<and> ls_eq t s"
proof -
  let ?e = "empty_set (maxlen s) (expires s) (minlen s) :: 'a limited_set"
  have keys: "keys (as_dict s) = keys (ls_data s)"
    using assms(1) by (auto simp: as_dict_def ls_inv_def covered_def)
  have "dict_wf (as_dict s)" unfolding keys using assms(1) by (simp add: ls_inv_def)
  then obtain t where t: "update_dict clk (map (\<lambda>(k, x). (k, PyFloat x)) (as_dict s)) ?e = Inr t"
    "as_dict t = as_dict ?e @ as_dict s"
    using update_dict_fresh [of ?e "as_dict s" clk] assms(3)
    by (auto simp: empty_set_def as_dict_def ls_len_def ls_inv_def covered_def)
  have "as_dict t = as_dict s" using t(2) by (simp add: as_dict_def empty_set_def)
  moreover have "maxlen t = maxlen s" "minlen t = minlen s" "expires t = expires s"
    using update_dict_limits [OF t(1)] by (auto simp: empty_set_def same_limits_def)
  ultimately show ?thesis
    using t(1) assms(2) by (auto simp: ls_reduce_def init_def ls_eq_def limits_ok_def)
qed

text \<open>
  pickling round trip. Rebuilding a set from what \<open>__reduce__\<close> gives (the limits and the
  dictionary of insertion times) succeeds and yields a set with the same items in the same
  order and the same insertion times, for a set that is below its maximum size.
\<close>

theorem pickle_roundtrip:
  fixes s :: "'a::linorder limited_set"
  assumes "ls_inv s" and "limits_ok s" and "maxlen s = 0 \<or> ls_len s < maxlen s"
  shows "\<exists>t. (case ls_reduce s of (mx, ex, d, mn) \<Rightarrow> init clk mx ex (Some d) mn) = Inr t
    \<and> as_dict t = as_dict s \<and> ls_eq t s"
  using reduce_init [OF assms] .

theorem pickle_roundtrip_witness:
  "\<exists>t. (case ls_reduce (demo_set\<lparr>maxlen := 9\<rparr>) of (mx, ex, d, mn) \<Rightarrow> init (\<lambda>_. 0) mx ex (Some d) mn) = Inr t
    \<and> as_dict t = as_dict demo_set"
proof -
  have "ls_inv (demo_set\<lparr>maxlen := 9\<rparr>)" "limits_ok (demo_set\<lparr>maxlen := 9\<rparr>)"
    using demo_set_inv by (auto simp: ls_inv_def limits_ok_def demo_set_def)
  then show ?thesis
    using pickle_roundtrip [of "demo_set\<lparr>maxlen := 9\<rparr>" "\<lambda>_. 0"]
    by (auto simp: demo_set_def ls_len_def as_dict_def)
qed

text \<open>
  \<open>purge\<close> can remove an item that has not expired. It looks at the oldest entry of the heap only,
  and when that one is the stale entry of a discarded item, \<open>pop\<close> drops it and goes on to the
  oldest item that is still in the set, which it removes whatever its age.
\<close>

theorem purge_drops_unexpired_item:
  "\<exists>(s :: nat limited_set) now item e t. reach ls_start ls_step s \<and> dict_get (ls_data s) item = Some e
     \<and> now < inserted e + expires s \<and> maxlen s = 8 \<and> ls_len s = 7 \<and> purge now s = Inr t \<and> \<not> ls_contains item t"
proof -
  let ?s = "discard 0 demo_set"
  have "reach ls_start ls_step ?s"
    using demo_set_reach by (rule reach_step [where e = "CDiscard 0"]) (simp add: ls_step_def)
  moreover have "dict_get (ls_data ?s) 1 = Some (50, 1, 1)" "expires ?s = 100" "maxlen ?s = 8" "ls_len ?s = 7"
    using discard_frame(2) [of demo_set 0] by (simp_all add: same_limits_def ls_len_def) (simp_all add: demo_set_def upt_rec)
  moreover obtain t where "purge 110 ?s = Inr t \<and> \<not> ls_contains 1 t"
    by (simp add: demo_set_def discard_def maybe_refresh_heap_def heap_overload_def max_heap_percent_overload_def upt_rec
        ls_len_def purge_def purge_excess.simps purge_expired.simps pop_def ls_contains_def)
  ultimately show ?thesis
    by (intro exI [of _ ?s] exI [of _ 110] exI [of _ 1] exI [of _ "(50, 1, 1)"] exI [of _ t]) simp
qed

section \<open>Purging a set without stale entries\<close>

lemma heap_is_data:
  assumes "ls_inv s" and "stale s = 0"
  shows "set (ls_heap s) = snd ` set (ls_data s)" and "distinct (ls_heap s)"
proof -
  have cov: "covered (ls_data s) (ls_heap s)" and wf: "dict_wf (ls_data s)" using assms(1) by (auto simp: ls_inv_def)
  have "map (entry_item \<circ> snd) (ls_data s) = keys (ls_data s)" using cov by (auto simp: covered_def)
  then have "distinct (map (entry_item \<circ> snd) (ls_data s))" using wf by metis
  then have "distinct (vals (ls_data s))" by (metis distinct_map map_map)
  then have c: "card (snd ` set (ls_data s)) = length (ls_heap s)"
    using assms(2) distinct_card [of "vals (ls_data s)"] by (simp add: stale_def)
  have sub: "snd ` set (ls_data s) \<subseteq> set (ls_heap s)" using cov by (auto simp: covered_def)
  then show eq: "set (ls_heap s) = snd ` set (ls_data s)"
    using c card_length [of "ls_heap s"] card_subset_eq [of "set (ls_heap s)" "snd ` set (ls_data s)"]
      card_mono [OF finite_set sub] by auto
  then show "distinct (ls_heap s)" using c by (simp add: card_distinct)
qed

lemma pop_current:
  assumes "ls_inv s" and "stale s = 0" and "ls_heap s = e # h"
  shows "pop s = (Some (entry_item e), s\<lparr>ls_heap := h, ls_data := dict_del (entry_item e) (ls_data s)\<rparr>)"
    and "dict_get (ls_data s) (entry_item e) = Some e"
proof -
  have "e \<in> snd ` set (ls_data s)" using heap_is_data(1) [OF assms(1,2)] assms(3) by (metis list.set_intros(1))
  then obtain k where k: "(k, e) \<in> set (ls_data s)" by force
  then have "entry_item e = k" "dict_wf (ls_data s)" using assms(1) by (auto simp: ls_inv_def dest: coveredD)
  with k show g: "dict_get (ls_data s) (entry_item e) = Some e" by simp
  then show "pop s = (Some (entry_item e), s\<lparr>ls_heap := h, ls_data := dict_del (entry_item e) (ls_data s)\<rparr>)"
    using assms(3) by (simp add: pop_def)
qed

lemma purge_expired_exact:
  assumes "ls_inv s" and "stale s = 0" and "minlen s = 0" and "purge_expired now s = Inr t"
  shows "dict_get (ls_data t) k = Some e \<longleftrightarrow> dict_get (ls_data s) k = Some e \<and> now < inserted e + expires s"
  using assms
proof (induction now s rule: purge_expired.induct)
  case (1 now s)
  show ?case
  proof (cases "ls_data s")
    case Nil
    then show ?thesis using "1.prems" by (simp add: purge_expired.simps [of now s] ls_len_def)
  next
    case (Cons p d)
    then obtain top h where h: "ls_heap s = top # h" using heap_nonempty [OF "1.prems"(1)] by (cases "ls_heap s") auto
    have len: "ls_len s > minlen s \<and> minlen s \<ge> 0" using Cons "1.prems"(3) by (simp add: ls_len_def)
    have mem: "e \<in> set (ls_heap s)" if "dict_get (ls_data s) k = Some e"
      using dict_get_mem [OF that] "1.prems"(1) by (auto simp: ls_inv_def dest: coveredD)
    show ?thesis
    proof (cases "inserted top + expires s > now")
      case True
      have "now < inserted e + expires s" if "e \<in> set (ls_heap s)"
      proof -
        have "top \<le> e" using that h "1.prems"(1) by (auto simp: ls_inv_def)
        then have "inserted top \<le> inserted e" by (auto simp: less_eq_prod_def)
        with True show ?thesis by linarith
      qed
      then show ?thesis using mem True h len "1.prems"(4) by (auto simp: purge_expired.simps [of now s])
    next
      case False
      note p = pop_current [OF "1.prems"(1,2) h]
      let ?s = "s\<lparr>ls_heap := h, ls_data := dict_del (entry_item top) (ls_data s)\<rparr>"
      have sn: "snd (pop s) = ?s" by (simp add: p)
      have inv: "ls_inv ?s" using shrunk_pop [OF "1.prems"(1)] sn by (simp add: shrunk_def)
      have "Suc (length (dict_del (entry_item top) (ls_data s))) = length (ls_data s)"
        using length_dict_del [of "ls_data s" "entry_item top"] p(2) "1.prems"(1) dict_get_Some_iff by (fastforce simp: ls_inv_def)
      then have st: "stale ?s = 0" using "1.prems"(2) h by (simp add: stale_def)
      have "purge_expired now ?s = Inr t" using "1.prems"(4) len False h sn by (simp add: purge_expired.simps [of now s])
      from "1.IH" [OF len _ False, unfolded sn, OF _ inv st _ this] h "1.prems"(3)
      have "dict_get (ls_data t) k = Some e \<longleftrightarrow> dict_get (ls_data ?s) k = Some e \<and> now < inserted e + expires s" by simp
      then show ?thesis using p(2) False by (auto simp: dict_simps)
    qed
  qed
qed

text \<open>Without stale entries, a purge keeps exactly the items that have not expired.\<close>

lemma purge_exact:
  assumes "ls_inv s" and "stale s = 0" and "minlen s = 0" and "maxlen s = 0 \<or> ls_len s \<le> maxlen s" and "purge now s = Inr t"
  shows "dict_get (ls_data t) k = Some e \<longleftrightarrow> dict_get (ls_data s) k = Some e \<and> (expires s = 0 \<or> now < inserted e + expires s)"
proof -
  have "purge now s = (if expires s \<noteq> 0 then purge_expired now s else Inr s)"
    using assms(4) by (auto simp: purge_def purge_excess.simps [of s])
  then show ?thesis using assms purge_expired_exact [OF assms(1-3)] by (auto split: if_splits)
qed

end
