(* ===== verification/Buffers.thy ===== *)
theory Buffers
  imports Prelude
begin

text \<open>
  \<open>celery/utils/collections.py\<close>, classes \<open>Evictable\<close>, \<open>Messagebuffer\<close> and \<open>BufferMap\<close>: the
  bounded buffers in which a result backend keeps messages that were not consumed yet. The
  mixin \<open>Evictable\<close> is an interface (how many, how many at most, remove one) with the eviction
  loops built on it; it is the locale \<open>evictable_spec\<close>, interpreted for both classes. A
  \<open>maxsize\<close> of \<open>None\<close> and of 0 behave alike and are both 0 here.
\<close>

section \<open>Evictable\<close>

definition evict1 :: "('s \<Rightarrow> int) \<Rightarrow> ('s \<Rightarrow> int) \<Rightarrow> ('s \<Rightarrow> 's result) \<Rightarrow> 's \<Rightarrow> 's result" where
  "evict1 cnt mx pop s =
     (if cnt s \<le> mx s then Inl IndexError
      else case pop s of
             Inl e \<Rightarrow> if e = EmptyQueue then Inl IndexError else Inl e
           | Inr s' \<Rightarrow> Inr s')"

fun evict_n :: "('s \<Rightarrow> int) \<Rightarrow> ('s \<Rightarrow> int) \<Rightarrow> ('s \<Rightarrow> 's result) \<Rightarrow> nat \<Rightarrow> 's \<Rightarrow> 's result" where
  "evict_n cnt mx pop 0 s = Inr s"
| "evict_n cnt mx pop (Suc n) s =
     (case evict1 cnt mx pop s of
        Inl e \<Rightarrow> if e = IndexError then Inr s else Inl e
      | Inr s' \<Rightarrow> evict_n cnt mx pop n s')"

partial_function (option) evict_forever ::
    "('s \<Rightarrow> int) \<Rightarrow> ('s \<Rightarrow> int) \<Rightarrow> ('s \<Rightarrow> 's result) \<Rightarrow> 's \<Rightarrow> 's result option" where
  "evict_forever cnt mx pop s =
     (case evict1 cnt mx pop s of
        Inl e \<Rightarrow> Some (if e = IndexError then Inr s else Inl e)
      | Inr s' \<Rightarrow> evict_forever cnt mx pop s')"

section \<open>Messagebuffer\<close>

record 'a messagebuffer =
  mb_maxsize :: int
  mb_data :: "'a list"

definition mb_new :: "int \<Rightarrow> 'a list \<Rightarrow> 'a messagebuffer" where
  "mb_new mx it = \<lparr>mb_maxsize = mx, mb_data = it\<rparr>"

definition mb_len :: "'a messagebuffer \<Rightarrow> int" where
  "mb_len b = int (length (mb_data b))"

definition mb_take :: "'a option \<Rightarrow> 'a messagebuffer \<Rightarrow> ('a \<times> 'a messagebuffer) result" where
  "mb_take dflt b =
     (case mb_data b of
        [] \<Rightarrow> (case dflt of Some d \<Rightarrow> Inr (d, b) | None \<Rightarrow> Inl EmptyQueue)
      | x # xs \<Rightarrow> Inr (x, b\<lparr>mb_data := xs\<rparr>))"

definition mb_pop_to_evict :: "'a messagebuffer \<Rightarrow> 'a messagebuffer result" where
  "mb_pop_to_evict b = res_bind (mb_take None b) (\<lambda>(_, b'). Inr b')"

definition mb_evict :: "nat \<Rightarrow> 'a messagebuffer \<Rightarrow> 'a messagebuffer result" where
  "mb_evict limit b = evict_n mb_len mb_maxsize mb_pop_to_evict limit b"

definition mb_put :: "'a \<Rightarrow> 'a messagebuffer \<Rightarrow> 'a messagebuffer result" where
  "mb_put item b =
     (let b = b\<lparr>mb_data := mb_data b @ [item]\<rparr> in if mb_maxsize b \<noteq> 0 then mb_evict 100 b else Inr b)"

definition mb_extend :: "'a list \<Rightarrow> 'a messagebuffer \<Rightarrow> 'a messagebuffer result" where
  "mb_extend it b =
     (let b = b\<lparr>mb_data := mb_data b @ it\<rparr> in if mb_maxsize b \<noteq> 0 then mb_evict 100 b else Inr b)"

fun mb_iter_loop :: "'a list \<Rightarrow> 'a list" where
  "mb_iter_loop [] = []"
| "mb_iter_loop (x # xs) = x # mb_iter_loop xs"

definition mb_iter :: "'a messagebuffer \<Rightarrow> 'a list \<times> 'a messagebuffer" where
  "mb_iter b = (mb_iter_loop (mb_data b), b\<lparr>mb_data := []\<rparr>)"

definition mb_contains :: "'a \<Rightarrow> 'a messagebuffer \<Rightarrow> bool" where
  "mb_contains x b = (x \<in> set (mb_data b))"

definition mb_getitem :: "int \<Rightarrow> 'a messagebuffer \<Rightarrow> 'a result" where
  "mb_getitem i b =
     (let n = mb_len b; j = (if i < 0 then n + i else i)
      in if 0 \<le> j \<and> j < n then Inr (mb_data b ! nat j) else Inl IndexError)"

section \<open>BufferMap\<close>

record ('k, 'a) buffermap =
  bm_maxsize :: int
  bm_bufmaxsize :: int
  bm_total :: int
  bm_bufs :: "('k, 'a messagebuffer) dict"

definition LRUkey :: "('k, 'a) buffermap \<Rightarrow> 'k result" where
  "LRUkey m = (case bm_bufs m of [] \<Rightarrow> Inl StopIteration | (k, _) # _ \<Rightarrow> Inr k)"

definition move_to_end :: "'k \<Rightarrow> ('k, 'v) dict \<Rightarrow> ('k, 'v) dict" where
  "move_to_end k d = (case dict_get d k of None \<Rightarrow> d | Some v \<Rightarrow> dict_del k d @ [(k, v)])"

definition new_buffer :: "('k, 'a) buffermap \<Rightarrow> 'a messagebuffer" where
  "new_buffer m = mb_new (bm_bufmaxsize m) []"

definition get_or_create_buffer :: "'k \<Rightarrow> ('k, 'a) buffermap \<Rightarrow> 'a messagebuffer \<times> ('k, 'a) buffermap" where
  "get_or_create_buffer key m =
     (case dict_get (bm_bufs m) key of
        Some buf \<Rightarrow> (buf, m)
      | None \<Rightarrow> let buf = new_buffer m in (buf, m\<lparr>bm_bufs := dict_set key buf (bm_bufs m)\<rparr>))"

fun bm_pop_loop :: "nat \<Rightarrow> ('k, 'a) buffermap \<Rightarrow> ('k, 'a) buffermap result" where
  "bm_pop_loop 0 m = Inr m"
| "bm_pop_loop (Suc n) m =
     (case bm_bufs m of
        [] \<Rightarrow> Inl StopIteration
      | (key, buf) # _ \<Rightarrow>
          (case mb_take None buf of
             Inl _ \<Rightarrow> bm_pop_loop n (m\<lparr>bm_bufs := dict_del key (bm_bufs m)\<rparr>)
           | Inr (_, buf') \<Rightarrow>
               let m' = m\<lparr>bm_total := bm_total m - 1, bm_bufs := dict_set key buf' (bm_bufs m)\<rparr>
               in if mb_len buf' = 0 then Inr (m'\<lparr>bm_bufs := dict_del key (bm_bufs m')\<rparr>)
                  else Inr (m'\<lparr>bm_bufs := move_to_end key (bm_bufs m')\<rparr>)))"

definition bm_pop_to_evict :: "('k, 'a) buffermap \<Rightarrow> ('k, 'a) buffermap result" where
  "bm_pop_to_evict m = bm_pop_loop 100 m"

definition bm_evict_limit :: "nat \<Rightarrow> ('k, 'a) buffermap \<Rightarrow> ('k, 'a) buffermap result" where
  "bm_evict_limit limit m = evict_n bm_total bm_maxsize bm_pop_to_evict limit m"

definition bm_evict :: "('k, 'a) buffermap \<Rightarrow> ('k, 'a) buffermap result option" where
  "bm_evict m = evict_forever bm_total bm_maxsize bm_pop_to_evict m"

definition bm_put :: "'k \<Rightarrow> 'a \<Rightarrow> ('k, 'a) buffermap \<Rightarrow> ('k, 'a) buffermap result" where
  "bm_put key item m =
     (case get_or_create_buffer key m of (buf, m) \<Rightarrow>
        res_bind (mb_put item buf) (\<lambda>buf'.
          let m = m\<lparr>bm_bufs := dict_set key buf' (bm_bufs m),
                     bm_total := bm_total m + (mb_len buf' - mb_len buf)\<rparr>;
              m = m\<lparr>bm_bufs := move_to_end key (bm_bufs m)\<rparr>
          in if bm_maxsize m \<noteq> 0 then bm_evict_limit 100 m else Inr m))"

definition bm_extend :: "'k \<Rightarrow> 'a list \<Rightarrow> ('k, 'a) buffermap \<Rightarrow> ('k, 'a) buffermap result" where
  "bm_extend key it m =
     (case get_or_create_buffer key m of (buf, m) \<Rightarrow>
        res_bind (mb_extend it buf) (\<lambda>buf'.
          let m = m\<lparr>bm_bufs := dict_set key buf' (bm_bufs m),
                     bm_total := bm_total m + (mb_len buf' - mb_len buf)\<rparr>
          in if bm_maxsize m \<noteq> 0 then bm_evict_limit 100 m else Inr m))"

definition bm_take :: "'k \<Rightarrow> 'a option \<Rightarrow> ('k, 'a) buffermap \<Rightarrow> ('a \<times> ('k, 'a) buffermap) result" where
  "bm_take key dflt m =
     (let throw = (case dflt of Some d \<Rightarrow> Inr (d, m) | None \<Rightarrow> Inl EmptyQueue)
      in case dict_get (bm_bufs m) key of
           None \<Rightarrow> throw
         | Some buf \<Rightarrow>
             (case mb_take None buf of
                Inl _ \<Rightarrow> throw
              | Inr (item, buf') \<Rightarrow>
                  Inr (item, m\<lparr>bm_total := bm_total m - 1,
                               bm_bufs := move_to_end key (dict_set key buf' (bm_bufs m))\<rparr>)))"

definition LRUpop :: "'a option \<Rightarrow> ('k, 'a) buffermap \<Rightarrow> ('a \<times> ('k, 'a) buffermap) result" where
  "LRUpop dflt m =
     res_bind (LRUkey m) (\<lambda>key.
       case dict_get (bm_bufs m) key of
         None \<Rightarrow> Inl KeyError
       | Some buf \<Rightarrow> res_bind (mb_take dflt buf) (\<lambda>(x, buf').
           Inr (x, m\<lparr>bm_bufs := dict_set key buf' (bm_bufs m)\<rparr>)))"

fun bm_fill :: "('k, 'a list) dict \<Rightarrow> ('k, 'a) buffermap \<Rightarrow> ('k, 'a) buffermap result" where
  "bm_fill [] m = Inr m"
| "bm_fill ((key, items) # rest) m =
     (case get_or_create_buffer key m of (buf, m) \<Rightarrow>
        res_bind (mb_extend items buf) (\<lambda>buf'.
          bm_fill rest (m\<lparr>bm_bufs := dict_set key buf' (bm_bufs m)\<rparr>)))"

definition bm_new :: "int \<Rightarrow> ('k, 'a list) dict \<Rightarrow> int \<Rightarrow> ('k, 'a) buffermap result option" where
  "bm_new mx it bufmax =
     (case bm_fill it \<lparr>bm_maxsize = mx, bm_bufmaxsize = bufmax, bm_total = 0, bm_bufs = []\<rparr> of
        Inl e \<Rightarrow> Some (Inl e)
      | Inr m \<Rightarrow>
          let m = m\<lparr>bm_total := (\<Sum>buf \<leftarrow> vals (bm_bufs m). mb_len buf)\<rparr>
          in if bm_maxsize m \<noteq> 0 then bm_evict m else Some (Inr m))"

section \<open>The eviction loops\<close>

text \<open>
  What \<open>Evictable\<close> asks of a class: while there is more than the maximum, one item (or some other
  unit of work) can be removed without an exception, and the class invariant is kept.
\<close>

locale evictable_spec =
  fixes cnt :: "'s \<Rightarrow> int"
    and mx :: "'s \<Rightarrow> int"
    and pop :: "'s \<Rightarrow> 's result"
    and ok :: "'s \<Rightarrow> bool"
    and work :: "'s \<Rightarrow> nat"
  assumes pop_ok: "ok s \<Longrightarrow> mx s < cnt s \<Longrightarrow>
    \<exists>t. pop s = Inr t \<and> ok t \<and> mx t = mx s \<and> cnt t \<le> cnt s \<and> work t < work s"
begin

lemma evict1_cases:
  assumes "ok s"
  obtains (stop) "cnt s \<le> mx s" "evict1 cnt mx pop s = Inl IndexError"
  | (go) t where "mx s < cnt s" "evict1 cnt mx pop s = Inr t" "pop s = Inr t" "ok t" "mx t = mx s"
      "cnt t \<le> cnt s" "work t < work s"
proof (cases "cnt s \<le> mx s")
  case True
  then show thesis using stop by (simp add: evict1_def)
next
  case False
  then show thesis using go pop_ok [OF assms] by (fastforce simp: evict1_def)
qed

lemma evict_n_ok:
  "ok s \<Longrightarrow> \<exists>t. evict_n cnt mx pop n s = Inr t \<and> ok t \<and> mx t = mx s \<and> cnt t \<le> cnt s"
proof (induction n arbitrary: s)
  case 0
  then show ?case by simp
next
  case (Suc n)
  from Suc.prems show ?case
  proof (cases rule: evict1_cases)
    case stop
    then show ?thesis using Suc.prems by simp
  next
    case (go t)
    then show ?thesis using Suc.IH [of t] by fastforce
  qed
qed

lemma evict_forever_ok:
  "ok s \<Longrightarrow> \<exists>t. evict_forever cnt mx pop s = Some (Inr t) \<and> ok t \<and> mx t = mx s \<and> cnt t \<le> mx s"
proof (induction s rule: measure_induct_rule [of work])
  case (less s)
  from less.prems show ?case
  proof (cases rule: evict1_cases)
    case stop
    then show ?thesis using less.prems by (simp add: evict_forever.simps)
  next
    case (go t)
    then show ?thesis using less.IH [of t] by (fastforce simp: evict_forever.simps)
  qed
qed

end

text \<open>A class whose removal always takes exactly one item off.\<close>

locale evictable_strict = evictable_spec +
  assumes pop_one: "ok s \<Longrightarrow> mx s < cnt s \<Longrightarrow> pop s = Inr t \<Longrightarrow> cnt t = cnt s - 1"
begin

lemma evict_n_bound:
  "ok s \<Longrightarrow> evict_n cnt mx pop n s = Inr t \<Longrightarrow> cnt t \<le> max (mx s) (cnt s - int n)"
proof (induction n arbitrary: s)
  case 0
  then show ?case by simp
next
  case (Suc n)
  from Suc.prems(1) show ?case
  proof (cases rule: evict1_cases)
    case stop
    then show ?thesis using Suc.prems by simp
  next
    case (go u)
    then have "cnt u = cnt s - 1" using pop_one Suc.prems(1) by blast
    then show ?thesis using Suc.IH [of u] Suc.prems go by auto
  qed
qed

end

interpretation mb_evictable: evictable_strict mb_len mb_maxsize mb_pop_to_evict
  "\<lambda>b. 0 \<le> mb_maxsize b" "\<lambda>b. length (mb_data b)"
proof unfold_locales
  fix b :: "'a messagebuffer"
  assume "0 \<le> mb_maxsize b" "mb_maxsize b < mb_len b"
  then obtain x xs where "mb_data b = x # xs" by (cases "mb_data b") (auto simp: mb_len_def)
  then show "\<exists>t. mb_pop_to_evict b = Inr t \<and> 0 \<le> mb_maxsize t \<and> mb_maxsize t = mb_maxsize b
      \<and> mb_len t \<le> mb_len b \<and> length (mb_data t) < length (mb_data b)"
    using \<open>0 \<le> mb_maxsize b\<close> by (simp add: mb_pop_to_evict_def mb_take_def mb_len_def)
next
  fix b t :: "'a messagebuffer"
  assume "0 \<le> mb_maxsize b" "mb_maxsize b < mb_len b" "mb_pop_to_evict b = Inr t"
  then show "mb_len t = mb_len b - 1"
    by (cases "mb_data b") (auto simp: mb_len_def mb_pop_to_evict_def mb_take_def)
qed

lemma mb_evict_n_data:
  assumes "0 \<le> mb_maxsize b"
  shows "evict_n mb_len mb_maxsize mb_pop_to_evict n b =
    Inr (b\<lparr>mb_data := drop (min n (length (mb_data b) - nat (mb_maxsize b))) (mb_data b)\<rparr>)"
  using assms
proof (induction n arbitrary: b)
  case 0
  then show ?case by simp
next
  case (Suc n)
  show ?case
  proof (cases "mb_len b \<le> mb_maxsize b")
    case True
    then have "length (mb_data b) - nat (mb_maxsize b) = 0" by (simp add: mb_len_def)
    then show ?thesis using True by (simp add: evict1_def)
  next
    case False
    then obtain x xs where d: "mb_data b = x # xs"
      using Suc.prems by (cases "mb_data b") (auto simp: mb_len_def)
    then have "Suc (length xs) - nat (mb_maxsize b) = Suc (length xs - nat (mb_maxsize b))"
      using False by (auto simp: mb_len_def)
    then show ?thesis
      using False Suc.IH [of "b\<lparr>mb_data := xs\<rparr>"] Suc.prems
      by (simp add: evict1_def mb_pop_to_evict_def mb_take_def d)
  qed
qed

section \<open>The total of a buffer map\<close>

definition bufs_sum :: "('k, 'a messagebuffer) dict \<Rightarrow> int" where
  "bufs_sum d = (\<Sum>buf \<leftarrow> vals d. mb_len buf)"

lemma bufs_sum_simps [simp]:
  "bufs_sum [] = 0" "bufs_sum (p # d) = mb_len (snd p) + bufs_sum d" "bufs_sum (d @ e) = bufs_sum d + bufs_sum e"
  by (simp_all add: bufs_sum_def)

lemma mb_len_nonneg [simp]: "0 \<le> mb_len b"
  by (simp add: mb_len_def)

lemma bufs_sum_nonneg [simp]: "0 \<le> bufs_sum d"
  by (induction d) auto

lemma bufs_sum_del:
  "dict_wf d \<Longrightarrow> bufs_sum (dict_del k d) = bufs_sum d - (case dict_get d k of None \<Rightarrow> 0 | Some b \<Rightarrow> mb_len b)"
  by (induction d) auto

lemma bufs_sum_set:
  "dict_wf d \<Longrightarrow>
     bufs_sum (dict_set k b' d) = bufs_sum d - (case dict_get d k of None \<Rightarrow> 0 | Some b \<Rightarrow> mb_len b) + mb_len b'"
  by (induction d) (auto split: option.split)

lemma move_to_end_facts:
  assumes "dict_wf d"
  shows "dict_wf (move_to_end k d)" "dict_get (move_to_end k d) = dict_get d"
    "fst ` set (move_to_end k d) = fst ` set d" "length (move_to_end k d) = length d"
proof -
  show "dict_wf (move_to_end k d)"
    using assms by (auto simp: move_to_end_def inv_intros distinct_delete split: option.split)
  show "dict_get (move_to_end k d) = dict_get d"
    by (rule ext) (auto simp: move_to_end_def map_add_def dict_simps split: option.split)
  show "fst ` set (move_to_end k d) = fst ` set d"
    using dict_get_Some_iff [of d k] by (auto simp: move_to_end_def split: option.split)
  show "length (move_to_end k d) = length d"
  proof (cases "dict_get d k")
    case None
    then show ?thesis by (simp add: move_to_end_def)
  next
    case (Some v)
    then have "k \<in> set (keys d)" using dict_get_Some_iff by metis
    then show ?thesis using length_dict_del [OF assms] Some by (simp add: move_to_end_def)
  qed
qed

lemma bufs_sum_move: "dict_wf d \<Longrightarrow> bufs_sum (move_to_end k d) = bufs_sum d"
  by (auto simp: move_to_end_def bufs_sum_del split: option.split)

definition caps_ok :: "int \<Rightarrow> ('k, 'a messagebuffer) dict \<Rightarrow> bool" where
  "caps_ok c d \<longleftrightarrow> (\<forall>(_, buf) \<in> set d. mb_maxsize buf = c)"

lemma caps_ok_get: "caps_ok c d \<Longrightarrow> dict_get d k = Some b \<Longrightarrow> mb_maxsize b = c"
  by (auto simp: caps_ok_def dest!: dict_get_mem)

lemma caps_ok_set: "dict_wf d \<Longrightarrow> caps_ok c d \<Longrightarrow> mb_maxsize b = c \<Longrightarrow> caps_ok c (dict_set k b d)"
  by (auto simp: caps_ok_def set_dict_set)

lemma caps_ok_del: "caps_ok c d \<Longrightarrow> caps_ok c (dict_del k d)"
  by (auto simp: caps_ok_def set_dict_del)

lemma caps_ok_move: "caps_ok c d \<Longrightarrow> caps_ok c (move_to_end k d)"
  using caps_ok_get [of c d k] caps_ok_del [of c d k]
  by (cases "dict_get d k") (auto simp: move_to_end_def caps_ok_def)

lemmas caps_intros = caps_ok_set caps_ok_del caps_ok_move

definition bm_inv :: "('k, 'a) buffermap \<Rightarrow> bool" where
  "bm_inv m \<longleftrightarrow> dict_wf (bm_bufs m) \<and> bm_total m = bufs_sum (bm_bufs m) \<and> 0 \<le> bm_maxsize m
     \<and> 0 \<le> bm_bufmaxsize m \<and> caps_ok (bm_bufmaxsize m) (bm_bufs m)"

definition bm_work :: "('k, 'a) buffermap \<Rightarrow> nat" where
  "bm_work m = nat (bufs_sum (bm_bufs m)) + length (bm_bufs m)"

lemma mb_take_None:
  "mb_take None b = (case mb_data b of [] \<Rightarrow> Inl EmptyQueue | x # xs \<Rightarrow> Inr (x, b\<lparr>mb_data := xs\<rparr>))"
  by (simp add: mb_take_def split: list.split)

lemma bm_pop_loop_ok:
  assumes "bm_inv m" and "0 < bm_total m"
  shows "\<exists>t. bm_pop_loop n m = Inr t \<and> bm_inv t \<and> bm_maxsize t = bm_maxsize m \<and> bm_total t \<le> bm_total m
    \<and> (0 < n \<longrightarrow> bm_work t < bm_work m)"
  using assms
proof (induction n arbitrary: m)
  case 0
  then show ?case by simp
next
  case (Suc n)
  note inv = Suc.prems(1)
  then have wf: "dict_wf (bm_bufs m)" and tot: "bm_total m = bufs_sum (bm_bufs m)" by (auto simp: bm_inv_def)
  obtain key buf rest where b: "bm_bufs m = (key, buf) # rest"
    using Suc.prems(2) tot by (cases "bm_bufs m") auto
  have mxb: "mb_maxsize buf = bm_bufmaxsize m" using inv b by (auto simp: bm_inv_def caps_ok_def)
  have caps: "caps_ok (bm_bufmaxsize m) (bm_bufs m)" using inv by (simp add: bm_inv_def)
  show ?case
  proof (cases "mb_data buf")
    case Nil
    let ?m = "m\<lparr>bm_bufs := dict_del key (bm_bufs m)\<rparr>"
    have len0: "mb_len buf = 0" by (simp add: mb_len_def Nil)
    have inv': "bm_inv ?m"
      using inv caps_ok_del [OF caps, of key] wf b len0 by (auto simp: bm_inv_def)
    have "bm_work ?m < bm_work m" using wf b len0 by (simp add: bm_work_def)
    moreover obtain t where "bm_pop_loop n ?m = Inr t" "bm_inv t" "bm_maxsize t = bm_maxsize m"
      "bm_total t \<le> bm_total m" "0 < n \<longrightarrow> bm_work t < bm_work ?m" "n = 0 \<longrightarrow> t = ?m"
      using Suc.IH [OF inv'] Suc.prems(2) by (cases n) auto
    ultimately show ?thesis using b Nil by (cases n) (auto simp: mb_take_None)
  next
    case (Cons x xs)
    let ?buf = "buf\<lparr>mb_data := xs\<rparr>"
    let ?m = "m\<lparr>bm_total := bm_total m - 1, bm_bufs := dict_set key ?buf (bm_bufs m)\<rparr>"
    have lenb: "mb_len buf = mb_len ?buf + 1" by (simp add: mb_len_def Cons)
    have get: "dict_get (bm_bufs m) key = Some buf" using b by simp
    have wf': "dict_wf (dict_set key ?buf (bm_bufs m))" using wf by (rule inv_intros)
    have sum': "bufs_sum (dict_set key ?buf (bm_bufs m)) = bm_total m - 1"
      using bufs_sum_set [OF wf, of key ?buf] get tot lenb by simp
    have len': "length (dict_set key ?buf (bm_bufs m)) = length (bm_bufs m)" using b by simp
    have caps': "caps_ok (bm_bufmaxsize m) (dict_set key ?buf (bm_bufs m))"
      using wf caps mxb by (intro caps_intros) auto
    have inv': "bm_inv ?m" using inv wf' sum' caps' by (auto simp: bm_inv_def)
    show ?thesis
    proof (cases "mb_len ?buf = 0")
      case True
      let ?t = "?m\<lparr>bm_bufs := dict_del key (bm_bufs ?m)\<rparr>"
      have "bufs_sum (bm_bufs ?t) = bm_total m - 1"
        using bufs_sum_del [OF wf', of key] sum' True by (simp add: dict_simps)
      moreover have "length (bm_bufs ?t) \<le> length (bm_bufs m)"
        using length_delete_le [of key "dict_set key ?buf (bm_bufs m)"] len' by simp
      moreover have "bm_inv ?t"
        using inv' wf' calculation(1) caps' by (auto simp: bm_inv_def inv_intros distinct_delete caps_intros)
      ultimately show ?thesis using b Cons True Suc.prems(2) tot by (auto simp: mb_take_None Let_def bm_work_def)
    next
      case False
      let ?t = "?m\<lparr>bm_bufs := move_to_end key (bm_bufs ?m)\<rparr>"
      have "bufs_sum (bm_bufs ?t) = bm_total m - 1" using bufs_sum_move [OF wf'] sum' by simp
      moreover have "length (bm_bufs ?t) = length (bm_bufs m)" using move_to_end_facts(4) [OF wf'] len' by simp
      moreover have "bm_inv ?t"
        using inv' move_to_end_facts(1) [OF wf'] calculation(1) caps' by (auto simp: bm_inv_def caps_intros)
      ultimately show ?thesis using b Cons False Suc.prems(2) tot by (auto simp: mb_take_None Let_def bm_work_def)
    qed
  qed
qed

interpretation bm_evictable: evictable_spec bm_total bm_maxsize bm_pop_to_evict bm_inv bm_work
proof unfold_locales
  fix m :: "('a, 'b) buffermap"
  assume m: "bm_inv m" "bm_maxsize m < bm_total m"
  then have "0 < bm_total m" by (simp add: bm_inv_def)
  then show "\<exists>t. bm_pop_to_evict m = Inr t \<and> bm_inv t \<and> bm_maxsize t = bm_maxsize m
      \<and> bm_total t \<le> bm_total m \<and> bm_work t < bm_work m"
    using bm_pop_loop_ok [OF m(1), of 100] unfolding bm_pop_to_evict_def by auto
qed

section \<open>Operations keep the invariant\<close>

lemma mb_add_spec:
  assumes "0 \<le> mb_maxsize b"
  shows "mb_extend it b =
    Inr (b\<lparr>mb_data := drop (if mb_maxsize b = 0 then 0
        else min 100 (length (mb_data b @ it) - nat (mb_maxsize b))) (mb_data b @ it)\<rparr>)"
  using assms by (simp add: mb_extend_def mb_evict_def mb_evict_n_data Let_def)

lemma mb_put_extend: "mb_put x b = mb_extend [x] b"
  by (simp add: mb_put_def mb_extend_def)

lemma mb_extend_ok: "0 \<le> mb_maxsize b \<Longrightarrow> \<exists>b'. mb_extend it b = Inr b' \<and> mb_maxsize b' = mb_maxsize b"
  by (simp add: mb_add_spec)

lemma get_or_create_spec:
  assumes "bm_inv m" and "get_or_create_buffer key m = (buf, m')"
  shows "bm_inv m' \<and> dict_get (bm_bufs m') key = Some buf \<and> mb_maxsize buf = bm_bufmaxsize m
    \<and> bm_maxsize m' = bm_maxsize m \<and> bm_bufmaxsize m' = bm_bufmaxsize m \<and> bm_total m' = bm_total m
    \<and> length (bm_bufs m') \<le> Suc (length (bm_bufs m))"
proof (cases "dict_get (bm_bufs m) key")
  case None
  then have "buf = new_buffer m" "m' = m\<lparr>bm_bufs := dict_set key (new_buffer m) (bm_bufs m)\<rparr>"
    using assms(2) by (auto simp: get_or_create_buffer_def Let_def)
  moreover have "mb_len (new_buffer m) = 0" "mb_maxsize (new_buffer m) = bm_bufmaxsize m"
    by (simp_all add: new_buffer_def mb_new_def mb_len_def)
  moreover have "dict_wf (bm_bufs m)" using assms(1) by (simp add: bm_inv_def)
  ultimately show ?thesis
    using assms(1) bufs_sum_set [of "bm_bufs m" key "new_buffer m"] None
    by (auto simp: bm_inv_def inv_intros distinct_update caps_intros dict_simps length_dict_set)
next
  case (Some b)
  then show ?thesis
    using assms by (auto simp: get_or_create_buffer_def bm_inv_def dest: caps_ok_get)
qed

lemma bm_inv_replace:
  assumes "bm_inv m" and "dict_get (bm_bufs m) key = Some buf" and "mb_maxsize buf' = bm_bufmaxsize m"
  shows "bm_inv (m\<lparr>bm_bufs := dict_set key buf' (bm_bufs m),
                   bm_total := bm_total m + (mb_len buf' - mb_len buf)\<rparr>)"
  using assms bufs_sum_set [of "bm_bufs m" key buf']
  by (auto simp: bm_inv_def inv_intros distinct_update caps_intros)

lemma bm_inv_move: "bm_inv m \<Longrightarrow> bm_inv (m\<lparr>bm_bufs := move_to_end key (bm_bufs m)\<rparr>)"
  by (auto simp: bm_inv_def move_to_end_facts bufs_sum_move caps_intros)

lemma bm_evict_limit_ok:
  "bm_inv m \<Longrightarrow> \<exists>t. bm_evict_limit n m = Inr t \<and> bm_inv t \<and> bm_maxsize t = bm_maxsize m \<and> bm_total t \<le> bm_total m"
  unfolding bm_evict_limit_def by (rule bm_evictable.evict_n_ok)

text \<open>The state of \<open>put\<close> before its eviction pass.\<close>

lemma bm_put_pre:
  assumes "bm_inv m"
  shows "\<exists>p. bm_inv p \<and> bm_maxsize p = bm_maxsize m \<and> bm_total p \<le> bm_total m + 1
    \<and> length (bm_bufs p) \<le> Suc (length (bm_bufs m))
    \<and> bm_put key item m = (if bm_maxsize p \<noteq> 0 then bm_evict_limit 100 p else Inr p)"
proof -
  obtain buf m1 where g: "get_or_create_buffer key m = (buf, m1)" by fastforce
  note m1 = get_or_create_spec [OF assms g]
  have cap: "0 \<le> mb_maxsize buf" using m1 assms by (simp add: bm_inv_def)
  obtain buf' where b: "mb_put item buf = Inr buf'" "mb_maxsize buf' = mb_maxsize buf"
    using mb_extend_ok [OF cap] mb_put_extend by metis
  have grow: "mb_len buf' \<le> mb_len buf + 1"
    using b(1) cap by (auto simp: mb_put_extend mb_add_spec mb_len_def)
  let ?m2 = "m1\<lparr>bm_bufs := dict_set key buf' (bm_bufs m1), bm_total := bm_total m1 + (mb_len buf' - mb_len buf)\<rparr>"
  let ?p = "?m2\<lparr>bm_bufs := move_to_end key (bm_bufs ?m2)\<rparr>"
  have inv2: "bm_inv ?m2" using m1 b by (intro bm_inv_replace) auto
  have "length (bm_bufs ?p) = length (bm_bufs m1)"
    using move_to_end_facts(4) [of "bm_bufs ?m2"] inv2 m1 dict_get_Some_iff [of "bm_bufs m1" key]
    by (auto simp: bm_inv_def length_dict_set)
  then show ?thesis
    using bm_inv_move [OF inv2, of key] m1 grow g b
    by (intro exI [of _ ?p]) (auto simp: bm_put_def Let_def)
qed

lemma bm_put_ok:
  assumes "bm_inv m"
  shows "\<exists>t. bm_put key item m = Inr t \<and> bm_inv t"
proof -
  obtain p where "bm_inv p" "bm_put key item m = (if bm_maxsize p \<noteq> 0 then bm_evict_limit 100 p else Inr p)"
    using bm_put_pre [OF assms] by blast
  then show ?thesis using bm_evict_limit_ok [of p 100] by auto
qed

lemma bm_extend_ok:
  assumes "bm_inv m"
  shows "\<exists>t. bm_extend key it m = Inr t \<and> bm_inv t"
proof -
  obtain buf m1 where g: "get_or_create_buffer key m = (buf, m1)" by fastforce
  note m1 = get_or_create_spec [OF assms g]
  have cap: "0 \<le> mb_maxsize buf" using m1 assms by (simp add: bm_inv_def)
  obtain buf' where b: "mb_extend it buf = Inr buf'" "mb_maxsize buf' = mb_maxsize buf"
    using mb_extend_ok [OF cap] by blast
  let ?m2 = "m1\<lparr>bm_bufs := dict_set key buf' (bm_bufs m1), bm_total := bm_total m1 + (mb_len buf' - mb_len buf)\<rparr>"
  have inv2: "bm_inv ?m2" using m1 b by (intro bm_inv_replace) auto
  then show ?thesis using bm_evict_limit_ok [OF inv2, of 100] g b by (auto simp: bm_extend_def Let_def)
qed

lemma bm_take_ok:
  assumes "bm_inv m" and "bm_take key dflt m = Inr (x, t)"
  shows "bm_inv t"
proof (cases "dict_get (bm_bufs m) key")
  case None
  then show ?thesis using assms by (auto simp: bm_take_def Let_def split: option.splits)
next
  case (Some buf)
  show ?thesis
  proof (cases "mb_data buf")
    case Nil
    then show ?thesis using Some assms by (auto simp: bm_take_def mb_take_None Let_def split: option.splits)
  next
    case (Cons y ys)
    let ?b = "buf\<lparr>mb_data := ys\<rparr>"
    let ?m2 = "m\<lparr>bm_bufs := dict_set key ?b (bm_bufs m), bm_total := bm_total m + (mb_len ?b - mb_len buf)\<rparr>"
    have "mb_maxsize ?b = bm_bufmaxsize m" using assms(1) Some by (auto simp: bm_inv_def dest: caps_ok_get)
    then have "bm_inv (?m2\<lparr>bm_bufs := move_to_end key (bm_bufs ?m2)\<rparr>)"
      using assms(1) Some by (intro bm_inv_move bm_inv_replace)
    moreover have "t = ?m2\<lparr>bm_bufs := move_to_end key (bm_bufs ?m2)\<rparr>"
      using assms(2) Some Cons by (simp add: bm_take_def mb_take_None mb_len_def)
    ultimately show ?thesis by simp
  qed
qed

lemma bm_fill_ok:
  assumes "dict_wf (bm_bufs m)" and "caps_ok (bm_bufmaxsize m) (bm_bufs m)" and "0 \<le> bm_bufmaxsize m"
  shows "\<exists>t. bm_fill it m = Inr t \<and> dict_wf (bm_bufs t) \<and> caps_ok (bm_bufmaxsize m) (bm_bufs t)
    \<and> bm_bufmaxsize t = bm_bufmaxsize m \<and> bm_maxsize t = bm_maxsize m"
  using assms
proof (induction it m rule: bm_fill.induct)
  case (1 m)
  then show ?case by simp
next
  case (2 key items rest m)
  obtain buf m1 where g: "get_or_create_buffer key m = (buf, m1)" by fastforce
  have m1: "dict_wf (bm_bufs m1)" "caps_ok (bm_bufmaxsize m) (bm_bufs m1)" "mb_maxsize buf = bm_bufmaxsize m"
    "bm_bufmaxsize m1 = bm_bufmaxsize m" "bm_maxsize m1 = bm_maxsize m"
    using g "2.prems"
    by (auto simp: get_or_create_buffer_def Let_def new_buffer_def mb_new_def inv_intros distinct_update
        caps_intros caps_ok_get split: option.splits)
  obtain buf' where b: "mb_extend items buf = Inr buf'" "mb_maxsize buf' = mb_maxsize buf"
    using mb_extend_ok [of buf items] m1 "2.prems" by auto
  let ?m2 = "m1\<lparr>bm_bufs := dict_set key buf' (bm_bufs m1)\<rparr>"
  have "dict_wf (bm_bufs ?m2)" "caps_ok (bm_bufmaxsize ?m2) (bm_bufs ?m2)" "0 \<le> bm_bufmaxsize ?m2"
    using m1 b "2.prems" by (auto simp: inv_intros distinct_update caps_intros)
  from "2.IH" [OF g [symmetric] b(1) this] show ?case using g b m1 by auto
qed

lemma bm_new_ok:
  assumes "0 \<le> mx" and "0 \<le> bufmax"
  shows "\<exists>t. bm_new mx it bufmax = Some (Inr t) \<and> bm_inv t \<and> bm_maxsize t = mx \<and> (mx \<noteq> 0 \<longrightarrow> bm_total t \<le> mx)"
proof -
  let ?e = "\<lparr>bm_maxsize = mx, bm_bufmaxsize = bufmax, bm_total = 0, bm_bufs = []\<rparr>"
  obtain m where m: "bm_fill it ?e = Inr m" "dict_wf (bm_bufs m)" "caps_ok bufmax (bm_bufs m)"
    "bm_bufmaxsize m = bufmax" "bm_maxsize m = mx"
    using bm_fill_ok [of ?e it] assms by (auto simp: caps_ok_def)
  let ?m = "m\<lparr>bm_total := (\<Sum>buf \<leftarrow> vals (bm_bufs m). mb_len buf)\<rparr>"
  have inv: "bm_inv ?m" using m assms by (auto simp: bm_inv_def bufs_sum_def)
  show ?thesis
    using bm_evictable.evict_forever_ok [OF inv] inv m
    by (auto simp: bm_new_def Let_def bm_evict_def)
qed

section \<open>Progress of an eviction pass\<close>

lemma bm_pop_loop_progress:
  assumes "bm_inv m" and "0 < bm_total m" and "bm_pop_loop n m = Inr t"
  shows "bm_total t = bm_total m - 1 \<or> bm_total t = bm_total m \<and> length (bm_bufs t) + n = length (bm_bufs m)"
  using assms
proof (induction n arbitrary: m)
  case 0
  then show ?case by simp
next
  case (Suc n)
  have wf: "dict_wf (bm_bufs m)" and tot: "bm_total m = bufs_sum (bm_bufs m)"
    using Suc.prems(1) by (auto simp: bm_inv_def)
  obtain key buf rest where b: "bm_bufs m = (key, buf) # rest"
    using Suc.prems(2) tot by (cases "bm_bufs m") auto
  show ?case
  proof (cases "mb_data buf")
    case Nil
    let ?m = "m\<lparr>bm_bufs := dict_del key (bm_bufs m)\<rparr>"
    have "mb_len buf = 0" by (simp add: mb_len_def Nil)
    then have "bm_inv ?m"
      using Suc.prems(1) caps_ok_del [of "bm_bufmaxsize m" "bm_bufs m" key] wf b by (auto simp: bm_inv_def)
    then show ?thesis using Suc.IH [of ?m] Suc.prems b Nil wf by (auto simp: mb_take_None)
  next
    case (Cons x xs)
    then show ?thesis using Suc.prems(3) b by (auto simp: mb_take_None Let_def split: if_splits)
  qed
qed

lemma evict_reaches_max:
  assumes "bm_inv m" and "bm_total m \<le> bm_maxsize m + 1" and "length (bm_bufs m) < 100 * k"
    and "bm_evict_limit k m = Inr t"
  shows "bm_total t \<le> bm_maxsize m"
  using assms
proof (induction k arbitrary: m)
  case 0
  then show ?case by simp
next
  case (Suc k)
  from Suc.prems(1) show ?case
  proof (cases rule: bm_evictable.evict1_cases)
    case stop
    then show ?thesis using Suc.prems(4) by (simp add: bm_evict_limit_def)
  next
    case (go u)
    then have rest: "bm_evict_limit k u = Inr t" using Suc.prems(4) by (simp add: bm_evict_limit_def)
    have "0 < bm_total m" using go(1) Suc.prems(1) by (simp add: bm_inv_def)
    then consider "bm_total u = bm_total m - 1" | "length (bm_bufs u) + 100 = length (bm_bufs m)"
      using bm_pop_loop_progress [OF Suc.prems(1), of 100 u] go(3) by (auto simp: bm_pop_to_evict_def)
    then show ?thesis
    proof cases
      case 1
      then show ?thesis
        using bm_evict_limit_ok [OF go(4), of k] rest Suc.prems(2) go by auto
    next
      case 2
      then show ?thesis using Suc.IH [OF go(4)] rest Suc.prems(2,3) go by auto
    qed
  qed
qed

section \<open>Sequences of calls\<close>

datatype ('k, 'a) bm_call = BPut 'k 'a | BExtend 'k "'a list" | BTake 'k "'a option" | BEvict

fun bm_exec :: "('k, 'a) bm_call \<Rightarrow> ('k, 'a) buffermap \<Rightarrow> ('k, 'a) buffermap result option" where
  "bm_exec (BPut key item) m = Some (bm_put key item m)"
| "bm_exec (BExtend key it) m = Some (bm_extend key it m)"
| "bm_exec (BTake key dflt) m = Some (res_bind (bm_take key dflt m) (\<lambda>(_, m'). Inr m'))"
| "bm_exec BEvict m = bm_evict m"

definition bm_start :: "('k, 'a) buffermap \<Rightarrow> bool" where
  "bm_start m \<longleftrightarrow> (\<exists>mx it bufmax. 0 \<le> mx \<and> 0 \<le> bufmax \<and> bm_new mx it bufmax = Some (Inr m))"

definition bm_step :: "('k, 'a) buffermap \<Rightarrow> ('k, 'a) bm_call \<Rightarrow> ('k, 'a) buffermap \<Rightarrow> bool" where
  "bm_step m c t \<longleftrightarrow> bm_exec c m = Some (Inr t)"

interpretation bm_system: invariant_system bm_start bm_step bm_inv
proof unfold_locales
  fix m :: "('a, 'b) buffermap"
  assume "bm_start m"
  then obtain mx it bufmax where "0 \<le> mx" "0 \<le> bufmax" "bm_new mx it bufmax = Some (Inr m)"
    by (auto simp: bm_start_def)
  then show "bm_inv m" using bm_new_ok [of mx bufmax it] by auto
next
  fix m t :: "('a, 'b) buffermap" and c
  assume inv: "bm_inv m" and step: "bm_step m c t"
  show "bm_inv t"
  proof (cases c)
    case (BPut key item)
    then show ?thesis using bm_put_ok [OF inv, of key item] step by (auto simp: bm_step_def)
  next
    case (BExtend key it)
    then show ?thesis using bm_extend_ok [OF inv, of key it] step by (auto simp: bm_step_def)
  next
    case (BTake key dflt)
    then show ?thesis using bm_take_ok [OF inv] step by (auto simp: bm_step_def res_bind_Inr_iff)
  next
    case BEvict
    then show ?thesis
      using bm_evictable.evict_forever_ok [OF inv] step by (auto simp: bm_step_def bm_evict_def)
  qed
qed

section \<open>Properties\<close>

text \<open>
  the count that drives eviction is exact. In every state a buffer map reaches from its
  constructor by \<open>put\<close>, \<open>extend\<close>, \<open>take\<close> and \<open>evict\<close>, \<open>total\<close> is the number of buffered
  messages, \<open>put\<close> and \<open>extend\<close> never raise (in particular the least recently used key is never
  asked of an empty map), and \<open>evict\<close> returns with the total at most \<open>maxsize\<close>.
\<close>

theorem buffermap_total_exact:
  assumes "reach bm_start bm_step m"
  shows "bm_total m = (\<Sum>buf \<leftarrow> vals (bm_bufs m). mb_len buf)
    \<and> (\<forall>key item. \<exists>t. bm_put key item m = Inr t)
    \<and> (\<forall>key it. \<exists>t. bm_extend key it m = Inr t)
    \<and> (\<exists>t. bm_evict m = Some (Inr t) \<and> bm_total t \<le> bm_maxsize m)"
proof -
  have inv: "bm_inv m" using bm_system.inv_reach [OF assms] .
  have "bm_total m = (\<Sum>buf \<leftarrow> vals (bm_bufs m). mb_len buf)"
    using inv by (simp add: bm_inv_def bufs_sum_def)
  moreover have "\<exists>t. bm_evict m = Some (Inr t) \<and> bm_total t \<le> bm_maxsize m"
    using bm_evictable.evict_forever_ok [OF inv] by (auto simp: bm_evict_def)
  ultimately show ?thesis using bm_put_ok [OF inv] bm_extend_ok [OF inv] by blast
qed

theorem buffermap_total_exact_witness:
  "\<exists>m. bm_new 2 [(''a'', [1, 2]), (''b'', [3 :: int])] 10 = Some (Inr m) \<and> bm_total m = (\<Sum>buf \<leftarrow> vals (bm_bufs m). mb_len buf)"
proof -
  obtain m where m: "bm_new 2 [(''a'', [1, 2]), (''b'', [3 :: int])] 10 = Some (Inr m)"
    using bm_new_ok [of 2 10 "[(''a'', [1, 2]), (''b'', [3 :: int])]"] by auto
  have "bm_start m"
    unfolding bm_start_def using m by (intro exI [of _ 2] exI [of _ "[(''a'', [1, 2]), (''b'', [3])]"] exI [of _ 10]) simp
  then have "reach bm_start bm_step m" by (rule reach_init)
  from buffermap_total_exact [OF this] m show ?thesis by blast
qed

text \<open>
  \<open>put\<close> keeps the number of buffered messages within \<open>maxsize\<close>. A map that is within its
  limit is within its limit after \<open>put\<close>, as long as it holds fewer than 9999 keys: one eviction
  pass makes 100 attempts, and an attempt that only finds empty buffers drops 100 of them.
\<close>

theorem put_within_maxsize:
  assumes "bm_inv m" and "0 < bm_maxsize m" and "bm_total m \<le> bm_maxsize m"
    and "length (bm_bufs m) < 9999"
  shows "\<exists>t. bm_put key item m = Inr t \<and> bm_inv t \<and> bm_total t \<le> bm_maxsize m"
proof -
  obtain p where p: "bm_inv p" "bm_maxsize p = bm_maxsize m" "bm_total p \<le> bm_total m + 1"
    "length (bm_bufs p) \<le> Suc (length (bm_bufs m))"
    "bm_put key item m = (if bm_maxsize p \<noteq> 0 then bm_evict_limit 100 p else Inr p)"
    using bm_put_pre [OF assms(1)] by blast
  obtain t where t: "bm_evict_limit 100 p = Inr t" "bm_inv t" using bm_evict_limit_ok [OF p(1)] by blast
  have "bm_total t \<le> bm_maxsize p" using assms(3,4) p by (intro evict_reaches_max [OF p(1) _ _ t(1)]) auto
  then show ?thesis using p t assms(2) by auto
qed

definition demo_map :: "(string, int) buffermap" where
  "demo_map = \<lparr>bm_maxsize = 2, bm_bufmaxsize = 10, bm_total = 2,
     bm_bufs = [(''a'', mb_new 10 []), (''b'', mb_new 10 [1, 2])]\<rparr>"

theorem put_within_maxsize_witness:
  "\<exists>t. bm_put ''c'' 7 demo_map = Inr t \<and> bm_inv t \<and> bm_total t \<le> 2"
proof -
  have "bm_inv demo_map" by (simp add: bm_inv_def demo_map_def mb_new_def caps_ok_def mb_len_def)
  then show ?thesis using put_within_maxsize [of demo_map "''c''" 7] by (simp add: demo_map_def)
qed

text \<open>
  a message buffer is a bounded queue of its newest messages. With a positive \<open>maxsize\<close> that
  is not exceeded yet, \<open>put\<close> appends the message and drops exactly the oldest one when the
  buffer was full, so the buffer holds the last \<open>maxsize\<close> messages in order.
\<close>

theorem put_keeps_newest:
  assumes "0 < mb_maxsize b" and "mb_len b \<le> mb_maxsize b"
  shows "\<exists>b'. mb_put x b = Inr b' \<and> mb_data b' = drop (Suc (length (mb_data b)) - nat (mb_maxsize b)) (mb_data b @ [x])
    \<and> mb_len b' = min (mb_len b + 1) (mb_maxsize b)"
proof -
  have "Suc (length (mb_data b)) - nat (mb_maxsize b) \<le> 1" using assms by (auto simp: mb_len_def)
  then have "min 100 (Suc (length (mb_data b)) - nat (mb_maxsize b)) = Suc (length (mb_data b)) - nat (mb_maxsize b)"
    by simp
  then show ?thesis using assms by (auto simp: mb_put_extend mb_add_spec mb_len_def)
qed

theorem put_keeps_newest_witness:
  "\<exists>b'. mb_put (3 :: int) (mb_new 2 [1, 2]) = Inr b' \<and> mb_data b' = [2, 3]"
  using put_keeps_newest [of "mb_new 2 [1, 2 :: int]" 3] by (auto simp: mb_new_def mb_len_def)

end
