(* ===== verification/Graph.thy ===== *)
theory Graph
  imports Prelude
begin

text \<open>
  \<open>celery.utils.graph.DependencyGraph\<close>: an adjacency dictionary from a node to the list of the
  nodes it depends on, with Tarjan's strongly connected components and Kahn's topological sort
  combined in \<open>topsort\<close>. The recursion of \<open>visit\<close> and \<open>valency_of\<close> and the loop of \<open>_khan62\<close> take
  fuel; the outcome \<open>Diverges\<close> is fuel exhaustion. The theorems show that the fuel the entry
  points pass is enough. Nothing is printed here: \<open>to_dot\<close> and the formatter are left out.
\<close>

section \<open>Building graphs\<close>

type_synonym 'n depgraph = "('n, 'n list) dict"

definition add_arc :: "'n \<Rightarrow> 'n depgraph \<Rightarrow> 'n depgraph" where
  "add_arc obj g = dict_setdefault obj [] g"

definition add_edge :: "'n \<Rightarrow> 'n \<Rightarrow> 'n depgraph \<Rightarrow> 'n depgraph result" where
  "add_edge A B g = (case dict_get g A of None \<Rightarrow> Inl KeyError | Some l \<Rightarrow> Inr (dict_set A (l @ [B]) g))"

fun add_edges :: "('n \<times> 'n) list \<Rightarrow> 'n depgraph \<Rightarrow> 'n depgraph result" where
  "add_edges [] g = Inr g"
| "add_edges ((A, B) # es) g = res_bind (add_edge A B g) (add_edges es)"

definition connect :: "'n depgraph \<Rightarrow> 'n depgraph \<Rightarrow> 'n depgraph" where
  "connect other g = dict_update g other"

definition update_graph :: "('n \<times> 'n list) list \<Rightarrow> 'n depgraph \<Rightarrow> 'n depgraph result" where
  "update_graph it g =
     add_edges (concat (map (\<lambda>(obj, deps). map (Pair obj) deps) it)) (fold (\<lambda>(obj, _). add_arc obj) it g)"

definition new_graph :: "('n \<times> 'n list) list option \<Rightarrow> 'n depgraph result" where
  "new_graph it = (case it of None \<Rightarrow> Inr [] | Some it \<Rightarrow> update_graph it [])"

definition edges :: "'n depgraph \<Rightarrow> 'n list" where
  "edges g = [obj. (obj, adj) \<leftarrow> g, adj \<noteq> []]"

fun valency_of :: "nat \<Rightarrow> 'n depgraph \<Rightarrow> 'n \<Rightarrow> nat result" where
  "valency_of 0 g obj = Inl Diverges"
| "valency_of (Suc n) g obj = (case dict_get g obj of None \<Rightarrow> Inr 0
     | Some l \<Rightarrow> fold (\<lambda>node r. res_bind r (\<lambda>s. res_bind (valency_of n g node) (\<lambda>v. Inr (s + v)))) l
         (Inr (length l)))"

section \<open>Tarjan's algorithm\<close>

record 'n tarjan =
  t_result :: "'n list list"
  t_stack :: "'n list"
  t_low :: "('n, nat) dict"

definition close_component :: "'n depgraph \<Rightarrow> nat \<Rightarrow> nat \<Rightarrow> 'n \<Rightarrow> 'n tarjan \<Rightarrow> 'n tarjan result" where
  "close_component g num stack_pos node st = (case dict_get (t_low st) node of
     None \<Rightarrow> Inl KeyError
   | Some lo \<Rightarrow> if num = lo
       then let component = drop stack_pos (t_stack st)
            in Inr \<lparr>t_result = t_result st @ [component], t_stack = take stack_pos (t_stack st),
                 t_low = fold (\<lambda>item. dict_set item (length g)) component (t_low st)\<rparr>
       else Inr st)"

fun visit :: "'n depgraph \<Rightarrow> nat \<Rightarrow> 'n \<Rightarrow> 'n tarjan \<Rightarrow> 'n tarjan result"
  and visit_succs :: "'n depgraph \<Rightarrow> nat \<Rightarrow> 'n \<Rightarrow> 'n list \<Rightarrow> 'n tarjan \<Rightarrow> 'n tarjan result" where
  "visit g 0 node st = Inl Diverges"
| "visit g (Suc n) node st =
     (if node \<in> set (keys (t_low st)) then Inr st
      else let num = length (t_low st); stack_pos = length (t_stack st);
               st1 = st\<lparr>t_low := dict_set node num (t_low st), t_stack := t_stack st @ [node]\<rparr>
           in case dict_get g node of
                None \<Rightarrow> Inl KeyError
              | Some succs \<Rightarrow> res_bind (visit_succs g n node succs st1) (close_component g num stack_pos node))"
| "visit_succs g n node [] st = Inr st"
| "visit_succs g n node (s # ss) st =
     res_bind (visit g n s st) (\<lambda>st'.
       case (dict_get (t_low st') node, dict_get (t_low st') s) of
         (Some a, Some b) \<Rightarrow> visit_succs g n node ss (st'\<lparr>t_low := dict_set node (min a b) (t_low st')\<rparr>)
       | _ \<Rightarrow> Inl KeyError)"

fun visit_all :: "'n depgraph \<Rightarrow> 'n list \<Rightarrow> 'n tarjan \<Rightarrow> 'n tarjan result" where
  "visit_all g [] st = Inr st"
| "visit_all g (node # rest) st = res_bind (visit g (Suc (length g)) node st) (visit_all g rest)"

definition tarjan72 :: "'n depgraph \<Rightarrow> 'n list list result" where
  "tarjan72 g = res_bind (visit_all g (keys g) \<lparr>t_result = [], t_stack = [], t_low = []\<rparr>) (\<lambda>st. Inr (t_result st))"

section \<open>Kahn's algorithm\<close>

type_synonym 'n counter = "('n, int) dict"

definition cnt :: "'n counter \<Rightarrow> 'n \<Rightarrow> int" where
  "cnt counts v = (case dict_get counts v of None \<Rightarrow> 0 | Some c \<Rightarrow> c)"

definition count_edges :: "'n depgraph \<Rightarrow> 'n counter" where
  "count_edges g = fold (\<lambda>successor counts. dict_set successor (cnt counts successor + 1) counts) (concat (vals g)) []"

fun release :: "'n list \<Rightarrow> 'n counter \<Rightarrow> 'n list \<Rightarrow> 'n counter \<times> 'n list" where
  "release [] counts ready = (counts, ready)"
| "release (successor # ss) counts ready =
     (let counts' = dict_set successor (cnt counts successor - 1) counts
      in release ss counts' (if cnt counts' successor = 0 then ready @ [successor] else ready))"

fun khan_loop :: "nat \<Rightarrow> 'n depgraph \<Rightarrow> 'n counter \<Rightarrow> 'n list \<Rightarrow> 'n list \<Rightarrow> 'n list result" where
  "khan_loop 0 g counts ready result = Inl Diverges"
| "khan_loop (Suc n) g counts ready result =
     (if ready = [] then Inr result
      else let node = last ready in
        case dict_get g node of
          None \<Rightarrow> Inl KeyError
        | Some succs \<Rightarrow> (case release succs counts (butlast ready) of
            (counts', ready') \<Rightarrow> khan_loop n g counts' ready' (result @ [node])))"

definition khan62 :: "'n depgraph \<Rightarrow> 'n list result" where
  "khan62 g = (let counts = count_edges g; ready = filter (\<lambda>node. cnt counts node = 0) (keys g)
     in res_bind (khan_loop (Suc (length g)) g counts ready []) (\<lambda>result. Inr (rev result)))"

section \<open>Topological sort\<close>

definition component_of :: "'n list list \<Rightarrow> ('n, 'n list) dict" where
  "component_of components = dict_update [] [(node, component). component \<leftarrow> components, node \<leftarrow> component]"

fun cond_edges :: "('n, 'n list) dict \<Rightarrow> ('n \<times> 'n) list \<Rightarrow> ('n list \<times> 'n list) list result" where
  "cond_edges NC [] = Inr []"
| "cond_edges NC ((node, successor) # es) = (case (dict_get NC node, dict_get NC successor) of
     (Some node_c, Some successor_c) \<Rightarrow> res_bind (cond_edges NC es)
        (\<lambda>rest. Inr (if node_c \<noteq> successor_c then (node_c, successor_c) # rest else rest))
   | _ \<Rightarrow> Inl KeyError)"

definition edge_list :: "'n depgraph \<Rightarrow> ('n \<times> 'n) list" where
  "edge_list g = [(node, successor). (node, succs) \<leftarrow> g, successor \<leftarrow> succs]"

definition condense :: "'n depgraph \<Rightarrow> 'n list list \<Rightarrow> 'n list depgraph result" where
  "condense g components =
     res_bind (cond_edges (component_of components) (edge_list g))
       (\<lambda>es. add_edges es (fold add_arc components []))"

fun first_items :: "'n list list \<Rightarrow> 'n list result" where
  "first_items [] = Inr []"
| "first_items ([] # ts) = Inl IndexError"
| "first_items ((x # xs) # ts) = res_bind (first_items ts) (\<lambda>rest. Inr (x # rest))"

definition topsort :: "'n depgraph \<Rightarrow> 'n list result" where
  "topsort g = res_bind (tarjan72 g) (\<lambda>components.
     res_bind (condense g components) (\<lambda>graph. res_bind (khan62 graph) first_items))"

section \<open>The dependency relation\<close>

definition edge_rel :: "'n depgraph \<Rightarrow> ('n \<times> 'n) set" where
  "edge_rel g = {(a, b). \<exists>l. dict_get g a = Some l \<and> b \<in> set l}"

definition nodes :: "('n, 'v) dict \<Rightarrow> 'n set" where
  "nodes g = set (keys g)"

definition closed_graph :: "'n depgraph \<Rightarrow> bool" where
  "closed_graph g \<longleftrightarrow> dict_wf g \<and> edge_rel g \<subseteq> UNIV \<times> nodes g"

definition deps_first :: "'n depgraph \<Rightarrow> 'n list \<Rightarrow> bool" where
  "deps_first g r \<longleftrightarrow> (\<forall>xs a ys. r = xs @ a # ys \<longrightarrow> (\<forall>b. (a, b) \<in> edge_rel g \<longrightarrow> b \<in> set xs))"

lemma nodes_iff: "a \<in> nodes g \<longleftrightarrow> (\<exists>l. dict_get g a = Some l)"
  by (simp add: nodes_def dict_get_Some_iff)

lemma nodes_set [simp]: "nodes (dict_set k v d) = insert k (nodes d)"
  by (simp add: nodes_def)

lemma finite_nodes [simp]: "finite (nodes g)"
  by (simp add: nodes_def)

lemma card_nodes: "dict_wf g \<Longrightarrow> card (nodes g) = length g"
  unfolding nodes_def by (subst distinct_card) auto

lemma edge_relI: "dict_get g a = Some l \<Longrightarrow> b \<in> set l \<Longrightarrow> (a, b) \<in> edge_rel g"
  by (auto simp: edge_rel_def)

lemma edge_rel_src: "(a, b) \<in> edge_rel g \<Longrightarrow> a \<in> nodes g"
  by (auto simp: edge_rel_def nodes_iff)

lemma closed_dst: "closed_graph g \<Longrightarrow> (a, b) \<in> edge_rel g \<Longrightarrow> b \<in> nodes g"
  by (auto simp: closed_graph_def)

lemma closed_succs: "closed_graph g \<Longrightarrow> dict_get g a = Some l \<Longrightarrow> set l \<subseteq> nodes g"
  by (meson closed_dst edge_relI subsetI)

lemma finite_edge_rel: "finite (edge_rel g)"
proof -
  have "edge_rel g \<subseteq> set (keys g) \<times> \<Union> (set ` set (vals g))"
    by (force simp: edge_rel_def dest: map_of_SomeD)
  then show ?thesis by (rule finite_subset) auto
qed

lemma acyclic_wf: "acyclic (edge_rel g) \<Longrightarrow> wf (edge_rel g)"
  by (rule finite_acyclic_wf [OF finite_edge_rel])

section \<open>Kahn's loop\<close>

definition pend :: "'n depgraph \<Rightarrow> 'n set \<Rightarrow> 'n \<Rightarrow> nat" where
  "pend g done v = (\<Sum>(a, l) \<leftarrow> g. if a \<in> done then 0 else count_list l v)"

lemma pend_empty: "pend g {} v = count_list (concat (vals g)) v"
  by (induction g) (auto simp: pend_def)

lemma pend_same: "node \<notin> nodes g \<Longrightarrow> pend g (insert node D) v = pend g D v"
  by (induction g) (auto simp: pend_def nodes_def)

lemma pend_insert:
  "dict_wf g \<Longrightarrow> dict_get g node = Some l \<Longrightarrow> node \<notin> D \<Longrightarrow> pend g D v = pend g (insert node D) v + count_list l v"
proof (induction g)
  case Nil
  then show ?case by simp
next
  case (Cons p g)
  then show ?case
    using pend_same [of node g D v] by (cases p) (auto simp: pend_def nodes_def split: if_splits)
qed

lemma pend_zero:
  assumes "dict_wf g"
  shows "pend g D v = 0 \<longleftrightarrow> (\<forall>a. (a, v) \<in> edge_rel g \<longrightarrow> a \<in> D)"
proof -
  have "pend g D v = 0 \<longleftrightarrow> (\<forall>(a, l) \<in> set g. a \<in> D \<or> v \<notin> set l)"
    by (induction g) (auto simp: pend_def count_list_0_iff)
  also have "\<dots> \<longleftrightarrow> (\<forall>a. (a, v) \<in> edge_rel g \<longrightarrow> a \<in> D)"
    using assms by (auto simp: edge_rel_def dict_get_iff_mem)
  finally show ?thesis .
qed

lemma cnt_set: "cnt (dict_set s c counts) v = (if v = s then c else cnt counts v)"
  by (simp add: cnt_def dict_simps)

lemma cnt_fold_count:
  "cnt (fold (\<lambda>s counts. dict_set s (cnt counts s + 1) counts) ss c) v = cnt c v + int (count_list ss v)"
  by (induction ss arbitrary: c) (auto simp: cnt_set)

lemma cnt_count_edges: "cnt (count_edges g) v = int (pend g {} v)"
  by (simp add: count_edges_def cnt_fold_count pend_empty) (simp add: cnt_def)

lemma release_spec:
  assumes "\<forall>v. int (count_list ss v) \<le> cnt c v"
  shows "\<exists>c' new. release ss c r = (c', r @ new) \<and> (\<forall>v. cnt c' v = cnt c v - int (count_list ss v))
    \<and> distinct new \<and> set new = {v \<in> set ss. cnt c v = int (count_list ss v)}"
  using assms
proof (induction ss arbitrary: c r)
  case Nil
  then show ?case by simp
next
  case (Cons s ss)
  let ?c = "dict_set s (cnt c s - 1) c"
  have c: "cnt ?c v = cnt c v - (if v = s then 1 else 0)" for v by (simp add: cnt_set)
  have le: "int (count_list ss v) \<le> cnt ?c v" for v using spec [OF Cons.prems, of v] by (cases "v = s") (simp_all add: c)
  have zero: "cnt ?c s = 0 \<Longrightarrow> s \<notin> set ss" using le [of s] by (simp add: count_list_0_iff [symmetric])
  from Cons.IH [of ?c "if cnt ?c s = 0 then r @ [s] else r"] le obtain c' new where
    new: "release ss ?c (if cnt ?c s = 0 then r @ [s] else r) = (c', (if cnt ?c s = 0 then r @ [s] else r) @ new)"
      "\<forall>v. cnt c' v = cnt ?c v - int (count_list ss v)" "distinct new"
      "set new = {v \<in> set ss. cnt ?c v = int (count_list ss v)}" by blast
  let ?new = "(if cnt ?c s = 0 then [s] else []) @ new"
  have "release (s # ss) c r = (c', r @ ?new)" using new(1) by (auto simp: Let_def)
  moreover have "distinct ?new" using new(3,4) zero by auto
  moreover have "set ?new = {v \<in> set (s # ss). cnt c v = int (count_list (s # ss) v)}"
    using zero by (cases "s \<in> set ss") (auto simp: new(4) c count_list_0_iff)
  ultimately show ?case using new(2) by (auto simp: c)
qed

definition preds_before :: "'n depgraph \<Rightarrow> 'n list \<Rightarrow> bool" where
  "preds_before g res \<longleftrightarrow> (\<forall>xs v ys. res = xs @ v # ys \<longrightarrow> (\<forall>a. (a, v) \<in> edge_rel g \<longrightarrow> a \<in> set xs))"

lemma preds_before_snoc:
  assumes "preds_before g res" and "\<forall>a. (a, v) \<in> edge_rel g \<longrightarrow> a \<in> set res"
  shows "preds_before g (res @ [v])"
  unfolding preds_before_def
proof (intro allI impI)
  fix xs w ys a
  assume eq: "res @ [v] = xs @ w # ys" and e: "(a, w) \<in> edge_rel g"
  show "a \<in> set xs"
  proof (cases ys rule: rev_cases)
    case Nil
    then show ?thesis using eq e assms(2) by auto
  next
    case (snoc zs z)
    then have "res = xs @ w # zs" using eq by auto
    then show ?thesis using assms(1) e by (auto simp: preds_before_def)
  qed
qed

definition khan_inv :: "'n depgraph \<Rightarrow> 'n counter \<Rightarrow> 'n list \<Rightarrow> 'n list \<Rightarrow> bool" where
  "khan_inv g c ready res \<longleftrightarrow> distinct (res @ ready) \<and> set (res @ ready) \<subseteq> nodes g
     \<and> (\<forall>v. cnt c v = int (pend g (set res) v))
     \<and> (\<forall>v \<in> nodes g. v \<in> set (res @ ready) \<longleftrightarrow> cnt c v = 0) \<and> preds_before g res"

lemma khan_inv_init: "khan_inv g (count_edges g) (filter (\<lambda>node. cnt (count_edges g) node = 0) (keys g)) []"
  if "closed_graph g"
  using that by (auto simp: nodes_def khan_inv_def cnt_count_edges closed_graph_def preds_before_def)

lemma khan_inv_step:
  assumes g: "closed_graph g" and inv: "khan_inv g c (r @ [node]) res"
    and l: "dict_get g node = Some l"
  shows "\<exists>c' r'. release l c r = (c', r') \<and> khan_inv g c' r' (res @ [node])"
proof -
  have wf: "dict_wf g" using g by (simp add: closed_graph_def)
  have node: "node \<notin> set res" "node \<notin> set r" "node \<in> nodes g" using inv by (auto simp: khan_inv_def)
  have pend: "cnt c v = int (pend g (insert node (set res)) v) + int (count_list l v)" for v
    using inv pend_insert [OF wf l node(1), of v] by (auto simp: khan_inv_def)
  then have "\<forall>v. int (count_list l v) \<le> cnt c v" by auto
  from release_spec [OF this, of r] obtain c' new where
    rel: "release l c r = (c', r @ new)" and c': "\<forall>v. cnt c' v = cnt c v - int (count_list l v)"
    and new: "distinct new" "set new = {v \<in> set l. cnt c v = int (count_list l v)}" by blast
  have cnt': "cnt c' v = int (pend g (insert node (set res)) v)" for v using c' pend by simp
  have pos: "v \<in> set l \<Longrightarrow> cnt c v \<noteq> 0" for v
    using pend [of v] count_list_0_iff [of l v] by auto
  have succ: "set l \<subseteq> nodes g" using closed_succs [OF g l] .
  have fresh: "set new \<inter> set (res @ r @ [node]) = {}"
  proof -
    have "v \<notin> set (res @ r @ [node])" if "v \<in> set l" for v
      using inv pos [OF that] that succ unfolding khan_inv_def by auto
    then show ?thesis using new(2) by blast
  qed
  have "preds_before g (res @ [node])"
  proof (rule preds_before_snoc)
    have "cnt c node = 0" using inv node by (auto simp: khan_inv_def)
    then have "pend g (set res) node = 0" using inv by (auto simp: khan_inv_def)
    then show "\<forall>a. (a, node) \<in> edge_rel g \<longrightarrow> a \<in> set res" by (simp add: pend_zero [OF wf])
  qed (use inv in \<open>simp add: khan_inv_def\<close>)
  moreover have "v \<in> set (res @ [node] @ r @ new) \<longleftrightarrow> cnt c' v = 0" if v: "v \<in> nodes g" for v
  proof -
    have old: "v \<in> set (res @ r @ [node]) \<longleftrightarrow> cnt c v = 0" using inv v by (auto simp: khan_inv_def)
    have "cnt c' v = 0 \<longleftrightarrow> cnt c v = int (count_list l v)" using c' by simp
    then show ?thesis using old pos [of v] new(2) count_list_0_iff [of l v] by (cases "v \<in> set l") auto
  qed
  ultimately have "khan_inv g c' (r @ new) (res @ [node])"
    using inv new fresh succ node cnt' unfolding khan_inv_def by auto
  then show ?thesis using rel by blast
qed

lemma khan_loop_ok:
  assumes "closed_graph g" and "khan_inv g c ready res" and "length g < n + length res"
  shows "\<exists>c' res'. khan_loop n g c ready res = Inr res' \<and> khan_inv g c' [] res'"
  using assms(2,3)
proof (induction n arbitrary: c ready res)
  case 0
  then have "length res \<le> length g"
    using card_mono [of "nodes g" "set res"] card_nodes [of g] assms(1)
    by (auto simp: khan_inv_def distinct_card closed_graph_def)
  then show ?case using 0 by simp
next
  case (Suc n)
  show ?case
  proof (cases ready rule: rev_cases)
    case Nil
    then show ?thesis using Suc.prems by auto
  next
    case (snoc r node)
    then have "node \<in> nodes g" using Suc.prems by (auto simp: khan_inv_def)
    then obtain l where l: "dict_get g node = Some l" by (auto simp: nodes_iff)
    with khan_inv_step [OF assms(1)] snoc Suc.prems(1) obtain c' r' where
      "release l c r = (c', r')" "khan_inv g c' r' (res @ [node])" by blast
    with Suc.IH [of c' r' "res @ [node]"] Suc.prems(2) l snoc show ?thesis by auto
  qed
qed

lemma khan_complete:
  assumes "closed_graph g" and "acyclic (edge_rel g)" and inv: "khan_inv g c [] res"
  shows "set res = nodes g"
proof (rule ccontr)
  assume "set res \<noteq> nodes g"
  then obtain v where "v \<in> nodes g - set res" using inv by (auto simp: khan_inv_def)
  then obtain z where z: "z \<in> nodes g - set res" "\<And>y. (y, z) \<in> edge_rel g \<Longrightarrow> y \<notin> nodes g - set res"
    using wfE_min [OF acyclic_wf [OF assms(2)]] by metis
  have "\<forall>a. (a, z) \<in> edge_rel g \<longrightarrow> a \<in> set res"
    using z(2) by (meson DiffI edge_rel_src)
  then have "pend g (set res) z = 0" using assms(1) by (simp add: pend_zero closed_graph_def)
  then show False using inv z(1) by (auto simp: khan_inv_def)
qed

lemma preds_before_rev:
  assumes "preds_before g res" "distinct res" "set res = nodes g" "closed_graph g" "acyclic (edge_rel g)"
  shows "deps_first g (rev res)"
  unfolding deps_first_def
proof (intro allI impI)
  fix xs a ys b
  assume eq: "rev res = xs @ a # ys" and e: "(a, b) \<in> edge_rel g"
  then have res: "res = rev ys @ a # rev xs" using rev_swap [of res] by auto
  have "b \<in> set res" using closed_dst [OF assms(4) e] assms(3) by simp
  moreover have "b \<noteq> a" using assms(5) e by (auto simp: acyclic_def)
  moreover have "b \<notin> set (rev ys)"
  proof
    assume "b \<in> set (rev ys)"
    then obtain p q where pq: "rev ys = p @ b # q" by (auto simp only: in_set_conv_decomp)
    then have "res = p @ b # (q @ a # rev xs)" using res by simp
    then have "a \<in> set p" using assms(1) e by (auto simp: preds_before_def)
    then show False using assms(2) res pq by auto
  qed
  ultimately show "b \<in> set xs" using res by auto
qed

lemma khan62_ok:
  assumes "closed_graph g" and "acyclic (edge_rel g)"
  shows "\<exists>r. khan62 g = Inr r \<and> distinct r \<and> set r = nodes g \<and> deps_first g r"
proof -
  obtain c res where res: "khan_loop (Suc (length g)) g (count_edges g)
      (filter (\<lambda>node. cnt (count_edges g) node = 0) (keys g)) [] = Inr res" and inv: "khan_inv g c [] res"
    using khan_loop_ok [OF assms(1) khan_inv_init [OF assms(1)], of "Suc (length g)"] by auto
  have all: "set res = nodes g" using khan_complete [OF assms inv] .
  have "distinct res" "preds_before g res" using inv by (auto simp: khan_inv_def)
  then show ?thesis using preds_before_rev [OF _ _ all assms] res all by (auto simp: khan62_def Let_def)
qed

section \<open>Tarjan's visit on an acyclic graph\<close>

text \<open>
  On an acyclic graph a node is popped as soon as its successors are done, so the stack is the
  path from the root of the current visit and every component is a single node.
\<close>

definition t_done :: "'n tarjan \<Rightarrow> 'n list" where
  "t_done st = concat (t_result st)"

definition tarjan_ok :: "'n depgraph \<Rightarrow> 'n tarjan \<Rightarrow> bool" where
  "tarjan_ok g st \<longleftrightarrow> dict_wf (t_low st) \<and> nodes (t_low st) \<subseteq> nodes g
     \<and> distinct (t_stack st) \<and> set (t_stack st) \<subseteq> nodes (t_low st)
     \<and> t_result st = map (\<lambda>n. [n]) (t_done st) \<and> distinct (t_done st)
     \<and> set (t_done st) = nodes (t_low st) - set (t_stack st)
     \<and> (\<forall>n \<in> set (t_done st). dict_get (t_low st) n = Some (length g))"

definition grown :: "'n tarjan \<Rightarrow> 'n tarjan \<Rightarrow> bool" where
  "grown st st' \<longleftrightarrow> t_stack st' = t_stack st \<and> nodes (t_low st) \<subseteq> nodes (t_low st')
     \<and> (\<forall>a \<in> set (t_stack st). dict_get (t_low st') a = dict_get (t_low st) a)"

lemma grown_refl: "grown st st"
  by (simp add: grown_def)

lemma grown_trans: "grown a b \<Longrightarrow> grown b c \<Longrightarrow> grown a c"
  by (auto simp: grown_def)

lemma length_nodes_mono:
  assumes "dict_wf a" "dict_wf b" "nodes a \<subseteq> nodes b"
  shows "length a \<le> length b"
  using card_mono [OF finite_nodes assms(3)] assms(1,2) by (simp add: card_nodes)

lemma length_nodes_less:
  assumes "dict_wf a" "dict_wf b" "nodes a \<subseteq> nodes b" "k \<in> nodes b" "k \<notin> nodes a"
  shows "length a < length b"
  using psubset_card_mono [of "nodes b" "nodes a"] assms by (auto simp: card_nodes)

lemma dict_set_same: "dict_get d k = Some v \<Longrightarrow> dict_set k v d = d"
  by (induction d) (auto split: if_splits)

lemma tarjan_push:
  assumes "tarjan_ok g st" and "node \<in> nodes g" and "node \<notin> nodes (t_low st)"
  shows "tarjan_ok g (st\<lparr>t_low := dict_set node num (t_low st), t_stack := t_stack st @ [node]\<rparr>)"
proof -
  have dn: "t_done (st\<lparr>t_low := dict_set node num (t_low st), t_stack := t_stack st @ [node]\<rparr>) = t_done st"
    by (simp add: t_done_def)
  have fresh: "node \<notin> set (t_done st)" "node \<notin> set (t_stack st)" using assms by (auto simp: tarjan_ok_def)
  then have "n \<noteq> node" if "n \<in> set (t_done st)" for n using that by blast
  then show ?thesis
    using assms fresh unfolding tarjan_ok_def dn
    by (auto simp: dict_simps distinct_update simp del: map_of_eq_Some_iff)
qed

lemma tarjan_close:
  assumes ok: "tarjan_ok g st" and stack: "t_stack st = S @ [node]" and low: "dict_get (t_low st) node = Some num"
  shows "\<exists>st'. close_component g num (length S) node st = Inr st' \<and> tarjan_ok g st' \<and> t_stack st' = S
    \<and> t_low st' = dict_set node (length g) (t_low st) \<and> node \<in> set (t_done st')"
proof -
  have "node \<notin> set S" using ok stack by (auto simp: tarjan_ok_def)
  moreover have "node \<in> nodes (t_low st)" using low by (auto simp: nodes_iff)
  ultimately show ?thesis
    using ok stack low unfolding tarjan_ok_def
    by (auto simp: close_component_def dict_simps distinct_update t_done_def simp del: map_of_eq_Some_iff)
qed

definition visit_good :: "'n depgraph \<Rightarrow> nat \<Rightarrow> bool" where
  "visit_good g n \<longleftrightarrow> (\<forall>node st. tarjan_ok g st \<and> (\<forall>a \<in> set (t_stack st). (a, node) \<in> (edge_rel g)\<^sup>+)
      \<and> node \<in> nodes g \<and> length g < n + length (t_low st) \<longrightarrow>
      (\<exists>st'. visit g n node st = Inr st' \<and> tarjan_ok g st' \<and> grown st st' \<and> node \<in> set (t_done st')))"

lemma visit_succs_ok:
  assumes "closed_graph g" and vis: "visit_good g n" and "tarjan_ok g st" and "t_stack st = S @ [node]"
    and "\<forall>a \<in> set S. (a, node) \<in> (edge_rel g)\<^sup>+" and "dict_get (t_low st) node = Some num" and "num < length g"
    and "\<forall>s \<in> set ss. (node, s) \<in> edge_rel g" and "length g < n + length (t_low st)"
  shows "\<exists>st'. visit_succs g n node ss st = Inr st' \<and> tarjan_ok g st' \<and> grown st st'"
  using assms(3-)
proof (induction ss arbitrary: st)
  case Nil
  then show ?case by (simp add: grown_refl)
next
  case (Cons s ss)
  have e: "(node, s) \<in> edge_rel g" using Cons.prems by simp
  have "\<forall>a \<in> set (t_stack st). (a, s) \<in> (edge_rel g)\<^sup>+"
    using Cons.prems(2,3) e by (auto intro: trancl_into_trancl)
  then obtain st1 where st1: "visit g n s st = Inr st1" "tarjan_ok g st1" "grown st st1"
      "s \<in> set (t_done st1)"
    using vis Cons.prems(1,7) closed_dst [OF assms(1) e] unfolding visit_good_def by blast
  have low: "dict_get (t_low st1) node = Some num" "dict_get (t_low st1) s = Some (length g)"
    using st1 Cons.prems(2,4) by (auto simp: grown_def tarjan_ok_def simp del: map_of_eq_Some_iff)
  have "length (t_low st) \<le> length (t_low st1)"
    using st1 Cons.prems(1) by (intro length_nodes_mono) (auto simp: tarjan_ok_def grown_def)
  then obtain st2 where "visit_succs g n node ss st1 = Inr st2" "tarjan_ok g st2" "grown st1 st2"
    using Cons.IH [of st1] Cons.prems st1 low by (auto simp: grown_def)
  moreover have "visit_succs g n node (s # ss) st = visit_succs g n node ss st1"
    using st1(1) low Cons.prems(5) by (simp add: min_def dict_set_same)
  ultimately show ?case using grown_trans [OF st1(3)] by auto
qed

lemma visit_ok:
  assumes g: "closed_graph g" and acyc: "acyclic (edge_rel g)"
  shows "visit_good g n"
proof (induction n)
  case 0
  have "tarjan_ok g st \<Longrightarrow> length (t_low st) \<le> length g" for st
    using g by (intro length_nodes_mono) (auto simp: tarjan_ok_def closed_graph_def)
  then show ?case by (fastforce simp: visit_good_def)
next
  case (Suc n)
  show ?case unfolding visit_good_def
  proof (intro allI impI, elim conjE)
    fix node and st :: "'a tarjan"
    assume st: "tarjan_ok g st" and path: "\<forall>a \<in> set (t_stack st). (a, node) \<in> (edge_rel g)\<^sup>+"
      and node: "node \<in> nodes g" and fuel: "length g < Suc n + length (t_low st)"
    have off: "node \<notin> set (t_stack st)" using path acyc by (auto simp: acyclic_def)
    show "\<exists>st'. visit g (Suc n) node st = Inr st' \<and> tarjan_ok g st' \<and> grown st st' \<and> node \<in> set (t_done st')"
    proof (cases "node \<in> nodes (t_low st)")
      case True
      then show ?thesis using st off by (auto simp: grown_refl nodes_def tarjan_ok_def)
    next
      case new: False
      let ?num = "length (t_low st)"
      let ?st = "st\<lparr>t_low := dict_set node ?num (t_low st), t_stack := t_stack st @ [node]\<rparr>"
      obtain l where l: "dict_get g node = Some l" using node by (auto simp: nodes_iff)
      have num: "?num < length g"
        using st g node new by (intro length_nodes_less [of _ _ node]) (auto simp: tarjan_ok_def closed_graph_def)
      have len: "length (t_low ?st) = Suc ?num" using new by (simp add: length_dict_set nodes_def)
      obtain st2 where st2: "visit_succs g n node l ?st = Inr st2" "tarjan_ok g st2" "grown ?st st2"
        using visit_succs_ok [OF g Suc.IH tarjan_push [OF st node new], of ?num "t_stack st" node ?num l] path num l fuel len
        by (auto simp: dict_simps intro: edge_relI)
      then obtain st3 where st3: "close_component g ?num (length (t_stack st)) node st2 = Inr st3" "tarjan_ok g st3"
          "t_stack st3 = t_stack st" "t_low st3 = dict_set node (length g) (t_low st2)" "node \<in> set (t_done st3)"
        using tarjan_close [of g st2 "t_stack st" node ?num] by (auto simp: grown_def dict_simps)
      have "grown st st3" using st3(3,4) st2(3) off by (auto simp: grown_def dict_simps)
      then show ?thesis using st2 st3 new l by (auto simp: nodes_def Let_def)
    qed
  qed
qed

lemma visit_all_ok:
  assumes g: "closed_graph g" and acyc: "acyclic (edge_rel g)"
    and "tarjan_ok g st" and "t_stack st = []" and "set ns \<subseteq> nodes g"
  shows "\<exists>st'. visit_all g ns st = Inr st' \<and> tarjan_ok g st' \<and> t_stack st' = []
    \<and> set ns \<union> nodes (t_low st) \<subseteq> nodes (t_low st')"
  using assms(3-)
proof (induction ns arbitrary: st)
  case Nil
  then show ?case by simp
next
  case (Cons node ns)
  obtain st1 where st1: "visit g (Suc (length g)) node st = Inr st1" "tarjan_ok g st1" "grown st st1"
      "node \<in> set (t_done st1)"
    using visit_ok [OF g acyc, of "Suc (length g)", unfolded visit_good_def, rule_format, of st node] Cons.prems by auto
  have "node \<in> nodes (t_low st1)" using st1 unfolding tarjan_ok_def by blast
  moreover obtain st2 where "visit_all g ns st1 = Inr st2" "tarjan_ok g st2" "t_stack st2 = []"
      "set ns \<union> nodes (t_low st1) \<subseteq> nodes (t_low st2)"
    using Cons.IH [OF st1(2)] Cons.prems st1(3) by (auto simp: grown_def)
  ultimately show ?case using st1 by (auto simp: grown_def)
qed

lemma tarjan72_ok:
  assumes "closed_graph g" and "acyclic (edge_rel g)"
  shows "\<exists>L. tarjan72 g = Inr (map (\<lambda>n. [n]) L) \<and> distinct L \<and> set L = nodes g"
proof -
  have start: "tarjan_ok g \<lparr>t_result = [], t_stack = [], t_low = []\<rparr>"
    by (simp add: tarjan_ok_def t_done_def nodes_def)
  obtain st where st: "visit_all g (keys g) \<lparr>t_result = [], t_stack = [], t_low = []\<rparr> = Inr st"
      "tarjan_ok g st" "t_stack st = []" "nodes g \<subseteq> nodes (t_low st)"
    using visit_all_ok [OF assms, of "\<lparr>t_result = [], t_stack = [], t_low = []\<rparr>" "keys g"]
    by (auto simp: start nodes_def)
  then have "t_result st = map (\<lambda>n. [n]) (t_done st)" "distinct (t_done st)"
      "set (t_done st) = nodes g"
    unfolding tarjan_ok_def by auto
  then show ?thesis using st(1) by (intro exI [of _ "t_done st"]) (simp add: tarjan72_def)
qed

section \<open>The condensed graph\<close>

lemma nodes_add_arc [simp]: "nodes (add_arc obj g) = insert obj (nodes g)"
  by (auto simp: add_arc_def dict_setdefault_def nodes_iff split: option.splits)

lemma wf_add_arc: "dict_wf g \<Longrightarrow> dict_wf (add_arc obj g)"
  by (auto simp: add_arc_def dict_setdefault_def distinct_update split: option.split)

lemma get_add_arc: "dict_get (add_arc obj g) a = (if a = obj \<and> dict_get g a = None then Some [] else dict_get g a)"
  by (auto simp: add_arc_def dict_setdefault_def dict_simps split: option.split)

lemma add_edges_ok:
  assumes "\<forall>e \<in> set es. fst e \<in> nodes g" and "dict_wf g"
  shows "\<exists>h. add_edges es g = Inr h \<and> dict_wf h \<and> nodes h = nodes g
    \<and> (\<forall>a. dict_get h a = map_option (\<lambda>l. l @ map snd (filter (\<lambda>e. fst e = a) es)) (dict_get g a))"
  using assms
proof (induction es arbitrary: g)
  case Nil
  then show ?case by (simp add: option.map_ident)
next
  case (Cons e es)
  obtain A B where e: "e = (A, B)" by (cases e)
  then obtain l where l: "dict_get g A = Some l" using Cons.prems by (auto simp: nodes_iff)
  let ?g = "dict_set A (l @ [B]) g"
  have nodes: "nodes ?g = nodes g" using l by (auto simp: nodes_iff)
  with Cons.IH [of ?g] Cons.prems obtain h where "add_edges es ?g = Inr h" "dict_wf h" "nodes h = nodes g"
    "\<forall>a. dict_get h a = map_option (\<lambda>l. l @ map snd (filter (\<lambda>e. fst e = a) es)) (dict_get ?g a)"
    by (auto simp: distinct_update)
  then show ?case using e l by (auto simp: add_edge_def dict_simps)
qed

lemma edge_rel_added:
  assumes "\<forall>a. dict_get h a = map_option (\<lambda>l. l @ map snd (filter (\<lambda>e. fst e = a) es)) (dict_get g a)"
  shows "edge_rel h = edge_rel g \<union> {(x, y). x \<in> nodes g \<and> (x, y) \<in> set es}"
proof -
  have "y \<in> set (map snd (filter (\<lambda>e. fst e = x) es)) \<longleftrightarrow> (x, y) \<in> set es" for x y by force
  then have "(x, y) \<in> edge_rel h \<longleftrightarrow> (x, y) \<in> edge_rel g \<or> x \<in> nodes g \<and> (x, y) \<in> set es" for x y
    using assms unfolding edge_rel_def nodes_iff by (cases "dict_get g x") auto
  then show ?thesis by auto
qed

lemma fold_add_arc:
  "dict_wf g \<Longrightarrow> dict_wf (fold add_arc cs g) \<and> nodes (fold add_arc cs g) = nodes g \<union> set cs
    \<and> (\<forall>a. dict_get (fold add_arc cs g) a = (case dict_get g a of Some l \<Rightarrow> Some l | None \<Rightarrow> if a \<in> set cs then Some [] else None))"
  by (induction cs arbitrary: g) (auto simp: wf_add_arc get_add_arc split: option.splits)

lemma update_graph_ok:
  assumes "dict_wf g"
  shows "\<exists>h. update_graph it g = Inr h \<and> dict_wf h \<and> nodes h = nodes g \<union> fst ` set it
    \<and> edge_rel h = edge_rel g \<union> {(a, b). \<exists>deps. (a, deps) \<in> set it \<and> b \<in> set deps}"
proof -
  let ?es = "concat (map (\<lambda>(obj, deps). map (Pair obj) deps) it)"
  have fold: "fold (\<lambda>(obj, _). add_arc obj) it g = fold add_arc (map fst it) g"
    by (induction it arbitrary: g) auto
  let ?g = "fold add_arc (map fst it) g"
  have g': "dict_wf ?g" "nodes ?g = nodes g \<union> fst ` set it"
    "\<forall>a. dict_get ?g a = (case dict_get g a of Some l \<Rightarrow> Some l | None \<Rightarrow> if a \<in> fst ` set it then Some [] else None)"
    using fold_add_arc [OF assms, of "map fst it"] by auto
  have "\<forall>e \<in> set ?es. fst e \<in> nodes ?g" using g'(2) by force
  from add_edges_ok [OF this g'(1)] obtain h where h: "add_edges ?es ?g = Inr h" "dict_wf h" "nodes h = nodes ?g"
    and get: "\<forall>a. dict_get h a = map_option (\<lambda>l. l @ map snd (filter (\<lambda>e. fst e = a) ?es)) (dict_get ?g a)" by blast
  have "(a, b) \<in> edge_rel ?g \<longleftrightarrow> (a, b) \<in> edge_rel g" for a b
    using g'(3) by (auto simp: edge_rel_def split: option.splits if_splits)
  moreover have "x \<in> set ?es \<longleftrightarrow> (\<exists>deps. (fst x, deps) \<in> set it \<and> snd x \<in> set deps)" for x by force
  moreover have "(a, deps) \<in> set it \<Longrightarrow> a \<in> nodes ?g" for a deps using g'(2) by force
  ultimately have "edge_rel h = edge_rel g \<union> {(a, b). \<exists>deps. (a, deps) \<in> set it \<and> b \<in> set deps}"
    unfolding edge_rel_added [OF get] by auto
  then show ?thesis using h g' by (simp add: update_graph_def fold)
qed

lemma component_of_single:
  assumes "distinct L" and "n \<in> set L"
  shows "dict_get (component_of (map (\<lambda>n. [n]) L)) n = Some [n]"
proof -
  have eq: "concat (map (\<lambda>c. map (\<lambda>n. (n, c)) c) (map (\<lambda>n. [n]) L)) = map (\<lambda>n. (n, [n])) L"
    by (induction L) auto
  have "dict_wf (map (\<lambda>n. (n, [n])) L)" using assms(1) by (simp add: comp_def)
  moreover have "(n, [n]) \<in> set (map (\<lambda>n. (n, [n])) L)" using assms(2) by auto
  ultimately have "dict_get (map (\<lambda>n. (n, [n])) L) n = Some [n]" by (simp only: dict_get_iff_mem)
  then show ?thesis
    using dict_get_update [OF \<open>dict_wf _\<close>, of "[]" n] by (simp add: component_of_def eq [simplified])
qed

lemma cond_edges_single:
  assumes "\<forall>(a, b) \<in> set es. dict_get NC a = Some [a] \<and> dict_get NC b = Some [b] \<and> a \<noteq> b"
  shows "cond_edges NC es = Inr (map (\<lambda>(a, b). ([a], [b])) es)"
  using assms by (induction es) auto

lemma set_edge_list: "dict_wf g \<Longrightarrow> set (edge_list g) = edge_rel g"
  by (force simp: edge_list_def edge_rel_def dict_get_iff_mem)

lemma condense_ok:
  assumes g: "closed_graph g" and acyc: "acyclic (edge_rel g)" and L: "distinct L" "set L = nodes g"
  shows "\<exists>h. condense g (map (\<lambda>n. [n]) L) = Inr h \<and> dict_wf h \<and> nodes h = (\<lambda>n. [n]) ` nodes g
    \<and> edge_rel h = {([a], [b]) | a b. (a, b) \<in> edge_rel g}"
proof -
  let ?es = "map (\<lambda>(a, b). ([a], [b])) (edge_list g)"
  have el: "set (edge_list g) = edge_rel g" using g by (simp add: set_edge_list closed_graph_def)
  have ce: "cond_edges (component_of (map (\<lambda>n. [n]) L)) (edge_list g) = Inr ?es"
  proof (intro cond_edges_single, clarify)
    fix a b
    assume "(a, b) \<in> set (edge_list g)"
    then have e: "(a, b) \<in> edge_rel g" by (simp add: el)
    then have "a \<noteq> b" using acyc by (auto simp: acyclic_def)
    then show "dict_get (component_of (map (\<lambda>n. [n]) L)) a = Some [a]
        \<and> dict_get (component_of (map (\<lambda>n. [n]) L)) b = Some [b] \<and> a \<noteq> b"
      using e edge_rel_src closed_dst [OF g e] L by (metis component_of_single)
  qed
  define h0 where "h0 = fold add_arc (map (\<lambda>n. [n]) L) ([] :: 'a list depgraph)"
  have h0: "dict_wf h0" "nodes h0 = (\<lambda>n. [n]) ` nodes g" "\<forall>a. dict_get h0 a = (if a \<in> (\<lambda>n. [n]) ` set L then Some [] else None)"
    using fold_add_arc [of "[]" "map (\<lambda>n. [n]) L"] by (auto simp: h0_def nodes_def L(2) [unfolded nodes_def])
  have "\<forall>e \<in> set ?es. fst e \<in> nodes h0" using edge_rel_src el h0(2) by fastforce
  from add_edges_ok [OF this h0(1)] obtain h where h: "add_edges ?es h0 = Inr h" "dict_wf h" "nodes h = nodes h0"
    and get: "\<forall>a. dict_get h a = map_option (\<lambda>l. l @ map snd (filter (\<lambda>e. fst e = a) ?es)) (dict_get h0 a)" by blast
  have "edge_rel h0 = {}" using h0(3) by (auto simp: edge_rel_def split: if_splits)
  then have "edge_rel h = {(x, y). x \<in> nodes h0 \<and> (x, y) \<in> set ?es}"
    unfolding edge_rel_added [OF get] by simp
  also have "\<dots> = {([a], [b]) | a b. (a, b) \<in> edge_rel g}"
  proof -
    have "([a], [b]) \<in> set ?es" if "(a, b) \<in> edge_rel g" for a b using that el by force
    moreover have "\<exists>a b. x = [a] \<and> y = [b] \<and> (a, b) \<in> edge_rel g" if "(x, y) \<in> set ?es" for x y
      using that el by auto
    moreover have "[a] \<in> nodes h0" if "(a, b) \<in> edge_rel g" for a b
      using edge_rel_src [OF that] h0(2) by blast
    ultimately show ?thesis by blast
  qed
  finally show ?thesis using ce h h0 by (simp add: condense_def h0_def)
qed

lemma first_items_single: "first_items (map (\<lambda>n. [n]) L) = Inr L"
  by (induction L) auto

section \<open>Valency\<close>

lemma valency_fold:
  assumes "\<forall>x \<in> set l. f x = Inr (v x)"
  shows "fold (\<lambda>node r. res_bind r (\<lambda>s. res_bind (f node) (\<lambda>v. Inr (s + v)))) l (Inr (c :: nat)) = Inr (c + sum_list (map v l))"
  using assms by (induction l arbitrary: c) auto

definition nodes_above :: "'n depgraph \<Rightarrow> 'n \<Rightarrow> 'n set" where
  "nodes_above g a = {b \<in> nodes g. (a, b) \<in> (edge_rel g)\<^sup>*}"

lemma nodes_above_shrink:
  assumes "acyclic (edge_rel g)" and "(a, b) \<in> edge_rel g"
  shows "card (nodes_above g b) < card (nodes_above g a)"
proof (rule psubset_card_mono)
  have "(b, a) \<notin> (edge_rel g)\<^sup>*"
    using assms by (meson acyclic_def rtrancl_into_trancl2)
  then have "a \<in> nodes_above g a - nodes_above g b"
    using assms(2) edge_rel_src by (auto simp: nodes_above_def)
  moreover have "nodes_above g b \<subseteq> nodes_above g a"
    using assms(2) by (auto simp: nodes_above_def intro: converse_rtrancl_into_rtrancl)
  ultimately show "nodes_above g b \<subset> nodes_above g a" by blast
qed (simp add: nodes_above_def)

lemma valency_total:
  assumes "acyclic (edge_rel g)"
  shows "\<exists>v. \<forall>a n. card (nodes_above g a) < n \<longrightarrow> valency_of n g a = Inr (v a)"
proof -
  have one: "\<exists>v. \<forall>n. card (nodes_above g a) < n \<longrightarrow> valency_of n g a = Inr v" for a
  proof (induction "card (nodes_above g a)" arbitrary: a rule: less_induct)
    case less
    show ?case
    proof (cases "dict_get g a")
      case None
      then show ?thesis by (intro exI [of _ 0] allI impI) (case_tac n, auto)
    next
      case (Some l)
      have "\<forall>b \<in> set l. \<exists>v. \<forall>n. card (nodes_above g b) < n \<longrightarrow> valency_of n g b = Inr v"
        using less nodes_above_shrink [OF assms edge_relI [OF Some]] by blast
      then obtain v where v: "\<forall>b \<in> set l. \<forall>n. card (nodes_above g b) < n \<longrightarrow> valency_of n g b = Inr (v b)" by metis
      have "valency_of n g a = Inr (length l + sum_list (map v l))" if n: "card (nodes_above g a) < n" for n
      proof -
        obtain m where m: "n = Suc m" using n by (cases n) auto
        have "\<forall>b \<in> set l. valency_of m g b = Inr (v b)"
          using v n m nodes_above_shrink [OF assms edge_relI [OF Some]] by fastforce
        then show ?thesis using Some m by (simp add: valency_fold)
      qed
      then show ?thesis by blast
    qed
  qed
  then show ?thesis by metis
qed

section \<open>Interface: topological sorting\<close>

text \<open>
  What a client of \<open>topsort\<close> relies on: every node once, and every node after the nodes it
  depends on. The client's lemma is that any node is handled after all its transitive
  dependencies.
\<close>

locale topological_sort =
  fixes sort :: "'g \<Rightarrow> 'n list result"
    and nodes_of :: "'g \<Rightarrow> 'n set"
    and rel :: "'g \<Rightarrow> ('n \<times> 'n) set"
    and ok :: "'g \<Rightarrow> bool"
  assumes sort_total: "ok g \<Longrightarrow> acyclic (rel g) \<Longrightarrow> \<exists>r. sort g = Inr r"
    and sort_nodes: "ok g \<Longrightarrow> acyclic (rel g) \<Longrightarrow> sort g = Inr r \<Longrightarrow> distinct r \<and> set r = nodes_of g"
    and sort_deps: "ok g \<Longrightarrow> acyclic (rel g) \<Longrightarrow> sort g = Inr (xs @ a # ys) \<Longrightarrow> (a, b) \<in> rel g \<Longrightarrow> b \<in> set xs"
begin

lemma transitive_deps:
  assumes "ok g" and "acyclic (rel g)" and "(a, b) \<in> (rel g)\<^sup>+"
  shows "sort g = Inr (xs @ a # ys) \<Longrightarrow> b \<in> set xs"
  using assms(3)
proof (induction arbitrary: ys rule: trancl_induct)
  case (base y)
  then show ?case using sort_deps [OF assms(1,2)] by blast
next
  case (step y z)
  then have "y \<in> set xs" by blast
  then obtain ps qs where "xs = ps @ y # qs" by (auto simp: in_set_conv_decomp)
  with step.prems have "sort g = Inr (ps @ y # (qs @ a # ys))" by simp
  then show ?case using sort_deps [OF assms(1,2) _ step.hyps(2)] \<open>xs = _\<close> by auto
qed

end

lemma topsort_ok:
  assumes "closed_graph g" and "acyclic (edge_rel g)"
  shows "\<exists>r. topsort g = Inr r \<and> distinct r \<and> set r = nodes g \<and> deps_first g r"
proof -
  obtain L where L: "tarjan72 g = Inr (map (\<lambda>n. [n]) L)" "distinct L" "set L = nodes g"
    using tarjan72_ok [OF assms] by blast
  obtain h where h: "condense g (map (\<lambda>n. [n]) L) = Inr h" "dict_wf h" "nodes h = (\<lambda>n. [n]) ` nodes g"
    and rel: "edge_rel h = {([a], [b]) | a b. (a, b) \<in> edge_rel g}"
    using condense_ok [OF assms L(2,3)] by blast
  have "closed_graph h"
    unfolding closed_graph_def using h rel closed_dst [OF assms(1)] by (auto simp flip: nodes_def)
  moreover have "acyclic (edge_rel h)"
  proof (rule wf_acyclic, rule wf_subset)
    show "wf (inv_image (edge_rel g) hd)" using acyclic_wf [OF assms(2)] by (rule wf_inv_image)
    show "edge_rel h \<subseteq> inv_image (edge_rel g) hd" by (auto simp: rel inv_image_def)
  qed
  ultimately obtain s where s: "khan62 h = Inr s" "distinct s" "set s = nodes h" "deps_first h s"
    using khan62_ok by blast
  define r where "r = map hd s"
  have sr: "s = map (\<lambda>n. [n]) r"
    unfolding r_def map_map by (rule map_idI [symmetric]) (use s(3) h(3) in auto)
  have "distinct r" using s(2) unfolding sr by (simp add: distinct_map)
  moreover have "set r = nodes g" using s(3) h(3) by (auto simp: r_def image_image)
  moreover have "deps_first g r"
    unfolding deps_first_def
  proof (intro allI impI)
    fix xs a ys b
    assume "r = xs @ a # ys" and e: "(a, b) \<in> edge_rel g"
    then have "s = map (\<lambda>n. [n]) xs @ [a] # map (\<lambda>n. [n]) ys" by (simp add: sr)
    moreover have "([a], [b]) \<in> edge_rel h" using e by (simp add: rel)
    ultimately have "[b] \<in> set (map (\<lambda>n. [n]) xs)" using s(4) unfolding deps_first_def by blast
    then show "b \<in> set xs" by auto
  qed
  ultimately show ?thesis
    using L(1) h(1) s(1) sr first_items_single [of r] by (auto simp: topsort_def)
qed

interpretation tarjan_khan: topological_sort topsort nodes edge_rel closed_graph
proof unfold_locales
  fix g :: "'a depgraph" and r xs ys a b
  assume g: "closed_graph g" "acyclic (edge_rel g)"
  show "\<exists>r. topsort g = Inr r" using topsort_ok [OF g] by auto
  show "topsort g = Inr r \<Longrightarrow> distinct r \<and> set r = nodes g" using topsort_ok [OF g] by auto
  show "topsort g = Inr (xs @ a # ys) \<Longrightarrow> (a, b) \<in> edge_rel g \<Longrightarrow> b \<in> set xs"
    using topsort_ok [OF g] by (auto simp: deps_first_def)
qed

section \<open>Properties\<close>

text \<open>
  \<open>topsort\<close> of an acyclic dependency graph whose edges stay inside it returns (it neither
  raises nor runs forever) a list with every object exactly once, in which every object comes
  after every object it depends on, directly or through others.
\<close>

theorem topsort_dependencies_first:
  assumes "closed_graph g" and "acyclic (edge_rel g)"
  shows "\<exists>r. topsort g = Inr r \<and> mset r = mset (keys g)
    \<and> (\<forall>xs a ys b. r = xs @ a # ys \<longrightarrow> (a, b) \<in> (edge_rel g)\<^sup>+ \<longrightarrow> b \<in> set xs)"
proof -
  obtain r where r: "topsort g = Inr r" "distinct r" "set r = nodes g" using topsort_ok [OF assms] by blast
  then have "mset r = mset (keys g)"
    using assms(1) set_eq_iff_mset_eq_distinct [of r "keys g"] by (simp add: closed_graph_def nodes_def)
  then show ?thesis using r(1) tarjan_khan.transitive_deps [OF assms] by auto
qed

definition demo_graph :: "string depgraph" where
  "demo_graph = [(''app'', [''db'', ''log'']), (''db'', [''log'']), (''log'', [])]"

lemma demo_graph_ok: "closed_graph demo_graph" "acyclic (edge_rel demo_graph)"
proof -
  have rel: "edge_rel demo_graph = {(''app'', ''db''), (''app'', ''log''), (''db'', ''log'')}"
    by (auto simp: edge_rel_def demo_graph_def split: if_splits)
  show "closed_graph demo_graph"
    by (simp add: closed_graph_def rel nodes_def) (simp add: demo_graph_def)
  define rank :: "string \<Rightarrow> nat" where "rank s = (if s = ''app'' then 0 else if s = ''db'' then 1 else 2)" for s
  have "(edge_rel demo_graph)\<inverse> \<subseteq> measure (\<lambda>s. 2 - rank s)" by (auto simp: rel rank_def)
  then show "acyclic (edge_rel demo_graph)"
    using wf_acyclic [OF wf_subset [OF wf_measure]] acyclic_converse by blast
qed

theorem topsort_dependencies_first_witness:
  "\<exists>r. topsort demo_graph = Inr r \<and> mset r = mset [''app'', ''db'', ''log'']"
  using topsort_dependencies_first [OF demo_graph_ok] by (auto simp: demo_graph_def)

text \<open>
  \<open>valency_of\<close> ends on an acyclic graph within as many recursive calls as there are nodes,
  and an object's valency is strictly larger than the valency of everything it depends on, so
  sorting by valency is a dependency order too.
\<close>

theorem valency_decreases:
  assumes "dict_wf g" and "acyclic (edge_rel g)"
  shows "\<exists>v. (\<forall>a. valency_of (Suc (length g)) g a = Inr (v a)) \<and> (\<forall>a b. (a, b) \<in> edge_rel g \<longrightarrow> v b < v a)"
proof -
  obtain v where v: "\<And>a n. card (nodes_above g a) < n \<Longrightarrow> valency_of n g a = Inr (v a)"
    using valency_total [OF assms(2)] by blast
  have "card (nodes_above g a) \<le> length g" for a
    using card_mono [of "nodes g" "nodes_above g a"] card_nodes [OF assms(1)] by (auto simp: nodes_above_def)
  then have fuel: "card (nodes_above g a) < Suc (length g)" for a by (simp add: le_imp_less_Suc)
  have "v b < v a" if e: "(a, b) \<in> edge_rel g" for a b
  proof -
    obtain l where l: "dict_get g a = Some l" "b \<in> set l" using e by (auto simp: edge_rel_def)
    have "\<forall>b \<in> set l. valency_of (Suc (length g)) g b = Inr (v b)" using v fuel by blast
    then have "valency_of (Suc (Suc (length g))) g a = Inr (length l + sum_list (map v l))"
      using l by (simp add: valency_fold del: valency_of.simps(2) add: valency_of.simps(2) [of "Suc (length g)"])
    then have "v a = length l + sum_list (map v l)" using v [of a "Suc (Suc (length g))"] fuel [of a] by simp
    moreover have "0 < length l" using l(2) by (cases l) auto
    moreover have "v b \<le> sum_list (map v l)" using l(2) by (simp add: member_le_sum_list)
    ultimately show ?thesis by linarith
  qed
  then show ?thesis using v fuel by blast
qed

theorem valency_decreases_witness:
  "\<exists>v. (\<forall>a. valency_of 4 demo_graph a = Inr (v a)) \<and> v ''log'' < v ''app''"
proof -
  have "(''app'', ''log'') \<in> edge_rel demo_graph" by (simp add: edge_rel_def demo_graph_def)
  moreover have "Suc (length demo_graph) = 4" "dict_wf demo_graph" by (auto simp: demo_graph_def)
  ultimately show ?thesis using valency_decreases [OF _ demo_graph_ok(2)] by metis
qed

end
