(* ===== verification/Bootsteps.thy ===== *)
theory Bootsteps
  imports Graph
begin

text \<open>
  \<open>celery.bootsteps\<close>: the blueprint of a worker or consumer. The first half is the lifecycle
  (\<open>start\<close>, \<open>close\<close>, \<open>restart\<close>, \<open>send_all\<close>, \<open>stop\<close>) as functions on a blueprint record that carries
  the trace of the calls it made; what a step's method does is a parameter that says whether the
  method exists, returns or raises. The second half computes the boot order
  (\<open>claim_steps\<close>, \<open>_firstpass\<close>, \<open>_finalize_steps\<close>, \<open>apply\<close>) over the dependency graph.
  \<open>symbol_by_name\<close> is a function of the library kombu and a parameter here.
\<close>

section \<open>Blueprint lifecycle\<close>

definition RUN :: nat where "RUN = 1"
definition CLOSE :: nat where "CLOSE = 2"
definition TERMINATE :: nat where "TERMINATE = 3"

lemmas run_states = RUN_def CLOSE_def TERMINATE_def

datatype outcome = NoAttr | Returns | Raises exn

datatype 's event = Call string 's | Callback string

record 's blueprint =
  bp_state :: "nat option"
  bp_started :: nat
  shutdown_complete :: bool
  bp_trace :: "'s event list"

record 's bp_env =
  step_method :: "string \<Rightarrow> 's \<Rightarrow> outcome"
  callback :: "string \<Rightarrow> outcome"

definition new_blueprint :: "'s blueprint" where
  "new_blueprint = \<lparr>bp_state = None, bp_started = 0, shutdown_complete = False, bp_trace = []\<rparr>"

definition human_state :: "'s blueprint \<Rightarrow> string result" where
  "human_state b = (case dict_get [(0, ''initializing''), (RUN, ''running''), (CLOSE, ''closing''), (TERMINATE, ''terminating'')]
       (case bp_state b of None \<Rightarrow> 0 | Some s \<Rightarrow> s) of None \<Rightarrow> Inl KeyError | Some n \<Rightarrow> Inr n)"

text \<open>A call returns the blueprint it leaves behind and the exception it raised, if any.\<close>

type_synonym 's bp_result = "'s blueprint \<times> exn option"

definition bp_then :: "'s bp_result \<Rightarrow> ('s blueprint \<Rightarrow> 's bp_result) \<Rightarrow> 's bp_result" where
  "bp_then r f = (case r of (b, None) \<Rightarrow> f b | (b, Some e) \<Rightarrow> (b, Some e))"

definition bp_log :: "'s event \<Rightarrow> 's blueprint \<Rightarrow> 's blueprint" where
  "bp_log e b = b\<lparr>bp_trace := bp_trace b @ [e]\<rparr>"

definition run_callback :: "'s bp_env \<Rightarrow> string \<Rightarrow> 's blueprint \<Rightarrow> 's bp_result" where
  "run_callback env name b = (case callback env name of
     NoAttr \<Rightarrow> (b, None) | Returns \<Rightarrow> (bp_log (Callback name) b, None) | Raises e \<Rightarrow> (bp_log (Callback name) b, Some e))"

fun start_steps :: "'s bp_env \<Rightarrow> nat \<Rightarrow> 's list \<Rightarrow> 's blueprint \<Rightarrow> 's bp_result" where
  "start_steps env i [] b = (b, None)"
| "start_steps env i (step # steps) b =
     (let b1 = b\<lparr>bp_started := i + 1\<rparr> in
      case step_method env ''start'' step of
        NoAttr \<Rightarrow> (b1, Some AttributeError)
      | Raises e \<Rightarrow> (bp_log (Call ''start'' step) b1, Some e)
      | Returns \<Rightarrow> start_steps env (i + 1) steps (bp_log (Call ''start'' step) b1))"

definition present :: "'s option list \<Rightarrow> 's list" where
  "present steps = [s. Some s \<leftarrow> steps]"

definition bp_start :: "'s bp_env \<Rightarrow> 's option list \<Rightarrow> 's blueprint \<Rightarrow> 's bp_result" where
  "bp_start env steps b = bp_then (run_callback env ''on_start'' (b\<lparr>bp_state := Some RUN\<rparr>))
     (start_steps env 0 (present steps))"

fun send_steps :: "'s bp_env \<Rightarrow> string \<Rightarrow> bool \<Rightarrow> 's list \<Rightarrow> 's blueprint \<Rightarrow> 's bp_result" where
  "send_steps env meth propagate [] b = (b, None)"
| "send_steps env meth propagate (step # steps) b = (case step_method env meth step of
     NoAttr \<Rightarrow> send_steps env meth propagate steps b
   | Returns \<Rightarrow> send_steps env meth propagate steps (bp_log (Call meth step) b)
   | Raises e \<Rightarrow> if propagate then (bp_log (Call meth step) b, Some e)
       else send_steps env meth propagate steps (bp_log (Call meth step) b))"

definition send_all :: "'s bp_env \<Rightarrow> 's option list \<Rightarrow> string \<Rightarrow> bool \<Rightarrow> bool \<Rightarrow> 's blueprint \<Rightarrow> 's bp_result" where
  "send_all env steps meth reverse propagate =
     send_steps env meth propagate (present (if reverse then rev steps else steps))"

definition bp_close :: "'s bp_env \<Rightarrow> 's option list \<Rightarrow> 's blueprint \<Rightarrow> 's bp_result" where
  "bp_close env steps b = bp_then (run_callback env ''on_close'' b) (send_all env steps ''close'' False True)"

definition restart :: "'s bp_env \<Rightarrow> 's option list \<Rightarrow> string \<Rightarrow> bool \<Rightarrow> 's blueprint \<Rightarrow> 's bp_result" where
  "restart env steps meth propagate = send_all env steps meth True propagate"

definition bp_stop :: "'s bp_env \<Rightarrow> 's option list \<Rightarrow> bool \<Rightarrow> 's blueprint \<Rightarrow> 's bp_result" where
  "bp_stop env steps trm b =
     (if bp_state b \<in> {Some CLOSE, Some TERMINATE} then (b, None)
      else if bp_state b \<noteq> Some RUN \<or> bp_started b \<noteq> length steps
      then (b\<lparr>bp_state := Some TERMINATE, shutdown_complete := True\<rparr>, None)
      else bp_then (bp_close env steps b) (\<lambda>b.
        bp_then (restart env steps (if trm then ''terminate'' else ''stop'') False (b\<lparr>bp_state := Some CLOSE\<rparr>)) (\<lambda>b.
        bp_then (run_callback env ''on_stopped'' b) (\<lambda>b.
        (b\<lparr>bp_state := Some TERMINATE, shutdown_complete := True\<rparr>, None)))))"

section \<open>Steps\<close>

text \<open>
  A \<open>StartStopStep\<close> forwards to the service object it created, if any. \<open>obj_method\<close> says what a
  method of that object does; \<open>terminate\<close> falls back to \<open>stop\<close>.
\<close>

record 'o startstop =
  ss_obj :: "'o option"

fun startstop_call :: "('o \<Rightarrow> string \<Rightarrow> outcome) \<Rightarrow> string \<Rightarrow> 'o startstop \<Rightarrow> outcome" where
  "startstop_call obj_method meth step =
     (if meth = ''close'' then Returns
      else if meth \<in> {''start'', ''stop'', ''terminate''}
      then (case ss_obj step of
          None \<Rightarrow> Returns
        | Some obj \<Rightarrow>
            (let attr = (if meth = ''terminate'' \<and> obj_method obj meth = NoAttr then ''stop'' else meth)
             in case obj_method obj attr of NoAttr \<Rightarrow> Raises AttributeError | r \<Rightarrow> r))
      else NoAttr)"

definition should_include :: "('p \<Rightarrow> bool) \<Rightarrow> ('p \<Rightarrow> 'o option) \<Rightarrow> 'p \<Rightarrow> bool \<times> 'o option" where
  "should_include include_if create parent = (if include_if parent then (True, create parent) else (False, None))"

definition startstop_include ::
  "('p \<Rightarrow> bool) \<Rightarrow> ('p \<Rightarrow> 'o option) \<Rightarrow> 'p \<Rightarrow> 'o startstop \<Rightarrow> 'o startstop option list \<Rightarrow> bool \<times> 'o startstop \<times> 'o startstop option list" where
  "startstop_include include_if create parent step steps =
     (case should_include include_if create parent of
        (True, ret) \<Rightarrow> let step' = step\<lparr>ss_obj := ret\<rparr> in (True, step', steps @ [Some step'])
      | (False, _) \<Rightarrow> (False, step, steps))"

datatype ('m, 'c) consumer_event = Consume 'm | Cancel 'm | CloseChannel 'c

definition consumer_start :: "'m list option \<Rightarrow> ('m, 'c) consumer_event list" where
  "consumer_start consumers = map Consume (case consumers of None \<Rightarrow> [] | Some cs \<Rightarrow> cs)"

definition consumer_close :: "('m \<Rightarrow> 'c option) \<Rightarrow> 'm list option \<Rightarrow> bool \<Rightarrow> ('m, 'c) consumer_event list" where
  "consumer_close channel consumers cancel_consumers =
     (let cs = (case consumers of None \<Rightarrow> [] | Some cs \<Rightarrow> cs)
      in (if cancel_consumers then map Cancel cs else []) @ map CloseChannel (remdups [ch. Some ch \<leftarrow> map channel cs]))"

section \<open>Boot order\<close>

text \<open>
  A step class is a value of type \<open>'c\<close>; the class attributes are functions. An element of
  \<open>requires\<close> is a class or the name of one; \<open>symbol_by_name\<close> gives the class of a name. The
  attribute \<open>requires\<close> is part of the state, because \<open>_firstpass\<close> assigns to it.
\<close>

datatype 'c ref = Cls 'c | Sym string

record 'c step_classes =
  cls_name :: "'c \<Rightarrow> string"
  cls_last :: "'c \<Rightarrow> bool"
  requires :: "'c \<Rightarrow> 'c ref list"

fun resolve :: "(string \<Rightarrow> 'c option) \<Rightarrow> 'c ref \<Rightarrow> 'c result" where
  "resolve symbol_by_name (Cls c) = Inr c"
| "resolve symbol_by_name (Sym s) = (case symbol_by_name s of None \<Rightarrow> Inl AttributeError | Some c \<Rightarrow> Inr c)"

fun resolve_all :: "(string \<Rightarrow> 'c option) \<Rightarrow> 'c ref list \<Rightarrow> 'c list result" where
  "resolve_all sbn [] = Inr []"
| "resolve_all sbn (r # rs) = res_bind (resolve sbn r) (\<lambda>c. res_bind (resolve_all sbn rs) (\<lambda>cs. Inr (c # cs)))"

fun claim_steps :: "(string \<Rightarrow> 'c option) \<Rightarrow> 'c step_classes \<Rightarrow> 'c ref list \<Rightarrow> (string, 'c) dict \<Rightarrow> (string, 'c) dict result" where
  "claim_steps sbn E [] steps = Inr steps"
| "claim_steps sbn E (t # types) steps =
     res_bind (resolve sbn t) (\<lambda>c. claim_steps sbn E types (dict_set (cls_name E c) c steps))"

fun find_last :: "'c step_classes \<Rightarrow> 'c list \<Rightarrow> 'c option" where
  "find_last E [] = None"
| "find_last E (c # cs) = (if cls_last E c then Some c else find_last E cs)"

fun resolve_requires :: "(string \<Rightarrow> 'c option) \<Rightarrow> 'c list \<Rightarrow> 'c step_classes \<Rightarrow> 'c step_classes result" where
  "resolve_requires sbn [] E = Inr E"
| "resolve_requires sbn (c # cs) E = res_bind (resolve_all sbn (requires E c)) (\<lambda>ds.
     resolve_requires sbn cs (E\<lparr>requires := (requires E)(c := map Cls ds)\<rparr>))"

fun stream_nodes :: "(string \<Rightarrow> 'c option) \<Rightarrow> 'c step_classes \<Rightarrow> 'c ref list \<Rightarrow>
    (string, 'c) dict \<Rightarrow> 'c ref list list \<Rightarrow> ((string, 'c) dict \<times> 'c ref list list) result" where
  "stream_nodes sbn E [] steps stream = Inr (steps, stream)"
| "stream_nodes sbn E (r # rs) steps stream = res_bind (resolve sbn r) (\<lambda>node.
     stream_nodes sbn E rs
       (if cls_name E node \<notin> set (keys steps) then dict_set (cls_name E node) node steps else steps)
       (stream @ [requires E node]))"

partial_function (option) stream_loop :: "(string \<Rightarrow> 'c option) \<Rightarrow> 'c step_classes \<Rightarrow>
    (string, 'c) dict \<Rightarrow> 'c ref list list \<Rightarrow> (string, 'c) dict result option" where
  "stream_loop sbn E steps stream = (case stream of
     [] \<Rightarrow> Some (Inr steps)
   | rs # rest \<Rightarrow> (case stream_nodes sbn E rs steps rest of
        Inl e \<Rightarrow> Some (Inl e)
      | Inr (steps', stream') \<Rightarrow> stream_loop sbn E steps' stream'))"

definition firstpass :: "(string \<Rightarrow> 'c option) \<Rightarrow> 'c step_classes \<Rightarrow> (string, 'c) dict \<Rightarrow>
    ('c step_classes \<times> (string, 'c) dict) result option" where
  "firstpass sbn E steps = (case resolve_requires sbn (vals steps) E of
     Inl e \<Rightarrow> Some (Inl e)
   | Inr E' \<Rightarrow> map_option (\<lambda>r. res_bind r (\<lambda>steps'. Inr (E', steps')))
       (stream_loop sbn E' steps (map (requires E') (vals steps))))"

definition build_graph :: "'c step_classes \<Rightarrow> 'c list \<Rightarrow> 'c option \<Rightarrow> 'c ref depgraph result" where
  "build_graph E cs lst = res_bind (new_graph (Some (map (\<lambda>C. (Cls C, requires E C)) cs)))
     (\<lambda>G. case lst of None \<Rightarrow> Inr G
        | Some l \<Rightarrow> add_edges (map (Pair (Cls l)) (filter (\<lambda>obj. obj \<noteq> Cls l) (keys G))) G)"

definition finalize_steps :: "(string \<Rightarrow> 'c option) \<Rightarrow> 'c step_classes \<Rightarrow> (string, 'c) dict \<Rightarrow>
    ('c step_classes \<times> 'c ref list) result option" where
  "finalize_steps sbn E steps = map_option (\<lambda>r. res_bind r (\<lambda>(E', steps').
       res_bind (build_graph E' (vals steps') (find_last E (vals steps))) (\<lambda>G.
       res_bind (topsort G) (\<lambda>order. Inr (E', order)))))
     (firstpass sbn E steps)"

text \<open>
  \<open>apply\<close> instantiates the classes in boot order and lets every step include itself;
  \<open>included\<close> tells which of them append themselves to \<open>parent.steps\<close>.
\<close>

fun classes_of :: "'c ref list \<Rightarrow> 'c list result" where
  "classes_of [] = Inr []"
| "classes_of (Cls c # rs) = res_bind (classes_of rs) (\<lambda>cs. Inr (c # cs))"
| "classes_of (Sym s # rs) = Inl TypeError"

definition apply_blueprint :: "(string \<Rightarrow> 'c option) \<Rightarrow> 'c step_classes \<Rightarrow> 'c ref list \<Rightarrow> ('c \<Rightarrow> bool) \<Rightarrow>
    ('c list \<times> 'c option list) result option" where
  "apply_blueprint sbn E types included = (case claim_steps sbn E types [] of
     Inl e \<Rightarrow> Some (Inl e)
   | Inr steps \<Rightarrow> map_option (\<lambda>r. res_bind r (\<lambda>(E', order).
       res_bind (classes_of order) (\<lambda>cs. Inr (cs, map Some (filter included cs)))))
       (finalize_steps sbn E steps))"

section \<open>Lifecycle lemmas\<close>

definition calls_of :: "string \<Rightarrow> 's event list \<Rightarrow> 's list" where
  "calls_of meth tr = [s. Call m s \<leftarrow> tr, m = meth]"

lemma calls_of_append [simp]: "calls_of meth (a @ b) = calls_of meth a @ calls_of meth b"
  by (simp add: calls_of_def)

lemma calls_of_calls [simp]: "calls_of meth (map (Call m) ss) = (if m = meth then ss else [])"
  by (induction ss) (auto simp: calls_of_def)

lemma calls_of_Callback [simp]: "calls_of meth [Callback c] = []"
  by (simp add: calls_of_def)

definition quiet :: "'s bp_env \<Rightarrow> bool" where
  "quiet env \<longleftrightarrow> (\<forall>name e. callback env name \<noteq> Raises e)"

lemma run_callback_quiet:
  "quiet env \<Longrightarrow> \<exists>cb. run_callback env name b = (b\<lparr>bp_trace := bp_trace b @ cb\<rparr>, None) \<and> (\<forall>meth. calls_of meth cb = [])"
  by (cases "callback env name") (auto simp: run_callback_def quiet_def bp_log_def intro: exI [of _ "[]"] simp: calls_of_def)

lemma present_map_Some [simp]: "present (map Some ss) = ss"
  by (induction ss) (auto simp: present_def)

lemma present_length: "length (present steps) + length (filter (\<lambda>s. s = None) steps) = length steps"
  by (induction steps) (auto simp: present_def split: option.split)

lemma start_steps_ok:
  "\<forall>s \<in> set ss. step_method env ''start'' s = Returns \<Longrightarrow>
   start_steps env i ss b = (b\<lparr>bp_started := (if ss = [] then bp_started b else i + length ss),
      bp_trace := bp_trace b @ map (Call ''start'') ss\<rparr>, None)"
  by (induction ss arbitrary: i b) (auto simp: bp_log_def Let_def)

lemma start_steps_started: "bp_started (fst (start_steps env i ss b)) \<le> max (bp_started b) (i + length ss)"
proof (induction ss arbitrary: i b)
  case (Cons s ss)
  have "bp_started (fst (start_steps env (i + 1) ss (bp_log (Call ''start'' s) (b\<lparr>bp_started := i + 1\<rparr>)))) \<le> i + length (s # ss)"
    using Cons [of "i + 1" "bp_log (Call ''start'' s) (b\<lparr>bp_started := i + 1\<rparr>)"] by (simp add: bp_log_def)
  then show ?case by (auto simp: Let_def bp_log_def split: outcome.split)
qed simp

lemma start_steps_state: "bp_state (fst (start_steps env i ss b)) = bp_state b"
  by (induction ss arbitrary: i b) (auto simp: Let_def bp_log_def split: outcome.split)

lemma send_steps_tolerant:
  "send_steps env meth False ss b =
     (b\<lparr>bp_trace := bp_trace b @ map (Call meth) (filter (\<lambda>s. step_method env meth s \<noteq> NoAttr) ss)\<rparr>, None)"
  by (induction ss arbitrary: b) (auto simp: bp_log_def split: outcome.split)

lemma send_steps_quiet:
  "\<forall>s \<in> set ss. \<forall>e. step_method env meth s \<noteq> Raises e \<Longrightarrow> send_steps env meth propagate ss b =
     (b\<lparr>bp_trace := bp_trace b @ map (Call meth) (filter (\<lambda>s. step_method env meth s \<noteq> NoAttr) ss)\<rparr>, None)"
  by (induction ss arbitrary: b) (auto simp: bp_log_def split: outcome.split)

lemma bp_start_ok:
  assumes "quiet env" and "\<forall>s \<in> set ss. step_method env ''start'' s = Returns" and "bp_started b \<le> length ss"
  shows "\<exists>t. bp_start env (map Some ss) b = (t, None) \<and> bp_state t = Some RUN \<and> (ss \<noteq> [] \<longrightarrow> bp_started t = length ss)
    \<and> (ss = [] \<longrightarrow> bp_started t = 0) \<and> (\<forall>meth. calls_of meth (bp_trace t) = calls_of meth (bp_trace b) @ (if meth = ''start'' then ss else []))"
proof -
  obtain cb where "run_callback env ''on_start'' (b\<lparr>bp_state := Some RUN\<rparr>) = (b\<lparr>bp_state := Some RUN, bp_trace := bp_trace b @ cb\<rparr>, None)"
    "\<forall>meth. calls_of meth cb = []"
    using run_callback_quiet [OF assms(1), of "''on_start''" "b\<lparr>bp_state := Some RUN\<rparr>"] by auto
  then show ?thesis using assms(3) by (auto simp: bp_start_def bp_then_def start_steps_ok [OF assms(2)])
qed

lemma bp_close_ok:
  assumes "quiet env" and "\<forall>s \<in> set ss. \<forall>e. step_method env ''close'' s \<noteq> Raises e"
  shows "\<exists>tr. bp_close env (map Some ss) b = (b\<lparr>bp_trace := bp_trace b @ tr\<rparr>, None)
    \<and> (\<forall>meth. calls_of meth tr = (if meth = ''close'' then filter (\<lambda>s. step_method env ''close'' s \<noteq> NoAttr) ss else []))"
proof -
  obtain cb where "run_callback env ''on_close'' b = (b\<lparr>bp_trace := bp_trace b @ cb\<rparr>, None)" "\<forall>meth. calls_of meth cb = []"
    using run_callback_quiet [OF assms(1)] by blast
  then show ?thesis
    by (auto simp: bp_close_def bp_then_def send_all_def send_steps_quiet [OF assms(2)])
qed

lemma bp_stop_ok:
  assumes "quiet env" and "\<forall>s \<in> set ss. \<forall>e. step_method env ''close'' s \<noteq> Raises e"
    and "bp_state b = Some RUN" and "bp_started b = length ss"
  shows "\<exists>t. bp_stop env (map Some ss) trm b = (t, None) \<and> bp_state t = Some TERMINATE \<and> shutdown_complete t
    \<and> (\<forall>meth. calls_of meth (bp_trace t) = calls_of meth (bp_trace b)
       @ (if meth = ''close'' then filter (\<lambda>s. step_method env meth s \<noteq> NoAttr) ss else [])
       @ (if meth = (if trm then ''terminate'' else ''stop'') then filter (\<lambda>s. step_method env meth s \<noteq> NoAttr) (rev ss) else []))"
proof -
  let ?m = "if trm then ''terminate'' else ''stop''"
  obtain tr where close: "bp_close env (map Some ss) b = (b\<lparr>bp_trace := bp_trace b @ tr\<rparr>, None)"
      "\<forall>meth. calls_of meth tr = (if meth = ''close'' then filter (\<lambda>s. step_method env ''close'' s \<noteq> NoAttr) ss else [])"
    using bp_close_ok [OF assms(1,2)] by blast
  define b2 where "b2 = b\<lparr>bp_state := Some CLOSE,
      bp_trace := bp_trace b @ tr @ map (Call ?m) (filter (\<lambda>s. step_method env ?m s \<noteq> NoAttr) (rev ss))\<rparr>"
  obtain cb where cb: "run_callback env ''on_stopped'' b2 = (b2\<lparr>bp_trace := bp_trace b2 @ cb\<rparr>, None)" "\<forall>meth. calls_of meth cb = []"
    using run_callback_quiet [OF assms(1)] by blast
  have "restart env (map Some ss) ?m False (b\<lparr>bp_trace := bp_trace b @ tr, bp_state := Some CLOSE\<rparr>) = (b2, None)"
    unfolding restart_def send_all_def b2_def by (simp add: rev_map send_steps_tolerant)
  then have "bp_stop env (map Some ss) trm b = (b2\<lparr>bp_trace := bp_trace b2 @ cb, bp_state := Some TERMINATE, shutdown_complete := True\<rparr>, None)"
    using assms(3,4) close(1) cb(1) by (simp add: bp_stop_def bp_then_def run_states)
  then show ?thesis using close(2) cb(2) by (auto simp: b2_def)
qed

section \<open>Boot order lemmas\<close>

definition deps :: "'c step_classes \<Rightarrow> 'c \<Rightarrow> 'c list" where
  "deps E c = [d. Cls d \<leftarrow> requires E c]"

definition resolved :: "'c step_classes \<Rightarrow> bool" where
  "resolved E \<longleftrightarrow> (\<forall>c. requires E c = map Cls (deps E c))"

definition named :: "'c step_classes \<Rightarrow> (string, 'c) dict \<Rightarrow> bool" where
  "named E steps \<longleftrightarrow> dict_wf steps \<and> (\<forall>(n, c) \<in> set steps. n = cls_name E c)"

lemma named_add:
  assumes "inj (cls_name E)" and "named E steps"
  shows "named E (if cls_name E c \<notin> set (keys steps) then dict_set (cls_name E c) c steps else steps)"
    and "set (vals (if cls_name E c \<notin> set (keys steps) then dict_set (cls_name E c) c steps else steps)) = insert c (set (vals steps))"
proof -
  have mem: "cls_name E c \<in> set (keys steps) \<longleftrightarrow> c \<in> set (vals steps)"
  proof
    assume "cls_name E c \<in> set (keys steps)"
    then obtain d where d: "(cls_name E c, d) \<in> set steps" by auto
    then have "cls_name E c = cls_name E d" using assms(2) by (auto simp: named_def)
    then have "c = d" using assms(1) by (auto dest: injD)
    then show "c \<in> set (vals steps)" using d by force
  qed (use assms(2) in \<open>force simp: named_def\<close>)
  then show "named E (if cls_name E c \<notin> set (keys steps) then dict_set (cls_name E c) c steps else steps)"
    using assms(2) by (auto simp: named_def dict_set_fresh)
  show "set (vals (if cls_name E c \<notin> set (keys steps) then dict_set (cls_name E c) c steps else steps)) = insert c (set (vals steps))"
    using mem by (auto simp: dict_set_fresh image_iff)
qed

lemma stream_nodes_ok:
  assumes "inj (cls_name E)" and "named E steps"
  shows "\<exists>steps'. stream_nodes sbn E (map Cls ds) steps stream = Inr (steps', stream @ map (requires E) ds)
    \<and> named E steps' \<and> set (vals steps') = set ds \<union> set (vals steps)"
  using assms(2)
proof (induction ds arbitrary: steps stream)
  case Nil
  then show ?case by simp
next
  case (Cons d ds)
  let ?s = "if cls_name E d \<notin> set (keys steps) then dict_set (cls_name E d) d steps else steps"
  obtain steps' where "stream_nodes sbn E (map Cls ds) ?s (stream @ [requires E d]) = Inr (steps', (stream @ [requires E d]) @ map (requires E) ds)"
      "named E steps'" "set (vals steps') = set ds \<union> set (vals ?s)"
    using Cons.IH [OF named_add(1) [OF assms(1) Cons.prems], of d] by blast
  then show ?case using named_add(2) [OF assms(1) Cons.prems, of d] by auto
qed

lemma weight_exists:
  assumes "\<And>c d. d \<in> set (deps E c) \<Longrightarrow> rank d < (rank c :: nat)"
  shows "\<exists>W :: 'c \<Rightarrow> nat. \<forall>c. W c = Suc (sum_list (map W (deps E c)))"
proof -
  have "\<exists>W :: 'c \<Rightarrow> nat. \<forall>c. rank c < n \<longrightarrow> W c = Suc (sum_list (map W (deps E c)))" for n
  proof (induction n)
    case (Suc n)
    then obtain W where W: "\<And>c. rank c < n \<Longrightarrow> W c = Suc (sum_list (map W (deps E c)))" by blast
    define W' where "W' c = (if rank c < n then W c else Suc (sum_list (map W (deps E c))))" for c
    have eq: "map W' (deps E c) = map W (deps E c)" if "rank c < Suc n" for c
      using that assms [of _ c] by (force simp: W'_def)
    have "W' c = Suc (sum_list (map W (deps E c)))" for c using W by (simp add: W'_def)
    then have "\<forall>c. rank c < Suc n \<longrightarrow> W' c = Suc (sum_list (map W' (deps E c)))" using eq by metis
    then show ?case by blast
  qed simp
  then obtain V :: "nat \<Rightarrow> 'c \<Rightarrow> nat" where V: "\<And>n c. rank c < n \<Longrightarrow> V n c = Suc (sum_list (map (V n) (deps E c)))" by metis
  have same: "rank c < n \<Longrightarrow> rank c < m \<Longrightarrow> V n c = V m c" for n m c
  proof (induction "rank c" arbitrary: c rule: less_induct)
    case less
    then have "map (V n) (deps E c) = map (V m) (deps E c)" using assms by (auto intro!: less.hyps)
    then show ?case using V less.prems by metis
  qed
  have "V (Suc (rank c)) c = Suc (sum_list (map (\<lambda>d. V (Suc (rank d)) d) (deps E c)))" for c
  proof -
    have eq: "map (V (Suc (rank c))) (deps E c) = map (\<lambda>d. V (Suc (rank d)) d) (deps E c)"
      using assms by (auto intro!: same) (meson less_SucI)
    show ?thesis using V [of c "Suc (rank c)", OF lessI] unfolding eq .
  qed
  then show ?thesis by (intro exI [of _ "\<lambda>c. V (Suc (rank c)) c"] allI)
qed

definition frontier :: "'c step_classes \<Rightarrow> (string, 'c) dict \<Rightarrow> 'c ref list list \<Rightarrow> bool" where
  "frontier E steps stream \<longleftrightarrow> (\<forall>c \<in> set (vals steps). \<forall>d \<in> set (deps E c). d \<in> set (vals steps) \<or> Cls d \<in> \<Union> (set ` set stream))"

lemma stream_loop_ok:
  assumes inj: "inj (cls_name E)" and res: "resolved E"
    and W: "\<And>c. W c = Suc (sum_list (map W (deps E c)))"
    and "named E steps" and "frontier E steps (map (map Cls) stream)"
  shows "\<exists>steps'. stream_loop sbn E steps (map (map Cls) stream) = Some (Inr steps') \<and> named E steps'
    \<and> set (vals steps) \<subseteq> set (vals steps') \<and> frontier E steps' []"
  using assms(4,5)
proof (induction "\<Sum>ds \<leftarrow> stream. Suc (sum_list (map W ds))" arbitrary: steps stream rule: less_induct)
  case less
  show ?case
  proof (cases stream)
    case Nil
    then show ?thesis using less.prems by (subst stream_loop.simps) auto
  next
    case (Cons ds rest)
    obtain steps1 where s1: "stream_nodes sbn E (map Cls ds) steps (map (map Cls) rest) = Inr (steps1, map (map Cls) rest @ map (requires E) ds)"
        "named E steps1" "set (vals steps1) = set ds \<union> set (vals steps)"
      using stream_nodes_ok [OF inj less.prems(1)] by blast
    let ?st = "rest @ map (deps E) ds"
    have st: "map (map Cls) rest @ map (requires E) ds = map (map Cls) ?st"
      using res by (simp add: resolved_def)
    have dec: "(\<Sum>ds \<leftarrow> ?st. Suc (sum_list (map W ds))) < (\<Sum>ds \<leftarrow> stream. Suc (sum_list (map W ds)))"
      using Cons by (simp add: comp_def flip: W)
    have fr: "frontier E steps1 (map (map Cls) ?st)"
      using less.prems(2) Cons s1(3) unfolding frontier_def by (auto simp: image_iff)
    obtain steps' where "stream_loop sbn E steps1 (map (map Cls) ?st) = Some (Inr steps')" "named E steps'"
        "set (vals steps1) \<subseteq> set (vals steps')" "frontier E steps' []"
      using less.hyps [OF dec s1(2) fr] by blast
    moreover have "stream_loop sbn E steps (map (map Cls) stream) = stream_loop sbn E steps1 (map (map Cls) ?st)"
      by (subst stream_loop.simps) (simp add: Cons s1(1) st)
    ultimately show ?thesis using s1(3) by auto
  qed
qed

lemma build_graph_ok:
  assumes "distinct cs" and "\<And>l. lst = Some l \<Longrightarrow> l \<in> set cs" and res: "resolved E"
    and closed: "\<And>c d. c \<in> set cs \<Longrightarrow> d \<in> set (deps E c) \<Longrightarrow> d \<in> set cs"
    and rank: "\<And>c d. d \<in> set (deps E c) \<Longrightarrow> rank d < (rank c :: nat)"
    and nolast: "\<And>l c. lst = Some l \<Longrightarrow> l \<notin> set (deps E c)"
  shows "\<exists>G. build_graph E cs lst = Inr G \<and> closed_graph G \<and> acyclic (edge_rel G) \<and> nodes G = Cls ` set cs
    \<and> edge_rel G = {(Cls c, Cls d) | c d. c \<in> set cs \<and> d \<in> set (deps E c)}
        \<union> {(Cls l, Cls d) | l d. lst = Some l \<and> d \<in> set cs \<and> d \<noteq> l}"
proof -
  let ?it = "map (\<lambda>C. (Cls C, requires E C)) cs"
  have req: "set (requires E c) = Cls ` set (deps E c)" for c using res by (metis list.set_map resolved_def)
  obtain h where h: "update_graph ?it [] = Inr h" "dict_wf h" "nodes h = Cls ` set cs"
    and rel: "edge_rel h = {(a, b). \<exists>deps. (a, deps) \<in> set ?it \<and> b \<in> set deps}"
    using update_graph_ok [of "[]" ?it] by (auto simp: edge_rel_def nodes_def image_image)
  have rel': "edge_rel h = {(Cls c, Cls d) | c d. c \<in> set cs \<and> d \<in> set (deps E c)}"
    unfolding rel using req by fastforce
  have new: "new_graph (Some ?it) = Inr h" using h by (simp add: new_graph_def)
  obtain G where G: "build_graph E cs lst = Inr G" "dict_wf G" "nodes G = Cls ` set cs"
    and relG: "edge_rel G = {(Cls c, Cls d) | c d. c \<in> set cs \<and> d \<in> set (deps E c)}
        \<union> {(Cls l, Cls d) | l d. lst = Some l \<and> d \<in> set cs \<and> d \<noteq> l}"
  proof (cases lst)
    case None
    then show ?thesis using that [of h] new h rel' by (simp add: build_graph_def)
  next
    case (Some l)
    let ?es = "map (Pair (Cls l)) (filter (\<lambda>obj. obj \<noteq> Cls l) (keys h))"
    have es: "set ?es = {(Cls l, Cls d) | d. d \<in> set cs \<and> d \<noteq> l}"
      using h(3) by (auto simp: nodes_def)
    have "\<forall>e \<in> set ?es. fst e \<in> nodes h" using assms(2) [OF Some] h(3) by auto
    from add_edges_ok [OF this h(2)] obtain G where "add_edges ?es h = Inr G" "dict_wf G" "nodes G = nodes h"
      and get: "\<forall>a. dict_get G a = map_option (\<lambda>l. l @ map snd (filter (\<lambda>e. fst e = a) ?es)) (dict_get h a)" by blast
    moreover have "edge_rel G = edge_rel h \<union> {(Cls l, Cls d) | d. d \<in> set cs \<and> d \<noteq> l}"
      unfolding edge_rel_added [OF get] es using assms(2) [OF Some] h(3) by auto
    ultimately show ?thesis using that [of G] new Some h(3) rel' by (simp add: build_graph_def)
  qed
  have "closed_graph G"
    unfolding closed_graph_def nodes_def [symmetric] G(3) relG using G(2) closed by auto
  moreover have "acyclic (edge_rel G)"
  proof -
    let ?f = "\<lambda>r. case r of Cls c \<Rightarrow> (if lst = Some c then 1 else 0 :: nat, rank c) | Sym _ \<Rightarrow> (0, 0)"
    have "(edge_rel G)\<inverse> \<subseteq> inv_image (less_than <*lex*> less_than) ?f"
      unfolding relG using rank nolast by auto
    then have "wf ((edge_rel G)\<inverse>)" by (rule wf_subset [rotated]) auto
    then show ?thesis using wf_acyclic acyclic_converse by blast
  qed
  ultimately show ?thesis using G relG by blast
qed

lemma resolve_requires_frame:
  "resolve_requires sbn cs E = Inr E' \<Longrightarrow> cls_name E' = cls_name E \<and> cls_last E' = cls_last E"
  by (induction cs arbitrary: E) (auto simp: res_bind_Inr_iff)

lemma find_last_mem: "find_last E cs = Some l \<Longrightarrow> l \<in> set cs"
  by (induction cs) (auto split: if_splits)

lemma classes_of_Cls: "classes_of (map Cls cs) = Inr cs"
  by (induction cs) auto

text \<open>
  What a blueprint has to satisfy for its boot order to exist: class names identify classes, all
  requirements are classes once those of the given steps are resolved, requirements do not form
  a cycle, and nothing requires the step marked last.
\<close>

definition bootable :: "'c step_classes \<Rightarrow> 'c option \<Rightarrow> ('c \<Rightarrow> nat) \<Rightarrow> bool" where
  "bootable E lst rank \<longleftrightarrow> inj (cls_name E) \<and> resolved E \<and> (\<forall>c. \<forall>d \<in> set (deps E c). rank d < rank c \<and> lst \<noteq> Some d)"

lemma finalize_ok:
  assumes E': "resolve_requires sbn (vals steps) E = Inr E'" and named: "named E steps"
    and boot: "bootable E' (find_last E (vals steps)) rank"
  shows "\<exists>cs. finalize_steps sbn E steps = Some (Inr (E', map Cls cs)) \<and> distinct cs \<and> set (vals steps) \<subseteq> set cs
    \<and> (\<forall>xs c ys. cs = xs @ c # ys \<longrightarrow> set (deps E' c) \<subseteq> set xs)
    \<and> (\<forall>l. find_last E (vals steps) = Some l \<longrightarrow> last cs = l)"
proof -
  let ?lst = "find_last E (vals steps)"
  have inj: "inj (cls_name E')" and res: "resolved E'" and rank: "\<And>c d. d \<in> set (deps E' c) \<Longrightarrow> rank d < rank c"
    and nolast: "\<And>l c. ?lst = Some l \<Longrightarrow> l \<notin> set (deps E' c)" using boot by (auto simp: bootable_def)
  have "named E' steps" using named resolve_requires_frame [OF E'] by (simp add: named_def)
  moreover have stream: "map (requires E') (vals steps) = map (map Cls) (map (deps E') (vals steps))"
    using res by (simp add: resolved_def)
  moreover have "frontier E' steps (map (map Cls) (map (deps E') (vals steps)))" by (auto simp: frontier_def)
  moreover obtain W where "\<And>c. W c = Suc (sum_list (map W (deps E' c)))" using weight_exists [of E' rank] rank by blast
  ultimately obtain steps' where steps': "stream_loop sbn E' steps (map (requires E') (vals steps)) = Some (Inr steps')"
      "named E' steps'" "set (vals steps) \<subseteq> set (vals steps')" "frontier E' steps' []"
    using stream_loop_ok [OF inj res] by (metis (no_types, lifting))
  have first: "firstpass sbn E steps = Some (Inr (E', steps'))" using E' steps'(1) by (simp add: firstpass_def)
  have "distinct (vals steps')"
  proof -
    have "keys steps' = map (cls_name E') (vals steps')" using steps'(2) by (auto simp: named_def)
    then show ?thesis using steps'(2) by (metis distinct_map named_def)
  qed
  then obtain G where G: "build_graph E' (vals steps') ?lst = Inr G" "closed_graph G" "acyclic (edge_rel G)"
      "nodes G = Cls ` set (vals steps')"
    and rel: "edge_rel G = {(Cls c, Cls d) | c d. c \<in> set (vals steps') \<and> d \<in> set (deps E' c)}
        \<union> {(Cls l, Cls d) | l d. ?lst = Some l \<and> d \<in> set (vals steps') \<and> d \<noteq> l}"
    using build_graph_ok [of "vals steps'" ?lst E' rank] res rank nolast steps'(3,4) find_last_mem [of E "vals steps"]
    unfolding frontier_def by (smt (verit) UN_iff empty_iff empty_set in_mono)
  obtain r where r: "topsort G = Inr r" "distinct r" "set r = nodes G" using topsort_ok [OF G(2,3)] by blast
  then obtain cs where cs: "r = map Cls cs" by (metis (no_types, lifting) G(4) ex_map_conv imageE)
  have dist: "distinct cs" and all: "set cs = set (vals steps')" using r G(4) by (auto simp: cs distinct_map inj_image_eq_iff inj_def)
  have before: "(Cls c, Cls d) \<in> edge_rel G \<Longrightarrow> d \<in> set xs" if "cs = xs @ c # ys" for xs c ys d
    using tarjan_khan.sort_deps [OF G(2,3), of "map Cls xs" "Cls c" "map Cls ys" "Cls d"] r(1) that by (auto simp: cs)
  have "set (deps E' c) \<subseteq> set xs" if split: "cs = xs @ c # ys" for xs c ys
  proof
    fix d
    assume "d \<in> set (deps E' c)"
    moreover have "c \<in> set (vals steps')" unfolding all [symmetric] split by simp
    ultimately show "d \<in> set xs" using before [OF split] unfolding rel by blast
  qed
  moreover have "last cs = l" if l: "?lst = Some l" for l
  proof -
    have "l \<in> set cs" using find_last_mem [OF l] steps'(3) all by blast
    then obtain xs ys where split: "cs = xs @ l # ys" by (auto simp: in_set_conv_decomp)
    have "d \<in> set xs" if "d \<in> set ys" for d
      using before [OF split, of d] dist split that l all unfolding rel by auto
    then have "ys = []" using dist split by (cases ys) auto
    then show ?thesis using split by simp
  qed
  ultimately show ?thesis
    using first G(1) r(1) dist all steps'(3) by (intro exI [of _ cs]) (auto simp: finalize_steps_def cs)
qed

section \<open>Properties\<close>

text \<open>
  C8: a blueprint boots its steps in dependency order. For a bootable set of step classes,
  \<open>_finalize_steps\<close> returns (the requirement walk of \<open>_firstpass\<close> ends and \<open>topsort\<close> does not
  raise) a boot order without repetition that contains every claimed step, in which each step
  comes after all the steps it requires, and the step marked \<open>last\<close> comes last.
\<close>

theorem boot_order:
  assumes "resolve_requires sbn (vals steps) E = Inr E'" and "named E steps"
    and "bootable E' (find_last E (vals steps)) rank"
  shows "\<exists>cs. finalize_steps sbn E steps = Some (Inr (E', map Cls cs)) \<and> distinct cs \<and> set (vals steps) \<subseteq> set cs
    \<and> (\<forall>xs c ys. cs = xs @ c # ys \<longrightarrow> set (deps E' c) \<subseteq> set xs)
    \<and> (\<forall>l. find_last E (vals steps) = Some l \<longrightarrow> last cs = l)"
  using finalize_ok [OF assms] .

definition demo_classes :: "nat step_classes" where
  "demo_classes = \<lparr>cls_name = (\<lambda>n. replicate n CHR ''x''), cls_last = (\<lambda>n. n = 3),
     requires = (\<lambda>n. if n = 1 then [Cls 0] else if n = 2 then [Cls 1, Cls 0] else [])\<rparr>"

theorem boot_order_witness:
  "\<exists>cs. finalize_steps (\<lambda>_. None) demo_classes [(''xxx'', 3), (''xx'', 2)] = Some (Inr (demo_classes, map Cls cs))
     \<and> distinct cs \<and> last cs = 3 \<and> {2, 3} \<subseteq> set cs"
proof -
  have d: "deps demo_classes n = (if n = 1 then [0] else if n = 2 then [1, 0] else [])" for n
    by (simp add: deps_def demo_classes_def)
  have E': "resolve_requires (\<lambda>_. None) (vals [(''xxx'', 3), (''xx'', 2)]) demo_classes = Inr demo_classes"
    by (auto simp: demo_classes_def fun_eq_iff)
  have lst: "find_last demo_classes (vals [(''xxx'', 3), (''xx'', 2)]) = Some 3" by (simp add: demo_classes_def)
  have "inj (cls_name demo_classes)" by (auto simp: demo_classes_def inj_def)
  moreover have "resolved demo_classes" unfolding resolved_def d by (simp add: demo_classes_def)
  ultimately have "bootable demo_classes (find_last demo_classes (vals [(''xxx'', 3), (''xx'', 2)])) id"
    by (auto simp: bootable_def d lst split: if_splits)
  moreover have "named demo_classes [(''xxx'', 3), (''xx'', 2)]" by (simp add: named_def demo_classes_def numeral_eq_Suc)
  ultimately show ?thesis using boot_order [OF E'] lst by force
qed

text \<open>
  C28: shutdown mirrors startup. When every step starts, no callback raises and no step raises in
  \<open>close\<close>, a blueprint starts its steps in the order of the parent's list, and \<open>stop\<close> (or
  \<open>terminate\<close>) closes them in that order and then stops every one of them in exactly the
  reverse order, even when stopping some of them raises; it ends terminated, with the shutdown
  event set.
\<close>

theorem stop_reverses_start:
  assumes "quiet env" and "ss \<noteq> []"
    and "\<forall>s \<in> set ss. step_method env ''start'' s = Returns"
    and "\<forall>s \<in> set ss. \<forall>e. step_method env ''close'' s \<noteq> Raises e"
    and "\<forall>s \<in> set ss. step_method env (if trm then ''terminate'' else ''stop'') s \<noteq> NoAttr"
  shows "\<exists>b1 b2. bp_start env (map Some ss) new_blueprint = (b1, None) \<and> bp_stop env (map Some ss) trm b1 = (b2, None)
    \<and> calls_of ''start'' (bp_trace b2) = ss
    \<and> calls_of (if trm then ''terminate'' else ''stop'') (bp_trace b2) = rev ss
    \<and> bp_state b2 = Some TERMINATE \<and> shutdown_complete b2"
proof -
  obtain b1 where b1: "bp_start env (map Some ss) new_blueprint = (b1, None)" "bp_state b1 = Some RUN"
      "bp_started b1 = length ss" "\<forall>meth. calls_of meth (bp_trace b1) = (if meth = ''start'' then ss else [])"
    using bp_start_ok [OF assms(1,3), of new_blueprint] assms(2) by (auto simp: new_blueprint_def calls_of_def)
  from bp_stop_ok [OF assms(1,4) b1(2,3), of trm] obtain b2 where b2: "bp_stop env (map Some ss) trm b1 = (b2, None)"
      "bp_state b2 = Some TERMINATE" "shutdown_complete b2"
    and tr: "\<forall>meth. calls_of meth (bp_trace b2) = calls_of meth (bp_trace b1)
       @ (if meth = ''close'' then filter (\<lambda>s. step_method env meth s \<noteq> NoAttr) ss else [])
       @ (if meth = (if trm then ''terminate'' else ''stop'') then filter (\<lambda>s. step_method env meth s \<noteq> NoAttr) (rev ss) else [])"
    by blast
  have all: "filter (\<lambda>s. step_method env (if trm then ''terminate'' else ''stop'') s \<noteq> NoAttr) (rev ss) = rev ss"
    using assms(5) by (simp add: filter_id_conv)
  have "calls_of ''start'' (bp_trace b2) = ss" using tr b1(4) by simp
  moreover have "calls_of (if trm then ''terminate'' else ''stop'') (bp_trace b2) = rev ss"
    using tr b1(4) all by (cases trm) simp_all
  ultimately show ?thesis using b1(1) b2 by blast
qed

theorem stop_reverses_start_witness:
  "\<exists>b1 b2. bp_start \<lparr>step_method = (\<lambda>m s. if m = ''stop'' \<and> s = 2 then Raises RuntimeError else Returns), callback = (\<lambda>_. NoAttr)\<rparr>
       (map Some [1, 2, 3 :: nat]) new_blueprint = (b1, None)
    \<and> bp_stop \<lparr>step_method = (\<lambda>m s. if m = ''stop'' \<and> s = 2 then Raises RuntimeError else Returns), callback = (\<lambda>_. NoAttr)\<rparr>
       (map Some [1, 2, 3]) False b1 = (b2, None)
    \<and> calls_of ''stop'' (bp_trace b2) = [3, 2, 1]"
  using stop_reverses_start [of "\<lparr>step_method = (\<lambda>m s. if m = ''stop'' \<and> s = 2 then Raises RuntimeError else Returns), callback = (\<lambda>_. NoAttr)\<rparr>"
      "[1, 2, 3 :: nat]" False]
  by (auto simp: quiet_def)

text \<open>
  \<open>stop\<close> compares the number of started steps with the length of the parent's list, but
  \<open>start\<close> counts only the steps that are not \<open>None\<close>. A fully started blueprint whose list holds a
  \<open>None\<close> is declared terminated by \<open>stop\<close> without any step being closed or stopped.
\<close>

theorem stop_skips_steps_beside_none:
  assumes "bp_start env steps new_blueprint = (b, None)" and "None \<in> set steps"
  shows "bp_stop env steps trm b = (b\<lparr>bp_state := Some TERMINATE, shutdown_complete := True\<rparr>, None)"
proof -
  define b0 where "b0 = fst (run_callback env ''on_start'' ((new_blueprint :: 'a blueprint)\<lparr>bp_state := Some RUN\<rparr>))"
  have b0: "bp_started b0 = 0" "bp_state b0 = Some RUN" "start_steps env 0 (present steps) b0 = (b, None)"
    using assms(1)
    by (auto simp: b0_def bp_start_def bp_then_def run_callback_def new_blueprint_def bp_log_def split: outcome.splits)
  have "bp_started b \<le> length (present steps)" using b0 start_steps_started [of env 0 "present steps" b0] by simp
  moreover have "filter (\<lambda>s. s = None) steps \<noteq> []" using assms(2) by (auto simp: filter_empty_conv)
  ultimately have "bp_started b < length steps"
    using present_length [of steps] by (cases "filter (\<lambda>s. s = None) steps") auto
  moreover have "bp_state b = Some RUN" using b0 start_steps_state [of env 0 "present steps" b0] by simp
  ultimately show ?thesis by (simp add: bp_stop_def run_states)
qed

theorem stop_skips_steps_beside_none_witness:
  "\<exists>b. bp_start \<lparr>step_method = (\<lambda>_ _. Returns), callback = (\<lambda>_. NoAttr)\<rparr> [Some (1 :: nat), None] new_blueprint = (b, None)
    \<and> calls_of ''stop'' (bp_trace (fst (bp_stop \<lparr>step_method = (\<lambda>_ _. Returns), callback = (\<lambda>_. NoAttr)\<rparr> [Some 1, None] False b))) = []"
proof -
  let ?env = "\<lparr>step_method = (\<lambda>_ _. Returns), callback = (\<lambda>_. NoAttr)\<rparr> :: nat bp_env"
  obtain b where b: "bp_start ?env [Some 1, None] new_blueprint = (b, None)" "calls_of ''stop'' (bp_trace b) = []"
    by (simp add: bp_start_def bp_then_def run_callback_def present_def new_blueprint_def bp_log_def Let_def calls_of_def)
  then show ?thesis using stop_skips_steps_beside_none [OF b(1), of False] by auto
qed

text \<open>
  requirements given by name are only resolved for the steps the blueprint was created with.
  A step that is pulled in because another requires it keeps its names, so its named requirement
  is loaded as a step but the graph refers to it by name, and \<open>topsort\<close> fails with a
  \<open>KeyError\<close> (reported as an unknown bootstep) although every requirement is available.
\<close>

theorem named_requirement_of_pulled_in_step:
  assumes "sbn nm = Some (2 :: nat)"
  shows "finalize_steps sbn \<lparr>cls_name = (\<lambda>n. replicate (Suc n) CHR ''x''), cls_last = (\<lambda>_. False),
      requires = (\<lambda>n. if n = 0 then [Cls 1] else if n = 1 then [Sym nm] else [])\<rparr> [(''x'', 0)] = Some (Inl KeyError)"
  using assms
  by (simp add: finalize_steps_def firstpass_def stream_loop.simps build_graph_def new_graph_def
      update_graph_def add_arc_def dict_setdefault_def add_edge_def topsort_def tarjan72_def close_component_def Let_def)

theorem named_requirement_of_pulled_in_step_witness:
  "finalize_steps (\<lambda>_. Some 2) \<lparr>cls_name = (\<lambda>n. replicate (Suc n) CHR ''x''), cls_last = (\<lambda>_. False),
      requires = (\<lambda>n. if n = 0 then [Cls 1] else if n = 1 then [Sym ''m:C''] else [])\<rparr> [(''x'', 0)] = Some (Inl KeyError)"
  using named_requirement_of_pulled_in_step [of "\<lambda>_. Some 2" "''m:C''"] by simp

end
