(* ===== verification/Worker_State.thy ===== *)
theory Worker_State
  imports Limited_Set
begin

text \<open>
  \<open>celery.worker.state\<close>: the global tables of a worker process (reserved, scheduled, active and
  successful requests, counters, revoked ids) and the functions that move a request through them,
  and \<open>Persistent\<close>, which saves the revoked ids between restarts. A request is known to this
  module by its object identity, its task id and its task name. The request sets of the source
  hold weak references; a request that the worker still uses is alive, and only such requests are
  followed here. \<open>pickle\<close>, \<open>zlib\<close> and the Lamport clock of kombu are parameters.
\<close>

section \<open>Global tables\<close>

record wreq =
  rq_ref :: nat
  rq_id :: string
  rq_name :: string

datatype hval = HStr string | HList "hval list"

datatype flag = FNone | FFalse | FCode int

record worker_state =
  requests :: "(string, wreq) dict"
  reserved_requests :: "wreq set"
  active_requests :: "wreq set"
  scheduled_requests :: "wreq set"
  successful_requests :: "string limited_set"
  total_count :: "(string, nat) dict"
  all_total_count :: nat
  revoked :: "string limited_set"
  revoked_stamps :: "(string, hval) dict"
  should_stop :: flag
  should_terminate :: flag

definition new_state :: "int \<Rightarrow> rat \<Rightarrow> int \<Rightarrow> rat \<Rightarrow> worker_state" where
  "new_state revokes_max revoke_expires successful_max successful_expires =
     \<lparr>requests = [], reserved_requests = {}, active_requests = {}, scheduled_requests = {},
      successful_requests = empty_set successful_max successful_expires 0, total_count = [], all_total_count = 0,
      revoked = empty_set revokes_max revoke_expires 0, revoked_stamps = [],
      should_stop = FNone, should_terminate = FNone\<rparr>"

definition merge_revoked :: "(nat \<Rightarrow> rat) \<Rightarrow> string list \<Rightarrow> worker_state \<Rightarrow> worker_state result" where
  "merge_revoked clk task_ids w =
     (if task_ids = [] then Inr w
      else res_bind (update clk (FromIter task_ids) (revoked w)) (\<lambda>s. Inr (w\<lparr>revoked := s\<rparr>)))"

definition reset_state :: "worker_state \<Rightarrow> worker_state" where
  "reset_state w = w\<lparr>requests := [], reserved_requests := {}, active_requests := {}, scheduled_requests := {},
      successful_requests := clear (successful_requests w), total_count := [], all_total_count := 0,
      revoked := clear (revoked w), revoked_stamps := []\<rparr>"

datatype shutdown = NoShutdown | WorkerTerminate int | WorkerShutdown int

definition maybe_shutdown :: "worker_state \<Rightarrow> shutdown" where
  "maybe_shutdown w = (case should_terminate w of FCode c \<Rightarrow> WorkerTerminate c
     | _ \<Rightarrow> (case should_stop w of FCode c \<Rightarrow> WorkerShutdown c | _ \<Rightarrow> NoShutdown))"

definition task_reserved :: "wreq \<Rightarrow> worker_state \<Rightarrow> worker_state" where
  "task_reserved r w = w\<lparr>requests := dict_set (rq_id r) r (requests w),
     reserved_requests := insert r (reserved_requests w), scheduled_requests := scheduled_requests w - {r}\<rparr>"

definition task_scheduled :: "wreq \<Rightarrow> worker_state \<Rightarrow> worker_state" where
  "task_scheduled r w =
     (if r \<in> reserved_requests w \<or> r \<in> active_requests w then w
      else w\<lparr>requests := dict_set (rq_id r) r (requests w), scheduled_requests := insert r (scheduled_requests w)\<rparr>)"

definition task_accepted :: "wreq \<Rightarrow> worker_state \<Rightarrow> worker_state" where
  "task_accepted r w = w\<lparr>requests := dict_set (rq_id r) r (requests w),
     active_requests := insert r (active_requests w),
     total_count := dict_set (rq_name r) (Suc (case dict_get (total_count w) (rq_name r) of None \<Rightarrow> 0 | Some n \<Rightarrow> n)) (total_count w),
     all_total_count := Suc (all_total_count w)\<rparr>"

definition task_ready :: "rat \<Rightarrow> rat \<Rightarrow> wreq \<Rightarrow> bool \<Rightarrow> worker_state \<Rightarrow> worker_state result" where
  "task_ready clk clk' r successful w =
     res_bind (if successful then add clk clk' (rq_id r) None (successful_requests w) else Inr (successful_requests w))
       (\<lambda>s. Inr (w\<lparr>successful_requests := s, requests := dict_del (rq_id r) (requests w),
          active_requests := active_requests w - {r}, reserved_requests := reserved_requests w - {r},
          scheduled_requests := scheduled_requests w - {r}\<rparr>))"

section \<open>Persistent state\<close>

text \<open>
  The fields of the shelve database that \<open>Persistent\<close> reads and writes. \<open>dumps\<close>, \<open>loads\<close> stand for
  pickle, \<open>compress\<close>, \<open>decompress\<close> for zlib; \<open>forward\<close> and \<open>adjust\<close> for the clock.
\<close>

record 'b db =
  db_zrevoked :: "'b option"
  db_revoked :: "string list option"
  db_clock :: "nat option"

record ('b, 'p, 'c) codec =
  dumps :: "string limited_set \<Rightarrow> 'p"
  loads :: "'p \<Rightarrow> string limited_set result"
  compress :: "'p \<Rightarrow> 'b"
  decompress :: "'b \<Rightarrow> 'p"
  truthy :: "'b \<Rightarrow> bool"
  forward :: "'c \<Rightarrow> nat \<times> 'c"
  adjust :: "'c \<Rightarrow> nat \<Rightarrow> nat \<times> 'c"

definition merge_revoked_v3 :: "('b, 'p, 'c) codec \<Rightarrow> (nat \<Rightarrow> rat) \<Rightarrow> 'b \<Rightarrow> worker_state \<Rightarrow> worker_state result" where
  "merge_revoked_v3 C clk z w = (if truthy C z
     then res_bind (loads C (decompress C z)) (\<lambda>saved. merge_revoked clk (ls_iter saved) w) else Inr w)"

definition merge_revoked_db :: "('b, 'p, 'c) codec \<Rightarrow> (nat \<Rightarrow> rat) \<Rightarrow> rat \<Rightarrow> 'b db \<Rightarrow> worker_state \<Rightarrow> ('b db \<times> worker_state) result" where
  "merge_revoked_db C clk now d w =
     res_bind (case db_zrevoked d of
         Some z \<Rightarrow> res_bind (merge_revoked_v3 C clk z w) (\<lambda>w. Inr (d, w))
       | None \<Rightarrow> (case db_revoked d of
           Some saved \<Rightarrow> res_bind (merge_revoked clk saved w) (\<lambda>w. Inr (d\<lparr>db_revoked := None\<rparr>, w))
         | None \<Rightarrow> Inr (d, w)))
       (\<lambda>(d, w). res_bind (purge now (revoked w)) (\<lambda>s. Inr (d, w\<lparr>revoked := s\<rparr>)))"

definition merge_clock :: "('b, 'p, 'c) codec \<Rightarrow> 'c option \<Rightarrow> 'b db \<Rightarrow> 'c option \<times> 'b db" where
  "merge_clock C clock d = (case clock of None \<Rightarrow> (None, d)
     | Some c \<Rightarrow> (case adjust C c (case db_clock d of None \<Rightarrow> 0 | Some v \<Rightarrow> v) of (v, c') \<Rightarrow> (Some c', d\<lparr>db_clock := Some v\<rparr>)))"

definition merge_with :: "('b, 'p, 'c) codec \<Rightarrow> (nat \<Rightarrow> rat) \<Rightarrow> rat \<Rightarrow> 'c option \<Rightarrow> 'b db \<Rightarrow> worker_state \<Rightarrow>
    ('c option \<times> 'b db \<times> worker_state) result" where
  "merge_with C clk now clock d w =
     res_bind (merge_revoked_db C clk now d w) (\<lambda>(d, w). case merge_clock C clock d of (clock', d') \<Rightarrow> Inr (clock', d', w))"

definition sync_with :: "('b, 'p, 'c) codec \<Rightarrow> rat \<Rightarrow> 'c option \<Rightarrow> 'b db \<Rightarrow> worker_state \<Rightarrow>
    ('c option \<times> 'b db \<times> worker_state) result" where
  "sync_with C now clock d w =
     res_bind (purge now (revoked w)) (\<lambda>s.
       case (case clock of None \<Rightarrow> (0, None) | Some c \<Rightarrow> (case forward C c of (v, c') \<Rightarrow> (v, Some c'))) of (v, clock') \<Rightarrow>
       Inr (clock', d\<lparr>db_zrevoked := Some (compress C (dumps C s)), db_clock := Some v\<rparr>, w\<lparr>revoked := s\<rparr>))"

section \<open>Filling an empty limited set\<close>

definition fresh_entries :: "'a::linorder limited_set \<Rightarrow> bool" where
  "fresh_entries s \<longleftrightarrow> set (ls_heap s) = set (vals (ls_data s))"

lemma add_entry_new:
  assumes "k \<notin> set (keys (ls_data s))"
  shows "add_entry k t s = s\<lparr>ls_seq := Suc (ls_seq s), ls_data := ls_data s @ [(k, t, ls_seq s, k)],
    ls_heap := heappush (ls_heap s) (t, ls_seq s, k)\<rparr>"
  using assms by (simp add: add_entry_def dict_get_None_iff [THEN iffD2] dict_set_fresh Let_def)

lemma update_iter_fresh:
  assumes "fresh_entries s" and "distinct (keys (ls_data s) @ xs)"
    and "maxlen s = 0 \<or> int (length (ls_data s) + length xs) < maxlen s"
  shows "\<exists>t. update_iter clk xs s = Inr t \<and> keys (ls_data t) = keys (ls_data s) @ xs \<and> fresh_entries t \<and> same_limits s t
    \<and> (\<forall>e \<in> set (vals (ls_data t)). e \<in> set (vals (ls_data s)) \<or> (\<exists>i. inserted e = clk i))"
  using assms
proof (induction xs arbitrary: clk s)
  case Nil
  then show ?case by (auto simp: same_limits_def)
next
  case (Cons x xs)
  define u where "u = s\<lparr>ls_seq := Suc (ls_seq s), ls_data := ls_data s @ [(x, clk 0, ls_seq s, x)],
    ls_heap := heappush (ls_heap s) (clk 0, ls_seq s, x)\<rparr>"
  have x: "x \<notin> set (keys (ls_data s))" using Cons.prems(2) by auto
  have "add (clk 0) (clk 1) x None s = Inr u"
    using add_entry_new [OF x, of "clk 0"] Cons.prems(3) by (auto simp: add_def u_def ls_len_def)
  moreover have "fresh_entries u" "distinct (keys (ls_data u) @ xs)"
      "maxlen u = 0 \<or> int (length (ls_data u) + length xs) < maxlen u"
    using Cons.prems by (auto simp: u_def fresh_entries_def heappush_def set_insort_key)
  from Cons.IH [OF this, of "\<lambda>i. clk (i + 2)"] obtain t where
    "update_iter (\<lambda>i. clk (i + 2)) xs u = Inr t" "keys (ls_data t) = keys (ls_data u) @ xs" "fresh_entries t" "same_limits u t"
    "\<forall>e \<in> set (vals (ls_data t)). e \<in> set (vals (ls_data u)) \<or> (\<exists>i. inserted e = clk (i + 2))" by blast
  ultimately show ?case by (fastforce simp: u_def same_limits_def)
qed

lemma purge_keeps_young:
  assumes "fresh_entries s" and "\<forall>e \<in> set (vals (ls_data s)). now < inserted e + expires s"
    and "maxlen s = 0 \<or> ls_len s \<le> maxlen s"
  shows "purge now s = Inr s"
proof -
  have "purge_expired now s = Inr s"
  proof (cases "ls_heap s")
    case Nil
    then have "ls_data s = []" using assms(1) by (simp add: fresh_entries_def)
    then have "\<not> (ls_len s > minlen s \<and> minlen s \<ge> 0)" by (simp add: ls_len_def)
    then show ?thesis by (simp only: purge_expired.simps [of now s] if_False)
  next
    case (Cons e h)
    then have "e \<in> set (vals (ls_data s))" using assms(1) unfolding fresh_entries_def by auto
    then have "now < inserted e + expires s" using assms(2) by blast
    then show ?thesis using Cons by (simp add: purge_expired.simps)
  qed
  moreover have "maxlen s \<noteq> 0 \<Longrightarrow> purge_excess s = Inr s" using assms(3) by (simp add: purge_excess.simps)
  ultimately show ?thesis by (auto simp: purge_def)
qed

lemma ls_iter_keys: "ls_inv s \<Longrightarrow> set (ls_iter s) = set (keys (ls_data s)) \<and> distinct (ls_iter s)"
proof -
  assume inv: "ls_inv s"
  have eq: "map entry_item (vals (ls_data s)) = keys (ls_data s)"
    using inv by (auto simp: ls_inv_def covered_def)
  have "mset (ls_iter s) = mset (keys (ls_data s))" unfolding ls_iter_def eq [symmetric] by (simp add: multiset.map_comp)
  then show ?thesis using inv by (metis ls_inv_def mset_eq_imp_distinct_iff mset_eq_setD)
qed

lemma add_stamps:
  assumes "ls_inv s" and "0 \<le> maxlen s" and "add clk clk' item None s = Inr t"
  shows "\<forall>(k, e) \<in> set (ls_data t). (k, e) \<in> set (ls_data s) \<or> k = item \<and> inserted e = clk"
proof -
  have wf: "dict_wf (ls_data s)" using assms(1) by (simp add: ls_inv_def)
  have inv: "ls_inv (add_entry item clk s)" using assms(1) by (rule inv_intros)
  have mx: "0 \<le> maxlen (add_entry item clk s)" using assms(2) add_entry_frame(1) [of s item clk] by (simp add: same_limits_def)
  have "set (ls_data t) \<subseteq> set (ls_data (add_entry item clk s))"
    using assms(3) purge_spec [OF inv mx, of clk'] by (auto simp: add_def Let_def shrunk_def split: if_splits)
  then show ?thesis unfolding add_entry_data [OF wf] by (auto simp: set_dict_del)
qed

lemma update_iter_stamps:
  assumes "ls_inv s" and "0 \<le> maxlen s" and "within_maxlen s" and "update_iter clk xs s = Inr t"
  shows "\<forall>(k, e) \<in> set (ls_data t). (k, e) \<in> set (ls_data s) \<or> k \<in> set xs \<and> (\<exists>i. inserted e = clk i)"
  using assms
proof (induction xs arbitrary: clk s)
  case Nil
  then show ?case by auto
next
  case (Cons x xs)
  obtain u where u: "add (clk 0) (clk 1) x None s = Inr u" "update_iter (\<lambda>i. clk (i + 2)) xs u = Inr t"
    using Cons.prems(4) by (auto simp: res_bind_Inr_iff)
  moreover have "ls_inv u" "same_limits s u" "within_maxlen u" using add_spec [OF Cons.prems(1,2), of "clk 0" "clk 1" x None] u(1) by auto
  ultimately show ?case
    using Cons.IH [of u "\<lambda>i. clk (i + 2)"] add_stamps [OF Cons.prems(1,2) u(1)] Cons.prems(2)
    by (fastforce simp: same_limits_def)
qed

lemma merge_into_empty:
  assumes "revoked w = empty_set mx ex mn" and "distinct ids" and "mx = 0 \<or> int (length ids) < mx"
    and "\<And>i. boot_time < clk i + ex"
  shows "\<exists>t. merge_revoked clk ids w = Inr (w\<lparr>revoked := t\<rparr>) \<and> purge boot_time t = Inr t \<and> keys (ls_data t) = ids"
proof -
  have "fresh_entries (revoked w)" "distinct (keys (ls_data (revoked w)) @ ids)"
      "maxlen (revoked w) = 0 \<or> int (length (ls_data (revoked w)) + length ids) < maxlen (revoked w)"
    using assms(1-3) by (auto simp: empty_set_def fresh_entries_def)
  from update_iter_fresh [OF this, of clk] obtain t where t: "update_iter clk ids (revoked w) = Inr t"
      "keys (ls_data t) = ids" "fresh_entries t" "same_limits (revoked w) t"
      "\<forall>e \<in> set (vals (ls_data t)). \<exists>i. inserted e = clk i" by (auto simp: assms(1) empty_set_def)
  have lim: "maxlen t = mx" "expires t = ex" using t(4) assms(1) by (auto simp: same_limits_def empty_set_def)
  have "\<forall>e \<in> set (vals (ls_data t)). boot_time < inserted e + expires t" using t(5) assms(4) lim by metis
  moreover have "maxlen t = 0 \<or> ls_len t \<le> maxlen t" using assms(3) t(2) lim by (auto simp: ls_len_def)
  ultimately have "purge boot_time t = Inr t" using purge_keeps_young [OF t(3)] by blast
  moreover have "merge_revoked clk ids w = Inr (w\<lparr>revoked := t\<rparr>)" using t(1) by (auto simp: merge_revoked_def)
  ultimately show ?thesis using t(2) by blast
qed

lemma rebuilt_ids:
  assumes "ls_inv s" and "limits_ok s" and "maxlen s = 0 \<or> ls_len s < maxlen s"
  shows "\<exists>t. (case ls_reduce s of (mx, ex, d, mn) \<Rightarrow> init clk mx ex (Some d) mn) = Inr t
    \<and> set (ls_iter t) = set (keys (ls_data s)) \<and> distinct (ls_iter t)"
proof -
  obtain t where t: "(case ls_reduce s of (mx, ex, d, mn) \<Rightarrow> init clk mx ex (Some d) mn) = Inr t" "as_dict t = as_dict s"
    using reduce_init [OF assms, of clk] by blast
  have "ls_good t"
    using t(1) by (intro init_good [of clk "maxlen s" "expires s" "Some (FromDict (map (\<lambda>(k, t). (k, PyFloat t)) (as_dict s)))" "minlen s"])
      (auto simp: ls_reduce_def)
  then have inv: "ls_inv t" by (simp add: ls_good_def)
  have "map fst (as_dict u) = keys (ls_data u)" if "ls_inv u" for u :: "'a limited_set"
    using that by (auto simp: as_dict_def ls_inv_def covered_def)
  then have "keys (ls_data t) = keys (ls_data s)" using inv assms(1) t(2) by metis
  then show ?thesis using t(1) ls_iter_keys [OF inv] by auto
qed

section \<open>Request tables\<close>

datatype ws_call = Reserve wreq | Schedule wreq | Accept wreq | Ready rat rat wreq bool

fun ws_req :: "ws_call \<Rightarrow> wreq" where
  "ws_req (Reserve r) = r" | "ws_req (Schedule r) = r" | "ws_req (Accept r) = r" | "ws_req (Ready _ _ r _) = r"

fun ws_exec :: "ws_call \<Rightarrow> worker_state \<Rightarrow> worker_state result" where
  "ws_exec (Reserve r) w = Inr (task_reserved r w)"
| "ws_exec (Schedule r) w = Inr (task_scheduled r w)"
| "ws_exec (Accept r) w = Inr (task_accepted r w)"
| "ws_exec (Ready clk clk' r ok) w = task_ready clk clk' r ok w"

definition ws_start :: "worker_state \<Rightarrow> bool" where
  "ws_start w \<longleftrightarrow> (\<exists>rm re sm se. 0 \<le> rm \<and> 0 \<le> re \<and> 0 \<le> sm \<and> 0 \<le> se \<and> w = new_state rm re sm se)"

definition ws_step :: "wreq set \<Rightarrow> worker_state \<Rightarrow> ws_call \<Rightarrow> worker_state \<Rightarrow> bool" where
  "ws_step U w c w' \<longleftrightarrow> inj_on rq_id U \<and> ws_req c \<in> U \<and> ws_exec c w = Inr w'"

definition tracked :: "worker_state \<Rightarrow> wreq set" where
  "tracked w = reserved_requests w \<union> active_requests w \<union> scheduled_requests w"

definition ws_inv :: "wreq set \<Rightarrow> worker_state \<Rightarrow> bool" where
  "ws_inv U w \<longleftrightarrow> tracked w \<subseteq> U \<and> dict_wf (requests w)
     \<and> (\<forall>r \<in> U. dict_get (requests w) (rq_id r) = (if r \<in> tracked w then Some r else None))
     \<and> reserved_requests w \<inter> scheduled_requests w = {}
     \<and> dict_wf (total_count w) \<and> sum_list (vals (total_count w)) = all_total_count w
     \<and> ls_inv (successful_requests w) \<and> 0 \<le> maxlen (successful_requests w)"

lemma sum_dict_incr:
  "dict_wf d \<Longrightarrow> sum_list (vals (dict_set k (Suc (case dict_get d k of None \<Rightarrow> 0 | Some n \<Rightarrow> n)) d)) = Suc (sum_list (vals d))"
proof (induction d)
  case (Cons p d)
  have "fst p \<notin> set (keys d)" "dict_wf d" using Cons.prems by auto
  then show ?case using Cons.IH by (cases p) auto
qed simp

lemma requests_set:
  assumes "inj_on rq_id U" and "r \<in> U" and "\<forall>q \<in> U. dict_get d (rq_id q) = (if q \<in> T then Some q else None)" and "q \<in> U"
  shows "dict_get (dict_set (rq_id r) r d) (rq_id q) = (if q \<in> insert r T then Some q else None)"
  using assms by (auto simp: dict_simps dest: inj_onD)

lemma requests_del:
  assumes "inj_on rq_id U" and "r \<in> U" and "\<forall>q \<in> U. dict_get d (rq_id q) = (if q \<in> T then Some q else None)" and "q \<in> U"
  shows "dict_get (dict_del (rq_id r) d) (rq_id q) = (if q \<in> T - {r} then Some q else None)"
  using assms by (auto simp: dict_simps dest: inj_onD)

lemma tracked_simps:
  "tracked (task_reserved r w) = insert r (tracked w)"
  "r \<notin> reserved_requests w \<Longrightarrow> r \<notin> active_requests w \<Longrightarrow> tracked (task_scheduled r w) = insert r (tracked w)"
  "tracked (task_accepted r w) = insert r (tracked w)"
  by (auto simp: tracked_def task_reserved_def task_scheduled_def task_accepted_def)

lemma ws_step_inv:
  assumes inv: "ws_inv U w" and step: "ws_step U w c w'"
  shows "ws_inv U w'"
proof -
  have U: "inj_on rq_id U" "ws_req c \<in> U" and ex: "ws_exec c w = Inr w'" using step by (auto simp: ws_step_def)
  have I: "\<forall>q \<in> U. dict_get (requests w) (rq_id q) = (if q \<in> tracked w then Some q else None)" using inv by (simp add: ws_inv_def)
  show ?thesis
  proof (cases c)
    case (Reserve r)
    then have w': "w' = task_reserved r w" and r: "r \<in> U" using ex U by auto
    show ?thesis using inv requests_set [OF U(1) r I] r unfolding ws_inv_def w' tracked_simps
      by (auto simp: task_reserved_def distinct_update)
  next
    case (Schedule r)
    then have w': "w' = task_scheduled r w" and r: "r \<in> U" using ex U by auto
    show ?thesis
    proof (cases "r \<in> reserved_requests w \<or> r \<in> active_requests w")
      case True
      then show ?thesis using inv w' by (simp add: task_scheduled_def)
    next
      case False
      then have t: "tracked w' = insert r (tracked w)" using tracked_simps(2) w' by simp
      show ?thesis using inv requests_set [OF U(1) r I] r False unfolding ws_inv_def t
        by (auto simp: w' task_scheduled_def distinct_update)
    qed
  next
    case (Accept r)
    then have w': "w' = task_accepted r w" and r: "r \<in> U" using ex U by auto
    show ?thesis using inv requests_set [OF U(1) r I] r sum_dict_incr [of "total_count w" "rq_name r"] unfolding ws_inv_def w' tracked_simps
      by (auto simp: task_accepted_def distinct_update)
  next
    case (Ready clk clk' r ok)
    then have r: "r \<in> U" and rd: "task_ready clk clk' r ok w = Inr w'" using ex U by auto
    have t: "tracked w' = tracked w - {r}" using rd by (auto simp: task_ready_def tracked_def res_bind_Inr_iff)
    have "ls_inv (successful_requests w') \<and> 0 \<le> maxlen (successful_requests w')"
      using rd inv add_spec [of "successful_requests w" clk clk' "rq_id r" None]
      by (auto simp: task_ready_def res_bind_Inr_iff ws_inv_def same_limits_def split: if_splits)
    then show ?thesis using inv requests_del [OF U(1) r I] rd unfolding ws_inv_def t
      by (auto simp: task_ready_def res_bind_Inr_iff distinct_delete)
  qed
qed

lemma ws_start_inv: "ws_start w \<Longrightarrow> ws_inv U w"
  by (auto simp: ws_start_def new_state_def ws_inv_def tracked_def empty_set_def ls_inv_def covered_def)

interpretation request_tables: invariant_system ws_start "ws_step U" "ws_inv U" for U
  by unfold_locales (erule ws_start_inv, erule (1) ws_step_inv)

section \<open>Properties\<close>

text \<open>
  C27: the request tables agree. As long as requests have different ids, after any sequence of
  \<open>task_reserved\<close>, \<open>task_scheduled\<close>, \<open>task_accepted\<close> and \<open>task_ready\<close>: a request is found in
  \<open>requests\<close> under its id exactly while it is reserved, scheduled or active; no request is both
  reserved and scheduled; \<open>task_ready\<close> never raises and takes the request out of every table;
  and the total is the sum of the counts per task name.
\<close>

theorem request_tables_agree:
  assumes "reach ws_start (ws_step U) w"
  shows "(\<forall>r \<in> U. dict_get (requests w) (rq_id r) = (if r \<in> tracked w then Some r else None))
    \<and> reserved_requests w \<inter> scheduled_requests w = {}
    \<and> all_total_count w = sum_list (vals (total_count w))
    \<and> (\<forall>clk clk' r ok. \<exists>w'. task_ready clk clk' r ok w = Inr w' \<and> r \<notin> tracked w')"
proof -
  have inv: "ws_inv U w" using request_tables.inv_reach [OF assms] .
  have "\<exists>w'. task_ready clk clk' r ok w = Inr w' \<and> r \<notin> tracked w'" for clk clk' r ok
    using inv add_spec [of "successful_requests w" clk clk' "rq_id r" None]
    by (auto simp: ws_inv_def task_ready_def tracked_def)
  then show ?thesis using inv by (auto simp: ws_inv_def)
qed

definition demo_req :: wreq where
  "demo_req = \<lparr>rq_ref = 1, rq_id = ''id-1'', rq_name = ''tasks.add''\<rparr>"

theorem request_tables_agree_witness:
  "\<exists>w'. task_ready 0 0 demo_req True (task_accepted demo_req (task_reserved demo_req (new_state 10 5 10 5))) = Inr w' \<and> demo_req \<notin> tracked w'"
proof -
  have "reach ws_start (ws_step {demo_req}) (new_state 10 5 10 5)"
  proof (rule reach_init)
    show "ws_start (new_state 10 5 10 5)"
      unfolding ws_start_def by (intro exI [of _ 10] exI [of _ 5] conjI) auto
  qed
  then have "reach ws_start (ws_step {demo_req}) (task_reserved demo_req (new_state 10 5 10 5))"
    by (rule reach_step [where e = "Reserve demo_req"]) (simp add: ws_step_def)
  then have "reach ws_start (ws_step {demo_req}) (task_accepted demo_req (task_reserved demo_req (new_state 10 5 10 5)))"
    by (rule reach_step [where e = "Accept demo_req"]) (simp add: ws_step_def)
  from request_tables_agree [OF this] show ?thesis by blast
qed

text \<open>
  C16: revocations survive a restart. What \<open>Persistent\<close> writes at shutdown and merges at the next
  start brings back exactly the revoked ids whose entry had not expired at the time of the shutdown,
  whatever their order, when no id was revoked twice (the heap has no stale entry), the set is
  below its maximum size and has no minimum size, pickle rebuilds the set the way its
  \<open>__reduce__\<close> asks for, zlib is lossless, the restarted worker's set is empty, and the boot-time
  purge is not later than \<open>expires\<close> seconds after the first local clock reading.
\<close>

theorem revoked_survive_restart:
  assumes "ls_inv (revoked w)" and "limits_ok (revoked w)" and "maxlen (revoked w) = 0 \<or> ls_len (revoked w) < maxlen (revoked w)"
    and once: "length (ls_heap (revoked w)) = length (ls_data (revoked w))" and "minlen (revoked w) = 0"
    and pickle: "\<And>s. loads C (dumps C s) = (case ls_reduce s of (mx, ex, d, mn) \<Rightarrow> init clk0 mx ex (Some d) mn)"
    and zlib: "\<And>p. decompress C (compress C p) = p" "\<And>p. truthy C (compress C p)"
    and boot: "revoked w0 = empty_set (maxlen (revoked w)) (expires (revoked w)) (minlen (revoked w))"
    and clock: "\<And>i. boot_time < clk i + expires (revoked w)"
  shows "\<exists>clock1 d w1 clock2 d' w2. sync_with C now clock d0 w = Inr (clock1, d, w1)
    \<and> merge_with C clk boot_time clock' d w0 = Inr (clock2, d', w2)
    \<and> (\<forall>id. ls_contains id (revoked w2) \<longleftrightarrow>
         (\<exists>e. dict_get (ls_data (revoked w)) id = Some e \<and> (expires (revoked w) = 0 \<or> now < inserted e + expires (revoked w))))"
proof -
  have "0 \<le> maxlen (revoked w)" using assms(2) by (auto simp: limits_ok_def)
  then obtain s where s: "purge now (revoked w) = Inr s" "shrunk (revoked w) s" using purge_spec [OF assms(1)] by blast
  have inv: "ls_inv s" and lim: "same_limits (revoked w) s" and sub: "set (ls_data s) \<subseteq> set (ls_data (revoked w))"
    using s(2) by (auto simp: shrunk_def)
  have len: "ls_len s \<le> ls_len (revoked w)"
    using card_mono [OF finite_set sub] inv assms(1) distinct_card [of "ls_data s"] distinct_card [of "ls_data (revoked w)"]
    by (auto simp: ls_len_def ls_inv_def distinct_map)
  have small: "limits_ok s" "maxlen s = 0 \<or> ls_len s < maxlen s" using assms(2,3) lim len by (auto simp: limits_ok_def same_limits_def)
  obtain saved where saved: "loads C (dumps C s) = Inr saved" "set (ls_iter saved) = set (keys (ls_data s))" "distinct (ls_iter saved)"
    using rebuilt_ids [OF inv small, of clk0] pickle by auto
  have "length (ls_iter saved) = length (ls_data s)"
    using saved inv by (metis distinct_card length_map ls_inv_def)
  then have "maxlen (revoked w) = 0 \<or> int (length (ls_iter saved)) < maxlen (revoked w)"
    using assms(3) len by (auto simp: ls_len_def)
  from merge_into_empty [OF boot saved(3) this, of boot_time clk] clock obtain t where
    mr: "merge_revoked clk (ls_iter saved) w0 = Inr (w0\<lparr>revoked := t\<rparr>)" and t: "purge boot_time t = Inr t" "keys (ls_data t) = ls_iter saved"
    by blast
  have "merge_revoked_db C clk boot_time (d0\<lparr>db_zrevoked := Some (compress C (dumps C s)), db_clock := v\<rparr>) w0
      = Inr (d0\<lparr>db_zrevoked := Some (compress C (dumps C s)), db_clock := v\<rparr>, w0\<lparr>revoked := t\<rparr>)" for v
    using zlib saved(1) mr t(1) by (simp add: merge_revoked_db_def merge_revoked_v3_def)
  moreover have "ls_contains id t \<longleftrightarrow> ls_contains id s" for id
    by (simp only: ls_contains_def dict_get_None_iff t(2) saved(2))
  moreover have "ls_contains id s \<longleftrightarrow>
      (\<exists>e. dict_get (ls_data (revoked w)) id = Some e \<and> (expires (revoked w) = 0 \<or> now < inserted e + expires (revoked w)))" for id
  proof -
    have "stale (revoked w) = 0" "maxlen (revoked w) = 0 \<or> ls_len (revoked w) \<le> maxlen (revoked w)"
      using once assms(3) by (auto simp: stale_def)
    from purge_exact [OF assms(1) this(1) assms(5) this(2) s(1), of id] show ?thesis
      unfolding ls_contains_def not_None_eq by metis
  qed
  ultimately show ?thesis
    using s(1) by (auto simp: sync_with_def merge_with_def split: prod.split option.split)
qed

definition demo_codec :: "(string limited_set, string limited_set, nat) codec" where
  "demo_codec = \<lparr>dumps = (\<lambda>s. s), loads = (\<lambda>s. case ls_reduce s of (mx, ex, d, mn) \<Rightarrow> init (\<lambda>_. 0) mx ex (Some d) mn),
     compress = (\<lambda>p. p), decompress = (\<lambda>p. p), truthy = (\<lambda>_. True),
     forward = (\<lambda>c. (c + 1, c + 1)), adjust = (\<lambda>c v. (max c v + 1, max c v + 1))\<rparr>"

theorem revoked_survive_restart_witness:
  "\<exists>clock1 d w1 clock2 d' w2. sync_with demo_codec 1 (Some 4) \<lparr>db_zrevoked = None, db_revoked = None, db_clock = None\<rparr>
       ((new_state 10 5 10 5)\<lparr>revoked := add_entry ''id-1'' 0 (empty_set 10 5 0)\<rparr>) = Inr (clock1, d, w1)
    \<and> merge_with demo_codec (\<lambda>_. 7) 8 None d (new_state 10 5 10 5) = Inr (clock2, d', w2)
    \<and> ls_contains ''id-1'' (revoked w2)"
proof -
  let ?w = "(new_state 10 5 10 5)\<lparr>revoked := add_entry ''id-1'' 0 (empty_set 10 5 0)\<rparr>"
  have e: "add_entry ''id-1'' 0 (empty_set 10 5 0) = \<lparr>maxlen = 10, minlen = 0, expires = 5,
      ls_data = [(''id-1'', 0, 0, ''id-1'')], ls_heap = [(0, 0, ''id-1'')], ls_seq = 1\<rparr>"
    by (simp add: add_entry_def empty_set_def heappush_def Let_def)
  have inv: "ls_inv (revoked ?w)" "limits_ok (revoked ?w)" "maxlen (revoked ?w) = 0 \<or> ls_len (revoked ?w) < maxlen (revoked ?w)"
    "length (ls_heap (revoked ?w)) = length (ls_data (revoked ?w))" "minlen (revoked ?w) = 0"
    by (simp_all add: e ls_inv_def covered_def limits_ok_def ls_len_def)
  have boot: "revoked (new_state 10 5 10 5) = empty_set (maxlen (revoked ?w)) (expires (revoked ?w)) (minlen (revoked ?w))"
    by (simp add: new_state_def e)
  have codec: "loads demo_codec (dumps demo_codec s) = (case ls_reduce s of (mx, ex, d, mn) \<Rightarrow> init (\<lambda>_. 0) mx ex (Some d) mn)"
      "decompress demo_codec (compress demo_codec p) = p" "truthy demo_codec (compress demo_codec p)" for s p
    by (simp_all add: demo_codec_def)
  have "(8 :: rat) < (\<lambda>_. 7) i + expires (revoked ?w)" for i :: nat by (simp add: e)
  from revoked_survive_restart [OF inv codec boot this, of 1] show ?thesis by (fastforce simp: e)
qed

text \<open>
  \<open>merge_revoked\<close> drops foreign stamps. After ids received from another worker or read from
  disk are merged, every entry of the revoked set is an entry that was there before or one of
  those ids stamped with a reading of the local clock, and the set is within its maximum size;
  the merge never raises.
\<close>

theorem merge_revoked_local_stamps:
  assumes "ls_inv (revoked w)" and "0 \<le> maxlen (revoked w)" and "bounded (revoked w)"
  shows "\<exists>w'. merge_revoked clk ids w = Inr w' \<and> w' = w\<lparr>revoked := revoked w'\<rparr> \<and> bounded (revoked w')
    \<and> (\<forall>(k, e) \<in> set (ls_data (revoked w')). (k, e) \<in> set (ls_data (revoked w))
         \<or> k \<in> set ids \<and> (\<exists>i. inserted e = clk i))"
proof (cases "ids = []")
  case True
  then show ?thesis using assms(3) by (auto simp: merge_revoked_def)
next
  case False
  obtain t where "update_iter clk ids (revoked w) = Inr t" "bounded t"
    using update_iter_spec [OF assms] by blast
  then show ?thesis using False update_iter_stamps [OF assms(1,2) _, of clk ids t] assms(3) by (auto simp: merge_revoked_def bounded_def)
qed

theorem merge_revoked_local_stamps_witness:
  "\<exists>w'. merge_revoked (\<lambda>i. of_nat i) [''a'', ''b''] (new_state 1 5 10 5) = Inr w' \<and> bounded (revoked w')"
proof -
  have "ls_inv (revoked (new_state 1 5 10 5))" "0 \<le> maxlen (revoked (new_state 1 5 10 5))" "bounded (revoked (new_state 1 5 10 5))"
    by (simp_all add: new_state_def empty_set_def ls_inv_def covered_def bounded_def within_maxlen_def lean_def stale_def ls_len_def)
  from merge_revoked_local_stamps [OF this] show ?thesis by blast
qed

end
