(* ===== verification/Request.thy ===== *)
theory Request
  imports Worker_State
begin

text \<open>
  \<open>celery.worker.request.Request\<close>: what the worker does with one delivered message. The state is
  the request object together with the worker's global tables and the trace of the effects the
  request had on the outside (acknowledgements to the broker, events, calls on the result backend,
  signals, hooks of the task, calls on the pool). A handler is a state transformer that returns a
  value or raises; the state after a raise is kept. Calls on the result backend and on the broker's
  channel do not raise, and logging is left out. The current time, the
  outcome of user hooks, kombu's \<open>maybe_list\<close> and billiard's \<open>human_status\<close> are parameters in \<open>renv\<close>.
\<close>

section \<open>State\<close>

datatype exit_code = NoCode | IntCode int | OtherCode

datatype exc =
    Terminated string
  | SystemExit exit_code
  | KeyboardInterrupt
  | MemoryErr
  | Reject bool
  | Ignore
  | Retry
  | WorkerLostError string
  | TimeLimitExceeded rat
  | OtherExc string
  | WithTraceback exc

fun unwrap :: "exc \<Rightarrow> exc" where
  "unwrap (WithTraceback e) = e"
| "unwrap e = e"

datatype rexc = Raise exc | TaskRevokedError | RExn exn

record task_opts =
  acks_late :: bool
  acks_on_timeout :: bool
  acks_on_failure :: bool
  reject_on_worker_lost :: bool
  send_events :: bool
  store_errors_even_if_ignored :: bool
  has_after_return :: bool
  time_limit :: "rat option"
  soft_time_limit :: "rat option"

datatype reffect =
    Ack
  | RejectMsg bool
  | Event string
  | MarkFailure exc bool
  | MarkRevoked string bool
  | MarkRetry
  | SigFailure exc
  | SigRevoked bool "string option" bool
  | SigRetry
  | Hook string
  | TerminateJob "nat option" string
  | ResultTerminate string
  | ApplyAsync "rat option" "rat option"

record rst =
  ident :: wreq
  task :: task_opts
  acknowledged :: bool
  time_start :: "rat option"
  worker_pid :: "nat option"
  time_limits :: "rat option \<times> rat option"
  already_revoked :: bool
  already_cancelled :: bool
  terminate_on_ack :: "string option"
  apply_result :: "bool option"
  req_expires :: "rat option"
  stamped_headers :: "string list"
  msg_stamps :: "(string, hval) dict"
  ignore_result :: bool
  eventer_enabled :: bool
  glob :: worker_state
  trace :: "reffect list"

record renv =
  now :: rat
  hook_raises :: "string \<Rightarrow> exc option"
  maybe_list :: "hval \<Rightarrow> hval list"
  human_status :: "int \<Rightarrow> string"

type_synonym 'a rm = "rst \<Rightarrow> (rexc + 'a) \<times> rst"

definition ret :: "'a \<Rightarrow> 'a rm" where
  "ret x st = (Inr x, st)"

definition rbind :: "'a rm \<Rightarrow> ('a \<Rightarrow> 'b rm) \<Rightarrow> 'b rm" where
  "rbind m f st = (case m st of (Inl e, st') \<Rightarrow> (Inl e, st') | (Inr x, st') \<Rightarrow> f x st')"

definition rseq :: "unit rm \<Rightarrow> 'b rm \<Rightarrow> 'b rm" where
  "rseq m k = rbind m (\<lambda>_. k)"

definition upd :: "(rst \<Rightarrow> rst) \<Rightarrow> unit rm" where
  "upd f st = (Inr (), f st)"

definition raise :: "rexc \<Rightarrow> 'a rm" where
  "raise e st = (Inl e, st)"

definition emit :: "reffect \<Rightarrow> rst \<Rightarrow> rst" where
  "emit e st = st\<lparr>trace := trace st @ [e]\<rparr>"

definition call_hook :: "renv \<Rightarrow> string \<Rightarrow> unit rm" where
  "call_hook env name st = (case hook_raises env name of
     None \<Rightarrow> (Inr (), emit (Hook name) st) | Some e \<Rightarrow> (Inl (Raise e), emit (Hook name) st))"

section \<open>Message acknowledgement and events\<close>

definition send_event :: "string \<Rightarrow> rst \<Rightarrow> rst" where
  "send_event ty st = (if eventer_enabled st \<and> send_events (task st) then emit (Event ty) st else st)"

definition store_errors :: "rst \<Rightarrow> bool" where
  "store_errors st \<longleftrightarrow> \<not> ignore_result st \<or> store_errors_even_if_ignored (task st)"

definition acknowledge :: "rst \<Rightarrow> rst" where
  "acknowledge st = (if acknowledged st then st else (emit Ack st)\<lparr>acknowledged := True\<rparr>)"

definition reject :: "bool \<Rightarrow> rst \<Rightarrow> rst" where
  "reject requeue st =
     (if acknowledged st then st
      else send_event ''task-rejected'' ((emit (RejectMsg requeue) st)\<lparr>acknowledged := True\<rparr>))"

text \<open>\<open>task_ready\<close> of the global state; without \<open>successful\<close> it cannot raise.\<close>

definition ready :: "renv \<Rightarrow> bool \<Rightarrow> unit rm" where
  "ready env successful st = (case task_ready (now env) (now env) (ident st) successful (glob st) of
     Inl e \<Rightarrow> (Inl (RExn e), st) | Inr w \<Rightarrow> (Inr (), st\<lparr>glob := w\<rparr>))"

definition announce_cancelled :: "renv \<Rightarrow> bool \<Rightarrow> unit rm" where
  "announce_cancelled env emit_retry =
     rseq (ready env False) (
     rseq (upd (send_event ''task-cancelled'')) (
     rseq (if emit_retry then rseq (upd (emit MarkRetry)) (call_hook env ''on_retry'') else ret ()) (
     rseq (upd (\<lambda>st. st\<lparr>already_cancelled := True\<rparr>))
          (if emit_retry then upd (emit SigRetry) else ret ()))))"

definition announce_revoked :: "renv \<Rightarrow> string \<Rightarrow> bool \<Rightarrow> string option \<Rightarrow> bool \<Rightarrow> unit rm" where
  "announce_revoked env reason trm signum expired =
     rseq (ready env False) (
     rseq (upd (send_event ''task-revoked'')) (
     rseq (upd (\<lambda>st. emit (MarkRevoked reason (store_errors st)) st)) (
     rseq (upd acknowledge) (
     rseq (upd (\<lambda>st. st\<lparr>already_revoked := True\<rparr>))
          (upd (emit (SigRevoked trm signum expired)))))))"

section \<open>Revocation\<close>

definition maybe_expire :: "renv \<Rightarrow> bool rm" where
  "maybe_expire env st = (case req_expires st of
     None \<Rightarrow> (Inr False, st)
   | Some ex \<Rightarrow>
       if ex < now env
       then (case add (now env) (now env) (rq_id (ident st)) None (revoked (glob st)) of
               Inl e \<Rightarrow> (Inl (RExn e), st)
             | Inr s \<Rightarrow> (Inr True, st\<lparr>glob := (glob st)\<lparr>revoked := s\<rparr>\<rparr>))
       else (Inr False, st))"

fun revoked_by_stamps :: "(hval \<Rightarrow> hval list) \<Rightarrow> (string, hval) dict \<Rightarrow> (string, hval) dict \<Rightarrow> string list \<Rightarrow> bool result" where
  "revoked_by_stamps ml revs stamps [] = Inr False"
| "revoked_by_stamps ml revs stamps (stamp # rest) =
     (case dict_get revs stamp of
        None \<Rightarrow> revoked_by_stamps ml revs stamps rest
      | Some revoked_header \<Rightarrow>
          (case dict_get stamps stamp of
             None \<Rightarrow> Inl KeyError
           | Some (HList vs) \<Rightarrow> Inr (\<exists>v \<in> set vs. v \<in> set (ml revoked_header))
           | Some h \<Rightarrow> Inr (h \<in> set (ml revoked_header) \<or> h = revoked_header)))"

definition is_revoked :: "renv \<Rightarrow> bool rm" where
  "is_revoked env st =
     (if already_revoked st then (Inr True, st)
      else rbind (maybe_expire env) (\<lambda>expired st.
        let by_id = ls_contains (rq_id (ident st)) (revoked (glob st))
        in case (if by_id \<or> stamped_headers st = [] then Inr False
                 else revoked_by_stamps (maybe_list env) (revoked_stamps (glob st)) (msg_stamps st) (stamped_headers st)) of
             Inl e \<Rightarrow> (Inl (RExn e), st)
           | Inr by_header \<Rightarrow>
               if expired \<or> by_id \<or> by_header
               then rseq (announce_revoked env (if expired then ''expired'' else ''revoked'') False None expired) (ret True) st
               else (Inr False, st)) st)"

section \<open>Execution\<close>

definition or_limit :: "rat option \<Rightarrow> rat option \<Rightarrow> rat option" where
  "or_limit a b = (case a of None \<Rightarrow> b | Some x \<Rightarrow> if x = 0 then b else Some x)"

text \<open>\<open>pool_result\<close> is what \<open>apply_async\<close> of the pool returns: nothing, or a result that is alive or not later on.\<close>

definition execute_using_pool :: "renv \<Rightarrow> bool option \<Rightarrow> unit rm" where
  "execute_using_pool env pool_result =
     rbind (is_revoked env) (\<lambda>rev.
       if rev then raise TaskRevokedError
       else upd (\<lambda>st. (emit (ApplyAsync (or_limit (snd (time_limits st)) (soft_time_limit (task st)))
                                     (or_limit (fst (time_limits st)) (time_limit (task st)))) st)
                      \<lparr>apply_result := pool_result\<rparr>))"

definition execute :: "renv \<Rightarrow> bool \<Rightarrow> unit rm" where
  "execute env I =
     rbind (is_revoked env) (\<lambda>rev.
       if rev then ret ()
       else rseq (upd (\<lambda>st. if acks_late (task st) then st else acknowledge st))
                 (upd (if I then reject False else acknowledge)))"

definition terminate_result :: "string \<Rightarrow> rst \<Rightarrow> rst" where
  "terminate_result sig st = (if apply_result st = Some True then emit (ResultTerminate sig) st else st)"

definition started :: "rst \<Rightarrow> bool" where
  "started st \<longleftrightarrow> (case time_start st of None \<Rightarrow> False | Some t \<Rightarrow> t \<noteq> 0)"

definition terminate :: "renv \<Rightarrow> string \<Rightarrow> unit rm" where
  "terminate env sig =
     rseq (\<lambda>st. if started st
                then rseq (upd (emit (TerminateJob (worker_pid st) sig))) (announce_revoked env ''terminated'' True (Some sig) False) st
                else (Inr (), st\<lparr>terminate_on_ack := Some sig\<rparr>))
       (upd (terminate_result sig))"

definition cancel :: "renv \<Rightarrow> string \<Rightarrow> bool \<Rightarrow> unit rm" where
  "cancel env sig emit_retry =
     rseq (\<lambda>st. if started st
                then rseq (upd (emit (TerminateJob (worker_pid st) sig))) (announce_cancelled env emit_retry) st
                else (Inr (), st))
       (upd (terminate_result sig))"

definition on_accepted :: "renv \<Rightarrow> nat \<Rightarrow> rat \<Rightarrow> unit rm" where
  "on_accepted env pid t =
     rseq (upd (\<lambda>st. st\<lparr>worker_pid := Some pid, time_start := Some t\<rparr>)) (
     rseq (upd (\<lambda>st. st\<lparr>glob := task_accepted (ident st) (glob st)\<rparr>)) (
     rseq (upd (\<lambda>st. if acks_late (task st) then st else acknowledge st)) (
     rseq (upd (send_event ''task-started''))
          (\<lambda>st. case terminate_on_ack st of None \<Rightarrow> (Inr (), st) | Some sig \<Rightarrow> terminate env sig st))))"

definition terminating :: "rst \<Rightarrow> bool" where
  "terminating st \<longleftrightarrow> (case should_terminate (glob st) of FCode c \<Rightarrow> c \<noteq> 0 | _ \<Rightarrow> False)"

definition fail_hooks :: "renv \<Rightarrow> exc \<Rightarrow> unit rm" where
  "fail_hooks env e =
     rseq (call_hook env ''on_failure'') (
     rseq (\<lambda>st. if has_after_return (task st) then call_hook env ''after_return'' st else (Inr (), st)) (
     rseq (upd (emit (SigFailure e)))
          (upd (send_event ''task-failed''))))"

definition on_timeout :: "renv \<Rightarrow> bool \<Rightarrow> rat \<Rightarrow> unit rm" where
  "on_timeout env soft timeout =
     (if soft then ret ()
      else rseq (ready env False) (
           rseq (\<lambda>st. if terminating st then (Inr (), st)
                      else rseq (upd (emit (MarkFailure (TimeLimitExceeded timeout) (store_errors st))))
                                (fail_hooks env (TimeLimitExceeded timeout)) st)
                (upd (\<lambda>st. if acks_late (task st)
                           then if acks_on_timeout (task st) then acknowledge st else reject True st
                           else st))))"

definition on_retry :: "rst \<Rightarrow> rst" where
  "on_retry st = send_event ''task-retried'' (if acks_late (task st) then acknowledge st else st)"

fun worker_lost_info :: "renv \<Rightarrow> exc \<Rightarrow> exc" where
  "worker_lost_info env (SystemExit code) = WorkerLostError (''Worker exited prematurely: ''
     @ human_status env (case code of NoCode \<Rightarrow> 0 | IntCode c \<Rightarrow> c | OtherCode \<Rightarrow> 1) @ ''.'')"
| "worker_lost_info env e = WorkerLostError ''Worker exited prematurely: KeyboardInterrupt.''"

definition is_worker_lost :: "exc \<Rightarrow> bool" where
  "is_worker_lost e = (case e of WorkerLostError _ \<Rightarrow> True | _ \<Rightarrow> False)"

definition is_timeout :: "exc \<Rightarrow> bool" where
  "is_timeout e = (case e of TimeLimitExceeded _ \<Rightarrow> True | _ \<Rightarrow> False)"

text \<open>The acknowledgement of a failed \<open>acks_late\<close> task: whether it is put back on the queue, and the state.\<close>

definition ack_failed :: "exc \<Rightarrow> rst \<Rightarrow> bool \<times> rst" where
  "ack_failed e st =
     (if \<not> acks_late (task st) then (False, st)
      else let ack_flag = (if is_timeout e then acks_on_timeout (task st) else acks_on_failure (task st))
           in if (reject_on_worker_lost (task st) \<and> is_worker_lost e) \<or> (is_timeout e \<and> \<not> ack_flag)
              then (True, reject True st)
              else if ack_flag then (False, acknowledge st)
              else (False, reject False st))"

definition report_failure :: "bool \<Rightarrow> bool \<Rightarrow> exc \<Rightarrow> rst \<Rightarrow> rst" where
  "report_failure send_failed_event return_ok e st =
     (case ack_failed e st of (requeue, st) \<Rightarrow>
      let return_ok = (return_ok \<or> terminating st);
          send_failed = (send_failed_event \<and> \<not> requeue \<and> \<not> terminating st);
          st = (if \<not> requeue \<and> (is_worker_lost e \<or> \<not> return_ok)
                then emit (SigFailure e) (emit (MarkFailure e (store_errors st)) st) else st)
      in if send_failed then send_event ''task-failed'' st else st)"

definition reject_failure :: "bool \<Rightarrow> bool \<Rightarrow> rst \<Rightarrow> rst" where
  "reject_failure send_failed_event requeue st =
     reject requeue
       (if requeue then st
        else let st = emit (SigFailure (Reject requeue)) (emit (MarkFailure (Reject requeue) (store_errors st)) st)
             in if send_failed_event then send_event ''task-failed'' st else st)"

definition dispatch_failure :: "renv \<Rightarrow> exc \<Rightarrow> bool \<Rightarrow> bool \<Rightarrow> unit rm" where
  "dispatch_failure env exc0 send_failed_event return_ok st =
     (case unwrap exc0 of
         Terminated s \<Rightarrow>
           if \<not> already_cancelled st \<and> \<not> already_revoked st
           then announce_revoked env ''terminated'' True (Some s) False st else (Inr (), st)
       | SystemExit c \<Rightarrow>
           if already_cancelled st \<or> already_revoked st then (Inr (), st)
           else (Inr (), report_failure send_failed_event return_ok (worker_lost_info env (SystemExit c)) st)
       | KeyboardInterrupt \<Rightarrow>
           if already_cancelled st \<or> already_revoked st then (Inr (), st)
           else (Inr (), report_failure send_failed_event return_ok (worker_lost_info env KeyboardInterrupt) st)
       | MemoryErr \<Rightarrow> (Inl (Raise MemoryErr), st)
       | Reject requeue \<Rightarrow> (Inr (), reject_failure send_failed_event requeue st)
       | Ignore \<Rightarrow> (Inr (), acknowledge st)
       | Retry \<Rightarrow> (Inr (), on_retry st)
       | e \<Rightarrow> (Inr (), report_failure send_failed_event return_ok e st))"

definition on_failure :: "renv \<Rightarrow> exc \<Rightarrow> bool \<Rightarrow> bool \<Rightarrow> unit rm" where
  "on_failure env exc0 send_failed_event return_ok =
     rseq (ready env False) (dispatch_failure env exc0 send_failed_event return_ok)"

definition on_success :: "renv \<Rightarrow> exc option \<Rightarrow> unit rm" where
  "on_success env failed = (case failed of
     Some e \<Rightarrow> (case unwrap e of
         SystemExit c \<Rightarrow> raise (Raise (SystemExit c))
       | KeyboardInterrupt \<Rightarrow> raise (Raise KeyboardInterrupt)
       | _ \<Rightarrow> on_failure env e True True)
   | None \<Rightarrow>
       rseq (ready env True) (
       rseq (upd (\<lambda>st. if acks_late (task st) then acknowledge st else st))
            (upd (send_event ''task-succeeded''))))"

text \<open>
  \<open>create_request_cls\<close> builds a subclass with the task's limits, its \<open>acks_late\<close> flag and the
  state of the event dispatcher captured when the class is made.
\<close>

record captured =
  cap_time_limit :: "rat option"
  cap_soft_time_limit :: "rat option"
  cap_acks_late :: bool
  cap_events :: bool

definition create_request_cls :: "task_opts \<Rightarrow> bool \<Rightarrow> captured" where
  "create_request_cls t events = \<lparr>cap_time_limit = time_limit t, cap_soft_time_limit = soft_time_limit t,
     cap_acks_late = acks_late t, cap_events = events\<rparr>"

definition fast_execute_using_pool :: "captured \<Rightarrow> renv \<Rightarrow> bool option \<Rightarrow> unit rm" where
  "fast_execute_using_pool c env pool_result =
     rbind (is_revoked env) (\<lambda>rev.
       if rev then raise TaskRevokedError
       else upd (\<lambda>st. (emit (ApplyAsync (or_limit (snd (time_limits st)) (cap_soft_time_limit c))
                                     (or_limit (fst (time_limits st)) (cap_time_limit c))) st)
                      \<lparr>apply_result := pool_result\<rparr>))"

definition fast_on_success :: "captured \<Rightarrow> renv \<Rightarrow> exc option \<Rightarrow> unit rm" where
  "fast_on_success c env failed = (case failed of
     Some e \<Rightarrow> (case unwrap e of
         SystemExit code \<Rightarrow> raise (Raise (SystemExit code))
       | KeyboardInterrupt \<Rightarrow> raise (Raise KeyboardInterrupt)
       | _ \<Rightarrow> on_failure env e True True)
   | None \<Rightarrow>
       rseq (ready env True) (
       rseq (upd (\<lambda>st. if cap_acks_late c then acknowledge st else st))
            (upd (\<lambda>st. if cap_events c then send_event ''task-succeeded'' st else st))))"

section \<open>Sequences of handler calls\<close>

datatype rcall =
    CExecutePool "bool option"
  | CExecute bool
  | CRevoked
  | CTerminate string
  | CCancel string bool
  | CAccepted nat rat
  | CTimeout bool rat
  | CSuccess "exc option"
  | CFailure exc bool bool
  | CAcknowledge
  | CReject bool

fun rexec :: "renv \<Rightarrow> rcall \<Rightarrow> rst \<Rightarrow> rst" where
  "rexec env (CExecutePool p) st = snd (execute_using_pool env p st)"
| "rexec env (CExecute I) st = snd (execute env I st)"
| "rexec env CRevoked st = snd (is_revoked env st)"
| "rexec env (CTerminate sig) st = snd (terminate env sig st)"
| "rexec env (CCancel sig er) st = snd (cancel env sig er st)"
| "rexec env (CAccepted pid t) st = snd (on_accepted env pid t st)"
| "rexec env (CTimeout soft t) st = snd (on_timeout env soft t st)"
| "rexec env (CSuccess f) st = snd (on_success env f st)"
| "rexec env (CFailure e sf ok) st = snd (on_failure env e sf ok st)"
| "rexec env CAcknowledge st = acknowledge st"
| "rexec env (CReject rq) st = reject rq st"

definition is_settle :: "reffect \<Rightarrow> bool" where
  "is_settle e = (case e of Ack \<Rightarrow> True | RejectMsg _ \<Rightarrow> True | _ \<Rightarrow> False)"

text \<open>
  Interface: a property of the request that survives the elementary effects survives every
  handler. The elementary effects are the emission of anything but an acknowledgement or
  rejection, the two guarded settlements, and assignments to the other fields.
\<close>

definition keeps :: "(rst \<Rightarrow> bool) \<Rightarrow> 'a rm \<Rightarrow> bool" where
  "keeps P m \<longleftrightarrow> (\<forall>st. P st \<longrightarrow> P (snd (m st)))"

lemma keeps_combinators:
  "keeps P (ret x)" "keeps P (raise e)" "(\<And>st. P st \<Longrightarrow> P (f st)) \<Longrightarrow> keeps P (upd f)"
  by (auto simp: keeps_def ret_def raise_def upd_def)

lemma keeps_rbind: "keeps P m \<Longrightarrow> (\<And>x. keeps P (f x)) \<Longrightarrow> keeps P (rbind m f)"
  by (auto simp: keeps_def rbind_def split: prod.split sum.split)

lemma keeps_rseq: "keeps P m \<Longrightarrow> keeps P k \<Longrightarrow> keeps P (rseq m k)"
  by (simp add: rseq_def keeps_rbind)

lemma keepsI: "(\<And>st. P st \<Longrightarrow> P (snd (m st))) \<Longrightarrow> keeps P m"
  by (simp add: keeps_def)

lemma keepsD: "keeps P m \<Longrightarrow> P st \<Longrightarrow> P (snd (m st))"
  by (simp add: keeps_def)

locale request_invariant =
  fixes P :: "rst \<Rightarrow> bool"
  assumes P_emit: "P st \<Longrightarrow> \<not> is_settle e \<Longrightarrow> P (emit e st)"
    and P_ack: "P st \<Longrightarrow> \<not> acknowledged st \<Longrightarrow> is_settle e \<Longrightarrow> P ((emit e st)\<lparr>acknowledged := True\<rparr>)"
    and P_glob: "P st \<Longrightarrow> P (st\<lparr>glob := g\<rparr>)"
    and P_revoked: "P st \<Longrightarrow> P (st\<lparr>already_revoked := b\<rparr>)"
    and P_cancelled: "P st \<Longrightarrow> P (st\<lparr>already_cancelled := b\<rparr>)"
    and P_term: "P st \<Longrightarrow> P (st\<lparr>terminate_on_ack := sig\<rparr>)"
    and P_result: "P st \<Longrightarrow> P (st\<lparr>apply_result := r\<rparr>)"
    and P_started: "P st \<Longrightarrow> P (st\<lparr>worker_pid := p, time_start := t\<rparr>)"
begin

lemma P_event: "P st \<Longrightarrow> P (send_event ty st)"
  by (simp add: send_event_def P_emit is_settle_def)

lemma P_acknowledge: "P st \<Longrightarrow> P (acknowledge st)"
  by (simp add: acknowledge_def P_ack is_settle_def)

lemma P_reject: "P st \<Longrightarrow> P (reject rq st)"
  by (simp add: reject_def P_ack P_event is_settle_def)

lemmas P_simple = P_event P_acknowledge P_reject P_emit P_glob P_revoked P_cancelled P_term P_result P_started

lemma keeps_ready: "keeps P (ready env b)"
  by (auto simp: keeps_def ready_def P_glob split: sum.split)

lemma keeps_hook: "keeps P (call_hook env h)"
  by (auto simp: keeps_def call_hook_def is_settle_def intro!: P_emit split: option.split)

lemmas keeps_rules = keeps_combinators keeps_rseq keeps_rbind keeps_ready keeps_hook

lemma keeps_announce_revoked: "keeps P (announce_revoked env r t s x)"
  unfolding announce_revoked_def by (intro keeps_rules P_simple) (auto simp: is_settle_def)

lemma keeps_announce_cancelled: "keeps P (announce_cancelled env er)"
  unfolding announce_cancelled_def by (cases er) (auto intro!: keeps_rules P_simple simp: is_settle_def)

lemma keeps_maybe_expire: "keeps P (maybe_expire env)"
  by (auto simp: keeps_def maybe_expire_def P_glob split: option.split sum.split)

lemma keeps_is_revoked: "keeps P (is_revoked env)"
proof (rule keepsI)
  fix st
  assume P: "P st"
  have step: "P (snd (rbind (maybe_expire env) f st))" if "\<And>x st. P st \<Longrightarrow> P (snd (f x st))" for f :: "bool \<Rightarrow> bool rm"
    using keeps_rbind [OF keeps_maybe_expire, of f] that P by (simp add: keeps_def)
  have ann: "P st \<Longrightarrow> P (snd (rseq (announce_revoked env r t s x) (ret True) st))" for r t s x st
    by (rule keepsD) (intro keeps_rseq keeps_announce_revoked keeps_combinators(1))
  show "P (snd (is_revoked env st))"
    unfolding is_revoked_def by (auto simp: P Let_def intro!: step ann split: sum.split)
qed

lemma keeps_terminate: "keeps P (terminate env sig)"
proof -
  have ann: "keeps P (rseq (upd (emit (TerminateJob p sig))) (announce_revoked env r t s x))" for p r t s x
    by (intro keeps_rseq keeps_combinators(3) keeps_announce_revoked P_emit) (auto simp: is_settle_def)
  show ?thesis
    unfolding terminate_def
    by (rule keeps_rseq, rule keepsI)
      (auto simp: P_term terminate_result_def is_settle_def intro!: keepsD [OF ann] keeps_combinators(3) P_emit)
qed

lemma keeps_cancel: "keeps P (cancel env sig er)"
proof -
  have ann: "keeps P (rseq (upd (emit (TerminateJob p sig))) (announce_cancelled env er))" for p
    by (intro keeps_rseq keeps_combinators(3) keeps_announce_cancelled P_emit) (auto simp: is_settle_def)
  show ?thesis
    unfolding cancel_def
    by (rule keeps_rseq, rule keepsI)
      (auto simp: terminate_result_def is_settle_def intro!: keepsD [OF ann] keeps_combinators(3) P_emit)
qed

lemma keeps_on_accepted: "keeps P (on_accepted env pid t)"
proof -
  have last: "keeps P (\<lambda>st. case terminate_on_ack st of None \<Rightarrow> (Inr (), st) | Some sig \<Rightarrow> terminate env sig st)"
    by (rule keepsI) (auto intro: keepsD [OF keeps_terminate] split: option.split)
  show ?thesis unfolding on_accepted_def by (intro keeps_rseq keeps_combinators(3) last) (auto intro: P_simple)
qed

lemma keeps_fail_hooks: "keeps P (fail_hooks env e)"
proof -
  have "keeps P (\<lambda>st. if has_after_return (task st) then call_hook env ''after_return'' st else (Inr (), st))"
    by (rule keepsI) (auto intro: keepsD [OF keeps_hook])
  then show ?thesis
    unfolding fail_hooks_def by (intro keeps_rseq keeps_hook keeps_combinators(3)) (auto intro: P_simple simp: is_settle_def)
qed

lemma keeps_on_timeout: "keeps P (on_timeout env soft t)"
proof -
  have "keeps P (rseq (upd (emit (MarkFailure e b))) (fail_hooks env e))" for e b
    by (intro keeps_rseq keeps_fail_hooks keeps_combinators(3) P_emit) (auto simp: is_settle_def)
  then have mid: "keeps P (\<lambda>st. if terminating st then (Inr (), st)
      else rseq (upd (emit (MarkFailure (TimeLimitExceeded t) (store_errors st)))) (fail_hooks env (TimeLimitExceeded t)) st)"
    by (intro keepsI) (auto dest: keepsD)
  show ?thesis unfolding on_timeout_def
    by (auto intro!: keeps_rseq keeps_ready mid keeps_combinators P_simple)
qed

lemma P_ack_failed: "P st \<Longrightarrow> P (snd (ack_failed e st))"
  by (auto simp: ack_failed_def Let_def intro: P_acknowledge P_reject)

lemma P_report: "P st \<Longrightarrow> P (emit (SigFailure e) (emit (MarkFailure e x) st))"
  by (auto intro!: P_emit simp: is_settle_def)

lemma P_report_failure: "P st \<Longrightarrow> P (report_failure sf ok e st)"
  using P_ack_failed [of st e]
  by (auto simp: report_failure_def Let_def split: prod.split intro!: P_report P_event)

lemma keeps_on_failure: "keeps P (on_failure env e sf ok)"
  unfolding on_failure_def
  by (rule keeps_rseq [OF keeps_ready], rule keepsI)
    (auto simp: dispatch_failure_def reject_failure_def on_retry_def is_settle_def Let_def
      intro!: P_report_failure P_simple keepsD [OF keeps_announce_revoked] split: exc.split)

lemma keeps_on_success: "keeps P (on_success env f)"
  by (auto simp: on_success_def intro!: keeps_rules keeps_on_failure P_simple split: option.split exc.split)

lemma rexec_keeps: "P st \<Longrightarrow> P (rexec env c st)"
proof (cases c)
  case (CExecutePool p)
  have "keeps P (execute_using_pool env p)"
    unfolding execute_using_pool_def
    by (rule keeps_rbind [OF keeps_is_revoked]) (auto simp: is_settle_def intro!: keeps_combinators P_simple)
  then show "P st \<Longrightarrow> ?thesis" using CExecutePool by (auto intro: keepsD)
next
  case (CExecute I)
  have "keeps P (execute env I)"
    unfolding execute_def by (rule keeps_rbind [OF keeps_is_revoked]) (auto intro!: keeps_rseq keeps_combinators P_simple)
  then show "P st \<Longrightarrow> ?thesis" using CExecute by (auto intro: keepsD)
qed (auto intro: keepsD [OF keeps_is_revoked] keepsD [OF keeps_terminate] keepsD [OF keeps_cancel] keepsD [OF keeps_on_accepted]
    keepsD [OF keeps_on_timeout] keepsD [OF keeps_on_success] keepsD [OF keeps_on_failure] P_acknowledge P_reject)

end

section \<open>Interpretations\<close>

definition settlements :: "rst \<Rightarrow> nat" where
  "settlements st = length (filter is_settle (trace st))"

definition settled_once :: "rst \<Rightarrow> bool" where
  "settled_once st \<longleftrightarrow> settlements st = (if acknowledged st then 1 else 0)"

lemma settlements_emit [simp]: "settlements (emit e st) = settlements st + (if is_settle e then 1 else 0)"
  by (simp add: settlements_def emit_def)

lemma emit_fields [simp]:
  "acknowledged (emit e st) = acknowledged st" "task (emit e st) = task st" "glob (emit e st) = glob st"
  "ident (emit e st) = ident st" "trace (emit e st) = trace st @ [e]"
  by (simp_all add: emit_def)

interpretation settle: request_invariant settled_once
  by unfold_locales (auto simp: settled_once_def settlements_def emit_def)

text \<open>A second instance: the trace only grows, and the request keeps its identity and its task.\<close>

definition continues :: "rst \<Rightarrow> rst \<Rightarrow> bool" where
  "continues st0 st \<longleftrightarrow> (\<exists>new. trace st = trace st0 @ new) \<and> ident st = ident st0 \<and> task st = task st0
     \<and> (acknowledged st0 \<longrightarrow> acknowledged st)"

interpretation continue: request_invariant "continues st0" for st0
  by unfold_locales (auto simp: continues_def emit_def)

definition rq_start :: "rst \<Rightarrow> bool" where
  "rq_start st \<longleftrightarrow> \<not> acknowledged st \<and> trace st = []"

definition rq_step :: "rst \<Rightarrow> renv \<times> rcall \<Rightarrow> rst \<Rightarrow> bool" where
  "rq_step st c st' \<longleftrightarrow> st' = rexec (fst c) (snd c) st"

interpretation requests: invariant_system rq_start rq_step settled_once
proof unfold_locales
  show "rq_start st \<Longrightarrow> settled_once st" for st by (simp add: rq_start_def settled_once_def settlements_def)
  show "settled_once st \<Longrightarrow> rq_step st c st' \<Longrightarrow> settled_once st'" for st c st'
    by (simp add: rq_step_def settle.rexec_keeps)
qed

section \<open>Behaviour of the handlers\<close>

lemma rseq_upd [simp]: "rseq (upd f) k st = k (f st)"
  by (simp add: rseq_def rbind_def upd_def)

lemma rseq_ret [simp]: "rseq (ret ()) k = k"
  by (rule ext) (simp add: rseq_def rbind_def ret_def)

lemma ready_False: "ready env False st = (Inr (), st\<lparr>glob := (glob st)\<lparr>requests := dict_del (rq_id (ident st)) (requests (glob st)),
    active_requests := active_requests (glob st) - {ident st}, reserved_requests := reserved_requests (glob st) - {ident st},
    scheduled_requests := scheduled_requests (glob st) - {ident st}\<rparr>\<rparr>)"
  by (simp add: ready_def task_ready_def)

lemma rseq_ready: "rseq (ready env False) k st = k (snd (ready env False st))"
  by (simp add: rseq_def rbind_def ready_False)

lemma ready_fields [simp]:
  "trace (snd (ready env False st)) = trace st" "acknowledged (snd (ready env False st)) = acknowledged st"
  "task (snd (ready env False st)) = task st" "ident (snd (ready env False st)) = ident st"
  "should_terminate (glob (snd (ready env False st))) = should_terminate (glob st)"
  "ident st \<notin> tracked (glob (snd (ready env False st)))"
  "already_revoked (snd (ready env False st)) = already_revoked st"
  by (simp_all add: ready_False tracked_def)

lemma send_event_fields [simp]:
  "acknowledged (send_event ty st) = acknowledged st" "task (send_event ty st) = task st" "glob (send_event ty st) = glob st"
  "ident (send_event ty st) = ident st" "already_revoked (send_event ty st) = already_revoked st"
  by (simp_all add: send_event_def emit_def)

lemma trace_send_event: "\<exists>ev. trace (send_event ty st) = trace st @ ev \<and> set ev \<subseteq> {Event ty}"
  by (auto simp: send_event_def)

lemma acknowledge_fields [simp]:
  "acknowledged (acknowledge st)" "task (acknowledge st) = task st" "glob (acknowledge st) = glob st" "ident (acknowledge st) = ident st"
  "already_revoked (acknowledge st) = already_revoked st"
  by (simp_all add: acknowledge_def emit_def)

lemma reject_fields [simp]:
  "acknowledged (reject rq st)" "task (reject rq st) = task st" "glob (reject rq st) = glob st" "ident (reject rq st) = ident st"
  by (simp_all add: reject_def)

definition new_effects :: "rst \<Rightarrow> rst \<Rightarrow> reffect set" where
  "new_effects st st' = set (drop (length (trace st)) (trace st'))"

lemma new_effects_append: "trace st' = trace st @ new \<Longrightarrow> new_effects st st' = set new"
  by (simp add: new_effects_def)

lemma trace_reject: "\<not> acknowledged st \<Longrightarrow> \<exists>ev. trace (reject rq st) = trace st @ RejectMsg rq # ev \<and> set ev \<subseteq> {Event ''task-rejected''}"
  using trace_send_event [of "''task-rejected''" "(emit (RejectMsg rq) st)\<lparr>acknowledged := True\<rparr>"] by (auto simp: reject_def)

lemma trace_acknowledge: "trace (acknowledge st) = trace st @ (if acknowledged st then [] else [Ack])"
  by (simp add: acknowledge_def)

lemma announce_revoked_spec:
  "\<exists>st' new. announce_revoked env r t s x st = (Inr (), st') \<and> trace st' = trace st @ new \<and> (\<exists>b. MarkRevoked r b \<in> set new)
    \<and> (\<forall>a b. ApplyAsync a b \<notin> set new) \<and> acknowledged st' \<and> already_revoked st' \<and> ident st \<notin> tracked (glob st')"
proof -
  define st1 where "st1 = send_event ''task-revoked'' (snd (ready env False st))"
  obtain ev where ev: "trace st1 = trace st @ ev" "set ev \<subseteq> {Event ''task-revoked''}"
    using trace_send_event [of "''task-revoked''" "snd (ready env False st)"] by (auto simp: st1_def)
  define st2 where "st2 = acknowledge (emit (MarkRevoked r (store_errors st1)) st1)"
  have tr: "trace st2 = trace st @ ev @ MarkRevoked r (store_errors st1) # (if acknowledged st then [] else [Ack])"
    by (simp add: st2_def trace_acknowledge ev) (simp add: st1_def)
  have "announce_revoked env r t s x st = (Inr (), emit (SigRevoked t s x) (st2\<lparr>already_revoked := True\<rparr>))"
    by (simp add: announce_revoked_def rseq_ready st1_def st2_def) (simp add: upd_def)
  moreover have "ident st \<notin> tracked (glob st2)" by (simp add: st2_def st1_def)
  ultimately show ?thesis using ev(2) tr by (auto simp: st2_def emit_def)
qed

lemma announce_revoked_no_requeue:
  assumes "announce_revoked env r t s x st = (o', st')"
  shows "RejectMsg q \<notin> set (drop (length (trace st)) (trace st'))"
proof -
  obtain ev where "trace (send_event ''task-revoked'' (snd (ready env False st))) = trace st @ ev" "set ev \<subseteq> {Event ''task-revoked''}"
    using trace_send_event [of "''task-revoked''" "snd (ready env False st)"] by auto
  moreover from this have "RejectMsg q \<notin> set ev" by auto
  ultimately show ?thesis
    using assms by (auto simp: announce_revoked_def rseq_ready upd_def trace_acknowledge emit_def split: if_splits)
qed

lemma ack_failed_spec:
  assumes "ack_failed e st = (requeue, st')"
  shows "\<exists>new. trace st' = trace st @ new \<and> (\<forall>x b. MarkFailure x b \<notin> set new) \<and> (RejectMsg True \<in> set new \<longrightarrow> requeue)"
proof (cases "acknowledged st")
  case True
  then have "st' = st" using assms by (auto simp: ack_failed_def acknowledge_def reject_def Let_def split: if_splits)
  then show ?thesis by simp
next
  case False
  then show ?thesis
    using assms trace_reject [OF False, of True] trace_reject [OF False, of False]
    by (auto simp: ack_failed_def Let_def trace_acknowledge split: if_splits)
qed

lemma report_requeued:
  assumes "RejectMsg True \<in> set (drop (length (trace st)) (trace (report_failure sf ok e st)))"
  shows "MarkFailure x b \<notin> set (drop (length (trace st)) (trace (report_failure sf ok e st)))"
proof -
  obtain requeue st1 where a: "ack_failed e st = (requeue, st1)" by (cases "ack_failed e st")
  obtain new where new: "trace st1 = trace st @ new" "\<forall>x b. MarkFailure x b \<notin> set new" "RejectMsg True \<in> set new \<longrightarrow> requeue"
    using ack_failed_spec [OF a] by blast
  show ?thesis
    using assms a new trace_send_event [of "''task-failed''"]
    by (cases requeue) (auto simp: report_failure_def Let_def send_event_def split: if_splits)
qed

lemma reject_failure_requeued:
  assumes "RejectMsg True \<in> set (drop (length (trace st)) (trace (reject_failure sf rq st)))"
  shows "MarkFailure x b \<notin> set (drop (length (trace st)) (trace (reject_failure sf rq st)))"
  using assms by (cases rq) (auto simp: reject_failure_def reject_def send_event_def Let_def split: if_splits)

lemma fail_hooks_quiet: "(\<And>h. hook_raises env h = None) \<Longrightarrow> \<exists>st'. fail_hooks env e st = (Inr (), st')"
  by (auto simp: fail_hooks_def rseq_def rbind_def call_hook_def upd_def)

lemma fail_hooks_continue:
  "continues st (snd (fail_hooks env e st)) \<and> acknowledged (snd (fail_hooks env e st)) = acknowledged st"
  by (auto simp: fail_hooks_def rseq_def rbind_def call_hook_def upd_def continues_def emit_def send_event_def split: option.split)

lemma revoked_by_stamps_total:
  "\<forall>h \<in> set hs. dict_get stamps h \<noteq> None \<Longrightarrow> \<exists>b. revoked_by_stamps ml revs stamps hs = Inr b"
  by (induction hs) (auto split: option.split hval.split)

section \<open>Properties\<close>

text \<open>
  C1: a message is settled at most once. Whatever handlers are called, in whatever order and
  whichever of them raise, the broker has been told \<open>ack\<close> or \<open>reject\<close> exactly once for a request
  that is marked acknowledged, and not at all for one that is not.
\<close>

theorem message_settled_at_most_once:
  assumes "reach rq_start rq_step st"
  shows "length (filter is_settle (trace st)) = (if acknowledged st then 1 else 0)"
  using requests.inv_reach [OF assms] by (simp add: settled_once_def settlements_def)

definition demo_task :: task_opts where
  "demo_task = \<lparr>acks_late = True, acks_on_timeout = True, acks_on_failure = True, reject_on_worker_lost = False,
     send_events = True, store_errors_even_if_ignored = False, has_after_return = False, time_limit = None, soft_time_limit = None\<rparr>"

definition demo_rst :: rst where
  "demo_rst = \<lparr>ident = demo_req, task = demo_task, acknowledged = False, time_start = None, worker_pid = None,
     time_limits = (None, None), already_revoked = False, already_cancelled = False, terminate_on_ack = None,
     apply_result = None, req_expires = None, stamped_headers = [], msg_stamps = [], ignore_result = False,
     eventer_enabled = True, glob = new_state 10 5 10 5, trace = []\<rparr>"

definition demo_env :: renv where
  "demo_env = \<lparr>now = 100, hook_raises = (\<lambda>_. None), maybe_list = (\<lambda>h. case h of HList hs \<Rightarrow> hs | _ \<Rightarrow> [h]), human_status = (\<lambda>_. ''exitcode'')\<rparr>"

theorem message_settled_at_most_once_witness:
  "length (filter is_settle (trace (rexec demo_env CAcknowledge (rexec demo_env (CFailure (OtherExc ''E'') True False) demo_rst)))) \<le> 1"
proof -
  have "reach rq_start rq_step demo_rst" by (rule reach_init) (simp add: rq_start_def demo_rst_def)
  then have "reach rq_start rq_step (rexec demo_env (CFailure (OtherExc ''E'') True False) demo_rst)"
    by (rule reach_step [where e = "(demo_env, CFailure (OtherExc ''E'') True False)"]) (simp add: rq_step_def)
  then have "reach rq_start rq_step (rexec demo_env CAcknowledge (rexec demo_env (CFailure (OtherExc ''E'') True False) demo_rst))"
    by (rule reach_step [where e = "(demo_env, CAcknowledge)"]) (simp add: rq_step_def)
  from message_settled_at_most_once [OF this] show ?thesis by simp
qed

lemma revoked_not_applied:
  assumes "ls_inv (revoked (glob st))" and "0 \<le> maxlen (revoked (glob st))"
    and "already_revoked st \<or> ls_contains (rq_id (ident st)) (revoked (glob st))
      \<or> (\<exists>ex. req_expires st = Some ex \<and> ex < now env)
      \<or> revoked_by_stamps (maybe_list env) (revoked_stamps (glob st)) (msg_stamps st) (stamped_headers st) = Inr True"
    and "\<forall>h \<in> set (stamped_headers st). dict_get (msg_stamps st) h \<noteq> None"
  shows "\<exists>st'. execute_using_pool env p st = (Inl TaskRevokedError, st')
    \<and> (\<forall>a b. ApplyAsync a b \<notin> new_effects st st')
    \<and> (\<not> already_revoked st \<longrightarrow> acknowledged st' \<and> already_revoked st' \<and> (\<exists>r b. MarkRevoked r b \<in> new_effects st st')
         \<and> ident st \<notin> tracked (glob st'))"
proof -
  have "\<exists>st'. is_revoked env st = (Inr True, st') \<and> (\<forall>a b. ApplyAsync a b \<notin> new_effects st st')
    \<and> (\<not> already_revoked st \<longrightarrow> acknowledged st' \<and> already_revoked st' \<and> (\<exists>r b. MarkRevoked r b \<in> new_effects st st')
         \<and> ident st \<notin> tracked (glob st'))"
  proof (cases "already_revoked st")
    case True
    then show ?thesis by (simp add: is_revoked_def new_effects_def)
  next
    case False
    obtain s where s: "add (now env) (now env) (rq_id (ident st)) None (revoked (glob st)) = Inr s"
      using add_spec [OF assms(1,2)] by blast
    define ex where "ex \<longleftrightarrow> (case req_expires st of None \<Rightarrow> False | Some x \<Rightarrow> x < now env)"
    define st1 where "st1 = (if ex then st\<lparr>glob := (glob st)\<lparr>revoked := s\<rparr>\<rparr> else st)"
    have me: "maybe_expire env st = (Inr ex, st1)"
      using s by (auto simp: maybe_expire_def ex_def st1_def split: option.split)
    have same: "trace st1 = trace st" "ident st1 = ident st" "stamped_headers st1 = stamped_headers st"
      "msg_stamps st1 = msg_stamps st" "revoked_stamps (glob st1) = revoked_stamps (glob st)" by (auto simp: st1_def)
    obtain b where by_stamps: "revoked_by_stamps (maybe_list env) (revoked_stamps (glob st1)) (msg_stamps st1) (stamped_headers st1) = Inr b"
      using revoked_by_stamps_total [of "stamped_headers st1" "msg_stamps st1"] assms(4) unfolding same by blast
    have hit: "ex \<or> ls_contains (rq_id (ident st1)) (revoked (glob st1)) \<or> b"
      using assms(3) False by_stamps by (auto simp: ex_def st1_def split: if_splits)
    have "is_revoked env st = rseq (announce_revoked env (if ex then ''expired'' else ''revoked'') False None ex) (ret True) st1"
      using False me hit by_stamps by (cases "stamped_headers st1 = []") (auto simp: is_revoked_def rbind_def Let_def)
    then show ?thesis
      using announce_revoked_spec [of env "if ex then ''expired'' else ''revoked''" False None ex st1] same False
      by (auto simp: rseq_def rbind_def ret_def new_effects_def) blast+
  qed
  then show ?thesis by (auto simp: execute_using_pool_def rbind_def raise_def) blast
qed



text \<open>
  a task that is put back on the queue is not recorded as failed. When \<open>on_failure\<close> rejects
  the message with requeue, it stores no failure for it, whatever the exception and the options
  of the task.
\<close>

theorem requeued_not_marked_failed:
  assumes "on_failure env e sf ok st = (r, st')" and "RejectMsg True \<in> new_effects st st'"
  shows "MarkFailure x b \<notin> new_effects st st'"
proof -
  define st1 where "st1 = snd (ready env False st)"
  have tr: "trace st1 = trace st" by (simp add: st1_def)
  have run: "dispatch_failure env e sf ok st1 = (r, st')"
    using assms(1) by (simp add: on_failure_def rseq_ready st1_def)
  show ?thesis
  proof (cases "\<exists>f. st' = report_failure sf ok f st1")
    case True
    then show ?thesis using assms(2) report_requeued tr by (metis new_effects_def)
  next
    case other: False
    show ?thesis
    proof (cases "unwrap e")
      case (Reject rq)
      then have "st' = reject_failure sf rq st1" using run by (simp add: dispatch_failure_def)
      then show ?thesis using assms(2) reject_failure_requeued [of st1 sf rq] tr by (auto simp: new_effects_def)
    next
      case (Terminated s)
      then show ?thesis
        using run assms tr announce_revoked_no_requeue [of env "''terminated''" True "Some s" False st1]
        by (auto simp: new_effects_def dispatch_failure_def split: if_splits)
    next
      case Retry
      then have "st' = on_retry st1" using run by (simp add: dispatch_failure_def)
      then show ?thesis
        using assms(2) tr trace_send_event [of "''task-retried''" "if acks_late (task st1) then acknowledge st1 else st1"]
        by (auto simp: new_effects_def on_retry_def trace_acknowledge split: if_splits)
    qed (use run assms tr other in \<open>auto simp: dispatch_failure_def new_effects_def trace_acknowledge split: if_splits\<close>)
  qed
qed

theorem requeued_not_marked_failed_witness:
  "\<forall>x b. MarkFailure x b \<notin> new_effects demo_rst (snd (on_failure demo_env (Reject True) True False demo_rst))"
proof -
  obtain r st' where st': "on_failure demo_env (Reject True) True False demo_rst = (r, st')" by (cases "on_failure demo_env (Reject True) True False demo_rst")
  have "RejectMsg True \<in> new_effects demo_rst st'"
    using st' by (simp add: on_failure_def dispatch_failure_def rseq_ready ready_False reject_failure_def reject_def send_event_def emit_def
        demo_rst_def demo_task_def new_effects_def) (auto simp: emit_def)
  then show ?thesis using requeued_not_marked_failed [OF st'] st' by simp
qed

text \<open>
  a hard time limit does not follow that rule. For a late-acknowledging task that is not
  acknowledged on timeouts, \<open>on_timeout\<close> both stores a failure result and puts the message back
  on the queue, so the task runs again after its result was reported as failed.
\<close>

theorem timeout_fails_and_requeues:
  assumes "acks_late (task st)" and "\<not> acks_on_timeout (task st)" and "\<not> acknowledged st" and "\<not> terminating st"
    and "\<And>h. hook_raises env h = None"
  shows "\<exists>st'. on_timeout env False t st = (Inr (), st') \<and> RejectMsg True \<in> new_effects st st'
    \<and> MarkFailure (TimeLimitExceeded t) (store_errors st) \<in> new_effects st st'"
proof -
  define st1 where "st1 = snd (ready env False st)"
  have st1: "trace st1 = trace st" "task st1 = task st" "acknowledged st1 = acknowledged st" "\<not> terminating st1" "store_errors st1 = store_errors st"
    using assms(4) by (auto simp: st1_def terminating_def store_errors_def ready_False)
  obtain st2 where st2: "fail_hooks env (TimeLimitExceeded t) (emit (MarkFailure (TimeLimitExceeded t) (store_errors st)) st1) = (Inr (), st2)"
    using fail_hooks_quiet [OF assms(5)] by blast
  have c: "continues (emit (MarkFailure (TimeLimitExceeded t) (store_errors st)) st1) st2" "acknowledged st2 = acknowledged st"
    using fail_hooks_continue [of "emit (MarkFailure (TimeLimitExceeded t) (store_errors st)) st1" env "TimeLimitExceeded t"] st2 st1(3) by auto
  have "on_timeout env False t st = (Inr (), reject True st2)"
    using st1 st2 assms(1,2) c(1)
    by (simp add: on_timeout_def rseq_ready flip: st1_def) (simp add: rseq_def rbind_def upd_def continues_def)
  then show ?thesis
    using trace_reject [of st2 True] c assms(3) st1(1) by (auto simp: new_effects_def continues_def)
qed

theorem timeout_fails_and_requeues_witness:
  "\<exists>st'. on_timeout demo_env False 30 (demo_rst\<lparr>task := demo_task\<lparr>acks_on_timeout := False\<rparr>\<rparr>) = (Inr (), st')
    \<and> RejectMsg True \<in> new_effects (demo_rst\<lparr>task := demo_task\<lparr>acks_on_timeout := False\<rparr>\<rparr>) st'"
  using timeout_fails_and_requeues [of "demo_rst\<lparr>task := demo_task\<lparr>acks_on_timeout := False\<rparr>\<rparr>" demo_env 30]
  by (auto simp: demo_rst_def demo_task_def demo_env_def terminating_def new_state_def)

text \<open>
  a failing user hook leaves a timed-out message unsettled. When the task's \<open>on_failure\<close> hook
  raises inside \<open>on_timeout\<close>, the exception propagates before the late acknowledgement: the
  message is neither acknowledged nor rejected, although the request has left the tables.
\<close>

theorem timeout_hook_error_unsettled:
  assumes "\<not> terminating st" and "hook_raises env ''on_failure'' = Some e"
  shows "\<exists>st'. on_timeout env False t st = (Inl (Raise e), st') \<and> acknowledged st' = acknowledged st
    \<and> settlements st' = settlements st \<and> ident st \<notin> tracked (glob st')"
proof -
  define st1 where "st1 = snd (ready env False st)"
  have "\<not> terminating st1" "settlements st1 = settlements st" using assms(1) by (auto simp: st1_def terminating_def ready_False settlements_def)
  then have "on_timeout env False t st = (Inl (Raise e), emit (Hook ''on_failure'') (emit (MarkFailure (TimeLimitExceeded t) (store_errors st1)) st1))"
    using assms(2) by (simp add: on_timeout_def rseq_ready flip: st1_def) (simp add: rseq_def rbind_def fail_hooks_def call_hook_def upd_def)
  then show ?thesis using \<open>settlements st1 = settlements st\<close> by (simp add: is_settle_def) (simp add: st1_def)
qed

theorem timeout_hook_error_unsettled_witness:
  "\<exists>st'. on_timeout (demo_env\<lparr>hook_raises := (\<lambda>_. Some (OtherExc ''E''))\<rparr>) False 30 demo_rst = (Inl (Raise (OtherExc ''E'')), st') \<and> \<not> acknowledged st'"
  using timeout_hook_error_unsettled [of demo_rst "demo_env\<lparr>hook_raises := (\<lambda>_. Some (OtherExc ''E''))\<rparr>" "OtherExc ''E''" 30]
  by (auto simp: demo_rst_def new_state_def terminating_def)

text \<open>
  only the first stamped header with a revocation entry is looked at. If the revoked stamps
  have an entry for it that does not match, the loop stops, and a later header whose stamp is
  revoked does not revoke the task.
\<close>

theorem later_stamp_ignored:
  assumes "dict_get revs h1 = Some (HList rs)" and "dict_get stamps h1 = Some (HStr v)"
    and "HStr v \<notin> set (ml (HList rs))"
  shows "revoked_by_stamps ml revs stamps (h1 # rest) = Inr False"
  using assms by simp

theorem later_stamp_ignored_witness:
  "revoked_by_stamps (maybe_list demo_env) [(''a'', HList [HStr ''x'']), (''b'', HList [HStr ''y''])]
     [(''a'', HStr ''z''), (''b'', HStr ''y'')] [''a'', ''b''] = Inr False
   \<and> revoked_by_stamps (maybe_list demo_env) [(''a'', HList [HStr ''x'']), (''b'', HList [HStr ''y''])]
     [(''a'', HStr ''z''), (''b'', HStr ''y'')] [''b'', ''a''] = Inr True"
  using later_stamp_ignored [of "[(''a'', HList [HStr ''x'']), (''b'', HList [HStr ''y''])]" "''a''" "[HStr ''x'']"
      "[(''a'', HStr ''z''), (''b'', HStr ''y'')]" "''z''" "maybe_list demo_env" "[''b'']"]
  by (simp add: demo_env_def)

text \<open>
  a task that was accepted and succeeded is acknowledged, in the early mode when the pool
  accepts it and in the late mode when it is done; success takes the request out of all tables
  and records its id among the successful ones unless that set has no room.
\<close>

theorem completed_task_acknowledged:
  assumes "terminate_on_ack st = None" and "ls_inv (successful_requests (glob st))" and "0 \<le> maxlen (successful_requests (glob st))"
  shows "\<exists>st1 st2. on_accepted env pid t st = (Inr (), st1) \<and> on_success env None st1 = (Inr (), st2)
    \<and> acknowledged st2 \<and> (\<not> acks_late (task st) \<longrightarrow> acknowledged st1)
    \<and> (acks_late (task st) \<longrightarrow> acknowledged st1 = acknowledged st) \<and> ident st \<notin> tracked (glob st2)"
proof -
  define st1 where "st1 = snd (on_accepted env pid t st)"
  have run: "on_accepted env pid t st = (Inr (), st1)" and st1: "task st1 = task st" "ident st1 = ident st"
      "acknowledged st1 = (acknowledged st \<or> \<not> acks_late (task st))" "successful_requests (glob st1) = successful_requests (glob st)"
    using assms(1) by (auto simp: st1_def on_accepted_def send_event_def acknowledge_def emit_def task_accepted_def)
  obtain s where s: "add (now env) (now env) (rq_id (ident st)) None (successful_requests (glob st)) = Inr s"
    using add_spec [OF assms(2,3)] by blast
  then obtain g where g: "task_ready (now env) (now env) (ident st1) True (glob st1) = Inr g" "ident st \<notin> tracked g"
    by (auto simp: task_ready_def st1 tracked_def)
  have "on_success env None st1 = (Inr (), send_event ''task-succeeded'' (if acks_late (task st1) then acknowledge (st1\<lparr>glob := g\<rparr>) else st1\<lparr>glob := g\<rparr>))"
    using g(1) by (simp add: on_success_def) (simp add: rseq_def rbind_def ready_def upd_def)
  then show ?thesis using run st1 g(2) by auto
qed

theorem completed_task_acknowledged_witness:
  "\<exists>st1 st2. on_accepted demo_env 7 100 demo_rst = (Inr (), st1) \<and> on_success demo_env None st1 = (Inr (), st2) \<and> acknowledged st2"
  using completed_task_acknowledged [of demo_rst demo_env 7 100]
  by (auto simp: demo_rst_def new_state_def empty_set_def ls_inv_def covered_def)



text \<open>
  that condition matters. When events are enabled after the class was made (by the remote
  control command), a successful task sends no \<open>task-succeeded\<close> event from the specialised class,
  while the general class would send it.
\<close>

theorem late_enabled_events_missed:
  assumes "eventer_enabled st" and "send_events (task st)" and "acks_late (task st) = acks_late t"
    and "on_success env None st = (Inr (), st')" and "fast_on_success (create_request_cls t False) env None st = (Inr (), st'')"
  shows "trace st' = trace st'' @ [Event ''task-succeeded'']"
proof -
  obtain g where g: "task_ready (now env) (now env) (ident st) True (glob st) = Inr g"
    using assms(4) by (cases "task_ready (now env) (now env) (ident st) True (glob st)")
      (auto simp: on_success_def rseq_def rbind_def ready_def)
  have "eventer_enabled (acknowledge s) = eventer_enabled s" for s by (simp add: acknowledge_def emit_def)
  then show ?thesis
    using assms g
    by (auto simp: fast_on_success_def on_success_def create_request_cls_def rseq_def rbind_def upd_def ready_def send_event_def)
qed

theorem late_enabled_events_missed_witness:
  "\<exists>st' st''. on_success demo_env None demo_rst = (Inr (), st') \<and> fast_on_success (create_request_cls demo_task False) demo_env None demo_rst = (Inr (), st'')
    \<and> trace st' = trace st'' @ [Event ''task-succeeded'']"
proof -
  obtain s where s: "add 100 100 (rq_id demo_req) None (empty_set 10 5 0) = Inr s"
    using add_spec [of "empty_set 10 5 0" 100 100 "rq_id demo_req" None] by (auto simp: empty_set_def ls_inv_def covered_def)
  have g: "glob demo_rst = new_state 10 5 10 5" "ident demo_rst = demo_req" "now demo_env = 100" "successful_requests (new_state 10 5 10 5) = empty_set 10 5 0"
    by (simp_all add: demo_rst_def demo_env_def new_state_def)
  then obtain st' st'' where r: "on_success demo_env None demo_rst = (Inr (), st')"
      "fast_on_success (create_request_cls demo_task False) demo_env None demo_rst = (Inr (), st'')"
    using s by (auto simp: on_success_def fast_on_success_def rseq_def rbind_def ready_def upd_def task_ready_def)
  have "eventer_enabled demo_rst" "send_events (task demo_rst)" "acks_late (task demo_rst) = acks_late demo_task"
    by (auto simp: demo_rst_def demo_task_def)
  from late_enabled_events_missed [OF this r] show ?thesis using r by blast
qed

end
