(* ===== verification/Events_State.thy ===== *)
theory Events_State
  imports States Prelude
begin

text \<open>
  \<open>celery.events.state\<close>: the picture of a cluster built from the events of its workers. An event is
  a dictionary of Python values; a task keeps its attributes in a dictionary as the source does.
  Objects are reached through their uuid or hostname. From kombu come the LRU caches that hold
  workers and tasks and the comparison of time tuples: both are parameters (\<open>cluster_env\<close>).
  Event handlers registered by clients and the mutex are left out: a call of \<open>event\<close> is atomic.
  A task refers to its worker by the worker of that hostname in the cache or, once that has been
  evicted, by the worker as it last was. Strings are upper-cased on ASCII letters.
\<close>

section \<open>Values and binary insertion\<close>

datatype pyv = PNone | PStr string | PNum rat

fun truthy_v :: "pyv \<Rightarrow> bool" where
  "truthy_v PNone = False"
| "truthy_v (PStr s) = (s \<noteq> [])"
| "truthy_v (PNum x) = (x \<noteq> 0)"

definition upper :: "string \<Rightarrow> string" where
  "upper = map (\<lambda>c. if CHR ''a'' \<le> c \<and> c \<le> CHR ''z'' then char_of ((of_char c :: nat) - 32) else c)"

fun partition_dash :: "string \<Rightarrow> string \<times> string" where
  "partition_dash [] = ([], [])"
| "partition_dash (c # cs) = (if c = CHR ''-'' then ([], cs) else case partition_dash cs of (a, b) \<Rightarrow> (c # a, b))"

text \<open>\<open>bisect.insort\<close>: the insertion point is found by halving, with \<open>lt x y\<close> for \<open>x < y\<close>.\<close>

function bisect_right :: "('a \<Rightarrow> 'a \<Rightarrow> bool) \<Rightarrow> 'a list \<Rightarrow> 'a \<Rightarrow> nat \<Rightarrow> nat \<Rightarrow> nat" where
  "bisect_right lt xs x lo hi =
     (if lo < hi
      then let mid = (lo + hi) div 2
           in if lt x (xs ! mid) then bisect_right lt xs x lo mid else bisect_right lt xs x (mid + 1) hi
      else lo)"
  by pat_completeness auto
termination
  by (relation "measure (\<lambda>(lt, xs, x, lo, hi). hi - lo)") auto

declare bisect_right.simps [simp del]

definition insort_by :: "('a \<Rightarrow> 'a \<Rightarrow> bool) \<Rightarrow> 'a \<Rightarrow> 'a list \<Rightarrow> 'a list" where
  "insort_by lt x xs = (let i = bisect_right lt xs x 0 (length xs) in take i xs @ x # drop i xs)"

definition sorted_add :: "('a \<Rightarrow> 'a \<Rightarrow> bool) \<Rightarrow> nat \<Rightarrow> 'a \<Rightarrow> 'a list \<Rightarrow> 'a list" where
  "sorted_add lt before x xs = (if 0 < before \<and> xs \<noteq> [] \<and> lt (last xs) x then xs @ [x] else insort_by lt x xs)"

section \<open>Workers\<close>

definition HEARTBEAT_EXPIRE_WINDOW :: rat where "HEARTBEAT_EXPIRE_WINDOW = 200"

definition heartbeat_max :: nat where "heartbeat_max = 4"

definition heartbeat_expires :: "rat \<Rightarrow> rat \<Rightarrow> rat \<Rightarrow> rat" where
  "heartbeat_expires timestamp freq expire_window = timestamp + freq * (expire_window / 100)"

record eworker =
  w_hostname :: string
  w_attrs :: "(string, pyv) dict"
  heartbeats :: "rat list"

definition new_worker :: "string \<Rightarrow> eworker" where
  "new_worker hostname = \<lparr>w_hostname = hostname, w_attrs = [(''freq'', PNum 60), (''clock'', PNum 0)], heartbeats = []\<rparr>"

definition beat :: "rat \<Rightarrow> rat list \<Rightarrow> rat list" where
  "beat t hs = (let hearts = length hs; hs' = (if hearts > heartbeat_max - 1 then tl hs else hs)
     in sorted_add (<) hearts t hs')"

definition worker_event :: "string option \<Rightarrow> pyv \<Rightarrow> pyv \<Rightarrow> (string, pyv) dict \<Rightarrow> eworker \<Rightarrow> eworker result" where
  "worker_event ty timestamp local_received flds w =
     (let w = w\<lparr>w_attrs := dict_update (w_attrs w) flds\<rparr>
      in if ty = Some ''offline'' then Inr (w\<lparr>heartbeats := []\<rparr>)
         else if \<not> truthy_v local_received \<or> \<not> truthy_v timestamp then Inr w
         else case (local_received, timestamp) of
                (PNum t, PNum _) \<Rightarrow> Inr (w\<lparr>heartbeats := beat t (heartbeats w)\<rparr>)
              | _ \<Rightarrow> Inl ValueError)"

definition worker_alive :: "rat \<Rightarrow> eworker \<Rightarrow> bool result" where
  "worker_alive now w = (if heartbeats w = [] then Inr False
     else case dict_get (w_attrs w) ''freq'' of
            Some (PNum f) \<Rightarrow> Inr (now < heartbeat_expires (last (heartbeats w)) f HEARTBEAT_EXPIRE_WINDOW)
          | _ \<Rightarrow> Inl TypeError)"

section \<open>Tasks\<close>

record etask =
  t_uuid :: string
  t_attrs :: "(string, pyv) dict"
  t_worker :: "eworker option"
  t_children :: "string set"

definition new_task :: "string \<Rightarrow> etask" where
  "new_task uuid = \<lparr>t_uuid = uuid, t_attrs = [], t_worker = None, t_children = {}\<rparr>"

definition t_get :: "string \<Rightarrow> etask \<Rightarrow> pyv" where
  "t_get k t = (case dict_get (t_attrs t) k of Some v \<Rightarrow> v
     | None \<Rightarrow> if k = ''state'' then PStr PENDING else if k = ''clock'' then PNum 0 else PNone)"

definition t_state :: "etask \<Rightarrow> string" where
  "t_state t = (case t_get ''state'' t of PStr s \<Rightarrow> s | _ \<Rightarrow> '''')"

definition TASK_EVENT_TO_STATE :: "(string, string) dict" where
  "TASK_EVENT_TO_STATE = [(''sent'', PENDING), (''received'', RECEIVED), (''started'', STARTED), (''failed'', FAILURE),
     (''retried'', RETRY), (''succeeded'', SUCCESS), (''revoked'', REVOKED), (''rejected'', REJECTED)]"

definition merge_rules :: "(string, string list) dict" where
  "merge_rules = [(RECEIVED, [''name'', ''args'', ''kwargs'', ''parent_id'', ''root_id'', ''retries'', ''eta'', ''expires''])]"

definition event_state :: "string \<Rightarrow> string" where
  "event_state ty = (case dict_get TASK_EVENT_TO_STATE ty of Some s \<Rightarrow> s | None \<Rightarrow> upper ty)"

definition task_event :: "string \<Rightarrow> pyv \<Rightarrow> (string, pyv) dict \<Rightarrow> etask \<Rightarrow> etask" where
  "task_event ty timestamp flds t =
     (let t = (if dict_get TASK_EVENT_TO_STATE ty \<noteq> None
               then t\<lparr>t_attrs := dict_set ty timestamp (t_attrs t)\<rparr> else t);
          st = event_state ty;
          flds' = (if st \<noteq> RETRY \<and> t_state t \<noteq> RETRY \<and> precedence st > precedence (t_state t)
                     then (case dict_get merge_rules st of
                             None \<Rightarrow> flds
                           | Some keep \<Rightarrow> filter (\<lambda>(k, v). k \<in> set keep) flds)
                     else dict_set ''timestamp'' timestamp (dict_set ''state'' (PStr st) flds))
      in t\<lparr>t_attrs := dict_update (t_attrs t) flds'\<rparr>)"

definition t_ready :: "etask \<Rightarrow> bool" where
  "t_ready t \<longleftrightarrow> t_state t \<in> READY_STATES"

section \<open>Cluster state\<close>

type_synonym heap_entry = "pyv \<times> pyv \<times> string \<times> string"

record cluster_env =
  tlt :: "heap_entry \<Rightarrow> heap_entry \<Rightarrow> bool"
  wset :: "string \<Rightarrow> eworker \<Rightarrow> (string, eworker) dict \<Rightarrow> (string, eworker) dict"
  tset :: "string \<Rightarrow> etask \<Rightarrow> (string, etask) dict \<Rightarrow> (string, etask) dict"
  ttouch :: "string \<Rightarrow> (string, etask) dict \<Rightarrow> (string, etask) dict"
  rset :: "string \<Rightarrow> string set \<Rightarrow> (string, string set) dict \<Rightarrow> (string, string set) dict"
  fmt_pid :: "pyv \<Rightarrow> string"
  has_join :: bool
  has_leave :: bool

record cluster =
  workers :: "(string, eworker) dict"
  tasks :: "(string, etask) dict"
  taskheap :: "heap_entry list"
  max_tasks_in_memory :: nat
  event_count :: nat
  task_count :: nat
  seen_types :: "string set"
  tasks_to_resolve :: "(string, string set) dict"
  by_type :: "(string, string set) dict"
  by_worker :: "(string, string set) dict"
  node_calls :: "(string \<times> string) list"

definition heap_multiplier :: nat where "heap_multiplier = 4"

definition write_back :: "'k \<Rightarrow> 'v \<Rightarrow> ('k, 'v) dict \<Rightarrow> ('k, 'v) dict" where
  "write_back k v d = (if k \<in> set (keys d) then dict_set k v d else d)"

definition worker_id :: "cluster_env \<Rightarrow> eworker \<Rightarrow> string" where
  "worker_id env w = w_hostname w @ ''.'' @ fmt_pid env (case dict_get (w_attrs w) ''pid'' of Some v \<Rightarrow> v | None \<Rightarrow> PNone)"

definition as_string :: "pyv \<Rightarrow> string result" where
  "as_string v = (case v of PStr s \<Rightarrow> Inr s | _ \<Rightarrow> Inl TypeError)"

definition field :: "string \<Rightarrow> (string, pyv) dict \<Rightarrow> pyv result" where
  "field k ev = (case dict_get ev k of None \<Rightarrow> Inl KeyError | Some v \<Rightarrow> Inr v)"

definition on_worker_event :: "cluster_env \<Rightarrow> string \<Rightarrow> string \<Rightarrow> pyv \<Rightarrow> pyv \<Rightarrow> (string, pyv) dict \<Rightarrow> cluster \<Rightarrow> cluster result" where
  "on_worker_event env subject hostname timestamp local_received ev s =
     (let is_offline = (subject = ''offline'');
          known = (dict_get (workers s) hostname \<noteq> None);
          w0 = (case dict_get (workers s) hostname of Some w \<Rightarrow> w | None \<Rightarrow> new_worker hostname);
          s = (if known \<or> is_offline then s else s\<lparr>workers := wset env hostname w0 (workers s)\<rparr>);
          created = (\<not> known \<and> \<not> is_offline)
      in res_bind (worker_event (Some subject) timestamp local_received ev w0) (\<lambda>w.
           let s = s\<lparr>workers := write_back hostname w (workers s)\<rparr>;
               s = (if has_join env \<and> (created \<or> subject = ''online'')
                    then s\<lparr>node_calls := node_calls s @ [(''join'', hostname)]\<rparr> else s)
           in Inr (if has_leave env \<and> is_offline
                   then s\<lparr>node_calls := node_calls s @ [(''leave'', hostname)], workers := dict_del hostname (workers s)\<rparr>
                   else s)))"

definition heap_add :: "cluster_env \<Rightarrow> heap_entry \<Rightarrow> cluster \<Rightarrow> cluster result" where
  "heap_add env e s =
     (let heaps = length (taskheap s)
      in if heaps + 1 > max_tasks_in_memory s * heap_multiplier
         then if heaps = 0 then Inl IndexError
              else Inr (s\<lparr>taskheap := sorted_add (tlt env) heaps e (tl (taskheap s))\<rparr>)
         else Inr (s\<lparr>taskheap := sorted_add (tlt env) heaps e (taskheap s)\<rparr>))"

definition add_to :: "string \<Rightarrow> string \<Rightarrow> (string, string set) dict \<Rightarrow> (string, string set) dict" where
  "add_to name uuid d = dict_set name (insert uuid (case dict_get d name of None \<Rightarrow> {} | Some us \<Rightarrow> us)) d"

definition index_task :: "string \<Rightarrow> bool \<Rightarrow> etask \<Rightarrow> cluster \<Rightarrow> cluster" where
  "index_task hostname created t s = (case t_get ''name'' t of
     PStr name \<Rightarrow>
       (let s = s\<lparr>seen_types := insert name (seen_types s)\<rparr>
        in if created then s\<lparr>by_type := add_to name (t_uuid t) (by_type s), by_worker := add_to hostname (t_uuid t) (by_worker s)\<rparr> else s)
   | _ \<Rightarrow> s)"

definition link_parent :: "cluster_env \<Rightarrow> etask \<Rightarrow> cluster \<Rightarrow> cluster" where
  "link_parent env t s = (case t_get ''parent_id'' t of
     PStr pid \<Rightarrow>
       if pid = [] then s
       else (case dict_get (tasks s) pid of
           Some p \<Rightarrow> s\<lparr>tasks := dict_set pid (p\<lparr>t_children := insert (t_uuid t) (t_children p)\<rparr>) (ttouch env pid (tasks s))\<rparr>
         | None \<Rightarrow> (case dict_get (tasks_to_resolve s) pid of
             Some ch \<Rightarrow> s\<lparr>tasks_to_resolve := dict_set pid (insert (t_uuid t) ch) (tasks_to_resolve s)\<rparr>
           | None \<Rightarrow> s\<lparr>tasks_to_resolve := write_back pid {t_uuid t} (rset env pid {} (tasks_to_resolve s))\<rparr>))
   | _ \<Rightarrow> s)"

definition adopt_children :: "string \<Rightarrow> cluster \<Rightarrow> cluster" where
  "adopt_children uuid s = (case dict_get (tasks_to_resolve s) uuid of
     None \<Rightarrow> s
   | Some ch \<Rightarrow>
       (let s = s\<lparr>tasks_to_resolve := dict_del uuid (tasks_to_resolve s)\<rparr>
        in case dict_get (tasks s) uuid of None \<Rightarrow> s
           | Some t \<Rightarrow> s\<lparr>tasks := dict_set uuid (t\<lparr>t_children := t_children t \<union> ch\<rparr>) (tasks s)\<rparr>))"

definition attach_origin :: "cluster_env \<Rightarrow> string \<Rightarrow> string \<Rightarrow> pyv \<Rightarrow> pyv \<Rightarrow> etask \<Rightarrow> cluster \<Rightarrow> (etask \<times> cluster \<times> string) result" where
  "attach_origin env subject hostname timestamp local_received t s =
     (if subject = ''sent'' then Inr (t\<lparr>t_attrs := dict_set ''client'' (PStr hostname) (t_attrs t)\<rparr>, s, hostname)
      else (let w0 = (case dict_get (workers s) hostname of Some w \<Rightarrow> w | None \<Rightarrow> new_worker hostname);
                s = (if dict_get (workers s) hostname = None then s\<lparr>workers := wset env hostname w0 (workers s)\<rparr> else s)
            in res_bind (if truthy_v local_received then worker_event None local_received timestamp [] w0 else Inr w0)
                 (\<lambda>w. Inr (t\<lparr>t_worker := Some w\<rparr>, s\<lparr>workers := write_back hostname w (workers s)\<rparr>, worker_id env w))))"

definition record_task :: "cluster_env \<Rightarrow> string \<Rightarrow> string \<Rightarrow> bool \<Rightarrow> pyv \<Rightarrow> (string, pyv) dict \<Rightarrow> etask \<Rightarrow> cluster \<Rightarrow> cluster" where
  "record_task env subject hostname created timestamp ev t s =
     (let s = (if subject = ''received'' then s\<lparr>task_count := task_count s + 1\<rparr> else s);
          t = task_event subject timestamp ev t;
          s = s\<lparr>tasks := write_back (t_uuid t) t (tasks s)\<rparr>
      in adopt_children (t_uuid t) (link_parent env t (index_task hostname created t s)))"

definition on_task_event :: "cluster_env \<Rightarrow> string \<Rightarrow> string \<Rightarrow> string \<Rightarrow> pyv \<Rightarrow> pyv \<Rightarrow> pyv \<Rightarrow> (string, pyv) dict \<Rightarrow> cluster \<Rightarrow> cluster result" where
  "on_task_event env subject uuid hostname timestamp local_received clock ev s =
     (let task_created = (dict_get (tasks s) uuid = None);
          t0 = (case dict_get (tasks s) uuid of Some t \<Rightarrow> t | None \<Rightarrow> new_task uuid);
          s = (if task_created then s\<lparr>tasks := tset env uuid t0 (tasks s)\<rparr> else s)
      in res_bind (attach_origin env subject hostname timestamp local_received t0 s)
         (\<lambda>(t, s, origin). res_bind (heap_add env (clock, timestamp, origin, uuid) s)
            (\<lambda>s. Inr (record_task env subject hostname task_created timestamp ev t s))))"

definition worker_group :: "cluster_env \<Rightarrow> string \<Rightarrow> (string, pyv) dict \<Rightarrow> cluster \<Rightarrow> cluster result" where
  "worker_group env subject ev s =
     (case (field ''hostname'' ev, field ''timestamp'' ev, field ''local_received'' ev) of
        (Inr h, Inr ts, Inr lr) \<Rightarrow> res_bind (as_string h) (\<lambda>h. on_worker_event env subject h ts lr ev s)
      | _ \<Rightarrow> Inr s)"

definition task_group :: "cluster_env \<Rightarrow> string \<Rightarrow> (string, pyv) dict \<Rightarrow> cluster \<Rightarrow> cluster result" where
  "task_group env subject ev s =
     res_bind (field ''uuid'' ev) (\<lambda>u. res_bind (field ''hostname'' ev) (\<lambda>h. res_bind (field ''timestamp'' ev) (\<lambda>ts.
     res_bind (field ''local_received'' ev) (\<lambda>lr. res_bind (field ''clock'' ev) (\<lambda>c.
     res_bind (as_string u) (\<lambda>u. res_bind (as_string h) (\<lambda>h. on_task_event env subject u h ts lr c ev s)))))))"

definition cluster_event :: "cluster_env \<Rightarrow> (string, pyv) dict \<Rightarrow> cluster \<Rightarrow> cluster result" where
  "cluster_event env ev s0 =
     (let s = s0\<lparr>event_count := event_count s0 + 1\<rparr>
      in res_bind (field ''type'' ev) (\<lambda>ty. res_bind (as_string ty) (\<lambda>ty.
         case partition_dash ty of (grp, subject) \<Rightarrow>
           if grp = ''worker'' then worker_group env subject ev s
           else if grp = ''task'' then task_group env subject ev s
           else Inr s)))"

definition rebuild_taskheap :: "cluster_env \<Rightarrow> cluster \<Rightarrow> cluster" where
  "rebuild_taskheap env s = s\<lparr>taskheap := map (\<lambda>t.
     (t_get ''clock'' t, t_get ''timestamp'' t,
      (case t_worker t of
         None \<Rightarrow> (case t_get ''client'' t of PStr c \<Rightarrow> c | _ \<Rightarrow> '''')
       | Some w0 \<Rightarrow> worker_id env (case dict_get (workers s) (w_hostname w0) of Some w \<Rightarrow> w | None \<Rightarrow> w0)),
      t_uuid t)) (vals (tasks s))\<rparr>"

definition new_cluster :: "nat \<Rightarrow> cluster" where
  "new_cluster max_tasks = \<lparr>workers = [], tasks = [], taskheap = [], max_tasks_in_memory = max_tasks, event_count = 0,
     task_count = 0, seen_types = {}, tasks_to_resolve = [], by_type = [], by_worker = [], node_calls = []\<rparr>"

definition clear_tasks :: "bool \<Rightarrow> cluster \<Rightarrow> cluster" where
  "clear_tasks ready s = s\<lparr>tasks := (if ready then filter (\<lambda>(u, t). t_state t \<notin> READY_STATES) (tasks s) else []), taskheap := []\<rparr>"

definition clear_cluster :: "bool \<Rightarrow> cluster \<Rightarrow> cluster" where
  "clear_cluster ready s = (clear_tasks ready (s\<lparr>workers := []\<rparr>))\<lparr>event_count := 0, task_count := 0\<rparr>"

fun first_seen :: "string set \<Rightarrow> heap_entry list \<Rightarrow> string list" where
  "first_seen seen [] = []"
| "first_seen seen ((_, _, _, u) # es) = (if u \<in> seen then first_seen seen es else u # first_seen (insert u seen) es)"

definition tasks_by_time :: "nat option \<Rightarrow> bool \<Rightarrow> cluster \<Rightarrow> string list" where
  "tasks_by_time limit reverse s =
     (let h = (if reverse then rev (taskheap s) else taskheap s)
      in first_seen {} (case limit of None \<Rightarrow> h | Some n \<Rightarrow> take n h))"

section \<open>Interface: weak orders and binary insertion\<close>

locale weak_order =
  fixes lt :: "'a \<Rightarrow> 'a \<Rightarrow> bool"
  assumes asym: "lt x y \<Longrightarrow> \<not> lt y x"
    and cotrans: "lt x y \<Longrightarrow> \<not> lt z y \<Longrightarrow> lt x z"
begin

definition ordered :: "'a list \<Rightarrow> bool" where
  "ordered xs \<longleftrightarrow> sorted_wrt (\<lambda>a b. \<not> lt b a) xs"

lemma ordered_nth: "ordered xs \<Longrightarrow> i \<le> j \<Longrightarrow> j < length xs \<Longrightarrow> \<not> lt (xs ! j) (xs ! i)"
  using asym by (cases "i = j") (auto simp: ordered_def sorted_wrt_iff_nth_less)

lemma bisect_spec:
  assumes "ordered xs" and "hi \<le> length xs" and "lo \<le> hi"
    and "\<And>j. j < lo \<Longrightarrow> \<not> lt x (xs ! j)" and "\<And>j. hi \<le> j \<Longrightarrow> j < length xs \<Longrightarrow> lt x (xs ! j)"
  shows "let i = bisect_right lt xs x lo hi in i \<le> length xs \<and> (\<forall>j < i. \<not> lt x (xs ! j)) \<and> (\<forall>j. i \<le> j \<and> j < length xs \<longrightarrow> lt x (xs ! j))"
  using assms(2-)
proof (induction "hi - lo" arbitrary: lo hi rule: less_induct)
  case less
  define mid where "mid = (lo + hi) div 2"
  show ?case
  proof (cases "lo < hi")
    case False
    then show ?thesis using less.prems by (subst bisect_right.simps) auto
  next
    case True
    then have mid: "lo \<le> mid" "mid < hi" by (auto simp: mid_def)
    have unfold: "bisect_right lt xs x lo hi = (if lt x (xs ! mid) then bisect_right lt xs x lo mid else bisect_right lt xs x (mid + 1) hi)"
      using True by (subst bisect_right.simps) (simp add: mid_def Let_def)
    show ?thesis
    proof (cases "lt x (xs ! mid)")
      case lt: True
      have "lt x (xs ! j)" if "mid \<le> j" "j < length xs" for j
        using cotrans [OF lt] ordered_nth [OF assms(1) that] by blast
      then show ?thesis using less.hyps [of mid lo] less.prems mid lt unfold by auto
    next
      case nlt: False
      have "\<not> lt x (xs ! j)" if "j < mid + 1" for j
        using cotrans [of x "xs ! j" "xs ! mid"] nlt ordered_nth [OF assms(1), of j mid] that mid less.prems(1) by auto
      then show ?thesis using less.hyps [of hi "mid + 1"] less.prems mid nlt unfold by auto
    qed
  qed
qed

lemma insort_split:
  assumes "ordered xs"
  shows "\<exists>a b. xs = a @ b \<and> insort_by lt x xs = a @ x # b \<and> (\<forall>y \<in> set a. \<not> lt x y) \<and> (\<forall>y \<in> set b. lt x y)"
proof -
  let ?i = "bisect_right lt xs x 0 (length xs)"
  have i: "?i \<le> length xs" "\<forall>j < ?i. \<not> lt x (xs ! j)" "\<forall>j. ?i \<le> j \<and> j < length xs \<longrightarrow> lt x (xs ! j)"
    using bisect_spec [OF assms, of "length xs" 0 x] by (auto simp: Let_def)
  have "\<forall>y \<in> set (take ?i xs). \<not> lt x y" using i(1,2) by (auto simp: in_set_conv_nth)
  moreover have "\<forall>y \<in> set (drop ?i xs). lt x y" using i(1,3) by (auto simp: in_set_conv_nth)
  ultimately show ?thesis by (intro exI [of _ "take ?i xs"] exI [of _ "drop ?i xs"]) (simp add: insort_by_def Let_def)
qed

lemma ordered_insort:
  assumes "ordered xs"
  shows "ordered (insort_by lt x xs)"
proof -
  obtain a b where ab: "xs = a @ b" "insort_by lt x xs = a @ x # b" "\<forall>y \<in> set a. \<not> lt x y" "\<forall>y \<in> set b. lt x y"
    using insort_split [OF assms] by blast
  then show ?thesis using assms asym by (auto simp: ordered_def sorted_wrt_append)
qed

lemma set_insort: "ordered xs \<Longrightarrow> mset (insort_by lt x xs) = add_mset x (mset xs)"
  using insort_split [of xs x] by auto

lemma ordered_tl: "ordered xs \<Longrightarrow> ordered (tl xs)"
  by (cases xs) (auto simp: ordered_def)

lemma ordered_snoc: "ordered xs \<Longrightarrow> xs \<noteq> [] \<Longrightarrow> lt (last xs) x \<Longrightarrow> ordered (xs @ [x])"
proof -
  assume xs: "ordered xs" "xs \<noteq> []" "lt (last xs) x"
  have "\<not> lt x y" if y: "y \<in> set xs" for y
  proof
    assume "lt x y"
    obtain i where i: "i < length xs" "y = xs ! i" using y by (auto simp: in_set_conv_nth)
    then have "\<not> lt (last xs) y" using ordered_nth [OF xs(1), of i "length xs - 1"] xs(2) by (auto simp: last_conv_nth)
    then show False using cotrans [OF \<open>lt x y\<close>] asym xs(3) by blast
  qed
  then show ?thesis using xs(1) by (auto simp: ordered_def sorted_wrt_append)
qed

lemma ordered_sorted_add: "ordered xs \<Longrightarrow> ordered (sorted_add lt n x xs)"
  by (auto simp: sorted_add_def intro: ordered_snoc ordered_insort)

lemma mset_sorted_add: "ordered xs \<Longrightarrow> mset (sorted_add lt n x xs) = add_mset x (mset xs)"
  by (simp add: sorted_add_def set_insort)

end

lemma length_sorted_add: "length (sorted_add lt n x xs) = Suc (length xs)"
  by (auto simp: sorted_add_def insort_by_def Let_def min_def)

interpretation rat_order: weak_order "(<) :: rat \<Rightarrow> rat \<Rightarrow> bool"
  by unfold_locales auto

lemma rat_ordered: "rat_order.ordered xs = sorted xs"
  by (simp add: rat_order.ordered_def not_less sorted_wrt_iff_nth_less sorted_iff_nth_mono_less)

section \<open>Heartbeats\<close>

lemma beat_spec:
  assumes "sorted hs" and "length hs \<le> heartbeat_max"
  shows "sorted (beat t hs) \<and> length (beat t hs) \<le> heartbeat_max \<and> beat t hs \<noteq> []
    \<and> last (beat t hs) = (if hs = [] then t else max (last hs) t)"
proof -
  define hs' where "hs' = (if length hs > heartbeat_max - 1 then tl hs else hs)"
  have b: "beat t hs = sorted_add (<) (length hs) t hs'" by (simp add: beat_def hs'_def Let_def)
  have s': "sorted hs'" and l': "length hs' \<le> heartbeat_max - 1" using assms by (auto simp: hs'_def heartbeat_max_def sorted_tl)
  have last': "hs \<noteq> [] \<Longrightarrow> hs' \<noteq> [] \<and> last hs' = last hs"
    by (cases hs) (auto simp: hs'_def heartbeat_max_def)
  have sb: "sorted (beat t hs)" and mb: "mset (beat t hs) = add_mset t (mset hs')"
    using rat_order.ordered_sorted_add [of hs' "length hs" t] rat_order.mset_sorted_add [of hs' "length hs" t] s'
    by (auto simp: b rat_ordered)
  have set: "set (beat t hs) = insert t (set hs')" using mb by (metis set_mset_mset set_mset_add_mset_insert)
  then have ne: "beat t hs \<noteq> []" by auto
  have lastmax: "last xs = Max (set xs)" if "sorted xs" "xs \<noteq> []" for xs :: "rat list"
    using that by (cases xs rule: rev_cases) (auto simp: sorted_append intro!: Max_eqI [symmetric])
  have "last (beat t hs) = Max (insert t (set hs'))" using lastmax [OF sb ne] set by simp
  also have "\<dots> = (if hs = [] then t else max (last hs) t)"
  proof (cases "hs = []")
    case True
    then show ?thesis by (simp add: hs'_def)
  next
    case False
    then show ?thesis using last' lastmax [OF s'] by (simp add: max.commute)
  qed
  finally show ?thesis using sb ne length_sorted_add [of "(<)" "length hs" t hs'] l' by (simp add: b heartbeat_max_def)
qed

section \<open>Merging task events\<close>

type_synonym tevent = "string \<times> pyv \<times> (string, pyv) dict"

definition run_events :: "tevent list \<Rightarrow> etask \<Rightarrow> etask" where
  "run_events evs t = fold (\<lambda>(ty, ts, flds). task_event ty ts flds) evs t"

definition plain_event :: "tevent \<Rightarrow> bool" where
  "plain_event e \<longleftrightarrow> event_state (fst e) \<noteq> RETRY \<and> dict_wf (snd (snd e)) \<and> ''state'' \<notin> set (keys (snd (snd e)))"

lemma t_state_update: "dict_get d ''state'' = dict_get (t_attrs t) ''state'' \<Longrightarrow> t_state (t\<lparr>t_attrs := d\<rparr>) = t_state t"
  by (simp add: t_state_def t_get_def)

lemma get_filter_None: "dict_get d k = None \<Longrightarrow> dict_get (filter P d) k = None"
  by (induction d) (auto split: if_splits)

lemma task_event_state:
  assumes "plain_event (ty, ts, flds)" and "t_state t \<noteq> RETRY"
  shows "t_state (task_event ty ts flds t) =
    (if precedence (t_state t) < precedence (event_state ty) then t_state t else event_state ty)"
proof -
  define t1 where "t1 = (if dict_get TASK_EVENT_TO_STATE ty \<noteq> None then t\<lparr>t_attrs := dict_set ty ts (t_attrs t)\<rparr> else t)"
  have "dict_get TASK_EVENT_TO_STATE ty \<noteq> None \<Longrightarrow> ty \<noteq> ''state''" by (auto simp: TASK_EVENT_TO_STATE_def)
  then have s1: "t_state t1 = t_state t" unfolding t1_def by (auto intro!: t_state_update simp: dict_simps)
  have fl: "dict_wf flds" "''state'' \<notin> set (keys flds)" "event_state ty \<noteq> RETRY" using assms(1) by (auto simp: plain_event_def)
  then have none: "dict_get flds ''state'' = None" by (simp only: dict_get_None_iff) simp
  have keep: "t_state (t1\<lparr>t_attrs := dict_update (t_attrs t1) f\<rparr>) = t_state t" if "dict_wf f" "dict_get f ''state'' = None" for f
    using t_state_update [of "dict_update (t_attrs t1) f" t1] that s1 by (simp add: dict_get_update)
  have wff: "dict_wf (filter (\<lambda>(k, v). k \<in> set ks) flds)" "dict_get (filter (\<lambda>(k, v). k \<in> set ks) flds) ''state'' = None" for ks
    using fl(1) get_filter_None [OF none] by (auto intro: distinct_map_filter)
  define g where "g = dict_set ''timestamp'' ts (dict_set ''state'' (PStr (event_state ty)) flds)"
  have "dict_wf g" "dict_get g ''state'' = Some (PStr (event_state ty))" using fl(1) by (auto simp: g_def dict_simps distinct_update)
  then have new: "t_state (t1\<lparr>t_attrs := dict_update (t_attrs t1) g\<rparr>) = event_state ty"
    by (simp add: t_state_def t_get_def dict_get_update)
  have "task_event ty ts flds t = t1\<lparr>t_attrs := dict_update (t_attrs t1)
      (if event_state ty \<noteq> RETRY \<and> t_state t1 \<noteq> RETRY \<and> precedence (event_state ty) > precedence (t_state t1)
       then (case dict_get merge_rules (event_state ty) of None \<Rightarrow> flds | Some ks \<Rightarrow> filter (\<lambda>(k, v). k \<in> set ks) flds)
       else g)\<rparr>"
    by (simp only: task_event_def Let_def t1_def g_def)
  then show ?thesis
    using keep [OF fl(1) none] keep [OF wff] new s1 assms(2) fl(3) by (auto split: option.split)
qed

lemma run_events_state:
  assumes "\<forall>e \<in> set evs. plain_event e" and "t_state t \<noteq> RETRY"
  shows "t_state (run_events evs t) \<noteq> RETRY
    \<and> (\<forall>st \<in> insert (t_state t) ((\<lambda>e. event_state (fst e)) ` set evs). precedence (t_state (run_events evs t)) \<le> precedence st)
    \<and> t_state (run_events evs t) \<in> insert (t_state t) ((\<lambda>e. event_state (fst e)) ` set evs)"
  using assms
proof (induction evs arbitrary: t)
  case Nil
  then show ?case by (simp add: run_events_def)
next
  case (Cons e evs)
  obtain ty ts flds where e: "e = (ty, ts, flds)" by (cases e)
  define u where "u = task_event ty ts flds t"
  have u: "t_state u = (if precedence (t_state t) < precedence (event_state ty) then t_state t else event_state ty)"
    using task_event_state Cons.prems e by (simp add: u_def)
  have "t_state u \<noteq> RETRY" using u Cons.prems e by (auto simp: plain_event_def)
  with Cons.IH [of u] Cons.prems have IH: "t_state (run_events evs u) \<noteq> RETRY"
    "precedence (t_state (run_events evs u)) \<le> precedence (t_state u)"
    "\<forall>e \<in> set evs. precedence (t_state (run_events evs u)) \<le> precedence (event_state (fst e))"
    "t_state (run_events evs u) \<in> insert (t_state u) ((\<lambda>e. event_state (fst e)) ` set evs)" by auto
  have run: "run_events (e # evs) t = run_events evs u" by (simp add: run_events_def e u_def)
  have "precedence (t_state u) \<le> precedence (t_state t)" "precedence (t_state u) \<le> precedence (event_state ty)"
    "t_state u \<in> {t_state t, event_state ty}" using u by auto
  then show ?case using IH unfolding run by (auto simp: e)
qed

text \<open>A retry, and any event that follows one, sets the state whatever it was.\<close>

lemma task_event_sets:
  assumes "dict_wf flds" and "event_state ty = RETRY \<or> t_state t = RETRY"
  shows "t_state (task_event ty ts flds t) = event_state ty"
proof -
  define t1 where "t1 = (if dict_get TASK_EVENT_TO_STATE ty \<noteq> None then t\<lparr>t_attrs := dict_set ty ts (t_attrs t)\<rparr> else t)"
  have "dict_get TASK_EVENT_TO_STATE ty \<noteq> None \<Longrightarrow> ty \<noteq> ''state''" by (auto simp: TASK_EVENT_TO_STATE_def)
  then have "t_state t1 = t_state t" unfolding t1_def by (auto intro!: t_state_update simp: dict_simps)
  then have "task_event ty ts flds t =
      t1\<lparr>t_attrs := dict_update (t_attrs t1) (dict_set ''timestamp'' ts (dict_set ''state'' (PStr (event_state ty)) flds))\<rparr>"
    using assms(2) by (auto simp: task_event_def Let_def t1_def)
  then show ?thesis
    using assms(1) by (simp add: t_state_def t_get_def dict_get_update dict_simps distinct_update)
qed

lemma run_events_append: "run_events (xs @ ys) t = run_events ys (run_events xs t)"
  by (simp add: run_events_def)

lemma run_events_after_retry:
  assumes "\<forall>e \<in> set evs. plain_event e" and "t_state t = RETRY" and "evs \<noteq> []"
  shows "(\<forall>e \<in> set evs. precedence (t_state (run_events evs t)) \<le> precedence (event_state (fst e)))
    \<and> t_state (run_events evs t) \<in> (\<lambda>e. event_state (fst e)) ` set evs"
proof -
  obtain ty ts flds rest where evs: "evs = (ty, ts, flds) # rest" using assms(3) by (cases evs) auto
  have e: "event_state ty \<noteq> RETRY" "dict_wf flds" using assms(1) evs by (auto simp: plain_event_def)
  define u where "u = task_event ty ts flds t"
  have u: "t_state u = event_state ty" using task_event_sets [OF e(2)] assms(2) by (simp add: u_def)
  have "run_events evs t = run_events rest u" by (simp add: run_events_def evs u_def)
  then show ?thesis using run_events_state [of rest u] assms(1) e(1) u evs by auto
qed

section \<open>The task heap\<close>

lemma heap_frames [simp]:
  "taskheap (index_task h c t s) = taskheap s" "taskheap (link_parent env t s) = taskheap s" "taskheap (adopt_children u s) = taskheap s"
  "max_tasks_in_memory (index_task h c t s) = max_tasks_in_memory s" "max_tasks_in_memory (link_parent env t s) = max_tasks_in_memory s"
  "max_tasks_in_memory (adopt_children u s) = max_tasks_in_memory s"
  by (auto simp: index_task_def link_parent_def adopt_children_def Let_def split: pyv.split option.split)

definition heap_ok :: "cluster_env \<Rightarrow> cluster \<Rightarrow> bool" where
  "heap_ok env s \<longleftrightarrow> length (taskheap s) \<le> max_tasks_in_memory s * heap_multiplier \<and> sorted_wrt (\<lambda>a b. \<not> tlt env b a) (taskheap s)"

lemma heap_ok_frame: "taskheap t = taskheap s \<Longrightarrow> max_tasks_in_memory t = max_tasks_in_memory s \<Longrightarrow> heap_ok env t = heap_ok env s"
  by (simp add: heap_ok_def)

lemma heap_add_ok:
  assumes "weak_order (tlt env)" and "heap_ok env s" and "heap_add env e s = Inr t"
  shows "heap_ok env t"
proof -
  have ord: "sorted_wrt (\<lambda>a b. \<not> tlt env b a) xs \<Longrightarrow> sorted_wrt (\<lambda>a b. \<not> tlt env b a) (sorted_add (tlt env) n e xs)" for xs n
    using weak_order.ordered_sorted_add [OF assms(1)] by (simp add: weak_order.ordered_def [OF assms(1)])
  have tl: "sorted_wrt (\<lambda>a b. \<not> tlt env b a) (tl (taskheap s))"
    using assms(2) by (cases "taskheap s") (auto simp: heap_ok_def)
  show ?thesis
    using assms(2,3) ord tl by (auto simp: heap_add_def heap_ok_def length_sorted_add Let_def split: if_splits)
qed

lemma on_worker_event_heap:
  "on_worker_event env sub h ts lr ev s = Inr t \<Longrightarrow> taskheap t = taskheap s \<and> max_tasks_in_memory t = max_tasks_in_memory s"
  by (auto simp: on_worker_event_def res_bind_Inr_iff Let_def split: if_splits)

lemma attach_origin_heap:
  "attach_origin env sub h ts lr t s = Inr (t', s', org) \<Longrightarrow> taskheap s' = taskheap s \<and> max_tasks_in_memory s' = max_tasks_in_memory s"
  by (auto simp: attach_origin_def res_bind_Inr_iff Let_def split: if_splits)

lemma on_task_event_heap:
  assumes "on_task_event env sub u h ts lr c ev s = Inr t"
  shows "\<exists>s' s'' e. taskheap s' = taskheap s \<and> max_tasks_in_memory s' = max_tasks_in_memory s \<and> heap_add env e s' = Inr s''
    \<and> taskheap t = taskheap s'' \<and> max_tasks_in_memory t = max_tasks_in_memory s''"
proof -
  let ?t0 = "case dict_get (tasks s) u of Some t \<Rightarrow> t | None \<Rightarrow> new_task u"
  let ?s = "if dict_get (tasks s) u = None then s\<lparr>tasks := tset env u ?t0 (tasks s)\<rparr> else s"
  obtain t1 s' org s'' where a: "attach_origin env sub h ts lr ?t0 ?s = Inr (t1, s', org)"
      and h: "heap_add env (c, ts, org, u) s' = Inr s''" and t: "t = record_task env sub h (dict_get (tasks s) u = None) ts ev t1 s''"
    using assms unfolding on_task_event_def Let_def res_bind_Inr_iff by (auto simp: res_bind_Inr_iff)
  have "taskheap s' = taskheap s \<and> max_tasks_in_memory s' = max_tasks_in_memory s"
    using attach_origin_heap [OF a] by (simp split: if_splits)
  moreover have "taskheap t = taskheap s'' \<and> max_tasks_in_memory t = max_tasks_in_memory s''"
    by (simp add: t record_task_def Let_def)
  ultimately show ?thesis using h by blast
qed

lemma worker_group_heap:
  "worker_group env sub ev s = Inr t \<Longrightarrow> taskheap t = taskheap s \<and> max_tasks_in_memory t = max_tasks_in_memory s"
  by (auto simp: worker_group_def res_bind_Inr_iff split: sum.splits dest: on_worker_event_heap)

definition cl_start :: "cluster \<Rightarrow> bool" where
  "cl_start s \<longleftrightarrow> (\<exists>n > 0. s = new_cluster n)"

datatype cl_call = ClEvent "(string, pyv) dict" | ClClear bool

fun cl_exec :: "cluster_env \<Rightarrow> cl_call \<Rightarrow> cluster \<Rightarrow> cluster result" where
  "cl_exec env (ClEvent ev) s = cluster_event env ev s"
| "cl_exec env (ClClear ready) s = Inr (clear_cluster ready s)"

definition cl_step :: "cluster_env \<Rightarrow> cluster \<Rightarrow> cl_call \<Rightarrow> cluster \<Rightarrow> bool" where
  "cl_step env s c t \<longleftrightarrow> weak_order (tlt env) \<and> cl_exec env c s = Inr t"

definition cl_inv :: "cluster_env \<Rightarrow> cluster \<Rightarrow> bool" where
  "cl_inv env s \<longleftrightarrow> heap_ok env s \<and> 0 < max_tasks_in_memory s"

lemma heap_add_max: "heap_add env e s = Inr t \<Longrightarrow> max_tasks_in_memory t = max_tasks_in_memory s"
  by (auto simp: heap_add_def Let_def split: if_splits)

lemma cluster_event_inv:
  assumes "weak_order (tlt env)" and "cl_inv env s" and "cluster_event env ev s = Inr t"
  shows "cl_inv env t"
proof -
  let ?s = "s\<lparr>event_count := event_count s + 1\<rparr>"
  consider "taskheap t = taskheap s" "max_tasks_in_memory t = max_tasks_in_memory s"
    | sub u h ts lr c where "on_task_event env sub u h ts lr c ev ?s = Inr t"
  proof -
    obtain ty where ty: "(case partition_dash ty of (grp, subject) \<Rightarrow>
           if grp = ''worker'' then worker_group env subject ev ?s
           else if grp = ''task'' then task_group env subject ev ?s else Inr ?s) = Inr t"
      using assms(3) unfolding cluster_event_def Let_def res_bind_Inr_iff by blast
    obtain grp sub where "partition_dash ty = (grp, sub)" by (cases "partition_dash ty")
    with ty have "worker_group env sub ev ?s = Inr t \<or> task_group env sub ev ?s = Inr t \<or> t = ?s" by (auto split: if_splits)
    then show ?thesis using that by (auto simp: task_group_def res_bind_Inr_iff dest: worker_group_heap)
  qed
  then show ?thesis
  proof cases
    case 1
    then show ?thesis using assms(2) by (simp add: cl_inv_def heap_ok_def)
  next
    case 2
    from on_task_event_heap [OF this] obtain s' s'' e where
      s': "taskheap s' = taskheap s" "max_tasks_in_memory s' = max_tasks_in_memory s" "heap_add env e s' = Inr s''"
        "taskheap t = taskheap s''" "max_tasks_in_memory t = max_tasks_in_memory s''" by auto
    have "heap_ok env s'" using assms(2) s'(1,2) by (simp add: cl_inv_def heap_ok_def)
    then have "heap_ok env s''" using heap_add_ok [OF assms(1)] s'(3) by blast
    then show ?thesis using s' assms(2) heap_add_max [OF s'(3)] by (simp add: cl_inv_def heap_ok_def)
  qed
qed

interpretation cluster_system: invariant_system cl_start "cl_step env" "cl_inv env" for env
proof unfold_locales
  show "cl_start s \<Longrightarrow> cl_inv env s" for s by (auto simp: cl_start_def cl_inv_def heap_ok_def new_cluster_def)
  show "cl_inv env s \<Longrightarrow> cl_step env s c t \<Longrightarrow> cl_inv env t" for s c t
  proof (cases c)
    case (ClEvent ev)
    then show "cl_inv env s \<Longrightarrow> cl_step env s c t \<Longrightarrow> ?thesis" by (auto simp: cl_step_def intro: cluster_event_inv)
  next
    case (ClClear r)
    then show "cl_inv env s \<Longrightarrow> cl_step env s c t \<Longrightarrow> ?thesis"
      by (auto simp: cl_step_def clear_cluster_def clear_tasks_def cl_inv_def heap_ok_def)
  qed
qed

section \<open>Properties\<close>



text \<open>
  a worker's heartbeats are its latest ones. After any event, the list is sorted and holds at
  most four, and a heartbeat event makes the last entry the maximum of the previous last one and
  the new one, so an out-of-order heartbeat never makes a worker look older.
\<close>

theorem heartbeats_sorted_and_latest:
  assumes "sorted (heartbeats w)" and "length (heartbeats w) \<le> heartbeat_max" and "worker_event ty ts lr flds w = Inr w'"
  shows "sorted (heartbeats w') \<and> length (heartbeats w') \<le> heartbeat_max
    \<and> (ty \<noteq> Some ''offline'' \<longrightarrow> heartbeats w \<noteq> [] \<longrightarrow> heartbeats w' \<noteq> [] \<and> last (heartbeats w) \<le> last (heartbeats w'))
    \<and> (\<forall>t. ty \<noteq> Some ''offline'' \<and> truthy_v ts \<and> lr = PNum t \<and> t \<noteq> 0 \<longrightarrow> t \<le> last (heartbeats w'))"
  using assms(1,2) beat_spec [OF assms(1,2)] assms(3)
  by (auto simp: worker_event_def Let_def split: if_splits pyv.splits)

theorem heartbeats_sorted_and_latest_witness:
  "\<exists>w'. worker_event (Some ''heartbeat'') (PNum 7) (PNum 7) [] ((new_worker ''h'')\<lparr>heartbeats := [5, 6, 8, 9]\<rparr>) = Inr w'
     \<and> sorted (heartbeats w') \<and> last (heartbeats w') \<ge> 9"
proof -
  let ?w = "(new_worker ''h'')\<lparr>heartbeats := [5, 6, 8, 9]\<rparr>"
  obtain w' where w': "worker_event (Some ''heartbeat'') (PNum 7) (PNum 7) [] ?w = Inr w'"
    by (simp add: worker_event_def Let_def)
  have "sorted (heartbeats ?w)" "length (heartbeats ?w) \<le> heartbeat_max" by (simp_all add: heartbeat_max_def)
  from heartbeats_sorted_and_latest [OF this w'] w' show ?thesis by simp
qed

text \<open>
  the event heap of a cluster state is bounded and ordered. In every state reached from a
  fresh one by events and clears, it holds at most four entries per task that may be kept in
  memory and is ordered by time tuple, and the next event never fails for want of an entry to
  drop, when time tuples are compared by a weak order.
\<close>

theorem taskheap_bounded_and_ordered:
  assumes "reach cl_start (cl_step env) s"
  shows "length (taskheap s) \<le> max_tasks_in_memory s * 4 \<and> sorted_wrt (\<lambda>a b. \<not> tlt env b a) (taskheap s)
    \<and> (\<forall>e. \<exists>t. heap_add env e s = Inr t)"
proof -
  have inv: "cl_inv env s" using cluster_system.inv_reach [OF assms] .
  then have "\<exists>t. heap_add env e s = Inr t" for e
    by (auto simp: heap_add_def cl_inv_def heap_multiplier_def Let_def)
  then show ?thesis using inv by (auto simp: cl_inv_def heap_ok_def heap_multiplier_def)
qed

definition demo_cluster_env :: cluster_env where
  "demo_cluster_env = \<lparr>tlt = (\<lambda>(c, _) (d, _). case (c, d) of (PNum x, PNum y) \<Rightarrow> x < y | _ \<Rightarrow> False),
     wset = dict_set, tset = dict_set, ttouch = (\<lambda>_ d. d), rset = dict_set, fmt_pid = (\<lambda>_. ''1''), has_join = False, has_leave = False\<rparr>"

definition demo_cluster_event :: "rat \<Rightarrow> string \<Rightarrow> (string, pyv) dict" where
  "demo_cluster_event c u = [(''type'', PStr ''task-received''), (''uuid'', PStr u), (''hostname'', PStr ''h''), (''timestamp'', PNum c),
     (''local_received'', PNum c), (''clock'', PNum c)]"

theorem taskheap_bounded_and_ordered_witness:
  "length (taskheap (new_cluster 1)) \<le> max_tasks_in_memory (new_cluster 1) * 4 \<and> (\<exists>t. heap_add demo_cluster_env (PNum 1, PNum 1, ''h'', ''u'') (new_cluster 1) = Inr t)"
proof -
  have "reach cl_start (cl_step demo_cluster_env) (new_cluster 1)" by (rule reach_init) (auto simp: cl_start_def)
  from taskheap_bounded_and_ordered [OF this] show ?thesis by blast
qed

text \<open>
  \<open>rebuild_taskheap\<close> does not order the heap. It assigns the new entries to the heap and then
  sorts the list they were copied from, so the heap keeps the order in which the tasks are held
  in memory; there is a state in which two tasks end up in the wrong order.
\<close>

theorem rebuild_taskheap_keeps_memory_order:
  "map (\<lambda>(_, _, _, u). u) (taskheap (rebuild_taskheap env s)) = map t_uuid (vals (tasks s))
   \<and> (\<exists>s' :: cluster. \<not> sorted_wrt (\<lambda>a b. \<not> tlt demo_cluster_env b a) (taskheap (rebuild_taskheap demo_cluster_env s')))"
proof
  show "map (\<lambda>(_, _, _, u). u) (taskheap (rebuild_taskheap env s)) = map t_uuid (vals (tasks s))"
    by (simp add: rebuild_taskheap_def)
  let ?t = "\<lambda>u c. (new_task u)\<lparr>t_attrs := [(''clock'', PNum c)]\<rparr>"
  show "\<exists>s' :: cluster. \<not> sorted_wrt (\<lambda>a b. \<not> tlt demo_cluster_env b a) (taskheap (rebuild_taskheap demo_cluster_env s'))"
    by (rule exI [of _ "(new_cluster 9)\<lparr>tasks := [(''a'', ?t ''a'' 2), (''b'', ?t ''b'' 1)]\<rparr>"])
      (simp add: rebuild_taskheap_def demo_cluster_env_def t_get_def new_task_def new_cluster_def)
qed

text \<open>
  a task event records the sender's time as the heartbeat. The dispatcher passes the local
  receive time and the event's time stamp to \<open>Worker.event\<close> in swapped positions, so for a worker
  that is already known the heartbeat added on a task event is the time stamp of the sender's
  clock, not the time at which the event was received.
\<close>

theorem task_event_heartbeat_is_sender_time:
  assumes "dict_get (workers s) h = Some w" and "subject \<noteq> ''sent''" and "lr \<noteq> 0" and "ts \<noteq> 0"
  shows "\<exists>t' s' org w'. attach_origin env subject h (PNum ts) (PNum lr) t s = Inr (t', s', org)
    \<and> dict_get (workers s') h = Some w' \<and> heartbeats w' = beat ts (heartbeats w)"
proof -
  have "h \<in> set (keys (workers s))" using assms(1) dict_get_Some_iff by fast
  then show ?thesis using assms by (auto simp: attach_origin_def worker_event_def Let_def write_back_def dict_simps)
qed

theorem task_event_heartbeat_is_sender_time_witness:
  "\<exists>t' s' org w'. attach_origin demo_cluster_env ''received'' ''h'' (PNum 50) (PNum 100) (new_task ''u'')
      ((new_cluster 1)\<lparr>workers := [(''h'', new_worker ''h'')]\<rparr>) = Inr (t', s', org)
    \<and> dict_get (workers s') ''h'' = Some w' \<and> heartbeats w' = beat 50 []"
  using task_event_heartbeat_is_sender_time [of "(new_cluster 1)\<lparr>workers := [(''h'', new_worker ''h'')]\<rparr>" "''h''" "new_worker ''h''" "''received''" 100 50
      demo_cluster_env "new_task ''u''"]
  by (simp add: new_worker_def)

end
