(* ===== verification/Crontab_Parser.thy ===== *)
theory Crontab_Parser
  imports Prelude
begin

text \<open>
  The crontab expressions of \<open>celery.schedules\<close>: \<open>crontab_parser\<close> and \<open>_expand_cronspec\<close>, with the
  helpers \<open>weekday\<close> and \<open>yearmonth\<close> of \<open>celery.utils.time\<close> and what they use of the language:
  \<open>str.split\<close>, \<open>int\<close>, extended slices, and \<open>re.match\<close> on the four patterns of the parser.
  Strings are over 8-bit characters; word characters are ASCII letters, digits and the underscore.
\<close>

section \<open>Strings\<close>

definition is_digit :: "char \<Rightarrow> bool" where
  "is_digit c \<longleftrightarrow> CHR ''0'' \<le> c \<and> c \<le> CHR ''9''"

definition is_word :: "char \<Rightarrow> bool" where
  "is_word c \<longleftrightarrow> is_digit c \<or> (CHR ''a'' \<le> c \<and> c \<le> CHR ''z'') \<or> (CHR ''A'' \<le> c \<and> c \<le> CHR ''Z'') \<or> c = CHR ''_''"

definition is_space :: "char \<Rightarrow> bool" where
  "is_space c \<longleftrightarrow> c \<in> {CHR '' '', CHR 0x09, CHR 0x0A, CHR 0x0B, CHR 0x0C, CHR 0x0D}"

definition lower :: "string \<Rightarrow> string" where
  "lower = map (\<lambda>c. if CHR ''A'' \<le> c \<and> c \<le> CHR ''Z'' then char_of ((of_char c :: nat) + 32) else c)"

fun split_on :: "char \<Rightarrow> string \<Rightarrow> string list" where
  "split_on sep [] = [[]]"
| "split_on sep (c # cs) = (if c = sep then [] # split_on sep cs
     else (case split_on sep cs of [] \<Rightarrow> [[c]] | w # ws \<Rightarrow> (c # w) # ws))"

definition strip :: "string \<Rightarrow> string" where
  "strip s = rev (dropWhile is_space (rev (dropWhile is_space s)))"

definition digit_val :: "char \<Rightarrow> nat" where
  "digit_val c = of_char c - 48"

text \<open>The digits of an integer literal; a single underscore may stand between two digits.\<close>

fun digits :: "bool \<Rightarrow> nat \<Rightarrow> string \<Rightarrow> nat option" where
  "digits after acc [] = (if after then Some acc else None)"
| "digits after acc (c # cs) =
     (if is_digit c then digits True (acc * 10 + digit_val c) cs
      else if c = CHR ''_'' \<and> after then digits False acc cs
      else None)"

definition py_int :: "string \<Rightarrow> int result" where
  "py_int s = (case strip s of
     [] \<Rightarrow> Inl ValueError
   | c # cs \<Rightarrow>
       (case (if c = CHR ''-'' \<or> c = CHR ''+'' then digits False 0 cs else digits False 0 (c # cs)) of
          None \<Rightarrow> Inl ValueError
        | Some n \<Rightarrow> Inr (if c = CHR ''-'' then - int n else int n)))"

section \<open>Names of days and months\<close>

definition WEEKDAYS :: "(string, int) dict" where
  "WEEKDAYS = zip [''sun'', ''mon'', ''tue'', ''wed'', ''thu'', ''fri'', ''sat''] [0, 1, 2, 3, 4, 5, 6]"

definition YEARMONTHS :: "(string, int) dict" where
  "YEARMONTHS = zip [''jan'', ''feb'', ''mar'', ''apr'', ''may'', ''jun'', ''jul'', ''aug'', ''sep'', ''oct'', ''nov'', ''dec'']
     [1, 2, 3, 4, 5, 6, 7, 8, 9, 10, 11, 12]"

definition weekday :: "string \<Rightarrow> int result" where
  "weekday name = (case dict_get WEEKDAYS (lower (take 3 name)) of None \<Rightarrow> Inl KeyError | Some n \<Rightarrow> Inr n)"

definition yearmonth :: "string \<Rightarrow> int result" where
  "yearmonth name = (case dict_get YEARMONTHS (lower (take 3 name)) of None \<Rightarrow> Inl KeyError | Some n \<Rightarrow> Inr n)"

section \<open>The patterns\<close>

text \<open>
  \<open>span\<close> takes the word characters at the front. In \<open>(\w+?)-(\w+)\<close> the hyphen is not a word
  character, so the lazy first group is the whole run before it and the second group is the whole
  run after it; \<open>match\<close> anchors the pattern at the start of the part and not at its end.
\<close>

definition word_span :: "string \<Rightarrow> string \<times> string" where
  "word_span s = (takeWhile is_word s, dropWhile is_word s)"

definition match_range :: "string \<Rightarrow> (string \<times> string \<times> string) option" where
  "match_range s = (case word_span s of
     (a, c # r) \<Rightarrow> (case word_span r of (b, r') \<Rightarrow> if c = CHR ''-'' \<and> a \<noteq> [] \<and> b \<noteq> [] then Some (a, b, r') else None)
   | (a, []) \<Rightarrow> None)"

definition match_steps :: "string \<Rightarrow> string option option" where
  "match_steps s = (case s of
     c # r \<Rightarrow> if c = CHR ''/'' then Some (case word_span r of (w, _) \<Rightarrow> if w = [] then None else Some w) else None
   | [] \<Rightarrow> None)"

datatype pat = RangeSteps string string "string option" | Range string string | StarSteps "string option" | Star | NoMatch

definition match_part :: "string \<Rightarrow> pat" where
  "match_part part = (case match_range part of
     Some (a, b, r) \<Rightarrow> (case match_steps r of Some st \<Rightarrow> RangeSteps a b st | None \<Rightarrow> Range a b)
   | None \<Rightarrow>
       (case (case part of c # r \<Rightarrow> if c = CHR ''*'' then match_steps r else None | [] \<Rightarrow> None) of
          Some st \<Rightarrow> StarSteps st
        | None \<Rightarrow> if part = ''*'' \<or> part = [CHR ''*'', CHR 0x0A] then Star else NoMatch))"

section \<open>The parser\<close>

datatype perr = ParseException | PErr exn

type_synonym 'a presult = "perr + 'a"

record crontab_parser =
  p_max :: int
  p_min :: int

definition lift_err :: "'a result \<Rightarrow> 'a presult" where
  "lift_err r = (case r of Inl e \<Rightarrow> Inl (PErr e) | Inr x \<Rightarrow> Inr x)"

definition expand_star :: "crontab_parser \<Rightarrow> int list" where
  "expand_star p = [p_min p .. p_max p + p_min p - 1]"

definition expand_number :: "crontab_parser \<Rightarrow> string \<Rightarrow> int presult" where
  "expand_number p s =
     (if s \<noteq> [] \<and> hd s = CHR ''-'' then Inl ParseException
      else res_bind (case py_int s of
          Inr i \<Rightarrow> Inr i
        | Inl _ \<Rightarrow> (case yearmonth s of
            Inr i \<Rightarrow> Inr i
          | Inl _ \<Rightarrow> (case weekday s of Inr i \<Rightarrow> Inr i | Inl _ \<Rightarrow> Inl (PErr ValueError))))
        (\<lambda>i. if i > p_min p + p_max p - 1 then Inl (PErr ValueError)
             else if i < p_min p then Inl (PErr ValueError) else Inr i))"

definition expand_range :: "crontab_parser \<Rightarrow> string \<Rightarrow> string \<Rightarrow> int list presult" where
  "expand_range p a b =
     res_bind (expand_number p a) (\<lambda>fr. res_bind (expand_number p b) (\<lambda>to.
       Inr (if to < fr then [fr .. p_min p + p_max p - 1] @ [p_min p .. to] else [fr .. to])))"

text \<open>The slice \<open>[::n]\<close>.\<close>

function every :: "nat \<Rightarrow> 'a list \<Rightarrow> 'a list" where
  "every n [] = []"
| "every n (x # xs) = x # every n (drop (n - 1) xs)"
  by pat_completeness auto
termination by (relation "measure (\<lambda>(n, xs). length xs)") auto

definition slice_step :: "int list \<Rightarrow> string \<Rightarrow> int list presult" where
  "slice_step xs st = res_bind (lift_err (py_int st)) (\<lambda>n.
     if n = 0 then Inl (PErr ValueError) else if n < 0 then Inr (every (nat (- n)) (rev xs)) else Inr (every (nat n) xs))"

definition parse_part :: "crontab_parser \<Rightarrow> string \<Rightarrow> int list presult" where
  "parse_part p part = (case match_part part of
     RangeSteps a b st \<Rightarrow> (case st of None \<Rightarrow> Inl ParseException | Some n \<Rightarrow> res_bind (expand_range p a b) (\<lambda>xs. slice_step xs n))
   | Range a b \<Rightarrow> expand_range p a b
   | StarSteps st \<Rightarrow> (case st of None \<Rightarrow> Inl ParseException | Some n \<Rightarrow> slice_step (expand_star p) n)
   | Star \<Rightarrow> Inr (expand_star p)
   | NoMatch \<Rightarrow> res_bind (expand_number p part) (\<lambda>i. Inr [i]))"

fun parse_parts :: "crontab_parser \<Rightarrow> string list \<Rightarrow> int set \<Rightarrow> int set presult" where
  "parse_parts p [] acc = Inr acc"
| "parse_parts p (part # parts) acc =
     (if part = [] then Inl ParseException
      else res_bind (parse_part p part) (\<lambda>xs. parse_parts p parts (acc \<union> set xs)))"

definition parse :: "crontab_parser \<Rightarrow> string \<Rightarrow> int set presult" where
  "parse p spec = parse_parts p (split_on CHR '','' spec) {}"

datatype cronspec = CInt int | CStr string | CIter "int list" | COther

definition expand_cronspec :: "cronspec \<Rightarrow> int \<Rightarrow> int \<Rightarrow> int set presult" where
  "expand_cronspec spec mx mn =
     res_bind (case spec of
         CInt n \<Rightarrow> Inr {n}
       | CStr s \<Rightarrow> parse \<lparr>p_max = mx, p_min = mn\<rparr> s
       | CIter xs \<Rightarrow> Inr (set xs)
       | COther \<Rightarrow> Inl (PErr TypeError))
       (\<lambda>result. if \<exists>n \<in> result. n \<ge> mx + mn \<or> n < mn then Inl (PErr ValueError) else Inr result)"

section \<open>Crontab fields\<close>

record crontab =
  c_minute :: "int set"
  c_hour :: "int set"
  c_day_of_week :: "int set"
  c_day_of_month :: "int set"
  c_month_of_year :: "int set"
  orig_day_of_month :: cronspec
  orig_month_of_year :: cronspec

definition new_crontab :: "cronspec \<Rightarrow> cronspec \<Rightarrow> cronspec \<Rightarrow> cronspec \<Rightarrow> cronspec \<Rightarrow> crontab presult" where
  "new_crontab mi ho dow domo moy =
     res_bind (expand_cronspec ho 24 0) (\<lambda>h. res_bind (expand_cronspec mi 60 0) (\<lambda>m.
     res_bind (expand_cronspec dow 7 0) (\<lambda>w. res_bind (expand_cronspec domo 31 1) (\<lambda>d.
     res_bind (expand_cronspec moy 12 1) (\<lambda>y.
       Inr \<lparr>c_minute = m, c_hour = h, c_day_of_week = w, c_day_of_month = d, c_month_of_year = y,
            orig_day_of_month = domo, orig_month_of_year = moy\<rparr>)))))"

definition crontab_from_string :: "string \<Rightarrow> crontab presult" where
  "crontab_from_string s = (case split_on CHR '' '' s of
     [mi, ho, domo, moy, dow] \<Rightarrow> new_crontab (CStr mi) (CStr ho) (CStr dow) (CStr domo) (CStr moy)
   | _ \<Rightarrow> Inl (PErr ValueError))"

section \<open>Bounds\<close>

definition in_bounds :: "crontab_parser \<Rightarrow> int set \<Rightarrow> bool" where
  "in_bounds p S \<longleftrightarrow> S \<subseteq> {p_min p .. p_min p + p_max p - 1}"

lemma expand_number_bounds: "expand_number p s = Inr i \<Longrightarrow> in_bounds p {i}"
  by (auto simp: expand_number_def res_bind_Inr_iff in_bounds_def split: if_splits)

lemma expand_range_bounds:
  "expand_range p a b = Inr xs \<Longrightarrow> in_bounds p (set xs) \<and> xs \<noteq> []"
  by (auto simp: expand_range_def res_bind_Inr_iff in_bounds_def dest!: expand_number_bounds split: if_splits)

lemma set_every: "0 < n \<Longrightarrow> set (every n xs) = {xs ! (k * n) | k. k * n < length xs}"
proof (induction n xs rule: every.induct)
  case (1 n)
  then show ?case by simp
next
  case (2 n x xs)
  let ?ys = "drop (n - 1) xs"
  have "y \<in> set (every n (x # xs)) \<longleftrightarrow> (\<exists>k. y = (x # xs) ! (k * n) \<and> k * n < length (x # xs))" for y
  proof
    assume "y \<in> set (every n (x # xs))"
    then consider "y = x" | k where "y = ?ys ! (k * n)" "k * n < length ?ys" using 2 by auto
    then show "\<exists>k. y = (x # xs) ! (k * n) \<and> k * n < length (x # xs)"
    proof cases
      case 1
      then show ?thesis by (intro exI [of _ 0]) simp
    next
      case (2 k)
      moreover have "Suc k * n = Suc (n - 1 + k * n)" using \<open>0 < n\<close> by simp
      ultimately show ?thesis by (intro exI [of _ "Suc k"]) (auto simp: nth_drop)
    qed
  next
    assume "\<exists>k. y = (x # xs) ! (k * n) \<and> k * n < length (x # xs)"
    then obtain k where k: "y = (x # xs) ! (k * n)" "k * n < length (x # xs)" by blast
    show "y \<in> set (every n (x # xs))"
    proof (cases k)
      case 0
      then show ?thesis using k by simp
    next
      case (Suc j)
      have e: "k * n = Suc (n - 1 + j * n)" using Suc \<open>0 < n\<close> by simp
      have "y = ?ys ! (j * n)" "j * n < length ?ys" using k unfolding e by (auto simp: nth_drop)
      then show ?thesis using 2 by auto
    qed
  qed
  then show ?case by blast
qed

lemma every_subset: "set (every n xs) \<subseteq> set xs \<and> (xs \<noteq> [] \<longrightarrow> every n xs \<noteq> [])"
proof (induction n xs rule: every.induct)
  case (2 n x xs)
  then show ?case using set_drop_subset [of "n - 1" xs] by auto
qed simp

lemma slice_step_spec: "slice_step xs st = Inr ys \<Longrightarrow> set ys \<subseteq> set xs \<and> (xs \<noteq> [] \<longrightarrow> ys \<noteq> [])"
  using every_subset [of _ xs] every_subset [of _ "rev xs"]
  by (auto simp: slice_step_def res_bind_Inr_iff split: if_splits)

lemma parse_part_bounds:
  assumes "0 < p_max p" and "parse_part p part = Inr xs"
  shows "in_bounds p (set xs) \<and> xs \<noteq> []"
proof -
  have star: "in_bounds p (set (expand_star p)) \<and> expand_star p \<noteq> []" using assms(1) by (auto simp: expand_star_def in_bounds_def)
  have slice: "slice_step ys st = Inr xs \<Longrightarrow> in_bounds p (set ys) \<and> ys \<noteq> [] \<Longrightarrow> ?thesis" for ys st
    using slice_step_spec [of ys st xs] unfolding in_bounds_def by auto
  show ?thesis
  proof (cases "match_part part")
    case (RangeSteps a b st)
    then obtain ys n where "expand_range p a b = Inr ys" "slice_step ys n = Inr xs"
      using assms(2) by (auto simp: parse_part_def res_bind_Inr_iff split: option.splits)
    then show ?thesis using slice expand_range_bounds by blast
  next
    case (StarSteps st)
    then show ?thesis using assms(2) slice [OF _ star] by (auto simp: parse_part_def split: option.splits)
  qed (use assms(2) star expand_range_bounds expand_number_bounds in \<open>auto simp: parse_part_def res_bind_Inr_iff\<close>)
qed

lemma parse_parts_bounds:
  assumes "0 < p_max p"
  shows "parse_parts p parts acc = Inr S \<Longrightarrow> in_bounds p acc \<Longrightarrow> in_bounds p S \<and> acc \<subseteq> S \<and> (parts \<noteq> [] \<longrightarrow> S \<noteq> {})"
proof (induction parts arbitrary: acc)
  case Nil
  then show ?case by simp
next
  case (Cons part parts)
  then obtain xs where xs: "parse_part p part = Inr xs" "parse_parts p parts (acc \<union> set xs) = Inr S"
    by (auto simp: res_bind_Inr_iff split: if_splits)
  then have "in_bounds p (set xs)" "xs \<noteq> []" using parse_part_bounds [OF assms] by auto
  then show ?case using Cons.IH [OF xs(2)] Cons.prems(2) by (auto simp: in_bounds_def)
qed

lemma split_on_ne: "split_on sep s \<noteq> []"
  by (induction s) (auto split: list.split)

lemma parse_bounds: "0 < p_max p \<Longrightarrow> parse p spec = Inr S \<Longrightarrow> in_bounds p S \<and> S \<noteq> {}"
  using parse_parts_bounds [of p "split_on CHR '','' spec" "{}" S] split_on_ne by (auto simp: parse_def in_bounds_def)

section \<open>Printing numbers\<close>

definition digit_char :: "nat \<Rightarrow> char" where
  "digit_char d = char_of (48 + d)"

fun show_nat :: "nat \<Rightarrow> string" where
  "show_nat n = (if n < 10 then [digit_char n] else show_nat (n div 10) @ [digit_char (n mod 10)])"

declare show_nat.simps [simp del]

fun join :: "string list \<Rightarrow> string" where
  "join [] = []"
| "join [w] = w"
| "join (w # ws) = w @ CHR '','' # join ws"

lemma digit_char_props: "d < 10 \<Longrightarrow> is_digit (digit_char d) \<and> digit_val (digit_char d) = d"
  by (auto simp: is_digit_def digit_char_def digit_val_def less_eq_char_def)

lemma digits_snoc:
  "\<forall>x \<in> set xs. is_digit x \<Longrightarrow> is_digit c \<Longrightarrow>
   digits True acc (xs @ [c]) = map_option (\<lambda>n. n * 10 + digit_val c) (digits True acc xs)"
  by (induction xs arbitrary: acc) auto

lemma digits_append:
  "\<forall>x \<in> set xs. is_digit x \<Longrightarrow> xs \<noteq> [] \<Longrightarrow> is_digit c \<Longrightarrow>
   digits b acc (xs @ [c]) = map_option (\<lambda>n. n * 10 + digit_val c) (digits b acc xs)"
  by (cases xs) (auto simp: digits_snoc)

lemma show_nat_digits: "(\<forall>c \<in> set (show_nat n). is_digit c) \<and> show_nat n \<noteq> [] \<and> digits False 0 (show_nat n) = Some n"
proof (induction n rule: show_nat.induct)
  case (1 n)
  show ?case
  proof (cases "n < 10")
    case True
    then show ?thesis using digit_char_props by (subst (1 2 3) show_nat.simps) simp
  next
    case False
    with 1 have "(\<forall>c \<in> set (show_nat (n div 10)). is_digit c)" "show_nat (n div 10) \<noteq> []" "digits False 0 (show_nat (n div 10)) = Some (n div 10)" by auto
    moreover have "is_digit (digit_char (n mod 10))" "digit_val (digit_char (n mod 10)) = n mod 10"
      using digit_char_props [of "n mod 10"] by auto
    ultimately show ?thesis
      using False by (subst (1 2 3) show_nat.simps) (simp add: digits_append mult.commute)
  qed
qed

lemma digit_not: "is_digit c \<Longrightarrow> c \<noteq> CHR ''-'' \<and> c \<noteq> CHR ''+'' \<and> c \<noteq> CHR '','' \<and> \<not> is_space c \<and> is_word c \<and> c \<noteq> CHR ''*'' \<and> c \<noteq> CHR ''/''"
  by (auto simp: is_digit_def is_space_def is_word_def less_eq_char_def)

lemma strip_digits: "\<forall>c \<in> set s. is_digit c \<Longrightarrow> strip s = s"
proof -
  assume d: "\<forall>c \<in> set s. is_digit c"
  have nd: "dropWhile is_space t = t" if "\<forall>c \<in> set t. is_digit c" for t
    using that digit_not by (cases t) auto
  show ?thesis using nd [OF d] nd [of "rev s"] d by (simp add: strip_def)
qed

lemma py_int_show: "py_int (show_nat n) = Inr (int n)"
proof -
  obtain c cs where s: "show_nat n = c # cs" using show_nat_digits [of n] by (cases "show_nat n") auto
  have d: "\<forall>x \<in> set (c # cs). is_digit x" "digits False 0 (c # cs) = Some n" using show_nat_digits [of n] s by auto
  then have "c \<noteq> CHR ''-''" "c \<noteq> CHR ''+''" using digit_not [of c] by auto
  then show ?thesis using strip_digits [OF d(1)] d(2) by (simp add: py_int_def s)
qed

lemma match_digits: "\<forall>c \<in> set s. is_digit c \<Longrightarrow> s \<noteq> [] \<Longrightarrow> match_part s = NoMatch"
proof -
  assume d: "\<forall>c \<in> set s. is_digit c" and ne: "s \<noteq> []"
  have "dropWhile is_word s = []" using d digit_not by (auto simp: dropWhile_eq_Nil_conv)
  moreover have "hd s \<noteq> CHR ''*''" using d ne digit_not by (cases s) auto
  ultimately show ?thesis by (cases s) (auto simp: match_part_def match_range_def word_span_def split: if_splits)
qed

lemma split_join:
  assumes "ws \<noteq> []" and "\<forall>w \<in> set ws. sep \<notin> set w" and "sep = CHR '',''"
  shows "split_on sep (join ws) = ws"
proof -
  have plain: "sep \<notin> set w \<Longrightarrow> split_on sep w = [w]" for w by (induction w) auto
  have app: "sep \<notin> set w \<Longrightarrow> split_on sep (w @ sep # r) = w # split_on sep r" for w r by (induction w) auto
  show ?thesis using assms(1,2)
  proof (induction ws rule: join.induct)
    case (3 w v vs)
    then show ?case using app [of w "join (v # vs)"] assms(3) by simp
  qed (auto simp: plain)
qed

section \<open>Properties\<close>

text \<open>
  whatever crontab expression is accepted, it expands to a non-empty set of values inside the
  unit's range, so the range check of \<open>_expand_cronspec\<close> never rejects what the parser produced:
  for a string the outcome of the two is the same.
\<close>

theorem parsed_cronspec_in_range:
  assumes "0 < mx"
  shows "expand_cronspec (CStr s) mx mn = parse \<lparr>p_max = mx, p_min = mn\<rparr> s
    \<and> (\<forall>S. parse \<lparr>p_max = mx, p_min = mn\<rparr> s = Inr S \<longrightarrow> S \<noteq> {} \<and> S \<subseteq> {mn .. mn + mx - 1})"
proof -
  have b: "\<forall>S. parse \<lparr>p_max = mx, p_min = mn\<rparr> s = Inr S \<longrightarrow> S \<noteq> {} \<and> S \<subseteq> {mn .. mn + mx - 1}"
    using parse_bounds [of "\<lparr>p_max = mx, p_min = mn\<rparr>" s] assms by (auto simp: in_bounds_def)
  show ?thesis
  proof (cases "parse \<lparr>p_max = mx, p_min = mn\<rparr> s")
    case (Inr S)
    then have "S \<subseteq> {mn .. mn + mx - 1}" using b by blast
    then have "\<not> (\<exists>n \<in> S. n \<ge> mx + mn \<or> n < mn)" by force
    then show ?thesis using Inr b by (auto simp: expand_cronspec_def)
  qed (simp add: expand_cronspec_def)
qed

theorem parsed_cronspec_in_range_witness:
  "\<exists>S. expand_cronspec (CStr ''*/15'') 60 0 = Inr S \<and> S \<subseteq> {0 .. 59}"
proof -
  have "\<not> isl (parse \<lparr>p_max = 60, p_min = 0\<rparr> ''*/15'')" by code_simp
  then have "\<exists>S. parse \<lparr>p_max = 60, p_min = 0\<rparr> ''*/15'' = Inr S" by (cases "parse \<lparr>p_max = 60, p_min = 0\<rparr> ''*/15''") auto
  then show ?thesis using parsed_cronspec_in_range [of 60 "''*/15''" 0] by auto
qed

text \<open>
  \<open>*/n\<close> selects every n-th value counted from the start of the range: the values whose
  distance from the minimum is a multiple of n.
\<close>

theorem star_step_semantics:
  assumes "0 < n"
  shows "parse_part p (''*/'' @ show_nat n) = Inr xs \<Longrightarrow>
    set xs = {v. p_min p \<le> v \<and> v < p_min p + p_max p \<and> (v - p_min p) mod int n = 0}"
proof -
  assume parsed: "parse_part p (''*/'' @ show_nat n) = Inr xs"
  have dig: "\<forall>c \<in> set (show_nat n). is_digit c" "show_nat n \<noteq> []" using show_nat_digits by auto
  then have run: "takeWhile is_word (show_nat n) = show_nat n" using digit_not by (simp add: takeWhile_eq_all_conv)
  moreover have "\<not> is_word CHR ''*''" by code_simp
  ultimately have "match_part (''*/'' @ show_nat n) = StarSteps (Some (show_nat n))"
    using dig(2) by (simp del: takeWhile_eq_all_conv add: match_part_def match_range_def word_span_def match_steps_def)
  then have xs: "xs = every n (expand_star p)"
    using parsed assms by (simp add: parse_part_def slice_step_def py_int_show lift_err_def)
  have len: "length (expand_star p) = nat (p_max p)" by (simp add: expand_star_def)
  have nth: "i < length (expand_star p) \<Longrightarrow> expand_star p ! i = p_min p + int i" for i by (simp add: expand_star_def nth_upto)
  show ?thesis
  proof (intro equalityI subsetI)
    fix v
    assume "v \<in> set xs"
    then obtain k where "v = expand_star p ! (k * n)" "k * n < length (expand_star p)" unfolding xs set_every [OF assms] by blast
    then show "v \<in> {v. p_min p \<le> v \<and> v < p_min p + p_max p \<and> (v - p_min p) mod int n = 0}"
      using nth len by (auto simp: zless_nat_eq_int_zless)
  next
    fix v
    assume v: "v \<in> {v. p_min p \<le> v \<and> v < p_min p + p_max p \<and> (v - p_min p) mod int n = 0}"
    then obtain k where k: "v - p_min p = int n * k" by auto
    then have "0 \<le> int n * k" using v by simp
    then have "0 \<le> k" using assms by (simp add: zero_le_mult_iff)
    then obtain j where j: "v = p_min p + int (j * n)" using k by (metis add.commute diff_add_cancel mult.commute nonneg_int_cases of_nat_mult)
    then have "j * n < length (expand_star p)" using v len by (auto simp: zless_nat_eq_int_zless)
    then show "v \<in> set xs" unfolding xs set_every [OF assms] using j nth by (auto intro!: exI [of _ j])
  qed
qed

theorem star_step_semantics_witness:
  "\<exists>xs. parse_part \<lparr>p_max = 60, p_min = 0\<rparr> (''*/'' @ show_nat 25) = Inr xs \<and> set xs = {v. 0 \<le> v \<and> v < 60 \<and> v mod 25 = 0}"
proof -
  have xs: "parse_part \<lparr>p_max = 60, p_min = 0\<rparr> (''*/'' @ show_nat 25) = Inr [0, 25, 50]" by code_simp
  from star_step_semantics [OF _ xs] xs show ?thesis by simp
qed

text \<open>
  printing and parsing. The list of the decimal numbers of any non-empty set of values of the
  unit, joined by commas, parses back to exactly that set.
\<close>

theorem cronspec_print_parse:
  assumes "ns \<noteq> []" and "\<forall>n \<in> set ns. p_min p \<le> int n \<and> int n < p_min p + p_max p"
  shows "parse p (join (map show_nat ns)) = Inr (int ` set ns)"
proof -
  have "\<forall>w \<in> set (map show_nat ns). CHR '','' \<notin> set w" using show_nat_digits digit_not by fastforce
  then have split: "split_on CHR '','' (join (map show_nat ns)) = map show_nat ns" using assms(1) by (intro split_join) auto
  have part: "parse_part p (show_nat n) = Inr [int n]" if "n \<in> set ns" for n
  proof -
    have d: "\<forall>c \<in> set (show_nat n). is_digit c" "show_nat n \<noteq> []" using show_nat_digits by auto
    then have "hd (show_nat n) \<noteq> CHR ''-''" using digit_not hd_in_set by blast
    then show ?thesis
      using assms(2) that by (auto simp: parse_part_def match_digits [OF d] expand_number_def py_int_show)
  qed
  have "parse_parts p (map show_nat ms) acc = Inr (acc \<union> int ` set ms)" if "set ms \<subseteq> set ns" for ms acc
    using that
  proof (induction ms arbitrary: acc)
    case (Cons m ms)
    then show ?case using part [of m] show_nat_digits [of m] by auto
  qed simp
  then show ?thesis by (simp add: parse_def split)
qed

theorem cronspec_print_parse_witness:
  "parse \<lparr>p_max = 24, p_min = 0\<rparr> (join (map show_nat [8, 12, 23])) = Inr {8, 12, 23}"
  using cronspec_print_parse [of "[8, 12, 23]" "\<lparr>p_max = 24, p_min = 0\<rparr>"] by simp

end
