(* ===== verification/Crontab.thy ===== *)
theory Crontab
  imports Crontab_Parser
begin

text \<open>
  When a crontab runs next: \<open>remaining_delta\<close>, \<open>_delta_to_next\<close>, \<open>remaining_estimate\<close> and \<open>is_due\<close> of
  \<open>celery.schedules.crontab\<close>, the class \<open>ffwd\<close> and \<open>remaining\<close> of \<open>celery.utils.time\<close>, over a model of
  \<open>datetime\<close>: the proleptic Gregorian calendar of the years 1 to 9999 with wall-clock fields.

  The time zone is a parameter. An aware date time is an instant (microseconds since an epoch);
  \<open>wall\<close> gives its fields in the zone of the schedule, \<open>utc\<close> the instant of wall-clock fields,
  and \<open>loc\<close> is \<open>localize\<close>, which moves a wall-clock time that does not exist in the zone.
\<close>

section \<open>The calendar\<close>

type_synonym date = "int \<times> int \<times> int"

definition leap :: "int \<Rightarrow> bool" where
  "leap y \<longleftrightarrow> y mod 4 = 0 \<and> (y mod 100 \<noteq> 0 \<or> y mod 400 = 0)"

definition days_in_month :: "int \<Rightarrow> int \<Rightarrow> int" where
  "days_in_month y m = (if m = 2 then (if leap y then 29 else 28) else if m \<in> {4, 6, 9, 11} then 30 else 31)"

fun valid_date :: "date \<Rightarrow> bool" where
  "valid_date (y, m, d) \<longleftrightarrow> 1 \<le> y \<and> y \<le> 9999 \<and> 1 \<le> m \<and> m \<le> 12 \<and> 1 \<le> d \<and> d \<le> days_in_month y m"

definition days_before_month :: "int \<Rightarrow> int \<Rightarrow> int" where
  "days_before_month y m = [0, 31, 59, 90, 120, 151, 181, 212, 243, 273, 304, 334] ! nat (m - 1)
     + (if m > 2 \<and> leap y then 1 else 0)"

definition days_before_year :: "int \<Rightarrow> int" where
  "days_before_year y = (y - 1) * 365 + (y - 1) div 4 - (y - 1) div 100 + (y - 1) div 400"

fun ordinal :: "date \<Rightarrow> int" where
  "ordinal (y, m, d) = days_before_year y + days_before_month y m + d"

text \<open>Sunday is day 0, as in \<open>isoweekday() % 7\<close>; \<open>weekday()\<close> has Monday as day 0.\<close>

definition dow_num :: "date \<Rightarrow> int" where
  "dow_num d = ordinal d mod 7"

definition py_weekday :: "date \<Rightarrow> int" where
  "py_weekday d = (ordinal d + 6) mod 7"

fun next_date :: "date \<Rightarrow> date" where
  "next_date (y, m, d) =
     (if d < days_in_month y m then (y, m, d + 1) else if m < 12 then (y, m + 1, 1) else (y + 1, 1, 1))"

fun add_days :: "nat \<Rightarrow> date \<Rightarrow> date result" where
  "add_days 0 d = Inr d"
| "add_days (Suc n) d = (let d' = next_date d in if fst d' > 9999 then Inl OverflowError else add_days n d')"

record dt =
  dt_date :: date
  dt_hour :: int
  dt_minute :: int
  dt_second :: int
  dt_micro :: int

definition dt_key :: "dt \<Rightarrow> date \<times> int \<times> int \<times> int \<times> int" where
  "dt_key t = (dt_date t, dt_hour t, dt_minute t, dt_second t, dt_micro t)"

definition valid_dt :: "dt \<Rightarrow> bool" where
  "valid_dt t \<longleftrightarrow> valid_date (dt_date t) \<and> dt_hour t \<in> {0..23} \<and> dt_minute t \<in> {0..59}
     \<and> dt_second t \<in> {0..59} \<and> 0 \<le> dt_micro t \<and> dt_micro t \<le> 999999"

section \<open>Relative dates\<close>

record ffwd =
  f_year :: "int option"
  f_month :: "int option"
  f_weeks :: nat
  f_weekday :: "int option"
  f_day :: "int option"
  f_hour :: "int option"
  f_minute :: "int option"
  f_second :: "int option"
  f_micro :: "int option"

definition ffwd0 :: ffwd where
  "ffwd0 = \<lparr>f_year = None, f_month = None, f_weeks = 0, f_weekday = None, f_day = None, f_hour = None,
     f_minute = None, f_second = None, f_micro = None\<rparr>"

definition or_val :: "int option \<Rightarrow> int \<Rightarrow> int" where
  "or_val v w = (case v of None \<Rightarrow> w | Some x \<Rightarrow> if x = 0 then w else x)"

definition fld :: "int option \<Rightarrow> int \<Rightarrow> int" where
  "fld v w = (case v of None \<Rightarrow> w | Some x \<Rightarrow> x)"

definition ffwd_radd :: "dt \<Rightarrow> ffwd \<Rightarrow> dt result" where
  "ffwd_radd t f =
     (case dt_date t of (y0, m0, d0) \<Rightarrow>
        let year = or_val (f_year f) y0; month = or_val (f_month f) m0 in
        if month < 1 \<or> 12 < month then Inl ValueError
        else
          let day = min (days_in_month year month) (or_val (f_day f) d0);
              ret = \<lparr>dt_date = (year, month, day), dt_hour = fld (f_hour f) (dt_hour t), dt_minute = fld (f_minute f) (dt_minute t),
                     dt_second = fld (f_second f) (dt_second t), dt_micro = fld (f_micro f) (dt_micro t)\<rparr> in
          if \<not> valid_dt ret then Inl ValueError
          else res_bind (case f_weekday f of None \<Rightarrow> Inr (dt_date ret)
                 | Some wd \<Rightarrow> add_days (nat ((7 - py_weekday (dt_date ret) + wd) mod 7)) (dt_date ret)) (\<lambda>d.
               res_bind (add_days (f_weeks f * 7) d) (\<lambda>d'. Inr (ret\<lparr>dt_date := d'\<rparr>))))"

section \<open>The next day of a crontab with day or month fields\<close>

definition py_min :: "int set \<Rightarrow> int result" where
  "py_min S = (if S = {} then Inl ValueError else Inr (Min S))"

definition py_max :: "int set \<Rightarrow> int result" where
  "py_max S = (if S = {} then Inl ValueError else Inr (Max S))"

definition bisect :: "int list \<Rightarrow> int \<Rightarrow> nat" where
  "bisect xs x = length (takeWhile (\<lambda>y. y \<le> x) xs)"

definition bisect_left :: "int list \<Rightarrow> int \<Rightarrow> nat" where
  "bisect_left xs x = length (takeWhile (\<lambda>y. y < x) xs)"

definition item_at :: "'a list \<Rightarrow> nat \<Rightarrow> 'a result" where
  "item_at xs i = (if i < length xs then Inr (xs ! i) else Inl IndexError)"

type_synonym datedata = "int \<times> nat \<times> nat"

definition day_out_of_range :: "date \<Rightarrow> bool" where
  "day_out_of_range d \<longleftrightarrow> \<not> valid_date d"

fun roll_flag :: "int list \<Rightarrow> int list \<Rightarrow> (date \<Rightarrow> bool) \<Rightarrow> datedata \<Rightarrow> bool result" where
  "roll_flag days months before (y, moy, domi) =
     (if domi = length days then Inr True
      else res_bind (item_at months moy) (\<lambda>m. res_bind (item_at days domi) (\<lambda>d.
        Inr (day_out_of_range (y, m, d) \<or> before (y, m, d)))))"

fun roll_over :: "nat \<Rightarrow> int list \<Rightarrow> int list \<Rightarrow> (date \<Rightarrow> bool) \<Rightarrow> datedata \<Rightarrow> datedata result" where
  "roll_over 0 days months before p = Inl RuntimeError"
| "roll_over (Suc n) days months before (y, moy, domi) =
     (case roll_flag days months before (y, moy, domi) of
        Inl e \<Rightarrow> Inl e
      | Inr flag \<Rightarrow>
          if flag then roll_over n days months before
             (if Suc moy = length months then (y + 1, 0, 0) else (y, Suc moy, 0))
          else Inr (y, moy, domi))"

lemma roll_over_progress:
  "roll_over n days months before p = Inr q \<Longrightarrow>
     p \<le> q \<and> fst (snd q) < length months \<and> snd (snd q) < length days \<and> fst q \<le> 9999
     \<and> roll_flag days months before q = Inr False"
proof (induction n days months before p rule: roll_over.induct)
  case (2 n days months before y moy domi)
  show ?case
  proof (cases "roll_flag days months before (y, moy, domi) = Inr True")
    case True
    then have r: "roll_over n days months before (if Suc moy = length months then (y + 1, 0, 0) else (y, Suc moy, 0)) = Inr q"
      using "2.prems" by simp
    have "(y, moy, domi) \<le> (if Suc moy = length months then (y + 1, 0, 0) else (y, Suc moy, 0))" by (simp add: less_eq_prod_def)
    then show ?thesis using "2.IH" [OF True _ r] by (auto intro: order_trans)
  next
    case False
    then have "q = (y, moy, domi)" "roll_flag days months before q = Inr False"
      using "2.prems" by (auto split: sum.splits if_splits)
    then show ?thesis
      by (auto simp: res_bind_Inr_iff item_at_def day_out_of_range_def split: if_splits)
  qed
qed simp

text \<open>
  The \<open>while 1\<close> loop ends because every turn moves to a later position of the years up to 9999.
\<close>

function day_search :: "int list \<Rightarrow> int list \<Rightarrow> (date \<Rightarrow> bool) \<Rightarrow> int set \<Rightarrow> datedata \<Rightarrow> datedata result" where
  "day_search days months before dows (y, moy, domi) =
     (case res_bind (item_at months moy) (\<lambda>m. res_bind (item_at days domi) (\<lambda>d.
         if valid_date (y, m, d) then Inr (y, m, d) else Inl ValueError)) of
        Inl e \<Rightarrow> Inl e
      | Inr th \<Rightarrow>
          if dow_num th \<in> dows then Inr (y, moy, domi)
          else (case roll_over 2000 days months before (y, moy, Suc domi) of
                  Inl e \<Rightarrow> Inl e
                | Inr p \<Rightarrow> day_search days months before dows p))"
  by pat_completeness auto

termination
proof (relation "measures [\<lambda>(days, months, before, dows, y, moy, domi). nat (10000 - y),
    \<lambda>(days, months, before, dows, y, moy, domi). length months - moy,
    \<lambda>(days, months, before, dows, y, moy, domi). length days - domi]")
  fix days months before dows y moy domi th p
  assume "roll_over 2000 days months before (y, moy, Suc domi) = Inr p"
  from roll_over_progress [OF this]
  show "((days, months, before, dows, p), days, months, before, dows, y, moy, domi)
     \<in> measures [\<lambda>(days, months, before, dows, y, moy, domi). nat (10000 - y),
         \<lambda>(days, months, before, dows, y, moy, domi). length months - moy,
         \<lambda>(days, months, before, dows, y, moy, domi). length days - domi]"
    by (cases p) (auto simp: less_eq_prod_def)
qed simp

declare day_search.simps [simp del]

definition start_position :: "crontab \<Rightarrow> dt \<Rightarrow> datedata" where
  "start_position c last_run =
     (let days = sorted_list_of_set (c_day_of_month c); months = sorted_list_of_set (c_month_of_year c) in
      case dt_date last_run of (y, m, d) \<Rightarrow>
        if m \<in> c_month_of_year c then (y, bisect_left months m, bisect days d)
        else (y, if bisect months m = length months then 0 else bisect months m, 0))"

definition is_before_last_run :: "(dt \<Rightarrow> dt) \<Rightarrow> dt \<Rightarrow> int \<Rightarrow> int \<Rightarrow> date \<Rightarrow> bool" where
  "is_before_last_run loc last_run next_hour next_minute d \<longleftrightarrow>
     dt_key (loc \<lparr>dt_date = d, dt_hour = next_hour, dt_minute = next_minute, dt_second = 0, dt_micro = 0\<rparr>) < dt_key last_run"

definition delta_to_next :: "(dt \<Rightarrow> dt) \<Rightarrow> crontab \<Rightarrow> dt \<Rightarrow> int \<Rightarrow> int \<Rightarrow> ffwd result" where
  "delta_to_next loc c last_run next_hour next_minute =
     (let days = sorted_list_of_set (c_day_of_month c); months = sorted_list_of_set (c_month_of_year c);
          before = is_before_last_run loc last_run next_hour next_minute in
      res_bind (roll_over 2000 days months before (start_position c last_run)) (\<lambda>p.
      res_bind (day_search days months before (c_day_of_week c) p) (\<lambda>(y, moy, domi).
        Inr (ffwd0\<lparr>f_year := Some y, f_month := Some (months ! moy), f_day := Some (days ! domi),
               f_hour := Some next_hour, f_minute := Some next_minute, f_second := Some 0, f_micro := Some 0\<rparr>))))"

section \<open>The next run\<close>

definition execute_this_date :: "crontab \<Rightarrow> date \<Rightarrow> bool" where
  "execute_this_date c d \<longleftrightarrow> fst (snd d) \<in> c_month_of_year c \<and> snd (snd d) \<in> c_day_of_month c \<and> dow_num d \<in> c_day_of_week c"

definition all_dom_moy :: "crontab \<Rightarrow> bool" where
  "all_dom_moy c \<longleftrightarrow> orig_day_of_month c = CStr ''*'' \<and> orig_month_of_year c = CStr ''*''"

definition remaining_delta :: "(dt \<Rightarrow> dt) \<Rightarrow> crontab \<Rightarrow> dt \<Rightarrow> ffwd result" where
  "remaining_delta loc c last_run =
     (let this_date = execute_this_date c (dt_date last_run); dow = dow_num (dt_date last_run) in
      res_bind (if this_date \<and> dt_hour last_run \<in> c_hour c
                then res_bind (py_max (c_minute c)) (\<lambda>mx. Inr (dt_minute last_run < mx)) else Inr False) (\<lambda>this_hour.
      if this_hour then
        res_bind (py_min (Set.filter (\<lambda>minute. minute > dt_minute last_run) (c_minute c))) (\<lambda>next_minute.
        Inr (ffwd0\<lparr>f_minute := Some next_minute, f_second := Some 0, f_micro := Some 0\<rparr>))
      else
        res_bind (py_min (c_minute c)) (\<lambda>next_minute.
        res_bind (if this_date then res_bind (py_max (c_hour c)) (\<lambda>mx. Inr (dt_hour last_run < mx)) else Inr False) (\<lambda>today.
        if today then
          res_bind (py_min (Set.filter (\<lambda>hour. hour > dt_hour last_run) (c_hour c))) (\<lambda>next_hour.
          Inr (ffwd0\<lparr>f_hour := Some next_hour, f_minute := Some next_minute, f_second := Some 0, f_micro := Some 0\<rparr>))
        else
          res_bind (py_min (c_hour c)) (\<lambda>next_hour.
          if all_dom_moy c then
            (let later = Set.filter (\<lambda>day. day > dow) (c_day_of_week c) in
             res_bind (py_min (if later \<noteq> {} then later else c_day_of_week c)) (\<lambda>next_day.
             Inr (ffwd0\<lparr>f_weeks := (if next_day = dow then 1 else 0), f_weekday := Some ((next_day - 1) mod 7),
                    f_hour := Some next_hour, f_minute := Some next_minute, f_second := Some 0, f_micro := Some 0\<rparr>)))
          else delta_to_next loc c last_run next_hour next_minute)))))"

definition next_run :: "(dt \<Rightarrow> dt) \<Rightarrow> crontab \<Rightarrow> dt \<Rightarrow> dt result" where
  "next_run loc c last_run = res_bind (remaining_delta loc c last_run) (ffwd_radd last_run)"

record zone =
  wall :: "int \<Rightarrow> dt"
  utc :: "dt \<Rightarrow> int"
  localize :: "dt \<Rightarrow> dt"

definition remaining_estimate :: "zone \<Rightarrow> crontab \<Rightarrow> int \<Rightarrow> int \<Rightarrow> int result" where
  "remaining_estimate z c now last_run =
     res_bind (next_run (localize z) c (wall z last_run)) (\<lambda>end_date. Inr (utc z end_date - now))"

definition is_due :: "zone \<Rightarrow> int option \<Rightarrow> crontab \<Rightarrow> int \<Rightarrow> int \<Rightarrow> (bool \<times> int) result" where
  "is_due z deadline_secs c now last_run =
     res_bind (remaining_estimate z c now last_run) (\<lambda>rem_secs.
     res_bind (case deadline_secs of
         Some dl \<Rightarrow> if rem_secs < 0
           then res_bind (remaining_estimate z c now (now - dl * 1000000 - 1)) (\<lambda>r. Inr (r > 0))
           else Inr False
       | None \<Rightarrow> Inr False) (\<lambda>has_passed_deadline.
     let due = (max rem_secs 0 = 0) \<and> \<not> has_passed_deadline in
     if due \<or> has_passed_deadline
     then res_bind (remaining_estimate z c now now) (\<lambda>r. Inr (due, max r 0))
     else Inr (due, max rem_secs 0)))"

section \<open>Facts about the calendar\<close>

lemma div_step: "0 < k \<Longrightarrow> y div k = (y - 1) div k + (if y mod k = 0 then 1 else 0)" for y k :: int
proof -
  assume k: "0 < k"
  have y: "y = k * (y div k) + y mod k" by simp
  show ?thesis
  proof (cases "y mod k = 0")
    case True
    then have "y - 1 = k * (y div k - 1) + (k - 1)" using y by (simp add: algebra_simps)
    then show ?thesis using True k by (subst int_div_pos_eq [of "y - 1" k "y div k - 1" "k - 1"]) auto
  next
    case False
    then have "0 \<le> y mod k - 1" "y mod k - 1 < k" using pos_mod_bound [OF k, of y] pos_mod_sign [OF k, of y] by linarith+
    moreover have "y - 1 = k * (y div k) + (y mod k - 1)" using y by simp
    ultimately show ?thesis using False int_div_pos_eq [of "y - 1" k "y div k" "y mod k - 1"] by simp
  qed
qed

lemma mod_100_4: "y mod 100 = 0 \<Longrightarrow> y mod 4 = 0" for y :: int
proof -
  assume "y mod 100 = 0"
  then obtain q where "y = 4 * (25 * q)" by auto
  then show ?thesis by simp
qed

lemma mod_400_100: "y mod 400 = 0 \<Longrightarrow> y mod 100 = 0" for y :: int
proof -
  assume "y mod 400 = 0"
  then obtain q where "y = 100 * (4 * q)" by auto
  then show ?thesis by simp
qed

lemma leap_arith:
  assumes "a' = a + (if P then 1 else 0)" and "b' = b + (if Q then 1 else 0)" and "c' = c + (if R then 1 else 0)"
    and "Q \<Longrightarrow> P" and "R \<Longrightarrow> Q" and "x' = x + (365 :: int)"
  shows "x' + a' - b' + c' = x + a - b + c + (if P \<and> (\<not> Q \<or> R) then 366 else 365)"
  using assms by auto

lemma days_before_next_year: "days_before_year (y + 1) = days_before_year y + (if leap y then 366 else 365)"
  unfolding days_before_year_def leap_def add_diff_cancel_right'
  by (rule leap_arith [OF div_step div_step div_step mod_100_4 mod_400_100]) simp_all

lemma month_cases: "1 \<le> m \<Longrightarrow> m \<le> 12 \<Longrightarrow>
    m = 1 \<or> m = 2 \<or> m = 3 \<or> m = 4 \<or> m = 5 \<or> m = 6 \<or> m = 7 \<or> m = 8 \<or> m = 9 \<or> m = 10 \<or> m = 11 \<or> m = 12" for m :: int
  by arith

lemma days_before_next_month:
  "1 \<le> m \<Longrightarrow> m < 12 \<Longrightarrow> days_before_month y (m + 1) = days_before_month y m + days_in_month y m"
  using month_cases [of m] by (auto simp: days_before_month_def days_in_month_def)

lemma ordinal_next: "valid_date d \<Longrightarrow> ordinal (next_date d) = ordinal d + 1"
proof (cases d)
  case (fields y m dd)
  assume v: "valid_date d"
  show ?thesis
  proof (cases "dd < days_in_month y m \<or> m < 12")
    case True
    then show ?thesis using v fields days_before_next_month [of m y] by (auto simp: days_before_month_def)
  next
    case False
    then have "m = 12" "dd = 31" using v fields by (auto simp: days_in_month_def)
    then show ?thesis using fields days_before_next_year [of y] by (simp add: days_before_month_def days_in_month_def)
  qed
qed

lemma days_in_month_ge: "28 \<le> days_in_month y m"
  by (simp add: days_in_month_def)

lemma next_date_greater: "d < next_date d"
  by (cases d) (simp add: less_prod_def)

lemma next_date_valid: "valid_date d \<Longrightarrow> fst (next_date d) \<le> 9999 \<Longrightarrow> valid_date (next_date d)"
  using days_in_month_ge [of "fst d" "fst (snd d) + 1"] days_in_month_ge [of "fst d + 1" 1] by (cases d) (auto split: if_splits)

lemma next_date_least:
  assumes "valid_date d" and "valid_date e" and "d < e"
  shows "next_date d \<le> e"
proof (cases d; cases e)
  fix y m dd y' m' d'
  assume de: "d = (y, m, dd)" "e = (y', m', d')"
  consider "y < y'" | "y = y'" "m < m'" | "y = y'" "m = m'" "dd < d'"
    using assms(3) de by (auto simp: less_prod_def le_less)
  then show ?thesis by cases (use assms(1,2) de in \<open>auto simp: less_eq_prod_def\<close>)
qed

lemma add_days_props:
  "add_days n d = Inr e \<Longrightarrow> valid_date d \<Longrightarrow>
     valid_date e \<and> d \<le> e \<and> (0 < n \<longrightarrow> d < e) \<and> dow_num e = (dow_num d + int n) mod 7"
proof (induction n arbitrary: d)
  case (Suc n)
  then have e: "add_days n (next_date d) = Inr e" "valid_date (next_date d)"
    using next_date_valid [of d] by (auto simp: Let_def split: if_splits)
  have "dow_num (next_date d) = (dow_num d + 1) mod 7"
    using ordinal_next [OF Suc.prems(2)] by (simp add: dow_num_def mod_add_left_eq)
  then show ?case using Suc.IH [OF e] next_date_greater [of d] by (auto simp: mod_simps algebra_simps)
qed (auto simp: dow_num_def)

text \<open>Every later date is passed by adding days, or lies at or after the sum.\<close>

lemma add_days_reaches:
  assumes "valid_date d" and "valid_date x" and "d < x"
  shows "(\<exists>j. 0 < j \<and> j < n \<and> dow_num x = (dow_num d + int j) mod 7) \<or> (\<exists>e. add_days n d = Inr e \<and> e \<le> x)"
  using assms
proof (induction n arbitrary: d)
  case (Suc n)
  let ?d = "next_date d"
  have le: "?d \<le> x" using next_date_least Suc.prems by blast
  then have y: "fst ?d \<le> 9999" using Suc.prems(2) by (cases x; cases ?d) (auto simp: less_eq_prod_def)
  then have v: "valid_date ?d" using next_date_valid Suc.prems(1) by blast
  have dw: "dow_num ?d = (dow_num d + 1) mod 7"
    using ordinal_next [OF Suc.prems(1)] by (simp add: dow_num_def mod_add_left_eq)
  have step: "add_days (Suc n) d = add_days n ?d" using y by (simp add: Let_def)
  show ?case
  proof (cases "?d = x")
    case True
    then show ?thesis using dw step by (cases n) (auto intro!: exI [of _ 1])
  next
    case False
    then have "?d < x" using le by simp
    from Suc.IH [OF v Suc.prems(2) this] show ?thesis
    proof
      assume "\<exists>j. 0 < j \<and> j < n \<and> dow_num x = (dow_num ?d + int j) mod 7"
      then obtain j where "0 < j" "j < n" "dow_num x = (dow_num ?d + int j) mod 7" by blast
      then show ?thesis using dw by (intro disjI1 exI [of _ "Suc j"]) (auto simp: mod_simps algebra_simps)
    qed (use step in auto)
  qed
qed auto

section \<open>The search for the next day\<close>

text \<open>
  Positions are pairs of indices into the sorted days and months with a year; \<open>good\<close> positions are
  the existing days after the last run. \<open>aligned\<close> is the invariant of the search: the position is
  past the last run, or in a month of its year that lies wholly before it.
\<close>

definition datum :: "int list \<Rightarrow> int list \<Rightarrow> datedata \<Rightarrow> date" where
  "datum days months = (\<lambda>(y, a, b). (y, months ! a, days ! b))"

definition good :: "int list \<Rightarrow> int list \<Rightarrow> date \<Rightarrow> datedata \<Rightarrow> bool" where
  "good days months l p \<longleftrightarrow> fst (snd p) < length months \<and> snd (snd p) < length days
     \<and> valid_date (datum days months p) \<and> l < datum days months p"

fun aligned :: "int list \<Rightarrow> int list \<Rightarrow> date \<Rightarrow> datedata \<Rightarrow> bool" where
  "aligned days months (ly, lm, ld) (y, a, b) \<longleftrightarrow> a < length months \<and> b \<le> length days \<and>
     (ly < y \<or> (y = ly \<and> (lm < months ! a \<or> (lm = months ! a \<and> (\<forall>i. b \<le> i \<longrightarrow> i < length days \<longrightarrow> ld < days ! i))
        \<or> (months ! a < lm \<and> lm \<notin> set months))))"

definition search_ok :: "int list \<Rightarrow> int list \<Rightarrow> (date \<Rightarrow> bool) \<Rightarrow> date \<Rightarrow> bool" where
  "search_ok days months before l \<longleftrightarrow> sorted days \<and> sorted months \<and> distinct days \<and> distinct months
     \<and> (\<forall>d \<in> set days. 1 \<le> d) \<and> months \<noteq> [] \<and> length months \<le> 12
     \<and> (\<forall>d. valid_date d \<longrightarrow> d \<noteq> l \<longrightarrow> (before d \<longleftrightarrow> d < l))"

abbreviation next_month :: "int list \<Rightarrow> datedata \<Rightarrow> datedata" where
  "next_month months p \<equiv> (if Suc (fst (snd p)) = length months then (fst p + 1, 0, 0) else (fst p, Suc (fst (snd p)), 0))"

lemma roll_flag_aligned:
  "aligned days months l p \<Longrightarrow> roll_flag days months before p =
     Inr (snd (snd p) = length days \<or> \<not> valid_date (datum days months p) \<or> before (datum days months p))"
  by (cases l; cases p) (auto simp: item_at_def datum_def day_out_of_range_def)

lemma aligned_next_month:
  assumes "search_ok days months before l" and "aligned days months l p"
  shows "aligned days months l (next_month months p)"
proof (cases l; cases p)
  fix ly lm ld y a b
  assume l: "l = (ly, lm, ld)" and p: "p = (y, a, b)"
  show ?thesis
  proof (cases "Suc a < length months")
    case True
    then have "months ! a < months ! Suc a"
      using assms(1) by (auto simp: search_ok_def strict_sorted_iff sorted_wrt_nth_less)
    moreover have "lm \<notin> set months \<Longrightarrow> months ! Suc a \<noteq> lm" using True by auto
    ultimately show ?thesis using assms(2) True l p by auto
  next
    case False
    then show ?thesis using assms l p by (auto simp: search_ok_def)
  qed
qed

lemma good_not_before:
  assumes "search_ok days months before l" and "aligned days months l p"
    and "valid_date (datum days months p)" and "snd (snd p) < length days"
  shows "before (datum days months p) \<longleftrightarrow> \<not> l < datum days months p"
    and "\<not> l < datum days months p \<Longrightarrow> fst (datum days months p) = fst l \<and> fst (snd (datum days months p)) < fst (snd l)"
proof -
  obtain ly lm ld y a b where lp: "l = (ly, lm, ld)" "p = (y, a, b)" by (cases l; cases p) auto
  have "l < datum days months p \<or> (datum days months p < l \<and> y = ly \<and> months ! a < lm)"
    using assms(2,4) lp by (auto simp: datum_def less_prod_def)
  then show "before (datum days months p) \<longleftrightarrow> \<not> l < datum days months p"
    "\<not> l < datum days months p \<Longrightarrow> fst (datum days months p) = fst l \<and> fst (snd (datum days months p)) < fst (snd l)"
    using assms(1,3) lp by (auto simp: search_ok_def datum_def dest: order.asym)
qed

text \<open>A flagged position has no good position in the rest of its month.\<close>

lemma flagged_skips:
  assumes "search_ok days months before l" and "aligned days months l p"
    and "roll_flag days months before p = Inr True" and "good days months l r" and "p \<le> r"
  shows "next_month months p \<le> r"
proof -
  obtain ly lm ld y a b y' a' b' where lpr: "l = (ly, lm, ld)" "p = (y, a, b)" "r = (y', a', b')" by (cases l; cases p; cases r) auto
  have "\<not> (y' = y \<and> a' = a)"
  proof
    assume eq: "y' = y \<and> a' = a"
    then have bb: "b \<le> b'" "b' < length days" using assms(4,5) lpr by (auto simp: good_def)
    then have le: "days ! b \<le> days ! b'" and one: "1 \<le> days ! b"
      using assms(1) by (auto simp: search_ok_def sorted_iff_nth_mono)
    have v: "valid_date (datum days months p)" using assms(4) eq lpr le one by (auto simp: good_def datum_def)
    then have "before (datum days months p)" using assms(3) roll_flag_aligned [OF assms(2)] bb lpr by auto
    then have "\<not> l < datum days months p" using good_not_before(1) [OF assms(1,2) v] bb lpr by auto
    then have "y = ly \<and> months ! a < lm" using good_not_before(2) [OF assms(1,2) v] bb lpr by (auto simp: datum_def)
    then show False using assms(4) eq lpr by (auto simp: good_def datum_def less_prod_def)
  qed
  then show ?thesis using assms(4,5) lpr by (auto simp: less_eq_prod_def good_def)
qed

lemma unflagged_good:
  assumes "search_ok days months before l" and "aligned days months l p" and "roll_flag days months before p = Inr False"
  shows "good days months l p"
proof -
  have a: "snd (snd p) \<noteq> length days" "valid_date (datum days months p)" "\<not> before (datum days months p)"
    using assms(3) roll_flag_aligned [OF assms(2)] by auto
  moreover have "snd (snd p) < length days" "fst (snd p) < length months" using a(1) assms(2) by (cases l; cases p; auto)+
  ultimately show ?thesis using good_not_before(1) [OF assms(1,2)] by (auto simp: good_def)
qed

lemma roll_over_step:
  "aligned days months l p \<Longrightarrow> roll_over (Suc n) days months before p =
     (if roll_flag days months before p = Inr True then roll_over n days months before (next_month months p) else Inr p)"
  using roll_flag_aligned [of days months l p before] by (cases p) (auto split: sum.split simp del: roll_flag.simps)

lemma roll_over_least:
  assumes "search_ok days months before l"
  shows "aligned days months l p \<Longrightarrow> roll_over n days months before p = Inr q \<Longrightarrow>
     good days months l q \<and> aligned days months l q \<and> p \<le> q \<and> (\<forall>r. good days months l r \<and> p \<le> r \<longrightarrow> q \<le> r)"
proof (induction n arbitrary: p)
  case (Suc n)
  note step = roll_over_step [OF Suc.prems(1), of n before]
  show ?case
  proof (cases "roll_flag days months before p = Inr True")
    case True
    note p' = aligned_next_month [OF assms Suc.prems(1)]
    have r: "roll_over n days months before (next_month months p) = Inr q" using Suc.prems(2) step True by simp
    have "p \<le> next_month months p" by (cases p) (auto simp: less_eq_prod_def)
    then show ?thesis using Suc.IH [OF p' r] flagged_skips [OF assms Suc.prems(1) True] by (meson order_trans)
  next
    case False
    then have "q = p" "roll_flag days months before p = Inr False"
      using Suc.prems(2) step roll_flag_aligned [OF Suc.prems(1), of before] by auto
    then show ?thesis using unflagged_good [OF assms Suc.prems(1)] Suc.prems(1) by auto
  qed
qed (cases p, simp)

definition mrank :: "int list \<Rightarrow> datedata \<Rightarrow> int" where
  "mrank months p = fst p * int (length months) + int (fst (snd p))"

lemma roll_over_finds:
  assumes "search_ok days months before l"
  shows "aligned days months l p \<Longrightarrow> good days months l r \<Longrightarrow> p \<le> r \<Longrightarrow> mrank months r - mrank months p < int n \<Longrightarrow>
     \<exists>q. roll_over n days months before p = Inr q"
proof (induction n arbitrary: p)
  case 0
  have "0 \<le> mrank months r - mrank months p"
  proof (cases "fst p = fst r")
    case True
    then show ?thesis using 0 by (cases p; cases r) (auto simp: mrank_def less_eq_prod_def)
  next
    case False
    then have "fst p + 1 \<le> fst r" using 0 by (cases p; cases r) (auto simp: less_eq_prod_def)
    then have "(fst p + 1) * int (length months) \<le> fst r * int (length months)" by (intro mult_right_mono) auto
    moreover have "fst (snd p) < length months" using 0 by (cases l; cases p) auto
    ultimately show ?thesis by (simp add: mrank_def algebra_simps)
  qed
  then show ?case using 0 by simp
next
  case (Suc n)
  have "mrank months (next_month months p) = mrank months p + 1"
    by (cases p) (auto simp: mrank_def algebra_simps)
  then show ?case
    using roll_over_step [OF Suc.prems(1), of n before] Suc.prems(4)
      Suc.IH [OF aligned_next_month [OF assms Suc.prems(1)] Suc.prems(2) flagged_skips [OF assms Suc.prems(1) _ Suc.prems(2,3)]]
    by (cases p) auto
qed

lemma aligned_next_day:
  "aligned days months l p \<Longrightarrow> snd (snd p) < length days \<Longrightarrow> aligned days months l (fst p, fst (snd p), Suc (snd (snd p)))"
  by (cases l; cases p) auto

lemma mrank_years:
  assumes "length months \<le> 12" and "fst (snd r) < length months" and "fst r \<le> fst p + 165" and "p \<le> r"
  shows "mrank months r - mrank months p < 2000"
proof -
  have "(fst r - fst p) * int (length months) \<le> 165 * 12"
    using assms(1,3,4) by (intro mult_mono) (auto simp: less_eq_prod_def)
  then show ?thesis using assms(1,2) by (simp add: mrank_def algebra_simps)
qed

lemma day_search_step:
  assumes "good days months l p"
  shows "day_search days months before dows p =
    (if dow_num (datum days months p) \<in> dows then Inr p
     else res_bind (roll_over 2000 days months before (fst p, fst (snd p), Suc (snd (snd p)))) (day_search days months before dows))"
  using assms by (cases p) (auto simp: day_search.simps good_def datum_def item_at_def split: sum.split)

lemma day_search_spec:
  "search_ok days months before l \<Longrightarrow> good days months l p \<Longrightarrow> aligned days months l p \<Longrightarrow>
    (\<forall>q. day_search days months before dows p = Inr q \<longrightarrow>
       good days months l q \<and> dow_num (datum days months q) \<in> dows
       \<and> (\<forall>r. good days months l r \<and> dow_num (datum days months r) \<in> dows \<and> p \<le> r \<longrightarrow> q \<le> r))
    \<and> (\<forall>r. good days months l r \<and> dow_num (datum days months r) \<in> dows \<and> p \<le> r \<and> fst r \<le> fst p + 165
         \<longrightarrow> (\<exists>q. day_search days months before dows p = Inr q))"
proof (induction days months before dows p rule: day_search.induct)
  case (1 days months before dows y moy domi)
  let ?p = "(y, moy, domi)" and ?p' = "(y, moy, Suc domi)"
  note ok = "1.prems"(1)
  show ?case
  proof (cases "dow_num (datum days months ?p) \<in> dows")
    case True
    then show ?thesis using "1.prems" day_search_step by auto
  next
    case False
    have p': "aligned days months l ?p'" using aligned_next_day [OF "1.prems"(3)] "1.prems"(2) by (auto simp: good_def)
    have later: "?p' \<le> r" if "dow_num (datum days months r) \<in> dows" "?p \<le> r" for r
    proof -
      have "r \<noteq> ?p" using that(1) False by auto
      then show ?thesis using that(2) by (cases r) (auto simp: less_eq_prod_def Suc_le_eq order.order_iff_strict)
    qed
    have th: "res_bind (item_at months moy) (\<lambda>m. res_bind (item_at days domi) (\<lambda>d. if valid_date (y, m, d) then Inr (y, m, d) else Inl ValueError))
        = Inr (datum days months ?p)" using "1.prems"(2) by (auto simp: good_def datum_def item_at_def)
    have step: "day_search days months before dows ?p = res_bind (roll_over 2000 days months before ?p') (day_search days months before dows)"
      using day_search_step [OF "1.prems"(2)] False by simp
    note IH = "1.IH" [OF th False _ ok]
    have sound: "good days months l q \<and> dow_num (datum days months q) \<in> dows
        \<and> (\<forall>r. good days months l r \<and> dow_num (datum days months r) \<in> dows \<and> ?p \<le> r \<longrightarrow> q \<le> r)"
      if found: "day_search days months before dows ?p = Inr q" for q
    proof -
      obtain q' where q': "roll_over 2000 days months before ?p' = Inr q'" "day_search days months before dows q' = Inr q"
        using found unfolding step res_bind_Inr_iff by blast
      then show ?thesis using roll_over_least [OF ok p' q'(1)] IH [OF q'(1)] later by blast
    qed
    have complete: "\<exists>q. day_search days months before dows ?p = Inr q"
      if r: "good days months l r" "dow_num (datum days months r) \<in> dows" "?p \<le> r" "fst r \<le> y + 165" for r
    proof -
      have "mrank months r - mrank months ?p' < 2000"
        using mrank_years [of months r ?p'] ok r later [OF r(2,3)] by (auto simp: search_ok_def good_def)
      then obtain q' where q': "roll_over 2000 days months before ?p' = Inr q'"
        using roll_over_finds [OF ok p' r(1) later [OF r(2,3)], of 2000] by auto
      then have le: "q' \<le> r" "?p' \<le> q'" using roll_over_least [OF ok p' q'] later [OF r(2,3)] r(1) by blast+
      then have "fst r \<le> fst q' + 165" using r(4) by (cases q') (auto simp: less_eq_prod_def)
      then show ?thesis using IH [OF q'] roll_over_least [OF ok p' q'] r(1,2) le(1) unfolding step q' res_bind.simps by blast
    qed
    show ?thesis using sound complete by auto
  qed
qed

section \<open>Well-formed crontabs and matching minutes\<close>

definition crontab_ok :: "crontab \<Rightarrow> bool" where
  "crontab_ok c \<longleftrightarrow> c_minute c \<noteq> {} \<and> c_minute c \<subseteq> {0..59} \<and> c_hour c \<noteq> {} \<and> c_hour c \<subseteq> {0..23}
     \<and> c_day_of_week c \<noteq> {} \<and> c_day_of_week c \<subseteq> {0..6} \<and> c_day_of_month c \<noteq> {} \<and> c_day_of_month c \<subseteq> {1..31}
     \<and> c_month_of_year c \<noteq> {} \<and> c_month_of_year c \<subseteq> {1..12}
     \<and> (all_dom_moy c \<longrightarrow> c_day_of_month c = {1..31} \<and> c_month_of_year c = {1..12})"

definition day_match :: "crontab \<Rightarrow> date \<Rightarrow> bool" where
  "day_match c d \<longleftrightarrow> valid_date d \<and> execute_this_date c d"

type_synonym minute = "date \<times> int \<times> int"

fun matches :: "crontab \<Rightarrow> minute \<Rightarrow> bool" where
  "matches c (d, h, mi) \<longleftrightarrow> day_match c d \<and> h \<in> c_hour c \<and> mi \<in> c_minute c"

definition minute_of :: "dt \<Rightarrow> minute" where
  "minute_of t = (dt_date t, dt_hour t, dt_minute t)"

definition least_after :: "('a::linorder \<Rightarrow> bool) \<Rightarrow> 'a \<Rightarrow> 'a \<Rightarrow> bool" where
  "least_after P l x \<longleftrightarrow> P x \<and> l < x \<and> (\<forall>z. P z \<and> l < z \<longrightarrow> x \<le> z)"

definition same_day :: "(dt \<Rightarrow> dt) \<Rightarrow> bool" where
  "same_day loc \<longleftrightarrow> (\<forall>t. dt_date (loc t) = dt_date t)"

lemma parse_star: "parse \<lparr>p_max = mx, p_min = mn\<rparr> ''*'' = Inr {mn .. mn + mx - 1}"
proof -
  have "match_part ''*'' = Star" by code_simp
  then have "parse_part \<lparr>p_max = mx, p_min = mn\<rparr> ''*'' = Inr [mn .. mx + mn - 1]" by (simp add: parse_part_def expand_star_def)
  then show ?thesis by (simp add: parse_def add.commute)
qed

lemma expand_cronspec_ok:
  assumes "expand_cronspec spec mx mn = Inr S" and "0 < mx" and "spec \<noteq> CIter []"
  shows "S \<noteq> {} \<and> S \<subseteq> {mn .. mn + mx - 1} \<and> (spec = CStr ''*'' \<longrightarrow> S = {mn .. mn + mx - 1})"
proof -
  obtain S' where "(case spec of CInt n \<Rightarrow> Inr {n} | CStr s \<Rightarrow> parse \<lparr>p_max = mx, p_min = mn\<rparr> s
       | CIter xs \<Rightarrow> Inr (set xs) | COther \<Rightarrow> Inl (PErr TypeError)) = Inr S'"
    and S: "S = S'" "\<not> (\<exists>n \<in> S'. n \<ge> mx + mn \<or> n < mn)"
    using assms(1) by (auto simp: expand_cronspec_def res_bind_Inr_iff split: if_splits)
  then have "S' \<noteq> {}" "spec = CStr ''*'' \<longrightarrow> S' = {mn .. mn + mx - 1}"
    using assms(2,3) parse_bounds [of "\<lparr>p_max = mx, p_min = mn\<rparr>"] by (auto simp: parse_star split: cronspec.splits)
  then show ?thesis using S by force
qed

lemma new_crontab_ok:
  assumes "new_crontab mi ho dow domo moy = Inr c" and "CIter [] \<notin> {mi, ho, dow, domo, moy}"
  shows "crontab_ok c"
proof -
  obtain h m w d y where e: "expand_cronspec ho 24 0 = Inr h" "expand_cronspec mi 60 0 = Inr m" "expand_cronspec dow 7 0 = Inr w"
      "expand_cronspec domo 31 1 = Inr d" "expand_cronspec moy 12 1 = Inr y"
    and c: "c = \<lparr>c_minute = m, c_hour = h, c_day_of_week = w, c_day_of_month = d, c_month_of_year = y,
            orig_day_of_month = domo, orig_month_of_year = moy\<rparr>"
    using assms(1) by (auto simp: new_crontab_def res_bind_Inr_iff)
  show ?thesis
    using expand_cronspec_ok [OF e(1)] expand_cronspec_ok [OF e(2)] expand_cronspec_ok [OF e(3)] expand_cronspec_ok [OF e(4)]
      expand_cronspec_ok [OF e(5)] assms(2) unfolding crontab_ok_def c all_dom_moy_def by (simp add: eq_commute [of "CIter []"])
qed

section \<open>The next day is the least matching day\<close>

lemma takeWhile_sorted_iff:
  assumes "sorted xs" and "\<And>y z. y \<le> z \<Longrightarrow> P z \<Longrightarrow> P y" and "i < length xs"
  shows "P (xs ! i) \<longleftrightarrow> i < length (takeWhile P xs)"
proof
  assume "P (xs ! i)"
  then have "P (xs ! j)" if "j \<le> i" for j using assms that sorted_nth_mono [of xs j i] by blast
  then show "i < length (takeWhile P xs)"
    using assms(3) nth_length_takeWhile [of P xs] by (metis leI order_le_less_trans)
next
  assume "i < length (takeWhile P xs)"
  then show "P (xs ! i)" by (metis nth_mem set_takeWhileD takeWhile_nth)
qed

lemma bisect_iff: "sorted xs \<Longrightarrow> i < length xs \<Longrightarrow> xs ! i \<le> x \<longleftrightarrow> i < bisect xs x"
  unfolding bisect_def by (rule takeWhile_sorted_iff) auto

lemma bisect_left_iff: "sorted xs \<Longrightarrow> i < length xs \<Longrightarrow> xs ! i < x \<longleftrightarrow> i < bisect_left xs x"
  unfolding bisect_left_def by (rule takeWhile_sorted_iff) auto

lemma bisect_le: "bisect xs x \<le> length xs"
  by (simp add: bisect_def length_takeWhile_le)

lemma bisect_left_mem:
  assumes "sorted xs" and "x \<in> set xs"
  shows "bisect_left xs x < length xs \<and> xs ! bisect_left xs x = x"
proof -
  obtain i where i: "i < length xs" "xs ! i = x" using assms(2) by (auto simp: in_set_conv_nth)
  then have le: "bisect_left xs x \<le> i" using bisect_left_iff [OF assms(1) i(1), of x] by auto
  then have "xs ! bisect_left xs x \<le> x" using sorted_nth_mono [OF assms(1) le i(1)] i by simp
  moreover have "\<not> xs ! bisect_left xs x < x" using bisect_left_iff [OF assms(1), of "bisect_left xs x" x] le i by auto
  ultimately show ?thesis using le i by auto
qed

lemma start_position_aligned:
  fixes c :: crontab and t :: dt
  defines "days \<equiv> sorted_list_of_set (c_day_of_month c)" and "months \<equiv> sorted_list_of_set (c_month_of_year c)"
  assumes ok: "crontab_ok c"
  shows "aligned days months (dt_date t) (start_position c t)"
    and "good days months (dt_date t) r \<Longrightarrow> start_position c t \<le> r"
proof -
  have fin: "finite (c_day_of_month c)" "finite (c_month_of_year c)"
    using ok finite_subset [of _ "{1..31::int}"] finite_subset [of _ "{1..12::int}"] by (auto simp: crontab_ok_def)
  obtain y m d where t: "dt_date t = (y, m, d)" by (cases "dt_date t")
  have s: "sorted days" "sorted months" "set months = c_month_of_year c" "months \<noteq> []"
    using fin ok by (auto simp: days_def months_def crontab_ok_def)
  let ?p = "start_position c t"
  have p: "?p = (if m \<in> set months then (y, bisect_left months m, bisect days d)
      else (y, if bisect months m = length months then 0 else bisect months m, 0))"
    using t s by (simp add: start_position_def days_def months_def Let_def)
  have after: "m \<notin> set months \<Longrightarrow> i < length months \<Longrightarrow> bisect months m \<le> i \<Longrightarrow> m < months ! i" for i
    using bisect_iff [OF s(2), of i m] by auto
  have before: "months ! i \<le> m" if "bisect months m = length months" "i < length months" for i
    using bisect_iff [OF s(2), of i m] that by auto
  show "aligned days months (dt_date t) ?p"
  proof (cases "m \<in> set months")
    case True
    then show ?thesis
      using bisect_left_mem [OF s(2)] bisect_iff [OF s(1), of _ d] bisect_le [of days d] p t by (auto simp: not_less [symmetric])
  next
    case False
    then have "bisect months m = length months \<Longrightarrow> months ! 0 < m" using before [of 0] s(4) nth_mem [of 0 months]
      by (metis length_greater_0_conv order.not_eq_order_implies_strict)
    then show ?thesis using False after [of "bisect months m"] bisect_le [of months m] p t s(4) by auto
  qed
  assume g: "good days months (dt_date t) r"
  obtain y' a' b' where r: "r = (y', a', b')" by (cases r)
  have ge: "y < y' \<or> (y = y' \<and> (m < months ! a' \<or> (m = months ! a' \<and> d < days ! b')))" "a' < length months" "b' < length days"
    using g t r by (auto simp: good_def datum_def less_prod_def order.order_iff_strict)
  show "?p \<le> r"
  proof (cases "y < y'")
    case True
    then show ?thesis using p r by (auto simp: less_eq_prod_def)
  next
    case False
    then have m': "y = y'" "m \<le> months ! a'" "m = months ! a' \<Longrightarrow> d < days ! b'" using ge by auto
    have "bisect_left months m \<le> a'" using bisect_left_iff [OF s(2) ge(2), of m] m'(2) by auto
    moreover have "bisect days d \<le> b'" if "bisect_left months m = a'" "m \<in> set months"
      using bisect_iff [OF s(1) ge(3), of d] m'(3) bisect_left_mem [OF s(2) that(2)] that(1) by auto
    moreover have "bisect months m \<le> a'" if "m \<notin> set months"
      using bisect_iff [OF s(2) ge(2), of m] m'(2) that ge(2) by (metis nth_mem order_antisym not_less)
    ultimately show ?thesis using p r m'(1) by (auto simp: less_eq_prod_def le_less)
  qed
qed

lemma delta_to_next_spec:
  assumes ok: "crontab_ok c" and sd: "same_day loc"
  shows "delta_to_next loc c t nh nm = Inr f \<Longrightarrow> \<exists>y m d. least_after (day_match c) (dt_date t) (y, m, d) \<and>
      f = ffwd0\<lparr>f_year := Some y, f_month := Some m, f_day := Some d,
               f_hour := Some nh, f_minute := Some nm, f_second := Some 0, f_micro := Some 0\<rparr>"
    and "day_match c x \<Longrightarrow> dt_date t < x \<Longrightarrow> fst x \<le> fst (dt_date t) + 165 \<Longrightarrow> \<exists>f. delta_to_next loc c t nh nm = Inr f"
proof -
  let ?D = "sorted_list_of_set (c_day_of_month c)" and ?M = "sorted_list_of_set (c_month_of_year c)"
    and ?b = "is_before_last_run loc t nh nm" and ?l = "dt_date t" and ?p = "start_position c t"
  have fin: "finite (c_day_of_month c)" "finite (c_month_of_year c)"
    using ok finite_subset [of _ "{1..31::int}"] finite_subset [of _ "{1..12::int}"] by (auto simp: crontab_ok_def)
  have "card (c_month_of_year c) \<le> card {1..12::int}" using ok by (intro card_mono) (auto simp: crontab_ok_def)
  then have len: "length ?M \<le> 12" using fin by simp
  have bf: "?b d \<longleftrightarrow> d < ?l" if "d \<noteq> ?l" for d
    using sd that unfolding is_before_last_run_def dt_key_def same_day_def by (auto simp: less_prod_def [of "(d, _)"] less_prod_def [of "(dt_date (loc _), _)"])
  have "\<forall>d \<in> set ?D. 1 \<le> d" "?M \<noteq> []" using ok fin by (auto simp: crontab_ok_def)
  then have so: "search_ok ?D ?M ?b ?l" using fin len bf unfolding search_ok_def by simp
  note al = start_position_aligned(1) [OF ok, of t] and reach = start_position_aligned(2) [OF ok, of t]
  have good: "good ?D ?M ?l r \<and> dow_num (datum ?D ?M r) \<in> c_day_of_week c \<Longrightarrow> day_match c (datum ?D ?M r) \<and> ?l < datum ?D ?M r" for r
    using fin nth_mem [of "fst (snd r)" ?M] nth_mem [of "snd (snd r)" ?D]
    by (cases r) (auto simp: good_def datum_def day_match_def execute_this_date_def)
  have index: "\<exists>r. good ?D ?M ?l r \<and> datum ?D ?M r = x" if "day_match c x" "?l < x" for x
  proof -
    obtain y m d where x: "x = (y, m, d)" by (cases x)
    have "m \<in> set ?M" "d \<in> set ?D" using that x fin by (auto simp: day_match_def execute_this_date_def)
    then obtain i j where "i < length ?M" "?M ! i = m" "j < length ?D" "?D ! j = d" by (auto simp: in_set_conv_nth)
    then show ?thesis using that x by (intro exI [of _ "(y, i, j)"]) (auto simp: good_def datum_def day_match_def)
  qed
  have mono: "datum ?D ?M q \<le> datum ?D ?M r" if le: "q \<le> r" "good ?D ?M ?l q" "good ?D ?M ?l r" for q r
  proof -
    have "sorted ?M" "sorted ?D" "distinct ?M" by auto
    then have nth: "a < length ?M \<Longrightarrow> a' < a \<Longrightarrow> ?M ! a' < ?M ! a" "b < length ?D \<Longrightarrow> b' \<le> b \<Longrightarrow> ?D ! b' \<le> ?D ! b" for a a' b b'
      by (auto simp: sorted_iff_nth_mono strict_sorted_iff sorted_wrt_nth_less)
    obtain y a b y' a' b' where qr: "q = (y, a, b)" "r = (y', a', b')" by (cases q; cases r)
    consider "y < y'" | "y = y'" "a < a'" | "y = y'" "a = a'" "b \<le> b'" using le(1) qr by (auto simp: less_eq_prod_def le_less)
    then show ?thesis
      by cases (use le(2,3) qr nth in \<open>auto simp: good_def datum_def less_eq_prod_def simp del: length_sorted_list_of_set\<close>)
  qed
  show "\<exists>y m d. least_after (day_match c) ?l (y, m, d) \<and> f = ffwd0\<lparr>f_year := Some y, f_month := Some m, f_day := Some d,
               f_hour := Some nh, f_minute := Some nm, f_second := Some 0, f_micro := Some 0\<rparr>"
    if del: "delta_to_next loc c t nh nm = Inr f"
  proof -
    obtain p y a b where q: "roll_over 2000 ?D ?M ?b ?p = Inr p" "day_search ?D ?M ?b (c_day_of_week c) p = Inr (y, a, b)"
      and f: "f = ffwd0\<lparr>f_year := Some y, f_month := Some (?M ! a), f_day := Some (?D ! b),
               f_hour := Some nh, f_minute := Some nm, f_second := Some 0, f_micro := Some 0\<rparr>"
      using del by (auto simp: delta_to_next_def Let_def res_bind_Inr_iff)
    note p = roll_over_least [OF so al q(1)]
    then have s: "good ?D ?M ?l (y, a, b) \<and> dow_num (datum ?D ?M (y, a, b)) \<in> c_day_of_week c"
      "\<And>r. good ?D ?M ?l r \<Longrightarrow> dow_num (datum ?D ?M r) \<in> c_day_of_week c \<Longrightarrow> p \<le> r \<Longrightarrow> (y, a, b) \<le> r"
      using day_search_spec [OF so, of p "c_day_of_week c"] q(2) by blast+
    have "datum ?D ?M (y, a, b) \<le> x" if x: "day_match c x" "?l < x" for x
    proof -
      obtain r where r: "good ?D ?M ?l r" "datum ?D ?M r = x" using index [OF x] by blast
      then have "(y, a, b) \<le> r" using s(2) p reach x by (auto simp: day_match_def execute_this_date_def)
      then show ?thesis using mono s(1) r by blast
    qed
    then have "least_after (day_match c) ?l (datum ?D ?M (y, a, b))" using good [OF s(1)] by (auto simp: least_after_def)
    then show ?thesis unfolding f datum_def by auto
  qed
  show "\<exists>f. delta_to_next loc c t nh nm = Inr f" if x: "day_match c x" "?l < x" "fst x \<le> fst ?l + 165"
  proof -
    obtain r where r: "good ?D ?M ?l r" "datum ?D ?M r = x" using index [OF x(1,2)] by blast
    have y: "fst r = fst x" "fst ?p = fst ?l" using r(2) by (auto simp: datum_def start_position_def Let_def split: prod.splits)
    then have "mrank ?M r - mrank ?M ?p < 2000" using mrank_years [OF len] r(1) reach [OF r(1)] x(3) by (auto simp: good_def)
    then obtain p where p: "roll_over 2000 ?D ?M ?b ?p = Inr p" using roll_over_finds [OF so al r(1) reach [OF r(1)], of 2000] by auto
    note pp = roll_over_least [OF so al p]
    have "p \<le> r" using pp reach [OF r(1)] r(1) by blast
    moreover have "fst ?p \<le> fst p" using pp by (auto simp: less_eq_prod_def)
    ultimately have "good ?D ?M ?l r \<and> dow_num (datum ?D ?M r) \<in> c_day_of_week c \<and> p \<le> r \<and> fst r \<le> fst p + 165"
      using r x y by (simp add: day_match_def execute_this_date_def)
    then obtain q where "day_search ?D ?M ?b (c_day_of_week c) p = Inr q"
      using day_search_spec [OF so, of p "c_day_of_week c"] pp by blast
    then show ?thesis using p by (cases q) (auto simp: delta_to_next_def Let_def)
  qed
qed

text \<open>The same for a crontab without day and month fields, which only searches the week.\<close>

definition week_offset :: "int set \<Rightarrow> int \<Rightarrow> nat" where
  "week_offset W w =
     (let later = Set.filter (\<lambda>day. day > w) W; next_day = Min (if later \<noteq> {} then later else W) in
      if next_day = w then 7 else nat ((next_day - w) mod 7))"

lemma dow_num_range: "0 \<le> dow_num d \<and> dow_num d < 7"
  by (simp add: dow_num_def)

lemma week_offset_least:
  assumes "W \<noteq> {}" and "W \<subseteq> {0..6}" and "0 \<le> w" and "w < 7"
  shows "0 < week_offset W w" and "(w + int (week_offset W w)) mod 7 \<in> W"
    and "0 < j \<Longrightarrow> j < week_offset W w \<Longrightarrow> (w + int j) mod 7 \<notin> W"
proof -
  have fin: "finite W" using assms(2) finite_subset by blast
  let ?L = "Set.filter (\<lambda>day. day > w) W" and ?k = "week_offset W w"
  have main: "0 < ?k \<and> (w + int ?k) mod 7 \<in> W \<and> (\<forall>j. 0 < j \<and> j < ?k \<longrightarrow> (w + int j) mod 7 \<notin> W)"
  proof (cases "?L = {}")
    case True
    then have le: "x \<le> w" if "x \<in> W" for x using that by auto
    have m: "Min W \<in> W" "\<And>x. x \<in> W \<Longrightarrow> Min W \<le> x" using fin assms(1) by auto
    have "0 \<le> Min W" "Min W \<le> w" using m(1) le assms(2) by auto
    then have "Min W \<noteq> w \<Longrightarrow> (Min W - w) mod 7 = Min W - w + 7" using assms(3,4) mod_add_self2 [of "Min W - w" 7]
        mod_pos_pos_trivial [of "Min W - w + 7" 7] by simp
    then have k: "int ?k = Min W - w + 7" using True \<open>0 \<le> Min W\<close> assms(4) by (simp add: week_offset_def Let_def)
    have "(w + int j) mod 7 \<notin> W" if "0 < j" "j < ?k" for j
    proof (cases "w + int j < 7")
      case True
      then show ?thesis using le [of "w + int j"] that assms(3) by auto
    next
      case False
      then have e: "(w + int j) mod 7 = w + int j - 7"
        using that k \<open>Min W \<le> w\<close> assms(4) minus_mod_self2 [of "w + int j" 7] mod_pos_pos_trivial [of "w + int j - 7" 7] by simp
      then show ?thesis using m(2) [of "w + int j - 7"] that k by auto
    qed
    moreover have "(w + int ?k) mod 7 = Min W" unfolding k using m(1) assms(2) by auto
    ultimately show ?thesis using k m(1) \<open>0 \<le> Min W\<close> assms(4) by auto
  next
    case False
    have "finite ?L" using fin by simp
    then have m: "Min ?L \<in> ?L" "\<And>x. x \<in> ?L \<Longrightarrow> Min ?L \<le> x" using False Min_in Min_le by blast+
    then have r: "w < Min ?L" "Min ?L \<le> 6" "Min ?L \<in> W" using assms(2) by auto
    then have k: "int ?k = Min ?L - w" using False assms(3) by (auto simp: week_offset_def Let_def)
    have "(w + int j) mod 7 \<notin> W" if "0 < j" "j < ?k" for j
    proof -
      have "(w + int j) mod 7 = w + int j" using that k r assms(3) by auto
      then show ?thesis using m(2) [of "w + int j"] that k by auto
    qed
    moreover have "(w + int ?k) mod 7 = Min ?L" unfolding k using r assms(3) by auto
    ultimately show ?thesis using k r by auto
  qed
  show "0 < ?k" "(w + int ?k) mod 7 \<in> W" using main by auto
  show "0 < j \<Longrightarrow> j < ?k \<Longrightarrow> (w + int j) mod 7 \<notin> W" using main by auto
qed

lemma week_search:
  assumes "W \<noteq> {}" and "W \<subseteq> {0..6}" and "valid_date d"
  shows "add_days (week_offset W (dow_num d)) d = Inr e \<Longrightarrow> least_after (\<lambda>x. valid_date x \<and> dow_num x \<in> W) d e"
    and "valid_date x \<Longrightarrow> dow_num x \<in> W \<Longrightarrow> d < x \<Longrightarrow> \<exists>e. add_days (week_offset W (dow_num d)) d = Inr e"
proof -
  note w = week_offset_least [OF assms(1,2), of "dow_num d"] dow_num_range [of d]
  have far: "\<exists>e. add_days (week_offset W (dow_num d)) d = Inr e \<and> e \<le> x"
    if "valid_date x" "dow_num x \<in> W" "d < x" for x
    using add_days_reaches [OF assms(3) that(1,3), of "week_offset W (dow_num d)"] w that(2) by auto
  show "least_after (\<lambda>x. valid_date x \<and> dow_num x \<in> W) d e" if e: "add_days (week_offset W (dow_num d)) d = Inr e"
    using add_days_props [OF e assms(3)] w far e by (fastforce simp: least_after_def)
  show "\<exists>e. add_days (week_offset W (dow_num d)) d = Inr e" if "valid_date x" "dow_num x \<in> W" "d < x"
    using far [OF that] by auto
qed

end
