(* ===== verification/Crontab_Next.thy ===== *)
theory Crontab_Next
  imports Crontab
begin

text \<open>
  Correctness of the crontab schedule: the next run is the least matching minute after the last
  run, and what \<open>is_due\<close> answers.
\<close>

section \<open>The next run is the least matching minute\<close>

definition clock :: "date \<Rightarrow> int \<Rightarrow> int \<Rightarrow> dt" where
  "clock d h mi = \<lparr>dt_date = d, dt_hour = h, dt_minute = mi, dt_second = 0, dt_micro = 0\<rparr>"

lemma minute_of_clock [simp]: "minute_of (clock d h mi) = (d, h, mi)"
  by (simp add: minute_of_def clock_def)

lemma radd_time:
  assumes "valid_dt t" and "fld h (dt_hour t) \<in> {0..23}" and "mi \<in> {0..59}"
  shows "ffwd_radd t (ffwd0\<lparr>f_hour := h, f_minute := Some mi, f_second := Some 0, f_micro := Some 0\<rparr>)
    = Inr (clock (dt_date t) (fld h (dt_hour t)) mi)"
  using assms by (cases "dt_date t") (auto simp: ffwd_radd_def ffwd0_def or_val_def fld_def valid_dt_def Let_def clock_def)

lemma radd_date:
  assumes "valid_date (y, m, d)" and "h \<in> {0..23}" and "mi \<in> {0..59}"
  shows "ffwd_radd t (ffwd0\<lparr>f_year := Some y, f_month := Some m, f_day := Some d, f_hour := Some h, f_minute := Some mi,
      f_second := Some 0, f_micro := Some 0\<rparr>) = Inr (clock (y, m, d) h mi)"
  using assms by (cases "dt_date t") (auto simp: ffwd_radd_def ffwd0_def or_val_def fld_def valid_dt_def Let_def clock_def)

lemma weekday_shift: "(7 - py_weekday d + (nd - 1) mod 7) mod 7 = (nd - dow_num d) mod 7"
  unfolding py_weekday_def dow_num_def by (simp only: mod_simps) (simp add: algebra_simps mod_diff_right_eq)

lemma radd_week:
  assumes "valid_dt t" and "h \<in> {0..23}" and "mi \<in> {0..59}"
  shows "ffwd_radd t (ffwd0\<lparr>f_weeks := (if nd = dow_num (dt_date t) then 1 else 0), f_weekday := Some ((nd - 1) mod 7),
      f_hour := Some h, f_minute := Some mi, f_second := Some 0, f_micro := Some 0\<rparr>)
    = res_bind (add_days (if nd = dow_num (dt_date t) then 7 else nat ((nd - dow_num (dt_date t)) mod 7)) (dt_date t)) (\<lambda>d. Inr (clock d h mi))"
proof (cases "dt_date t")
  case (fields y m d)
  have v: "valid_date (y, m, d)" using assms(1) fields by (simp add: valid_dt_def)
  have bind: "res_bind (add_days n x) (\<lambda>d'. Inr (\<lparr>dt_date = (y, m, d), dt_hour = h, dt_minute = mi, dt_second = 0, dt_micro = 0\<rparr>\<lparr>dt_date := d'\<rparr>))
      = res_bind (add_days n x) (\<lambda>d'. Inr (clock d' h mi))" for n x by (simp add: clock_def)
  show ?thesis
    using v assms(2,3) fields weekday_shift [of "(y, m, d)" nd] bind
    by (auto simp: ffwd_radd_def ffwd0_def or_val_def fld_def valid_dt_def Let_def clock_def)
qed

lemma crontab_ok_finite:
  assumes "crontab_ok c"
  shows "finite (c_minute c)" "finite (c_hour c)" "finite (c_day_of_week c)"
    and "Min (c_minute c) \<in> c_minute c" "Min (c_hour c) \<in> c_hour c"
  using assms finite_subset [of "c_minute c" "{0..59}"] finite_subset [of "c_hour c" "{0..23}"]
    finite_subset [of "c_day_of_week c" "{0..6}"] by (auto simp: crontab_ok_def)

text \<open>The three ways in which the next run is found: this hour, this day, or a later day.\<close>

lemma this_hour_least:
  assumes "crontab_ok c" and "day_match c (dt_date t)" and "dt_hour t \<in> c_hour c" and "dt_minute t < Max (c_minute c)"
  shows "least_after (matches c) (minute_of t) (dt_date t, dt_hour t, Min {m \<in> c_minute c. dt_minute t < m})"
    and "{m \<in> c_minute c. dt_minute t < m} \<noteq> {}" and "Min {m \<in> c_minute c. dt_minute t < m} \<in> {0..59}"
proof -
  let ?S = "{m \<in> c_minute c. dt_minute t < m}"
  have fin: "finite ?S" using crontab_ok_finite [OF assms(1)] by simp
  show ne: "?S \<noteq> {}" using assms Max_in [OF crontab_ok_finite(1) [OF assms(1)]] by (auto simp: crontab_ok_def)
  have mem: "Min ?S \<in> ?S" using Min_in [OF fin ne] .
  then show "Min ?S \<in> {0..59}" using assms(1) unfolding crontab_ok_def by blast
  have le: "m \<in> ?S \<Longrightarrow> Min ?S \<le> m" for m using fin by simp
  show "least_after (matches c) (minute_of t) (dt_date t, dt_hour t, Min ?S)"
    unfolding least_after_def using assms mem le by (auto simp: minute_of_def less_prod_def [of "(_, _, _)"] less_eq_prod_def [of "(_, _, _)"] less_prod_def [of "(dt_hour t, _)"] less_eq_prod_def [of "(dt_hour t, _)"])
qed

lemma this_day_least:
  assumes "crontab_ok c" and "day_match c (dt_date t)" and "dt_hour t < Max (c_hour c)"
    and "\<not> (dt_hour t \<in> c_hour c \<and> dt_minute t < Max (c_minute c))"
  shows "least_after (matches c) (minute_of t) (dt_date t, Min {h \<in> c_hour c. dt_hour t < h}, Min (c_minute c))"
    and "{h \<in> c_hour c. dt_hour t < h} \<noteq> {}" and "Min {h \<in> c_hour c. dt_hour t < h} \<in> {0..23}"
proof -
  let ?S = "{h \<in> c_hour c. dt_hour t < h}"
  note fin = crontab_ok_finite [OF assms(1)]
  have finS: "finite ?S" using fin by simp
  show ne: "?S \<noteq> {}" using assms Max_in [OF fin(2)] by (auto simp: crontab_ok_def)
  have mem: "Min ?S \<in> ?S" using Min_in [OF finS ne] .
  then show "Min ?S \<in> {0..23}" using assms(1) unfolding crontab_ok_def by blast
  have le: "h \<in> ?S \<Longrightarrow> Min ?S \<le> h" "m \<in> c_minute c \<Longrightarrow> Min (c_minute c) \<le> m" for h m using finS fin(1) by simp_all
  have late: "dt_hour t < h" if "h \<in> c_hour c" "m \<in> c_minute c" "dt_hour t < h \<or> dt_hour t \<le> h \<and> dt_minute t < m" for h m
    using that assms(4) Max_ge [OF fin(1) that(2)] by (cases "h = dt_hour t") auto
  show "least_after (matches c) (minute_of t) (dt_date t, Min ?S, Min (c_minute c))"
    unfolding least_after_def using assms(2) mem le fin(4) late
    by (auto simp: minute_of_def less_prod_def [of "(_, _, _)"] less_eq_prod_def [of "(_, _, _)"] less_prod_def [of "(dt_hour t, _)"] less_eq_prod_def [of "(Min _, _)"])
qed

lemma later_day_least:
  assumes "crontab_ok c" and "least_after (day_match c) (dt_date t) e"
    and "day_match c (dt_date t) \<Longrightarrow> \<not> dt_hour t < Max (c_hour c) \<and> \<not> (dt_hour t \<in> c_hour c \<and> dt_minute t < Max (c_minute c))"
  shows "least_after (matches c) (minute_of t) (e, Min (c_hour c), Min (c_minute c))"
proof -
  note fin = crontab_ok_finite [OF assms(1)]
  have le: "h \<in> c_hour c \<Longrightarrow> Min (c_hour c) \<le> h" "m \<in> c_minute c \<Longrightarrow> Min (c_minute c) \<le> m" for h m using fin by simp_all
  have day: "dt_date t < d" if "matches c (d, h, m)" "minute_of t < (d, h, m)" for d h m
  proof (rule ccontr)
    assume "\<not> dt_date t < d"
    then have d: "d = dt_date t" "dt_hour t < h \<or> dt_hour t \<le> h \<and> dt_minute t < m"
      using that(2) by (auto simp: minute_of_def less_prod_def [of "(_, _, _)"] less_prod_def [of "(dt_hour t, _)"])
    then show False using that(1) assms(3) Max_ge [OF fin(2), of h] Max_ge [OF fin(1), of m] by (cases "h = dt_hour t") auto
  qed
  have e: "day_match c e" "dt_date t < e" "\<And>d. day_match c d \<Longrightarrow> dt_date t < d \<Longrightarrow> e \<le> d"
    using assms(2) by (auto simp: least_after_def)
  have "(e, Min (c_hour c), Min (c_minute c)) \<le> (d, h, m)" if "matches c (d, h, m)" "minute_of t < (d, h, m)" for d h m
    using e(3) [of d] day [OF that] that(1) le by (cases "e = d") (auto simp: less_eq_prod_def)
  then show ?thesis unfolding least_after_def using e fin(4,5) by (auto simp: minute_of_def less_prod_def [of "(dt_date t, _, _)"])
qed

lemma py_min_max_ok [simp]: "S \<noteq> {} \<Longrightarrow> py_min S = Inr (Min S)" "S \<noteq> {} \<Longrightarrow> py_max S = Inr (Max S)"
  by (simp_all add: py_min_def py_max_def)

text \<open>\<open>next_run\<close> by the three ways; the last one is by weekday only or by \<open>_delta_to_next\<close>.\<close>

definition this_hour :: "crontab \<Rightarrow> dt \<Rightarrow> bool" where
  "this_hour c t \<longleftrightarrow> execute_this_date c (dt_date t) \<and> dt_hour t \<in> c_hour c \<and> dt_minute t < Max (c_minute c)"

definition this_day :: "crontab \<Rightarrow> dt \<Rightarrow> bool" where
  "this_day c t \<longleftrightarrow> execute_this_date c (dt_date t) \<and> dt_hour t < Max (c_hour c)"

lemma next_run_cases:
  assumes "crontab_ok c" and "valid_dt t"
  shows "this_hour c t \<Longrightarrow> next_run loc c t = Inr (clock (dt_date t) (dt_hour t) (Min {m \<in> c_minute c. dt_minute t < m}))"
    and "\<not> this_hour c t \<Longrightarrow> this_day c t \<Longrightarrow>
      next_run loc c t = Inr (clock (dt_date t) (Min {h \<in> c_hour c. dt_hour t < h}) (Min (c_minute c)))"
    and "\<not> this_hour c t \<Longrightarrow> \<not> this_day c t \<Longrightarrow> all_dom_moy c \<Longrightarrow>
      next_run loc c t = res_bind (add_days (week_offset (c_day_of_week c) (dow_num (dt_date t))) (dt_date t))
        (\<lambda>d. Inr (clock d (Min (c_hour c)) (Min (c_minute c))))"
    and "\<not> this_hour c t \<Longrightarrow> \<not> this_day c t \<Longrightarrow> \<not> all_dom_moy c \<Longrightarrow>
      next_run loc c t = res_bind (delta_to_next loc c t (Min (c_hour c)) (Min (c_minute c))) (ffwd_radd t)"
proof -
  have ne: "c_minute c \<noteq> {}" "c_hour c \<noteq> {}" "c_day_of_week c \<noteq> {}" using assms(1) by (auto simp: crontab_ok_def)
  have rng: "Min (c_minute c) \<in> {0..59}" "Min (c_hour c) \<in> {0..23}"
    using crontab_ok_finite(4,5) [OF assms(1)] assms(1) unfolding crontab_ok_def by blast+
  have dm: "day_match c (dt_date t) = execute_this_date c (dt_date t)" using assms(2) by (simp add: day_match_def valid_dt_def)
  have hr: "dt_hour t \<in> {0..23}" using assms(2) by (simp add: valid_dt_def)
  show "next_run loc c t = Inr (clock (dt_date t) (dt_hour t) (Min {m \<in> c_minute c. dt_minute t < m}))" if th: "this_hour c t"
    using th this_hour_least(2,3) [OF assms(1)] dm ne hr
      radd_time [OF assms(2), of None "Min {m \<in> c_minute c. dt_minute t < m}"]
    by (simp add: this_hour_def next_run_def remaining_delta_def Let_def fld_def ffwd0_def)
  have nh: "remaining_delta loc c t =
      (if this_day c t then Inr (ffwd0\<lparr>f_hour := Some (Min {h \<in> c_hour c. dt_hour t < h}), f_minute := Some (Min (c_minute c)), f_second := Some 0, f_micro := Some 0\<rparr>)
       else if all_dom_moy c then
         (let later = Set.filter (\<lambda>day. day > dow_num (dt_date t)) (c_day_of_week c); nd = Min (if later \<noteq> {} then later else c_day_of_week c) in
            Inr (ffwd0\<lparr>f_weeks := (if nd = dow_num (dt_date t) then 1 else 0), f_weekday := Some ((nd - 1) mod 7),
                    f_hour := Some (Min (c_hour c)), f_minute := Some (Min (c_minute c)), f_second := Some 0, f_micro := Some 0\<rparr>))
       else delta_to_next loc c t (Min (c_hour c)) (Min (c_minute c)))" if "\<not> this_hour c t"
    using that ne this_day_least(2) [OF assms(1)] dm
    by (auto simp: this_hour_def this_day_def remaining_delta_def Let_def)
  show "next_run loc c t = Inr (clock (dt_date t) (Min {h \<in> c_hour c. dt_hour t < h}) (Min (c_minute c)))"
    if "\<not> this_hour c t" "this_day c t"
    using that nh rng this_day_least(3) [OF assms(1)] dm radd_time [OF assms(2), of "Some (Min {h \<in> c_hour c. dt_hour t < h})" "Min (c_minute c)"]
    by (simp add: next_run_def fld_def this_day_def this_hour_def)
  show "next_run loc c t = res_bind (add_days (week_offset (c_day_of_week c) (dow_num (dt_date t))) (dt_date t))
        (\<lambda>d. Inr (clock d (Min (c_hour c)) (Min (c_minute c))))"
    if "\<not> this_hour c t" "\<not> this_day c t" "all_dom_moy c"
    using that nh radd_week [OF assms(2) rng(2,1)] by (simp add: next_run_def Let_def week_offset_def)
  show "next_run loc c t = res_bind (delta_to_next loc c t (Min (c_hour c)) (Min (c_minute c))) (ffwd_radd t)"
    if "\<not> this_hour c t" "\<not> this_day c t" "\<not> all_dom_moy c"
    using that nh by (simp add: next_run_def)
qed

lemma week_day_match:
  assumes "crontab_ok c" and "all_dom_moy c"
  shows "day_match c = (\<lambda>x. valid_date x \<and> dow_num x \<in> c_day_of_week c)"
proof (rule ext)
  fix x :: date
  obtain y m d where x: "x = (y, m, d)" by (cases x)
  have "days_in_month y m \<le> 31" by (simp add: days_in_month_def)
  then show "day_match c x = (valid_date x \<and> dow_num x \<in> c_day_of_week c)"
    using assms x by (auto simp: day_match_def execute_this_date_def crontab_ok_def)
qed

lemma next_run_shape:
  assumes "crontab_ok c" and "valid_dt t" and "same_day loc" and "next_run loc c t = Inr u"
  shows "\<exists>d h mi. u = clock d h mi \<and> least_after (matches c) (minute_of t) (d, h, mi)"
proof -
  note nr = next_run_cases [OF assms(1,2), of loc] and ok = assms(1)
  have dm: "day_match c (dt_date t) = execute_this_date c (dt_date t)" using assms(2) by (simp add: day_match_def valid_dt_def)
  have rng: "Min (c_minute c) \<in> {0..59}" "Min (c_hour c) \<in> {0..23}"
    using crontab_ok_finite(4,5) [OF ok] ok unfolding crontab_ok_def by blast+
  have lift: "least_after (day_match c) (dt_date t) e \<Longrightarrow> \<not> this_hour c t \<Longrightarrow> \<not> this_day c t \<Longrightarrow>
      least_after (matches c) (minute_of t) (e, Min (c_hour c), Min (c_minute c))" for e
    by (erule later_day_least [OF ok]) (use dm in \<open>auto simp: this_hour_def this_day_def\<close>)
  consider "this_hour c t" | "\<not> this_hour c t" "this_day c t" | "\<not> this_hour c t" "\<not> this_day c t" "all_dom_moy c"
    | "\<not> this_hour c t" "\<not> this_day c t" "\<not> all_dom_moy c" by blast
  then show ?thesis
  proof cases
    case 1
    then have "least_after (matches c) (minute_of t) (dt_date t, dt_hour t, Min {m \<in> c_minute c. dt_minute t < m})"
      using this_hour_least(1) [OF ok] dm by (simp add: this_hour_def)
    then show ?thesis using assms(4) nr(1) [OF 1] by (metis Inr_inject)
  next
    case 2
    then have "least_after (matches c) (minute_of t) (dt_date t, Min {h \<in> c_hour c. dt_hour t < h}, Min (c_minute c))"
      using this_day_least(1) [OF ok] dm by (simp add: this_hour_def this_day_def)
    then show ?thesis using assms(4) nr(2) [OF 2] by (metis Inr_inject)
  next
    case 3
    then obtain e where e: "add_days (week_offset (c_day_of_week c) (dow_num (dt_date t))) (dt_date t) = Inr e"
      and u: "u = clock e (Min (c_hour c)) (Min (c_minute c))"
      using assms(4) nr(3) by (auto simp: res_bind_Inr_iff)
    have "least_after (day_match c) (dt_date t) e"
      unfolding week_day_match [OF ok 3(3)] by (rule week_search(1) [OF _ _ _ e]) (use ok assms(2) in \<open>auto simp: crontab_ok_def valid_dt_def\<close>)
    then show ?thesis using lift 3 u by blast
  next
    case 4
    then obtain f where f: "delta_to_next loc c t (Min (c_hour c)) (Min (c_minute c)) = Inr f" "ffwd_radd t f = Inr u"
      using assms(4) nr(4) by (auto simp: res_bind_Inr_iff)
    then obtain y m d where least: "least_after (day_match c) (dt_date t) (y, m, d)"
      and fe: "f = ffwd0\<lparr>f_year := Some y, f_month := Some m, f_day := Some d, f_hour := Some (Min (c_hour c)),
               f_minute := Some (Min (c_minute c)), f_second := Some 0, f_micro := Some 0\<rparr>"
      using delta_to_next_spec(1) [OF ok assms(3) f(1)] by blast
    then have "valid_date (y, m, d)" by (auto simp: least_after_def day_match_def)
    then have "u = clock (y, m, d) (Min (c_hour c)) (Min (c_minute c))" using radd_date [OF _ rng(2,1)] f(2) fe by simp
    then show ?thesis using lift [OF least] 4 by blast
  qed
qed

lemma next_run_returns:
  assumes "crontab_ok c" and "valid_dt t" and "same_day loc"
    and "matches c (x, h, mi)" and "minute_of t < (x, h, mi)" and "fst x \<le> fst (dt_date t) + 165"
  shows "\<exists>u. next_run loc c t = Inr u"
proof -
  note nr = next_run_cases [OF assms(1,2), of loc] and ok = assms(1) and fin = crontab_ok_finite [OF assms(1)]
  have rng: "Min (c_minute c) \<in> {0..59}" "Min (c_hour c) \<in> {0..23}"
    using fin(4,5) ok unfolding crontab_ok_def by blast+
  show ?thesis
  proof (cases "this_hour c t \<or> this_day c t")
    case True
    then show ?thesis using nr(1,2) by blast
  next
    case False
    have x: "day_match c x" "dt_date t < x"
    proof -
      show "day_match c x" using assms(4) by simp
      show "dt_date t < x"
      proof (rule ccontr)
        assume "\<not> dt_date t < x"
        then have d: "x = dt_date t" "dt_hour t < h \<or> dt_hour t \<le> h \<and> dt_minute t < mi"
          using assms(5) by (auto simp: minute_of_def less_prod_def [of "(_, _, _)"] less_prod_def [of "(dt_hour t, _)"])
        then show False using assms(4) False Max_ge [OF fin(2), of h] Max_ge [OF fin(1), of mi]
          by (cases "h = dt_hour t") (auto simp: this_hour_def this_day_def day_match_def)
      qed
    qed
    show ?thesis
    proof (cases "all_dom_moy c")
      case True
      have "\<exists>e. add_days (week_offset (c_day_of_week c) (dow_num (dt_date t))) (dt_date t) = Inr e"
        by (rule week_search(2) [OF _ _ _ _ _ x(2)]) (use x(1) ok assms(2) in \<open>auto simp: crontab_ok_def valid_dt_def week_day_match [OF ok True]\<close>)
      then show ?thesis using nr(3) False True by auto
    next
      case nodm: False
      obtain f where f: "delta_to_next loc c t (Min (c_hour c)) (Min (c_minute c)) = Inr f"
        using delta_to_next_spec(2) [OF ok assms(3) x assms(6)] by blast
      then show ?thesis
        using delta_to_next_spec(1) [OF ok assms(3) f] radd_date [OF _ rng(2,1)] nr(4) False nodm
        by (fastforce simp: least_after_def day_match_def)
    qed
  qed
qed

section \<open>Properties\<close>

text \<open>
  C6: the next run of a crontab is right. For a crontab built from accepted field specifications
  (none of them an empty collection) and a time zone whose gaps stay within a day, the run computed
  after \<open>t\<close> is at second 0 of the least minute after the minute of \<open>t\<close> that matches all five fields;
  and whenever such a minute exists in the following 165 years the computation returns, without
  running into the 2000-step limit of \<open>roll_over\<close>.
\<close>

theorem next_run_least_match:
  assumes "new_crontab mi ho dow domo moy = Inr c" and "CIter [] \<notin> {mi, ho, dow, domo, moy}"
    and "valid_dt t" and "same_day loc"
  shows "(\<forall>u. next_run loc c t = Inr u \<longrightarrow>
      dt_second u = 0 \<and> dt_micro u = 0 \<and> least_after (matches c) (minute_of t) (minute_of u))
    \<and> (\<forall>x h m. matches c (x, h, m) \<and> minute_of t < (x, h, m) \<and> fst x \<le> fst (dt_date t) + 165
        \<longrightarrow> (\<exists>u. next_run loc c t = Inr u))"
proof (intro conjI allI impI)
  note ok = new_crontab_ok [OF assms(1,2)]
  fix u
  assume "next_run loc c t = Inr u"
  then obtain d h mi where "u = clock d h mi" "least_after (matches c) (minute_of t) (d, h, mi)"
    using next_run_shape [OF ok assms(3,4)] by blast
  then show "dt_second u = 0" "dt_micro u = 0" "least_after (matches c) (minute_of t) (minute_of u)"
    by (simp_all add: clock_def minute_of_def)
next
  fix x h m
  assume "matches c (x, h, m) \<and> minute_of t < (x, h, m) \<and> fst x \<le> fst (dt_date t) + 165"
  then show "\<exists>u. next_run loc c t = Inr u" using next_run_returns [OF new_crontab_ok [OF assms(1,2)] assms(3,4)] by blast
qed

theorem next_run_least_match_witness:
  "\<exists>c u. crontab_from_string ''0 12 29 2 1'' = Inr c \<and> next_run id c (clock (2001, 1, 1) 0 0) = Inr u
     \<and> least_after (matches c) ((2001, 1, 1), 0, 0) (minute_of u)"
proof -
  have ns: "\<not> isl (crontab_from_string ''0 12 29 2 1'')" by code_simp
  then obtain c where c: "crontab_from_string ''0 12 29 2 1'' = Inr c" by (cases "crontab_from_string ''0 12 29 2 1''") auto
  have split: "split_on CHR '' '' ''0 12 29 2 1'' = [''0'', ''12'', ''29'', ''2'', ''1'']" by code_simp
  have nc: "new_crontab (CStr ''0'') (CStr ''12'') (CStr ''1'') (CStr ''29'') (CStr ''2'') = Inr c"
    using c by (simp add: crontab_from_string_def split)
  have v: "valid_dt (clock (2001, 1, 1) 0 0)" by code_simp
  have s: "same_day id" by (simp add: same_day_def)
  have "case crontab_from_string ''0 12 29 2 1'' of Inl _ \<Rightarrow> False | Inr c \<Rightarrow> matches c ((2016, 2, 29), 12, 0)" by code_simp
  then have m: "matches c ((2016, 2, 29), 12, 0)" using c by simp
  have ne: "CIter [] \<notin> {CStr ''0'', CStr ''12'', CStr ''1'', CStr ''29'', CStr ''2''}" by simp
  note spec = next_run_least_match [OF nc ne v s]
  have lt: "minute_of (clock (2001, 1, 1) 0 0) < ((2016, 2, 29), 12, 0)" by (simp add: less_prod_def)
  have yr: "fst (2016, 2::int, 29::int) \<le> fst (dt_date (clock (2001, 1, 1) 0 0)) + 165" by (simp add: clock_def)
  obtain u where "next_run id c (clock (2001, 1, 1) 0 0) = Inr u" using conjunct2 [OF spec, rule_format, OF conjI [OF m conjI [OF lt yr]]] by (rule exE)
  then show ?thesis using conjunct1 [OF spec, rule_format, of u] c unfolding minute_of_clock by blast
qed

text \<open>
  a crontab without a starting deadline is due exactly when the least matching minute after the
  last run is not later than now. When it is due the wait is the time to the least matching minute
  after now, otherwise the time left to that least matching minute; the wait is never negative.
\<close>

theorem crontab_is_due_spec:
  assumes "new_crontab mi ho dow domo moy = Inr c" and "CIter [] \<notin> {mi, ho, dow, domo, moy}"
    and "valid_dt (wall z last_run)" and "valid_dt (wall z now)" and "same_day (localize z)"
    and "is_due z None c now last_run = Inr (due, wait)"
  shows "\<exists>d h m. least_after (matches c) (minute_of (wall z last_run)) (d, h, m)
     \<and> (due \<longleftrightarrow> utc z (clock d h m) \<le> now)
     \<and> (\<not> due \<longrightarrow> wait = utc z (clock d h m) - now \<and> 0 < wait)
     \<and> (due \<longrightarrow> (\<exists>d' h' m'. least_after (matches c) (minute_of (wall z now)) (d', h', m')
            \<and> wait = max (utc z (clock d' h' m') - now) 0))"
proof -
  note shape = next_run_shape [OF new_crontab_ok [OF assms(1,2)] _ assms(5)]
  obtain u where u: "next_run (localize z) c (wall z last_run) = Inr u"
    using assms(6) by (auto simp: is_due_def remaining_estimate_def res_bind_Inr_iff)
  obtain d h m where dhm: "u = clock d h m" "least_after (matches c) (minute_of (wall z last_run)) (d, h, m)"
    using shape [OF assms(3) u] by blast
  have rem: "remaining_estimate z c now last_run = Inr (utc z u - now)" using u by (simp add: remaining_estimate_def)
  show ?thesis
  proof (cases "utc z u \<le> now")
    case True
    then obtain v where v: "next_run (localize z) c (wall z now) = Inr v" "wait = max (utc z v - now) 0" "due"
      using assms(6) rem by (auto simp: is_due_def remaining_estimate_def [of z c now now] res_bind_Inr_iff)
    then show ?thesis using shape [OF assms(4) v(1)] dhm True by blast
  next
    case False
    then have "\<not> due" "wait = utc z u - now" using assms(6) rem by (auto simp: is_due_def)
    then show ?thesis using dhm False by (intro exI [of _ d] exI [of _ h] exI [of _ m]) simp
  qed
qed

definition sample_zone :: zone where
  "sample_zone = \<lparr>wall = (\<lambda>t. \<lparr>dt_date = (2024, 1, 1), dt_hour = t div 3600000000 mod 24, dt_minute = t div 60000000 mod 60, dt_second = 0, dt_micro = 0\<rparr>),
     utc = (\<lambda>t. (ordinal (dt_date t) - ordinal (2024, 1, 1)) * 86400000000 + dt_hour t * 3600000000 + dt_minute t * 60000000),
     localize = id\<rparr>"

theorem crontab_is_due_spec_witness:
  "\<exists>c due wait. crontab_from_string ''30 * * * *'' = Inr c \<and> is_due sample_zone None c 2400000000 0 = Inr (due, wait)
     \<and> (\<exists>d h m. least_after (matches c) ((2024, 1, 1), 0, 0) (d, h, m) \<and> (due \<longleftrightarrow> utc sample_zone (clock d h m) \<le> 2400000000))"
proof -
  let ?s = "crontab_from_string ''30 * * * *''"
  have ev: "case ?s of Inl _ \<Rightarrow> False | Inr c \<Rightarrow> \<not> isl (is_due sample_zone None c 2400000000 0)" by code_simp
  then obtain c where c: "?s = Inr c" "\<not> isl (is_due sample_zone None c 2400000000 0)" by (cases ?s) auto
  obtain due wait where dw: "is_due sample_zone None c 2400000000 0 = Inr (due, wait)"
    using c(2) by (cases "is_due sample_zone None c 2400000000 0") auto
  have split: "split_on CHR '' '' ''30 * * * *'' = [''30'', ''*'', ''*'', ''*'', ''*'']" by code_simp
  have nc: "new_crontab (CStr ''30'') (CStr ''*'') (CStr ''*'') (CStr ''*'') (CStr ''*'') = Inr c"
    using c(1) by (simp add: crontab_from_string_def split)
  have v: "valid_dt (wall sample_zone 0)" "valid_dt (wall sample_zone 2400000000)" by code_simp+
  have s: "same_day (localize sample_zone)" by (simp add: same_day_def sample_zone_def)
  have ne: "CIter [] \<notin> {CStr ''30'', CStr ''*'', CStr ''*'', CStr ''*'', CStr ''*''}" by simp
  have m: "minute_of (wall sample_zone 0) = ((2024, 1, 1), 0, 0)" by (simp add: sample_zone_def minute_of_def)
  show ?thesis using crontab_is_due_spec [OF nc ne v s dw] c(1) dw unfolding m by blast
qed

end
