(* ===== verification/Beat.thy ===== *)
theory Beat
  imports Heapq
begin

text \<open>
  The periodic task scheduler of \<open>celery.beat\<close>: schedule entries, the scheduler with its heap of
  events, the merge of the configured schedule into the stored one, and the set-up of the plain
  and of the persistent scheduler.

  Entries are objects: the schedule, the copy kept for comparison and the heap share them, so the
  model keeps them in a store indexed by identity. The schedule types (\<open>is_due\<close>), lazy arguments
  and the sending of a message are parameters, collected in a record \<open>env\<close>; the readings of the clock are
  arguments, one for each place where the code asks for the time. Time stamps are in seconds.
\<close>

section \<open>Entries\<close>

datatype arg = Plain nat | BeatLazyFunc nat

record 's entry =
  e_name :: string
  e_task :: string
  e_args :: "arg list"
  e_kwargs :: "(string, arg) dict"
  e_headers :: "(string, bool) dict option"
  e_options :: "(string, nat) dict"
  e_schedule :: 's
  e_last_run_at :: rat
  e_total_run_count :: nat

record msg =
  m_task :: string
  m_args :: "nat list"
  m_kwargs :: "(string, nat) dict"
  m_headers :: "(string, bool) dict"
  m_options :: "(string, nat) dict"

record 's env =
  env_due :: "'s \<Rightarrow> rat \<Rightarrow> rat \<Rightarrow> bool \<times> rat option"
  env_call :: "nat \<Rightarrow> nat result"
  env_send :: "msg \<Rightarrow> unit result"

definition next_instance :: "rat \<Rightarrow> 's entry \<Rightarrow> 's entry" where
  "next_instance now e = e\<lparr>e_last_run_at := now, e_total_run_count := e_total_run_count e + 1\<rparr>"

definition entry_update :: "'s entry \<Rightarrow> 's entry \<Rightarrow> 's entry" where
  "entry_update e e' = e\<lparr>e_task := e_task e', e_schedule := e_schedule e', e_args := e_args e',
     e_kwargs := e_kwargs e', e_headers := e_headers e', e_options := e_options e'\<rparr>"

definition editable_fields_equal :: "'s entry \<Rightarrow> 's entry \<Rightarrow> bool" where
  "editable_fields_equal e e' \<longleftrightarrow> e_task e = e_task e' \<and> e_args e = e_args e' \<and> e_kwargs e = e_kwargs e'
     \<and> e_headers e = e_headers e' \<and> e_options e = e_options e' \<and> e_schedule e = e_schedule e'"

fun evaluate_arg :: "(nat \<Rightarrow> nat result) \<Rightarrow> arg \<Rightarrow> nat result" where
  "evaluate_arg call (Plain v) = Inr v"
| "evaluate_arg call (BeatLazyFunc f) = call f"

fun evaluate_entry_args :: "(nat \<Rightarrow> nat result) \<Rightarrow> arg list \<Rightarrow> nat list result" where
  "evaluate_entry_args call [] = Inr []"
| "evaluate_entry_args call (a # as) =
     res_bind (evaluate_arg call a) (\<lambda>v. res_bind (evaluate_entry_args call as) (\<lambda>vs. Inr (v # vs)))"

fun evaluate_entry_kwargs :: "(nat \<Rightarrow> nat result) \<Rightarrow> (string, arg) dict \<Rightarrow> (string, nat) dict result" where
  "evaluate_entry_kwargs call [] = Inr []"
| "evaluate_entry_kwargs call ((k, a) # as) =
     res_bind (evaluate_arg call a) (\<lambda>v. res_bind (evaluate_entry_kwargs call as) (\<lambda>vs. Inr ((k, v) # vs)))"

section \<open>The scheduler\<close>

type_synonym event = "rat \<times> int \<times> nat"

record 's scheduler =
  objs :: "nat \<Rightarrow> 's entry"
  fresh_id :: nat
  schedule :: "(string, nat) dict"
  sheap :: "event heap option"
  old_schedulers :: "(string, nat) dict option"
  max_interval :: rat
  sync_every :: rat
  sync_every_tasks :: "nat option"
  last_sync :: "rat option"
  tasks_since_sync :: nat
  sent :: "msg list"
  syncs :: nat

definition new_object :: "'s entry \<Rightarrow> 's scheduler \<Rightarrow> nat \<times> 's scheduler" where
  "new_object e s = (fresh_id s, s\<lparr>objs := (objs s)(fresh_id s := e), fresh_id := Suc (fresh_id s)\<rparr>)"

definition adjust :: "rat \<Rightarrow> rat" where
  "adjust n = (if n > 0 then n - 1 / 100 else n)"

definition when_at :: "rat \<Rightarrow> rat option \<Rightarrow> rat" where
  "when_at now n = now + (case n of None \<Rightarrow> 0 | Some d \<Rightarrow> adjust d)"

definition entry_is_due :: "'s env \<Rightarrow> rat \<Rightarrow> 's entry \<Rightarrow> bool \<times> rat option" where
  "entry_is_due env now e = env_due env (e_schedule e) now (e_last_run_at e)"

text \<open>\<open>populate_heap\<close> reads the clock twice for each entry.\<close>

fun populate_events :: "'s env \<Rightarrow> (nat \<Rightarrow> rat \<times> rat) \<Rightarrow> nat \<Rightarrow> (nat \<Rightarrow> 's entry) \<Rightarrow> nat list \<Rightarrow> event list" where
  "populate_events env clk k ob [] = []"
| "populate_events env clk k ob (i # is) =
     (case clk k of (t_due, t_when) \<Rightarrow>
        (case entry_is_due env t_due (ob i) of (due, delay) \<Rightarrow>
           (when_at t_when (if due then Some 0 else delay), 5, i) # populate_events env clk (Suc k) ob is))"

definition populate_heap :: "'s env \<Rightarrow> (nat \<Rightarrow> rat \<times> rat) \<Rightarrow> 's scheduler \<Rightarrow> 's scheduler" where
  "populate_heap env clk s = s\<lparr>sheap := Some (heapify (populate_events env clk 0 (objs s) (vals (schedule s))))\<rparr>"

definition schedules_equal :: "(nat \<Rightarrow> 's entry) \<Rightarrow> (string, nat) dict option \<Rightarrow> (string, nat) dict \<Rightarrow> bool" where
  "schedules_equal ob old new = (case old of
     None \<Rightarrow> False
   | Some os \<Rightarrow> set (keys os) = set (keys new)
       \<and> list_all (\<lambda>(name, i). case dict_get new name of None \<Rightarrow> False | Some j \<Rightarrow> editable_fields_equal (ob j) (ob i)) os)"

definition should_sync :: "rat \<Rightarrow> 's scheduler \<Rightarrow> bool" where
  "should_sync now s \<longleftrightarrow>
     (case last_sync s of None \<Rightarrow> True | Some l \<Rightarrow> l = 0 \<or> now - l > sync_every s)
     \<or> (case sync_every_tasks s of None \<Rightarrow> False | Some n \<Rightarrow> n \<noteq> 0 \<and> tasks_since_sync s \<ge> n)"

definition do_sync :: "rat \<Rightarrow> 's scheduler \<Rightarrow> 's scheduler" where
  "do_sync now s = s\<lparr>syncs := Suc (syncs s), last_sync := Some now, tasks_since_sync := 0\<rparr>"

definition reserve :: "rat \<Rightarrow> nat \<Rightarrow> 's scheduler \<Rightarrow> nat \<times> 's scheduler" where
  "reserve now i s = (case new_object (next_instance now (objs s i)) s of
     (j, s') \<Rightarrow> (j, s'\<lparr>schedule := dict_set (e_name (objs s i)) j (schedule s')\<rparr>))"

datatype scheduling_error = SchedulingError exn

text \<open>
  The message of an entry. The options are copied, but their dictionary of headers is shared with the entry, to which the source adds the mark of
  the scheduler; the mark is the same in every message, and that the entry itself keeps it is not modelled.
\<close>

definition entry_message :: "'s env \<Rightarrow> 's entry \<Rightarrow> msg result" where
  "entry_message env e =
     res_bind (evaluate_entry_args (env_call env) (e_args e)) (\<lambda>args.
     res_bind (evaluate_entry_kwargs (env_call env) (e_kwargs e)) (\<lambda>kwargs.
       Inr \<lparr>m_task = e_task e, m_args = args, m_kwargs = kwargs,
            m_headers = dict_set ''celery_beat_task'' True (case e_headers e of None \<Rightarrow> [] | Some h \<Rightarrow> h),
            m_options = e_options e\<rparr>))"

definition apply_async :: "'s env \<Rightarrow> rat \<Rightarrow> rat \<Rightarrow> bool \<Rightarrow> nat \<Rightarrow> 's scheduler \<Rightarrow> (scheduling_error + msg) \<times> 's scheduler" where
  "apply_async env t_run t_sync advance i s =
     (case (if advance then reserve t_run i s else (i, s)) of (j, s1) \<Rightarrow>
        let outcome = res_bind (entry_message env (objs s1 j)) (\<lambda>m. res_bind (env_send env m) (\<lambda>_. Inr m));
            s2 = (case outcome of Inl _ \<Rightarrow> s1 | Inr m \<Rightarrow> s1\<lparr>sent := sent s1 @ [m]\<rparr>);
            s3 = s2\<lparr>tasks_since_sync := Suc (tasks_since_sync s2)\<rparr>;
            s4 = (if should_sync t_sync s3 then do_sync t_sync s3 else s3) in
        (case outcome of Inl e \<Rightarrow> (Inl (SchedulingError e), s4) | Inr m \<Rightarrow> (Inr m, s4)))"

definition apply_entry :: "'s env \<Rightarrow> rat \<Rightarrow> rat \<Rightarrow> nat \<Rightarrow> 's scheduler \<Rightarrow> 's scheduler" where
  "apply_entry env t_run t_sync i s = snd (apply_async env t_run t_sync False i s)"

record clocks =
  at_populate :: "nat \<Rightarrow> rat \<times> rat"
  at_top :: rat
  at_due :: rat
  at_run :: rat
  at_sync :: rat
  at_push :: rat

definition refresh_heap :: "'s env \<Rightarrow> clocks \<Rightarrow> 's scheduler \<Rightarrow> 's scheduler" where
  "refresh_heap env clk s =
     (if sheap s = None \<or> \<not> schedules_equal (objs s) (old_schedulers s) (schedule s)
      then populate_heap env (at_populate clk) (s\<lparr>old_schedulers := Some (schedule s)\<rparr>) else s)"

definition tick_due :: "'s env \<Rightarrow> clocks \<Rightarrow> rat option \<Rightarrow> event \<Rightarrow> event heap \<Rightarrow> 's scheduler \<Rightarrow> rat \<times> 's scheduler" where
  "tick_due env clk nxt event h s =
     (case heappop h of
        Inl e \<Rightarrow> (0, s)
      | Inr (verify, h') \<Rightarrow>
          if verify = event then
            (case reserve (at_run clk) (snd (snd event)) s of (j, s1) \<Rightarrow>
               let s2 = apply_entry env (at_run clk) (at_sync clk) (snd (snd event)) s1 in
               (0, s2\<lparr>sheap := Some (heappush h' (when_at (at_push clk) nxt, fst (snd event), j))\<rparr>))
          else (min (fst verify - when_at (at_push clk) (Some 0)) (max_interval s), s\<lparr>sheap := Some (heappush h' verify)\<rparr>))"

definition tick_retry :: "clocks \<Rightarrow> rat option \<Rightarrow> event \<Rightarrow> event heap \<Rightarrow> 's scheduler \<Rightarrow> rat \<times> 's scheduler" where
  "tick_retry clk nxt event h s =
     (let delay = (case nxt of Some d \<Rightarrow> d | None \<Rightarrow> max_interval s) in
      case heappop h of
        Inl e \<Rightarrow> (0, s)
      | Inr (verify, h') \<Rightarrow>
          if verify = event then
            (let h2 = heappush h' (when_at (at_push clk) (Some delay), fst (snd event), snd (snd event)) in
             ((case heap_top h2 of
                Inr first \<Rightarrow> if snd (snd first) \<noteq> snd (snd event) then 0 else min (adjust delay) (max_interval s)
              | Inl e \<Rightarrow> min (adjust delay) (max_interval s)),
              s\<lparr>sheap := Some h2\<rparr>))
          else (min (fst verify - when_at (at_push clk) (Some 0)) (max_interval s), s\<lparr>sheap := Some (heappush h' verify)\<rparr>))"

definition tick :: "'s env \<Rightarrow> clocks \<Rightarrow> 's scheduler \<Rightarrow> rat \<times> 's scheduler" where
  "tick env clk s0 =
     (let s = refresh_heap env clk s0; h = (case sheap s of None \<Rightarrow> [] | Some h \<Rightarrow> h) in
      case heap_top h of
        Inl e \<Rightarrow> (max_interval s, s)
      | Inr event \<Rightarrow>
          let now = when_at (at_top clk) (Some 0) in
          if fst event > now then (min (fst event - now) (max_interval s), s)
          else (case entry_is_due env (at_due clk) (objs s (snd (snd event))) of
                  (due, nxt) \<Rightarrow> if due then tick_due env clk nxt event h s else tick_retry clk nxt event h s))"

section \<open>Changing the schedule\<close>

text \<open>The configured schedule gives each name the fields of its entry.\<close>

type_synonym 's conf = "(string, 's entry) dict"

definition add_entry :: "'s entry \<Rightarrow> 's scheduler \<Rightarrow> 's scheduler" where
  "add_entry e s = (case new_object e s of (i, s') \<Rightarrow> s'\<lparr>schedule := dict_set (e_name e) i (schedule s')\<rparr>)"

text \<open>An entry given to \<open>update_from_dict\<close> is an entry object or the fields of a new one.\<close>

datatype 's entry_spec = EntryObject nat | EntryDict "'s entry"

definition new_entry :: "rat \<Rightarrow> string \<Rightarrow> 's entry \<Rightarrow> 's entry" where
  "new_entry now name e = e\<lparr>e_name := name, e_last_run_at := now, e_total_run_count := 0\<rparr>"

fun maybe_entry :: "rat \<Rightarrow> string \<Rightarrow> 's entry_spec \<Rightarrow> 's scheduler \<Rightarrow> nat \<times> 's scheduler" where
  "maybe_entry now name (EntryObject i) s = (i, s)"
| "maybe_entry now name (EntryDict e) s = new_object (new_entry now name e) s"

fun update_from_dict :: "rat \<Rightarrow> (string, 's entry_spec) dict \<Rightarrow> 's scheduler \<Rightarrow> 's scheduler" where
  "update_from_dict now [] s = s"
| "update_from_dict now ((name, e) # b) s =
     (case maybe_entry now name e s of (i, s') \<Rightarrow> update_from_dict now b (s'\<lparr>schedule := dict_set name i (schedule s')\<rparr>))"

fun pop_keys :: "string list \<Rightarrow> 's scheduler \<Rightarrow> 's scheduler" where
  "pop_keys [] s = s"
| "pop_keys (k # ks) s = pop_keys ks (s\<lparr>schedule := dict_del k (schedule s)\<rparr>)"

fun merge_entries :: "rat \<Rightarrow> 's conf \<Rightarrow> 's scheduler \<Rightarrow> 's scheduler" where
  "merge_entries now [] s = s"
| "merge_entries now ((key, c) # b) s =
     (let e = new_entry now key c in
      merge_entries now b
        (case dict_get (schedule s) key of
           Some i \<Rightarrow> s\<lparr>objs := (objs s)(i := entry_update (objs s i) e)\<rparr>
         | None \<Rightarrow> add_entry e s))"

definition merge_inplace :: "rat \<Rightarrow> 's conf \<Rightarrow> 's scheduler \<Rightarrow> 's scheduler" where
  "merge_inplace now b s =
     (let A = keys (schedule s); B = keys b;
          sym_diff = filter (\<lambda>k. k \<notin> set B) A @ filter (\<lambda>k. k \<notin> set A) B in
      merge_entries now b (pop_keys sym_diff s))"

record 's app =
  result_expires :: bool
  supports_autoexpire :: bool
  cleanup :: "'s entry"
  beat_schedule :: "'s conf"
  timezone :: string
  enable_utc :: bool

definition install_default_entries :: "rat \<Rightarrow> 's app \<Rightarrow> (string, nat) dict \<Rightarrow> 's scheduler \<Rightarrow> 's scheduler" where
  "install_default_entries now app data s =
     update_from_dict now
       (if result_expires app \<and> \<not> supports_autoexpire app \<and> ''celery.backend_cleanup'' \<notin> set (keys data)
        then [(''celery.backend_cleanup'', EntryDict (cleanup app))] else []) s"

definition setup_schedule :: "rat \<Rightarrow> 's app \<Rightarrow> 's scheduler \<Rightarrow> 's scheduler" where
  "setup_schedule now app s = merge_inplace now (beat_schedule app) (install_default_entries now app (schedule s) s)"

section \<open>The persistent scheduler\<close>

record store =
  st_entries :: "(string, nat) dict option"
  st_version :: "string option"
  st_tz :: "string option"
  st_utc :: "bool option"

definition store_clear :: "store \<Rightarrow> store" where
  "store_clear st = st\<lparr>st_entries := None, st_version := None, st_tz := None, st_utc := None\<rparr>"

definition create_schedule :: "store \<Rightarrow> store" where
  "create_schedule st =
     (case st_entries st of
        None \<Rightarrow> st\<lparr>st_entries := Some []\<rparr>
      | Some _ \<Rightarrow>
          if st_version st = None then store_clear st
          else if st_tz st = None then store_clear st
          else if st_utc st = None then store_clear st
          else st)"

definition check_settings :: "'s app \<Rightarrow> store \<Rightarrow> store" where
  "check_settings app st0 =
     (let st1 = create_schedule st0;
          st2 = (case st_tz st1 of Some tz \<Rightarrow> if tz \<noteq> timezone app then store_clear st1 else st1 | None \<Rightarrow> st1);
          st3 = (case st_utc st2 of Some u \<Rightarrow> if u \<noteq> enable_utc app then store_clear st2 else st2 | None \<Rightarrow> st2) in
      case st_entries st3 of None \<Rightarrow> st3\<lparr>st_entries := Some []\<rparr> | Some _ \<Rightarrow> st3)"

definition persistent_setup_schedule :: "rat \<Rightarrow> string \<Rightarrow> 's app \<Rightarrow> store \<Rightarrow> 's scheduler \<Rightarrow> 's scheduler \<times> store" where
  "persistent_setup_schedule now version app st0 s0 =
     (let st = check_settings app st0;
          s1 = s0\<lparr>schedule := (case st_entries st of None \<Rightarrow> [] | Some d \<Rightarrow> d)\<rparr>;
          s2 = merge_inplace now (beat_schedule app) s1;
          s3 = install_default_entries now app (schedule s2) s2 in
      (s3\<lparr>syncs := Suc (syncs s3)\<rparr>,
       st\<lparr>st_entries := Some (schedule s3), st_version := Some version, st_tz := Some (timezone app), st_utc := Some (enable_utc app)\<rparr>))"

section \<open>The heap follows the schedule\<close>

abbreviation ev_entry :: "event \<Rightarrow> nat" where
  "ev_entry ev \<equiv> snd (snd ev)"

definition well_named :: "'s scheduler \<Rightarrow> bool" where
  "well_named s \<longleftrightarrow> dict_wf (schedule s) \<and> (\<forall>(n, i) \<in> set (schedule s). e_name (objs s i) = n \<and> i < fresh_id s)
     \<and> (\<forall>d. old_schedulers s = Some d \<longrightarrow> (\<forall>i \<in> set (vals d). i < fresh_id s))"

definition heap_ok :: "'s scheduler \<Rightarrow> bool" where
  "heap_ok s \<longleftrightarrow> (\<forall>h. sheap s = Some h \<longrightarrow> sorted h \<and> mset (map ev_entry h) = mset (vals (schedule s)))"

lemma populate_events_entries: "map ev_entry (populate_events env clk k ob is) = is"
  by (induction env clk k ob "is" rule: populate_events.induct) (auto split: prod.split)

lemma mset_vals_set:
  "dict_wf d \<Longrightarrow> (k, i) \<in> set d \<Longrightarrow> mset (vals (dict_set k j d)) = add_mset j (mset (vals d) - {#i#})"
proof (induction d)
  case (Cons p d)
  then show ?case
  proof (cases "fst p = k")
    case False
    then have "(k, i) \<in> set d" using Cons.prems by auto
    then have "i \<in># mset (vals d)" by force
    then show ?thesis using Cons False \<open>(k, i) \<in> set d\<close> by (cases p) auto
  qed (use Cons.prems in \<open>cases p; force simp: image_iff\<close>)
qed simp

lemma refresh_heap_inv:
  assumes "well_named s" and "heap_ok s"
  shows "well_named (refresh_heap env clk s) \<and> heap_ok (refresh_heap env clk s) \<and> sheap (refresh_heap env clk s) \<noteq> None"
proof (cases "sheap s = None \<or> \<not> schedules_equal (objs s) (old_schedulers s) (schedule s)")
  case True
  have "mset (map ev_entry (heapify (populate_events env clk' 0 ob is))) = mset is" for clk' ob "is"
    by (metis mset_map sorted_heap.elems_build populate_events_entries)
  then show ?thesis using assms True
    by (auto simp: refresh_heap_def populate_heap_def heap_ok_def well_named_def sorted_heap.ok_build)
qed (use assms in \<open>auto simp: refresh_heap_def\<close>)

lemma refresh_heap_fields [simp]:
  "schedule (refresh_heap env clk s) = schedule s" "objs (refresh_heap env clk s) = objs s"
  "sent (refresh_heap env clk s) = sent s" "max_interval (refresh_heap env clk s) = max_interval s"
  by (simp_all add: refresh_heap_def populate_heap_def)

lemma apply_entry_frame [simp]:
  "schedule (apply_entry env t u i s) = schedule s" "objs (apply_entry env t u i s) = objs s"
  "fresh_id (apply_entry env t u i s) = fresh_id s" "sheap (apply_entry env t u i s) = sheap s"
  "old_schedulers (apply_entry env t u i s) = old_schedulers s" "max_interval (apply_entry env t u i s) = max_interval s"
  by (auto simp: apply_entry_def apply_async_def do_sync_def Let_def split: sum.split)

lemma sent_apply_entry:
  "sent (apply_entry env t u i s) = sent s @
     (case res_bind (entry_message env (objs s i)) (\<lambda>m. res_bind (env_send env m) (\<lambda>_. Inr m)) of Inl _ \<Rightarrow> [] | Inr m \<Rightarrow> [m])"
  by (auto simp: apply_entry_def apply_async_def do_sync_def Let_def split: sum.split)

lemma reserve_eq:
  "reserve now i s = (fresh_id s, s\<lparr>objs := (objs s)(fresh_id s := next_instance now (objs s i)), fresh_id := Suc (fresh_id s),
     schedule := dict_set (e_name (objs s i)) (fresh_id s) (schedule s)\<rparr>)"
  by (simp add: reserve_def new_object_def)

lemma tick_due_head:
  "tick_due env clk nxt ev (ev # h) s =
     (0, (apply_entry env (at_run clk) (at_sync clk) (ev_entry ev) (snd (reserve (at_run clk) (ev_entry ev) s)))
        \<lparr>sheap := Some (heappush h (when_at (at_push clk) nxt, fst (snd ev), fresh_id s))\<rparr>)"
  by (simp add: tick_due_def reserve_eq Let_def)

text \<open>The identity test of \<open>tick\<close> always succeeds: \<open>heappop\<close> returns the event that was on top.\<close>

lemma tick_cases:
  assumes "sheap (refresh_heap env clk s) = Some h"
  shows "h = [] \<Longrightarrow> tick env clk s = (max_interval s, refresh_heap env clk s)"
    and "h = ev # h' \<Longrightarrow> at_top clk < fst ev \<Longrightarrow>
      tick env clk s = (min (fst ev - at_top clk) (max_interval s), refresh_heap env clk s)"
    and "h = ev # h' \<Longrightarrow> fst ev \<le> at_top clk \<Longrightarrow> entry_is_due env (at_due clk) (objs s (ev_entry ev)) = (True, nxt) \<Longrightarrow>
      tick env clk s = tick_due env clk nxt ev (ev # h') (refresh_heap env clk s)"
    and "h = ev # h' \<Longrightarrow> fst ev \<le> at_top clk \<Longrightarrow> entry_is_due env (at_due clk) (objs s (ev_entry ev)) = (False, nxt) \<Longrightarrow>
      tick env clk s = tick_retry clk nxt ev (ev # h') (refresh_heap env clk s)"
  using assms by (auto simp: tick_def Let_def when_at_def adjust_def)

lemma well_named_mem: "well_named s \<Longrightarrow> i \<in> set (vals (schedule s)) \<Longrightarrow> (e_name (objs s i), i) \<in> set (schedule s) \<and> i < fresh_id s"
  by (force simp: well_named_def)

lemma reserve_well_named:
  assumes "well_named s" and "i \<in> set (vals (schedule s))"
  shows "well_named (snd (reserve now i s))"
proof -
  have "e_name (next_instance now e) = e_name e" for e :: "'a entry" by (simp add: next_instance_def)
  then show ?thesis
    using assms by (force simp: well_named_def reserve_eq set_dict_set distinct_update less_Suc_eq)
qed

lemma tick_due_inv:
  assumes "well_named s" and "heap_ok s" and "sheap s = Some (ev # h)"
  shows "well_named (snd (tick_due env clk nxt ev (ev # h) s)) \<and> heap_ok (snd (tick_due env clk nxt ev (ev # h) s))"
proof -
  have h: "sorted h" "mset (vals (schedule s)) = add_mset (ev_entry ev) (mset (map ev_entry h))"
    using assms(2,3) by (auto simp: heap_ok_def)
  have "ev_entry ev \<in># mset (vals (schedule s))" unfolding h(2) by simp
  then have mem: "ev_entry ev \<in> set (vals (schedule s))" by (simp only: set_mset_mset)
  note wn = reserve_well_named [OF assms(1) mem, of "at_run clk"]
  have "mset (vals (schedule (snd (reserve (at_run clk) (ev_entry ev) s)))) = add_mset (fresh_id s) (mset (map ev_entry h))"
    using mset_vals_set [of "schedule s"] well_named_mem [OF assms(1) mem] assms(1) h(2) by (auto simp: reserve_eq well_named_def)
  then have "heap_ok (snd (tick_due env clk nxt ev (ev # h) s))"
    using h(1) by (simp add: heap_ok_def tick_due_head heappush_def sorted_insort del: mset_map) (simp add: image_mset_add_mset)
  then show ?thesis using wn by (simp add: tick_due_head well_named_def)
qed

lemma tick_retry_inv:
  assumes "well_named s" and "heap_ok s" and "sheap s = Some (ev # h)"
  shows "well_named (snd (tick_retry clk nxt ev (ev # h) s)) \<and> heap_ok (snd (tick_retry clk nxt ev (ev # h) s))"
  using assms by (auto simp: tick_retry_def Let_def well_named_def heap_ok_def heappush_def sorted_insort)

lemma tick_inv:
  assumes "well_named s" and "heap_ok s"
  shows "well_named (snd (tick env clk s)) \<and> heap_ok (snd (tick env clk s)) \<and> sheap (snd (tick env clk s)) \<noteq> None"
proof -
  note r = refresh_heap_inv [OF assms, of env clk]
  then obtain h where h: "sheap (refresh_heap env clk s) = Some h" by auto
  note c = tick_cases [OF h]
  show ?thesis
  proof (cases h)
    case Nil
    then show ?thesis using c(1) r by simp
  next
    case (Cons ev h')
    obtain due nxt where d: "entry_is_due env (at_due clk) (objs s (ev_entry ev)) = (due, nxt)" by (cases "entry_is_due env (at_due clk) (objs s (ev_entry ev))")
    have e: "sheap (refresh_heap env clk s) = Some (ev # h')" using h Cons by simp
    show ?thesis
    proof (cases "fst ev \<le> at_top clk")
      case True
      have "sheap (snd (tick_due env clk nxt ev (ev # h') (refresh_heap env clk s))) \<noteq> None"
        "sheap (snd (tick_retry clk nxt ev (ev # h') (refresh_heap env clk s))) \<noteq> None"
        by (simp_all add: tick_due_head tick_retry_def Let_def)
      then show ?thesis
        using c(3,4) [OF Cons True] d tick_due_inv [OF _ _ e] tick_retry_inv [OF _ _ e] r by (cases due) auto
    next
      case False
      then show ?thesis using c(2) [OF Cons] r e by simp
    qed
  qed
qed

definition beat_initial :: "'s scheduler \<Rightarrow> bool" where
  "beat_initial s \<longleftrightarrow> sheap s = None \<and> old_schedulers s = None \<and> well_named s"

definition beat_step :: "'s scheduler \<Rightarrow> 's env \<times> clocks \<Rightarrow> 's scheduler \<Rightarrow> bool" where
  "beat_step s ec t \<longleftrightarrow> snd (tick (fst ec) (snd ec) s) = t"

interpretation beat: invariant_system beat_initial beat_step "\<lambda>s. well_named s \<and> heap_ok s"
proof unfold_locales
  show "beat_initial s \<Longrightarrow> well_named s \<and> heap_ok s" for s :: "'a scheduler"
    by (simp add: beat_initial_def heap_ok_def)
  show "well_named s \<and> heap_ok s \<Longrightarrow> beat_step s e t \<Longrightarrow> well_named t \<and> heap_ok t" for s t :: "'a scheduler" and e
    using tick_inv [of s "fst e" "snd e"] by (auto simp: beat_step_def)
qed

section \<open>Overdue entries are sent\<close>

definition overdue :: "rat \<Rightarrow> 's scheduler \<Rightarrow> event list" where
  "overdue now s = (case sheap s of None \<Rightarrow> [] | Some h \<Rightarrow> filter (\<lambda>ev. fst ev \<le> now) h)"

fun run_ticks :: "'s env \<Rightarrow> clocks \<Rightarrow> nat \<Rightarrow> 's scheduler \<Rightarrow> 's scheduler" where
  "run_ticks env clk 0 s = s"
| "run_ticks env clk (Suc n) s = run_ticks env clk n (snd (tick env clk s))"

text \<open>
  An entry can be sent now and next later: its schedule is due with a delay above the drift of
  0.01 s, its arguments evaluate and the message is accepted.
\<close>

definition sendable :: "'s env \<Rightarrow> rat \<Rightarrow> 's entry \<Rightarrow> bool" where
  "sendable env now e \<longleftrightarrow>
     (case entry_is_due env now e of (due, nxt) \<Rightarrow> due \<and> (case nxt of Some d \<Rightarrow> 1 / 100 < d | None \<Rightarrow> False))
     \<and> (case entry_message env e of Inl _ \<Rightarrow> False | Inr m \<Rightarrow> env_send env m = Inr ())"

definition message_of :: "'s env \<Rightarrow> 's entry \<Rightarrow> msg" where
  "message_of env e = (case entry_message env e of Inr m \<Rightarrow> m | Inl _ \<Rightarrow> undefined)"

lemma editable_next: "editable_fields_equal (next_instance now e) e' = editable_fields_equal e e'"
  by (simp add: editable_fields_equal_def next_instance_def)

lemma schedules_equal_reserve:
  assumes "well_named s" and "i \<in> set (vals (schedule s))" and "schedules_equal (objs s) (old_schedulers s) (schedule s)"
  shows "schedules_equal (objs (snd (reserve now i s))) (old_schedulers s) (schedule (snd (reserve now i s)))"
proof -
  let ?n = "e_name (objs s i)" and ?f = "fresh_id s"
  obtain os where os: "old_schedulers s = Some os" using assms(3) by (auto simp: schedules_equal_def split: option.splits)
  have i: "dict_get (schedule s) ?n = Some i" "?n \<in> set (keys (schedule s))"
    using well_named_mem [OF assms(1,2)] assms(1) by (force simp: well_named_def)+
  have lt: "j < ?f" if "dict_get (schedule s) n = Some j" for n j
    using assms(1) dict_get_mem [OF that] by (auto simp: well_named_def)
  have old: "j < ?f" if "(n, j) \<in> set os" for n j using assms(1) os that by (force simp: well_named_def)
  show ?thesis
    using assms(3) i(2) unfolding os schedules_equal_def option.case reserve_eq
    by (auto simp: list_all_iff dict_simps insert_absorb editable_next i(1) dest!: bspec split: option.splits dest: lt old)
qed

lemma filter_insort_late:
  assumes "sorted h" and "now < fst x"
  shows "filter (\<lambda>ev. fst ev \<le> now) (insort x h) = filter (\<lambda>ev. fst ev \<le> (now :: rat)) (h :: event list)"
  using assms by (induction h) auto

lemma overdue_prefix:
  "sorted (ev # h) \<Longrightarrow> filter (\<lambda>e. fst e \<le> now) ((ev :: event) # h) \<noteq> [] \<Longrightarrow> fst ev \<le> (now :: rat)"
  by (auto simp: less_eq_prod_def filter_empty_conv split: if_splits)

definition steady :: "rat \<Rightarrow> clocks \<Rightarrow> bool" where
  "steady now clk \<longleftrightarrow> at_top clk = now \<and> at_due clk = now \<and> at_push clk = now"

lemma tick_sends_head:
  assumes "well_named s" and "heap_ok s" and "sheap s = Some h" and "overdue now s = ev # evs"
    and "schedules_equal (objs s) (old_schedulers s) (schedule s)"
    and "steady now clk" and "sendable env now (objs s (ev_entry ev))"
  defines "t \<equiv> snd (tick env clk s)"
  shows "overdue now t = evs" and "sent t = sent s @ [message_of env (objs s (ev_entry ev))]"
    and "schedules_equal (objs t) (old_schedulers t) (schedule t)"
    and "\<And>i. i < fresh_id s \<Longrightarrow> objs t i = objs s i" and "sheap t \<noteq> None" and "fresh_id s \<le> fresh_id t"
proof -
  have ref: "refresh_heap env clk s = s" using assms(3,5) by (simp add: refresh_heap_def)
  have srt: "sorted h" using assms(2,3) by (simp add: heap_ok_def)
  obtain ev' h' where h: "h = ev' # h'" using assms(3,4) by (cases h) (auto simp: overdue_def)
  have hd: "ev' = ev" "fst ev \<le> now" "evs = filter (\<lambda>ev. fst ev \<le> now) h'"
    using assms(3,4) h srt overdue_prefix [of ev' h' now] by (auto simp: overdue_def)
  have mem: "ev_entry ev \<in> set (vals (schedule s))"
    using assms(2,3) h hd(1) by (auto simp: heap_ok_def) (metis insert_iff set_mset_add_mset_insert set_mset_mset in_image_mset set_map)
  obtain d where d: "entry_is_due env now (objs s (ev_entry ev)) = (True, Some d)" "1 / 100 < d"
    using assms(7) by (auto simp: sendable_def split: prod.splits option.splits)
  obtain m where m: "entry_message env (objs s (ev_entry ev)) = Inr m" "env_send env m = Inr ()"
    using assms(7) by (auto simp: sendable_def split: sum.splits)
  have t: "t = (apply_entry env (at_run clk) (at_sync clk) (ev_entry ev) (snd (reserve (at_run clk) (ev_entry ev) s)))
        \<lparr>sheap := Some (heappush h' (when_at now (Some d), fst (snd ev), fresh_id s))\<rparr>"
    using tick_cases(3) [of env clk s h ev h' "Some d"] ref assms(3,6) h hd d(1) tick_due_head [of env clk "Some d" ev h' s]
    by (simp add: t_def steady_def)
  have lt: "ev_entry ev < fresh_id s" using well_named_mem [OF assms(1) mem] by simp
  have late: "now < when_at now (Some d)" using d(2) by (simp add: when_at_def adjust_def)
  show "overdue now t = evs" using filter_insort_late [of h' now "(when_at now (Some d), fst (snd ev), fresh_id s)"] late srt h hd(3)
    by (simp add: t overdue_def heappush_def)
  show "sent t = sent s @ [message_of env (objs s (ev_entry ev))]"
    using m lt by (simp add: t sent_apply_entry reserve_eq message_of_def)
  show "schedules_equal (objs t) (old_schedulers t) (schedule t)"
    using schedules_equal_reserve [OF assms(1) mem assms(5), of "at_run clk"] by (simp add: t) (simp add: reserve_eq)
  show "\<And>i. i < fresh_id s \<Longrightarrow> objs t i = objs s i" "sheap t \<noteq> None" "fresh_id s \<le> fresh_id t" by (simp_all add: t reserve_eq)
qed

lemma overdue_run:
  assumes "steady now clk"
  shows "well_named s \<Longrightarrow> heap_ok s \<Longrightarrow> sheap s \<noteq> None \<Longrightarrow> schedules_equal (objs s) (old_schedulers s) (schedule s) \<Longrightarrow>
    overdue now s = evs \<Longrightarrow> (\<forall>ev \<in> set evs. ev_entry ev < fresh_id s \<and> sendable env now (objs s (ev_entry ev))) \<Longrightarrow>
    sent (run_ticks env clk (length evs) s) = sent s @ map (\<lambda>ev. message_of env (objs s (ev_entry ev))) evs
    \<and> overdue now (run_ticks env clk (length evs) s) = []"
proof (induction evs arbitrary: s)
  case (Cons ev evs)
  let ?t = "snd (tick env clk s)"
  obtain h where h: "sheap s = Some h" using Cons.prems(3) by auto
  have snd1: "sendable env now (objs s (ev_entry ev))" using Cons.prems(6) by simp
  note t = tick_sends_head [OF Cons.prems(1,2) h Cons.prems(5,4) assms snd1]
  have inv: "well_named ?t" "heap_ok ?t" using tick_inv [OF Cons.prems(1,2), of env clk] by auto
  have "\<forall>ev \<in> set evs. ev_entry ev < fresh_id ?t \<and> sendable env now (objs ?t (ev_entry ev))"
    using Cons.prems(6) t(4,6) by (auto intro: order_less_le_trans)
  from Cons.IH [OF inv t(5,3,1) this] show ?case
    using t(2,4) Cons.prems(6) by (auto intro!: map_cong)
qed (auto simp: overdue_def)

section \<open>Merging the configured schedule\<close>

lemma pop_keys_schedule:
  "schedule (pop_keys ks s) = filter (\<lambda>p. fst p \<notin> set ks) (schedule s)"
  "objs (pop_keys ks s) = objs s" "fresh_id (pop_keys ks s) = fresh_id s" "old_schedulers (pop_keys ks s) = old_schedulers s"
  by (induction ks s rule: pop_keys.induct) (auto simp: AList.delete_eq intro!: filter_cong)

definition merged_entry :: "rat \<Rightarrow> (nat \<Rightarrow> 's entry) \<Rightarrow> (string, nat) dict \<Rightarrow> string \<Rightarrow> 's entry \<Rightarrow> 's entry" where
  "merged_entry now ob d key c = (case dict_get d key of
     Some i \<Rightarrow> entry_update (ob i) (new_entry now key c) | None \<Rightarrow> new_entry now key c)"

definition merge_one :: "rat \<Rightarrow> string \<Rightarrow> 's entry \<Rightarrow> 's scheduler \<Rightarrow> 's scheduler" where
  "merge_one now key c s = (case dict_get (schedule s) key of
     Some i \<Rightarrow> s\<lparr>objs := (objs s)(i := entry_update (objs s i) (new_entry now key c))\<rparr>
   | None \<Rightarrow> add_entry (new_entry now key c) s)"

lemma merge_one_spec:
  assumes "well_named s"
  shows "well_named (merge_one now key c s)"
    and "\<exists>i. dict_get (schedule (merge_one now key c s)) key = Some i
       \<and> objs (merge_one now key c s) i = merged_entry now (objs s) (schedule s) key c"
    and "k \<noteq> key \<Longrightarrow> dict_get (schedule (merge_one now key c s)) k = dict_get (schedule s) k"
    and "k \<noteq> key \<Longrightarrow> dict_get (schedule s) k = Some i \<Longrightarrow> objs (merge_one now key c s) i = objs s i"
    and "set (keys (schedule (merge_one now key c s))) = insert key (set (keys (schedule s)))"
proof -
  have nm: "e_name (entry_update e e') = e_name e" "e_name (new_entry now key c) = key" for e e' :: "'a entry"
    by (simp_all add: entry_update_def new_entry_def)
  have lt: "i < fresh_id s \<and> e_name (objs s i) = k" if "dict_get (schedule s) k = Some i" for i k
    using assms dict_get_mem [OF that] by (auto simp: well_named_def)
  have inj: "i \<noteq> j" if "dict_get (schedule s) k = Some i" "dict_get (schedule s) key = Some j" "k \<noteq> key" for i j k
    using lt [OF that(1)] lt [OF that(2)] that(3) by auto
  have add: "add_entry (new_entry now key c) s = s\<lparr>objs := (objs s)(fresh_id s := new_entry now key c), fresh_id := Suc (fresh_id s),
      schedule := dict_set key (fresh_id s) (schedule s)\<rparr>" by (simp add: add_entry_def new_object_def nm)
  show "well_named (merge_one now key c s)"
    using assms by (auto simp: merge_one_def add well_named_def set_dict_set distinct_update nm less_Suc_eq split: option.split)
  show "\<exists>i. dict_get (schedule (merge_one now key c s)) key = Some i
       \<and> objs (merge_one now key c s) i = merged_entry now (objs s) (schedule s) key c"
    by (auto simp: merge_one_def add merged_entry_def dict_simps split: option.split)
  show "k \<noteq> key \<Longrightarrow> dict_get (schedule (merge_one now key c s)) k = dict_get (schedule s) k"
    by (auto simp: merge_one_def add dict_simps split: option.split)
  show "k \<noteq> key \<Longrightarrow> dict_get (schedule s) k = Some i \<Longrightarrow> objs (merge_one now key c s) i = objs s i"
    using inj by (auto simp: merge_one_def add split: option.split dest: lt)
  show "set (keys (schedule (merge_one now key c s))) = insert key (set (keys (schedule s)))"
    using dict_get_None_iff [of "schedule s" key] by (auto simp: merge_one_def add insert_absorb split: option.split)
qed

lemma merge_entries_spec:
  "dict_wf b \<Longrightarrow> well_named s \<Longrightarrow>
    set (keys (schedule (merge_entries now b s))) = set (keys (schedule s)) \<union> set (keys b)
    \<and> well_named (merge_entries now b s)
    \<and> (\<forall>k c. (k, c) \<in> set b \<longrightarrow> (\<exists>i. dict_get (schedule (merge_entries now b s)) k = Some i
         \<and> objs (merge_entries now b s) i = merged_entry now (objs s) (schedule s) k c))
    \<and> (\<forall>k i. k \<notin> set (keys b) \<longrightarrow> dict_get (schedule s) k = Some i \<longrightarrow>
         dict_get (schedule (merge_entries now b s)) k = Some i \<and> objs (merge_entries now b s) i = objs s i)"
proof (induction now b s rule: merge_entries.induct)
  case (2 now key c b s)
  let ?s = "merge_one now key c s" and ?t = "merge_entries now ((key, c) # b) s"
  note one = merge_one_spec [OF "2.prems"(2), where now = now and key = key and c = c]
  have t: "?t = merge_entries now b ?s" by (simp add: merge_one_def Let_def)
  have "dict_wf b" "key \<notin> set (keys b)" using "2.prems"(1) by auto
  note IH = "2.IH" [OF refl \<open>dict_wf b\<close>, folded merge_one_def, OF one(1)]
  have same: "merged_entry now (objs ?s) (schedule ?s) k c' = merged_entry now (objs s) (schedule s) k c'" if "k \<noteq> key" for k c'
    using one(3,4) [OF that] by (auto simp: merged_entry_def split: option.split)
  show ?case unfolding t
  proof (intro conjI allI impI)
    show "set (keys (schedule (merge_entries now b ?s))) = set (keys (schedule s)) \<union> set (keys ((key, c) # b))"
      using IH one(5) by auto
    show "well_named (merge_entries now b ?s)" using IH by blast
    show "\<exists>i. dict_get (schedule (merge_entries now b ?s)) k = Some i \<and> objs (merge_entries now b ?s) i = merged_entry now (objs s) (schedule s) k c'"
      if "(k, c') \<in> set ((key, c) # b)" for k c'
    proof (cases "k = key")
      case True
      then have "c' = c" using that \<open>key \<notin> set (keys b)\<close> by force
      then show ?thesis using one(2) IH True \<open>key \<notin> set (keys b)\<close> by metis
    next
      case False
      then have "(k, c') \<in> set b" using that by auto
      then show ?thesis using IH same [OF False, of c'] by metis
    qed
    fix k i
    assume "k \<notin> set (keys ((key, c) # b))" "dict_get (schedule s) k = Some i"
    then have "k \<noteq> key" "k \<notin> set (keys b)" "dict_get (schedule ?s) k = Some i" "objs ?s i = objs s i" using one(3,4) by auto
    then show "dict_get (schedule (merge_entries now b ?s)) k = Some i" "objs (merge_entries now b ?s) i = objs s i" using IH by auto
  qed
qed auto

lemma map_of_filter_keys: "k \<in> K \<Longrightarrow> map_of (filter (\<lambda>p. fst p \<in> K) d) k = map_of d k"
  by (induction d) auto

lemma merge_inplace_keys:
  assumes "dict_wf b" and "well_named s"
  shows "set (keys (schedule (merge_inplace now b s))) = set (keys b)" and "well_named (merge_inplace now b s)"
    and "(k, c) \<in> set b \<Longrightarrow> \<exists>i. dict_get (schedule (merge_inplace now b s)) k = Some i
       \<and> objs (merge_inplace now b s) i = merged_entry now (objs s) (schedule s) k c"
proof -
  let ?ks = "filter (\<lambda>k. k \<notin> set (keys b)) (keys (schedule s)) @ filter (\<lambda>k. k \<notin> set (keys (schedule s))) (keys b)"
  let ?s = "pop_keys ?ks s"
  have sch: "schedule ?s = filter (\<lambda>p. fst p \<in> set (keys b)) (schedule s)"
    by (auto simp: pop_keys_schedule intro!: filter_cong)
  have wn: "well_named ?s" using assms(2)
    by (auto simp: well_named_def pop_keys_schedule distinct_map_filter)
  note spec = merge_entries_spec [OF assms(1) wn, of now]
  have m: "merge_inplace now b s = merge_entries now b ?s" by (simp add: merge_inplace_def Let_def)
  show "set (keys (schedule (merge_inplace now b s))) = set (keys b)" unfolding m using spec sch by auto
  show "well_named (merge_inplace now b s)" unfolding m using spec by blast
  assume kc: "(k, c) \<in> set b"
  then have "k \<in> set (keys b)" by force
  then have "dict_get (schedule ?s) k = dict_get (schedule s) k" unfolding sch by (simp add: map_of_filter_keys)
  then have "merged_entry now (objs ?s) (schedule ?s) k c = merged_entry now (objs s) (schedule s) k c"
    by (simp add: merged_entry_def pop_keys_schedule)
  then show "\<exists>i. dict_get (schedule (merge_inplace now b s)) k = Some i
       \<and> objs (merge_inplace now b s) i = merged_entry now (objs s) (schedule s) k c"
    unfolding m using spec kc by metis
qed

lemma update_one:
  fixes s :: "'s scheduler" and e :: "'s entry" and now :: rat
  assumes "well_named s" and "name \<notin> set (keys (schedule s))"
  defines "t \<equiv> update_from_dict now [(name, EntryDict e)] s"
  shows "well_named t" and "set (keys (schedule t)) = insert name (set (keys (schedule s)))"
    and "dict_get (schedule s) k = Some i \<Longrightarrow> dict_get (schedule t) k = Some i \<and> objs t i = objs s i"
proof -
  have t: "t = s\<lparr>objs := (objs s)(fresh_id s := new_entry now name e), fresh_id := Suc (fresh_id s),
      schedule := schedule s @ [(name, fresh_id s)]\<rparr>"
    using assms(2) by (simp add: t_def new_object_def dict_set_fresh)
  have nm: "e_name (new_entry now name e) = name" by (simp add: new_entry_def)
  have lt: "j < fresh_id s \<and> e_name (objs s j) = n" if "(n, j) \<in> set (schedule s)" for n j
    using assms(1) that by (auto simp: well_named_def)
  show "well_named t" using assms(1,2) lt nm by (fastforce simp: well_named_def t less_Suc_eq)
  show "set (keys (schedule t)) = insert name (set (keys (schedule s)))" by (simp add: t)
  assume ki: "dict_get (schedule s) k = Some i"
  then show "dict_get (schedule t) k = Some i \<and> objs t i = objs s i" using lt [OF dict_get_mem [OF ki]] by (simp add: t map_add_def)
qed

definition wants_cleanup :: "'s app \<Rightarrow> (string, nat) dict \<Rightarrow> bool" where
  "wants_cleanup app data \<longleftrightarrow> result_expires app \<and> \<not> supports_autoexpire app \<and> ''celery.backend_cleanup'' \<notin> set (keys data)"

lemma install_spec:
  fixes s :: "'s scheduler" and app :: "'s app" and now :: rat
  assumes "well_named s"
  defines "t \<equiv> install_default_entries now app (schedule s) s"
  shows "well_named t" and "set (keys (schedule t)) = set (keys (schedule s)) \<union> (if wants_cleanup app (schedule s) then {''celery.backend_cleanup''} else {})"
    and "dict_get (schedule s) k = Some i \<Longrightarrow> dict_get (schedule t) k = Some i \<and> objs t i = objs s i"
proof -
  have t: "t = (if wants_cleanup app (schedule s) then update_from_dict now [(''celery.backend_cleanup'', EntryDict (cleanup app))] s else s)"
    by (auto simp: t_def install_default_entries_def wants_cleanup_def)
  note u = update_one [OF assms(1), where name = "''celery.backend_cleanup''" and now = now and e = "cleanup app"]
  have fresh: "wants_cleanup app (schedule s) \<Longrightarrow> ''celery.backend_cleanup'' \<notin> set (keys (schedule s))" by (simp add: wants_cleanup_def)
  show "well_named t" unfolding t using u(1) fresh assms(1) by presburger
  show "set (keys (schedule t)) = set (keys (schedule s)) \<union> (if wants_cleanup app (schedule s) then {''celery.backend_cleanup''} else {})"
    unfolding t using u(2) fresh by (simp del: update_from_dict.simps)
  show "dict_get (schedule s) k = Some i \<Longrightarrow> dict_get (schedule t) k = Some i \<and> objs t i = objs s i"
    unfolding t using u(3) fresh by presburger
qed

text \<open>After the checks of the store the schedule is the stored one, or empty when a setting changed.\<close>

lemma check_settings_spec:
  "st_entries (check_settings app st) = Some (case st_entries st of
     Some d \<Rightarrow> if st_version st \<noteq> None \<and> st_tz st = Some (timezone app) \<and> st_utc st = Some (enable_utc app) then d else []
   | None \<Rightarrow> [])"
  by (auto simp: check_settings_def create_schedule_def store_clear_def Let_def split: option.splits)

section \<open>Properties\<close>

text \<open>
  C23: in every state that the scheduler reaches by ticks, whatever the schedules answer, the
  arguments do and the broker accepts, its heap holds exactly one event for every entry of the
  schedule: no entry is lost and none is scheduled twice.
\<close>

theorem beat_heap_tracks_schedule:
  assumes "reach beat_initial beat_step s" and "sheap s = Some h"
  shows "sorted h \<and> mset (map (\<lambda>ev. e_name (objs s (ev_entry ev))) h) = mset (keys (schedule s)) \<and> distinct (keys (schedule s))"
proof -
  have inv: "well_named s" "heap_ok s" using beat.inv_reach [OF assms(1)] by auto
  then have h: "sorted h" "mset (map ev_entry h) = mset (vals (schedule s))" using assms(2) by (auto simp: heap_ok_def)
  have "mset (map (\<lambda>ev. e_name (objs s (ev_entry ev))) h) = image_mset (\<lambda>i. e_name (objs s i)) (mset (map ev_entry h))"
    by (simp add: multiset.map_comp comp_def)
  also have "\<dots> = mset (map (\<lambda>p. e_name (objs s (snd p))) (schedule s))" unfolding h(2) by (simp add: multiset.map_comp comp_def)
  also have "map (\<lambda>p. e_name (objs s (snd p))) (schedule s) = keys (schedule s)"
    using inv(1) by (auto simp: well_named_def intro!: map_cong)
  finally show ?thesis using h(1) inv(1) by (simp add: well_named_def)
qed

definition sample_entry :: "string \<Rightarrow> rat \<Rightarrow> rat entry" where
  "sample_entry n last_run = \<lparr>e_name = n, e_task = n, e_args = [Plain 1], e_kwargs = [], e_headers = None, e_options = [],
     e_schedule = 10, e_last_run_at = last_run, e_total_run_count = 0\<rparr>"

definition sample_env :: "rat env" where
  "sample_env = \<lparr>env_due = (\<lambda>every now l. if now - l \<ge> every then (True, Some every) else (False, Some (every - (now - l)))),
     env_call = (\<lambda>f. Inr f), env_send = (\<lambda>m. Inr ())\<rparr>"

definition sample_clocks :: "rat \<Rightarrow> clocks" where
  "sample_clocks now = \<lparr>at_populate = (\<lambda>_. (now, now)), at_top = now, at_due = now, at_run = now, at_sync = now, at_push = now\<rparr>"

definition sample_scheduler :: "rat scheduler" where
  "sample_scheduler = \<lparr>objs = (\<lambda>i. if i = 0 then sample_entry ''a'' 5 else sample_entry ''b'' 0), fresh_id = 2,
     schedule = [(''a'', 0), (''b'', 1)], sheap = None, old_schedulers = None, max_interval = 300, sync_every = 180,
     sync_every_tasks = None, last_sync = None, tasks_since_sync = 0, sent = [], syncs = 0\<rparr>"

lemma sample_initial: "beat_initial sample_scheduler"
  by (auto simp: beat_initial_def well_named_def sample_scheduler_def sample_entry_def)

lemma sample_reach: "reach beat_initial beat_step (snd (tick sample_env (sample_clocks 0) sample_scheduler))"
proof (rule reach_step)
  show "reach beat_initial beat_step sample_scheduler" by (rule reach_init) (rule sample_initial)
  show "beat_step sample_scheduler (sample_env, sample_clocks 0) (snd (tick sample_env (sample_clocks 0) sample_scheduler))"
    by (simp add: beat_step_def)
qed

theorem beat_heap_tracks_schedule_witness:
  "\<exists>h. sheap (snd (tick sample_env (sample_clocks 0) sample_scheduler)) = Some h
     \<and> mset (map (\<lambda>ev. e_name (objs (snd (tick sample_env (sample_clocks 0) sample_scheduler)) (ev_entry ev))) h)
       = mset (keys (schedule (snd (tick sample_env (sample_clocks 0) sample_scheduler))))"
proof -
  obtain h where "sheap (snd (tick sample_env (sample_clocks 0) sample_scheduler)) = Some h"
    using tick_inv [of sample_scheduler sample_env "sample_clocks 0"] sample_initial by (auto simp: beat_initial_def heap_ok_def)
  then show ?thesis using beat_heap_tracks_schedule [OF sample_reach] by blast
qed

text \<open>
  C9: overdue entries are all sent. From any reachable state whose schedule has not been changed
  since the heap was filled, if the clock stands at \<open>now\<close> and the \<open>n\<close> events that are overdue belong to
  entries that can be sent, then \<open>n\<close> ticks send exactly those entries' messages, in the order of
  their times, and leave nothing overdue.
\<close>

theorem overdue_entries_sent:
  assumes "reach beat_initial beat_step s" and "sheap s \<noteq> None"
    and "schedules_equal (objs s) (old_schedulers s) (schedule s)"
    and "steady now clk" and "\<forall>ev \<in> set (overdue now s). sendable env now (objs s (ev_entry ev))"
  shows "sent (run_ticks env clk (length (overdue now s)) s) = sent s @ map (\<lambda>ev. message_of env (objs s (ev_entry ev))) (overdue now s)
    \<and> overdue now (run_ticks env clk (length (overdue now s)) s) = []"
proof -
  have inv: "well_named s" "heap_ok s" using beat.inv_reach [OF assms(1)] by auto
  obtain h where h: "sheap s = Some h" using assms(2) by auto
  have "ev_entry ev < fresh_id s" if "ev \<in> set (overdue now s)" for ev
  proof -
    have "ev_entry ev \<in># mset (map ev_entry h)" using that h by (auto simp: overdue_def)
    then have "ev_entry ev \<in> set (vals (schedule s))" using inv(2) h by (simp only: heap_ok_def set_mset_mset [symmetric])
    then show ?thesis using well_named_mem [OF inv(1)] by blast
  qed
  then show ?thesis using overdue_run [OF assms(4) inv assms(2,3) refl] assms(5) by blast
qed

theorem overdue_entries_sent_witness:
  "let s = snd (tick sample_env (sample_clocks 0) sample_scheduler) in
     length (overdue 20 s) = 2 \<and> overdue 20 (run_ticks sample_env (sample_clocks 20) 2 s) = []"
proof -
  let ?s = "snd (tick sample_env (sample_clocks 0) sample_scheduler)"
  have l: "length (overdue 20 ?s) = 2" by code_simp
  have h: "sheap ?s \<noteq> None" by code_simp
  have e: "schedules_equal (objs ?s) (old_schedulers ?s) (schedule ?s)" by code_simp
  have st: "steady 20 (sample_clocks 20)" by (simp add: steady_def sample_clocks_def)
  have sn: "\<forall>ev \<in> set (overdue 20 ?s). sendable sample_env 20 (objs ?s (ev_entry ev))" by code_simp
  show ?thesis using overdue_entries_sent [OF sample_reach h e st sn] l by (simp add: Let_def)
qed

text \<open>
  run history survives a restart. When the stored schedule carries a version, and the time zone
  and UTC settings have not changed, every configured entry that was stored keeps its last run time
  and its run count and takes task, schedule and arguments from the configuration; an entry that
  was not stored starts with no runs; the store holds the resulting schedule.
\<close>

theorem restart_keeps_run_history:
  assumes "dict_wf (beat_schedule app)" and "well_named (s0\<lparr>schedule := d\<rparr>)"
    and "st_entries st = Some d" and "st_version st \<noteq> None" and "st_tz st = Some (timezone app)" and "st_utc st = Some (enable_utc app)"
    and "(k, c) \<in> set (beat_schedule app)"
  shows "case persistent_setup_schedule now v app st s0 of (s, st') \<Rightarrow> st_entries st' = Some (schedule s) \<and>
     (\<exists>i. dict_get (schedule s) k = Some i \<and> editable_fields_equal (objs s i) c
        \<and> (case dict_get d k of
             Some j \<Rightarrow> e_last_run_at (objs s i) = e_last_run_at (objs s0 j) \<and> e_total_run_count (objs s i) = e_total_run_count (objs s0 j)
           | None \<Rightarrow> e_last_run_at (objs s i) = now \<and> e_total_run_count (objs s i) = 0))"
proof -
  let ?s1 = "s0\<lparr>schedule := d\<rparr>" and ?s2 = "merge_inplace now (beat_schedule app) (s0\<lparr>schedule := d\<rparr>)"
  note m = merge_inplace_keys [OF assms(1,2), where now = now]
  obtain i where i: "dict_get (schedule ?s2) k = Some i" "objs ?s2 i = merged_entry now (objs s0) d k c"
    using m(3) [OF assms(7)] by auto
  let ?s3 = "install_default_entries now app (schedule ?s2) ?s2"
  have i3: "dict_get (schedule ?s3) k = Some i" "objs ?s3 i = merged_entry now (objs s0) d k c"
    using install_spec(3) [OF m(2) i(1), where now = now and app = app] i(2) by auto
  have st: "st_entries (check_settings app st) = Some d" using assms(3-6) by (simp add: check_settings_spec)
  have r: "persistent_setup_schedule now v app st s0 =
      (?s3\<lparr>syncs := Suc (syncs ?s3)\<rparr>, (check_settings app st)\<lparr>st_entries := Some (schedule ?s3), st_version := Some v,
         st_tz := Some (timezone app), st_utc := Some (enable_utc app)\<rparr>)"
    by (simp add: persistent_setup_schedule_def Let_def st)
  show ?thesis unfolding r using i3
    by (auto simp: merged_entry_def entry_update_def new_entry_def editable_fields_equal_def split: option.splits)
qed

definition sample_app :: "rat app" where
  "sample_app = \<lparr>result_expires = True, supports_autoexpire = False, cleanup = sample_entry ''cleanup'' 0,
     beat_schedule = [(''b'', sample_entry ''c'' 0)], timezone = ''UTC'', enable_utc = True\<rparr>"

theorem restart_keeps_run_history_witness:
  "case persistent_setup_schedule 7 ''5'' sample_app
      \<lparr>st_entries = Some [(''a'', 0), (''b'', 1)], st_version = Some ''5'', st_tz = Some ''UTC'', st_utc = Some True\<rparr> sample_scheduler of
    (s, st') \<Rightarrow> \<exists>i. dict_get (schedule s) ''b'' = Some i \<and> e_last_run_at (objs s i) = 0 \<and> e_task (objs s i) = ''c''"
proof -
  have wn: "well_named (sample_scheduler\<lparr>schedule := [(''a'', 0), (''b'', 1)]\<rparr>)"
    using sample_initial by (simp add: beat_initial_def sample_scheduler_def)
  have wf: "dict_wf (beat_schedule sample_app)" by (simp add: sample_app_def)
  have mem: "(''b'', sample_entry ''c'' 0) \<in> set (beat_schedule sample_app)" by (simp add: sample_app_def)
  show ?thesis
    using restart_keeps_run_history [OF wf wn, of "\<lparr>st_entries = Some [(''a'', 0), (''b'', 1)], st_version = Some ''5'', st_tz = Some ''UTC'', st_utc = Some True\<rparr>"
        "''b''" "sample_entry ''c'' 0" 7 "''5''"] mem
    by (auto simp: sample_app_def sample_scheduler_def sample_entry_def editable_fields_equal_def)
qed

text \<open>
  the plain scheduler never runs the default result clean-up. It installs
  \<open>celery.backend_cleanup\<close> first and then merges the configured schedule, which removes every entry
  the configuration does not name; the persistent scheduler merges first and keeps the entry.
\<close>

theorem plain_scheduler_drops_cleanup:
  assumes "dict_wf (beat_schedule app)" and "well_named s" and "''celery.backend_cleanup'' \<notin> set (keys (beat_schedule app))"
    and "result_expires app" and "\<not> supports_autoexpire app"
    and "st_entries st = Some (schedule s) \<and> st_version st \<noteq> None \<and> st_tz st = Some (timezone app) \<and> st_utc st = Some (enable_utc app)"
  shows "''celery.backend_cleanup'' \<notin> set (keys (schedule (setup_schedule now app s)))
    \<and> ''celery.backend_cleanup'' \<in> set (keys (schedule (fst (persistent_setup_schedule now v app st s))))"
proof
  have "set (keys (schedule (setup_schedule now app s))) = set (keys (beat_schedule app))"
    unfolding setup_schedule_def by (rule merge_inplace_keys(1) [OF assms(1) install_spec(1) [OF assms(2)]])
  then show "''celery.backend_cleanup'' \<notin> set (keys (schedule (setup_schedule now app s)))" using assms(3) by simp
  have st: "st_entries (check_settings app st) = Some (schedule s)" using assms(6) by (simp add: check_settings_spec)
  note m = merge_inplace_keys [OF assms(1,2), where now = now]
  have "wants_cleanup app (schedule (merge_inplace now (beat_schedule app) s))" using assms(3-5) m(1) by (simp add: wants_cleanup_def)
  then have "''celery.backend_cleanup'' \<in> set (keys (schedule (install_default_entries now app (schedule (merge_inplace now (beat_schedule app) s)) (merge_inplace now (beat_schedule app) s))))"
    using install_spec(2) [OF m(2), where now = now and app = app] by simp
  then show "''celery.backend_cleanup'' \<in> set (keys (schedule (fst (persistent_setup_schedule now v app st s))))"
    by (simp add: persistent_setup_schedule_def Let_def st)
qed

theorem plain_scheduler_drops_cleanup_witness:
  "''celery.backend_cleanup'' \<notin> set (keys (schedule (setup_schedule 7 sample_app sample_scheduler)))"
proof -
  have wf: "dict_wf (beat_schedule sample_app)" by (simp add: sample_app_def)
  have wn: "well_named sample_scheduler" using sample_initial by (simp add: beat_initial_def)
  show ?thesis
    using plain_scheduler_drops_cleanup [OF wf wn, of "\<lparr>st_entries = Some (schedule sample_scheduler), st_version = Some ''5'', st_tz = Some ''UTC'', st_utc = Some True\<rparr>" 7]
    by (simp add: sample_app_def)
qed

end
