(* ===== verification/Backend.thy ===== *)
theory Backend
  imports States
begin

text \<open>
  The result backend over a key/value store, \<open>celery.backends.base\<close>: the retry policy of backend
  operations with the back-off of \<open>celery.utils.time\<close>, the keys of tasks, groups and chords, storing,
  caching, reading and forgetting results and groups, and the two waiting loops.

  The client of the store (\<open>get\<close>, \<open>set\<close>, \<open>delete\<close>, \<open>mget\<close>) is a dictionary from keys to values, as the
  methods a subclass provides promise; payloads are kept decoded (serialisation and compression
  are third-party code), and a result value is an opaque number. The reads of a waiting loop see
  the store as it is at that time: the loops take the sequence of stores as an argument.
\<close>

section \<open>Back-off and retries\<close>

text \<open>The random draw \<open>randrange(n)\<close> is a parameter; it raises when its argument is not positive.\<close>

definition get_exponential_backoff_interval :: "(int \<Rightarrow> int) \<Rightarrow> int \<Rightarrow> nat \<Rightarrow> int \<Rightarrow> bool \<Rightarrow> int result" where
  "get_exponential_backoff_interval rnd factor retries maximum full_jitter =
     (let countdown = min maximum (factor * 2 ^ retries) in
      if full_jitter then (if countdown + 1 \<le> 0 then Inl ValueError else Inr (max 0 (rnd (countdown + 1))))
      else Inr (max 0 countdown))"

record policy =
  always_retry :: bool
  max_retries :: "nat option"
  base_sleep_ms :: int
  max_sleep_ms :: int
  safe_to_retry :: "exn \<Rightarrow> bool"
  has_fallback :: bool

datatype retry_error = Raised exn | FallbackError exn

text \<open>
  \<open>op k\<close> is the outcome of the k-th call of the operation; the loop returns the outcome with the
  sleeps it made. With \<open>max_retries\<close> infinite it may run forever, which is the value \<open>None\<close>.
\<close>

partial_function (option) retry_loop ::
  "policy \<Rightarrow> (int \<Rightarrow> int) \<Rightarrow> (nat \<Rightarrow> 'a result) \<Rightarrow> nat \<Rightarrow> int list \<Rightarrow> ((retry_error + 'a) \<times> int list) option" where
  "retry_loop pol rnd op retries sleeps =
     (case op retries of
        Inr x \<Rightarrow> Some (Inr x, sleeps)
      | Inl e \<Rightarrow>
          if always_retry pol \<and> safe_to_retry pol e then
            (if (case max_retries pol of None \<Rightarrow> True | Some n \<Rightarrow> retries < n) then
               (case get_exponential_backoff_interval rnd (base_sleep_ms pol) (Suc retries) (max_sleep_ms pol) True of
                  Inl e' \<Rightarrow> Some (Inl (Raised e'), sleeps)
                | Inr ms \<Rightarrow> retry_loop pol rnd op (Suc retries) (sleeps @ [ms]))
             else Some (Inl (if has_fallback pol then FallbackError e else Raised e), sleeps))
          else Some (Inl (Raised e), sleeps))"

definition ensure_retryable :: "policy \<Rightarrow> (int \<Rightarrow> int) \<Rightarrow> (nat \<Rightarrow> 'a result) \<Rightarrow> ((retry_error + 'a) \<times> int list) option" where
  "ensure_retryable pol rnd op = retry_loop pol rnd op 0 []"

section \<open>Keys\<close>

record prefixes =
  task_keyprefix :: string
  group_keyprefix :: string
  chord_keyprefix :: string

definition default_prefixes :: prefixes where
  "default_prefixes = \<lparr>task_keyprefix = ''celery-task-meta-'', group_keyprefix = ''celery-taskset-meta-'', chord_keyprefix = ''chord-unlock-''\<rparr>"

definition add_global_keyprefix :: "string \<Rightarrow> prefixes \<Rightarrow> prefixes" where
  "add_global_keyprefix g p =
     (if g = [] then p
      else let g' = (if last g \<notin> set '':_-.'' then g @ ''_'' else g) in
        \<lparr>task_keyprefix = g' @ task_keyprefix p, group_keyprefix = g' @ group_keyprefix p, chord_keyprefix = g' @ chord_keyprefix p\<rparr>)"

definition get_key_for :: "string \<Rightarrow> string \<Rightarrow> string \<Rightarrow> string" where
  "get_key_for prefix i key = prefix @ i @ key"

definition get_key_for_task :: "prefixes \<Rightarrow> string \<Rightarrow> string result" where
  "get_key_for_task p i = (if i = [] then Inl ValueError else Inr (get_key_for (task_keyprefix p) i []))"

definition get_key_for_group :: "prefixes \<Rightarrow> string \<Rightarrow> string result" where
  "get_key_for_group p i = (if i = [] then Inl ValueError else Inr (get_key_for (group_keyprefix p) i []))"

definition get_key_for_chord :: "prefixes \<Rightarrow> string \<Rightarrow> string result" where
  "get_key_for_chord p i = (if i = [] then Inl ValueError else Inr (get_key_for (chord_keyprefix p) i []))"

definition starts_with :: "string \<Rightarrow> string \<Rightarrow> bool" where
  "starts_with s pre \<longleftrightarrow> take (length pre) s = pre"

definition strip_prefix :: "prefixes \<Rightarrow> string \<Rightarrow> string" where
  "strip_prefix p key =
     (if starts_with key (task_keyprefix p) then drop (length (task_keyprefix p)) key
      else if starts_with key (group_keyprefix p) then drop (length (group_keyprefix p)) key
      else key)"

section \<open>Results\<close>

record req_info =
  ri_group :: "string option"
  ri_parent_id :: "string option"
  ri_children :: "string list"
  ri_ignore_result :: bool
  ri_name :: "string option"
  ri_hostname :: "string option"
  ri_retries :: "nat option"
  ri_queue :: "string option"

record meta =
  m_status :: string
  m_result :: "nat option"
  m_traceback :: "nat option"
  m_children :: "string list option"
  m_date_done :: "rat option"
  m_group_id :: "string option"
  m_parent_id :: "string option"
  m_task_id :: "string option"
  m_extended :: "(string option \<times> string option \<times> nat option \<times> string option) option"

definition pending_meta :: meta where
  "pending_meta = \<lparr>m_status = PENDING, m_result = None, m_traceback = None, m_children = None, m_date_done = None,
     m_group_id = None, m_parent_id = None, m_task_id = None, m_extended = None\<rparr>"

datatype kval = KMeta meta | KGroup "string list" | KCount nat

type_synonym store = "(string, kval) dict"
type_synonym cache = "(string, kval) dict"

record config =
  prefix :: prefixes
  extended :: bool
  app_now :: rat

definition get_result_meta :: "config \<Rightarrow> nat \<Rightarrow> string \<Rightarrow> nat option \<Rightarrow> req_info option \<Rightarrow> meta" where
  "get_result_meta cf res st tb request =
     \<lparr>m_status = st, m_result = Some res, m_traceback = tb,
      m_children = map_option ri_children request,
      m_date_done = (if st \<in> READY_STATES then Some (app_now cf) else None),
      m_group_id = (case request of None \<Rightarrow> None | Some r \<Rightarrow> ri_group r),
      m_parent_id = (case request of None \<Rightarrow> None | Some r \<Rightarrow> ri_parent_id r),
      m_task_id = None,
      m_extended = (if extended cf then map_option (\<lambda>r. (ri_name r, ri_hostname r, ri_retries r, ri_queue r)) request else None)\<rparr>"

definition get_task_meta_for :: "config \<Rightarrow> store \<Rightarrow> string \<Rightarrow> meta result" where
  "get_task_meta_for cf kv tid = res_bind (get_key_for_task (prefix cf) tid) (\<lambda>key.
     case dict_get kv key of None \<Rightarrow> Inr pending_meta | Some (KMeta m) \<Rightarrow> Inr m | Some _ \<Rightarrow> Inl TypeError)"

definition kv_store_result :: "config \<Rightarrow> string \<Rightarrow> nat \<Rightarrow> string \<Rightarrow> nat option \<Rightarrow> req_info option \<Rightarrow> store \<Rightarrow> store result" where
  "kv_store_result cf tid res st tb request kv =
     (let meta = (get_result_meta cf res st tb request)\<lparr>m_task_id := Some tid\<rparr> in
      res_bind (get_task_meta_for cf kv tid) (\<lambda>current_meta.
      if m_status current_meta = SUCCESS then Inr kv
      else res_bind (get_key_for_task (prefix cf) tid) (\<lambda>key. Inr (dict_set key (KMeta meta) kv))))"

definition kv_forget :: "config \<Rightarrow> string \<Rightarrow> store \<Rightarrow> store result" where
  "kv_forget cf tid kv = res_bind (get_key_for_task (prefix cf) tid) (\<lambda>key. Inr (dict_del key kv))"

definition kv_save_group :: "config \<Rightarrow> string \<Rightarrow> string list \<Rightarrow> store \<Rightarrow> store result" where
  "kv_save_group cf gid members kv = res_bind (get_key_for_group (prefix cf) gid) (\<lambda>key. Inr (dict_set key (KGroup members) kv))"

definition kv_delete_group :: "config \<Rightarrow> string \<Rightarrow> store \<Rightarrow> store result" where
  "kv_delete_group cf gid kv = res_bind (get_key_for_group (prefix cf) gid) (\<lambda>key. Inr (dict_del key kv))"

definition kv_restore_group :: "config \<Rightarrow> store \<Rightarrow> string \<Rightarrow> string list option result" where
  "kv_restore_group cf kv gid = res_bind (get_key_for_group (prefix cf) gid) (\<lambda>key.
     case dict_get kv key of None \<Rightarrow> Inr None | Some (KGroup ms) \<Rightarrow> Inr (Some ms) | Some _ \<Rightarrow> Inl TypeError)"

definition task_result_exists :: "config \<Rightarrow> store \<Rightarrow> string \<Rightarrow> bool result" where
  "task_result_exists cf kv tid = res_bind (get_key_for_task (prefix cf) tid) (\<lambda>key. Inr (dict_get kv key \<noteq> None))"

section \<open>The cached view\<close>

record backend =
  kv :: store
  bcache :: cache

definition store_result :: "config \<Rightarrow> string \<Rightarrow> nat \<Rightarrow> string \<Rightarrow> nat option \<Rightarrow> req_info option \<Rightarrow> backend \<Rightarrow> backend result" where
  "store_result cf tid res st tb request b = res_bind (kv_store_result cf tid res st tb request (kv b)) (\<lambda>s. Inr (b\<lparr>kv := s\<rparr>))"

definition forget :: "config \<Rightarrow> string \<Rightarrow> backend \<Rightarrow> backend result" where
  "forget cf tid b = res_bind (kv_forget cf tid (kv b)) (\<lambda>s. Inr \<lparr>kv = s, bcache = dict_del tid (bcache b)\<rparr>)"

definition get_task_meta :: "config \<Rightarrow> bool \<Rightarrow> string \<Rightarrow> backend \<Rightarrow> (meta \<times> backend) result" where
  "get_task_meta cf use_cache tid b =
     (case (if use_cache then dict_get (bcache b) tid else None) of
        Some (KMeta m) \<Rightarrow> Inr (m, b)
      | Some _ \<Rightarrow> Inl TypeError
      | None \<Rightarrow> res_bind (get_task_meta_for cf (kv b) tid) (\<lambda>m.
          Inr (m, if use_cache \<and> m_status m = SUCCESS then b\<lparr>bcache := dict_set tid (KMeta m) (bcache b)\<rparr> else b)))"

definition get_state :: "config \<Rightarrow> string \<Rightarrow> backend \<Rightarrow> (string \<times> backend) result" where
  "get_state cf tid b = res_bind (get_task_meta cf True tid b) (\<lambda>(m, b'). Inr (m_status m, b'))"

definition get_result :: "config \<Rightarrow> string \<Rightarrow> backend \<Rightarrow> (nat option \<times> backend) result" where
  "get_result cf tid b = res_bind (get_task_meta cf True tid b) (\<lambda>(m, b'). Inr (m_result m, b'))"

definition reload_task_result :: "config \<Rightarrow> string \<Rightarrow> backend \<Rightarrow> backend result" where
  "reload_task_result cf tid b = res_bind (get_task_meta cf False tid b) (\<lambda>(m, b'). Inr (b'\<lparr>bcache := dict_set tid (KMeta m) (bcache b')\<rparr>))"

definition get_group_meta :: "config \<Rightarrow> bool \<Rightarrow> string \<Rightarrow> backend \<Rightarrow> (string list option \<times> backend) result" where
  "get_group_meta cf use_cache gid b =
     (case (if use_cache then dict_get (bcache b) gid else None) of
        Some (KGroup ms) \<Rightarrow> Inr (Some ms, b)
      | Some _ \<Rightarrow> Inl TypeError
      | None \<Rightarrow> res_bind (kv_restore_group cf (kv b) gid) (\<lambda>ms.
          Inr (ms, case ms of Some l \<Rightarrow> if use_cache then b\<lparr>bcache := dict_set gid (KGroup l) (bcache b)\<rparr> else b | None \<Rightarrow> b)))"

definition save_group :: "config \<Rightarrow> string \<Rightarrow> string list \<Rightarrow> backend \<Rightarrow> backend result" where
  "save_group cf gid members b = res_bind (kv_save_group cf gid members (kv b)) (\<lambda>s. Inr (b\<lparr>kv := s\<rparr>))"

definition delete_group :: "config \<Rightarrow> string \<Rightarrow> backend \<Rightarrow> backend result" where
  "delete_group cf gid b = res_bind (kv_delete_group cf gid (kv b)) (\<lambda>s. Inr \<lparr>kv = s, bcache = dict_del gid (bcache b)\<rparr>)"

section \<open>Waiting\<close>

datatype wait_error = TimeoutError | WaitRaised exn

definition nap :: "rat option \<Rightarrow> rat \<Rightarrow> rat \<Rightarrow> rat" where
  "nap timeout interval elapsed = (case timeout of None \<Rightarrow> interval | Some t \<Rightarrow> min interval (t - elapsed))"

definition timed_out :: "rat option \<Rightarrow> rat \<Rightarrow> bool" where
  "timed_out timeout elapsed \<longleftrightarrow> (case timeout of None \<Rightarrow> False | Some t \<Rightarrow> elapsed \<ge> t)"

partial_function (option) wait_loop ::
  "config \<Rightarrow> (nat \<Rightarrow> store) \<Rightarrow> string \<Rightarrow> rat option \<Rightarrow> rat \<Rightarrow> nat \<Rightarrow> rat \<Rightarrow> cache \<Rightarrow> ((wait_error + meta) \<times> nat \<times> rat) option" where
  "wait_loop cf kvs tid timeout interval k elapsed ch =
     (case get_task_meta cf True tid \<lparr>kv = kvs k, bcache = ch\<rparr> of
        Inl e \<Rightarrow> Some (Inl (WaitRaised e), k, elapsed)
      | Inr mb \<Rightarrow>
          if m_status (fst mb) \<in> READY_STATES then Some (Inr (fst mb), k, elapsed)
          else if timed_out timeout elapsed then Some (Inl TimeoutError, k, elapsed)
          else if nap timeout interval elapsed < 0 then Some (Inl (WaitRaised ValueError), k, elapsed)
          else wait_loop cf kvs tid timeout interval (Suc k) (elapsed + nap timeout interval elapsed) (bcache (snd mb)))"

definition wait_for :: "config \<Rightarrow> (nat \<Rightarrow> store) \<Rightarrow> string \<Rightarrow> rat option \<Rightarrow> rat \<Rightarrow> cache \<Rightarrow> ((wait_error + meta) \<times> nat \<times> rat) option" where
  "wait_for cf kvs tid timeout interval ch = wait_loop cf kvs tid timeout interval 0 0 ch"

text \<open>One pass of \<open>mget\<close> over the ids still waited for, with the results that are ready.\<close>

fun filter_ready :: "config \<Rightarrow> store \<Rightarrow> string list \<Rightarrow> (string \<times> meta) list" where
  "filter_ready cf s [] = []"
| "filter_ready cf s (i # is) =
     (case dict_get s (get_key_for (task_keyprefix (prefix cf)) i []) of
        Some (KMeta m) \<Rightarrow> if m_status m \<in> READY_STATES then (i, m) # filter_ready cf s is else filter_ready cf s is
      | _ \<Rightarrow> filter_ready cf s is)"

fun cached_ready :: "cache \<Rightarrow> string list \<Rightarrow> (string \<times> meta) list" where
  "cached_ready ch [] = []"
| "cached_ready ch (i # is) =
     (case dict_get ch i of
        Some (KMeta m) \<Rightarrow> if m_status m \<in> READY_STATES then (i, m) # cached_ready ch is else cached_ready ch is
      | _ \<Rightarrow> cached_ready ch is)"

abbreviation without :: "string list \<Rightarrow> (string \<times> meta) list \<Rightarrow> string list" where
  "without ids r \<equiv> filter (\<lambda>i. i \<notin> fst ` set r) ids"

text \<open>
  \<open>get_many\<close> is a generator: with each result it yields goes the cache as it is at that moment, so
  that a caller that stops reading early is modelled too. The value is how it ends, what it has
  yielded, the time spent, and the cache at the end.
\<close>

type_synonym yielded = "((string \<times> meta) \<times> cache) list"

definition cache_update :: "cache \<Rightarrow> (string \<times> meta) list \<Rightarrow> cache" where
  "cache_update ch r = dict_update ch (map (\<lambda>(i, m). (i, KMeta m)) r)"

partial_function (option) get_many_loop ::
  "config \<Rightarrow> (nat \<Rightarrow> store) \<Rightarrow> rat option \<Rightarrow> rat \<Rightarrow> nat option \<Rightarrow> nat \<Rightarrow> rat \<Rightarrow> string list \<Rightarrow> yielded \<Rightarrow> cache
     \<Rightarrow> ((wait_error option) \<times> yielded \<times> rat \<times> cache) option" where
  "get_many_loop cf kvs timeout interval max_iterations k elapsed ids out ch =
     (if ids = [] then Some (None, out, elapsed, ch)
      else let r = filter_ready cf (kvs k) ids; ch' = cache_update ch r; ids' = without ids r; out' = out @ map (\<lambda>y. (y, ch')) r in
        if ids' = [] then Some (None, out', elapsed, ch')
        else if timed_out timeout elapsed then Some (Some TimeoutError, out', elapsed, ch')
        else if nap timeout interval elapsed < 0 then Some (Some (WaitRaised ValueError), out', elapsed, ch')
        else if (case max_iterations of None \<Rightarrow> False | Some n \<Rightarrow> n \<noteq> 0 \<and> Suc k \<ge> n)
          then Some (None, out', elapsed + nap timeout interval elapsed, ch')
        else get_many_loop cf kvs timeout interval max_iterations (Suc k) (elapsed + nap timeout interval elapsed) ids' out' ch')"

definition get_many :: "config \<Rightarrow> (nat \<Rightarrow> store) \<Rightarrow> cache \<Rightarrow> string list \<Rightarrow> rat option \<Rightarrow> rat \<Rightarrow> nat option
     \<Rightarrow> ((wait_error option) \<times> yielded \<times> rat \<times> cache) option" where
  "get_many cf kvs ch ids timeout interval max_iterations =
     (let c = cached_ready ch ids; out = map (\<lambda>y. (y, ch)) c in
      if [] \<in> set (without ids c) then Some (Some (WaitRaised ValueError), out, 0, ch)
      else get_many_loop cf kvs timeout interval max_iterations 0 0 (without ids c) out ch)"

section \<open>Keys never collide\<close>

lemma starts_with_append [simp]: "starts_with (g @ x) (g @ y) = starts_with x y"
  by (simp add: starts_with_def)

lemma starts_with_self [simp]: "starts_with (p @ x) p"
  by (simp add: starts_with_def)

definition common_prefixes :: "string \<Rightarrow> prefixes" where
  "common_prefixes g = \<lparr>task_keyprefix = g @ task_keyprefix default_prefixes, group_keyprefix = g @ group_keyprefix default_prefixes,
     chord_keyprefix = g @ chord_keyprefix default_prefixes\<rparr>"

lemma global_keyprefix: "\<exists>g'. add_global_keyprefix g default_prefixes = common_prefixes g'"
  by (cases "g = []") (auto simp: add_global_keyprefix_def common_prefixes_def Let_def intro: exI [of _ "[]"])

lemma kinds_differ:
  "''celery-task-meta-'' @ i \<noteq> ''celery-taskset-meta-'' @ j" "''celery-task-meta-'' @ i \<noteq> ''chord-unlock-'' @ j"
  "''celery-taskset-meta-'' @ i \<noteq> ''chord-unlock-'' @ j"
  by simp_all

definition prefixes_ok :: "prefixes \<Rightarrow> bool" where
  "prefixes_ok p \<longleftrightarrow> (\<forall>i j. task_keyprefix p @ i \<noteq> group_keyprefix p @ j \<and> task_keyprefix p @ i \<noteq> chord_keyprefix p @ j
     \<and> group_keyprefix p @ i \<noteq> chord_keyprefix p @ j)"

lemma prefixes_ok_common: "prefixes_ok (common_prefixes g)"
  using kinds_differ by (simp add: prefixes_ok_def common_prefixes_def default_prefixes_def)

lemma get_key_for_Nil [simp]: "get_key_for p i [] = p @ i"
  by (simp add: get_key_for_def)

section \<open>Operations on the store\<close>

text \<open>
  Calls made on a backend by any number of clients. A call that raises leaves the backend as it
  was.
\<close>

datatype bop =
    OStore string nat string "nat option" "req_info option"
  | OForget string
  | OGet string
  | OSaveGroup string "string list"
  | OGetGroup string
  | ODeleteGroup string

definition keep_on_error :: "backend \<Rightarrow> backend result \<Rightarrow> backend" where
  "keep_on_error b r = (case r of Inl _ \<Rightarrow> b | Inr b' \<Rightarrow> b')"

fun run_bop :: "config \<Rightarrow> bop \<Rightarrow> backend \<Rightarrow> backend" where
  "run_bop cf (OStore t r st tb q) b = keep_on_error b (store_result cf t r st tb q b)"
| "run_bop cf (OForget t) b = keep_on_error b (forget cf t b)"
| "run_bop cf (OGet t) b = keep_on_error b (res_bind (get_task_meta cf True t b) (\<lambda>(_, b'). Inr b'))"
| "run_bop cf (OSaveGroup g ms) b = keep_on_error b (save_group cf g ms b)"
| "run_bop cf (OGetGroup g) b = keep_on_error b (res_bind (get_group_meta cf True g b) (\<lambda>(_, b'). Inr b'))"
| "run_bop cf (ODeleteGroup g) b = keep_on_error b (delete_group cf g b)"

fun run_bops :: "config \<Rightarrow> bop list \<Rightarrow> backend \<Rightarrow> backend" where
  "run_bops cf [] b = b"
| "run_bops cf (p # ps) b = run_bops cf ps (run_bop cf p b)"

lemma pending_not_success [simp]: "PENDING \<noteq> SUCCESS" "m_status pending_meta = PENDING"
  by (simp_all add: pending_meta_def PENDING_def SUCCESS_def)

lemmas backend_ops = store_result_def kv_store_result_def forget_def kv_forget_def get_task_meta_def save_group_def kv_save_group_def
  get_group_meta_def kv_restore_group_def delete_group_def kv_delete_group_def get_task_meta_for_def
  get_key_for_task_def get_key_for_group_def

lemma store_other_key:
  assumes "kv_store_result cf t r st tb q s = Inr s'"
  shows "s' = s \<or> (t \<noteq> [] \<and> (\<exists>m. m_status m = st \<and> s' = dict_set (task_keyprefix (prefix cf) @ t) (KMeta m) s
     \<and> (\<forall>m'. get_task_meta_for cf s t = Inr m' \<longrightarrow> m_status m' \<noteq> SUCCESS)))"
proof -
  obtain cm where c: "t \<noteq> []" "get_task_meta_for cf s t = Inr cm"
    using assms by (auto simp: kv_store_result_def Let_def res_bind_Inr_iff get_task_meta_for_def get_key_for_task_def split: if_splits)
  let ?m = "(get_result_meta cf r st tb q)\<lparr>m_task_id := Some t\<rparr>"
  have st: "m_status ?m = st" by (simp add: get_result_meta_def)
  have s': "s' = (if m_status cm = SUCCESS then s else dict_set (task_keyprefix (prefix cf) @ t) (KMeta ?m) s)"
    using assms c by (auto simp: kv_store_result_def Let_def get_key_for_task_def split: if_splits)
  show ?thesis
  proof (cases "m_status cm = SUCCESS")
    case False
    then show ?thesis using s' c st by (intro disjI2 conjI exI [of _ ?m]) simp_all
  qed (use s' in simp)
qed

text \<open>A result in the state SUCCESS stays until it is forgotten.\<close>

lemma run_bop_success:
  assumes "prefixes_ok (prefix cf)" and "dict_get (kv b) (task_keyprefix (prefix cf) @ t) = Some (KMeta m)" and "m_status m = SUCCESS"
    and "t \<noteq> []" and "p \<noteq> OForget t"
  shows "dict_get (kv (run_bop cf p b)) (task_keyprefix (prefix cf) @ t) = Some (KMeta m)"
proof (cases p)
  case (OStore t' r st tb q)
  show ?thesis
  proof (cases "kv_store_result cf t' r st tb q (kv b)")
    case (Inr s')
    have "get_task_meta_for cf (kv b) t = Inr m" using assms by (simp add: get_task_meta_for_def get_key_for_task_def)
    then have "dict_get s' (task_keyprefix (prefix cf) @ t) = Some (KMeta m)"
      using store_other_key [OF Inr] assms(2,3) by (auto simp: dict_simps)
    then show ?thesis using OStore Inr by (simp add: keep_on_error_def store_result_def)
  qed (use OStore assms(2) in \<open>simp add: keep_on_error_def store_result_def\<close>)
qed (use assms in \<open>auto simp: keep_on_error_def backend_ops dict_simps res_bind_Inr_iff prefixes_ok_def split: sum.splits if_splits option.splits kval.splits\<close>)

definition cache_ok :: "config \<Rightarrow> string set \<Rightarrow> backend \<Rightarrow> bool" where
  "cache_ok cf T b \<longleftrightarrow> (\<forall>t \<in> T. \<forall>v. dict_get (bcache b) t = Some v \<longrightarrow>
     (\<exists>m. v = KMeta m \<and> m_status m = SUCCESS \<and> t \<noteq> [] \<and> dict_get (kv b) (task_keyprefix (prefix cf) @ t) = Some v))"

text \<open>Task identifiers and group identifiers are apart: they share one cache.\<close>

fun bop_ok :: "string set \<Rightarrow> bop \<Rightarrow> bool" where
  "bop_ok T (OStore t _ _ _ _) \<longleftrightarrow> t \<in> T"
| "bop_ok T (OForget t) \<longleftrightarrow> t \<in> T"
| "bop_ok T (OGet t) \<longleftrightarrow> t \<in> T"
| "bop_ok T (OSaveGroup g _) \<longleftrightarrow> g \<notin> T"
| "bop_ok T (OGetGroup g) \<longleftrightarrow> g \<notin> T"
| "bop_ok T (ODeleteGroup g) \<longleftrightarrow> g \<notin> T"

lemma run_bop_cache:
  assumes "prefixes_ok (prefix cf)" and "cache_ok cf T b" and "bop_ok T p"
  shows "cache_ok cf T (run_bop cf p b)"
proof (cases p)
  case (OStore t r st tb q)
  show ?thesis
  proof (cases "kv_store_result cf t r st tb q (kv b)")
    case (Inr s')
    have "dict_get s' (task_keyprefix (prefix cf) @ u) = dict_get (kv b) (task_keyprefix (prefix cf) @ u)"
      if "dict_get (kv b) (task_keyprefix (prefix cf) @ u) = Some (KMeta m)" "m_status m = SUCCESS" "u \<noteq> []" for u m
      using store_other_key [OF Inr] that by (auto simp: dict_simps get_task_meta_for_def get_key_for_task_def)
    then show ?thesis using assms(2) OStore Inr by (fastforce simp: cache_ok_def keep_on_error_def store_result_def)
  qed (use OStore assms(2) in \<open>simp add: keep_on_error_def store_result_def\<close>)
next
  case (OForget t)
  then show ?thesis using assms(2,3)
    by (auto simp: keep_on_error_def forget_def kv_forget_def get_key_for_task_def cache_ok_def dict_simps split: if_splits)
next
  case (OGet t)
  then show ?thesis using assms(2)
    by (auto simp: keep_on_error_def get_task_meta_def get_task_meta_for_def get_key_for_task_def cache_ok_def dict_simps
        split: sum.splits if_splits option.splits kval.splits)
next
  case (OGetGroup g)
  then show ?thesis using assms(2,3)
    by (auto simp: keep_on_error_def get_group_meta_def kv_restore_group_def get_key_for_group_def cache_ok_def dict_simps
        split: sum.splits if_splits option.splits kval.splits)
qed (use assms in \<open>auto simp: keep_on_error_def save_group_def kv_save_group_def delete_group_def kv_delete_group_def
    get_key_for_group_def cache_ok_def dict_simps prefixes_ok_def split: if_splits\<close>)

lemma run_bops_cache:
  assumes "prefixes_ok (prefix cf)"
  shows "cache_ok cf T b \<Longrightarrow> \<forall>p \<in> set ps. bop_ok T p \<Longrightarrow> cache_ok cf T (run_bops cf ps b)"
  using run_bop_cache [OF assms] by (induction ps arbitrary: b) auto

lemma get_task_meta_cached:
  assumes "cache_ok cf T b" and "t \<in> T"
  shows "res_bind (get_task_meta cf True t b) (\<lambda>(m, _). Inr m) = get_task_meta_for cf (kv b) t"
proof (cases "dict_get (bcache b) t")
  case None
  then show ?thesis by (cases "get_task_meta_for cf (kv b) t") (simp_all add: get_task_meta_def)
next
  case (Some v)
  then obtain m where "v = KMeta m" "t \<noteq> []" "dict_get (kv b) (task_keyprefix (prefix cf) @ t) = Some v"
    using assms by (auto simp: cache_ok_def)
  then show ?thesis using Some by (simp add: get_task_meta_def get_task_meta_for_def get_key_for_task_def)
qed

section \<open>Deadlines\<close>

lemma wait_loop_deadline:
  assumes "0 < interval" and "0 \<le> t"
  shows "elapsed \<le> t \<Longrightarrow> t - elapsed \<le> of_nat n * interval \<Longrightarrow>
    \<exists>r k' e. wait_loop cf kvs tid (Some t) interval k elapsed ch = Some (r, k', e) \<and> e \<le> t \<and> (r = Inl TimeoutError \<longrightarrow> e = t)
      \<and> (\<forall>m. r = Inr m \<longrightarrow> m_status m \<in> READY_STATES)"
proof (induction n arbitrary: elapsed k ch)
  case 0
  then show ?case
    by (subst wait_loop.simps) (auto simp: timed_out_def split: sum.split)
next
  case (Suc n)
  let ?w = "nap (Some t) interval elapsed"
  show ?case
  proof (cases "elapsed = t")
    case True
    then show ?thesis by (subst wait_loop.simps) (auto simp: timed_out_def split: sum.split)
  next
    case False
    have w: "0 < ?w" "elapsed + ?w \<le> t" using False Suc.prems(1) assms by (auto simp: nap_def min_def)
    have le: "t - (elapsed + ?w) \<le> of_nat n * interval"
    proof (cases "interval \<le> t - elapsed")
      case True
      then show ?thesis using Suc.prems(2) by (simp add: nap_def min_def algebra_simps)
    next
      case False
      then show ?thesis using assms by (simp add: nap_def min_def)
    qed
    note IH = Suc.IH [OF w(2) le]
    show ?thesis
    proof (cases "get_task_meta cf True tid \<lparr>kv = kvs k, bcache = ch\<rparr>")
      case (Inr mb)
      have nt: "\<not> timed_out (Some t) elapsed" using False Suc.prems(1) by (simp add: timed_out_def)
      show ?thesis
      proof (cases "m_status (fst mb) \<in> READY_STATES")
        case True
        then show ?thesis using Inr Suc.prems(1) by (subst wait_loop.simps) simp
      next
        case False
        then have "wait_loop cf kvs tid (Some t) interval k elapsed ch =
            wait_loop cf kvs tid (Some t) interval (Suc k) (elapsed + ?w) (bcache (snd mb))"
          using Inr nt w(1) by (subst wait_loop.simps) simp
        then show ?thesis using IH by simp
      qed
    qed (use Suc.prems(1) in \<open>subst wait_loop.simps, simp\<close>)
  qed
qed

lemma enough_naps: "0 < interval \<Longrightarrow> \<exists>n. t \<le> of_nat n * (interval :: rat)"
  using ex_less_of_nat_mult [of interval t] by (auto intro: less_imp_le)

lemma filter_ready_mem: "(i, m) \<in> set (filter_ready cf s ids) \<Longrightarrow> i \<in> set ids \<and> m_status m \<in> READY_STATES"
  by (induction cf s ids rule: filter_ready.induct) (auto split: option.splits kval.splits if_splits)

lemma filter_ready_distinct: "distinct ids \<Longrightarrow> distinct (map fst (filter_ready cf s ids))"
  by (induction cf s ids rule: filter_ready.induct) (auto split: option.splits kval.splits if_splits dest: filter_ready_mem)

lemma cached_ready_mem: "(i, m) \<in> set (cached_ready ch ids) \<Longrightarrow> i \<in> set ids \<and> m_status m \<in> READY_STATES"
  by (induction ch ids rule: cached_ready.induct) (auto split: option.splits kval.splits if_splits)

lemma cached_ready_distinct: "distinct ids \<Longrightarrow> distinct (map fst (cached_ready ch ids))"
  by (induction ch ids rule: cached_ready.induct) (auto split: option.splits kval.splits if_splits dest: cached_ready_mem)

text \<open>What the passes so far have yielded: each id once, ready, and together with the rest all ids.\<close>

definition yields_ok :: "string set \<Rightarrow> string list \<Rightarrow> (string \<times> meta) list \<Rightarrow> bool" where
  "yields_ok I ids out \<longleftrightarrow> distinct ids \<and> distinct (map fst out) \<and> set ids \<inter> fst ` set out = {}
     \<and> set ids \<union> fst ` set out = I \<and> (\<forall>(i, m) \<in> set out. m_status m \<in> READY_STATES)"

lemma yields_ok_pass:
  assumes "yields_ok I ids out"
  shows "yields_ok I (without ids (filter_ready cf s ids)) (out @ filter_ready cf s ids)"
proof -
  have sub: "fst ` set (filter_ready cf s ids) \<subseteq> set ids" using filter_ready_mem by force
  have rdy: "\<forall>(i, m) \<in> set (filter_ready cf s ids). m_status m \<in> READY_STATES" using filter_ready_mem by force
  show ?thesis using assms sub rdy filter_ready_distinct [of ids cf s] unfolding yields_ok_def by (auto simp: subset_iff)
qed

lemma get_many_loop_sound:
  assumes "get_many_loop cf kvs timeout interval mi k elapsed ids out ch = Some y"
  shows "yields_ok I ids (map fst out) \<longrightarrow>
    (\<exists>rest. yields_ok I rest (map fst (fst (snd y))) \<and> (fst y = None \<and> mi = None \<longrightarrow> rest = []))"
proof (rule get_many_loop.raw_induct [where P = "\<lambda>cf kvs timeout interval mi k elapsed ids out ch y. yields_ok I ids (map fst out) \<longrightarrow>
    (\<exists>rest. yields_ok I rest (map fst (fst (snd y))) \<and> (fst y = None \<and> mi = None \<longrightarrow> rest = []))", OF _ assms], intro impI)
  fix loop and cf :: config and kvs timeout interval mi and k :: nat and elapsed ids out ch
    and y :: "(wait_error option) \<times> yielded \<times> rat \<times> cache"
  let ?r = "filter_ready cf (kvs k) ids" and ?ch = "cache_update ch (filter_ready cf (kvs k) ids)"
  let ?out = "out @ map (\<lambda>y. (y, ?ch)) ?r"
  assume IH: "\<And>cf kvs timeout interval mi k elapsed ids out ch y. loop cf kvs timeout interval mi k elapsed ids out ch = Some y \<Longrightarrow>
      yields_ok I ids (map fst out) \<longrightarrow> (\<exists>rest. yields_ok I rest (map fst (fst (snd y))) \<and> (fst y = None \<and> mi = None \<longrightarrow> rest = []))"
    and body: "(if ids = [] then Some (None, out, elapsed, ch)
      else let r = ?r; ch' = cache_update ch r; ids' = without ids r; out' = out @ map (\<lambda>y. (y, ch')) r in
        if ids' = [] then Some (None, out', elapsed, ch')
        else if timed_out timeout elapsed then Some (Some TimeoutError, out', elapsed, ch')
        else if nap timeout interval elapsed < 0 then Some (Some (WaitRaised ValueError), out', elapsed, ch')
        else if (case mi of None \<Rightarrow> False | Some n \<Rightarrow> n \<noteq> 0 \<and> Suc k \<ge> n)
          then Some (None, out', elapsed + nap timeout interval elapsed, ch')
        else loop cf kvs timeout interval mi (Suc k) (elapsed + nap timeout interval elapsed) ids' out' ch') = Some y"
    and ok: "yields_ok I ids (map fst out)"
  have out: "map fst ?out = map fst out @ ?r" by (simp add: comp_def)
  note pass = yields_ok_pass [OF ok, of cf "kvs k", folded out]
  show "\<exists>rest. yields_ok I rest (map fst (fst (snd y))) \<and> (fst y = None \<and> mi = None \<longrightarrow> rest = [])"
  proof (cases "loop cf kvs timeout interval mi (Suc k) (elapsed + nap timeout interval elapsed) (without ids ?r) ?out ?ch = Some y")
    case True
    then show ?thesis using IH pass by blast
  next
    case False
    then have "y = (fst y, out, snd (snd y)) \<and> ids = [] \<or> y = (fst y, ?out, snd (snd y)) \<and> (fst y = None \<and> mi = None \<longrightarrow> without ids ?r = [])"
      using body unfolding Let_def by (auto split: if_splits option.splits)
    then show ?thesis
    proof (elim disjE conjE)
      assume y: "y = (fst y, out, snd (snd y))" "ids = []"
      then show ?thesis using ok by (intro exI [of _ ids]) (metis fst_conv snd_conv)
    next
      assume y: "y = (fst y, ?out, snd (snd y))" "fst y = None \<and> mi = None \<longrightarrow> without ids ?r = []"
      then show ?thesis using pass by (intro exI [of _ "without ids ?r"]) (metis fst_conv snd_conv)
    qed
  qed
qed

lemma get_many_loop_deadline:
  assumes "0 < interval" and "0 \<le> t"
  shows "elapsed \<le> t \<Longrightarrow> t - elapsed \<le> of_nat n * interval \<Longrightarrow>
    \<exists>r out' e ch'. get_many_loop cf kvs (Some t) interval mi k elapsed ids out ch = Some (r, out', e, ch') \<and> e \<le> t"
proof (induction n arbitrary: elapsed k ids out ch)
  case 0
  then show ?case by (subst get_many_loop.simps) (auto simp: timed_out_def Let_def)
next
  case (Suc n)
  let ?w = "nap (Some t) interval elapsed"
  show ?case
  proof (cases "elapsed = t")
    case True
    then show ?thesis by (subst get_many_loop.simps) (auto simp: timed_out_def Let_def)
  next
    case False
    have w: "0 < ?w" "elapsed + ?w \<le> t" using False Suc.prems(1) assms by (auto simp: nap_def min_def)
    have "t - (elapsed + ?w) \<le> of_nat n * interval"
      using Suc.prems(2) assms(1) by (cases "interval \<le> t - elapsed") (simp_all add: nap_def min_def algebra_simps)
    from Suc.IH [OF w(2) this] show ?thesis
      using w Suc.prems(1) by (subst get_many_loop.simps) (auto simp: timed_out_def Let_def)
  qed
qed

section \<open>Retries\<close>

lemma backoff_bounds:
  assumes "\<forall>n > 0. 0 \<le> rnd n \<and> rnd n < n" and "0 \<le> factor" and "0 \<le> maximum"
  shows "\<exists>ms. get_exponential_backoff_interval rnd factor retries maximum True = Inr ms \<and> 0 \<le> ms \<and> ms \<le> maximum"
proof -
  let ?c = "min maximum (factor * 2 ^ retries)"
  have c: "0 \<le> ?c" "?c \<le> maximum" using assms(2,3) by auto
  have "0 < ?c + 1" using c by linarith
  then have r: "0 \<le> rnd (?c + 1)" "rnd (?c + 1) < ?c + 1" using assms(1) by blast+
  have "get_exponential_backoff_interval rnd factor retries maximum True = Inr (max 0 (rnd (?c + 1)))"
    using \<open>0 < ?c + 1\<close> unfolding get_exponential_backoff_interval_def Let_def if_True by (metis not_le)
  moreover have "0 \<le> max 0 (rnd (?c + 1))" "max 0 (rnd (?c + 1)) \<le> maximum" using r c by linarith+
  ultimately show ?thesis by blast
qed

lemma retry_loop_spec:
  assumes "\<forall>n > 0. 0 \<le> rnd n \<and> rnd n < n" and "0 \<le> base_sleep_ms pol" and "0 \<le> max_sleep_ms pol" and "max_retries pol = Some mx"
  shows "r + d = mx \<Longrightarrow> \<forall>ms \<in> set sl. 0 \<le> ms \<and> ms \<le> max_sleep_ms pol \<Longrightarrow> length sl = r \<Longrightarrow>
    \<exists>k out sl'. retry_loop pol rnd op r sl = Some (out, sl') \<and> r \<le> k \<and> k \<le> mx \<and> length sl' = k
      \<and> (\<forall>ms \<in> set sl'. 0 \<le> ms \<and> ms \<le> max_sleep_ms pol)
      \<and> (\<forall>j. r \<le> j \<longrightarrow> j < k \<longrightarrow> (\<exists>e. op j = Inl e \<and> always_retry pol \<and> safe_to_retry pol e))
      \<and> (case op k of Inr x \<Rightarrow> out = Inr x
          | Inl e \<Rightarrow> (k = mx \<or> \<not> (always_retry pol \<and> safe_to_retry pol e)) \<and> (out = Inl (Raised e) \<or> (k = mx \<and> out = Inl (FallbackError e))))"
proof (induction d arbitrary: r sl)
  case 0
  then show ?case by (subst retry_loop.simps) (auto simp: assms(4) split: sum.split)
next
  case (Suc d)
  show ?case
  proof (cases "\<exists>e. op r = Inl e \<and> always_retry pol \<and> safe_to_retry pol e")
    case True
    then obtain e where e: "op r = Inl e" "always_retry pol" "safe_to_retry pol e" by blast
    obtain ms where ms: "get_exponential_backoff_interval rnd (base_sleep_ms pol) (Suc r) (max_sleep_ms pol) True = Inr ms" "0 \<le> ms" "ms \<le> max_sleep_ms pol"
      using backoff_bounds [OF assms(1-3)] by blast
    have step: "retry_loop pol rnd op r sl = retry_loop pol rnd op (Suc r) (sl @ [ms])"
      using e ms Suc.prems(1) by (subst retry_loop.simps) (simp add: assms(4))
    obtain k out sl' where IH: "retry_loop pol rnd op (Suc r) (sl @ [ms]) = Some (out, sl')" "Suc r \<le> k" "k \<le> mx" "length sl' = k"
        "\<forall>ms \<in> set sl'. 0 \<le> ms \<and> ms \<le> max_sleep_ms pol"
        "\<forall>j. Suc r \<le> j \<longrightarrow> j < k \<longrightarrow> (\<exists>e. op j = Inl e \<and> always_retry pol \<and> safe_to_retry pol e)"
        "case op k of Inr x \<Rightarrow> out = Inr x
          | Inl e \<Rightarrow> (k = mx \<or> \<not> (always_retry pol \<and> safe_to_retry pol e)) \<and> (out = Inl (Raised e) \<or> (k = mx \<and> out = Inl (FallbackError e)))"
      using Suc.IH [of "Suc r" "sl @ [ms]"] Suc.prems ms by auto
    have "\<exists>e. op j = Inl e \<and> always_retry pol \<and> safe_to_retry pol e" if "r \<le> j" "j < k" for j
      using IH(6) that True by (cases "j = r") auto
    then show ?thesis using step IH by (intro exI [of _ k] exI [of _ out] exI [of _ sl']) auto
  next
    case False
    then show ?thesis using Suc.prems
      by (intro exI [of _ r]) (subst retry_loop.simps, auto split: sum.split)
  qed
qed

section \<open>Properties\<close>

text \<open>
  keys. Whatever global prefix is configured, the keys of tasks, groups and chords never
  collide, different identifiers have different keys, and \<open>_strip_prefix\<close> takes the key of a task or
  of a group back to its identifier.
\<close>

theorem backend_keys_roundtrip:
  assumes "p = add_global_keyprefix g default_prefixes" and "i \<noteq> []" and "j \<noteq> []"
    and "get_key_for_task p i = Inr kt" and "get_key_for_group p j = Inr kg" and "get_key_for_chord p l = Inr kc"
  shows "strip_prefix p kt = i \<and> strip_prefix p kg = j \<and> kt \<noteq> kg \<and> kt \<noteq> kc \<and> kg \<noteq> kc
    \<and> (get_key_for_task p i' = Inr kt \<longrightarrow> i' = i)"
proof -
  obtain g' where p: "p = common_prefixes g'" using global_keyprefix assms(1) by blast
  have k: "kt = task_keyprefix p @ i" "kg = group_keyprefix p @ j" "kc = chord_keyprefix p @ l"
    using assms(2-6) by (auto simp: get_key_for_task_def get_key_for_group_def get_key_for_chord_def split: if_splits)
  have "\<not> starts_with (group_keyprefix p @ j) (task_keyprefix p)"
    by (simp add: p common_prefixes_def default_prefixes_def) (simp add: starts_with_def)
  then have "strip_prefix p kg = j" using k(2) by (simp add: strip_prefix_def)
  moreover have "kt \<noteq> kg \<and> kt \<noteq> kc \<and> kg \<noteq> kc"
    using prefixes_ok_common [of g'] unfolding k prefixes_ok_def p by blast
  ultimately show ?thesis using k(1) by (auto simp: strip_prefix_def get_key_for_task_def split: if_splits)
qed

theorem backend_keys_roundtrip_witness:
  "strip_prefix (add_global_keyprefix ''app'' default_prefixes) (''app_celery-task-meta-'' @ ''t1'') = ''t1''"
proof -
  let ?p = "add_global_keyprefix ''app'' default_prefixes"
  have k: "get_key_for_task ?p ''t1'' = Inr ''app_celery-task-meta-t1''" "get_key_for_group ?p ''g'' = Inr ''app_celery-taskset-meta-g''"
    "get_key_for_chord ?p ''g'' = Inr ''app_chord-unlock-g''" by code_simp+
  show ?thesis using backend_keys_roundtrip [OF refl _ _ k, of "''t1''"] by simp
qed

text \<open>
  C14: success is final. Once a task has the stored state SUCCESS, no sequence of calls by any
  client (late or duplicate results included) changes its stored result, until the task is
  forgotten.
\<close>

theorem success_result_final:
  assumes "prefix cf = add_global_keyprefix g default_prefixes" and "get_task_meta_for cf (kv b) t = Inr m" and "m_status m = SUCCESS"
    and "OForget t \<notin> set ps"
  shows "get_task_meta_for cf (kv (run_bops cf ps b)) t = Inr m"
proof -
  have ok: "prefixes_ok (prefix cf)" using global_keyprefix [of g] prefixes_ok_common assms(1) by metis
  have ne: "t \<noteq> []" using assms(2) by (auto simp: get_task_meta_for_def get_key_for_task_def)
  have g: "dict_get (kv b) (task_keyprefix (prefix cf) @ t) = Some (KMeta m)"
    using assms(2,3) ne by (auto simp: get_task_meta_for_def get_key_for_task_def split: option.splits kval.splits)
  have "dict_get (kv (run_bops cf ps b)) (task_keyprefix (prefix cf) @ t) = Some (KMeta m)"
    using g assms(4)
  proof (induction ps arbitrary: b)
    case (Cons p ps)
    then show ?case using run_bop_success [OF ok Cons.prems(1) assms(3) ne] by auto
  qed simp
  then show ?thesis using ne by (simp add: get_task_meta_for_def get_key_for_task_def)
qed

definition sample_config :: config where
  "sample_config = \<lparr>prefix = add_global_keyprefix [] default_prefixes, extended = False, app_now = 0\<rparr>"

definition sample_meta :: "string \<Rightarrow> meta" where
  "sample_meta st = pending_meta\<lparr>m_status := st, m_result := Some 42\<rparr>"

theorem success_result_final_witness:
  "get_task_meta_for sample_config (kv (run_bops sample_config [OStore ''t'' 7 FAILURE None None, OGet ''t'', ODeleteGroup ''g'']
     \<lparr>kv = [(''celery-task-meta-t'', KMeta (sample_meta SUCCESS))], bcache = []\<rparr>)) ''t'' = Inr (sample_meta SUCCESS)"
proof -
  have g: "get_task_meta_for sample_config (kv \<lparr>kv = [(''celery-task-meta-t'', KMeta (sample_meta SUCCESS))], bcache = []\<rparr>) ''t'' = Inr (sample_meta SUCCESS)"
    by code_simp
  have p: "prefix sample_config = add_global_keyprefix [] default_prefixes" by (simp add: sample_config_def)
  show ?thesis by (rule success_result_final [OF p g]) (simp_all add: sample_meta_def)
qed

text \<open>
  C26: the cache is transparent to single reads. After any sequence of stores, forgets and reads of
  single results, and of saves, reads and deletions of groups, on a backend that starts with an empty
  cache, reading a task's result through the cache gives exactly what the store holds. Task and
  group identifiers are apart, because they share the cache. The two calls that put a state other
  than SUCCESS into the cache, \<open>reload_task_result\<close> and \<open>get_many\<close>, are not among these calls: they do break it, as shown below.
\<close>

theorem cached_read_equals_store:
  assumes "prefix cf = add_global_keyprefix g default_prefixes" and "bcache b = []" and "\<forall>p \<in> set ps. bop_ok T p" and "t \<in> T"
  shows "res_bind (get_task_meta cf True t (run_bops cf ps b)) (\<lambda>(m, _). Inr m) = get_task_meta_for cf (kv (run_bops cf ps b)) t"
proof -
  have ok: "prefixes_ok (prefix cf)" using global_keyprefix [of g] prefixes_ok_common assms(1) by metis
  have "cache_ok cf T b" using assms(2) by (simp add: cache_ok_def)
  from run_bops_cache [OF ok this assms(3)] show ?thesis by (rule get_task_meta_cached) (rule assms(4))
qed

theorem cached_read_equals_store_witness:
  "res_bind (get_task_meta sample_config True ''t'' (run_bops sample_config [OGet ''t'', OStore ''t'' 7 SUCCESS None None, OGet ''t''] \<lparr>kv = [], bcache = []\<rparr>)) (\<lambda>(m, _). Inr m)
   = get_task_meta_for sample_config (kv (run_bops sample_config [OGet ''t'', OStore ''t'' 7 SUCCESS None None, OGet ''t''] \<lparr>kv = [], bcache = []\<rparr>)) ''t''"
proof -
  have p: "prefix sample_config = add_global_keyprefix [] default_prefixes" by (simp add: sample_config_def)
  show ?thesis by (rule cached_read_equals_store [OF p, of _ _ "{''t''}"]) simp_all
qed

text \<open>
  reloading pins an unfinished state. \<open>reload_task_result\<close> puts whatever it reads into the
  cache, also PENDING, and the cached entry is preferred from then on: a result that is stored
  later is not seen by \<open>get_state\<close>.
\<close>

theorem reload_pins_pending:
  assumes "t \<noteq> []" and "dict_get (kv b) (task_keyprefix (prefix cf) @ t) = None"
    and "reload_task_result cf t b = Inr b1" and "store_result cf t res SUCCESS None None b1 = Inr b2"
  shows "(\<exists>m. get_task_meta_for cf (kv b2) t = Inr m \<and> m_status m = SUCCESS) \<and> get_state cf t b2 = Inr (PENDING, b2)"
proof -
  have m: "get_task_meta_for cf (kv b) t = Inr pending_meta" using assms(1,2) by (simp add: get_task_meta_for_def get_key_for_task_def)
  then have b1: "b1 = b\<lparr>bcache := dict_set t (KMeta pending_meta) (bcache b)\<rparr>"
    using assms(3) by (simp add: reload_task_result_def get_task_meta_def)
  obtain nm where b2: "b2 = b1\<lparr>kv := dict_set (task_keyprefix (prefix cf) @ t) (KMeta nm) (kv b)\<rparr>" "m_status nm = SUCCESS"
    using assms(1,4) m by (auto simp: b1 store_result_def kv_store_result_def Let_def get_key_for_task_def get_result_meta_def)
  show ?thesis using assms(1) b2(2)
    by (simp add: b2(1) b1 get_task_meta_for_def get_key_for_task_def get_state_def get_task_meta_def dict_simps)
qed

theorem reload_pins_pending_witness:
  "\<exists>b1 b2. reload_task_result sample_config ''t'' \<lparr>kv = [], bcache = []\<rparr> = Inr b1
     \<and> store_result sample_config ''t'' 7 SUCCESS None None b1 = Inr b2 \<and> get_state sample_config ''t'' b2 = Inr (PENDING, b2)"
proof -
  have r: "reload_task_result sample_config ''t'' \<lparr>kv = [], bcache = []\<rparr> = Inr \<lparr>kv = [], bcache = [(''t'', KMeta pending_meta)]\<rparr>" by code_simp
  have "\<not> isl (store_result sample_config ''t'' 7 SUCCESS None None \<lparr>kv = [], bcache = [(''t'', KMeta pending_meta)]\<rparr>)" by code_simp
  then obtain b2 where s: "store_result sample_config ''t'' 7 SUCCESS None None \<lparr>kv = [], bcache = [(''t'', KMeta pending_meta)]\<rparr> = Inr b2"
    by (cases "store_result sample_config ''t'' 7 SUCCESS None None \<lparr>kv = [], bcache = [(''t'', KMeta pending_meta)]\<rparr>") auto
  show ?thesis using reload_pins_pending [OF _ _ r s] r s by auto
qed

text \<open>
  C39: the retry policy. With a finite retry limit every backend operation returns: it is called at
  most one time more than the limit, after every call but the last there was a failure that is
  safe to retry, every sleep is within the configured maximum, and the outcome is that of the
  last call (its exception, or the fallback error when the limit is used up).
\<close>

theorem retry_budget_respected:
  assumes "\<forall>n > 0. 0 \<le> rnd n \<and> rnd n < n" and "0 \<le> base_sleep_ms pol" and "0 \<le> max_sleep_ms pol" and "max_retries pol = Some mx"
  shows "\<exists>k out sl. ensure_retryable pol rnd op = Some (out, sl) \<and> k \<le> mx \<and> length sl = k
      \<and> (\<forall>ms \<in> set sl. 0 \<le> ms \<and> ms \<le> max_sleep_ms pol)
      \<and> (\<forall>j < k. \<exists>e. op j = Inl e \<and> always_retry pol \<and> safe_to_retry pol e)
      \<and> (case op k of Inr x \<Rightarrow> out = Inr x
          | Inl e \<Rightarrow> (k = mx \<or> \<not> (always_retry pol \<and> safe_to_retry pol e)) \<and> (out = Inl (Raised e) \<or> (k = mx \<and> out = Inl (FallbackError e))))"
  using retry_loop_spec [OF assms, of 0 mx "[]" op] unfolding ensure_retryable_def by auto

theorem retry_budget_respected_witness:
  "\<exists>k out sl. ensure_retryable \<lparr>always_retry = True, max_retries = Some 2, base_sleep_ms = 10, max_sleep_ms = 100, safe_to_retry = (\<lambda>_. True), has_fallback = True\<rparr>
     (\<lambda>n. n - 1) (\<lambda>k. if k < 5 then Inl KeyError else Inr (k::nat)) = Some (out, sl) \<and> k \<le> 2 \<and> length sl = k"
  using retry_budget_respected [of "\<lambda>n. n - 1" "\<lparr>always_retry = True, max_retries = Some 2, base_sleep_ms = 10, max_sleep_ms = 100, safe_to_retry = (\<lambda>_. True), has_fallback = True\<rparr>" 2
      "\<lambda>k. if k < 5 then Inl KeyError else Inr (k::nat)"] by fastforce

text \<open>
  waiting for one result meets its deadline. For a positive interval and any time-out the
  loop returns, has slept no longer than the time-out, gives up exactly at the time-out, and
  returns only results in a ready state.
\<close>

theorem wait_for_meets_deadline:
  assumes "0 < interval" and "0 \<le> t"
  shows "\<exists>r k e. wait_for cf kvs tid (Some t) interval ch = Some (r, k, e) \<and> e \<le> t \<and> (r = Inl TimeoutError \<longrightarrow> e = t)
    \<and> (\<forall>m. r = Inr m \<longrightarrow> m_status m \<in> READY_STATES)"
proof -
  obtain n where "t \<le> of_nat n * interval" using enough_naps [OF assms(1)] by blast
  then show ?thesis using wait_loop_deadline [OF assms, of 0 n cf kvs tid 0 ch] assms(2) unfolding wait_for_def by simp
qed

theorem wait_for_meets_deadline_witness:
  "\<exists>r k e. wait_for sample_config (\<lambda>_. []) ''t'' (Some 3) (1 / 2) [] = Some (r, k, e) \<and> e \<le> 3"
  using wait_for_meets_deadline [of "1 / 2" 3 sample_config "\<lambda>_. []" "''t''" "[]"] by auto

text \<open>
  waiting for many results. \<open>get_many\<close> over distinct non-empty identifiers with a time-out
  returns within it, yields every identifier at most once and only with a ready state; when it
  ends without an error (and no iteration limit is set) it has yielded every identifier.
\<close>

theorem get_many_yields_each_once:
  assumes "distinct ids" and "[] \<notin> set ids" and "0 < interval" and "0 \<le> t"
  shows "\<exists>r out e ch'. get_many cf kvs ch ids (Some t) interval None = Some (r, out, e, ch') \<and> e \<le> t
    \<and> distinct (map (fst \<circ> fst) out) \<and> (fst \<circ> fst) ` set out \<subseteq> set ids \<and> (\<forall>((i, m), _) \<in> set out. m_status m \<in> READY_STATES)
    \<and> (r = None \<longrightarrow> (fst \<circ> fst) ` set out = set ids)"
proof -
  let ?c = "cached_ready ch ids" and ?ids = "without ids (cached_ready ch ids)"
  let ?out = "map (\<lambda>y. (y, ch)) ?c"
  have ini: "yields_ok (set ids) ?ids (map fst ?out)"
    using assms(1) cached_ready_distinct [of ids ch] unfolding yields_ok_def by (auto simp: comp_def dest: cached_ready_mem)
  obtain n where "t \<le> of_nat n * interval" using enough_naps [OF assms(3)] by blast
  then obtain r out e ch' where loop: "get_many_loop cf kvs (Some t) interval None 0 0 ?ids ?out ch = Some (r, out, e, ch')" "e \<le> t"
    using get_many_loop_deadline [OF assms(3,4), of 0 n cf kvs None 0 ?ids ?out ch] assms(4) by auto
  then obtain rest where "yields_ok (set ids) rest (map fst out)" "r = None \<longrightarrow> rest = []"
    using get_many_loop_sound [OF loop(1)] ini by auto
  then have "distinct (map (fst \<circ> fst) out)" "(fst \<circ> fst) ` set out \<subseteq> set ids" "\<forall>((i, m), _) \<in> set out. m_status m \<in> READY_STATES"
    "r = None \<longrightarrow> (fst \<circ> fst) ` set out = set ids"
    by (auto simp: yields_ok_def image_image)
  then show ?thesis using loop assms(2) unfolding get_many_def Let_def by auto
qed

theorem get_many_yields_each_once_witness:
  "\<exists>r out e ch'. get_many sample_config (\<lambda>k. if k < 2 then [] else [(''celery-task-meta-a'', KMeta (sample_meta SUCCESS))]) [] [''a'', ''b''] (Some 5) 1 None = Some (r, out, e, ch')
     \<and> e \<le> 5 \<and> (fst \<circ> fst) ` set out \<subseteq> {''a'', ''b''}"
  using get_many_yields_each_once [of "[''a'', ''b'']" 1 5 sample_config "\<lambda>k. if k < 2 then [] else [(''celery-task-meta-a'', KMeta (sample_meta SUCCESS))]" "[]"]
  by auto

text \<open>
  gathering many results pins a failure. \<open>get_many\<close> caches whatever ready state it reads, while
  \<open>get_task_meta\<close> caches successes only; a task that had failed when its results were gathered
  and succeeds later is still reported as failed by this process.
\<close>

theorem get_many_pins_failure:
  assumes "t \<noteq> []" and "dict_get (kv b) (task_keyprefix (prefix cf) @ t) = Some (KMeta m)" and "m_status m = FAILURE"
    and "dict_get (bcache b) t = None"
    and "get_many cf (\<lambda>_. kv b) (bcache b) [t] timeout interval mi = Some (r, out, e, ch)"
    and "store_result cf t res SUCCESS None None (b\<lparr>bcache := ch\<rparr>) = Inr b2"
  shows "(\<exists>m2. get_task_meta_for cf (kv b2) t = Inr m2 \<and> m_status m2 = SUCCESS) \<and> get_state cf t b2 = Inr (FAILURE, b2)"
proof -
  have f: "FAILURE \<in> READY_STATES" "FAILURE \<noteq> SUCCESS" by (simp_all add: READY_STATES_def state_names)
  have "get_many cf (\<lambda>_. kv b) (bcache b) [t] timeout interval mi
      = Some (None, [((t, m), dict_set t (KMeta m) (bcache b))], 0, dict_set t (KMeta m) (bcache b))"
    using assms(1-4) f by (subst get_many_def, subst get_many_loop.simps) (simp add: cache_update_def Let_def)
  then have ch: "dict_get ch t = Some (KMeta m)" using assms(5) by (simp add: dict_simps)
  obtain nm where b2: "b2 = b\<lparr>bcache := ch, kv := dict_set (task_keyprefix (prefix cf) @ t) (KMeta nm) (kv b)\<rparr>" "m_status nm = SUCCESS"
    using assms(1-3,6) f
    by (auto simp: store_result_def kv_store_result_def Let_def get_key_for_task_def get_result_meta_def get_task_meta_for_def)
  show ?thesis using assms(1,3) b2(2) ch
    by (simp add: b2(1) get_task_meta_for_def get_key_for_task_def get_state_def get_task_meta_def dict_simps)
qed

theorem get_many_pins_failure_witness:
  "\<exists>b2. store_result sample_config ''t'' 7 SUCCESS None None
      \<lparr>kv = [(''celery-task-meta-t'', KMeta (sample_meta FAILURE))], bcache = [(''t'', KMeta (sample_meta FAILURE))]\<rparr> = Inr b2
     \<and> get_state sample_config ''t'' b2 = Inr (FAILURE, b2)"
proof -
  let ?b = "\<lparr>kv = [(''celery-task-meta-t'', KMeta (sample_meta FAILURE))], bcache = []\<rparr>"
  let ?ch = "[(''t'', KMeta (sample_meta FAILURE))]"
  have f: "FAILURE \<in> READY_STATES" by (simp add: READY_STATES_def)
  have g: "get_many sample_config (\<lambda>_. kv ?b) (bcache ?b) [''t''] None 1 None = Some (None, [((''t'', sample_meta FAILURE), ?ch)], 0, ?ch)"
    using f by (subst get_many_def, subst get_many_loop.simps)
      (simp add: Let_def cache_update_def sample_config_def add_global_keyprefix_def default_prefixes_def sample_meta_def)
  have "\<not> isl (store_result sample_config ''t'' 7 SUCCESS None None (?b\<lparr>bcache := ?ch\<rparr>))" by code_simp
  then obtain b2 where s: "store_result sample_config ''t'' 7 SUCCESS None None (?b\<lparr>bcache := ?ch\<rparr>) = Inr b2"
    by (cases "store_result sample_config ''t'' 7 SUCCESS None None (?b\<lparr>bcache := ?ch\<rparr>)") auto
  have k: "dict_get (kv ?b) (task_keyprefix (prefix sample_config) @ ''t'') = Some (KMeta (sample_meta FAILURE))" by code_simp
  have "get_state sample_config ''t'' b2 = Inr (FAILURE, b2)"
    using get_many_pins_failure [OF _ k _ _ g s] by (simp add: sample_meta_def)
  with s show ?thesis by simp
qed

end
