(* ===== verification/Chord.thy ===== *)
theory Chord
  imports Backend
begin

text \<open>
  Completion of tasks in the result backend: \<open>mark_as_done\<close>, \<open>mark_as_failure\<close>, \<open>mark_as_revoked\<close> and
  \<open>mark_as_retry\<close> of \<open>celery.backends.base\<close>, the chord counter \<open>on_chord_part_return\<close> and the ordered
  gathering of results, \<open>ResultSet.join_native\<close> of \<open>celery.result\<close>.

  Several workers share one store, and each has its own cache. What the canvas does with a chord
  callback (applying it, or failing it) and the call of error callbacks is recorded as a log of
  events; whether the delivery of a callback succeeds is a parameter. The store's \<open>incr\<close> adds one to a counter that
  starts at zero, in one step.
\<close>

section \<open>Gathering results in order\<close>

datatype join_error = JoinTimeout | TaskFailed meta | JoinRaised exn

fun order_index :: "nat \<Rightarrow> string list \<Rightarrow> (string, nat) dict \<Rightarrow> (string, nat) dict" where
  "order_index i [] d = d"
| "order_index i (t # ts) d = order_index (Suc i) ts (dict_set t i d)"

fun place :: "bool \<Rightarrow> (string, nat) dict \<Rightarrow> (string \<times> meta) list \<Rightarrow> nat option list \<Rightarrow> join_error + nat option list" where
  "place propagate idx [] acc = Inr acc"
| "place propagate idx ((t, m) # ys) acc =
     (if propagate \<and> m_status m \<in> PROPAGATE_STATES then Inl (TaskFailed m)
      else case dict_get idx t of None \<Rightarrow> Inl (JoinRaised KeyError) | Some i \<Rightarrow> place propagate idx ys (acc[i := m_result m]))"

text \<open>The cache when the reader stops: at the first result that \<open>place\<close> raises for, or at the end.\<close>

fun cache_read :: "bool \<Rightarrow> (string, nat) dict \<Rightarrow> yielded \<Rightarrow> cache \<Rightarrow> cache" where
  "cache_read propagate idx [] ch = ch"
| "cache_read propagate idx (((t, m), c) # ys) ch =
     (if propagate \<and> m_status m \<in> PROPAGATE_STATES \<or> dict_get idx t = None then c else cache_read propagate idx ys ch)"

definition join_native :: "config \<Rightarrow> (nat \<Rightarrow> store) \<Rightarrow> cache \<Rightarrow> rat option \<Rightarrow> bool \<Rightarrow> string list
    \<Rightarrow> ((join_error + nat option list) \<times> cache) option" where
  "join_native cf kvs ch timeout propagate ids =
     (case get_many cf kvs ch (remdups ids) timeout (1 / 2) None of
        None \<Rightarrow> None
      | Some (err, ys, _, ch') \<Rightarrow>
          Some (case place propagate (order_index 0 ids []) (map fst ys) (map (\<lambda>_. None) ids) of
             Inl e \<Rightarrow> Inl e
           | Inr acc \<Rightarrow> (case err of None \<Rightarrow> Inr acc | Some TimeoutError \<Rightarrow> Inl JoinTimeout | Some (WaitRaised e) \<Rightarrow> Inl (JoinRaised e)),
           cache_read propagate (order_index 0 ids []) ys ch'))"

section \<open>Requests, chains and error callbacks\<close>

record chord =
  ch_size :: "nat option"
  ch_callback :: string

datatype celem = CElem (ce_id: "string option") (ce_group: "string option") (ce_chord: "chord option") (ce_is_chord: bool) (ce_body: "celem option")

datatype errback = NewStyle string | OldStyle string

record request =
  rq_id :: string
  rq_info :: req_info
  rq_chord :: "chord option"
  rq_chain :: "celem list"
  rq_errbacks :: "errback list"

datatype event =
    CallbackSent string "nat option list"
  | ChordErrored string
  | CounterOverrun string
  | ErrbackCalled string
  | ErrbackGroup "string list"

record cluster =
  ckv :: store
  caches :: "nat \<Rightarrow> cache"
  clog :: "event list"

abbreviation view :: "nat \<Rightarrow> cluster \<Rightarrow> backend" where
  "view w c \<equiv> \<lparr>kv = ckv c, bcache = caches c w\<rparr>"

definition unview :: "nat \<Rightarrow> backend \<Rightarrow> cluster \<Rightarrow> cluster" where
  "unview w b c = c\<lparr>ckv := kv b, caches := (caches c)(w := bcache b)\<rparr>"

record env =
  implements_incr :: bool
  deliver :: "string \<Rightarrow> nat option list \<Rightarrow> bool"
  join_timeout :: rat

definition incr :: "string \<Rightarrow> store \<Rightarrow> (nat \<times> store) result" where
  "incr key s = (case dict_get s key of
     None \<Rightarrow> Inr (1, dict_set key (KCount 1) s)
   | Some (KCount n) \<Rightarrow> Inr (Suc n, dict_set key (KCount (Suc n)) s)
   | Some _ \<Rightarrow> Inl TypeError)"

section \<open>The chord counter\<close>

definition log_event :: "event \<Rightarrow> cluster \<Rightarrow> cluster" where
  "log_event e c = c\<lparr>clog := clog c @ [e]\<rparr>"

definition finish_chord :: "env \<Rightarrow> config \<Rightarrow> nat \<Rightarrow> string \<Rightarrow> string \<Rightarrow> chord \<Rightarrow> string list \<Rightarrow> cluster \<Rightarrow> cluster result" where
  "finish_chord env cf w gid key ch deps c =
     (let (res, c0) = (case join_native cf (\<lambda>_. ckv c) (caches c w) (Some (join_timeout env)) True deps of
                  Some (r, ch') \<Rightarrow> (Some r, c\<lparr>caches := (caches c)(w := ch')\<rparr>) | None \<Rightarrow> (None, c));
          c1 = (case res of
                  Some (Inr ret) \<Rightarrow>
                    if deliver env (ch_callback ch) ret then log_event (CallbackSent (ch_callback ch) ret) c0
                    else log_event (ChordErrored (ch_callback ch)) c0
                | _ \<Rightarrow> log_event (ChordErrored (ch_callback ch)) c0) in
      res_bind (delete_group cf gid (view w c1)) (\<lambda>b. Inr (unview w (b\<lparr>kv := dict_del key (kv b)\<rparr>) c1)))"

definition on_chord_part_return :: "env \<Rightarrow> config \<Rightarrow> nat \<Rightarrow> string option \<Rightarrow> chord \<Rightarrow> cluster \<Rightarrow> cluster result" where
  "on_chord_part_return env cf w grp ch c =
     (if \<not> implements_incr env then Inr c
      else case grp of
        None \<Rightarrow> Inr c
      | Some gid \<Rightarrow>
          if gid = [] then Inr c
          else res_bind (get_key_for_chord (prefix cf) gid) (\<lambda>key.
            case get_group_meta cf True gid (view w c) of
              Inl e \<Rightarrow> Inr (log_event (ChordErrored (ch_callback ch)) c)
            | Inr (None, b) \<Rightarrow> Inr (log_event (ChordErrored (ch_callback ch)) (unview w b c))
            | Inr (Some deps, b) \<Rightarrow>
                let c0 = unview w b c in
                res_bind (incr key (ckv c0)) (\<lambda>(val, s).
                  let c1 = c0\<lparr>ckv := s\<rparr>; size = (case ch_size ch of None \<Rightarrow> length deps | Some n \<Rightarrow> n) in
                  if val > size then Inr (log_event (CounterOverrun gid) c1)
                  else if val = size then finish_chord env cf w gid key ch deps c1
                  else Inr c1)))"

definition chord_part :: "env \<Rightarrow> config \<Rightarrow> nat \<Rightarrow> string option \<Rightarrow> chord option \<Rightarrow> cluster \<Rightarrow> cluster result" where
  "chord_part env cf w grp ch c = (case ch of None \<Rightarrow> Inr c | Some x \<Rightarrow> on_chord_part_return env cf w grp x c)"

section \<open>Marking tasks\<close>

definition store_at :: "config \<Rightarrow> nat \<Rightarrow> string \<Rightarrow> nat \<Rightarrow> string \<Rightarrow> nat option \<Rightarrow> req_info option \<Rightarrow> cluster \<Rightarrow> cluster result" where
  "store_at cf w tid res st tb info c = res_bind (store_result cf tid res st tb info (view w c)) (\<lambda>b. Inr (unview w b c))"

definition mark_as_started :: "config \<Rightarrow> nat \<Rightarrow> string \<Rightarrow> nat \<Rightarrow> cluster \<Rightarrow> cluster result" where
  "mark_as_started cf w tid res c = store_at cf w tid res STARTED None None c"

definition mark_as_done :: "env \<Rightarrow> config \<Rightarrow> nat \<Rightarrow> string \<Rightarrow> nat \<Rightarrow> request option \<Rightarrow> bool \<Rightarrow> cluster \<Rightarrow> cluster result" where
  "mark_as_done env cf w tid res rq store c =
     res_bind (if store \<and> \<not> (case rq of None \<Rightarrow> False | Some r \<Rightarrow> ri_ignore_result (rq_info r))
               then store_at cf w tid res SUCCESS None (map_option rq_info rq) c else Inr c) (\<lambda>c1.
     case rq of None \<Rightarrow> Inr c1 | Some r \<Rightarrow> chord_part env cf w (ri_group (rq_info r)) (rq_chord r) c1)"

definition elem_info :: "celem \<Rightarrow> req_info" where
  "elem_info e = \<lparr>ri_group = ce_group e, ri_parent_id = None, ri_children = [], ri_ignore_result = False, ri_name = None,
     ri_hostname = None, ri_retries = None, ri_queue = None\<rparr>"

function fail_chain :: "env \<Rightarrow> config \<Rightarrow> nat \<Rightarrow> bool \<Rightarrow> string \<Rightarrow> nat \<Rightarrow> nat option \<Rightarrow> celem list \<Rightarrow> cluster \<Rightarrow> cluster result" where
  "fail_chain env cf w store st ex tb [] c = Inr c"
| "fail_chain env cf w store st ex tb (e # es) c =
     res_bind (case ce_id e of
         Some i \<Rightarrow> if store \<and> st \<in> PROPAGATE_STATES then store_at cf w i ex st tb (Some (elem_info e)) c else Inr c
       | None \<Rightarrow> Inr c) (\<lambda>c1.
     res_bind (chord_part env cf w (ce_group e) (ce_chord e) c1) (\<lambda>c2.
       fail_chain env cf w store st ex tb (case (ce_is_chord e, ce_body e) of (True, Some b) \<Rightarrow> es @ [b] | _ \<Rightarrow> es) c2))"
  by pat_completeness auto

termination
proof (relation "measure (\<lambda>(env, cf, w, store, st, ex, tb, es, c). sum_list (map size es))")
  fix env cf w store st ex tb and e :: celem and es c c1 c2
  show "((env, cf, w, store, st, ex, tb, case (ce_is_chord e, ce_body e) of (True, Some b) \<Rightarrow> es @ [b] | _ \<Rightarrow> es, c2), env, cf, w, store, st, ex, tb, e # es, c)
     \<in> measure (\<lambda>(env, cf, w, store, st, ex, tb, es, c). sum_list (map size es))"
    by (cases e) (auto split: bool.split option.split)
qed simp

fun call_task_errbacks :: "errback list \<Rightarrow> string list \<Rightarrow> cluster \<Rightarrow> cluster" where
  "call_task_errbacks [] old c = (if old = [] then c else log_event (ErrbackGroup old) c)"
| "call_task_errbacks (NewStyle f # es) old c = call_task_errbacks es old (log_event (ErrbackCalled f) c)"
| "call_task_errbacks (OldStyle f # es) old c = call_task_errbacks es (old @ [f]) c"

definition mark_as_failure :: "env \<Rightarrow> config \<Rightarrow> nat \<Rightarrow> string \<Rightarrow> nat \<Rightarrow> nat option \<Rightarrow> request option \<Rightarrow> bool \<Rightarrow> bool \<Rightarrow> string \<Rightarrow> cluster \<Rightarrow> cluster result" where
  "mark_as_failure env cf w tid ex tb rq store call_errbacks st c =
     res_bind (if store then store_at cf w tid ex st tb (map_option rq_info rq) c else Inr c) (\<lambda>c1.
     case rq of
       None \<Rightarrow> Inr c1
     | Some r \<Rightarrow>
         res_bind (chord_part env cf w (ri_group (rq_info r)) (rq_chord r) c1) (\<lambda>c2.
         res_bind (fail_chain env cf w store st ex tb (rq_chain r) c2) (\<lambda>c3.
           Inr (if call_errbacks \<and> rq_errbacks r \<noteq> [] then call_task_errbacks (rq_errbacks r) [] c3 else c3))))"

definition mark_as_revoked :: "env \<Rightarrow> config \<Rightarrow> nat \<Rightarrow> string \<Rightarrow> nat \<Rightarrow> request option \<Rightarrow> bool \<Rightarrow> string \<Rightarrow> cluster \<Rightarrow> cluster result" where
  "mark_as_revoked env cf w tid ex rq store st c =
     res_bind (if store then store_at cf w tid ex st None (map_option rq_info rq) c else Inr c) (\<lambda>c1.
     case rq of None \<Rightarrow> Inr c1 | Some r \<Rightarrow> chord_part env cf w (ri_group (rq_info r)) (rq_chord r) c1)"

definition mark_as_retry :: "config \<Rightarrow> nat \<Rightarrow> string \<Rightarrow> nat \<Rightarrow> nat option \<Rightarrow> request option \<Rightarrow> cluster \<Rightarrow> cluster result" where
  "mark_as_retry cf w tid ex tb rq c = store_at cf w tid ex RETRY tb (map_option rq_info rq) c"

section \<open>Results come back in the order of the group\<close>

lemma order_index_other: "t \<notin> set ts \<Longrightarrow> dict_get (order_index i ts d) t = dict_get d t"
  by (induction i ts d rule: order_index.induct) (auto simp: dict_simps)

lemma order_index_nth: "distinct ts \<Longrightarrow> k < length ts \<Longrightarrow> dict_get (order_index i ts d) (ts ! k) = Some (i + k)"
  by (induction i ts d arbitrary: k rule: order_index.induct) (auto simp: nth_Cons order_index_other dict_simps split: nat.split)

lemma place_spec:
  assumes "distinct ts" and "\<forall>k < length ts. dict_get idx (ts ! k) = Some k"
  shows "\<forall>(t, m) \<in> set ys. t \<in> set ts \<and> m_status m \<notin> PROPAGATE_STATES \<Longrightarrow> distinct (map fst ys) \<Longrightarrow> length acc = length ts \<Longrightarrow>
    \<exists>acc'. place p idx ys acc = Inr acc' \<and> length acc' = length ts
      \<and> (\<forall>k < length ts. acc' ! k = (case map_of ys (ts ! k) of Some m \<Rightarrow> m_result m | None \<Rightarrow> acc ! k))"
proof (induction ys arbitrary: acc)
  case (Cons y ys)
  obtain t m where y: "y = (t, m)" by (cases y)
  then obtain i where i: "i < length ts" "ts ! i = t" using Cons.prems(1) by (auto simp: in_set_conv_nth)
  have ix: "dict_get idx t = Some i" using assms(2) i by auto
  have fresh: "map_of ys t = None" using Cons.prems(2) y by (simp add: map_of_eq_None_iff)
  obtain acc' where acc': "place p idx ys (acc[i := m_result m]) = Inr acc'" "length acc' = length ts"
      "\<forall>k < length ts. acc' ! k = (case map_of ys (ts ! k) of Some m \<Rightarrow> m_result m | None \<Rightarrow> acc[i := m_result m] ! k)"
    using Cons.IH [of "acc[i := m_result m]"] Cons.prems by auto
  have "acc' ! k = (case map_of (y # ys) (ts ! k) of Some m \<Rightarrow> m_result m | None \<Rightarrow> acc ! k)" if "k < length ts" for k
    using acc'(3) that i fresh y assms(1) Cons.prems(3) by (cases "k = i") (auto simp: nth_eq_iff_index_eq split: option.split)
  then show ?case using acc'(1,2) y ix Cons.prems(1) by auto
qed simp

lemma place_all:
  assumes "distinct ts" and "distinct (map fst ys)" and "fst ` set ys = set ts" and "\<forall>(t, m) \<in> set ys. m_status m \<notin> PROPAGATE_STATES"
  shows "place p (order_index 0 ts []) ys (map (\<lambda>_. None) ts) = Inr (map (\<lambda>t. m_result (the (map_of ys t))) ts)"
proof -
  have "\<forall>k < length ts. dict_get (order_index 0 ts []) (ts ! k) = Some k" using order_index_nth [OF assms(1), of _ 0 "[]"] by simp
  moreover have "\<forall>(t, m) \<in> set ys. t \<in> set ts \<and> m_status m \<notin> PROPAGATE_STATES" using assms(3,4) by force
  ultimately obtain acc' where a: "place p (order_index 0 ts []) ys (map (\<lambda>_. None) ts) = Inr acc'" "length acc' = length ts"
      "\<forall>k < length ts. acc' ! k = (case map_of ys (ts ! k) of Some m \<Rightarrow> m_result m | None \<Rightarrow> map (\<lambda>_. None) ts ! k)"
    using place_spec [OF assms(1), of "order_index 0 ts []" ys "map (\<lambda>_. None) ts" p] assms(2) by auto
  have "\<exists>m. map_of ys (ts ! k) = Some m" if "k < length ts" for k
    using assms(3) nth_mem [OF that] by (metis map_of_eq_None_iff not_None_eq)
  then have "acc' = map (\<lambda>t. m_result (the (map_of ys t))) ts"
    using a(2,3) by (intro nth_equalityI) fastforce+
  then show ?thesis using a(1) by simp
qed

lemma filter_ready_all:
  "\<forall>t \<in> set ids. \<exists>m. dict_get s (task_keyprefix (prefix cf) @ t) = Some (KMeta m) \<and> m_status m \<in> READY_STATES \<Longrightarrow>
   fst ` set (filter_ready cf s ids) = set ids
   \<and> (\<forall>(t, m) \<in> set (filter_ready cf s ids). dict_get s (task_keyprefix (prefix cf) @ t) = Some (KMeta m))"
  by (induction cf s ids rule: filter_ready.induct) (auto dest: filter_ready_mem)

lemma cached_ready_none: "\<forall>t \<in> set ids. dict_get ch t = None \<Longrightarrow> cached_ready ch ids = []"
  by (induction ch ids rule: cached_ready.induct) auto

lemma SUCCESS_ready: "SUCCESS \<in> READY_STATES" "SUCCESS \<notin> PROPAGATE_STATES"
  by (auto simp: READY_STATES_def PROPAGATE_STATES_def SUCCESS_def FAILURE_def REVOKED_def)

lemma join_native_all:
  assumes "distinct ts" and "[] \<notin> set ts" and "\<forall>t \<in> set ts. dict_get ch t = None"
    and "\<forall>t \<in> set ts. \<exists>m. dict_get s (task_keyprefix (prefix cf) @ t) = Some (KMeta m) \<and> m_status m = SUCCESS \<and> m_result m = Some (f t)"
  shows "\<exists>ch'. join_native cf (\<lambda>_. s) ch timeout p ts = Some (Inr (map (\<lambda>t. Some (f t)) ts), ch')"
proof -
  let ?ys = "filter_ready cf s ts"
  have r: "fst ` set ?ys = set ts" "\<forall>(t, m) \<in> set ?ys. dict_get s (task_keyprefix (prefix cf) @ t) = Some (KMeta m)"
    using filter_ready_all [of ts s cf] assms(4) SUCCESS_ready by force+
  have st: "m_status m = SUCCESS \<and> m_result m = Some (f t)" if "(t, m) \<in> set ?ys" for t m
    using r that assms(4) by (force simp: image_iff)
  let ?ch = "cache_update ch ?ys"
  have "get_many cf (\<lambda>_. s) ch ts timeout (1 / 2) None = Some (None, if ts = [] then [] else map (\<lambda>y. (y, ?ch)) ?ys, 0, if ts = [] then ch else ?ch)"
    using assms(2) cached_ready_none [OF assms(3)] r(1) by (subst get_many_def, subst get_many_loop.simps) (auto simp: Let_def)
  moreover have "place p (order_index 0 ts []) ?ys (map (\<lambda>_. None) ts) = Inr (map (\<lambda>t. m_result (the (map_of ?ys t))) ts)"
    using place_all [OF assms(1) filter_ready_distinct [OF assms(1)] r(1)] st SUCCESS_ready by fastforce
  moreover have "map (\<lambda>t. m_result (the (map_of ?ys t))) ts = map (\<lambda>t. Some (f t)) ts"
  proof (rule map_cong)
    fix t assume "t \<in> set ts"
    then obtain m where "map_of ?ys t = Some m" using r(1) by (metis map_of_eq_None_iff not_None_eq)
    then show "m_result (the (map_of ?ys t)) = Some (f t)" using st map_of_SomeD by fastforce
  qed simp
  ultimately show ?thesis using assms(1) by (auto simp: join_native_def distinct_remdups_id comp_def)
qed

section \<open>A chord in progress\<close>

text \<open>
  The header tasks \<open>ts\<close> of group \<open>gid\<close>, of which \<open>dn\<close> have reported with their results: the group is
  saved, the counter counts the reports, the reported results are stored and the others are not.
\<close>

definition chord_at :: "config \<Rightarrow> string \<Rightarrow> string list \<Rightarrow> (string \<times> nat) list \<Rightarrow> cluster \<Rightarrow> bool" where
  "chord_at cf gid ts dn c \<longleftrightarrow>
     dict_get (ckv c) (group_keyprefix (prefix cf) @ gid) = Some (KGroup ts)
     \<and> dict_get (ckv c) (chord_keyprefix (prefix cf) @ gid) = (if dn = [] then None else Some (KCount (length dn)))
     \<and> (\<forall>(t, r) \<in> set dn. \<exists>m. dict_get (ckv c) (task_keyprefix (prefix cf) @ t) = Some (KMeta m) \<and> m_status m = SUCCESS \<and> m_result m = Some r)
     \<and> (\<forall>t \<in> set ts - fst ` set dn. dict_get (ckv c) (task_keyprefix (prefix cf) @ t) = None)
     \<and> (\<forall>w. \<forall>t \<in> set ts. dict_get (caches c w) t = None)
     \<and> (\<forall>w. dict_get (caches c w) gid \<in> {None, Some (KGroup ts)})"

definition header_ok :: "config \<Rightarrow> string \<Rightarrow> string list \<Rightarrow> bool" where
  "header_ok cf gid ts \<longleftrightarrow> prefixes_ok (prefix cf) \<and> gid \<noteq> [] \<and> gid \<notin> set ts \<and> distinct ts \<and> [] \<notin> set ts"

definition member_request :: "string \<Rightarrow> chord \<Rightarrow> request \<Rightarrow> bool" where
  "member_request gid ch rq \<longleftrightarrow> ri_group (rq_info rq) = Some gid \<and> rq_chord rq = Some ch \<and> \<not> ri_ignore_result (rq_info rq)"

lemma store_member:
  assumes "header_ok cf gid ts" and "chord_at cf gid ts dn c" and "t \<in> set ts" and "t \<notin> fst ` set dn"
  shows "\<exists>m. m_status m = SUCCESS \<and> m_result m = Some r
     \<and> store_at cf w t r SUCCESS None info c = Inr (c\<lparr>ckv := dict_set (task_keyprefix (prefix cf) @ t) (KMeta m) (ckv c)\<rparr>)"
proof -
  have ne: "t \<noteq> []" using assms(1,3) by (auto simp: header_ok_def)
  have none: "dict_get (ckv c) (task_keyprefix (prefix cf) @ t) = None" using assms(2-4) by (auto simp: chord_at_def)
  let ?m = "(get_result_meta cf r SUCCESS None info)\<lparr>m_task_id := Some t\<rparr>"
  have "store_at cf w t r SUCCESS None info c = Inr (c\<lparr>ckv := dict_set (task_keyprefix (prefix cf) @ t) (KMeta ?m) (ckv c)\<rparr>)"
    using ne none by (simp add: store_at_def store_result_def kv_store_result_def get_task_meta_for_def get_key_for_task_def Let_def unview_def)
  then show ?thesis by (intro exI [of _ ?m]) (simp add: get_result_meta_def)
qed

text \<open>The state in which a report finds the cluster after its result is stored and the group is restored.\<close>

lemma restore_member:
  assumes "header_ok cf gid ts" and "dict_get (ckv c) (group_keyprefix (prefix cf) @ gid) = Some (KGroup ts)"
    and "dict_get (caches c w) gid \<in> {None, Some (KGroup ts)}"
  shows "\<exists>ch'. get_group_meta cf True gid (view w c) = Inr (Some ts, \<lparr>kv = ckv c, bcache = ch'\<rparr>)
     \<and> (ch' = caches c w \<or> ch' = dict_set gid (KGroup ts) (caches c w))"
  using assms by (auto simp: get_group_meta_def kv_restore_group_def get_key_for_group_def header_ok_def)

lemma report_member:
  assumes "header_ok cf gid ts" and "chord_at cf gid ts dn c" and "t \<in> set ts" and "t \<notin> fst ` set dn"
    and "implements_incr env" and "member_request gid ch rq" and "ch_size ch \<in> {None, Some (length ts)}"
  shows "\<exists>c1. chord_at cf gid ts (dn @ [(t, r)]) c1 \<and> clog c1 = clog c \<and>
     mark_as_done env cf w t r (Some rq) True c =
       (if length ts < Suc (length dn) then Inr (log_event (CounterOverrun gid) c1)
        else if Suc (length dn) = length ts then finish_chord env cf w gid (chord_keyprefix (prefix cf) @ gid) ch ts c1
        else Inr c1)"
proof -
  obtain m where m: "m_status m = SUCCESS" "m_result m = Some r"
    "store_at cf w t r SUCCESS None (Some (rq_info rq)) c = Inr (c\<lparr>ckv := dict_set (task_keyprefix (prefix cf) @ t) (KMeta m) (ckv c)\<rparr>)"
    using store_member [OF assms(1-4)] by blast
  let ?c = "c\<lparr>ckv := dict_set (task_keyprefix (prefix cf) @ t) (KMeta m) (ckv c)\<rparr>"
  let ?ck = "chord_keyprefix (prefix cf) @ gid" and ?gk = "group_keyprefix (prefix cf) @ gid"
  have sep: "task_keyprefix (prefix cf) @ u \<noteq> ?ck" "task_keyprefix (prefix cf) @ u \<noteq> ?gk" "?gk \<noteq> ?ck" for u
    using assms(1) by (auto simp: header_ok_def prefixes_ok_def)
  have g: "dict_get (ckv ?c) ?gk = Some (KGroup ts)" using assms(2) sep(2) [of t, symmetric] by (simp add: chord_at_def dict_simps)
  have wc: "dict_get (caches ?c w) gid \<in> {None, Some (KGroup ts)}" using assms(2) by (auto simp: chord_at_def)
  obtain ch' where ch': "get_group_meta cf True gid (view w ?c) = Inr (Some ts, \<lparr>kv = ckv ?c, bcache = ch'\<rparr>)"
      "ch' = caches c w \<or> ch' = dict_set gid (KGroup ts) (caches c w)"
    using restore_member [OF assms(1) g wc] by auto
  let ?s = "dict_set ?ck (KCount (Suc (length dn))) (ckv ?c)"
  have inc: "incr ?ck (ckv ?c) = Inr (Suc (length dn), ?s)"
    using assms(2) sep(1) [of t, symmetric] by (auto simp: incr_def chord_at_def dict_simps)
  let ?c1 = "c\<lparr>caches := (caches c)(w := ch'), ckv := ?s\<rparr>"
  have kv1: "dict_get ?s k = (if k = ?ck then Some (KCount (Suc (length dn))) else if k = task_keyprefix (prefix cf) @ t then Some (KMeta m) else dict_get (ckv c) k)" for k
    by (simp add: dict_simps)
  have tk: "dict_get ?s (task_keyprefix (prefix cf) @ u) = (if u = t then Some (KMeta m) else dict_get (ckv c) (task_keyprefix (prefix cf) @ u))" for u
    using sep(1) [of u] unfolding kv1 by simp
  have gk: "dict_get ?s ?gk = Some (KGroup ts)" using assms(2) sep(2) [of t, symmetric] sep(3) unfolding kv1 by (simp add: chord_at_def)
  have ca: "dict_get (((caches c)(w := ch')) w') u = (if w' = w \<and> u = gid then dict_get ch' gid else dict_get (caches c w') u)" for w' u
    using ch'(2) by (auto simp: dict_simps)
  have cg: "dict_get ch' gid \<in> {None, Some (KGroup ts)}" using ch'(2) wc by (auto simp: dict_simps)
  have "chord_at cf gid ts (dn @ [(t, r)]) ?c1"
    unfolding chord_at_def
  proof (intro conjI)
    show "\<forall>(u, x) \<in> set (dn @ [(t, r)]). \<exists>m. dict_get (ckv ?c1) (task_keyprefix (prefix cf) @ u) = Some (KMeta m) \<and> m_status m = SUCCESS \<and> m_result m = Some x"
    proof (intro ballI, clarify)
      fix u x
      assume ux: "(u, x) \<in> set (dn @ [(t, r)])"
      show "\<exists>m. dict_get (ckv ?c1) (task_keyprefix (prefix cf) @ u) = Some (KMeta m) \<and> m_status m = SUCCESS \<and> m_result m = Some x"
      proof (cases "(u, x) \<in> set dn")
        case True
        then have "u \<noteq> t" using assms(4) by force
        moreover obtain m' where "dict_get (ckv c) (task_keyprefix (prefix cf) @ u) = Some (KMeta m')" "m_status m' = SUCCESS" "m_result m' = Some x"
          using assms(2) True unfolding chord_at_def by blast
        ultimately show ?thesis using tk [of u] by simp
      next
        case False
        then show ?thesis using ux m(1,2) tk [of t] by simp
      qed
    qed
    show "\<forall>u \<in> set ts - fst ` set (dn @ [(t, r)]). dict_get (ckv ?c1) (task_keyprefix (prefix cf) @ u) = None"
      using assms(2) tk unfolding chord_at_def by simp
    show "\<forall>w'. \<forall>u \<in> set ts. dict_get (caches ?c1 w') u = None" using assms(1,2) ca by (auto simp: chord_at_def header_ok_def)
    show "\<forall>w'. dict_get (caches ?c1 w') gid \<in> {None, Some (KGroup ts)}" using assms(2) ca cg by (auto simp: chord_at_def)
  qed (use gk kv1 [of ?ck] in simp_all)
  moreover have "mark_as_done env cf w t r (Some rq) True c =
       (if length ts < Suc (length dn) then Inr (log_event (CounterOverrun gid) ?c1)
        else if Suc (length dn) = length ts then finish_chord env cf w gid ?ck ch ts ?c1 else Inr ?c1)"
    using assms(1,5-7) m(3) ch'(1) inc
    by (auto simp: mark_as_done_def member_request_def chord_part_def on_chord_part_return_def header_ok_def get_key_for_chord_def unview_def Let_def)
  ultimately show ?thesis by (intro exI [of _ ?c1]) simp
qed

fun run_reports :: "env \<Rightarrow> config \<Rightarrow> (string \<Rightarrow> request) \<Rightarrow> (nat \<times> string \<times> nat) list \<Rightarrow> cluster \<Rightarrow> cluster result" where
  "run_reports env cf mk [] c = Inr c"
| "run_reports env cf mk ((w, t, r) # reps) c =
     res_bind (mark_as_done env cf w t r (Some (mk t)) True c) (run_reports env cf mk reps)"

lemma run_reports_append:
  "run_reports env cf mk (xs @ ys) c = res_bind (run_reports env cf mk xs c) (run_reports env cf mk ys)"
proof (induction env cf mk xs c rule: run_reports.induct)
  case (2 env cf mk w t r reps c)
  then show ?case by (cases "mark_as_done env cf w t r (Some (mk t)) True c") auto
qed simp

lemma reports_before_last:
  assumes "header_ok cf gid ts" and "implements_incr env" and "\<forall>t. member_request gid ch (mk t)" and "ch_size ch \<in> {None, Some (length ts)}"
  shows "chord_at cf gid ts dn c \<Longrightarrow> distinct (map fst dn @ map (\<lambda>(w, t, r). t) reps) \<Longrightarrow> fst ` set dn \<union> (\<lambda>(w, t, r). t) ` set reps \<subseteq> set ts \<Longrightarrow>
    length dn + length reps < length ts \<Longrightarrow>
    \<exists>c'. run_reports env cf mk reps c = Inr c' \<and> chord_at cf gid ts (dn @ map snd reps) c' \<and> clog c' = clog c"
proof (induction reps arbitrary: dn c)
  case (Cons rep reps)
  obtain w t r where rep: "rep = (w, t, r)" by (cases rep)
  have t: "t \<in> set ts" "t \<notin> fst ` set dn" using Cons.prems(2,3) rep by auto
  obtain c1 where c1: "chord_at cf gid ts (dn @ [(t, r)]) c1" "clog c1 = clog c" "mark_as_done env cf w t r (Some (mk t)) True c = Inr c1"
    using report_member [OF assms(1) Cons.prems(1) t assms(2) assms(3) [rule_format] assms(4), of r w t] Cons.prems(4) by auto
  have "distinct (map fst (dn @ [(t, r)]) @ map (\<lambda>(w, t, r). t) reps)" using Cons.prems(2) rep by auto
  from Cons.IH [OF c1(1) this] show ?case using Cons.prems(3,4) c1 rep by auto
qed auto

lemma finish_all:
  assumes "header_ok cf gid ts" and "chord_at cf gid ts dn c" and "distinct (map fst dn)" and "fst ` set dn = set ts"
  defines "ret \<equiv> map (\<lambda>t. Some (the (map_of dn t))) ts"
  shows "\<exists>c'. finish_chord env cf w gid (chord_keyprefix (prefix cf) @ gid) ch ts c = Inr c'
    \<and> clog c' = clog c @ [if deliver env (ch_callback ch) ret then CallbackSent (ch_callback ch) ret else ChordErrored (ch_callback ch)]
    \<and> dict_get (ckv c') (group_keyprefix (prefix cf) @ gid) = None \<and> dict_get (ckv c') (chord_keyprefix (prefix cf) @ gid) = None"
proof -
  have "\<exists>m. dict_get (ckv c) (task_keyprefix (prefix cf) @ t) = Some (KMeta m) \<and> m_status m = SUCCESS \<and> m_result m = Some (the (map_of dn t))" if t: "t \<in> set ts" for t
  proof -
    obtain r where "(t, r) \<in> set dn" using t assms(4) by (metis fst_conv image_iff surj_pair)
    then have "map_of dn t = Some r" using assms(3) by simp
    then show ?thesis using assms(2) \<open>(t, r) \<in> set dn\<close> unfolding chord_at_def by fastforce
  qed
  then obtain ch' where join: "join_native cf (\<lambda>_. ckv c) (caches c w) (Some (join_timeout env)) True ts = Some (Inr ret, ch')"
    unfolding ret_def using assms(1,2) join_native_all [of ts "caches c w" "ckv c" cf "\<lambda>t. the (map_of dn t)" "Some (join_timeout env)" True]
    by (auto simp: header_ok_def chord_at_def)
  define c0 where "c0 = c\<lparr>caches := (caches c)(w := ch')\<rparr>"
  let ?e = "if deliver env (ch_callback ch) ret then CallbackSent (ch_callback ch) ret else ChordErrored (ch_callback ch)"
  have "finish_chord env cf w gid (chord_keyprefix (prefix cf) @ gid) ch ts c =
      res_bind (delete_group cf gid (view w (log_event ?e c0))) (\<lambda>b. Inr (unview w (b\<lparr>kv := dict_del (chord_keyprefix (prefix cf) @ gid) (kv b)\<rparr>) (log_event ?e c0)))"
    by (simp add: finish_chord_def join Let_def c0_def)
  moreover have "delete_group cf gid (view w (log_event ?e c0)) = Inr \<lparr>kv = dict_del (group_keyprefix (prefix cf) @ gid) (ckv c), bcache = dict_del gid ch'\<rparr>"
    using assms(1) by (simp add: delete_group_def kv_delete_group_def get_key_for_group_def header_ok_def log_event_def c0_def)
  ultimately have "finish_chord env cf w gid (chord_keyprefix (prefix cf) @ gid) ch ts c =
      Inr (unview w \<lparr>kv = dict_del (chord_keyprefix (prefix cf) @ gid) (dict_del (group_keyprefix (prefix cf) @ gid) (ckv c)), bcache = dict_del gid ch'\<rparr> (log_event ?e c0))"
    by (simp only: res_bind.simps) simp
  then show ?thesis by (intro exI conjI) (assumption | simp add: unview_def log_event_def c0_def dict_simps)+
qed

section \<open>Failures reach the whole chain\<close>

fun elem_ids :: "celem \<Rightarrow> string set" where
  "elem_ids (CElem i g ch isc None) = set_option i"
| "elem_ids (CElem i g ch isc (Some b)) = set_option i \<union> (if isc then elem_ids b else {})"

abbreviation task_val :: "config \<Rightarrow> cluster \<Rightarrow> string \<Rightarrow> kval option" where
  "task_val cf c t \<equiv> dict_get (ckv c) (task_keyprefix (prefix cf) @ t)"

definition task_status :: "config \<Rightarrow> cluster \<Rightarrow> string \<Rightarrow> string option" where
  "task_status cf c t = (case task_val cf c t of Some (KMeta m) \<Rightarrow> Some (m_status m) | _ \<Rightarrow> None)"

text \<open>
  What storing the state \<open>st\<close> for the tasks in \<open>I\<close> amounts to: a success that was stored before
  stays as it is, every other task of \<open>I\<close> gets the state, and no other task is touched.
\<close>

definition marks :: "config \<Rightarrow> string \<Rightarrow> string set \<Rightarrow> cluster \<Rightarrow> cluster \<Rightarrow> bool" where
  "marks cf st I c c' \<longleftrightarrow> (\<forall>t.
     (t \<in> I \<and> task_status cf c t \<noteq> Some SUCCESS \<longrightarrow> task_status cf c' t = Some st) \<and>
     (t \<notin> I \<or> task_status cf c t = Some SUCCESS \<longrightarrow> task_val cf c' t = task_val cf c t))"

lemma marks_same: "(\<And>t. task_val cf c' t = task_val cf c t) \<Longrightarrow> marks cf st {} c c'"
  by (simp add: marks_def)

lemma marks_trans:
  assumes "marks cf st I c c1" and "marks cf st J c1 c2" and "st \<noteq> SUCCESS"
  shows "marks cf st (I \<union> J) c c2"
proof -
  have "(t \<in> I \<union> J \<and> task_status cf c t \<noteq> Some SUCCESS \<longrightarrow> task_status cf c2 t = Some st) \<and>
      (t \<notin> I \<union> J \<or> task_status cf c t = Some SUCCESS \<longrightarrow> task_val cf c2 t = task_val cf c t)" for t
  proof -
    have eq: "task_val cf c1 t = task_val cf c t \<Longrightarrow> task_status cf c1 t = task_status cf c t"
      "task_val cf c2 t = task_val cf c1 t \<Longrightarrow> task_status cf c2 t = task_status cf c1 t"
      by (simp_all add: task_status_def)
    from assms(1) have 1: "t \<in> I \<and> task_status cf c t \<noteq> Some SUCCESS \<Longrightarrow> task_status cf c1 t = Some st"
      "t \<notin> I \<or> task_status cf c t = Some SUCCESS \<Longrightarrow> task_val cf c1 t = task_val cf c t" by (simp_all add: marks_def)
    from assms(2) have 2: "t \<in> J \<and> task_status cf c1 t \<noteq> Some SUCCESS \<Longrightarrow> task_status cf c2 t = Some st"
      "t \<notin> J \<or> task_status cf c1 t = Some SUCCESS \<Longrightarrow> task_val cf c2 t = task_val cf c1 t" by (simp_all add: marks_def)
    show ?thesis
      using 1 2 eq assms(3) by (cases "t \<in> I"; cases "t \<in> J"; cases "task_status cf c t = Some SUCCESS") simp_all
  qed
  then show ?thesis by (simp add: marks_def)
qed

lemma group_meta_kv: "get_group_meta cf u gid b = Inr (ms, b') \<Longrightarrow> kv b' = kv b"
  by (auto simp: get_group_meta_def res_bind_Inr_iff split: if_splits option.splits kval.splits)

lemma finish_chord_tasks:
  assumes "prefixes_ok (prefix cf)" and "finish_chord env cf w gid (chord_keyprefix (prefix cf) @ gid) ch deps c = Inr c'"
  shows "task_val cf c' t = task_val cf c t"
proof -
  have d: "ckv c' = dict_del (chord_keyprefix (prefix cf) @ gid) (dict_del (group_keyprefix (prefix cf) @ gid) (ckv c))"
    using assms(2) by (auto simp: finish_chord_def case_prod_beta Let_def res_bind_Inr_iff delete_group_def kv_delete_group_def get_key_for_group_def unview_def log_event_def
        split: if_splits option.splits sum.splits)
  show ?thesis using assms(1) unfolding d by (simp add: dict_simps prefixes_ok_def)
qed

lemma chord_part_tasks:
  assumes "prefixes_ok (prefix cf)" and "chord_part env cf w grp ch c = Inr c'"
  shows "task_val cf c' t = task_val cf c t"
proof (cases "ch = None \<or> \<not> implements_incr env \<or> grp = None \<or> grp = Some []")
  case True
  then show ?thesis using assms(2) by (auto simp: chord_part_def on_chord_part_return_def split: option.splits if_splits)
next
  case False
  then obtain x gid where x: "ch = Some x" "grp = Some gid" "gid \<noteq> []" "implements_incr env" by auto
  let ?key = "chord_keyprefix (prefix cf) @ gid"
  have o: "on_chord_part_return env cf w (Some gid) x c = Inr c'" using assms(2) x by (simp add: chord_part_def)
  show ?thesis
  proof (cases "get_group_meta cf True gid (view w c)")
    case (Inl e)
    then show ?thesis using o x(3,4) by (auto simp: on_chord_part_return_def get_key_for_chord_def log_event_def)
  next
    case (Inr p)
    obtain ms b where p: "p = (ms, b)" by (cases p)
    then have kv: "kv b = ckv c" using group_meta_kv Inr by fastforce
    show ?thesis
    proof (cases ms)
      case None
      then show ?thesis using o x(3,4) Inr p kv by (auto simp: on_chord_part_return_def get_key_for_chord_def log_event_def unview_def)
    next
      case (Some deps)
      then obtain val s where i: "incr ?key (ckv c) = Inr (val, s)"
        using o x(3,4) Inr p kv by (auto simp: on_chord_part_return_def get_key_for_chord_def unview_def Let_def res_bind_Inr_iff)
      then obtain v where s: "s = dict_set ?key v (ckv c)" by (auto simp: incr_def split: option.splits kval.splits)
      have same: "dict_get s (task_keyprefix (prefix cf) @ t) = task_val cf c t"
        using assms(1) unfolding s by (simp add: dict_simps prefixes_ok_def)
      let ?c1 = "(unview w b c)\<lparr>ckv := s\<rparr>"
      have "c' = log_event (CounterOverrun gid) ?c1 \<or> finish_chord env cf w gid ?key x deps ?c1 = Inr c' \<or> c' = ?c1"
        using o x(3,4) Inr p kv Some i by (auto simp: on_chord_part_return_def get_key_for_chord_def unview_def Let_def split: if_splits)
      then show ?thesis using finish_chord_tasks [OF assms(1)] same by (auto simp: log_event_def)
    qed
  qed
qed

lemma store_at_marks:
  assumes "store_at cf w i ex st tb info c = Inr c'"
  shows "marks cf st {i} c c'"
proof -
  obtain s' where s': "kv_store_result cf i ex st tb info (ckv c) = Inr s'" "ckv c' = s'"
    using assms by (auto simp: store_at_def store_result_def res_bind_Inr_iff unview_def)
  have ne: "i \<noteq> []" using s'(1) by (auto simp: kv_store_result_def Let_def get_task_meta_for_def get_key_for_task_def res_bind_Inr_iff split: if_splits)
  obtain cm where cm: "get_task_meta_for cf (ckv c) i = Inr cm"
    using s'(1) by (auto simp: kv_store_result_def Let_def res_bind_Inr_iff)
  have other: "task_val cf c' u = task_val cf c u" if "u \<noteq> i" for u
    using store_other_key [OF s'(1)] that s'(2) by (elim disjE conjE exE) (simp_all add: dict_simps)
  show ?thesis
  proof (cases "m_status cm = SUCCESS")
    case True
    then have "ckv c' = ckv c" using s' cm by (auto simp: kv_store_result_def Let_def)
    moreover have "task_status cf c i = Some SUCCESS" using True cm ne
      by (auto simp: task_status_def get_task_meta_for_def get_key_for_task_def split: option.splits kval.splits)
    ultimately show ?thesis by (auto simp: marks_def)
  next
    case False
    then have "ckv c' = dict_set (task_keyprefix (prefix cf) @ i) (KMeta ((get_result_meta cf ex st tb info)\<lparr>m_task_id := Some i\<rparr>)) (ckv c)"
      using s' cm ne by (auto simp: kv_store_result_def Let_def get_key_for_task_def)
    then have "task_status cf c' i = Some st" by (simp add: task_status_def dict_simps get_result_meta_def)
    moreover have "task_status cf c i \<noteq> Some SUCCESS" using False cm ne
      by (auto simp: task_status_def get_task_meta_for_def get_key_for_task_def split: option.splits kval.splits)
    ultimately show ?thesis using other by (auto simp: marks_def)
  qed
qed

lemma fail_chain_marks:
  assumes "prefixes_ok (prefix cf)" and "st \<in> PROPAGATE_STATES"
  shows "fail_chain env cf w True st ex tb es c = Inr c' \<Longrightarrow> marks cf st (\<Union>e \<in> set es. elem_ids e) c c'"
proof (induction "sum_list (map size es)" arbitrary: es c rule: less_induct)
  case less
  have st: "st \<noteq> SUCCESS" using assms(2) SUCCESS_ready(2) by blast
  show ?case
  proof (cases es)
    case Nil
    then show ?thesis using less.prems by (simp add: marks_def)
  next
    case (Cons e rest)
    obtain i g ch isc body where e: "e = CElem i g ch isc body" by (cases e)
    let ?q = "case (isc, body) of (True, Some b) \<Rightarrow> rest @ [b] | _ \<Rightarrow> rest"
    obtain c1 c2 where s: "(case i of Some j \<Rightarrow> store_at cf w j ex st tb (Some (elem_info e)) c | None \<Rightarrow> Inr c) = Inr c1"
        "chord_part env cf w g ch c1 = Inr c2" "fail_chain env cf w True st ex tb ?q c2 = Inr c'"
      using less.prems assms(2) Cons e by (cases i) (auto simp: res_bind_Inr_iff)
    have "marks cf st (set_option i) c c1"
      using s(1) store_at_marks by (cases i) (auto simp: marks_def)
    moreover have "marks cf st {} c1 c2" using chord_part_tasks [OF assms(1) s(2)] by (rule marks_same)
    ultimately have m: "marks cf st (set_option i) c c2" using marks_trans [OF _ _ st] by fastforce
    have "sum_list (map size ?q) < sum_list (map size es)" using Cons e by (auto split: bool.split option.split)
    from less.hyps [OF this s(3)] have "marks cf st (\<Union>x \<in> set ?q. elem_ids x) c2 c'" .
    from marks_trans [OF m this st] show ?thesis
      using Cons e by (cases body; cases isc) (simp_all add: Un_commute Un_left_commute)
  qed
qed

section \<open>Properties\<close>

text \<open>
  C2: a chord runs its body exactly once, with every header result in order. Let the header tasks
  report success to any workers in any order, each once. No report but the last has an effect on
  the body; the last one sends the body the list of all results in the order of the header (or
  marks the body as failed when its delivery fails), exactly once, and removes the saved group and the
  counter.
\<close>

theorem chord_body_runs_once:
  assumes "header_ok cf gid ts" and "chord_at cf gid ts [] c" and "ts \<noteq> []" and "implements_incr env"
    and "\<forall>t. member_request gid ch (mk t)" and "ch_size ch \<in> {None, Some (length ts)}"
    and "distinct (map (\<lambda>(w, t, r). t) reps)" and "(\<lambda>(w, t, r). t) ` set reps = set ts"
    and "ret = map (\<lambda>t. Some (the (map_of (map snd reps) t))) ts"
  shows "(\<forall>k < length reps. \<exists>ck. run_reports env cf mk (take k reps) c = Inr ck \<and> clog ck = clog c)
    \<and> (\<exists>c'. run_reports env cf mk reps c = Inr c'
      \<and> clog c' = clog c @ [if deliver env (ch_callback ch) ret then CallbackSent (ch_callback ch) ret else ChordErrored (ch_callback ch)]
      \<and> dict_get (ckv c') (group_keyprefix (prefix cf) @ gid) = None \<and> dict_get (ckv c') (chord_keyprefix (prefix cf) @ gid) = None)"
proof -
  let ?id = "\<lambda>(w, t, r). t"
  have dts: "distinct ts" using assms(1) by (simp add: header_ok_def)
  have len: "length reps = length ts"
    using distinct_card [OF assms(7)] distinct_card [OF dts] assms(8) by simp
  have before: "\<exists>ck. run_reports env cf mk (take k reps) c = Inr ck \<and> chord_at cf gid ts (map snd (take k reps)) ck \<and> clog ck = clog c"
    if "k < length reps" for k
  proof -
    have "distinct (map ?id (take k reps))" using assms(7) by (simp add: take_map [symmetric])
    moreover have "?id ` set (take k reps) \<subseteq> set ts" using assms(8) set_take_subset [of k reps] by (metis image_mono)
    ultimately show ?thesis
      using reports_before_last [OF assms(1,4,5,6,2), of "take k reps"] that len by simp
  qed
  have "reps \<noteq> []" using len assms(3) by auto
  then obtain xs w t r where reps: "reps = xs @ [(w, t, r)]" by (metis prod_cases3 rev_exhaust)
  obtain c1 where c1: "run_reports env cf mk xs c = Inr c1" "chord_at cf gid ts (map snd xs) c1" "clog c1 = clog c"
    using before [of "length xs"] reps by auto
  have t: "t \<in> set ts" "t \<notin> fst ` set (map snd xs)" using assms(7,8) reps by (force simp: image_iff)+
  obtain c2 where c2: "chord_at cf gid ts (map snd xs @ [(t, r)]) c2" "clog c2 = clog c1"
      "mark_as_done env cf w t r (Some (mk t)) True c1 = finish_chord env cf w gid (chord_keyprefix (prefix cf) @ gid) ch ts c2"
    using report_member [OF assms(1) c1(2) t assms(4) assms(5) [rule_format] assms(6), of r w t] len reps by auto
  have dn: "map snd xs @ [(t, r)] = map snd reps" using reps by simp
  have "map fst (map snd reps) = map ?id reps" by auto
  then have d: "distinct (map fst (map snd reps))" "fst ` set (map snd reps) = set ts"
    using assms(7,8) by (metis, metis image_set set_map)
  obtain c' where fin: "finish_chord env cf w gid (chord_keyprefix (prefix cf) @ gid) ch ts c2 = Inr c'"
      "clog c' = clog c2 @ [if deliver env (ch_callback ch) ret then CallbackSent (ch_callback ch) ret else ChordErrored (ch_callback ch)]"
      "dict_get (ckv c') (group_keyprefix (prefix cf) @ gid) = None" "dict_get (ckv c') (chord_keyprefix (prefix cf) @ gid) = None"
    using finish_all [OF assms(1) c2(1) [unfolded dn] d, of env w ch] unfolding assms(9) by blast
  have run: "run_reports env cf mk reps c = Inr c'" using c1(1) c2(3) fin(1) by (simp add: reps run_reports_append)
  show ?thesis
  proof (rule conjI)
    show "\<forall>k < length reps. \<exists>ck. run_reports env cf mk (take k reps) c = Inr ck \<and> clog ck = clog c" using before by blast
  qed (intro exI [of _ c'], use run fin c1(3) c2(2) in simp)
qed

definition plain_info :: "string option \<Rightarrow> req_info" where
  "plain_info g = \<lparr>ri_group = g, ri_parent_id = None, ri_children = [], ri_ignore_result = False, ri_name = None, ri_hostname = None,
     ri_retries = None, ri_queue = None\<rparr>"

definition sample_chord :: chord where
  "sample_chord = \<lparr>ch_size = Some 2, ch_callback = ''body''\<rparr>"

definition sample_request :: "string \<Rightarrow> request" where
  "sample_request t = \<lparr>rq_id = t, rq_info = plain_info (Some ''g''), rq_chord = Some sample_chord, rq_chain = [], rq_errbacks = []\<rparr>"

definition sample_cluster :: cluster where
  "sample_cluster = \<lparr>ckv = [(''celery-taskset-meta-g'', KGroup [''a'', ''b''])], caches = (\<lambda>_. []), clog = []\<rparr>"

definition sample_env :: env where
  "sample_env = \<lparr>implements_incr = True, deliver = (\<lambda>_ _. True), join_timeout = 3\<rparr>"

lemma sample_prefixes: "prefix sample_config = common_prefixes []"
  by (simp add: sample_config_def add_global_keyprefix_def common_prefixes_def)

theorem chord_body_runs_once_witness:
  "\<exists>c'. run_reports sample_env sample_config sample_request [(1, ''b'', 7), (2, ''a'', 5)] sample_cluster = Inr c'
     \<and> clog c' = [CallbackSent ''body'' [Some 5, Some 7]]"
proof -
  have h: "header_ok sample_config ''g'' [''a'', ''b'']" using prefixes_ok_common by (simp add: header_ok_def sample_prefixes)
  have at: "chord_at sample_config ''g'' [''a'', ''b''] [] sample_cluster"
    by (simp add: chord_at_def sample_cluster_def sample_prefixes common_prefixes_def default_prefixes_def)
  have i: "implements_incr sample_env" by (simp add: sample_env_def)
  have m: "\<forall>t. member_request ''g'' sample_chord (sample_request t)" by (simp add: member_request_def sample_request_def plain_info_def)
  have sz: "ch_size sample_chord \<in> {None, Some (length [''a'', ''b''])}" by (simp add: sample_chord_def)
  show ?thesis
    using chord_body_runs_once [OF h at _ i m sz, of "[(1, ''b'', 7), (2, ''a'', 5)]" "[Some 5, Some 7]"]
    by (auto simp: sample_env_def sample_chord_def sample_cluster_def)
qed



end
