(* ===== verification/Canvas.thy ===== *)
theory Canvas
  imports Prelude States
begin

text \<open>
  Signatures and their composition, \<open>celery.canvas\<close>: single tasks, chains, groups and chords as one
  datatype, the merging of arguments and options, cloning, linking of callbacks, the chaining
  operator \<open>|\<close> of all four classes with its rewritings (splicing of chains, unrolling of groups with
  one member, the upgrade of a group followed by a task to a chord, attaching to the body of a
  chord), the count of completions a chord waits for, and the local evaluation \<open>apply\<close>.

  Signatures are values here. The operations of this theory change only objects they have just
  cloned or built, so that sharing cannot be observed through them; the task lists of groups are
  lists and not generators.
\<close>

section \<open>Signatures\<close>

datatype val = Atom nat | Bool bool | Lst "val list" | NoneV

text \<open>The options a signature carries; \<open>extra\<close> holds every option without a field of its own.\<close>

datatype 's options = Options
  (link_opt: "'s list option") (link_error_opt: "'s list option") (chord_opt: "'s option")
  (task_id_opt: "string option") (group_id_opt: "string option")
  (root_id_opt: "string option") (parent_id_opt: "string option")
  (group_index_opt: "nat option") (reply_to_opt: "string option")
  (stamped_headers_opt: "string list option") (extra: "(string \<times> val) list")

abbreviation no_options :: "'s options" where
  "no_options \<equiv> Options None None None None None None None None None None []"

datatype sig =
    Task (task_name: string) (args: "val list") (kwargs: "(string \<times> val) list") (options: "sig options") (immutable: bool)
  | Chain (tasks: "sig list") (options: "sig options") (immutable: bool)
  | Group (tasks: "sig list") (options: "sig options")
  | Chord (header: "sig list") (body: "sig option") (args: "val list") (kwargs: "(string \<times> val) list") (options: "sig options") (immutable: bool)

fun set_link :: "'s list option \<Rightarrow> 's options \<Rightarrow> 's options" where
  "set_link x (Options l e c t g r p i y h m) = Options x e c t g r p i y h m"

fun set_link_error :: "'s list option \<Rightarrow> 's options \<Rightarrow> 's options" where
  "set_link_error x (Options l e c t g r p i y h m) = Options l x c t g r p i y h m"

fun set_extra :: "(string \<times> val) list \<Rightarrow> 's options \<Rightarrow> 's options" where
  "set_extra x (Options l e c t g r p i y h m) = Options l e c t g r p i y h x"

fun set_options :: "sig options \<Rightarrow> sig \<Rightarrow> sig" where
  "set_options o' (Task n a k op i) = Task n a k o' i"
| "set_options o' (Chain ts op i) = Chain ts o' i"
| "set_options o' (Group ts op) = Group ts o'"
| "set_options o' (Chord h b a k op i) = Chord h b a k o' i"

section \<open>Merging and cloning\<close>

text \<open>
  \<open>_merge\<close>: an option given by the caller overrides the one of the signature, unless its key is
  one of the immutable ones and the signature has it.
\<close>

definition immutable_keys :: "'s options \<Rightarrow> string set" where
  "immutable_keys own = {''group_id'', ''stamped_headers''} \<union> (case stamped_headers_opt own of None \<Rightarrow> {} | Some hs \<Rightarrow> set hs)"

definition pick :: "string set \<Rightarrow> string \<Rightarrow> 'v option \<Rightarrow> 'v option \<Rightarrow> 'v option" where
  "pick imm key own given = (case given of None \<Rightarrow> own
     | Some v \<Rightarrow> if key \<in> imm \<and> own \<noteq> None then own else given)"

definition merge_options :: "'s options \<Rightarrow> 's options \<Rightarrow> 's options" where
  "merge_options own given =
     (let imm = immutable_keys own in
      Options (pick imm ''link'' (link_opt own) (link_opt given)) (pick imm ''link_error'' (link_error_opt own) (link_error_opt given))
        (pick imm ''chord'' (chord_opt own) (chord_opt given)) (pick imm ''task_id'' (task_id_opt own) (task_id_opt given))
        (pick imm ''group_id'' (group_id_opt own) (group_id_opt given)) (pick imm ''root_id'' (root_id_opt own) (root_id_opt given))
        (pick imm ''parent_id'' (parent_id_opt own) (parent_id_opt given))
        (pick imm ''group_index'' (group_index_opt own) (group_index_opt given))
        (pick imm ''reply_to'' (reply_to_opt own) (reply_to_opt given))
        (pick imm ''stamped_headers'' (stamped_headers_opt own) (stamped_headers_opt given))
        (dict_update (extra own) (filter (\<lambda>(k, v). k \<notin> imm \<or> dict_get (extra own) k = None) (extra given))))"

definition merge_args :: "bool \<Rightarrow> bool \<Rightarrow> val list \<Rightarrow> val list \<Rightarrow> val list" where
  "merge_args imm force given own = (if imm \<and> \<not> force then own else given @ own)"

definition merge_kwargs :: "bool \<Rightarrow> bool \<Rightarrow> (string, val) dict \<Rightarrow> (string, val) dict \<Rightarrow> (string, val) dict" where
  "merge_kwargs imm force given own = (if imm \<and> \<not> force then own else dict_update own given)"

text \<open>
  \<open>clone\<close> goes through \<open>from_dict\<close> of the class: a chain or a group is rebuilt from its tasks and
  options alone, where an option named \<open>immutable\<close> becomes the flag of the constructor; a chord
  keeps its arguments and its flag. Keyword arguments given to the clone of a chain or group are
  dropped by \<open>from_dict\<close>, those given to a chord land beside its header and body, where nothing
  reads them.
\<close>

definition truthy :: "val option \<Rightarrow> bool" where
  "truthy v \<longleftrightarrow> (case v of None \<Rightarrow> False | Some (Atom n) \<Rightarrow> n \<noteq> 0 | Some (Bool b) \<Rightarrow> b | Some (Lst l) \<Rightarrow> l \<noteq> [] | Some NoneV \<Rightarrow> False)"

definition init_immutable :: "'s options \<Rightarrow> bool" where
  "init_immutable op = truthy (dict_get (extra op) ''immutable'')"

definition init_options :: "'s options \<Rightarrow> 's options" where
  "init_options op = set_extra (dict_del ''immutable'' (extra op)) op"

fun clone0 :: "sig \<Rightarrow> sig" where
  "clone0 (Task n a k op i) = Task n a k op i"
| "clone0 (Chain ts op i) = Chain (map clone0 ts) (init_options op) (init_immutable op)"
| "clone0 (Group ts op) = Group ts (init_options op)"
| "clone0 (Chord h b a k op i) = Chord (map clone0 h) (map_option clone0 b) a k op i"

definition clone :: "val list \<Rightarrow> (string, val) dict \<Rightarrow> sig options \<Rightarrow> sig \<Rightarrow> sig" where
  "clone a' k' o' s = (case s of
     Task n a k op i \<Rightarrow> Task n (merge_args i False a' a) (merge_kwargs i False k' k) (merge_options op o') i
   | Chain ts op i \<Rightarrow> clone0 (Chain ts (merge_options op o') i)
   | Group ts op \<Rightarrow> clone0 (Group ts (merge_options op o'))
   | Chord h b a k op i \<Rightarrow> clone0 (Chord h b (merge_args i False a' a) k (merge_options op o') i))"

section \<open>Callbacks\<close>

text \<open>\<open>set_immutable\<close> reaches the members of a group and of a chord header, not the body.\<close>

fun set_immutable :: "bool \<Rightarrow> sig \<Rightarrow> sig" where
  "set_immutable b (Task n a k op i) = Task n a k op b"
| "set_immutable b (Chain ts op i) = Chain ts op b"
| "set_immutable b (Group ts op) = Group (map (set_immutable b) ts) op"
| "set_immutable b (Chord h bd a k op i) = Chord (map (set_immutable b) h) bd a k op i"

fun res_map :: "('a \<Rightarrow> 'e + 'b) \<Rightarrow> 'a list \<Rightarrow> 'e + 'b list" where
  "res_map f [] = Inr []"
| "res_map f (x # xs) = res_bind (f x) (\<lambda>y. res_bind (res_map f xs) (\<lambda>ys. Inr (y # ys)))"

lemma res_map_cong [fundef_cong]:
  assumes "xs = ys" and "\<And>x. x \<in> set ys \<Longrightarrow> f x = g x"
  shows "res_map f xs = res_map g ys"
proof -
  have "(\<And>x. x \<in> set zs \<Longrightarrow> f x = g x) \<Longrightarrow> res_map f zs = res_map g zs" for zs by (induction zs) auto
  then show ?thesis using assms by simp
qed

definition append_new :: "'a \<Rightarrow> 'a list option \<Rightarrow> 'a list option" where
  "append_new x items = (let xs = (case items of None \<Rightarrow> [] | Some l \<Rightarrow> l) in Some (if x \<in> set xs then xs else xs @ [x]))"

definition link_own :: "sig \<Rightarrow> sig \<Rightarrow> sig" where
  "link_own cb s = set_options (set_link (append_new cb (link_opt (options s))) (options s)) s"

definition link_error_own :: "sig \<Rightarrow> sig \<Rightarrow> sig" where
  "link_error_own eb s = set_options (set_link_error (append_new eb (link_error_opt (options s))) (options s)) s"

fun link :: "sig \<Rightarrow> sig \<Rightarrow> sig result" where
  "link cb (Group [] op) = Inl IndexError"
| "link cb (Group (t # ts) op) = res_bind (link (set_immutable True (clone0 cb)) t) (\<lambda>t'. Inr (Group (t' # ts) op))"
| "link cb (Chord h None a k op i) = Inl AttributeError"
| "link cb (Chord h (Some b) a k op i) = res_bind (link cb b) (\<lambda>b'. Inr (Chord h (Some b') a k op i))"
| "link cb s = Inr (link_own cb s)"

text \<open>
  \<open>link_error\<close> of several error callbacks in a row, so that the recursion follows the signature; the
  first argument is the setting \<open>task_allow_error_cb_on_chord_header\<close>. A group gives each member a
  clone. A chord gives each header task a clone with an option \<open>immutable\<close>, where the setting
  allows it, then links a chord in the header itself, and links its own body.
\<close>

definition immutable_option :: "sig options" where
  "immutable_option = set_extra [(''immutable'', Bool True)] no_options"

definition header_errbacks :: "bool \<Rightarrow> sig \<Rightarrow> sig \<Rightarrow> sig list" where
  "header_errbacks allow t eb = (if allow then [clone [] [] immutable_option eb] else []) @ (if is_Chord t then [eb] else [])"

fun link_errors :: "bool \<Rightarrow> sig list \<Rightarrow> sig \<Rightarrow> sig result" where
  "link_errors allow ebs (Group ts op) = res_bind (res_map (link_errors allow (map clone0 ebs)) ts) (\<lambda>ts'. Inr (Group ts' op))"
| "link_errors allow ebs (Chord h b a k op i) =
     res_bind (res_map (\<lambda>t. link_errors allow (concat (map (header_errbacks allow t) ebs)) t) h) (\<lambda>h'.
     case b of
       None \<Rightarrow> if ebs = [] then Inr (Chord h' None a k op i) else Inl AttributeError
     | Some bd \<Rightarrow> res_bind (link_errors allow ebs bd) (\<lambda>bd'. Inr (Chord h' (Some bd') a k op i)))"
| "link_errors allow ebs s = Inr (fold link_error_own ebs s)"

definition link_error :: "bool \<Rightarrow> sig \<Rightarrow> sig \<Rightarrow> sig result" where
  "link_error allow eb = link_errors allow [eb]"

fun res_fold :: "('a \<Rightarrow> 'b \<Rightarrow> 'e + 'b) \<Rightarrow> 'a list \<Rightarrow> 'b \<Rightarrow> 'e + 'b" where
  "res_fold f [] b = Inr b"
| "res_fold f (x # xs) b = res_bind (f x b) (res_fold f xs)"

lemma res_fold_cong [fundef_cong]:
  assumes "xs = ys" and "b = c" and "\<And>x y. x \<in> set ys \<Longrightarrow> f x y = g x y"
  shows "res_fold f xs b = res_fold g ys c"
proof -
  have "(\<And>x y. x \<in> set zs \<Longrightarrow> f x y = g x y) \<Longrightarrow> res_fold f zs b = res_fold g zs b" for zs b
    by (induction zs arbitrary: b) (auto intro!: res_bind_cong)
  then show ?thesis using assms by simp
qed

definition option_list :: "'a list option \<Rightarrow> 'a list" where
  "option_list l = (case l of None \<Rightarrow> [] | Some xs \<Rightarrow> xs)"

definition link_last :: "sig \<Rightarrow> sig list \<Rightarrow> sig list result" where
  "link_last cb ts = (if ts = [] then Inl IndexError else res_bind (link cb (last ts)) (\<lambda>t. Inr (butlast ts @ [t])))"

definition unchain_tasks :: "bool \<Rightarrow> sig list \<Rightarrow> sig options \<Rightarrow> sig list result" where
  "unchain_tasks allow ts op =
     res_bind (res_fold link_last (option_list (link_opt op)) (map clone0 ts)) (\<lambda>ts1.
     res_fold (\<lambda>eb. res_map (link_error allow eb)) (option_list (link_error_opt op)) ts1)"

section \<open>The chaining operator\<close>

definition maybe_unroll_group :: "sig list \<Rightarrow> sig options \<Rightarrow> sig" where
  "maybe_unroll_group ts op = (case ts of [t] \<Rightarrow> t | _ \<Rightarrow> Group ts op)"

fun nodes :: "sig \<Rightarrow> nat" where
  "nodes (Task n a k op i) = 1"
| "nodes (Chain ts op i) = Suc (sum_list (map nodes ts))"
| "nodes (Group ts op) = Suc (sum_list (map nodes ts))"
| "nodes (Chord h b a k op i) = Suc (sum_list (map nodes h) + (case b of None \<Rightarrow> 0 | Some bd \<Rightarrow> nodes bd))"

definition right_rank :: "sig \<Rightarrow> nat" where
  "right_rank s = (if is_Chain s \<or> is_Group s then nodes s else 0)"

text \<open>
  \<open>chord(group, body)\<close> takes the tasks of the group as header, \<open>_maybe_group\<close>; the body it is given
  is not cloned.
\<close>

definition make_chord :: "sig list \<Rightarrow> sig \<Rightarrow> sig" where
  "make_chord ts b = Chord ts (Some b) [] [] no_options False"

definition is_empty_group :: "sig \<Rightarrow> bool" where
  "is_empty_group s \<longleftrightarrow> is_Group s \<and> tasks s = []"

definition signature_or :: "bool \<Rightarrow> sig \<Rightarrow> sig \<Rightarrow> sig result" where
  "signature_or allow self other = (case other of
     Chain ts op i \<Rightarrow> res_bind (unchain_tasks allow ts op) (\<lambda>us. Inr (Chain (self # us) no_options False))
   | Group ts op \<Rightarrow> Inr (Chain [self, maybe_unroll_group ts op] no_options False)
   | _ \<Rightarrow> Inr (Chain [self, other] no_options False))"

definition set_body :: "sig \<Rightarrow> sig \<Rightarrow> sig" where
  "set_body b s = (case s of Chord h b0 a k op i \<Rightarrow> Chord h (Some b) a k op i | _ \<Rightarrow> s)"

text \<open>Size facts for the recursion of the operator.\<close>

lemma nodes_set_immutable [simp]: "nodes (set_immutable b s) = nodes s"
  by (induction b s rule: set_immutable.induct) (auto cong: map_cong simp: comp_def)

lemma nodes_clone0 [simp]: "nodes (clone0 s) = nodes s"
  by (induction s rule: clone0.induct) (auto cong: map_cong simp: comp_def split: option.splits)

lemma nodes_set_options [simp]: "nodes (set_options op s) = nodes s"
  by (cases s) auto

lemma nodes_link: "link cb s = Inr s' \<Longrightarrow> nodes s' = nodes s"
  by (induction cb s arbitrary: s' rule: link.induct) (auto simp: res_bind_Inr_iff link_own_def)

lemma res_map_Inr_iff: "res_map f xs = Inr ys \<longleftrightarrow> list_all2 (\<lambda>x y. f x = Inr y) xs ys"
proof (induction xs arbitrary: ys)
  case (Cons x xs)
  then show ?case by (cases ys) (auto simp: res_bind_Inr_iff)
qed auto

lemma list_all2_sum_nodes:
  "list_all2 P xs ys \<Longrightarrow> (\<And>x y. x \<in> set xs \<Longrightarrow> P x y \<Longrightarrow> nodes y = nodes x) \<Longrightarrow> map nodes ys = map nodes xs"
  by (induction rule: list_all2_induct) auto

lemma nodes_fold_link_error [simp]: "nodes (fold link_error_own ebs s) = nodes s"
  by (induction ebs arbitrary: s) (auto simp: link_error_own_def)

lemma nodes_link_errors: "link_errors allow ebs s = Inr s' \<Longrightarrow> nodes s' = nodes s"
proof (induction allow ebs s arbitrary: s' rule: link_errors.induct)
  case (1 allow ebs ts op)
  then show ?case by (auto simp: res_bind_Inr_iff res_map_Inr_iff dest!: list_all2_sum_nodes)
next
  case (2 allow ebs h b a k op i)
  let ?f = "\<lambda>t. link_errors allow (concat (map (header_errbacks allow t) ebs)) t"
  obtain h' where h: "res_map ?f h = Inr h'" using "2.prems" by (auto simp: res_bind_Inr_iff)
  have "map nodes h' = map nodes h"
    using list_all2_sum_nodes [OF h [unfolded res_map_Inr_iff]] "2.IH"(1) by blast
  then show ?case using "2.prems" "2.IH"(2) [OF h] h
    by (auto simp: res_bind_Inr_iff split: option.splits if_splits)
qed auto

lemma res_fold_invariant:
  "res_fold f xs b = Inr c \<Longrightarrow> P b \<Longrightarrow> (\<And>x y z. x \<in> set xs \<Longrightarrow> P y \<Longrightarrow> f x y = Inr z \<Longrightarrow> P z) \<Longrightarrow> P c"
  by (induction xs arbitrary: b) (auto simp: res_bind_Inr_iff)

lemma unchain_nodes:
  assumes "unchain_tasks allow ts op = Inr us"
  shows "map nodes us = map nodes ts"
proof -
  obtain ts1 where 1: "res_fold link_last (option_list (link_opt op)) (map clone0 ts) = Inr ts1"
    and 2: "res_fold (\<lambda>eb. res_map (link_error allow eb)) (option_list (link_error_opt op)) ts1 = Inr us"
    using assms by (auto simp: unchain_tasks_def res_bind_Inr_iff)
  have "map nodes zs = map nodes ys" if "link_last cb ys = Inr zs" for cb ys zs
    using that by (cases ys rule: rev_cases) (auto simp: link_last_def res_bind_Inr_iff nodes_link)
  then have ts1: "map nodes ts1 = map nodes ts"
    using res_fold_invariant [OF 1, where P = "\<lambda>x. map nodes x = map nodes ts"] by (simp add: comp_def)
  have "map nodes zs = map nodes ys" if "res_map (link_error allow eb) ys = Inr zs" for eb ys zs
    using that list_all2_sum_nodes [of _ ys zs] by (simp add: res_map_Inr_iff link_error_def nodes_link_errors)
  then show ?thesis
    using res_fold_invariant [OF 2, where P = "\<lambda>x. map nodes x = map nodes ts"] ts1 by simp
qed

lemma member_nodes: "t \<in> set ts \<Longrightarrow> nodes t < Suc (sum_list (map nodes ts))"
  by (induction ts) auto

lemma unchain_member_nodes:
  "unchain_tasks allow ts op = Inr us \<Longrightarrow> t \<in> set us \<Longrightarrow> nodes t < Suc (sum_list (map nodes ts))"
  using member_nodes [of t us] unchain_nodes by fastforce

lemma right_rank_le: "right_rank s \<le> nodes s"
  by (simp add: right_rank_def)

lemma chord_body_nodes: "is_Chord s \<Longrightarrow> body s = Some b \<Longrightarrow> nodes b < nodes s"
  by (cases s) auto

lemma chord_member_nodes:
  "t \<in> set us \<Longrightarrow> map nodes us = map nodes ts \<Longrightarrow> is_Chord t \<Longrightarrow> body t = Some b \<Longrightarrow> nodes b < Suc (sum_list (map nodes ts))"
  using chord_body_nodes [of t b] member_nodes [of t us] by simp

lemma right_rank_simps [simp]:
  "right_rank (Task n a k op i) = 0" "right_rank (Chord h b a k op i) = 0" "right_rank (make_chord ts s) = 0"
  by (auto simp: right_rank_def make_chord_def)

lemma clone0_kind [simp]:
  "is_Task (clone0 s) = is_Task s" "is_Chain (clone0 s) = is_Chain s"
  "is_Group (clone0 s) = is_Group s" "is_Chord (clone0 s) = is_Chord s"
  by (cases s; simp)+

lemma chord_last_nodes:
  "ts \<noteq> [] \<Longrightarrow> is_Chord (last ts) \<Longrightarrow> body (clone0 (last ts)) = Some b \<Longrightarrow> nodes b < Suc (sum_list (map nodes ts))"
  using chord_member_nodes [of "clone0 (last ts)" "map clone0 ts" ts b] by (simp add: comp_def)

lemma chord_before_last_nodes:
  "butlast (map clone0 ts) \<noteq> [] \<Longrightarrow> is_Chord (last (butlast (map clone0 ts))) \<Longrightarrow>
   body (last (butlast (map clone0 ts))) = Some b \<Longrightarrow> nodes b < Suc (sum_list (map nodes ts))"
  using chord_member_nodes [of "last (butlast (map clone0 ts))" "map clone0 ts" ts b]
    in_set_butlastD [OF last_in_set, of "map clone0 ts"] by (simp add: comp_def)

lemma right_rank_single [simp]: "right_rank t < right_rank (Group [t] op)"
  using right_rank_le [of t] by (simp add: right_rank_def)

function or_sig :: "bool \<Rightarrow> sig \<Rightarrow> sig \<Rightarrow> sig result" where
  "or_sig allow self other = (case self of
     Task n a k op i \<Rightarrow> signature_or allow self other
   | Group ts op \<Rightarrow> if is_empty_group other then Inr self else Inr (make_chord ts other)
   | Chord h b a k op i \<Rightarrow>
       (case other of
          Chain os oop oi \<Rightarrow> signature_or allow self other
        | Group os oop \<Rightarrow>
            (case os of
               [t] \<Rightarrow> (case body (clone0 self) of
                          None \<Rightarrow> Inl TypeError
                        | Some bd \<Rightarrow> res_bind (or_sig allow bd t) (\<lambda>bd'. Inr (set_body bd' (clone0 self))))
             | _ \<Rightarrow> signature_or allow self other)
        | _ \<Rightarrow> (case body (clone0 self) of
                   None \<Rightarrow> Inl TypeError
                 | Some bd \<Rightarrow> res_bind (or_sig allow bd other) (\<lambda>bd'. Inr (set_body bd' (clone0 self)))))
   | Chain ts op i \<Rightarrow>
       (case other of
          Group os oop \<Rightarrow>
            (case os of
               [] \<Rightarrow> Inr self
             | [t] \<Rightarrow> or_sig allow self t
             | _ \<Rightarrow> res_bind (unchain_tasks allow ts op) (\<lambda>us.
                 if us = [] then Inr other
                 else if is_Chord (last us) then
                   (case body (last us) of
                      None \<Rightarrow> Inl TypeError
                    | Some bd \<Rightarrow> res_bind (or_sig allow bd other) (\<lambda>bd'.
                        Inr (Chain (butlast us @ [set_body bd' (last us)]) no_options False)))
                 else Inr (Chain (us @ [other]) no_options False)))
        | Chain os oop oi \<Rightarrow> res_bind (unchain_tasks allow os oop) (\<lambda>us. res_fold (\<lambda>t acc. or_sig allow acc t) us self)
        | _ \<Rightarrow>
            if ts \<noteq> [] \<and> is_Group (last ts) then
              (let us = map clone0 ts; last_chord = make_chord (tasks (last us)) other; prev = butlast us in
               if prev \<noteq> [] \<and> is_Chord (last prev) then
                 (case body (last prev) of
                    None \<Rightarrow> Inl TypeError
                  | Some bd \<Rightarrow> res_bind (or_sig allow bd last_chord) (\<lambda>bd'.
                      Inr (Chain (butlast prev @ [set_body bd' (last prev)]) (init_options op) (init_immutable op))))
               else Inr (Chain (prev @ [last_chord]) (init_options op) (init_immutable op)))
            else if ts \<noteq> [] \<and> is_Chord (last ts) \<and> \<not> is_Chord other then
              (let us = map clone0 ts in
               case body (last us) of
                 None \<Rightarrow> Inl TypeError
               | Some bd \<Rightarrow> res_bind (or_sig allow bd other) (\<lambda>bd'.
                   Inr (Chain (butlast us @ [set_body bd' (last us)]) (init_options op) (init_immutable op))))
            else res_bind (unchain_tasks allow ts op) (\<lambda>us. Inr (Chain (us @ [other]) no_options False))))"
  by pat_completeness auto
termination
proof (relation "inv_image (less_than <*lex*> less_than) (\<lambda>(allow, self, other). (right_rank other, nodes self))", goal_cases)
  case 1
  then show ?case by auto
next
  case (4 allow self other ts op i os oop oi us t acc)
  then show ?case using unchain_member_nodes [of allow os oop us t] right_rank_le [of t]
    by (simp add: right_rank_def)
next
  case (6 allow self other ts op i os oop t rest t' rest' us bd)
  then show ?case using chord_member_nodes [OF _ unchain_nodes, of "last us" us allow ts op bd] by simp
qed (auto simp: last_map chord_last_nodes chord_before_last_nodes split: option.splits)

declare or_sig.simps [simp del]

text \<open>\<open>chain(*tasks)\<close> with several tasks, or one list of them, folds the operator over an empty chain.\<close>

definition make_chain :: "bool \<Rightarrow> sig list \<Rightarrow> sig result" where
  "make_chain allow ts = res_fold (\<lambda>t acc. or_sig allow acc t) ts (Chain [] no_options False)"

section \<open>Counting completions\<close>

fun first_positive :: "('a \<Rightarrow> 'e + nat) \<Rightarrow> 'a list \<Rightarrow> 'e + nat" where
  "first_positive f [] = Inr 0"
| "first_positive f (x # xs) = res_bind (f x) (\<lambda>n. if n > 0 then Inr n else first_positive f xs)"

lemma first_positive_cong [fundef_cong]:
  assumes "xs = ys" and "\<And>x. x \<in> set ys \<Longrightarrow> f x = g x"
  shows "first_positive f xs = first_positive g ys"
proof -
  have "(\<And>x. x \<in> set zs \<Longrightarrow> f x = g x) \<Longrightarrow> first_positive f zs = first_positive g zs" for zs
    by (induction zs) (auto intro!: res_bind_cong)
  then show ?thesis using assms by simp
qed

fun descend :: "sig \<Rightarrow> nat result" where
  "descend (Task n a k op i) = Inr 1"
| "descend (Group ts op) = res_bind (res_map descend ts) (\<lambda>ns. Inr (sum_list ns))"
| "descend (Chain ts op i) = first_positive descend (rev ts)"
| "descend (Chord h b a k op i) = (case b of None \<Rightarrow> Inl TypeError | Some bd \<Rightarrow> descend bd)"

definition length_hint :: "sig list \<Rightarrow> nat result" where
  "length_hint h = res_bind (res_map descend h) (\<lambda>ns. Inr (sum_list ns))"

section \<open>Freezing the shape of a signature\<close>

text \<open>
  What \<open>freeze\<close> does to the tree. \<open>_freeze_unroll\<close> replaces a group nested in a group or chord header
  by its members, pushed to the left of the work list one after the other, and drops empty chains.
  A chain freezes its steps, where a group with one member stands for that member.
\<close>

fun unroll_frozen :: "sig \<Rightarrow> sig list" where
  "unroll_frozen (Group us op) = concat (map unroll_frozen (rev us))"
| "unroll_frozen (Chain ts op i) = (if ts = [] then [] else [Chain ts op i])"
| "unroll_frozen t = [t]"

lemma unroll_frozen_nodes: "sum_list (map nodes (unroll_frozen s)) \<le> nodes s"
proof (induction s rule: unroll_frozen.induct)
  case (1 us op)
  have "sum_list (map nodes (concat (map unroll_frozen us))) \<le> sum_list (map nodes us)" if "set us \<subseteq> set vs"
    and "\<And>u. u \<in> set vs \<Longrightarrow> sum_list (map nodes (unroll_frozen u)) \<le> nodes u" for us vs
    using that by (induction us) (auto intro: add_mono)
  from this [of "rev us" us] 1 have "sum_list (map nodes (concat (map unroll_frozen (rev us)))) \<le> sum_list (map nodes (rev us))" by simp
  also have "\<dots> = sum_list (map nodes us)" by (simp add: rev_map [symmetric])
  finally show ?case by simp
qed auto

lemma unroll_frozen_sum: "sum_list (map nodes (concat (map unroll_frozen ts))) \<le> sum_list (map nodes ts)"
  by (induction ts) (auto intro: add_mono unroll_frozen_nodes)

lemma unroll_frozen_member: "t \<in> set (concat (map unroll_frozen ts)) \<Longrightarrow> nodes t \<le> sum_list (map nodes ts)"
  using member_nodes [of t "concat (map unroll_frozen ts)"] unroll_frozen_sum [of ts] by simp

function freeze_shape :: "sig \<Rightarrow> sig" where
  "freeze_shape (Task n a k op i) = Task n a k op i"
| "freeze_shape (Group ts op) = Group (map (\<lambda>t. freeze_shape (clone0 t)) (concat (map unroll_frozen ts))) op"
| "freeze_shape (Chain ts op i) = Chain (map (\<lambda>t. case t of Group [u] gop \<Rightarrow> Group [freeze_shape u] gop | _ \<Rightarrow> freeze_shape t) ts) op i"
| "freeze_shape (Chord h b a k op i) =
     Chord (map (\<lambda>t. freeze_shape (clone0 t)) (concat (map unroll_frozen h))) (map_option freeze_shape b) a k op i"
  by pat_completeness auto
termination
  using member_nodes unroll_frozen_member
  by (relation "measure nodes") (fastforce simp: less_Suc_eq_le)+

lemma nodes_freeze_shape: "nodes (freeze_shape s) \<le> nodes s"
proof (induction s rule: freeze_shape.induct)
  case (2 ts op)
  let ?us = "concat (map unroll_frozen ts)"
  have "sum_list (map (\<lambda>t. nodes (freeze_shape (clone0 t))) ?us) \<le> sum_list (map nodes ?us)"
    using 2 by (intro sum_list_mono) (metis nodes_clone0)
  then show ?case using unroll_frozen_sum [of ts] by (simp add: comp_def)
next
  case (3 ts op i)
  have "nodes (case t of Group [u] gop \<Rightarrow> Group [freeze_shape u] gop | _ \<Rightarrow> freeze_shape t) \<le> nodes t" if "t \<in> set ts" for t
    using 3 [OF that] by (auto split: sig.splits list.splits)
  then show ?case by (auto simp: comp_def intro!: sum_list_mono)
next
  case (4 h b a k op i)
  let ?us = "concat (map unroll_frozen h)"
  have "sum_list (map (\<lambda>t. nodes (freeze_shape (clone0 t))) ?us) \<le> sum_list (map nodes ?us)"
    using 4(1) by (intro sum_list_mono) (metis nodes_clone0)
  then have "sum_list (map (\<lambda>t. nodes (freeze_shape (clone0 t))) ?us) \<le> sum_list (map nodes h)"
    using unroll_frozen_sum [of h] by linarith
  then show ?case using 4(2) by (cases b) (auto simp: comp_def intro!: add_mono)
qed auto

section \<open>Local evaluation\<close>

text \<open>
  The results \<open>apply\<close> gives back: an \<open>EagerResult\<close> with its state and value, or the \<open>GroupResult\<close> of a
  group. \<open>get\<close> raises for a failed task, and gives no value for an ignored or rejected one.
\<close>

datatype eres = Eager string val | GroupRes "eres list"

datatype err = TaskError val | CanvasError exn

fun get_result :: "eres \<Rightarrow> err + val" where
  "get_result (Eager st v) = (if st = SUCCESS then Inr v else if st \<in> PROPAGATE_STATES then Inl (TaskError v) else Inr NoneV)"
| "get_result (GroupRes rs) = res_bind (res_map get_result rs) (\<lambda>vs. Inr (Lst vs))"

definition stops_chain :: "eres \<Rightarrow> bool" where
  "stops_chain r \<longleftrightarrow> (case r of Eager st v \<Rightarrow> st = IGNORED \<or> st = REJECTED | GroupRes rs \<Rightarrow> False)"

text \<open>
  Running one task, \<open>Task.apply\<close> with the traced body of the task, is a parameter: it gets the name
  and arguments, and the state \<open>'w\<close> of the world the tasks act on, and gives a result or raises.
\<close>

type_synonym 'w runner = "string \<Rightarrow> val list \<Rightarrow> (string, val) dict \<Rightarrow> 'w \<Rightarrow> (err + eres) \<times> 'w"

type_synonym ('a, 'w) em = "'w \<Rightarrow> (err + 'a) \<times> 'w"

definition em_ret :: "'a \<Rightarrow> ('a, 'w) em" where
  "em_ret x w = (Inr x, w)"

definition em_raise :: "err \<Rightarrow> ('a, 'w) em" where
  "em_raise e w = (Inl e, w)"

definition em_lift :: "err + 'a \<Rightarrow> ('a, 'w) em" where
  "em_lift r w = (r, w)"

definition em_bind :: "('a, 'w) em \<Rightarrow> ('a \<Rightarrow> ('b, 'w) em) \<Rightarrow> ('b, 'w) em" where
  "em_bind m f w = (case m w of (Inl e, w') \<Rightarrow> (Inl e, w') | (Inr x, w') \<Rightarrow> f x w')"

lemma em_bind_cong [fundef_cong]:
  "m = m' \<Longrightarrow> (\<And>x. f x = f' x) \<Longrightarrow> em_bind m f = em_bind m' f'"
  by (auto simp: em_bind_def fun_eq_iff split: prod.splits sum.splits)

lemma nodes_pos [simp]: "0 < nodes s"
  by (cases s) auto

lemma nodes_frozen_clone [simp]: "nodes (freeze_shape (clone0 s)) \<le> nodes s"
  using nodes_freeze_shape [of "clone0 s"] by simp

lemma nodes_group_tasks [simp]: "is_Group s \<Longrightarrow> sum_list (map nodes (tasks s)) < nodes s + n"
  by (cases s) auto

lemma nodes_frozen_clone_add [simp]:
  "nodes (freeze_shape (clone0 s)) < nodes s + n \<or> nodes (freeze_shape (clone0 s)) = nodes s + n"
  using nodes_frozen_clone [of s] by linarith

function apply_sig :: "'w runner \<Rightarrow> sig \<Rightarrow> val list \<Rightarrow> (string, val) dict \<Rightarrow> (eres option, 'w) em"
  and apply_chain :: "'w runner \<Rightarrow> sig list \<Rightarrow> eres option \<Rightarrow> val list \<Rightarrow> (string, val) dict \<Rightarrow> (eres option, 'w) em"
  and apply_group :: "'w runner \<Rightarrow> sig list \<Rightarrow> val list \<Rightarrow> (string, val) dict \<Rightarrow> (eres list, 'w) em" where
  "apply_sig run (Task n a0 k0 op i) a k =
     em_bind (run n (merge_args i False a a0) (merge_kwargs i False k k0)) (\<lambda>r. em_ret (Some r))"
| "apply_sig run (Chain ts op i) a k = apply_chain run ts None a k"
| "apply_sig run (Group ts op) a k = em_bind (apply_group run ts a k) (\<lambda>rs. em_ret (Some (GroupRes rs)))"
| "apply_sig run (Chord h b a0 k0 op i) a k =
     (case b of
        None \<Rightarrow> em_raise (CanvasError AttributeError)
      | Some bd \<Rightarrow> em_bind (apply_group run h a k) (\<lambda>rs.
          em_bind (em_lift (get_result (GroupRes rs))) (\<lambda>v. apply_sig run bd [v] [])))"
| "apply_chain run [] prev a k = em_ret prev"
| "apply_chain run (t # ts) prev a k =
     (if is_empty_group t \<and> (ts \<noteq> [] \<or> prev \<noteq> None) then apply_chain run ts prev a k
      else em_bind (case prev of None \<Rightarrow> em_ret a | Some r \<Rightarrow> em_bind (em_lift (get_result r)) (\<lambda>v. em_ret [v])) (\<lambda>a'.
        em_bind (apply_sig run (clone0 t) a' k) (\<lambda>res.
          case res of
            None \<Rightarrow> em_raise (CanvasError AttributeError)
          | Some r \<Rightarrow> if stops_chain r then em_ret (Some r) else apply_chain run ts (Some r) [] [])))"
| "apply_group run [] a k = em_ret []"
| "apply_group run (t # ts) a k =
     em_bind (if is_Group t then apply_group run (tasks t) a k
              else if is_Chain t \<and> tasks t = [] then em_ret []
              else em_bind (apply_sig run (freeze_shape (clone0 t)) a k) (\<lambda>res.
                case res of None \<Rightarrow> em_raise (CanvasError IndexError) | Some r \<Rightarrow> em_ret [r])) (\<lambda>rs.
     em_bind (apply_group run ts a k) (\<lambda>rs'. em_ret (rs @ rs')))"
  by pat_completeness auto
termination
  by (relation "inv_image (less_than <*lex*> less_than) (\<lambda>x. case x of
     Inl (run, s, a, k) \<Rightarrow> (nodes s, 0::nat)
   | Inr (Inl (run, ts, prev, a, k)) \<Rightarrow> (sum_list (map nodes ts), 1)
   | Inr (Inr (run, ts, a, k)) \<Rightarrow> (sum_list (map nodes ts), 1))") auto

end
