(* ===== verification/Canvas_Compose.thy ===== *)
theory Canvas_Compose
  imports Canvas
begin

text \<open>
  The chaining operator against its specification. Local evaluation gives each signature a meaning, a
  function from arguments to a result and an effect on the world; \<open>a | b\<close>, whatever rewriting it goes
  through, means the sequential composition of the two, is therefore associative, and \<open>chain(*tasks)\<close>
  means its tasks one after the other. Callbacks linked to signatures are not part of this meaning:
  the theorems speak of signatures without them.
\<close>

section \<open>Evaluation forgets options and flags\<close>

fun strip :: "sig \<Rightarrow> sig" where
  "strip (Task n a k op i) = Task n a k no_options i"
| "strip (Chain ts op i) = Chain (map strip ts) no_options False"
| "strip (Group ts op) = Group (map strip ts) no_options"
| "strip (Chord h b a k op i) = Chord (map strip h) (map_option strip b) [] [] no_options False"

lemma strip_clone0 [simp]: "strip (clone0 s) = strip s"
proof (induction s rule: clone0.induct)
  case (4 h b a k op i)
  then show ?case by (cases b) auto
qed auto

lemma clone0_strip [simp]: "clone0 (strip s) = strip s"
proof (induction s rule: strip.induct)
  case (4 h b a k op i)
  then show ?case by (cases b) auto
qed (auto simp: init_options_def init_immutable_def truthy_def)

lemma strip_kind [simp]:
  "is_Task (strip s) = is_Task s" "is_Chain (strip s) = is_Chain s"
  "is_Group (strip s) = is_Group s" "is_Chord (strip s) = is_Chord s"
  by (cases s; simp)+

lemma is_empty_group_strip [simp]: "is_empty_group (strip s) = is_empty_group s" "is_empty_group (clone0 s) = is_empty_group s"
  by (cases s; simp add: is_empty_group_def)+

lemma concat_map_cong: "(\<And>x. x \<in> set xs \<Longrightarrow> f x = g x) \<Longrightarrow> concat (map f xs) = concat (map g xs)"
  by (simp cong: map_cong)

lemma unroll_frozen_strip: "unroll_frozen (strip s) = map strip (unroll_frozen s)"
proof (induction s rule: unroll_frozen.induct)
  case (1 us op)
  have "concat (map (unroll_frozen \<circ> strip) (rev us)) = concat (map (map strip \<circ> unroll_frozen) (rev us))"
    using 1 by (intro concat_map_cong) simp
  then show ?case by (simp add: rev_map map_concat)
qed auto

lemma unroll_all_strip: "concat (map unroll_frozen (map strip ts)) = map strip (concat (map unroll_frozen ts))"
  by (simp add: map_concat comp_def unroll_frozen_strip)

lemma freeze_shape_strip: "freeze_shape (strip s) = strip (freeze_shape s)"
proof (induction s rule: freeze_shape.induct)
  case (2 ts op)
  then show ?case unfolding freeze_shape.simps strip.simps unroll_all_strip
    by (auto simp del: set_concat intro!: map_cong)
next
  case (3 ts op i)
  let ?f = "\<lambda>t. case t of Group [u] gop \<Rightarrow> Group [freeze_shape u] gop | _ \<Rightarrow> freeze_shape t"
  have "?f (strip t) = strip (?f t)" if t: "t \<in> set ts" for t
  proof (cases "\<exists>u gop. t = Group [u] gop")
    case True
    then show ?thesis using 3(4) [OF t] by auto
  next
    case False
    then have "?f t = freeze_shape t" "?f (strip t) = freeze_shape (strip t)"
      by (cases t; force split: sig.splits list.splits)+
    moreover have "freeze_shape (strip t) = strip (freeze_shape t)"
      using 3 [OF t] False by (cases t rule: sig.exhaust; cases "tasks t" rule: remdups_adj.cases) auto
    ultimately show ?thesis by simp
  qed
  then show ?case by simp
next
  case (4 h b a k op i)
  then show ?case unfolding freeze_shape.simps strip.simps unroll_all_strip
    by (cases b) (auto simp del: set_concat intro!: map_cong)
qed auto


lemma apply_strip:
  "apply_sig run (strip s) = apply_sig run s"
  "apply_chain run (map strip ts) = apply_chain run ts"
  "apply_group run (map strip ts) = apply_group run ts"
proof -
  have "apply_sig run (strip s) a k = apply_sig run s a k"
    "apply_chain run (map strip ts) prev a k = apply_chain run ts prev a k"
    "apply_group run (map strip ts) a k = apply_group run ts a k" for a k prev
  proof (induction run s a k and run ts prev a k and run ts a k rule: apply_sig_apply_chain_apply_group.induct)
    case (4 run h b a0 k0 op i a k)
    then show ?case by (cases b) (auto intro!: em_bind_cong)
  next
    case (6 run t ts prev a k)
    show ?case
    proof (cases "is_empty_group t \<and> (ts \<noteq> [] \<or> prev \<noteq> None)")
      case True
      then show ?thesis using "6.IH"(1) by (simp add: apply_chain.simps)
    next
      case False
      then show ?thesis using "6.IH"(2,3) [OF False]
        by (auto simp: apply_chain.simps intro!: em_bind_cong split: option.splits)
    qed
  next
    case (8 run t ts a k)
    have "tasks (strip t) = map strip (tasks t)" if "is_Group t \<or> is_Chain t" using that by (cases t) auto
    moreover have "freeze_shape (strip t) = strip (freeze_shape (clone0 t))"
      using freeze_shape_strip [of "clone0 t"] by simp
    ultimately show ?case using 8 by (auto simp: apply_group.simps intro!: em_bind_cong)
  qed auto
  then show "apply_sig run (strip s) = apply_sig run s" "apply_chain run (map strip ts) = apply_chain run ts"
    "apply_group run (map strip ts) = apply_group run ts" by (auto simp: fun_eq_iff)
qed

lemma apply_clone0 [simp]: "apply_sig run (clone0 s) = apply_sig run s"
  using apply_strip(1) [of run "clone0 s"] apply_strip(1) [of run s] by simp

lemma apply_group_clone0 [simp]: "apply_group run (map clone0 ts) = apply_group run ts"
  using apply_strip(3) [of run "map clone0 ts"] apply_strip(3) [of run ts] by (simp add: comp_def)

lemma apply_chain_clone0 [simp]: "apply_chain run (map clone0 ts) = apply_chain run ts"
  using apply_strip(2) [of run "map clone0 ts"] apply_strip(2) [of run ts] by (simp add: comp_def)

section \<open>Sequential composition\<close>

text \<open>
  The specification of \<open>|\<close>: run the first signature; an ignored or rejected result ends the
  composition and is its result, a failure is raised, and any other result becomes the only
  argument of the second signature.
\<close>

type_synonym 'w meaning = "val list \<Rightarrow> (string, val) dict \<Rightarrow> (eres option, 'w) em"

definition then_run :: "'w meaning \<Rightarrow> 'w meaning \<Rightarrow> 'w meaning" where
  "then_run f g a k = em_bind (f a k) (\<lambda>res. case res of
     None \<Rightarrow> em_raise (CanvasError AttributeError)
   | Some r \<Rightarrow> if stops_chain r then em_ret (Some r)
               else em_bind (em_lift (get_result r)) (\<lambda>v. g [v] []))"

definition gives_result :: "'w meaning \<Rightarrow> bool" where
  "gives_result f \<longleftrightarrow> (\<forall>a k w. fst (f a k w) \<noteq> Inr None)"

lemma em_bind_assoc: "em_bind (em_bind m f) g = em_bind m (\<lambda>x. em_bind (f x) g)"
  by (auto simp: em_bind_def fun_eq_iff split: prod.splits sum.splits)

lemma em_bind_ret [simp]: "em_bind (em_ret x) f = f x" "em_bind m em_ret = m" "em_bind (em_raise e) f = em_raise e"
  by (auto simp: em_bind_def em_ret_def em_raise_def fun_eq_iff split: prod.splits sum.splits)

lemma then_run_assoc: "then_run (then_run f g) h = then_run f (then_run g h)"
  by (auto simp: then_run_def fun_eq_iff em_bind_assoc intro!: em_bind_cong [THEN fun_cong] split: option.splits)

lemma then_run_gives_result: "gives_result g \<Longrightarrow> gives_result (then_run f g)"
  by (auto simp: gives_result_def then_run_def em_bind_def em_ret_def em_raise_def em_lift_def
      split: prod.splits sum.splits option.splits if_splits) 

definition step_ok :: "'w runner \<Rightarrow> sig \<Rightarrow> bool" where
  "step_ok run t \<longleftrightarrow> \<not> is_empty_group t \<and> gives_result (apply_sig run t)"

lemma apply_Chain [simp]: "apply_sig run (Chain ts op i) = apply_chain run ts None"
  by (simp add: fun_eq_iff)

lemma em_bind_result:
  assumes "gives_result f" and "\<And>r. g (Some r) = h (Some r)"
  shows "em_bind (f a k) g = em_bind (f a k) h"
proof
  fix w
  have "fst (f a k w) \<noteq> Inr None" using assms(1) by (simp add: gives_result_def)
  moreover obtain res w' where "f a k w = (res, w')" by (cases "f a k w")
  ultimately show "em_bind (f a k) g w = em_bind (f a k) h w"
    using assms(2) by (cases res rule: sum.exhaust) (auto simp: em_bind_def)
qed

lemma apply_chain_one:
  assumes "step_ok run t"
  shows "apply_chain run [t] None = apply_sig run t"
proof -
  have "apply_chain run [t] None a k = em_bind (apply_sig run t a k) em_ret" for a k
    using assms by (auto simp: apply_chain.simps step_ok_def simp del: em_bind_ret(2) intro!: em_bind_result)
  then show ?thesis by (simp add: fun_eq_iff)
qed

lemma apply_chain_some:
  assumes "ts \<noteq> []" and "\<not> is_empty_group (hd ts)"
  shows "apply_chain run ts (Some r) a k = em_bind (em_lift (get_result r)) (\<lambda>v. apply_chain run ts None [v] k)"
  using assms by (cases ts) (auto simp: apply_chain.simps em_bind_assoc)

lemma apply_chain_cons:
  assumes "step_ok run t" and "ts \<noteq> []" and "\<not> is_empty_group (hd ts)"
  shows "apply_chain run (t # ts) None = then_run (apply_sig run t) (apply_chain run ts None)"
  using assms by (auto simp: fun_eq_iff then_run_def apply_chain.simps apply_chain_some step_ok_def
      intro!: em_bind_cong [THEN fun_cong] split: option.splits)

lemma apply_chain_append:
  assumes "\<forall>t \<in> set ts. step_ok run t" and "ts \<noteq> []" and "us \<noteq> []" and "\<not> is_empty_group (hd us)"
  shows "apply_chain run (ts @ us) None = then_run (apply_chain run ts None) (apply_chain run us None)"
  using assms(1,2)
proof (induction ts)
  case (Cons t ts)
  show ?case
  proof (cases "ts = []")
    case True
    then show ?thesis using Cons.prems assms(3,4) by (simp add: apply_chain_one apply_chain_cons)
  next
    case False
    have "apply_chain run (t # ts @ us) None = then_run (apply_sig run t) (apply_chain run (ts @ us) None)"
      using Cons.prems False by (intro apply_chain_cons) (auto simp: step_ok_def hd_append)
    moreover have "apply_chain run (t # ts) None = then_run (apply_sig run t) (apply_chain run ts None)"
      using Cons.prems False by (intro apply_chain_cons) (auto simp: step_ok_def)
    ultimately show ?thesis using Cons.IH [OF _ False] Cons.prems by (simp add: then_run_assoc)
  qed
qed simp

lemma apply_Chord: "apply_sig run (Chord h (Some b) a k op i) = then_run (apply_sig run (Group h op')) (apply_sig run b)"
  by (simp add: fun_eq_iff then_run_def em_bind_assoc stops_chain_def)

section \<open>The operator is sequential composition\<close>

text \<open>
  Signatures without callbacks, and regular ones: chains have steps, a step of a chain is not a group
  of fewer than two tasks (which \<open>|\<close> would unroll or skip), and a chord has a body.
\<close>

fun unlinked :: "sig \<Rightarrow> bool" where
  "unlinked (Task n a k op i) \<longleftrightarrow> link_opt op = None \<and> link_error_opt op = None"
| "unlinked (Chain ts op i) \<longleftrightarrow> link_opt op = None \<and> link_error_opt op = None \<and> list_all unlinked ts"
| "unlinked (Group ts op) \<longleftrightarrow> link_opt op = None \<and> link_error_opt op = None \<and> list_all unlinked ts"
| "unlinked (Chord h b a k op i) \<longleftrightarrow> link_opt op = None \<and> link_error_opt op = None \<and> list_all unlinked h
     \<and> (case b of None \<Rightarrow> True | Some bd \<Rightarrow> unlinked bd)"

definition big :: "sig \<Rightarrow> bool" where
  "big s \<longleftrightarrow> (is_Group s \<longrightarrow> 2 \<le> length (tasks s))"

fun regular :: "sig \<Rightarrow> bool" where
  "regular (Task n a k op i) \<longleftrightarrow> True"
| "regular (Chain ts op i) \<longleftrightarrow> ts \<noteq> [] \<and> list_all (\<lambda>t. regular t \<and> big t) ts"
| "regular (Group ts op) \<longleftrightarrow> True"
| "regular (Chord h b a k op i) \<longleftrightarrow> (case b of None \<Rightarrow> False | Some bd \<Rightarrow> regular bd)"

lemma link_opt_init_options [simp]:
  "link_opt (init_options op) = link_opt op" "link_error_opt (init_options op) = link_error_opt op"
  by (cases op; simp add: init_options_def)+

lemma unlinked_clone0 [simp]: "unlinked (clone0 s) = unlinked s"
proof (induction s rule: clone0.induct)
  case (4 h b a k op i)
  then show ?case by (cases b) (auto simp: list_all_iff)
qed (auto simp: list_all_iff)

lemma big_clone0 [simp]: "big (clone0 s) = big s"
  by (cases s) (auto simp: big_def)

lemma regular_clone0 [simp]: "regular (clone0 s) = regular s"
proof (induction s rule: clone0.induct)
  case (4 h b a k op i)
  then show ?case by (cases b) auto
qed (auto simp: list_all_iff)

lemma unchain_unlinked:
  "unlinked (Chain ts op i) \<Longrightarrow> unchain_tasks allow ts op = Inr (map clone0 ts)"
  by (simp add: unchain_tasks_def option_list_def)

lemma big_not_empty: "big s \<Longrightarrow> \<not> is_empty_group s"
  by (auto simp: big_def is_empty_group_def)

lemma gives_result_Group [simp]: "gives_result (apply_sig run (Group ts op))"
  by (auto simp: gives_result_def em_bind_def em_ret_def split: prod.splits sum.splits)

lemma regular_gives_result: "regular s \<Longrightarrow> gives_result (apply_sig run s)"
proof (induction s rule: regular.induct)
  case (1 n a k op i)
  then show ?case by (auto simp: gives_result_def em_bind_def em_ret_def split: prod.splits sum.splits)
next
  case (2 ts op i)
  have ok: "\<forall>t \<in> set ts. step_ok run t" using 2 by (auto simp: step_ok_def list_all_iff big_not_empty)
  obtain us t where ts: "ts = us @ [t]" using 2 by (cases ts rule: rev_cases) auto
  show ?case
  proof (cases "us = []")
    case True
    then show ?thesis using ok ts by (simp add: apply_chain_one step_ok_def)
  next
    case False
    then show ?thesis using ok ts apply_chain_append [of us run "[t]"]
      by (simp add: apply_chain_one step_ok_def then_run_gives_result)
  qed
next
  case (4 h b a k op i)
  then show ?case by (cases b) (auto simp: apply_Chord [of _ _ _ _ _ _ _ no_options] intro: then_run_gives_result)
qed simp

lemma regular_steps: "regular (Chain ts op i) \<Longrightarrow> \<forall>t \<in> set ts. step_ok run t"
  by (auto simp: step_ok_def list_all_iff big_not_empty regular_gives_result)

definition canvas_ok :: "sig \<Rightarrow> bool" where
  "canvas_ok s \<longleftrightarrow> regular s \<and> unlinked s"

definition composes :: "'w runner \<Rightarrow> sig result \<Rightarrow> sig \<Rightarrow> sig \<Rightarrow> bool" where
  "composes run r a b \<longleftrightarrow> (\<exists>s. r = Inr s \<and> canvas_ok s \<and> big s
     \<and> apply_sig run s = then_run (apply_sig run a) (apply_sig run b))"

definition after :: "'w runner \<Rightarrow> sig list \<Rightarrow> 'w meaning \<Rightarrow> 'w meaning" where
  "after run xs f = (if xs = [] then f else then_run (apply_chain run xs None) f)"

lemma after_then: "then_run (after run xs f) g = after run xs (then_run f g)"
  by (simp add: after_def then_run_assoc)

lemma apply_chain_snoc:
  assumes "\<forall>t \<in> set xs. step_ok run t" and "step_ok run x"
  shows "apply_chain run (xs @ [x]) None = after run xs (apply_sig run x)"
  using assms apply_chain_append [of xs run "[x]"] by (auto simp: after_def apply_chain_one step_ok_def)

lemma canvas_ok_step: "canvas_ok s \<Longrightarrow> big s \<Longrightarrow> step_ok run s"
  by (simp add: canvas_ok_def step_ok_def big_not_empty regular_gives_result)

lemma canvas_ok_Chain: "canvas_ok (Chain ts op i) \<longleftrightarrow> ts \<noteq> [] \<and> (\<forall>t \<in> set ts. canvas_ok t \<and> big t)
    \<and> link_opt op = None \<and> link_error_opt op = None"
  by (auto simp: canvas_ok_def list_all_iff)

lemma canvas_ok_clone0 [simp]: "canvas_ok (clone0 s) = canvas_ok s"
  by (simp add: canvas_ok_def)

lemma big_simps [simp]: "big (Task n a k op i)" "big (Chain ts op i)" "big (Chord h b a k op i)" "big (make_chord ts s)"
  by (auto simp: big_def make_chord_def)

lemma signature_or_composes:
  assumes "canvas_ok a" "big a" "canvas_ok b" "big b"
  shows "composes run (signature_or allow a b) a b"
proof -
  have a: "step_ok run a" and b: "step_ok run b" using assms by (auto simp: canvas_ok_step)
  have two: "composes run (Inr (Chain [a, b] no_options False)) a b"
    using assms a b by (simp add: composes_def canvas_ok_Chain apply_chain_cons apply_chain_one step_ok_def)
  show ?thesis
  proof (cases b)
    case (Chain ts op i)
    then have ts: "ts \<noteq> []" "\<forall>t \<in> set ts. canvas_ok t \<and> big t" "unlinked b"
      using assms(3) by (auto simp: canvas_ok_Chain list_all_iff canvas_ok_def)
    have "\<not> is_empty_group (hd (map clone0 ts))" using ts by (simp add: hd_map big_not_empty)
    then have "apply_chain run (a # map clone0 ts) None = then_run (apply_sig run a) (apply_sig run b)"
      using apply_chain_cons [OF a, of "map clone0 ts"] ts Chain by simp
    then show ?thesis using assms ts Chain
      by (auto simp: composes_def signature_or_def unchain_unlinked [of ts op i] canvas_ok_Chain)
  next
    case (Group ts op)
    then show ?thesis using two assms(4) by (auto simp: signature_or_def maybe_unroll_group_def big_def split: list.splits)
  qed (use two in \<open>auto simp: signature_or_def\<close>)
qed

lemma chord_body_composes:
  assumes c: "canvas_ok c" "is_Chord c" and bd: "body c = Some bd" and s: "canvas_ok s"
    and m: "apply_sig run s = then_run (apply_sig run bd) f"
  shows "canvas_ok (set_body s c)" and "big (set_body s c)" and "apply_sig run (set_body s c) = then_run (apply_sig run c) f"
proof -
  obtain h a k op i where c': "c = Chord h (Some bd) a k op i" using c(2) bd by (cases c) auto
  show "canvas_ok (set_body s c)" "big (set_body s c)" using c(1) s by (auto simp: c' set_body_def canvas_ok_def)
  show "apply_sig run (set_body s c) = then_run (apply_sig run c) f"
    using m by (simp add: c' set_body_def apply_Chord [of run _ _ _ _ _ _ no_options] then_run_assoc)
qed

lemma chain_last_replaced:
  assumes ok: "canvas_ok (Chain (xs @ [x]) op i)" and y: "canvas_ok y" "big y"
    and m: "apply_sig run y = then_run (apply_sig run x) f"
    and op: "link_opt op' = None" "link_error_opt op' = None"
  shows "canvas_ok (Chain (map clone0 xs @ [y]) op' i')"
    and "apply_sig run (Chain (map clone0 xs @ [y]) op' i') = then_run (apply_sig run (Chain (xs @ [x]) op i)) f"
proof -
  have xs: "\<forall>t \<in> set xs. step_ok run t" "step_ok run x" "step_ok run y"
    using ok y by (auto simp: canvas_ok_Chain canvas_ok_step)
  show "canvas_ok (Chain (map clone0 xs @ [y]) op' i')" using ok y op by (auto simp: canvas_ok_Chain)
  have "\<forall>t \<in> set (map clone0 xs). step_ok run t" using xs(1) by (simp add: step_ok_def)
  then have "apply_chain run (map clone0 xs @ [y]) None = after run xs (apply_sig run y)"
    using xs(3) by (simp add: apply_chain_snoc) (simp add: after_def)
  then show "apply_sig run (Chain (map clone0 xs @ [y]) op' i') = then_run (apply_sig run (Chain (xs @ [x]) op i)) f"
    using xs m by (simp add: apply_chain_snoc after_then)
qed

lemma chain_extended:
  assumes "canvas_ok (Chain ts op i)" and "canvas_ok b" "big b"
  shows "composes run (Inr (Chain (map clone0 ts @ [b]) no_options False)) (Chain ts op i) b"
proof -
  have ts: "\<forall>t \<in> set (map clone0 ts). step_ok run t" "step_ok run b" "ts \<noteq> []"
    using assms by (auto simp: canvas_ok_Chain canvas_ok_step)
  have "apply_chain run (map clone0 ts @ [b]) None = then_run (apply_chain run ts None) (apply_sig run b)"
    using ts by (simp add: apply_chain_snoc after_def)
  then show ?thesis using assms by (auto simp: composes_def canvas_ok_Chain)
qed

lemma make_chord_ok: "canvas_ok b \<Longrightarrow> list_all unlinked ts \<Longrightarrow> canvas_ok (make_chord ts b)"
  by (simp add: canvas_ok_def make_chord_def)

lemma make_chord_meaning: "apply_sig run (make_chord ts b) = then_run (apply_sig run (Group ts op)) (apply_sig run b)"
  by (simp add: make_chord_def apply_Chord [of run _ _ _ _ _ _ op])

lemma fold_composes:
  assumes IH: "\<And>a t. t \<in> set us \<Longrightarrow> canvas_ok a \<Longrightarrow> big a \<Longrightarrow> composes run (or_sig allow a t) a t"
    and "us \<noteq> []" and "\<forall>t \<in> set us. canvas_ok t \<and> big t" and "canvas_ok a" "big a"
  shows "composes run (res_fold (\<lambda>t acc. or_sig allow acc t) us a) a (Chain us op i)"
  using assms
proof (induction us arbitrary: a)
  case (Cons t us)
  obtain s where s: "or_sig allow a t = Inr s" "canvas_ok s" "big s" "apply_sig run s = then_run (apply_sig run a) (apply_sig run t)"
    using Cons.prems(1) [of t a] Cons.prems(4,5) by (auto simp: composes_def)
  have t: "step_ok run t" using Cons.prems by (simp add: canvas_ok_step)
  show ?case
  proof (cases "us = []")
    case True
    then show ?thesis using s t by (simp add: composes_def apply_chain_one)
  next
    case False
    have "composes run (res_fold (\<lambda>t acc. or_sig allow acc t) us s) s (Chain us op i)"
      using Cons.IH [of s] Cons.prems s False by auto
    moreover have "apply_chain run (t # us) None = then_run (apply_sig run t) (apply_chain run us None)"
      using False t Cons.prems by (intro apply_chain_cons) (auto simp: big_not_empty)
    ultimately show ?thesis using s by (auto simp: composes_def then_run_assoc)
  qed
qed simp

lemma chord_body_ok:
  assumes "canvas_ok c" and "is_Chord c"
  obtains bd where "body (clone0 c) = Some bd" "canvas_ok bd" "nodes bd < nodes c"
proof -
  obtain h bd a k op i where c: "c = Chord h (Some bd) a k op i" "canvas_ok bd"
    using assms by (cases c) (auto simp: canvas_ok_def split: option.splits)
  show ?thesis by (rule that [of "clone0 bd"]) (use c in auto)
qed

lemma chain_chord_last:
  assumes ok: "canvas_ok (Chain (xs @ [x]) op i)" and x: "is_Chord x" "body (clone0 x) = Some bd"
    and IH: "composes run (or_sig allow bd b) bd b"
    and op: "link_opt op' = None" "link_error_opt op' = None"
  shows "composes run (res_bind (or_sig allow bd b) (\<lambda>bd'. Inr (Chain (map clone0 xs @ [set_body bd' (clone0 x)]) op' i')))
     (Chain (xs @ [x]) op i) b"
proof -
  obtain s where s: "or_sig allow bd b = Inr s" "canvas_ok s" "apply_sig run s = then_run (apply_sig run bd) (apply_sig run b)"
    using IH by (auto simp: composes_def)
  have "canvas_ok (clone0 x)" using ok by (simp add: canvas_ok_Chain)
  note c = chord_body_composes [OF this _ x(2) s(2,3)]
  have "canvas_ok (set_body s (clone0 x))" "big (set_body s (clone0 x))" using c x(1) by auto
  note r = chain_last_replaced [OF ok this, of run "apply_sig run b" op' i']
  show ?thesis using r c x(1) s(1) op by (auto simp: composes_def)
qed

lemma chain_group_last:
  assumes ok: "canvas_ok (Chain (xs @ [Group gts gop]) op i)" and xs: "xs \<noteq> []"
    and r: "composes run r (Chain xs op i) (make_chord gts b)"
  shows "composes run r (Chain (xs @ [Group gts gop]) op i) b"
proof -
  have "\<forall>t \<in> set xs. step_ok run t" "step_ok run (Group gts gop)" using ok by (auto simp: canvas_ok_Chain canvas_ok_step)
  then have "apply_chain run (xs @ [Group gts gop]) None = then_run (apply_chain run xs None) (apply_sig run (Group gts gop))"
    using xs by (simp only: apply_chain_snoc after_def) simp
  then show ?thesis using r by (simp only: composes_def apply_Chain make_chord_meaning [of run gts b gop] then_run_assoc)
qed

lemma chain_or_simple_composes:
  assumes a: "a = Chain (xs @ [x]) op i" "canvas_ok a" and b: "canvas_ok b" "is_Task b \<or> is_Chord b"
    and IH: "\<And>bd b'. right_rank b' = 0 \<Longrightarrow> nodes bd < nodes a \<Longrightarrow> canvas_ok bd \<Longrightarrow> canvas_ok b' \<Longrightarrow> big b' \<Longrightarrow>
        composes run (or_sig allow bd b') bd b'"
  shows "composes run (or_sig allow a b) a b"
proof -
  have rank: "right_rank b = 0" and big: "big b" using b(2) by (cases b; simp)+
  have kind: "\<not> is_Chain b" "\<not> is_Group b" using b(2) by (cases b; simp)+
  have unl: "unchain_tasks allow (xs @ [x]) op = Inr (map clone0 (xs @ [x]))"
    using a by (intro unchain_unlinked [of _ _ i]) (simp add: canvas_ok_def)
  have ok: "canvas_ok (Chain (xs @ [x]) op i)" "canvas_ok x" "link_opt op = None" "link_error_opt op = None"
    using a by (auto simp: canvas_ok_Chain)
  have nx: "nodes x < nodes a" "\<And>y. y \<in> set xs \<Longrightarrow> nodes y < nodes a" using a(1) member_nodes [of _ "xs @ [x]"] by auto
  consider (grp) "is_Group x" | (chd) "is_Chord x" "\<not> is_Chord b" | (rest) "\<not> is_Group x" "\<not> (is_Chord x \<and> \<not> is_Chord b)" by blast
  then show ?thesis
  proof cases
    case chd
    then obtain bd where bd: "body (clone0 x) = Some bd" "canvas_ok bd" "nodes bd < nodes x" using chord_body_ok ok(2) by blast
    have "\<not> is_Group x" using chd(1) by (cases x) auto
    then have eq: "or_sig allow a b = res_bind (or_sig allow bd b) (\<lambda>bd'.
        Inr (Chain (map clone0 xs @ [set_body bd' (clone0 x)]) (init_options op) (init_immutable op)))"
      using a(1) b(2) chd bd by (cases b) (auto simp: or_sig.simps [of allow "Chain (xs @ [x]) op i"])
    have "composes run (or_sig allow bd b) bd b" using IH bd nx rank b(1) big by auto
    then have "composes run (or_sig allow a b) (Chain (xs @ [x]) op i) b"
      unfolding eq by (intro chain_chord_last ok(1) chd(1) bd(1)) (simp_all add: ok)
    then show ?thesis by (simp add: a(1))
  next
    case rest
    then have "or_sig allow a b = Inr (Chain (map clone0 (xs @ [x]) @ [b]) no_options False)"
      using a(1) b(2) unl by (cases b) (auto simp: or_sig.simps [of allow "Chain (xs @ [x]) op i"])
    then show ?thesis using chain_extended [OF ok(1) b(1) big] a(1) by simp
  next
    case grp
    then obtain gts gop where x: "x = Group gts gop" by (cases x) auto
    have ch: "canvas_ok (make_chord gts b)" using b(1) ok(2) x by (intro make_chord_ok) (auto simp: canvas_ok_def)
    show ?thesis
    proof (cases "xs \<noteq> [] \<and> is_Chord (last xs)")
      case True
      then obtain ys p where xs: "xs = ys @ [p]" and p: "is_Chord p" by (cases xs rule: rev_cases) auto
      have okp: "canvas_ok p" "canvas_ok (Chain (ys @ [p]) op i)" using ok xs by (auto simp: canvas_ok_Chain)
      then obtain bd where bd: "body (clone0 p) = Some bd" "canvas_ok bd" "nodes bd < nodes p" using chord_body_ok p by blast
      have eq: "or_sig allow a b = res_bind (or_sig allow bd (make_chord gts b)) (\<lambda>bd'.
          Inr (Chain (map clone0 ys @ [set_body bd' (clone0 p)]) (init_options op) (init_immutable op)))"
        using a(1) b(2) x xs p bd
        by (cases b) (auto simp: or_sig.simps [of allow "Chain (ys @ [p, Group gts gop]) op i"] Let_def butlast_append)
      have "composes run (or_sig allow bd (make_chord gts b)) bd (make_chord gts b)" using IH bd nx(2) [of p] xs ch by auto
      then have "composes run (or_sig allow a b) (Chain xs op i) (make_chord gts b)"
        unfolding eq xs by (intro chain_chord_last okp p bd(1)) (simp_all add: ok)
      then have "composes run (or_sig allow a b) (Chain (xs @ [x]) op i) b"
        using chain_group_last ok(1) True unfolding x by blast
      then show ?thesis by (simp add: a(1))
    next
      case False
      then have eq: "or_sig allow a b = Inr (Chain (map clone0 xs @ [make_chord gts b]) (init_options op) (init_immutable op))"
        unfolding a(1) x using b(2)
        by (cases b) (auto simp: or_sig.simps [of allow "Chain (xs @ [Group gts gop]) op i"] Let_def butlast_append last_map)
      show ?thesis unfolding composes_def eq
        using a(1) chain_last_replaced [OF ok(1) ch, of run "apply_sig run b"] make_chord_meaning [of run gts b gop] ok x
        by simp
    qed
  qed
qed

lemma chain_or_chain_composes:
  assumes a: "canvas_ok (Chain ts op i)" and b: "canvas_ok (Chain os oop oi)"
    and IH: "\<And>a' t. right_rank t < nodes (Chain os oop oi) \<Longrightarrow> canvas_ok a' \<Longrightarrow> canvas_ok t \<Longrightarrow> big t \<Longrightarrow>
        composes run (or_sig allow a' t) a' t"
  shows "composes run (or_sig allow (Chain ts op i) (Chain os oop oi)) (Chain ts op i) (Chain os oop oi)"
proof -
  have os: "os \<noteq> []" "\<forall>t \<in> set os. canvas_ok t \<and> big t" using b by (auto simp: canvas_ok_Chain)
  have un: "unchain_tasks allow os oop = Inr (map clone0 os)"
    using b by (intro unchain_unlinked [of _ _ oi]) (simp add: canvas_ok_def)
  have eq: "or_sig allow (Chain ts op i) (Chain os oop oi) = res_fold (\<lambda>t acc. or_sig allow acc t) (map clone0 os) (Chain ts op i)"
    using un by (simp add: or_sig.simps [of allow "Chain ts op i"])
  have "right_rank t < nodes (Chain os oop oi)" if "t \<in> set (map clone0 os)" for t
    using right_rank_le [of t] unchain_member_nodes [OF un that] by simp
  then have "composes run (or_sig allow (Chain ts op i) (Chain os oop oi)) (Chain ts op i) (Chain (map clone0 os) oop oi)"
    unfolding eq using IH os a by (intro fold_composes) auto
  then show ?thesis by (simp add: composes_def)
qed

lemma chain_or_group_composes:
  assumes a: "canvas_ok (Chain (xs @ [x]) op i)" and b: "canvas_ok (Group os oop)" "big (Group os oop)"
    and IH: "\<And>bd. nodes bd < nodes x \<Longrightarrow> canvas_ok bd \<Longrightarrow> composes run (or_sig allow bd (Group os oop)) bd (Group os oop)"
  shows "composes run (or_sig allow (Chain (xs @ [x]) op i) (Group os oop)) (Chain (xs @ [x]) op i) (Group os oop)"
proof -
  have un: "unchain_tasks allow (xs @ [x]) op = Inr (map clone0 (xs @ [x]))"
    using a by (intro unchain_unlinked [of _ _ i]) (simp add: canvas_ok_def)
  have x: "canvas_ok x" using a by (auto simp: canvas_ok_Chain)
  show ?thesis
  proof (cases "is_Chord x")
    case True
    obtain bd where bd: "body (clone0 x) = Some bd" "canvas_ok bd" "nodes bd < nodes x" using chord_body_ok [OF x True] .
    have eq: "or_sig allow (Chain (xs @ [x]) op i) (Group os oop) = res_bind (or_sig allow bd (Group os oop)) (\<lambda>bd'.
        Inr (Chain (map clone0 xs @ [set_body bd' (clone0 x)]) no_options False))"
      using b(2) True bd un by (auto simp: or_sig.simps [of allow "Chain (xs @ [x]) op i"] big_def split: list.splits)
    show ?thesis unfolding eq using IH bd by (intro chain_chord_last [OF a True bd(1)]) auto
  next
    case False
    then have "or_sig allow (Chain (xs @ [x]) op i) (Group os oop) = Inr (Chain (map clone0 (xs @ [x]) @ [Group os oop]) no_options False)"
      using b(2) un by (auto simp: or_sig.simps [of allow "Chain (xs @ [x]) op i"] big_def split: list.splits)
    then show ?thesis using chain_extended [OF a b] by simp
  qed
qed

lemma chord_or_composes:
  assumes a: "canvas_ok a" "is_Chord a" and b: "canvas_ok b" "big b"
    and IH: "\<And>bd. nodes bd < nodes a \<Longrightarrow> canvas_ok bd \<Longrightarrow> composes run (or_sig allow bd b) bd b"
  shows "composes run (or_sig allow a b) a b"
proof -
  obtain h bd0 as k op i where a': "a = Chord h bd0 as k op i" using a(2) by (cases a) auto
  note or_chord = or_sig.simps [of allow "Chord h bd0 as k op i"]
  show ?thesis
  proof (cases "is_Chain b \<or> is_Group b")
    case True
    then have "or_sig allow a b = signature_or allow a b"
      using a' b(2) by (cases b) (auto simp: or_chord big_def split: list.splits)
    moreover have "big a" using a' by simp
    ultimately show ?thesis using a b by (simp add: signature_or_composes)
  next
    case False
    obtain bd where bd: "body (clone0 a) = Some bd" "canvas_ok bd" "nodes bd < nodes a" using chord_body_ok [OF a] .
    obtain s where s: "or_sig allow bd b = Inr s" "canvas_ok s" "apply_sig run s = then_run (apply_sig run bd) (apply_sig run b)"
      using IH bd by (auto simp: composes_def)
    have "or_sig allow a b = Inr (set_body s (clone0 a))"
      using False bd(1) s(1) a' by (cases b) (auto simp: or_chord)
    then show ?thesis using chord_body_composes [OF _ _ bd(1) s(2,3)] a by (simp add: composes_def)
  qed
qed

lemma or_composes:
  assumes "canvas_ok a" and "canvas_ok b" and "big b"
  shows "composes run (or_sig allow a b) a b"
  using assms
proof (induction "(right_rank b, nodes a)" arbitrary: a b rule: wf_induct_rule [OF wf_lex_prod [OF wf_less_than wf_less_than]])
  case (1 a b)
  have IH: "composes run (or_sig allow a' b') a' b'"
    if "right_rank b' < right_rank b \<or> right_rank b' = right_rank b \<and> nodes a' < nodes a" "canvas_ok a'" "canvas_ok b'" "big b'" for a' b'
    using 1(1) that by auto
  show ?case
  proof (cases a)
    case (Task n as k op i)
    then show ?thesis using 1(2-4) by (simp add: or_sig.simps [of allow "Task n as k op i"] signature_or_composes)
  next
    case (Group ts op)
    then have "or_sig allow a b = Inr (make_chord ts b)"
      using big_not_empty [OF 1(4)] by (simp add: or_sig.simps [of allow "Group ts op"])
    moreover have "canvas_ok (make_chord ts b)" using 1 Group by (intro make_chord_ok) (auto simp: canvas_ok_def)
    ultimately show ?thesis by (simp add: composes_def Group make_chord_meaning [of run ts b op])
  next
    case (Chord h bd as k op i)
    have "is_Chord a" using Chord by simp
    then show ?thesis using IH 1(2-4) by (blast intro: chord_or_composes [of a b run allow])
  next
    case (Chain ts op i)
    then obtain xs x where ts: "ts = xs @ [x]" using 1(2) by (cases ts rule: rev_cases) (auto simp: canvas_ok_Chain)
    show ?thesis
    proof (cases "is_Task b \<or> is_Chord b")
      case True
      have "right_rank b = 0" using True by (cases b) auto
      then show ?thesis using IH Chain ts True by (intro chain_or_simple_composes [OF _ 1(2,3)]) auto
    next
      case False
      then consider os oop oi where "b = Chain os oop oi" | os oop where "b = Group os oop" by (cases b) auto
      then show ?thesis
      proof cases
        case 1
        have "right_rank b = nodes b" using 1 by (simp add: right_rank_def)
        then show ?thesis using chain_or_chain_composes [of ts op i os oop oi run allow] \<open>canvas_ok a\<close> \<open>canvas_ok b\<close> Chain 1 IH by simp
      next
        case 2
        have "composes run (or_sig allow bd b) bd b" if "nodes bd < nodes x" "canvas_ok bd" for bd
          using IH [of b bd] that Chain ts \<open>canvas_ok b\<close> \<open>big b\<close> by simp
        then show ?thesis using chain_or_group_composes [of xs x op i os oop run allow] \<open>canvas_ok a\<close> \<open>canvas_ok b\<close> \<open>big b\<close> Chain ts 2
          by simp
      qed
    qed
  qed
qed

section \<open>The constructor of chains\<close>

abbreviation empty_chain :: sig where
  "empty_chain \<equiv> Chain [] no_options False"

lemma empty_chain_or:
  assumes "canvas_ok t" and "big t"
  shows "\<exists>s. or_sig allow empty_chain t = Inr s \<and> canvas_ok s \<and> big s \<and> apply_sig run s = apply_sig run t"
  using assms
proof (induction "nodes t" arbitrary: t rule: less_induct)
  case less
  have one: ?case if "or_sig allow empty_chain t = Inr (Chain [t] no_options False)"
    using that less.prems by (simp add: canvas_ok_Chain apply_chain_one canvas_ok_step)
  have nil: "unchain_tasks allow [] no_options = Inr []" by (simp add: unchain_tasks_def option_list_def)
  show ?case
  proof (cases t)
    case (Chain us op i)
    have us: "us \<noteq> []" "\<forall>u \<in> set us. canvas_ok u \<and> big u" using less.prems Chain by (auto simp: canvas_ok_Chain)
    then obtain v vs where vs: "map clone0 us = v # vs" by (cases us) auto
    have ok: "\<forall>u \<in> set (v # vs). canvas_ok u \<and> big u" using us(2) unfolding vs [symmetric] by simp
    have "nodes v = nodes (hd us)" using vs us(1) by (metis hd_map list.sel(1) nodes_clone0)
    then have "nodes v < nodes t" using member_nodes [OF hd_in_set [OF us(1)]] Chain by simp
    then obtain s where s: "or_sig allow empty_chain v = Inr s" "canvas_ok s" "big s" "apply_sig run s = apply_sig run v"
      using less.hyps [of v] ok by auto
    have eq: "or_sig allow empty_chain t = res_fold (\<lambda>t acc. or_sig allow acc t) vs s"
      using Chain less.prems s(1) vs
      by (simp add: or_sig.simps [of allow empty_chain] unchain_unlinked [of us op i] canvas_ok_def)
    have v: "step_ok run v" using ok by (simp add: canvas_ok_step)
    have t: "apply_sig run t = apply_chain run (v # vs) None" using Chain by (simp flip: vs)
    show ?thesis
    proof (cases "vs = []")
      case True
      then show ?thesis using s v by (auto simp: eq t apply_chain_one)
    next
      case False
      have "composes run (or_sig allow empty_chain t) s (Chain vs no_options False)"
        unfolding eq using False ok s by (intro fold_composes or_composes) auto
      moreover have "apply_chain run (v # vs) None = then_run (apply_sig run v) (apply_chain run vs None)"
        using False v ok by (intro apply_chain_cons) (auto simp: big_not_empty)
      ultimately show ?thesis using s by (auto simp: composes_def t)
    qed
  next
    case (Group us op)
    then have "or_sig allow empty_chain t = Inr t"
      using less.prems nil by (auto simp: or_sig.simps [of allow empty_chain] big_def split: list.splits)
    then show ?thesis using less.prems by simp
  qed (rule one, use nil in \<open>simp add: or_sig.simps [of allow empty_chain]\<close>)+
qed

lemma make_chain_meaning:
  assumes "ts \<noteq> []" and "\<forall>t \<in> set ts. canvas_ok t \<and> big t"
  shows "\<exists>s. make_chain allow ts = Inr s \<and> canvas_ok s \<and> apply_sig run s = apply_chain run ts None"
proof -
  obtain v vs where ts: "ts = v # vs" using assms(1) by (cases ts) auto
  obtain s where s: "or_sig allow empty_chain v = Inr s" "canvas_ok s" "big s" "apply_sig run s = apply_sig run v"
    using empty_chain_or [of v allow run] assms ts by auto
  have v: "step_ok run v" using assms ts by (simp add: canvas_ok_step)
  show ?thesis
  proof (cases "vs = []")
    case True
    then show ?thesis using s v ts by (simp add: make_chain_def apply_chain_one)
  next
    case False
    have "composes run (res_fold (\<lambda>t acc. or_sig allow acc t) vs s) s (Chain vs no_options False)"
      using False assms ts s by (intro fold_composes or_composes) auto
    moreover have "apply_chain run (v # vs) None = then_run (apply_sig run v) (apply_chain run vs None)"
      using False v assms ts by (intro apply_chain_cons) (auto simp: big_not_empty)
    ultimately show ?thesis using s ts by (auto simp: composes_def make_chain_def)
  qed
qed

section \<open>Properties\<close>

text \<open>
  C3: the chaining operator is sequential composition. For regular signatures without callbacks,
  \<open>a | b\<close> never fails, its result is again regular, and evaluating it runs \<open>a\<close> on the arguments and
  then \<open>b\<close> on the value of \<open>a\<close>: the same result and the same effects in the same order, an ignored
  or rejected result of \<open>a\<close> ends it, a failure of \<open>a\<close> is raised. This holds across the splicing of
  chains, the upgrade of groups to chords and the attachment to chord bodies.
\<close>

theorem or_is_sequential_composition:
  assumes "canvas_ok a" and "canvas_ok b" and "big b"
  shows "\<exists>s. or_sig allow a b = Inr s \<and> canvas_ok s
    \<and> (\<forall>args kw. apply_sig run s args kw = then_run (apply_sig run a) (apply_sig run b) args kw)"
  using or_composes [OF assms, of run allow] by (auto simp: composes_def)

definition sample_task :: "string \<Rightarrow> sig" where
  "sample_task n = Task n [] [] no_options False"

text \<open>A runner that returns the list of its arguments and logs the name of the task.\<close>

definition sample_run :: "string list runner" where
  "sample_run n a k w = (Inr (Eager SUCCESS (Lst a)), w @ [n])"

definition sample_group :: sig where
  "sample_group = Group [sample_task ''b'', sample_task ''c''] no_options"

theorem or_is_sequential_composition_witness:
  "\<exists>s. or_sig False (Chain [sample_task ''a'', sample_group] no_options False) (sample_task ''d'') = Inr s
    \<and> snd (apply_sig sample_run s [Atom 1] [] []) = [''a'', ''b'', ''c'', ''d'']"
proof -
  let ?a = "Chain [sample_task ''a'', sample_group] no_options False"
  have ok: "canvas_ok ?a" "canvas_ok (sample_task ''d'')" "big (sample_task ''d'')" by code_simp+
  have "snd (then_run (apply_sig sample_run ?a) (apply_sig sample_run (sample_task ''d'')) [Atom 1] [] []) = [''a'', ''b'', ''c'', ''d'']"
    by code_simp
  then show ?thesis using or_is_sequential_composition [OF ok, of False sample_run] by metis
qed

text \<open>
  the chaining operator is associative up to evaluation. \<open>(a | b) | c\<close> and \<open>a | (b | c)\<close> may be
  different trees, but they evaluate alike.
\<close>

theorem or_associative:
  assumes "canvas_ok a" and "canvas_ok b" "big b" and "canvas_ok c" "big c"
  shows "\<exists>ab bc l r. or_sig allow a b = Inr ab \<and> or_sig allow ab c = Inr l \<and> or_sig allow b c = Inr bc \<and> or_sig allow a bc = Inr r
    \<and> (\<forall>args kw. apply_sig run l args kw = apply_sig run r args kw)"
proof -
  obtain ab where ab: "or_sig allow a b = Inr ab" "canvas_ok ab" "apply_sig run ab = then_run (apply_sig run a) (apply_sig run b)"
    using or_composes [OF assms(1-3), of run allow] by (auto simp: composes_def)
  obtain bc where bc: "or_sig allow b c = Inr bc" "canvas_ok bc" "big bc" "apply_sig run bc = then_run (apply_sig run b) (apply_sig run c)"
    using or_composes [OF assms(2,4,5), of run allow] by (auto simp: composes_def)
  show ?thesis using ab bc or_composes [OF ab(2) assms(4,5), of run allow] or_composes [OF assms(1) bc(2,3), of run allow]
    by (auto simp: composes_def then_run_assoc)
qed

theorem or_associative_witness:
  "\<exists>ab bc l r. or_sig False (sample_task ''a'') sample_group = Inr ab \<and> or_sig False ab (sample_task ''d'') = Inr l
    \<and> or_sig False sample_group (sample_task ''d'') = Inr bc \<and> or_sig False (sample_task ''a'') bc = Inr r
    \<and> (\<forall>args kw. apply_sig sample_run l args kw = apply_sig sample_run r args kw)"
proof -
  have ok: "canvas_ok (sample_task ''a'')" "canvas_ok sample_group" "big sample_group"
    "canvas_ok (sample_task ''d'')" "big (sample_task ''d'')" by code_simp+
  show ?thesis by (rule or_associative [OF ok])
qed

text \<open>
  C29: \<open>chain(*tasks)\<close> of at least one task evaluates its tasks one after the other, each on the value of the one before,
  whatever chords and nested chains the constructor builds. The tasks are signatures without callbacks and error callbacks; every
  group among them, or in a chain inside them, has at least two members, every chain inside them at least one task, and every chord a
  body. A group of one member, which the constructor unrolls, gives its member's value in place of a list, and is excluded.
\<close>

theorem chain_runs_in_order:
  assumes "ts \<noteq> []" and "\<forall>t \<in> set ts. canvas_ok t \<and> big t"
  shows "\<exists>s. make_chain allow ts = Inr s \<and> (\<forall>args kw. apply_sig run s args kw = apply_chain run ts None args kw)"
  using make_chain_meaning [OF assms, of allow run] by auto

theorem chain_runs_in_order_witness:
  "\<exists>s. make_chain False [sample_task ''a'', sample_group, sample_task ''d'', sample_group] = Inr s
    \<and> snd (apply_sig sample_run s [] [] []) = [''a'', ''b'', ''c'', ''d'', ''b'', ''c'']"
proof -
  let ?ts = "[sample_task ''a'', sample_group, sample_task ''d'', sample_group]"
  have ok: "?ts \<noteq> []" "\<forall>t \<in> set ?ts. canvas_ok t \<and> big t" by code_simp+
  have "snd (apply_chain sample_run ?ts None [] [] []) = [''a'', ''b'', ''c'', ''d'', ''b'', ''c'']" by code_simp
  then show ?thesis using chain_runs_in_order [OF ok, of False sample_run] by metis
qed

text \<open>
  an empty group between two tasks. \<open>_chain\<close> skips it, so that \<open>chain(a, group(), b)\<close> gives \<open>b\<close> the
  value of \<open>a\<close>; written as \<open>a | group() | b\<close> the group stays in the chain and is then upgraded to a
  chord with an empty header, so that \<open>b\<close> gets an empty list instead.
\<close>

theorem empty_group_swallows_value:
  "\<exists>s s1 s'. make_chain allow [Task m a0 k0 no_options i, Group [] gop, Task n b0 l0 no_options False] = Inr s
    \<and> or_sig allow (Task m a0 k0 no_options i) (Group [] gop) = Inr s1 \<and> or_sig allow s1 (Task n b0 l0 no_options False) = Inr s'
    \<and> apply_sig run s = then_run (apply_sig run (Task m a0 k0 no_options i)) (apply_sig run (Task n b0 l0 no_options False))
    \<and> apply_sig run s' = then_run (apply_sig run (Task m a0 k0 no_options i)) (\<lambda>_ _. apply_sig run (Task n b0 l0 no_options False) [Lst []] [])"
proof -
  let ?a = "Task m a0 k0 no_options i" and ?b = "Task n b0 l0 no_options False"
  have un: "unchain_tasks allow ts no_options = Inr (map clone0 ts)" for ts by (simp add: unchain_tasks_def option_list_def)
  have ok: "step_ok run ?a" "step_ok run ?b" by (auto intro!: canvas_ok_step simp: canvas_ok_def)
  have 1: "or_sig allow empty_chain ?a = Inr (Chain [?a] no_options False)"
    by (simp add: or_sig.simps [of allow empty_chain] un)
  have 2: "or_sig allow (Chain [?a] no_options False) (Group [] gop) = Inr (Chain [?a] no_options False)"
    by (simp add: or_sig.simps [of allow "Chain [?a] no_options False"])
  have 3: "or_sig allow (Chain [?a] no_options False) ?b = Inr (Chain [?a, ?b] no_options False)"
    by (simp add: or_sig.simps [of allow "Chain [?a] no_options False"] un)
  have c: "make_chain allow [?a, Group [] gop, ?b] = Inr (Chain [?a, ?b] no_options False)"
    by (simp add: make_chain_def 1 2 3)
  have 4: "or_sig allow ?a (Group [] gop) = Inr (Chain [?a, Group [] gop] no_options False)"
    by (simp add: or_sig.simps [of allow ?a] signature_or_def maybe_unroll_group_def)
  have 5: "or_sig allow (Chain [?a, Group [] gop] no_options False) ?b
      = Inr (Chain [?a, make_chord [] ?b] no_options False)"
    by (simp add: or_sig.simps [of allow "Chain [?a, Group [] gop] no_options False"] Let_def
        init_options_def init_immutable_def truthy_def)
  have "step_ok run (make_chord [] ?b)" by (rule canvas_ok_step) (simp_all add: canvas_ok_def make_chord_def)
  then have "apply_chain run [?a, make_chord [] ?b] None = then_run (apply_sig run ?a) (apply_sig run (make_chord [] ?b))"
    using ok by (simp add: apply_chain_cons apply_chain_one step_ok_def)
  moreover have "apply_sig run (make_chord [] ?b) = (\<lambda>_ _. apply_sig run ?b [Lst []] [])"
    by (simp add: make_chord_def em_lift_def em_bind_def em_ret_def fun_eq_iff)
  moreover have "apply_chain run [?a, ?b] None = then_run (apply_sig run ?a) (apply_sig run ?b)"
    using ok by (simp add: apply_chain_cons apply_chain_one step_ok_def)
  ultimately show ?thesis using c 4 5 by (intro exI conjI) (assumption | simp only: apply_Chain)+
qed

text \<open>
  freezing turns a nested group around. Local evaluation of a group runs the members of a group
  nested in it in their order, but freezing the same group, as chords and dispatched groups do,
  pushes them onto the work list one by one and leaves them in reverse order.
\<close>

theorem nested_group_frozen_reversed:
  assumes "\<forall>u \<in> set us. is_Task u"
  shows "apply_sig run (Group [Group us gop] op) a k = apply_sig run (Group us op) a k
    \<and> freeze_shape (Group [Group us gop] op) = Group (rev us) op \<and> freeze_shape (Group us op) = Group us op"
proof -
  have leaf: "unroll_frozen u = [u]" "freeze_shape (clone0 u) = u" if "is_Task u" for u using that by (cases u; simp)+
  have us: "concat (map unroll_frozen us) = us" "concat (map unroll_frozen (rev us)) = rev us"
    using assms leaf(1) by (induction us) auto
  have fr: "map (\<lambda>t. freeze_shape (clone0 t)) us = us" "map (\<lambda>t. freeze_shape (clone0 t)) (rev us) = rev us"
    using assms leaf(2) by (induction us) auto
  have "freeze_shape (Group us op) = Group us op" unfolding freeze_shape.simps us fr ..
  moreover have "freeze_shape (Group [Group us gop] op) = Group (rev us) op" using us(2) fr(2) by simp
  moreover have "apply_sig run (Group [Group us gop] op) a k = apply_sig run (Group us op) a k"
    by (simp add: apply_group.simps em_bind_assoc)
  ultimately show ?thesis by blast
qed

theorem nested_group_frozen_reversed_witness:
  "freeze_shape (Group [Group [sample_task ''a'', sample_task ''b''] no_options] no_options)
     = Group [sample_task ''b'', sample_task ''a''] no_options"
  using nested_group_frozen_reversed [of "[sample_task ''a'', sample_task ''b'']" sample_run no_options no_options "[]" "[]"]
  by (simp add: sample_task_def)

end
