(* ===== verification/Canvas_Prepare.thy ===== *)
theory Canvas_Prepare
  imports Canvas_Compose
begin

text \<open>
  Preparation of a chain for sending, \<open>_chain.prepare_steps\<close>, and the tasks of a chord header that
  report to the chord. The model follows the shape of the tasks: splicing, skipping, upgrading,
  cloning with the partial arguments and freezing; identifiers and result objects are left out, and
  the backend allows chords.
\<close>

section \<open>Preparing the steps of a chain\<close>

text \<open>
  The head of the work list is normalised first: nested chains are spliced in and empty groups are
  dropped while another step follows, so that the partial arguments reach the first real task.
\<close>

function normalise_head :: "sig list \<Rightarrow> sig list" where
  "normalise_head [] = []"
| "normalise_head (t # rest) = (case t of
     Chain ts op i \<Rightarrow> normalise_head (tasks (clone0 t) @ rest)
   | Group ts op \<Rightarrow>
       (let head = maybe_unroll_group ts op in
        if rest \<noteq> [] \<and> is_empty_group head then normalise_head rest else head # rest)
   | _ \<Rightarrow> t # rest)"
  by pat_completeness auto
termination
  by (relation "measure (\<lambda>ts. sum_list (map nodes ts))") (auto simp: comp_def)

text \<open>
  The reverse walk over the steps. \<open>done\<close> is the list of prepared tasks, the last step first, and its
  last element is the task prepared just before.
\<close>

definition link_prev :: "bool \<Rightarrow> sig option \<Rightarrow> sig \<Rightarrow> sig result" where
  "link_prev use_link prev t = (case prev of Some p \<Rightarrow> if use_link then link p t else Inr t | None \<Rightarrow> Inr t)"

definition link_errback :: "bool \<Rightarrow> sig \<Rightarrow> sig \<Rightarrow> sig result" where
  "link_errback allow eb t = res_bind (link_error allow eb t) (\<lambda>t'.
     case t' of
       Chord h (Some b) a k op i \<Rightarrow> res_bind (link_error allow eb b) (\<lambda>b'. Inr (Chord h (Some b') a k op i))
     | _ \<Rightarrow> Inr t')"

definition prepare_task :: "bool \<Rightarrow> bool \<Rightarrow> sig list \<Rightarrow> sig list \<Rightarrow> sig \<Rightarrow> sig list result" where
  "prepare_task allow use_link errbacks finished task =
     (let upgrade = is_Group task \<and> finished \<noteq> [];
          finished' = (if upgrade then butlast finished else finished);
          task' = freeze_shape (if upgrade then make_chord (tasks task) (last finished) else task);
          prev = (if finished' = [] then None else Some (last finished'))
      in res_bind (link_prev use_link prev task') (\<lambda>t1.
         res_bind (res_fold (link_errback allow) errbacks t1) (\<lambda>t2. Inr (finished' @ [t2]))))"

lemma nodes_maybe_unroll: "nodes (maybe_unroll_group ts op) \<le> Suc (sum_list (map nodes ts))"
  by (auto simp: maybe_unroll_group_def split: list.splits)

definition unrolled :: "sig \<Rightarrow> sig" where
  "unrolled t = (case t of Group ts op \<Rightarrow> maybe_unroll_group ts op | _ \<Rightarrow> t)"

lemma nodes_unrolled: "nodes (unrolled t) \<le> nodes t"
  by (cases t) (auto simp: unrolled_def nodes_maybe_unroll)

definition step_clone :: "bool \<Rightarrow> val list \<Rightarrow> (string, val) dict \<Rightarrow> sig \<Rightarrow> sig" where
  "step_clone is_first a k t = (if is_first then clone a k no_options t else clone0 t)"

lemma nodes_clone [simp]: "nodes (clone a k op t) = nodes t"
  by (cases t) (auto simp: clone_def comp_def split: option.splits)

lemma nodes_step_clone [simp]: "nodes (step_clone f a k t) = nodes t"
  by (simp add: step_clone_def)

text \<open>The steps are given last step first, so that \<open>pop\<close> takes the head.\<close>

function walk_steps :: "bool \<Rightarrow> bool \<Rightarrow> sig list \<Rightarrow> val list \<Rightarrow> (string, val) dict \<Rightarrow> sig list \<Rightarrow> sig list \<Rightarrow> sig list result" where
  "walk_steps allow use_link errbacks a k [] finished = Inr finished"
| "walk_steps allow use_link errbacks a k (t # steps) finished =
     (if is_empty_group (unrolled t) \<and> (steps \<noteq> [] \<or> finished \<noteq> [])
      then walk_steps allow use_link errbacks a k steps finished
      else if is_Chain (unrolled t)
      then walk_steps allow use_link errbacks a k (rev (tasks (step_clone (steps = []) a k (unrolled t))) @ steps) finished
      else res_bind (prepare_task allow use_link errbacks finished (step_clone (steps = []) a k (unrolled t)))
             (walk_steps allow use_link errbacks a k steps))"
  by pat_completeness auto
termination
proof (relation "measure (\<lambda>(allow, use_link, errbacks, a, k, steps, finished). sum_list (map nodes steps))", goal_cases)
  case (3 allow use_link errbacks a k t steps finished)
  obtain ts op i where t: "unrolled t = Chain ts op i" using 3(2) by (cases "unrolled t") auto
  have "sum_list (map nodes (rev (tasks (step_clone (steps = []) a k (unrolled t))))) = sum_list (map nodes ts)"
    by (simp add: t step_clone_def clone_def rev_map [symmetric] comp_def)
  then show ?case using nodes_unrolled [of t] by (simp add: t)
qed auto

definition prepare_steps :: "bool \<Rightarrow> bool \<Rightarrow> sig list \<Rightarrow> val list \<Rightarrow> (string, val) dict \<Rightarrow> sig list \<Rightarrow> sig list result" where
  "prepare_steps allow use_link errbacks a k ts = walk_steps allow use_link errbacks a k (rev (normalise_head ts)) []"

section \<open>Meanings of lists of steps\<close>

fun comp_all :: "'w meaning list \<Rightarrow> 'w meaning" where
  "comp_all [] = (\<lambda>a k. em_ret None)"
| "comp_all [f] = f"
| "comp_all (f # g # fs) = then_run f (comp_all (g # fs))"

lemma comp_all_Cons: "fs \<noteq> [] \<Longrightarrow> comp_all (f # fs) = then_run f (comp_all fs)"
  by (cases fs) auto

lemma comp_all_append: "fs \<noteq> [] \<Longrightarrow> gs \<noteq> [] \<Longrightarrow> comp_all (fs @ gs) = then_run (comp_all fs) (comp_all gs)"
  by (induction fs rule: comp_all.induct) (auto simp: comp_all_Cons then_run_assoc)

lemma comp_all_splice: "fs \<noteq> [] \<Longrightarrow> comp_all (gs @ comp_all fs # hs) = comp_all (gs @ fs @ hs)"
  by (cases "gs = []"; cases "hs = []") (auto simp: comp_all_append comp_all_Cons then_run_assoc)

lemma comp_all_first: "f a k = f' a' k' \<Longrightarrow> comp_all (f # fs) a k = comp_all (f' # fs) a' k'"
  by (cases fs) (auto simp: then_run_def)

lemma apply_chain_comp_all:
  "\<forall>t \<in> set ts. step_ok run t \<Longrightarrow> apply_chain run ts None = comp_all (map (apply_sig run) ts)"
proof (induction ts)
  case (Cons t ts)
  then show ?case
    by (cases "ts = []") (auto simp: apply_chain_one apply_chain_cons comp_all_Cons step_ok_def)
qed (simp add: fun_eq_iff)

section \<open>Signatures without nested groups\<close>

definition is_leaf :: "sig \<Rightarrow> bool" where
  "is_leaf t \<longleftrightarrow> \<not> is_Group t \<and> \<not> (is_Chain t \<and> tasks t = [])"

fun flat :: "sig \<Rightarrow> bool" where
  "flat (Task n a k op i) \<longleftrightarrow> True"
| "flat (Chain ts op i) \<longleftrightarrow> list_all flat ts"
| "flat (Group ts op) \<longleftrightarrow> list_all (\<lambda>t. flat t \<and> is_leaf t) ts"
| "flat (Chord h b a k op i) \<longleftrightarrow> list_all (\<lambda>t. flat t \<and> is_leaf t) h \<and> (case b of None \<Rightarrow> True | Some bd \<Rightarrow> flat bd)"

lemma unroll_frozen_leaf: "is_leaf t \<Longrightarrow> unroll_frozen t = [t]"
  by (cases t) (auto simp: is_leaf_def)

lemma unroll_frozen_leaves: "list_all is_leaf ts \<Longrightarrow> concat (map unroll_frozen ts) = ts"
  by (induction ts) (auto simp: unroll_frozen_leaf)

lemma is_leaf_clone0 [simp]: "is_leaf (clone0 t) = is_leaf t"
  by (cases t) (auto simp: is_leaf_def)

lemma flat_clone0 [simp]: "flat (clone0 s) = flat s"
proof (induction s rule: clone0.induct)
  case (4 h b a k op i)
  then show ?case by (cases b) (auto simp: list_all_iff)
qed (auto simp: list_all_iff)

lemma freeze_leaves_strip:
  assumes "list_all (\<lambda>t. flat t \<and> is_leaf t) ts"
    and "\<And>t. t \<in> set ts \<Longrightarrow> flat (clone0 t) \<Longrightarrow> strip (freeze_shape (clone0 t)) = strip (clone0 t)"
  shows "map (\<lambda>t. strip (freeze_shape (clone0 t))) (concat (map unroll_frozen ts)) = map strip ts"
proof -
  have "concat (map unroll_frozen ts) = ts" using assms(1) by (intro unroll_frozen_leaves) (auto simp: list_all_iff)
  then show ?thesis using assms by (auto simp: list_all_iff)
qed

lemma strip_freeze_flat: "flat s \<Longrightarrow> strip (freeze_shape s) = strip s"
proof (induction s rule: freeze_shape.induct)
  case (2 ts op)
  have "concat (map unroll_frozen ts) = ts" using "2.prems" by (intro unroll_frozen_leaves) (auto simp: list_all_iff)
  then have "map (\<lambda>t. strip (freeze_shape (clone0 t))) (concat (map unroll_frozen ts)) = map strip ts"
    using 2 by (intro freeze_leaves_strip) auto
  then show ?case by (simp add: comp_def)
next
  case (3 ts op i)
  let ?f = "\<lambda>t. case t of Group [u] gop \<Rightarrow> Group [freeze_shape u] gop | _ \<Rightarrow> freeze_shape t"
  have "strip (?f t) = strip t" if t: "t \<in> set ts" for t
  proof (cases "\<exists>u gop. t = Group [u] gop")
    case True
    then show ?thesis using 3(4) [OF t] "3.prems" t by (auto simp: list_all_iff)
  next
    case False
    then have "?f t = freeze_shape t" by (auto split: sig.splits list.splits)
    moreover have "strip (freeze_shape t) = strip t"
      using "3.IH" [OF t] "3.prems" t False by (cases t rule: sig.exhaust; cases "tasks t" rule: remdups_adj.cases) (auto simp: list_all_iff)
    ultimately show ?thesis by simp
  qed
  then show ?case by simp
next
  case (4 h b a k op i)
  have "concat (map unroll_frozen h) = h" using "4.prems" by (intro unroll_frozen_leaves) (auto simp: list_all_iff)
  then have "map (\<lambda>t. strip (freeze_shape (clone0 t))) (concat (map unroll_frozen h)) = map strip h"
    using 4 by (intro freeze_leaves_strip) auto
  then show ?case using 4 by (cases b) (simp_all add: comp_def)
qed auto

lemma same_strip: "strip s = strip s' \<Longrightarrow> apply_sig run s = apply_sig run s' \<and> step_ok run s = step_ok run s'"
  using apply_strip(1) [of run s] apply_strip(1) [of run s'] is_empty_group_strip(1) [of s] is_empty_group_strip(1) [of s']
  by (simp add: step_ok_def)

definition step_fine :: "sig \<Rightarrow> bool" where
  "step_fine t \<longleftrightarrow> canvas_ok t \<and> big t \<and> flat t"

lemma step_fine_ok: "step_fine t \<Longrightarrow> step_ok run t"
  by (simp add: step_fine_def canvas_ok_step)

lemma step_fine_clone0 [simp]: "step_fine (clone0 t) = step_fine t"
  by (simp add: step_fine_def)

lemma step_fine_Chain: "step_fine (Chain ts op i) \<Longrightarrow> ts \<noteq> [] \<and> (\<forall>t \<in> set ts. step_fine t)"
  by (auto simp: step_fine_def canvas_ok_Chain list_all_iff)

lemma step_fine_frozen: "step_fine t \<Longrightarrow> step_ok run (freeze_shape t) \<and> apply_sig run (freeze_shape t) = apply_sig run t"
  using same_strip [OF strip_freeze_flat, of t run] step_fine_ok [of t run] by (simp add: step_fine_def)

lemma unrolled_big: "big t \<Longrightarrow> unrolled t = t"
  by (cases t) (auto simp: unrolled_def maybe_unroll_group_def big_def split: list.splits)

lemma normalise_head_fine:
  assumes "ts \<noteq> []" and "\<forall>t \<in> set ts. step_fine t"
  shows "normalise_head ts \<noteq> [] \<and> (\<forall>t \<in> set (normalise_head ts). step_fine t) \<and> \<not> is_Chain (hd (normalise_head ts))
    \<and> apply_chain run (normalise_head ts) None = apply_chain run ts None"
  using assms
proof (induction ts rule: normalise_head.induct)
  case (2 t rest)
  show ?case
  proof (cases t)
    case (Chain us op i)
    let ?us = "map clone0 us"
    have us: "us \<noteq> []" "\<forall>u \<in> set ?us. step_fine u" using "2.prems" Chain step_fine_Chain [of us op i] by auto
    have "apply_sig run t = comp_all (map (apply_sig run) ?us)"
      using us Chain apply_chain_comp_all [of ?us run] by (simp add: step_fine_ok)
    moreover have "\<forall>u \<in> set (?us @ rest). step_ok run u" "\<forall>u \<in> set (t # rest). step_ok run u"
      using us "2.prems" step_fine_ok by auto
    ultimately have "apply_chain run (?us @ rest) None = apply_chain run (t # rest) None"
      using us comp_all_splice [of "map (apply_sig run) ?us" "[]" "map (apply_sig run) rest"] by (simp add: apply_chain_comp_all)
    then show ?thesis using "2.IH"(1) [OF Chain] us "2.prems" Chain by (simp add: ball_Un)
  next
    case (Group us op)
    then have "maybe_unroll_group us op = t" using "2.prems" unrolled_big [of t] by (simp add: step_fine_def unrolled_def)
    moreover have "\<not> is_empty_group t" using "2.prems" by (simp add: step_fine_def big_not_empty)
    ultimately show ?thesis using "2.prems" Group by simp
  qed (use 2 in auto)
qed simp

lemma flat_strip: "flat (strip s) = flat s"
proof (induction s rule: strip.induct)
  case (4 h b a k op i)
  have "is_leaf (strip t) = is_leaf t" for t by (cases t) (auto simp: is_leaf_def)
  then show ?case using 4 by (cases b) (auto simp: list_all_iff)
next
  case (3 ts op)
  have "is_leaf (strip t) = is_leaf t" for t by (cases t) (auto simp: is_leaf_def)
  then show ?case using 3 by (auto simp: list_all_iff)
qed (auto simp: list_all_iff)

lemma frozen_flat:
  assumes "flat t" "step_ok run t"
  shows "flat (freeze_shape t)" "step_ok run (freeze_shape t)" "apply_sig run (freeze_shape t) = apply_sig run t"
  using strip_freeze_flat [OF assms(1)] same_strip [of "freeze_shape t" t run] assms flat_strip by metis+

lemma prepare_task_meaning:
  assumes task: "step_ok run task" "flat task" and fin: "\<forall>t \<in> set finished. step_ok run t \<and> flat t"
  shows "\<exists>R. prepare_task allow False [] finished task = Inr R \<and> R \<noteq> [] \<and> (\<forall>t \<in> set R. step_ok run t \<and> flat t)
    \<and> comp_all (map (apply_sig run) (rev R)) = comp_all (map (apply_sig run) (task # rev finished))"
proof (cases "is_Group task \<and> finished \<noteq> []")
  case True
  then obtain ts op fs p where t: "task = Group ts op" and f: "finished = fs @ [p]"
    by (cases task; cases finished rule: rev_cases) auto
  let ?c = "make_chord ts p"
  have p: "step_ok run p" "flat p" using fin f by auto
  have m: "apply_sig run ?c = then_run (apply_sig run task) (apply_sig run p)" by (simp add: t make_chord_meaning [of run ts p op])
  have c: "flat ?c" "step_ok run ?c"
    using task(2) p t by (auto simp: make_chord_def step_ok_def is_empty_group_def m [unfolded make_chord_def] then_run_gives_result)
  have "comp_all (map (apply_sig run) (task # p # rev fs)) = comp_all (then_run (apply_sig run task) (apply_sig run p) # map (apply_sig run) (rev fs))"
    using comp_all_splice [of "[apply_sig run task, apply_sig run p]" "[]"] by simp
  then show ?thesis using True t f fin frozen_flat [OF c] m
    by (simp add: prepare_task_def Let_def link_prev_def split: option.splits)
next
  case False
  then show ?thesis using fin frozen_flat [OF task(2,1)]
    by (auto simp: prepare_task_def Let_def link_prev_def split: option.splits)
qed

lemma merge_options_none: "merge_options op no_options = op"
  by (cases op) (simp add: merge_options_def pick_def)

lemma strip_clone_none: "strip (clone [] [] no_options t) = strip t"
  by (cases t) (simp_all add: clone_def merge_options_none merge_args_def merge_kwargs_def del: strip.simps clone0.simps)

lemma clone_first_fine:
  assumes "is_Task t \<or> a = [] \<and> k = []" and "step_fine t"
  shows "step_ok run (clone a k no_options t) \<and> flat (clone a k no_options t)"
proof (cases "is_Task t")
  case True
  then show ?thesis using assms(2)
    by (cases t) (auto intro!: canvas_ok_step simp: clone_def merge_options_none step_fine_def canvas_ok_def)
next
  case False
  then have eq: "strip (clone a k no_options t) = strip t" using assms(1) strip_clone_none by auto
  show ?thesis using same_strip [OF eq, of run] flat_strip [of t] flat_strip [of "clone a k no_options t"] eq assms(2)
      step_fine_ok [of t run] by (simp add: step_fine_def)
qed

lemma clone_first_meaning:
  assumes "is_Task t \<or> a = [] \<and> k = []"
  shows "apply_sig run (clone a k no_options t) [] [] = apply_sig run t a k"
proof (cases t)
  case (Task n a0 k0 op i)
  then show ?thesis by (simp add: clone_def merge_args_def merge_kwargs_def)
qed (use assms in \<open>simp_all add: clone_def merge_options_none merge_args_def del: apply_sig.simps clone0.simps\<close>)

lemma walk_steps_meaning:
  assumes "steps \<noteq> []" and "\<forall>t \<in> set steps. step_fine t" and "\<not> is_Chain (last steps)"
    and "is_Task (last steps) \<or> a = [] \<and> k = []" and "\<forall>t \<in> set finished. step_ok run t \<and> flat t"
  shows "\<exists>R. walk_steps allow False [] a k steps finished = Inr R \<and> R \<noteq> [] \<and> (\<forall>t \<in> set R. step_ok run t \<and> flat t)
    \<and> comp_all (map (apply_sig run) (rev R)) [] [] = comp_all (map (apply_sig run) (rev steps @ rev finished)) a k"
  using assms
proof (induction "sum_list (map nodes steps)" arbitrary: steps finished rule: less_induct)
  case less
  obtain t rest where st: "steps = t # rest" using less.prems(1) by (cases steps) auto
  have t: "step_fine t" "unrolled t = t" "\<not> is_empty_group t" "step_ok run t" "flat t"
    using less.prems(2) st by (auto simp: step_fine_def unrolled_big big_not_empty canvas_ok_step)
  show ?case
  proof (cases "rest = []")
    case True
    then have nc: "\<not> is_Chain t" "is_Task t \<or> a = [] \<and> k = []" using less.prems st by auto
    let ?c = "clone a k no_options t"
    obtain R where R: "prepare_task allow False [] finished ?c = Inr R" "R \<noteq> []" "\<forall>t \<in> set R. step_ok run t \<and> flat t"
      "comp_all (map (apply_sig run) (rev R)) = comp_all (map (apply_sig run) (?c # rev finished))"
      using prepare_task_meaning [OF _ _ less.prems(5), of ?c allow] clone_first_fine [OF nc(2) t(1), of run] by blast
    have "comp_all (map (apply_sig run) (rev R)) [] [] = comp_all (map (apply_sig run) (t # rev finished)) a k"
      unfolding R(4) list.map by (rule comp_all_first) (rule clone_first_meaning [OF nc(2)])
    then show ?thesis using R t nc True st by (simp add: step_clone_def)
  next
    case False
    have ls: "last steps = last rest" using False st by simp
    show ?thesis
    proof (cases "is_Chain t")
      case True
      then obtain us op i where c: "t = Chain us op i" by (cases t) auto
      let ?us = "map clone0 us"
      have us: "us \<noteq> []" "\<forall>u \<in> set ?us. step_fine u" using t(1) c step_fine_Chain [of us op i] by auto
      have eq: "walk_steps allow False [] a k steps finished = walk_steps allow False [] a k (rev ?us @ rest) finished"
        using st c t(2,3) False by (simp add: step_clone_def)
      have "apply_sig run t = comp_all (map (apply_sig run) ?us)"
        using us c apply_chain_comp_all [of ?us run] by (simp add: step_fine_ok)
      then have m: "comp_all (map (apply_sig run) (rev (rev ?us @ rest) @ rev finished)) = comp_all (map (apply_sig run) (rev steps @ rev finished))"
        using comp_all_splice [of "map (apply_sig run) ?us" "map (apply_sig run) (rev rest)" "map (apply_sig run) (rev finished)"] us(1)
        by (simp add: st)
      have "sum_list (map nodes (rev ?us @ rest)) < sum_list (map nodes steps)" by (simp add: st c rev_map [symmetric] comp_def)
      then show ?thesis unfolding eq m [symmetric] using less.hyps [of "rev ?us @ rest" finished] less.prems us st False ls by (simp add: ball_Un)
    next
      case nc: False
      obtain R where R: "prepare_task allow False [] finished (clone0 t) = Inr R" "R \<noteq> []" "\<forall>t \<in> set R. step_ok run t \<and> flat t"
        "comp_all (map (apply_sig run) (rev R)) = comp_all (map (apply_sig run) (clone0 t # rev finished))"
        using prepare_task_meaning [OF _ _ less.prems(5), of "clone0 t" allow] t(4,5) by (auto simp: step_ok_def)
      have "walk_steps allow False [] a k steps finished = walk_steps allow False [] a k rest R"
        using st t(2,3) nc False R(1) by (simp add: step_clone_def)
      moreover have "comp_all (map (apply_sig run) (rev rest @ rev R)) = comp_all (map (apply_sig run) (rev steps @ rev finished))"
        using False R(2) by (simp add: st comp_all_append R(4)) 
      ultimately show ?thesis using less.hyps [of rest R] less.prems st False ls R(3) by simp
    qed
  qed
qed

section \<open>Completions of a chord header\<close>

text \<open>
  The tasks of a signature that get the chord body and the group as options when it is frozen as a
  member of a chord header, and so report to the chord: a task itself, the members of a group, those
  of the body of a chord, and for a chain those of the step that the reverse walk of \<open>prepare_steps\<close>
  reaches first, after skipping empty groups and splicing chains. A chain that yields no result
  raises.
\<close>

lemma nodes_normalise_head: "sum_list (map nodes (normalise_head ts)) \<le> sum_list (map nodes ts)"
proof (induction ts rule: normalise_head.induct)
  case (2 t rest)
  show ?case
  proof (cases t)
    case (Chain us op i)
    then show ?thesis using "2.IH"(1) [OF Chain] by (simp add: comp_def)
  next
    case (Group us op)
    then show ?thesis using "2.IH"(2) [OF Group refl] nodes_maybe_unroll [of us op] by (auto simp: Let_def)
  qed auto
qed simp

function reporters :: "sig \<Rightarrow> sig list result" and chain_reporters :: "sig list \<Rightarrow> sig list result" where
  "reporters (Task n a k op i) = Inr [Task n a k op i]"
| "reporters (Group ts op) = res_bind (res_map reporters (concat (map unroll_frozen ts))) (\<lambda>rs. Inr (concat rs))"
| "reporters (Chord h b a k op i) = (case b of None \<Rightarrow> Inr [] | Some bd \<Rightarrow> reporters bd)"
| "reporters (Chain ts op i) = chain_reporters (rev (normalise_head ts))"
| "chain_reporters [] = Inl IndexError"
| "chain_reporters (t # steps) =
     (if is_empty_group (unrolled t) \<and> steps \<noteq> [] then chain_reporters steps
      else if is_Chain (unrolled t) then chain_reporters (rev (tasks (unrolled t)) @ steps)
      else reporters (unrolled t))"
  by pat_completeness auto
termination
proof (relation "inv_image (less_than <*lex*> less_than) (\<lambda>x. case x of Inl s \<Rightarrow> (nodes s, 0::nat) | Inr ts \<Rightarrow> (sum_list (map nodes ts), 1))", goal_cases)
  case (2 ts op t)
  then show ?case using unroll_frozen_member [of t ts] by (simp add: less_Suc_eq_le)
next
  case (6 t steps)
  then show ?case using nodes_unrolled [of t] by (cases "unrolled t") (auto simp: rev_map [symmetric])
next
  case (7 t steps)
  then show ?case using nodes_unrolled [of t] by auto
next
  case (4 ts op i)
  then show ?case using nodes_normalise_head [of ts] by (simp add: rev_map [symmetric] less_Suc_eq_le)
qed (auto split: option.splits)

section \<open>The size of a chord\<close>

lemma first_positive_map: "first_positive f (map g xs) = first_positive (\<lambda>x. f (g x)) xs"
  by (induction xs) (auto intro!: res_bind_cong)

lemma first_positive_append:
  "first_positive f (xs @ ys) = res_bind (first_positive f xs) (\<lambda>n. if n > 0 then Inr n else first_positive f ys)"
proof (induction xs)
  case (Cons x xs)
  then show ?case by (cases "f x") auto
qed simp

lemma descend_clone0 [simp]: "descend (clone0 s) = descend s"
proof (induction s rule: clone0.induct)
  case (2 ts op i)
  have "first_positive (\<lambda>x. descend (clone0 x)) (rev ts) = first_positive descend (rev ts)"
    using 2 by (intro first_positive_cong) auto
  then show ?case by (simp add: rev_map first_positive_map)
next
  case (4 h b a k op i)
  then show ?case by (cases b) auto
qed auto

lemma descend_single: "descend (Group [t] op) = descend t"
  by (cases "descend t") auto

lemma descend_unroll_group: "descend (maybe_unroll_group ts op) = descend (Group ts op)"
  unfolding maybe_unroll_group_def by (auto simp: descend_single simp del: descend.simps split: list.splits)

lemma descend_unrolled [simp]: "descend (unrolled t) = descend t"
  by (cases t) (auto simp: unrolled_def descend_unroll_group)

lemma descend_empty_group: "is_empty_group t \<Longrightarrow> descend t = Inr 0"
  by (cases t) (auto simp: is_empty_group_def)

fun counted :: "sig \<Rightarrow> bool" where
  "counted (Task n a k op i) \<longleftrightarrow> True"
| "counted (Group ts op) \<longleftrightarrow> list_all counted ts"
| "counted (Chord h b a k op i) \<longleftrightarrow> (case b of None \<Rightarrow> False | Some bd \<Rightarrow> counted bd)"
| "counted (Chain ts op i) \<longleftrightarrow> list_all (\<lambda>t. counted t
     \<and> (is_empty_group (unrolled t) \<or> is_Chain (unrolled t) \<or> descend t \<noteq> Inr 0)) ts"

definition counted_step :: "sig \<Rightarrow> bool" where
  "counted_step t \<longleftrightarrow> counted t \<and> (is_empty_group (unrolled t) \<or> is_Chain (unrolled t) \<or> descend t \<noteq> Inr 0)"

lemma counted_Chain: "counted (Chain ts op i) \<longleftrightarrow> list_all counted_step ts"
  by (simp add: counted_step_def list_all_iff)

lemma unrolled_clone0: "is_Group t \<Longrightarrow> is_empty_group (unrolled (clone0 t)) = is_empty_group (unrolled t)
    \<and> is_Chain (unrolled (clone0 t)) = is_Chain (unrolled t)"
  by (cases t) (auto simp: unrolled_def maybe_unroll_group_def is_empty_group_def split: list.splits)

lemma counted_clone0 [simp]: "counted (clone0 s) = counted s"
proof (induction s rule: clone0.induct)
  case (2 ts op i)
  have "is_empty_group (unrolled (clone0 t)) = is_empty_group (unrolled t)" "is_Chain (unrolled (clone0 t)) = is_Chain (unrolled t)" for t
    using unrolled_clone0 [of t] by (cases t; simp add: unrolled_def is_empty_group_def)+
  then show ?case using 2 by (auto simp: list_all_iff)
next
  case (4 h b a k op i)
  then show ?case by (cases b) auto
qed auto

lemma counted_step_clone0 [simp]: "counted_step (clone0 t) = counted_step t"
  using counted_clone0 [of "Chain [t] no_options False"] by (simp add: counted_step_def)

lemma counted_unroll: "counted (Group ts op) \<Longrightarrow> counted (maybe_unroll_group ts op)"
  by (auto simp: maybe_unroll_group_def split: list.splits)

lemma normalise_head_counted:
  assumes "list_all counted_step ts"
  shows "first_positive descend (rev (normalise_head ts)) = first_positive descend (rev ts)"
  using assms
proof (induction ts rule: normalise_head.induct)
  case (2 t rest)
  show ?case
  proof (cases t)
    case (Chain us op i)
    have "counted t" using "2.prems" by (simp add: counted_step_def)
    then have "list_all counted_step us" by (simp only: Chain counted_Chain)
    then have "list_all counted_step (map clone0 us @ rest)" using "2.prems" by (auto simp: list_all_iff)
    moreover have "first_positive descend (rev (map clone0 us)) = first_positive descend [Chain us op i]"
      by (cases "first_positive descend (rev us)") (auto simp: rev_map first_positive_map)
    ultimately show ?thesis using "2.IH"(1) [OF Chain] unfolding Chain
      by (simp only: normalise_head.simps sig.case clone0.simps sig.sel rev_append rev.simps first_positive_append)
  next
    case (Group us op)
    show ?thesis
    proof (cases "rest \<noteq> [] \<and> is_empty_group (maybe_unroll_group us op)")
      case True
      then have "descend t = Inr 0" using descend_empty_group descend_unroll_group Group by metis
      then have "first_positive descend (rev (t # rest)) = first_positive descend (rev rest)"
        by (cases "first_positive descend (rev rest)") (auto simp: first_positive_append)
      then show ?thesis using "2.IH"(2) [OF Group refl True] True Group "2.prems" by simp
    next
      case False
      then have n: "normalise_head (t # rest) = maybe_unroll_group us op # rest" using Group by (auto simp: Let_def)
      have "first_positive descend [maybe_unroll_group us op] = first_positive descend [t]"
        by (simp only: first_positive.simps descend_unroll_group Group)
      then show ?thesis by (simp only: n rev.simps first_positive_append)
    qed
  qed auto
qed simp

lemma res_map_descend:
  "(\<And>t. t \<in> set ts \<Longrightarrow> descend t = Inr (f t)) \<Longrightarrow> res_map descend ts = Inr (map f ts)"
  by (induction ts) auto

lemma unroll_frozen_descend:
  "(\<And>u. u \<in> set (unroll_frozen t) \<Longrightarrow> descend u = Inr (f u)) \<Longrightarrow> descend t = Inr (sum_list (map f (unroll_frozen t)))"
proof (induction t rule: unroll_frozen.induct)
  case (1 us op)
  have "descend u = Inr (sum_list (map f (unroll_frozen u)))" if "u \<in> set us" for u
    using 1 that by auto
  then have "descend (Group us op) = Inr (sum_list (map (\<lambda>u. sum_list (map f (unroll_frozen u))) us))"
    using res_map_descend [of us] by simp
  also have "sum_list (map (\<lambda>u. sum_list (map f (unroll_frozen u))) us) = sum_list (map f (unroll_frozen (Group us op)))"
    by (induction us) auto
  finally show ?case .
qed (auto split: if_splits)

lemma counted_step_unrolled: "counted_step t \<Longrightarrow> counted_step (unrolled t)"
proof (cases "is_Group t")
  case True
  then obtain ts op where t: "t = Group ts op" by (cases t) auto
  assume c: "counted_step t"
  then have "counted (unrolled t)" using t counted_unroll [of ts op] by (simp add: counted_step_def unrolled_def)
  moreover have "unrolled (unrolled t) = unrolled t" if "is_empty_group (unrolled t) \<or> is_Chain (unrolled t)"
    using that by (cases "unrolled t") (auto simp: unrolled_def is_empty_group_def maybe_unroll_group_def)
  ultimately show ?thesis using c by (auto simp: counted_step_def)
qed (cases t; simp add: unrolled_def)

lemma normalise_head_steps: "list_all counted_step ts \<Longrightarrow> list_all counted_step (normalise_head ts)"
proof (induction ts rule: normalise_head.induct)
  case (2 t rest)
  show ?case
  proof (cases t)
    case (Chain us op i)
    have "counted t" using "2.prems" by (simp add: counted_step_def)
    then have "list_all counted_step us" by (simp only: Chain counted_Chain)
    then have "list_all counted_step (map clone0 us @ rest)" using "2.prems" by (auto simp: list_all_iff)
    then show ?thesis using "2.IH"(1) [OF Chain] Chain by simp
  next
    case (Group us op)
    then have "counted_step (maybe_unroll_group us op)"
      using "2.prems" counted_step_unrolled [of t] by (simp add: unrolled_def)
    then show ?thesis using "2.IH"(2) [OF Group refl] "2.prems" Group by (auto simp: Let_def)
  qed (use 2 in auto)
qed simp

lemma unroll_frozen_counted: "counted t \<Longrightarrow> u \<in> set (unroll_frozen t) \<Longrightarrow> counted u"
  by (induction t rule: unroll_frozen.induct) (auto simp: list_all_iff split: if_splits)

lemma list_all2_ex: "list_all2 P xs ys \<Longrightarrow> x \<in> set xs \<Longrightarrow> \<exists>y. P x y"
  by (induction rule: list_all2_induct) auto

lemma list_all2_length_concat: "list_all2 (\<lambda>x y. g x = length y) xs ys \<Longrightarrow> sum_list (map g xs) = length (concat ys)"
  by (induction rule: list_all2_induct) auto

lemma group_reporters_size:
  assumes c: "list_all counted ts" and r: "reporters (Group ts op) = Inr rs"
    and IH: "\<And>u r. u \<in> set (concat (map unroll_frozen ts)) \<Longrightarrow> counted u \<Longrightarrow> reporters u = Inr r \<Longrightarrow> descend u = Inr (length r)"
  shows "descend (Group ts op) = Inr (length rs)"
proof -
  let ?us = "concat (map unroll_frozen ts)" and ?f = "\<lambda>u. case reporters u of Inr r \<Rightarrow> length r | Inl e \<Rightarrow> 0"
  obtain rss where rss: "list_all2 (\<lambda>u r. reporters u = Inr r) ?us rss" "rs = concat rss"
    using r by (auto simp: res_bind_Inr_iff res_map_Inr_iff)
  have "\<exists>r. reporters u = Inr r" if "u \<in> set ?us" for u
    using list_all2_ex [OF rss(1) that] .
  then have d: "descend u = Inr (?f u)" if "u \<in> set ?us" for u
    using IH [OF that] c that unroll_frozen_counted by (fastforce simp: list_all_iff)
  have "descend t = Inr (sum_list (map ?f (unroll_frozen t)))" if "t \<in> set ts" for t
    using that d by (intro unroll_frozen_descend) auto
  then have "descend (Group ts op) = Inr (sum_list (map (\<lambda>t. sum_list (map ?f (unroll_frozen t))) ts))"
    using res_map_descend [of ts] by simp
  also have "sum_list (map (\<lambda>t. sum_list (map ?f (unroll_frozen t))) ts) = sum_list (map ?f ?us)" by (induction ts) auto
  also have "\<dots> = length rs"
    unfolding rss(2) by (rule list_all2_length_concat) (use rss(1) in \<open>auto elim!: list.rel_mono_strong\<close>)
  finally show ?thesis .
qed

lemma reporters_size:
  "counted s \<Longrightarrow> reporters s = Inr rs \<Longrightarrow> descend s = Inr (length rs)"
  "list_all counted_step steps \<Longrightarrow> chain_reporters steps = Inr rs \<Longrightarrow> first_positive descend steps = Inr (length rs)"
proof (induction s and steps arbitrary: rs and rs rule: reporters_chain_reporters.induct)
  case (2 ts op)
  then show ?case using group_reporters_size [of ts op rs] by auto
next
  case (3 h b a k op i)
  then show ?case by (auto split: option.splits)
next
  case (4 ts op i)
  then have "list_all counted_step ts" by (simp only: counted_Chain)
  then show ?case using 4 normalise_head_steps normalise_head_counted by simp
next
  case (6 t steps)
  have c: "counted_step (unrolled t)" "counted (unrolled t)" using "6.prems"(1) counted_step_unrolled by (auto simp: counted_step_def)
  consider (skip) "is_empty_group (unrolled t)" "steps \<noteq> []" | (splice) "\<not> (is_empty_group (unrolled t) \<and> steps \<noteq> [])" "is_Chain (unrolled t)"
    | (freeze) "\<not> (is_empty_group (unrolled t) \<and> steps \<noteq> [])" "\<not> is_Chain (unrolled t)" by blast
  then show ?case
  proof cases
    case skip
    then show ?thesis using "6.IH"(1) "6.prems" descend_empty_group [of "unrolled t"] by simp
  next
    case splice
    then obtain us op i where u: "unrolled t = Chain us op i" by (cases "unrolled t") auto
    have "list_all counted_step us" using c(2) by (simp only: u counted_Chain)
    then have "list_all counted_step (rev us @ steps)" using "6.prems"(1) by (auto simp: list_all_iff)
    moreover have "chain_reporters (t # steps) = chain_reporters (rev us @ steps)" using splice by (auto simp: u)
    ultimately have "first_positive descend (rev us @ steps) = Inr (length rs)"
      using "6.IH"(2) [OF splice, of rs] "6.prems"(2) u by simp
    then show ?thesis using descend_unrolled [of t] by (simp add: u first_positive_append)
  next
    case freeze
    then have "chain_reporters (t # steps) = reporters (unrolled t)" by auto
    then have d: "descend t = Inr (length rs)" using "6.IH"(3) [OF freeze c(2)] "6.prems"(2) by simp
    show ?thesis
    proof (cases "rs = []")
      case True
      then have "is_empty_group (unrolled t)" using d "6.prems"(1) freeze by (auto simp: counted_step_def)
      then show ?thesis using freeze d True by simp
    qed (use d in simp)
  qed
qed auto

section \<open>Properties\<close>

text \<open>
  C15: a prepared chain runs as the chain itself. The tasks that \<open>prepare_steps\<close> puts into the chain
  field of the message, taken from its end one after the other and each called with the value of the
  one before, evaluate like the local evaluation of the chain on the partial arguments: nested
  chains are spliced in order, groups followed by a task become chords, and the partial arguments
  reach the first task. The chain and its parts have no callbacks; every chain is non-empty, every group that is a step of a
  chain has at least two members, every chord has a body, no group or empty chain is directly inside a group or a chord header,
  and partial arguments are only given to a chain that starts with a task.
\<close>

theorem prepared_chain_runs_as_local:
  assumes "canvas_ok (Chain ts op i)" and "flat (Chain ts op i)"
    and "is_Task (hd (normalise_head ts)) \<or> a = [] \<and> k = []"
  shows "\<exists>R. prepare_steps allow False [] a k ts = Inr R \<and> R \<noteq> []
    \<and> apply_chain run (rev R) None [] [] = apply_sig run (Chain ts op i) a k"
proof -
  have fine: "ts \<noteq> []" "\<forall>t \<in> set ts. step_fine t"
    using assms(1,2) step_fine_Chain [of ts op i] by (auto simp: step_fine_def)
  note n = normalise_head_fine [OF fine, of run]
  have "\<exists>R. walk_steps allow False [] a k (rev (normalise_head ts)) [] = Inr R \<and> R \<noteq> [] \<and> (\<forall>t \<in> set R. step_ok run t \<and> flat t)
    \<and> comp_all (map (apply_sig run) (rev R)) [] [] = comp_all (map (apply_sig run) (rev (rev (normalise_head ts)) @ rev [])) a k"
    using n assms(3) by (intro walk_steps_meaning) (auto simp: last_rev)
  moreover have "\<forall>t \<in> set (normalise_head ts). step_ok run t" using n step_fine_ok by blast
  ultimately show ?thesis using n by (auto simp: prepare_steps_def apply_chain_comp_all)
qed

theorem prepared_chain_runs_as_local_witness:
  "\<exists>R. prepare_steps False False [] [Atom 1] [] [sample_task ''a'', sample_group, sample_task ''d''] = Inr R
    \<and> apply_chain sample_run (rev R) None [] [] [] =
        (Inr (Some (Eager SUCCESS (Lst [Lst [Lst [Lst [Atom 1]], Lst [Lst [Atom 1]]]]))), [''a'', ''b'', ''c'', ''d''])"
proof -
  let ?ts = "[sample_task ''a'', sample_group, sample_task ''d'']"
  have ok: "canvas_ok (Chain ?ts no_options False)" "flat (Chain ?ts no_options False)"
    "is_Task (hd (normalise_head ?ts)) \<or> [Atom 1] = [] \<and> ([] :: (string \<times> val) list) = []" by code_simp+
  have "apply_sig sample_run (Chain ?ts no_options False) [Atom 1] [] [] =
      (Inr (Some (Eager SUCCESS (Lst [Lst [Lst [Lst [Atom 1]], Lst [Lst [Atom 1]]]]))), [''a'', ''b'', ''c'', ''d''])" by code_simp
  then show ?thesis using prepared_chain_runs_as_local [OF ok, of False sample_run] by metis
qed

text \<open>
  C4: a chord waits for exactly the tasks that report to it. The size of the header, counted by
  \<open>_descend\<close>, is the number of tasks that freezing marks with the chord: the body is neither called too
  early nor waited for forever. Every chord has a body, and every step of a chain that is not an
  empty group or a chain counts for at least one completion.
\<close>

theorem chord_size_counts_reporters:
  assumes "list_all counted h" and "reporters (Group h op) = Inr rs"
  shows "length_hint h = Inr (length rs)"
  using reporters_size(1) [of "Group h op" rs] assms by (simp add: length_hint_def)

theorem chord_size_counts_reporters_witness:
  "length_hint [Chain [sample_task ''a'', sample_group] no_options False, make_chord [sample_task ''x'', sample_task ''y''] (sample_task ''z'')]
     = Inr 3"
proof -
  let ?h = "[Chain [sample_task ''a'', sample_group] no_options False, make_chord [sample_task ''x'', sample_task ''y''] (sample_task ''z'')]"
  have "list_all counted ?h" by code_simp
  moreover have "reporters (Group ?h no_options) = Inr [sample_task ''b'', sample_task ''c'', sample_task ''z'']" by code_simp
  ultimately show ?thesis using chord_size_counts_reporters [of ?h no_options] by simp
qed

text \<open>
  a chain in a chord header that ends with a group of empty groups. The count falls through to
  the task before it and waits for one completion, but freezing marks the members of the last group,
  of which there are none: no task reports, and the body of the chord is never called.
\<close>

theorem vacuous_group_never_reports:
  "length_hint [Chain [Task n a k no_options i, Group [Group [] op, Group [] op] op] no_options False] = Inr 1
    \<and> reporters (Chain [Task n a k no_options i, Group [Group [] op, Group [] op] op] no_options False) = Inr []"
  by (simp add: length_hint_def unrolled_def maybe_unroll_group_def is_empty_group_def)

text \<open>
  partial arguments of a chain that starts with a group. Local evaluation calls the members of the
  group with the arguments; preparing the chain clones the group, which drops them, so that the
  prepared tasks are the same whatever arguments are given.
\<close>

theorem group_head_drops_arguments:
  "prepare_steps allow False [] a k [Group [t, u] gop, Task n a0 k0 op i] = prepare_steps allow False [] [] [] [Group [t, u] gop, Task n a0 k0 op i]
    \<and> apply_sig run (Chain [Group [t, u] gop, Task n a0 k0 op i] op i) a k
        = em_bind (apply_group run [t, u] a k) (\<lambda>rs. em_bind (em_lift (get_result (GroupRes rs))) (\<lambda>v.
            apply_sig run (Task n a0 k0 op i) [v] []))"
proof
  have "clone a k no_options (Group [t, u] gop) = clone [] [] no_options (Group [t, u] gop)" by (simp add: clone_def)
  then show "prepare_steps allow False [] a k [Group [t, u] gop, Task n a0 k0 op i]
      = prepare_steps allow False [] [] [] [Group [t, u] gop, Task n a0 k0 op i]"
    by (simp add: prepare_steps_def maybe_unroll_group_def is_empty_group_def unrolled_def step_clone_def Let_def
        prepare_task_def link_prev_def)
  have "gives_result (apply_sig run (Task n a0 k0 op i))" by (rule regular_gives_result) simp
  then have v: "step_ok run (Task n a0 k0 op i)" by (simp add: step_ok_def is_empty_group_def)
  moreover have "step_ok run (Group [t, u] gop)" unfolding step_ok_def by (simp add: is_empty_group_def del: apply_sig.simps)
  ultimately have "apply_chain run [Group [t, u] gop, Task n a0 k0 op i] None
      = then_run (apply_sig run (Group [t, u] gop)) (apply_sig run (Task n a0 k0 op i))"
    by (simp add: apply_chain_cons apply_chain_one is_empty_group_def)
  then show "apply_sig run (Chain [Group [t, u] gop, Task n a0 k0 op i] op i) a k
      = em_bind (apply_group run [t, u] a k) (\<lambda>rs. em_bind (em_lift (get_result (GroupRes rs))) (\<lambda>v.
          apply_sig run (Task n a0 k0 op i) [v] []))"
    by (simp add: then_run_def em_bind_assoc stops_chain_def del: apply_group.simps get_result.simps)
qed

end
