(* ===== verification/Config.thy ===== *)
theory Config
  imports Prelude
begin

text \<open>
  Configuration: the chained maps of \<open>celery.utils.collections\<close> (\<open>ChainMap\<close>, \<open>ConfigurationView\<close>,
  \<open>lpmerge\<close>) and the settings of \<open>celery.app.utils\<close> (\<open>Settings\<close>, \<open>detect_settings\<close>), which read every
  setting under its new name, its old name and its name with the prefix of the application.

  Keys are strings. Letter case is that of ASCII letters. The tables of old and new names, built in
  \<open>celery.app.defaults\<close>, are arguments.
\<close>

section \<open>Chained maps\<close>

type_synonym 'v layer = "(string, 'v) dict"

record 'v view =
  maps :: "'v layer list"
  key_t :: "(string \<Rightarrow> string) option"
  vprefix :: string
  spellings :: "(string \<Rightarrow> string) list"
  observers :: "nat list"
  notified :: "(nat \<times> 'v layer) list"

text \<open>The first of the maps is the one that is written to, \<open>changes\<close>; there is always one.\<close>

definition changes :: "'v view \<Rightarrow> 'v layer" where
  "changes c = (case maps c of [] \<Rightarrow> [] | m # ms \<Rightarrow> m)"

definition set_changes :: "'v layer \<Rightarrow> 'v view \<Rightarrow> 'v view" where
  "set_changes m c = c\<lparr>maps := m # tl (maps c)\<rparr>"

definition chain_map :: "(string \<Rightarrow> string) option \<Rightarrow> 'v layer list \<Rightarrow> 'v view" where
  "chain_map kt ms = \<lparr>maps = (if ms = [] then [[]] else ms), key_t = kt, vprefix = [], spellings = [], observers = [], notified = []\<rparr>"

definition cm_key :: "'v view \<Rightarrow> string \<Rightarrow> string" where
  "cm_key c k = (case key_t c of None \<Rightarrow> k | Some f \<Rightarrow> f k)"

fun lookup_layers :: "'v layer list \<Rightarrow> string list \<Rightarrow> 'v option" where
  "lookup_layers [] ks = None"
| "lookup_layers (m # ms) ks =
     (case filter (\<lambda>k. dict_get m k \<noteq> None) ks of k # _ \<Rightarrow> dict_get m k | [] \<Rightarrow> lookup_layers ms ks)"

definition cm_getitem :: "'v view \<Rightarrow> string \<Rightarrow> 'v result" where
  "cm_getitem c k = (case lookup_layers (maps c) [cm_key c k] of Some v \<Rightarrow> Inr v | None \<Rightarrow> Inl KeyError)"

definition cm_setitem :: "string \<Rightarrow> 'v \<Rightarrow> 'v view \<Rightarrow> 'v view" where
  "cm_setitem k v c = set_changes (dict_set (cm_key c k) v (changes c)) c"

definition cm_delitem :: "string \<Rightarrow> 'v view \<Rightarrow> 'v view result" where
  "cm_delitem k c = (case dict_get (changes c) (cm_key c k) of
     None \<Rightarrow> Inl KeyError | Some v \<Rightarrow> Inr (set_changes (dict_del (cm_key c k) (changes c)) c))"

definition cm_pop :: "string \<Rightarrow> 'v option \<Rightarrow> 'v view \<Rightarrow> ('v \<times> 'v view) result" where
  "cm_pop k dflt c = (case dict_get (changes c) (cm_key c k) of
     Some v \<Rightarrow> Inr (v, set_changes (dict_del (cm_key c k) (changes c)) c)
   | None \<Rightarrow> (case dflt of Some d \<Rightarrow> Inr (d, c) | None \<Rightarrow> Inl KeyError))"

definition cm_clear :: "'v view \<Rightarrow> 'v view" where
  "cm_clear c = set_changes [] c"

definition cm_get :: "'v view \<Rightarrow> string \<Rightarrow> 'v \<Rightarrow> 'v" where
  "cm_get c k dflt = (case cm_getitem c k of Inr v \<Rightarrow> v | Inl e \<Rightarrow> dflt)"

definition cm_contains :: "'v view \<Rightarrow> string \<Rightarrow> bool" where
  "cm_contains c k \<longleftrightarrow> (\<exists>m \<in> set (maps c). dict_get m (cm_key c k) \<noteq> None)"

definition cm_len :: "'v view \<Rightarrow> nat" where
  "cm_len c = card (\<Union>m \<in> set (maps c). set (keys m))"

definition cm_bool :: "'v view \<Rightarrow> bool" where
  "cm_bool c \<longleftrightarrow> (\<exists>m \<in> set (maps c). m \<noteq> [])"

text \<open>\<open>uniq\<close> keeps the first occurrence of every element.\<close>

definition uniq :: "'a list \<Rightarrow> 'a list" where
  "uniq xs = rev (remdups (rev xs))"

definition cm_keys :: "'v view \<Rightarrow> string list" where
  "cm_keys c = uniq (concat (map keys (rev (maps c))))"

fun res_items :: "('k \<Rightarrow> 'v result) \<Rightarrow> 'k list \<Rightarrow> ('k \<times> 'v) list result" where
  "res_items f [] = Inr []"
| "res_items f (k # ks) = res_bind (f k) (\<lambda>v. res_bind (res_items f ks) (\<lambda>kvs. Inr ((k, v) # kvs)))"

definition cm_items :: "'v view \<Rightarrow> (string \<times> 'v) list result" where
  "cm_items c = res_items (cm_getitem c) (cm_keys c)"

definition cm_setdefault :: "string \<Rightarrow> 'v \<Rightarrow> 'v view \<Rightarrow> 'v view" where
  "cm_setdefault k v c = (if cm_contains c k then c else cm_setitem k v c)"

text \<open>\<open>update\<close> writes the given keys as they are and then calls every observer once.\<close>

definition cm_update :: "'v layer \<Rightarrow> 'v view \<Rightarrow> 'v view" where
  "cm_update d c = (set_changes (dict_update (changes c) d) c)\<lparr>notified := notified c @ map (\<lambda>ob. (ob, d)) (observers c)\<rparr>"

definition bind_to :: "nat \<Rightarrow> 'v view \<Rightarrow> 'v view" where
  "bind_to ob c = c\<lparr>observers := observers c @ [ob]\<rparr>"

definition add_defaults :: "'v layer \<Rightarrow> 'v view \<Rightarrow> 'v view" where
  "add_defaults d c = c\<lparr>maps := changes c # d # tl (maps c)\<rparr>"

definition cm_copy :: "'v view \<Rightarrow> 'v view" where
  "cm_copy c = chain_map None (maps c)"

definition lpmerge :: "('k, 'v option) dict \<Rightarrow> ('k, 'v option) dict \<Rightarrow> ('k, 'v option) dict" where
  "lpmerge L R = dict_update L (filter (\<lambda>(k, v). v \<noteq> None) R)"

section \<open>Configuration views\<close>

definition upper_char :: "char \<Rightarrow> char" where
  "upper_char ch = (if 97 \<le> (of_char ch :: nat) \<and> (of_char ch :: nat) \<le> 122 then char_of ((of_char ch :: nat) - 32) else ch)"

definition lower_char :: "char \<Rightarrow> char" where
  "lower_char ch = (if 65 \<le> (of_char ch :: nat) \<and> (of_char ch :: nat) \<le> 90 then char_of ((of_char ch :: nat) + 32) else ch)"

definition is_upper_char :: "char \<Rightarrow> bool" where
  "is_upper_char ch \<longleftrightarrow> 65 \<le> (of_char ch :: nat) \<and> (of_char ch :: nat) \<le> 90"

definition is_lower_char :: "char \<Rightarrow> bool" where
  "is_lower_char ch \<longleftrightarrow> 97 \<le> (of_char ch :: nat) \<and> (of_char ch :: nat) \<le> 122"

definition py_isupper :: "string \<Rightarrow> bool" where
  "py_isupper s \<longleftrightarrow> (\<exists>ch \<in> set s. is_upper_char ch) \<and> (\<forall>ch \<in> set s. \<not> is_lower_char ch)"

definition match_case :: "string \<Rightarrow> string \<Rightarrow> string" where
  "match_case s other = (if py_isupper other then map upper_char s else map lower_char s)"

definition starts_with :: "string \<Rightarrow> string \<Rightarrow> bool" where
  "starts_with p s \<longleftrightarrow> take (length p) s = p"

definition rstrip_underscore :: "string \<Rightarrow> string" where
  "rstrip_underscore s = rev (dropWhile (\<lambda>ch. ch = CHR ''_'') (rev s))"

definition view_prefix :: "string \<Rightarrow> string" where
  "view_prefix p = (if p = [] then [] else rstrip_underscore p @ ''_'')"

definition configuration_view :: "'v layer \<Rightarrow> 'v layer list \<Rightarrow> (string \<Rightarrow> string) list \<Rightarrow> string \<Rightarrow> 'v view" where
  "configuration_view chg defaults ks p =
     (chain_map None (chg # defaults))\<lparr>vprefix := view_prefix p, spellings := ks\<rparr>"

definition to_keys :: "'v view \<Rightarrow> string \<Rightarrow> string list" where
  "to_keys c k =
     (let p = vprefix c;
          pkey = (if starts_with p k then k else p @ k)
      in (if p = [] then [k] else [match_case pkey p, k]) @ map (\<lambda>f. f k) (spellings c))"

definition cv_getitem :: "'v view \<Rightarrow> string \<Rightarrow> 'v result" where
  "cv_getitem c k = (case lookup_layers (maps c) (map (cm_key c) (to_keys c k)) of Some v \<Rightarrow> Inr v | None \<Rightarrow> Inl KeyError)"

definition cv_get :: "'v view \<Rightarrow> string \<Rightarrow> 'v option \<Rightarrow> 'v option" where
  "cv_get c k dflt = (case cv_getitem c k of Inr v \<Rightarrow> Some v | Inl e \<Rightarrow> dflt)"

definition cv_contains :: "'v view \<Rightarrow> string \<Rightarrow> bool" where
  "cv_contains c k \<longleftrightarrow> (\<exists>k' \<in> set (to_keys c k). cm_contains c k')"

definition cv_first :: "'v view \<Rightarrow> string list \<Rightarrow> 'v option" where
  "cv_first c ks = (case filter (\<lambda>v. v \<noteq> None) (map (\<lambda>k. cv_get c k None) ks) of v # _ \<Rightarrow> v | [] \<Rightarrow> None)"

definition cv_copy :: "'v view \<Rightarrow> 'v view" where
  "cv_copy c = (configuration_view (changes c) (tl (maps c)) (spellings c) (vprefix c))\<lparr>key_t := key_t c\<rparr>"

section \<open>Settings\<close>

definition without_defaults :: "'v view \<Rightarrow> 'v view" where
  "without_defaults c = configuration_view [] (butlast (maps c)) [] []"

definition value_set_for :: "'v view \<Rightarrow> string \<Rightarrow> bool" where
  "value_set_for c k = cv_contains (without_defaults c) k"

fun join_underscore :: "string list \<Rightarrow> string" where
  "join_underscore [] = []"
| "join_underscore [p] = p"
| "join_underscore (p # q # ps) = p @ ''_'' @ join_underscore (q # ps)"

definition get_by_parts :: "'v view \<Rightarrow> string list \<Rightarrow> 'v result" where
  "get_by_parts c parts = cv_getitem c (join_underscore (filter (\<lambda>p. p \<noteq> []) parts))"

text \<open>
  The settings that were given under old names are returned beside the view; the source keeps them
  in the view itself, under the key \<open>deprecated_settings\<close>.

  The tables of \<open>celery.app.defaults\<close>: defaults under new and under old names, and the renaming in both
  directions. \<open>convert\<close> of a key that is not in the table leaves it as it is.
\<close>

record 'v tables =
  new_defaults :: "'v layer"
  old_defaults :: "'v layer"
  to_new :: "(string, string) dict"
  to_old :: "(string, string) dict"

definition convert :: "(string, string) dict \<Rightarrow> string \<Rightarrow> string" where
  "convert tab k = (case dict_get tab k of Some k' \<Rightarrow> k' | None \<Rightarrow> k)"

definition convert_dict :: "(string, string) dict \<Rightarrow> 'v layer \<Rightarrow> 'v layer" where
  "convert_dict tab d = fold (\<lambda>(k, v). dict_set (convert tab k) v) d []"

text \<open>
  Which of the two naming schemes is in force, and the given keys of the other scheme. \<open>new_names\<close> is
  the decision; the source takes it in three statements that overwrite each other.
\<close>

definition uses_new_names :: "string set \<Rightarrow> string set \<Rightarrow> bool" where
  "uses_new_names is_in_new is_in_old =
     (let info = (if is_in_new \<noteq> {}
                  then (if is_in_old \<noteq> {} \<and> card is_in_old > card is_in_new then Some False else Some True)
                  else None);
          info = (if is_in_old \<noteq> {}
                  then (let info = (case info of None \<Rightarrow> Some False | Some i \<Rightarrow> Some i)
                        in if is_in_new \<noteq> {} \<and> card is_in_new > card is_in_old then Some True else info)
                  else Some True)
      in the info)"

datatype settings_error = ImproperlyConfigured "string set" | SettingsKeyError

definition detect_settings :: "'v tables \<Rightarrow> 'v layer option \<Rightarrow> 'v layer \<Rightarrow> string set \<Rightarrow> string \<Rightarrow>
    settings_error + 'v view \<times> string set" where
  "detect_settings T conf preconf ignore_keys p =
     (let source = (case conf of None \<Rightarrow> preconf | Some c \<Rightarrow> c);
          given = (case conf of None \<Rightarrow> [] | Some c \<Rightarrow> c);
          have_keys = set (keys source) - ignore_keys;
          is_in_new = have_keys \<inter> set (keys (new_defaults T));
          is_in_old = have_keys \<inter> set (keys (to_new T));
          new_names = (p \<noteq> [] \<or> uses_new_names is_in_new is_in_old);
          left = (if p \<noteq> [] then {} else if new_names then is_in_old else is_in_new);
          tab = (if new_names then to_new T else to_old T);
          dflts = (if new_names then new_defaults T else old_defaults T)
      in if \<exists>k \<in> left. dict_get tab k = None then Inl SettingsKeyError
         else if \<exists>k \<in> left. convert tab k \<notin> have_keys
         then Inl (ImproperlyConfigured {k \<in> left. convert tab k \<notin> have_keys})
         else Inr (configuration_view (convert_dict tab preconf) [given, dflts] [convert (to_new T), convert (to_old T)] p, is_in_old))"

section \<open>Lookup\<close>

lemma lookup_layers_None: "lookup_layers ms ks = None \<longleftrightarrow> (\<forall>m \<in> set ms. \<forall>k \<in> set ks. dict_get m k = None)"
proof (induction ms)
  case (Cons m ms)
  show ?case
  proof (cases "filter (\<lambda>k. dict_get m k \<noteq> None) ks")
    case Nil
    then show ?thesis using Cons by (auto simp: filter_empty_conv)
  next
    case (Cons k rest)
    then have "k \<in> set (filter (\<lambda>k. dict_get m k \<noteq> None) ks)" by simp
    then have "k \<in> set ks" "dict_get m k \<noteq> None" by auto
    then show ?thesis using Cons by auto
  qed
qed simp

lemma lookup_layers_single: "lookup_layers (m # ms) [k] = (case dict_get m k of Some v \<Rightarrow> Some v | None \<Rightarrow> lookup_layers ms [k])"
  by (auto split: option.splits)

lemma lookup_layers_hd: "k # rest = filter (\<lambda>k. dict_get m k \<noteq> None) ks \<Longrightarrow> lookup_layers (m # ms) ks = dict_get m k"
  by (cases "filter (\<lambda>k. dict_get m k \<noteq> None) ks") auto

lemma res_items_ok:
  "\<forall>k \<in> set ks. \<exists>v. f k = Inr v \<Longrightarrow> \<exists>its. res_items f ks = Inr its \<and> map fst its = ks \<and> (\<forall>(k, v) \<in> set its. f k = Inr v)"
proof (induction ks)
  case (Cons k ks)
  then obtain v its where "f k = Inr v" "res_items f ks = Inr its" "map fst its = ks" "\<forall>(k, v) \<in> set its. f k = Inr v" by auto
  then show ?case by auto
qed simp

lemma set_uniq [simp]: "set (uniq xs) = set xs" and distinct_uniq [simp]: "distinct (uniq xs)"
  by (auto simp: uniq_def)

section \<open>Properties\<close>

text \<open>
  iterating over a chained map without key conversion gives each key of any of the maps once,
  with the value of the first map that has it, and \<open>len\<close> counts those keys.
\<close>

theorem chained_items_are_lookups:
  assumes "key_t c = None"
  shows "\<exists>its. cm_items c = Inr its \<and> distinct (keys its) \<and> length its = cm_len c
    \<and> (\<forall>k. dict_get its k = lookup_layers (maps c) [k])"
proof -
  have dom: "set (cm_keys c) = (\<Union>m \<in> set (maps c). set (keys m))" by (auto simp: cm_keys_def)
  have "\<exists>v. cm_getitem c k = Inr v" if k: "k \<in> set (cm_keys c)" for k
  proof -
    have "lookup_layers (maps c) [k] \<noteq> None" using k dom by (auto simp: lookup_layers_None dict_get_None_iff)
    then show ?thesis using assms by (auto simp: cm_getitem_def cm_key_def)
  qed
  then obtain its where its: "cm_items c = Inr its" "map fst its = cm_keys c" "\<forall>(k, v) \<in> set its. cm_getitem c k = Inr v"
    using res_items_ok [of "cm_keys c" "cm_getitem c"] by (auto simp: cm_items_def)
  have d: "distinct (keys its)" by (simp add: its(2) cm_keys_def)
  have "dict_get its k = lookup_layers (maps c) [k]" for k
  proof (cases "dict_get its k")
    case None
    then have "k \<notin> set (cm_keys c)" by (simp add: dict_get_None_iff its(2))
    then have "lookup_layers (maps c) [k] = None" using dom by (auto simp: lookup_layers_None dict_get_None_iff)
    then show ?thesis using None by simp
  next
    case (Some v)
    then have "cm_getitem c k = Inr v" using its(3) dict_get_mem by fastforce
    then show ?thesis using Some assms by (auto simp: cm_getitem_def cm_key_def split: option.splits)
  qed
  moreover have "length its = cm_len c"
    using distinct_card [of "cm_keys c"] dom its(2) by (simp add: cm_len_def cm_keys_def flip: length_map [of fst its])
  ultimately show ?thesis using its(1) d by blast
qed

definition sample_view :: "nat view" where
  "sample_view = chain_map None [[(''a'', 1)], [(''b'', 2), (''a'', 3)]]"

theorem chained_items_are_lookups_witness: "\<exists>its. cm_items sample_view = Inr its \<and> length its = 2"
proof -
  have "key_t sample_view = None" "cm_len sample_view = 2" by code_simp+
  then show ?thesis using chained_items_are_lookups [of sample_view] by auto
qed

text \<open>
  a setting is in a configuration view exactly when reading it succeeds, under whatever spelling.\<close>

theorem view_contains_iff_readable: "cv_contains c k = (\<exists>v. cv_getitem c k = Inr v)"
proof -
  have "cv_contains c k \<longleftrightarrow> lookup_layers (maps c) (map (cm_key c) (to_keys c k)) \<noteq> None"
    by (auto simp: cv_contains_def cm_contains_def lookup_layers_None)
  then show ?thesis by (auto simp: cv_getitem_def split: option.splits)
qed

text \<open>
  What the tables of names promise: renaming an old name and renaming a new name are inverse to each
  other, and no name is both old and new.
\<close>

definition tables_ok :: "'v tables \<Rightarrow> bool" where
  "tables_ok T \<longleftrightarrow> (\<forall>k n. dict_get (to_new T) k = Some n \<longrightarrow> dict_get (to_old T) n = Some k
      \<and> dict_get (to_new T) n = None \<and> dict_get (to_old T) k = None)"

lemma lookup_layers_same_spellings:
  assumes "\<And>m. m \<in> set ms \<Longrightarrow> dict_get m x = None \<or> dict_get m y = None"
    and "set ks = {x, y}" and "set ls = {x, y}"
  shows "lookup_layers ms ks = lookup_layers ms ls"
  using assms(1)
proof (induction ms)
  case (Cons m ms)
  have pick: "(case filter (\<lambda>k. dict_get m k \<noteq> None) zs of k # _ \<Rightarrow> dict_get m k | [] \<Rightarrow> r)
      = (case dict_get m x of Some v \<Rightarrow> Some v | None \<Rightarrow> case dict_get m y of Some v \<Rightarrow> Some v | None \<Rightarrow> r)"
    if zs: "set zs = {x, y}" for zs r
  proof (cases "filter (\<lambda>k. dict_get m k \<noteq> None) zs")
    case Nil
    then have "dict_get m x = None" "dict_get m y = None" using zs by (auto simp: filter_empty_conv)
    then show ?thesis using Nil by simp
  next
    case (Cons k rest)
    then have "k \<in> set (filter (\<lambda>k. dict_get m k \<noteq> None) zs)" by simp
    then have "k = x \<or> k = y" "dict_get m k \<noteq> None" using zs by auto
    then show ?thesis using Cons Cons.prems [of m] by (auto split: option.splits)
  qed
  have "lookup_layers ms ks = lookup_layers ms ls" using Cons by simp
  then show ?case by (simp only: lookup_layers.simps pick [OF assms(2)] pick [OF assms(3)])
qed simp

lemma detect_settings_view:
  assumes "detect_settings T conf preconf ign p = Inr (s, d)"
  shows "spellings s = [convert (to_new T), convert (to_old T)]" "vprefix s = view_prefix p" "key_t s = None"
    "\<exists>tab dflts. maps s = [convert_dict tab preconf, case conf of None \<Rightarrow> [] | Some c \<Rightarrow> c, dflts]"
  using assms by (auto simp: detect_settings_def Let_def configuration_view_def chain_map_def split: if_splits option.splits)

text \<open>
  old and new names of a setting are interchangeable. When the settings are accepted without a
  prefix, and no layer holds a setting under both of its names, it has the same value under both.
\<close>

theorem old_and_new_names_agree:
  assumes "tables_ok T" and "detect_settings T conf preconf ign [] = Inr (s, d)"
    and "dict_get (to_new T) old_name = Some new_name"
    and "\<forall>m \<in> set (maps s). dict_get m old_name = None \<or> dict_get m new_name = None"
  shows "cv_getitem s new_name = cv_getitem s old_name"
proof -
  note v = detect_settings_view [OF assms(2)]
  have tab: "dict_get (to_old T) new_name = Some old_name" "dict_get (to_new T) new_name = None" "dict_get (to_old T) old_name = None"
    using assms(1,3) by (auto simp: tables_ok_def)
  have "map (cm_key s) (to_keys s new_name) = [new_name, new_name, old_name]"
    "map (cm_key s) (to_keys s old_name) = [old_name, new_name, old_name]"
    using v tab assms(3) by (simp_all add: to_keys_def cm_key_def convert_def view_prefix_def)
  moreover have "lookup_layers (maps s) [new_name, new_name, old_name] = lookup_layers (maps s) [old_name, new_name, old_name]"
    by (rule lookup_layers_same_spellings [of _ old_name new_name]) (use assms(4) in auto)
  ultimately show ?thesis by (simp only: cv_getitem_def)
qed

definition sample_tables :: "nat tables" where
  "sample_tables = \<lparr>new_defaults = [(''task_retry'', 0), (''broker'', 7)], old_defaults = [(''CELERY_RETRY'', 0), (''BROKER'', 7)],
     to_new = [(''CELERY_RETRY'', ''task_retry''), (''BROKER'', ''broker'')],
     to_old = [(''task_retry'', ''CELERY_RETRY''), (''broker'', ''BROKER'')]\<rparr>"

lemma sample_tables_ok: "tables_ok sample_tables"
  by (auto simp: tables_ok_def sample_tables_def split: if_splits)

definition sample_settings :: "nat view" where
  "sample_settings = configuration_view [] [[(''CELERY_RETRY'', 5)], old_defaults sample_tables]
     [convert (to_new sample_tables), convert (to_old sample_tables)] []"

lemma sample_settings_detected:
  "detect_settings sample_tables (Some [(''CELERY_RETRY'', 5)]) [] {} [] = Inr (sample_settings, {''CELERY_RETRY''})"
proof -
  have "{''CELERY_RETRY''} \<inter> set (keys (new_defaults sample_tables)) = {}"
    "{''CELERY_RETRY''} \<inter> set (keys (to_new sample_tables)) = {''CELERY_RETRY''}" by code_simp+
  moreover have "\<not> uses_new_names {} {''CELERY_RETRY''}" by (simp add: uses_new_names_def)
  ultimately show ?thesis by (simp add: detect_settings_def Let_def convert_dict_def sample_settings_def)
qed

theorem old_and_new_names_agree_witness:
  "\<exists>s d. detect_settings sample_tables (Some [(''CELERY_RETRY'', 5)]) [] {} [] = Inr (s, d)
     \<and> cv_getitem s ''task_retry'' = Inr 5 \<and> cv_getitem s ''CELERY_RETRY'' = Inr 5"
proof -
  have n: "dict_get (to_new sample_tables) ''CELERY_RETRY'' = Some ''task_retry''" by code_simp
  have l: "\<forall>m \<in> set (maps sample_settings). dict_get m ''CELERY_RETRY'' = None \<or> dict_get m ''task_retry'' = None" by code_simp
  have "cv_getitem sample_settings ''CELERY_RETRY'' = Inr 5" by code_simp
  then show ?thesis using old_and_new_names_agree [OF sample_tables_ok sample_settings_detected n l] sample_settings_detected by auto
qed

text \<open>
  a write to a configuration view with a prefix can be invisible. Reading looks for the prefixed
  spelling first, writing stores the key as given: when the changes hold the prefixed spelling, the
  setting keeps its old value.
\<close>

theorem prefixed_spelling_shadows_write:
  assumes "maps c = m # ms" and "key_t c = None" and "vprefix c \<noteq> []"
    and "dict_get m (hd (to_keys c k)) = Some old_value" and "hd (to_keys c k) \<noteq> k"
  shows "cv_getitem (cm_setitem k v c) k = Inr old_value"
proof -
  have keys: "to_keys (cm_setitem k v c) k = to_keys c k" by (simp add: to_keys_def cm_setitem_def set_changes_def)
  obtain k1 ks where ks: "to_keys c k = k1 # ks" using assms(3) by (simp add: to_keys_def Let_def)
  have id: "cm_key (cm_setitem k v c) = (\<lambda>k. k)" using assms(2) by (auto simp: cm_key_def cm_setitem_def set_changes_def)
  have m: "maps (cm_setitem k v c) = dict_set k v m # ms"
    using assms(1,2) by (simp add: cm_setitem_def set_changes_def changes_def cm_key_def)
  have "dict_get (dict_set k v m) k1 = Some old_value" using assms(4,5) ks by (simp add: dict_simps)
  then show ?thesis by (simp add: cv_getitem_def keys ks id m)
qed

theorem prefixed_spelling_shadows_write_witness:
  "cv_getitem (cm_setitem ''url'' 2 (configuration_view [(''APP_URL'', 1)] [] [] ''APP'')) ''url'' = Inr (1 :: nat)"
proof -
  let ?c = "configuration_view [(''APP_URL'', 1 :: nat)] [] [] ''APP''"
  have "maps ?c = [[(''APP_URL'', 1)]]" "key_t ?c = None" "vprefix ?c \<noteq> []"
    "dict_get [(''APP_URL'', 1)] (hd (to_keys ?c ''url'')) = Some (1 :: nat)" "hd (to_keys ?c ''url'') \<noteq> ''url''"
    by code_simp+
  then show ?thesis by (rule prefixed_spelling_shadows_write)
qed

text \<open>
  \<open>value_set_for\<close> does not see a setting given under its old name. The view without defaults has
  lost the renaming of keys, so that a setting the application did give counts as not set.
\<close>

theorem old_name_not_seen_as_set:
  assumes "tables_ok T" and "dict_get (to_new T) old_name = Some new_name"
    and "detect_settings T (Some [(old_name, v)]) [] ign [] = Inr (s, d)"
  shows "cv_getitem s new_name = Inr v \<and> \<not> value_set_for s new_name"
proof -
  note w = detect_settings_view [OF assms(3)]
  have "dict_get (to_old T) new_name = Some old_name" "dict_get (to_new T) new_name = None"
    using assms(1,2) by (auto simp: tables_ok_def)
  then have tab: "dict_get (to_old T) new_name = Some old_name" "dict_get (to_new T) new_name = None" "old_name \<noteq> new_name"
    using assms(2) by auto
  obtain dflts where maps: "maps s = [[], [(old_name, v)], dflts]"
    using w(4) by (auto simp: convert_dict_def)
  have "map (cm_key s) (to_keys s new_name) = [new_name, new_name, old_name]"
    using w tab by (simp add: to_keys_def cm_key_def convert_def view_prefix_def)
  then have "cv_getitem s new_name = Inr v" using maps tab(3) by (simp add: cv_getitem_def)
  moreover have "\<not> value_set_for s new_name"
    using maps tab(3) by (simp add: value_set_for_def without_defaults_def cv_contains_def to_keys_def cm_contains_def
        configuration_view_def chain_map_def view_prefix_def cm_key_def)
  ultimately show ?thesis ..
qed

theorem old_name_not_seen_as_set_witness:
  "\<exists>s d. detect_settings sample_tables (Some [(''CELERY_RETRY'', 5)]) [] {} [] = Inr (s, d) \<and> \<not> value_set_for s ''task_retry''"
proof -
  have n: "dict_get (to_new sample_tables) ''CELERY_RETRY'' = Some ''task_retry''" by code_simp
  show ?thesis using old_name_not_seen_as_set [OF sample_tables_ok n sample_settings_detected] sample_settings_detected by blast
qed

end
