(* ===== verification/Autoscale.thy ===== *)
theory Autoscale
  imports Prelude
begin

text \<open>
  The autoscaler, \<open>celery.worker.autoscale\<close>: growing and shrinking the pool with the number of reserved
  requests, between a minimum and a maximum, and changing these limits while the worker runs.

  The pool belongs to a third-party package: growing adds the given number of processes; shrinking may
  stop early because processes are busy, so that the number left after it is an argument.
\<close>

section \<open>The autoscaler\<close>

record scaler =
  processes :: int
  max_concurrency :: int
  min_concurrency :: int
  keepalive :: rat
  last_scale_up :: "rat option"
  prefetch_changes :: "int list"
  maintained :: nat

text \<open>\<open>pool_shrink p n\<close> is the number of processes left when \<open>n\<close> of \<open>p\<close> are to be stopped.\<close>

type_synonym pool_shrink = "int \<Rightarrow> int \<Rightarrow> int"

definition grow :: "int \<Rightarrow> scaler \<Rightarrow> scaler" where
  "grow n a = a\<lparr>processes := processes a + n\<rparr>"

definition shrink :: "pool_shrink \<Rightarrow> int \<Rightarrow> scaler \<Rightarrow> scaler" where
  "shrink ps n a = a\<lparr>processes := ps (processes a) n\<rparr>"

definition scale_up :: "rat \<Rightarrow> int \<Rightarrow> scaler \<Rightarrow> scaler" where
  "scale_up now n a = grow n (a\<lparr>last_scale_up := Some now\<rparr>)"

definition scale_down :: "pool_shrink \<Rightarrow> rat \<Rightarrow> int \<Rightarrow> scaler \<Rightarrow> scaler" where
  "scale_down ps now n a = (case last_scale_up a of
     None \<Rightarrow> a
   | Some t \<Rightarrow> if t \<noteq> 0 \<and> now - t > keepalive a then shrink ps n a else a)"

definition maybe_scale0 :: "pool_shrink \<Rightarrow> rat \<Rightarrow> int \<Rightarrow> scaler \<Rightarrow> bool \<times> scaler" where
  "maybe_scale0 ps now qty a =
     (let procs = processes a; cur = min qty (max_concurrency a) in
      if cur > procs then (True, scale_up now (cur - procs) a)
      else (let cur = max qty (min_concurrency a) in
            if cur < procs then (True, scale_down ps now (procs - cur) a) else (False, a)))"

definition maybe_scale :: "pool_shrink \<Rightarrow> rat \<Rightarrow> int \<Rightarrow> scaler \<Rightarrow> scaler" where
  "maybe_scale ps now qty a = (case maybe_scale0 ps now qty a of
     (scaled, a') \<Rightarrow> if scaled then a'\<lparr>maintained := maintained a' + 1\<rparr> else a')"

definition update_consumer_prefetch_count :: "int \<Rightarrow> scaler \<Rightarrow> scaler" where
  "update_consumer_prefetch_count new_max a =
     (let diff = new_max - max_concurrency a in
      if diff \<noteq> 0 then a\<lparr>prefetch_changes := prefetch_changes a @ [diff]\<rparr> else a)"

definition update_max :: "pool_shrink \<Rightarrow> int option \<Rightarrow> scaler \<Rightarrow> scaler" where
  "update_max ps mx a = (case mx of None \<Rightarrow> a
     | Some m \<Rightarrow> (update_consumer_prefetch_count m (if m < processes a then shrink ps (processes a - m) a else a))\<lparr>max_concurrency := m\<rparr>)"

definition update_min :: "int option \<Rightarrow> scaler \<Rightarrow> scaler" where
  "update_min mn a = (case mn of None \<Rightarrow> a
     | Some m \<Rightarrow> (if m > processes a then grow (m - processes a) a else a)\<lparr>min_concurrency := m\<rparr>)"

definition update :: "pool_shrink \<Rightarrow> int option \<Rightarrow> int option \<Rightarrow> scaler \<Rightarrow> (int \<times> int) \<times> scaler" where
  "update ps mx mn a = (let a' = update_min mn (update_max ps mx a) in ((max_concurrency a', min_concurrency a'), a'))"

section \<open>Bounds of the pool\<close>

text \<open>What shrinking promises: it stops at most as many processes as it is told to.\<close>

definition shrink_ok :: "pool_shrink \<Rightarrow> bool" where
  "shrink_ok ps \<longleftrightarrow> (\<forall>p n. 0 \<le> n \<longrightarrow> p - n \<le> ps p n \<and> ps p n \<le> p)"

definition in_bounds :: "scaler \<Rightarrow> bool" where
  "in_bounds a \<longleftrightarrow> min_concurrency a \<le> processes a \<and> processes a \<le> max_concurrency a"

text \<open>
  The calls the autoscaler gets: ticks with any number of reserved requests, and new limits. New limits
  are in order, and a pool told to shrink below a new maximum has enough idle processes for it.
\<close>

datatype scale_event = Tick rat int | Limits "int option" "int option"

inductive scale_step :: "scaler \<Rightarrow> scale_event \<times> pool_shrink \<Rightarrow> scaler \<Rightarrow> bool" where
  tick: "shrink_ok ps \<Longrightarrow> scale_step a (Tick now qty, ps) (maybe_scale ps now qty a)"
| limits: "\<forall>p n. ps p n = p - n \<Longrightarrow> update ps mx mn a = ((new_max, new_min), a') \<Longrightarrow> new_min \<le> new_max \<Longrightarrow>
    scale_step a (Limits mx mn, ps) a'"

lemmas scaler_defs = grow_def shrink_def scale_up_def scale_down_def maybe_scale0_def maybe_scale_def
  update_consumer_prefetch_count_def update_max_def update_min_def update_def

lemma maybe_scale_bounds:
  assumes "shrink_ok ps" and "in_bounds a"
  shows "in_bounds (maybe_scale ps now qty a)"
proof -
  have "processes a - n \<le> ps (processes a) n \<and> ps (processes a) n \<le> processes a" if "0 \<le> n" for n
    using assms(1) that by (simp add: shrink_ok_def)
  from this [of "processes a - max qty (min_concurrency a)"] show ?thesis
    using assms(2) by (auto simp: scaler_defs in_bounds_def Let_def split: option.splits)
qed

lemma update_bounds:
  assumes "\<forall>p n. ps p n = p - n" and "update ps mx mn a = ((new_max, new_min), a')" and "new_min \<le> new_max" and "in_bounds a"
  shows "in_bounds a'"
  using assms by (auto simp: scaler_defs in_bounds_def Let_def split: option.splits if_splits)

interpretation scaling: invariant_system in_bounds scale_step in_bounds
  by unfold_locales (auto elim!: scale_step.cases intro: maybe_scale_bounds update_bounds)

section \<open>Properties\<close>

text \<open>
  the pool stays between its limits. From a pool within its limits, any sequence of ticks and
  changes of the limits keeps the number of processes between the minimum and the maximum.
\<close>

theorem autoscaler_keeps_bounds:
  assumes "reach in_bounds scale_step a"
  shows "min_concurrency a \<le> processes a \<and> processes a \<le> max_concurrency a"
  using scaling.inv_reach [OF assms] by (simp add: in_bounds_def)

definition sample_scaler :: scaler where
  "sample_scaler = \<lparr>processes = 3, max_concurrency = 10, min_concurrency = 3, keepalive = 30, last_scale_up = None,
     prefetch_changes = [], maintained = 0\<rparr>"

definition full_shrink :: pool_shrink where
  "full_shrink p n = p - n"

lemma sample_scaler_bounds: "in_bounds sample_scaler" by code_simp

lemma full_shrink_ok: "shrink_ok full_shrink"
  by (simp add: shrink_ok_def full_shrink_def)

theorem autoscaler_keeps_bounds_witness:
  "processes (maybe_scale full_shrink 5 25 sample_scaler) = 10 \<and> processes (maybe_scale full_shrink 5 25 sample_scaler) \<le> 10"
proof -
  have "reach in_bounds scale_step (maybe_scale full_shrink 5 25 sample_scaler)"
  proof (rule reach_step)
    show "reach in_bounds scale_step sample_scaler" by (rule reach_init) (rule sample_scaler_bounds)
    show "scale_step sample_scaler (Tick 5 25, full_shrink) (maybe_scale full_shrink 5 25 sample_scaler)" by (rule tick) (rule full_shrink_ok)
  qed
  moreover have "max_concurrency (maybe_scale full_shrink 5 25 sample_scaler) = 10" "processes (maybe_scale full_shrink 5 25 sample_scaler) = 10"
    by code_simp+
  ultimately show ?thesis using autoscaler_keeps_bounds by fastforce
qed

text \<open>
  one tick brings the pool to the load. A pool within its limits that has scaled up before, longer
  ago than the keep-alive time, and has enough idle processes, has after a tick exactly as many
  processes as there are reserved requests, cut off at the limits.
\<close>

theorem tick_follows_load:
  assumes "in_bounds a" and "\<forall>p n. ps p n = p - n" and "last_scale_up a = Some t" and "t \<noteq> 0" and "now - t > keepalive a"
  shows "processes (maybe_scale ps now qty a) = max (min_concurrency a) (min qty (max_concurrency a))"
  using assms by (auto simp: scaler_defs in_bounds_def Let_def)

theorem tick_follows_load_witness:
  "processes (maybe_scale full_shrink 100 5 (sample_scaler\<lparr>processes := 8, last_scale_up := Some 60\<rparr>)) = 5"
proof -
  let ?a = "sample_scaler\<lparr>processes := 8, last_scale_up := Some 60\<rparr>"
  have "in_bounds ?a" "last_scale_up ?a = Some 60" "(60::rat) \<noteq> 0" "100 - 60 > keepalive ?a" by code_simp+
  then have "processes (maybe_scale full_shrink 100 5 ?a) = max (min_concurrency ?a) (min 5 (max_concurrency ?a))"
    by (intro tick_follows_load) (auto simp: full_shrink_def)
  then show ?thesis by (simp add: sample_scaler_def)
qed

text \<open>
  processes added by raising the minimum are never given back. Raising the minimum grows the pool
  without noting the time, and without a noted time no tick shrinks it: after the minimum is lowered
  again an idle pool keeps its size for as long as the load does not exceed it.
\<close>

theorem raised_minimum_sticks:
  assumes "last_scale_up a = None" and "processes a < m" and "m \<le> max_concurrency a" and "l \<le> m" and "qty \<le> m"
  shows "processes (maybe_scale ps now qty (snd (update ps None (Some l) (snd (update ps None (Some m) a))))) = m"
  using assms by (auto simp: scaler_defs Let_def)

theorem raised_minimum_sticks_witness:
  "processes (maybe_scale full_shrink 1000 0 (snd (update full_shrink None (Some 1) (snd (update full_shrink None (Some 9) sample_scaler))))) = 9"
  by (rule raised_minimum_sticks) (simp_all add: sample_scaler_def)

end
