(* ===== verification/Queues.thy ===== *)
theory Queues
  imports Config
begin

text \<open>
  The table of task queues, class \<open>Queues\<close> of \<open>celery.app.amqp\<close>, with the operations of the worker that
  choose the queues to consume from (\<open>setup_queues\<close> of \<open>worker/worker.py\<close>, \<open>add_task_queue\<close> and
  \<open>cancel_task_queue\<close> of \<open>worker/consumer/consumer.py\<close>).

  A queue declaration is an object of a third-party package: a record of the attributes the source reads
  and writes, with an identity, because the table of aliases refers to queues weakly. An alias is alive
  as long as its queue is referred to from the tables, or from elsewhere in the program (\<open>held\<close>).
  An exchange object is always true. The function that makes a declaration from options and the one that makes the exchange
  of a missing queue are arguments.
\<close>

section \<open>Declarations and the table\<close>

record exchange =
  ex_name :: string
  ex_type :: string
  ex_delivery_mode :: "int option"

datatype qarg = QStr string | QInt int

record queue =
  qid :: nat
  qname :: string
  qexchange :: "exchange option"
  qrouting_key :: "string option"
  qalias :: "string option"
  qarguments :: "(string, qarg) dict option"

text \<open>The values of routing and declaration options; Python's \<open>None\<close> is \<open>None\<close>.\<close>

datatype oval = OStr string | OInt int | OBool bool | OExchange exchange | OQueue queue

type_synonym opts = "(string, oval option) dict"

record queues =
  qmap :: "(string, queue) dict"
  aliases :: "(string, queue) dict"
  default_exchange :: "exchange option"
  default_routing_key :: "string option"
  create_missing :: bool
  create_missing_queue_type :: "string option"
  create_missing_queue_exchange_type :: "string option"
  max_priority :: "int option"
  selected :: "(string, queue) dict option"
  default_consume_from :: "(string, queue) dict"
  next_qid :: nat
  held :: "nat list"

record declarations =
  autoexchange :: "string \<Rightarrow> exchange option"
  from_dict :: "string \<Rightarrow> opts \<Rightarrow> queue"

definition consume_from :: "queues \<Rightarrow> (string, queue) dict" where
  "consume_from qs = (case selected qs of Some d \<Rightarrow> d | None \<Rightarrow> default_consume_from qs)"

definition live :: "queues \<Rightarrow> queue \<Rightarrow> bool" where
  "live qs q \<longleftrightarrow> qid q \<in> set (held qs) \<or>
     qid q \<in> qid ` (set (vals (qmap qs)) \<union> set (vals (default_consume_from qs)) \<union>
       (case selected qs of None \<Rightarrow> {} | Some d \<Rightarrow> set (vals d)))"

definition alias_get :: "queues \<Rightarrow> string \<Rightarrow> queue option" where
  "alias_get qs name = (case dict_get (aliases qs) name of
     None \<Rightarrow> None
   | Some q \<Rightarrow> if live qs q then Some q else None)"

section \<open>Adding queues\<close>

definition str_true :: "string option \<Rightarrow> bool" where
  "str_true s \<longleftrightarrow> s \<noteq> None \<and> s \<noteq> Some []"

definition set_max_priority :: "int option \<Rightarrow> (string, qarg) dict \<Rightarrow> (string, qarg) dict" where
  "set_max_priority mp args =
     (if dict_get args ''x-max-priority'' = None
      then (case mp of None \<Rightarrow> args | Some p \<Rightarrow> dict_set ''x-max-priority'' (QInt p) args) else args)"

text \<open>What \<open>__setitem__\<close> does to the queue object before it enters the table.\<close>

definition fill_exchange :: "queues \<Rightarrow> queue \<Rightarrow> queue" where
  "fill_exchange qs q = (if default_exchange qs \<noteq> None \<and> qexchange q = None then q\<lparr>qexchange := default_exchange qs\<rparr> else q)"

definition fill_routing_key :: "queues \<Rightarrow> queue \<Rightarrow> queue" where
  "fill_routing_key qs q = (if \<not> str_true (qrouting_key q) then q\<lparr>qrouting_key := default_routing_key qs\<rparr> else q)"

definition fill_arguments :: "queues \<Rightarrow> queue \<Rightarrow> queue" where
  "fill_arguments qs q = (case max_priority qs of
     None \<Rightarrow> q
   | Some p \<Rightarrow> q\<lparr>qarguments := Some (set_max_priority (Some p) (case qarguments q of None \<Rightarrow> [] | Some a \<Rightarrow> a))\<rparr>)"

definition fill_in :: "queues \<Rightarrow> queue \<Rightarrow> queue" where
  "fill_in qs q = fill_arguments qs (fill_routing_key qs (fill_exchange qs q))"

definition setitem :: "string \<Rightarrow> queue \<Rightarrow> queues \<Rightarrow> queue \<times> queues" where
  "setitem name q qs =
     (let q = fill_in qs q;
          qs = qs\<lparr>qmap := dict_set name q (qmap qs)\<rparr> in
      (q, if str_true (qalias q) then qs\<lparr>aliases := dict_set (the (qalias q)) q (aliases qs)\<rparr> else qs))"

definition add_queue :: "queue \<Rightarrow> queues \<Rightarrow> queue \<times> queues" where
  "add_queue q qs =
     (let q = (if default_exchange qs \<noteq> None \<and> (case qexchange q of None \<Rightarrow> True | Some x \<Rightarrow> ex_name x = [])
               then q\<lparr>qexchange := default_exchange qs\<rparr> else q) in
      setitem (qname q) q qs)"

text \<open>A new queue object gets the next identity.\<close>

definition alloc :: "queue \<Rightarrow> queues \<Rightarrow> queue \<times> queues" where
  "alloc q qs = (q\<lparr>qid := next_qid qs\<rparr>, qs\<lparr>next_qid := Suc (next_qid qs)\<rparr>)"

definition compat_options :: "string \<Rightarrow> opts \<Rightarrow> opts" where
  "compat_options name options =
     (let options = dict_setdefault ''routing_key'' (case dict_get options ''binding_key'' of None \<Rightarrow> None | Some v \<Rightarrow> v) options in
      if dict_get options ''routing_key'' = Some None then dict_set ''routing_key'' (Some (OStr name)) options else options)"

definition add_compat :: "declarations \<Rightarrow> string \<Rightarrow> opts \<Rightarrow> queues \<Rightarrow> queue \<times> queues" where
  "add_compat env name options qs =
     (case alloc (from_dict env name (compat_options name options)) qs of (q, qs) \<Rightarrow> add_queue q qs)"

text \<open>The argument of \<open>add\<close>: a queue object, or the name of a queue with options.\<close>

datatype queue_decl = DQueue queue | DOptions string opts

fun add :: "declarations \<Rightarrow> queue_decl \<Rightarrow> queues \<Rightarrow> queue \<times> queues" where
  "add env (DQueue q) qs = add_queue q qs"
| "add env (DOptions name options) qs = add_compat env name options qs"

section \<open>Looking up queues\<close>

definition new_missing :: "declarations \<Rightarrow> string \<Rightarrow> queues \<Rightarrow> (queue \<times> queues) result" where
  "new_missing env name qs =
     (let ty = create_missing_queue_type qs in
      if str_true ty \<and> ty \<noteq> Some ''classic'' \<and> ty \<noteq> Some ''quorum'' then Inl ValueError
      else (let queue_arguments = (if str_true ty \<and> ty \<noteq> Some ''classic'' then Some [(''x-queue-type'', QStr (the ty))] else None);
                ex = (if str_true (create_missing_queue_exchange_type qs)
                      then Some \<lparr>ex_name = name, ex_type = the (create_missing_queue_exchange_type qs), ex_delivery_mode = None\<rparr>
                      else autoexchange env name) in
            Inr (alloc \<lparr>qid = 0, qname = name, qexchange = ex, qrouting_key = Some name, qalias = None, qarguments = queue_arguments\<rparr> qs)))"

definition missing :: "declarations \<Rightarrow> string \<Rightarrow> queues \<Rightarrow> queue result \<times> queues" where
  "missing env name qs =
     (if create_missing qs
      then (case new_missing env name qs of
          Inl e \<Rightarrow> (Inl e, qs)
        | Inr (q, qs) \<Rightarrow> (case add_queue q qs of (q, qs) \<Rightarrow> (Inr q, qs)))
      else (Inl KeyError, qs))"

definition getitem :: "declarations \<Rightarrow> string \<Rightarrow> queues \<Rightarrow> queue result \<times> queues" where
  "getitem env name qs = (case alias_get qs name of
     Some q \<Rightarrow> (Inr q, qs)
   | None \<Rightarrow> (case dict_get (qmap qs) name of
         Some q \<Rightarrow> (Inr q, qs)
       | None \<Rightarrow> missing env name qs))"

section \<open>Choosing the queues to consume from\<close>

definition select_add :: "declarations \<Rightarrow> queue_decl \<Rightarrow> queues \<Rightarrow> queue \<times> queues" where
  "select_add env d qs = (case add env d qs of (q, qs) \<Rightarrow>
     (q, case selected qs of
           Some s \<Rightarrow> qs\<lparr>selected := Some (dict_set (qname q) q s)\<rparr>
         | None \<Rightarrow> qs\<lparr>default_consume_from := dict_set (qname q) q (default_consume_from qs)\<rparr>))"

fun select_names :: "declarations \<Rightarrow> string list \<Rightarrow> queues \<Rightarrow> unit result \<times> queues" where
  "select_names env [] qs = (Inr (), qs)"
| "select_names env (name # names) qs = (case getitem env name qs of
     (Inl e, qs) \<Rightarrow> (Inl e, qs)
   | (Inr q, qs) \<Rightarrow> select_names env names (qs\<lparr>selected := Some (dict_set (qname q) q (case selected qs of None \<Rightarrow> [] | Some d \<Rightarrow> d))\<rparr>))"

definition select :: "declarations \<Rightarrow> string list \<Rightarrow> queues \<Rightarrow> unit result \<times> queues" where
  "select env include qs = (if include \<noteq> [] then select_names env include (qs\<lparr>selected := Some []\<rparr>) else (Inr (), qs))"

definition alias_target :: "queues \<Rightarrow> string \<Rightarrow> string" where
  "alias_target qs name = (case alias_get qs name of Some q \<Rightarrow> qname q | None \<Rightarrow> name)"

definition set_consume_from :: "(string, queue) dict \<Rightarrow> queues \<Rightarrow> queues" where
  "set_consume_from d qs = (case selected qs of None \<Rightarrow> qs\<lparr>default_consume_from := d\<rparr> | Some _ \<Rightarrow> qs\<lparr>selected := Some d\<rparr>)"

fun deselect :: "string list \<Rightarrow> queues \<Rightarrow> queues" where
  "deselect [] qs = qs"
| "deselect (name # exclude) qs = deselect exclude (set_consume_from (dict_del (alias_target qs name) (consume_from qs)) qs)"

section \<open>The constructor\<close>

definition empty_queues :: "queues \<Rightarrow> queues" where
  "empty_queues qs = qs\<lparr>qmap := [], aliases := [], selected := None, default_consume_from := []\<rparr>"

fun add_all :: "declarations \<Rightarrow> queue_decl list \<Rightarrow> queues \<Rightarrow> queues" where
  "add_all env [] qs = qs"
| "add_all env (d # ds) qs = add_all env ds (snd (add env d qs))"

text \<open>
  The queues are given as a sequence of queue objects, of which the last of each name is taken at the place of the first, or as a
  mapping from names to queue objects or options. The other fields of \<open>qs\<close> are the constructor's arguments.
\<close>

datatype queues_arg = QueueSeq "queue list" | QueueMapping "queue_decl list"

fun given_queues :: "queues_arg \<Rightarrow> queue_decl list" where
  "given_queues (QueueSeq qs) = map (\<lambda>(n, q). DQueue q) (fold (\<lambda>q d. dict_set (qname q) q d) qs [])"
| "given_queues (QueueMapping ds) = ds"

definition Queues_init :: "declarations \<Rightarrow> queues_arg \<Rightarrow> queues \<Rightarrow> queues" where
  "Queues_init env given qs = (let qs = add_all env (given_queues given) (empty_queues qs) in qs\<lparr>default_consume_from := qmap qs\<rparr>)"

text \<open>The settings that \<open>AMQP.Queues\<close> takes its defaults from; a given argument comes first.\<close>

record queue_conf =
  conf_default_queue :: "string option"
  conf_default_queue_type :: string
  conf_default_exchange :: exchange
  conf_default_routing_key :: "string option"
  conf_create_missing :: bool
  conf_create_missing_type :: "string option"
  conf_create_missing_exchange_type :: "string option"
  conf_max_priority :: "int option"

definition either :: "'a option \<Rightarrow> 'a \<Rightarrow> 'a" where
  "either a b = (case a of None \<Rightarrow> b | Some x \<Rightarrow> x)"

definition app_queues :: "declarations \<Rightarrow> queue_conf \<Rightarrow> queues_arg \<Rightarrow> bool option \<Rightarrow> string option \<Rightarrow> string option \<Rightarrow> int option \<Rightarrow>
    nat list \<Rightarrow> nat \<Rightarrow> queues" where
  "app_queues env conf given cm cmt cmx mp refs fresh =
     (let decls = (if given_queues given = [] \<and> str_true (conf_default_queue conf)
            then QueueSeq [\<lparr>qid = fresh, qname = the (conf_default_queue conf), qexchange = Some (conf_default_exchange conf),
              qrouting_key = conf_default_routing_key conf, qalias = None,
              qarguments = (if conf_default_queue_type conf = ''quorum'' then Some [(''x-queue-type'', QStr ''quorum'')] else None)\<rparr>]
            else given) in
      Queues_init env decls
        \<lparr>qmap = [], aliases = [], default_exchange = Some (conf_default_exchange conf), default_routing_key = conf_default_routing_key conf,
         create_missing = either cm (conf_create_missing conf),
         create_missing_queue_type = (case cmt of None \<Rightarrow> conf_create_missing_type conf | t \<Rightarrow> t),
         create_missing_queue_exchange_type = (case cmx of None \<Rightarrow> conf_create_missing_exchange_type conf | t \<Rightarrow> t),
         max_priority = (case mp of None \<Rightarrow> conf_max_priority conf | p \<Rightarrow> p), selected = None, default_consume_from = [],
         next_qid = Suc fresh, held = refs\<rparr>)"

text \<open>\<open>detect_quorum_queues\<close>: the first queue of the table, by name, whose declaration asks for a quorum queue.\<close>

definition is_quorum :: "queue \<Rightarrow> bool" where
  "is_quorum q \<longleftrightarrow> (case qarguments q of None \<Rightarrow> False | Some a \<Rightarrow> dict_get a ''x-queue-type'' = Some (QStr ''quorum''))"

fun first_quorum :: "declarations \<Rightarrow> queues \<Rightarrow> string list \<Rightarrow> bool \<times> string" where
  "first_quorum env qs [] = (False, [])"
| "first_quorum env qs (n # ns) = (case fst (getitem env n qs) of
     Inr q \<Rightarrow> if is_quorum q then (True, n) else first_quorum env qs ns
   | Inl _ \<Rightarrow> first_quorum env qs ns)"

definition detect_quorum_queues :: "declarations \<Rightarrow> queues \<Rightarrow> string \<Rightarrow> bool \<times> string" where
  "detect_quorum_queues env qs driver_type = (if driver_type = ''amqp'' then first_quorum env qs (keys (qmap qs)) else (False, []))"

section \<open>The worker's queues\<close>

text \<open>
  \<open>setup_queues\<close> of the worker, for lists of names. \<open>direct\<close> is the queue of \<open>worker_direct\<close> when this setting is on.
  An unknown queue is reported as \<open>ImproperlyConfigured\<close>.
\<close>

datatype setup_error = ImproperlyConfigured | SetupRaised exn

definition setup_queues :: "declarations \<Rightarrow> string list \<Rightarrow> string list \<Rightarrow> queue option \<Rightarrow> queues \<Rightarrow> (setup_error + unit) \<times> queues" where
  "setup_queues env include exclude direct qs = (case select env include qs of
     (Inl e, qs) \<Rightarrow> (Inl (if e = KeyError then ImproperlyConfigured else SetupRaised e), qs)
   | (Inr _, qs) \<Rightarrow> (let qs = deselect exclude qs in
       (Inr (), case direct of None \<Rightarrow> qs | Some q \<Rightarrow> snd (select_add env (DQueue q) qs))))"

text \<open>The consumer of the worker: the table, and the queues its broker consumer reads, by name.\<close>

record consumer_queues =
  table :: queues
  consuming :: "(string, queue) dict"

definition consumer_options :: "string \<Rightarrow> string option \<Rightarrow> string option \<Rightarrow> string option \<Rightarrow> opts \<Rightarrow> opts" where
  "consumer_options queue exchange exchange_type routing_key options =
     dict_update [(''exchange'', Some (OStr (case exchange of None \<Rightarrow> queue | Some x \<Rightarrow> x))),
                  (''exchange_type'', Some (OStr (case exchange_type of None \<Rightarrow> ''direct'' | Some t \<Rightarrow> t))),
                  (''routing_key'', map_option OStr routing_key)] options"

definition start_consuming :: "string \<Rightarrow> queue \<Rightarrow> consumer_queues \<Rightarrow> consumer_queues" where
  "start_consuming name q c =
     (if dict_get (consuming c) name = None then c\<lparr>consuming := dict_set (qname q) q (consuming c)\<rparr> else c)"

definition add_task_queue :: "declarations \<Rightarrow> string \<Rightarrow> string option \<Rightarrow> string option \<Rightarrow> string option \<Rightarrow> opts \<Rightarrow>
    consumer_queues \<Rightarrow> unit result \<times> consumer_queues" where
  "add_task_queue env queue exchange exchange_type routing_key options c =
     (if dict_get (qmap (table c)) queue \<noteq> None
      then (case getitem env queue (table c) of
          (Inl e, qs) \<Rightarrow> (Inl e, c\<lparr>table := qs\<rparr>)
        | (Inr q, qs) \<Rightarrow> (case select_add env (DQueue q) qs of
            (q, qs) \<Rightarrow> (Inr (), start_consuming queue q (c\<lparr>table := qs\<rparr>))))
      else (case select_add env (DOptions queue (consumer_options queue exchange exchange_type routing_key options)) (table c) of
          (q, qs) \<Rightarrow> (Inr (), start_consuming queue q (c\<lparr>table := qs\<rparr>))))"

definition cancel_task_queue :: "string \<Rightarrow> consumer_queues \<Rightarrow> consumer_queues" where
  "cancel_task_queue queue c =
     (let qs = deselect (if queue = [] then [] else [queue]) (table c) in
      c\<lparr>table := qs, consuming := dict_del (alias_target qs queue) (consuming c)\<rparr>)"

section \<open>Well-formed tables\<close>

text \<open>What every stored declaration has once the defaults of the table have been filled in.\<close>

definition complete :: "queues \<Rightarrow> queue \<Rightarrow> bool" where
  "complete qs q \<longleftrightarrow> (default_exchange qs \<noteq> None \<longrightarrow> qexchange q \<noteq> None) \<and>
     (str_true (default_routing_key qs) \<longrightarrow> str_true (qrouting_key q)) \<and>
     (max_priority qs \<noteq> None \<longrightarrow> (case qarguments q of None \<Rightarrow> False | Some a \<Rightarrow> dict_get a ''x-max-priority'' \<noteq> None))"

definition entries_ok :: "queues \<Rightarrow> (string, queue) dict \<Rightarrow> bool" where
  "entries_ok qs d \<longleftrightarrow> dict_wf d \<and> (\<forall>(k, q) \<in> set d. qname q = k \<and> k \<in> set (keys (qmap qs)) \<and> complete qs q)"

definition aliases_ok :: "queues \<Rightarrow> bool" where
  "aliases_ok qs \<longleftrightarrow> dict_wf (aliases qs) \<and>
     (\<forall>(a, q) \<in> set (aliases qs). qalias q = Some a \<and> qname q \<in> set (keys (qmap qs)) \<and> complete qs q)"

definition queues_ok :: "queues \<Rightarrow> bool" where
  "queues_ok qs \<longleftrightarrow> entries_ok qs (qmap qs) \<and> entries_ok qs (default_consume_from qs) \<and>
     (case selected qs of None \<Rightarrow> True | Some d \<Rightarrow> entries_ok qs d) \<and> aliases_ok qs"

text \<open>Only the arguments of the constructor and the names of the table matter for its entries.\<close>

definition grows :: "queues \<Rightarrow> queues \<Rightarrow> bool" where
  "grows qs qs' \<longleftrightarrow> default_exchange qs' = default_exchange qs \<and> default_routing_key qs' = default_routing_key qs \<and>
     max_priority qs' = max_priority qs \<and> set (keys (qmap qs)) \<subseteq> set (keys (qmap qs'))"

lemma complete_grows: "grows qs qs' \<Longrightarrow> complete qs' q = complete qs q"
  by (simp add: grows_def complete_def)

lemma entries_ok_grows: "grows qs qs' \<Longrightarrow> entries_ok qs d \<Longrightarrow> entries_ok qs' d"
  unfolding entries_ok_def using complete_grows [of qs qs'] by (auto simp: grows_def)

lemma entries_ok_set:
  "entries_ok qs d \<Longrightarrow> qname q \<in> set (keys (qmap qs)) \<Longrightarrow> complete qs q \<Longrightarrow> entries_ok qs (dict_set (qname q) q d)"
  unfolding entries_ok_def by (auto simp: set_dict_set distinct_update)

lemma entries_ok_del: "entries_ok qs d \<Longrightarrow> entries_ok qs (dict_del k d)"
  unfolding entries_ok_def by (auto simp: set_dict_del distinct_delete)

lemma entries_ok_empty: "entries_ok qs []"
  by (simp add: entries_ok_def)

lemma entries_ok_get: "entries_ok qs d \<Longrightarrow> dict_get d k = Some q \<Longrightarrow> qname q = k \<and> k \<in> set (keys (qmap qs)) \<and> complete qs q"
  unfolding entries_ok_def using dict_get_mem by fastforce

lemmas fill_defs = fill_in_def fill_exchange_def fill_routing_key_def fill_arguments_def

lemma complete_fill_in: "complete qs (fill_in qs q)"
  by (auto simp: complete_def fill_defs set_max_priority_def dict_simps str_true_def split: option.splits)

lemma fill_in_name [simp]: "qname (fill_in qs q) = qname q" "qalias (fill_in qs q) = qalias q" "qid (fill_in qs q) = qid q"
  by (simp_all add: fill_defs split: option.splits)

lemma fill_in_filled:
  assumes "complete qs q" and "str_true (qrouting_key q) \<or> qrouting_key q = default_routing_key qs"
  shows "fill_in qs q = q"
proof -
  have "fill_exchange qs q = q" using assms(1) by (auto simp: complete_def fill_exchange_def)
  moreover have "fill_routing_key qs q = q" using assms(2) by (auto simp: fill_routing_key_def)
  moreover have "fill_arguments qs q = q"
    using assms(1) by (auto simp: complete_def fill_arguments_def set_max_priority_def split: option.splits)
  ultimately show ?thesis by (simp add: fill_in_def)
qed

lemma fill_in_routing_key: "str_true (qrouting_key (fill_in qs q)) \<or> qrouting_key (fill_in qs q) = default_routing_key qs"
  by (auto simp: fill_defs split: option.splits)

text \<open>Entering an object that is in the table already does not change it.\<close>

lemma fill_in_idem: "fill_in qs (fill_in qs q) = fill_in qs q"
  by (rule fill_in_filled [OF complete_fill_in fill_in_routing_key])

section \<open>Every operation keeps the table well-formed\<close>

text \<open>The tables agree with each other and a stored queue \<open>q\<close> can be selected: the common outcome of the operations that return a queue.\<close>

definition yields :: "queues \<Rightarrow> queue \<Rightarrow> queues \<Rightarrow> bool" where
  "yields qs q qs' \<longleftrightarrow> grows qs qs' \<and> queues_ok qs' \<and> qname q \<in> set (keys (qmap qs')) \<and> complete qs' q"

lemma queues_ok_grows:
  assumes "queues_ok qs" "grows qs qs'" "entries_ok qs' (qmap qs')" "aliases_ok qs'"
    "selected qs' = selected qs" "default_consume_from qs' = default_consume_from qs"
  shows "queues_ok qs'"
  using assms entries_ok_grows [OF assms(2)] by (auto simp: queues_ok_def split: option.splits)

lemma aliases_ok_grows:
  assumes "aliases_ok qs" "grows qs qs'" "aliases qs' = aliases qs"
  shows "aliases_ok qs'"
  using assms complete_grows [OF assms(2)] by (auto simp: aliases_ok_def grows_def)

lemma aliases_ok_set:
  assumes "aliases_ok qs" "qalias q = Some a" "qname q \<in> set (keys (qmap qs))" "complete qs q"
  shows "aliases_ok (qs\<lparr>aliases := dict_set a q (aliases qs)\<rparr>)"
  using assms by (auto simp: aliases_ok_def complete_def set_dict_set distinct_update)

lemma setitem_yields:
  assumes "queues_ok qs" and "setitem (qname q) q qs = (q', qs')"
  shows "yields qs q' qs' \<and> qname q' = qname q \<and> dict_get (qmap qs') (qname q) = Some q' \<and>
    selected qs' = selected qs \<and> default_consume_from qs' = default_consume_from qs"
proof -
  define f where "f = fill_in qs q"
  define qs1 where "qs1 = qs\<lparr>qmap := dict_set (qname f) f (qmap qs)\<rparr>"
  have name: "qname f = qname q" by (simp add: f_def)
  have g1: "grows qs qs1" by (auto simp: grows_def qs1_def)
  have c: "complete qs1 f" unfolding complete_grows [OF g1] by (simp add: f_def complete_fill_in)
  have k: "qname f \<in> set (keys (qmap qs1))" by (simp add: qs1_def)
  have e: "entries_ok qs1 (qmap qs1)"
    using entries_ok_set [OF entries_ok_grows [OF g1] k c, of "qmap qs"] assms(1) by (simp add: qs1_def queues_ok_def)
  have a: "aliases_ok qs1"
    using aliases_ok_grows [OF _ g1] assms(1) by (simp add: queues_ok_def qs1_def)
  show ?thesis
  proof (cases "str_true (qalias f)")
    case False
    then have "q' = f" "qs' = qs1" using assms(2) by (simp_all add: setitem_def f_def [symmetric] qs1_def [symmetric] name [symmetric] Let_def)
    moreover have "queues_ok qs1" by (rule queues_ok_grows [OF assms(1) g1 e a]) (simp_all add: qs1_def)
    ultimately show ?thesis using g1 c k name by (simp add: yields_def qs1_def dict_simps)
  next
    case True
    then obtain al where al: "qalias f = Some al" by (auto simp: str_true_def)
    define qs2 where "qs2 = qs1\<lparr>aliases := dict_set al f (aliases qs1)\<rparr>"
    have q': "q' = f" "qs' = qs2"
      using True assms(2) al by (auto simp: setitem_def f_def [symmetric] qs1_def [symmetric] qs2_def name [symmetric] Let_def)
    have g2: "grows qs qs2" and g12: "grows qs1 qs2" using g1 by (simp_all add: grows_def qs2_def)
    have a2: "aliases_ok qs2" using aliases_ok_set [OF a al k c] by (simp add: qs2_def)
    have e2: "entries_ok qs2 (qmap qs2)" using entries_ok_grows [OF g12 e] by (simp add: qs2_def)
    have "queues_ok qs2" by (rule queues_ok_grows [OF assms(1) g2 e2 a2]) (simp_all add: qs1_def qs2_def)
    then show ?thesis using q' g2 c k name complete_grows [OF g12] by (simp add: yields_def qs1_def qs2_def dict_simps)
  qed
qed

lemma add_queue_yields:
  assumes ok: "queues_ok qs" and add: "add_queue q qs = (q', qs')"
  shows "yields qs q' qs' \<and> qname q' = qname q \<and> dict_get (qmap qs') (qname q) = Some q' \<and>
    selected qs' = selected qs \<and> default_consume_from qs' = default_consume_from qs"
proof -
  define r where "r = (if default_exchange qs \<noteq> None \<and> (case qexchange q of None \<Rightarrow> True | Some x \<Rightarrow> ex_name x = [])
    then q\<lparr>qexchange := default_exchange qs\<rparr> else q)"
  have "qname r = qname q" by (simp add: r_def)
  moreover have "setitem (qname r) r qs = (q', qs')" using add by (simp only: add_queue_def Let_def r_def)
  ultimately show ?thesis using setitem_yields [OF ok, of r q' qs'] by simp
qed

lemma alloc_grows: "grows qs (snd (alloc q qs))"
  by (simp add: alloc_def grows_def)

lemma alloc_queues_ok:
  assumes ok: "queues_ok qs"
  shows "queues_ok (snd (alloc q qs))"
proof (rule queues_ok_grows [OF ok alloc_grows])
  show "entries_ok (snd (alloc q qs)) (qmap (snd (alloc q qs)))"
    using entries_ok_grows [OF alloc_grows] ok by (simp add: queues_ok_def alloc_def)
  show "aliases_ok (snd (alloc q qs))"
    using aliases_ok_grows [OF _ alloc_grows] ok by (simp add: queues_ok_def alloc_def)
qed (simp_all add: alloc_def)

lemma alloc_simps [simp]: "qname (fst (alloc q qs)) = qname q" "qmap (snd (alloc q qs)) = qmap qs"
  "selected (snd (alloc q qs)) = selected qs" "default_consume_from (snd (alloc q qs)) = default_consume_from qs"
  by (simp_all add: alloc_def)

lemma grows_trans: "grows a b \<Longrightarrow> grows b c \<Longrightarrow> grows a c"
  by (auto simp: grows_def)

lemma grows_refl: "grows a a"
  by (simp add: grows_def)

lemma yields_trans: "grows a b \<Longrightarrow> yields b q c \<Longrightarrow> yields a q c"
  unfolding yields_def using grows_trans by blast

lemma add_compat_yields:
  assumes ok: "queues_ok qs" and add: "add_compat env name options qs = (q', qs')"
  shows "yields qs q' qs' \<and> selected qs' = selected qs \<and> default_consume_from qs' = default_consume_from qs"
proof -
  let ?a = "alloc (from_dict env name (compat_options name options)) qs"
  have "add_queue (fst ?a) (snd ?a) = (q', qs')" using add by (simp add: add_compat_def case_prod_beta)
  from add_queue_yields [OF alloc_queues_ok [OF ok] this] show ?thesis
    using yields_trans [OF alloc_grows] by auto
qed

lemma add_yields:
  assumes "queues_ok qs" and "add env d qs = (q', qs')"
  shows "yields qs q' qs' \<and> selected qs' = selected qs \<and> default_consume_from qs' = default_consume_from qs"
proof (cases d)
  case (DQueue q)
  with add_queue_yields [OF assms(1)] assms(2) show ?thesis by simp
next
  case (DOptions name options)
  with add_compat_yields [OF assms(1)] assms(2) show ?thesis by simp
qed

lemma missing_cases:
  assumes "missing env name qs = (r, qs')"
  obtains (raised) e where "r = Inl e" "qs' = qs"
  | (created) q0 q where "qname q0 = name" "qalias q0 = None" "r = Inr q" "add_queue (fst (alloc q0 qs)) (snd (alloc q0 qs)) = (q, qs')"
proof (cases "create_missing qs")
  case False
  then show ?thesis using assms raised [of KeyError] by (simp add: missing_def)
next
  case True
  show ?thesis
  proof (cases "new_missing env name qs")
    case (Inl e)
    then show ?thesis using assms True raised [of e] by (simp add: missing_def)
  next
    case (Inr p)
    then obtain q0 where q0: "p = alloc q0 qs" "qname q0 = name" "qalias q0 = None" by (auto simp: new_missing_def Let_def split: if_splits)
    obtain q qs2 where add: "add_queue (fst (alloc q0 qs)) (snd (alloc q0 qs)) = (q, qs2)" by fastforce
    have "r = Inr q \<and> qs' = qs2" using assms True Inr q0 add by (simp add: missing_def case_prod_beta)
    then show ?thesis using created [of q0 q] q0 add by simp
  qed
qed

lemma getitem_cases:
  assumes "getitem env name qs = (r, qs')"
  obtains (aliased) q where "alias_get qs name = Some q" "r = Inr q" "qs' = qs"
  | (present) q where "alias_get qs name = None" "dict_get (qmap qs) name = Some q" "r = Inr q" "qs' = qs"
  | (absent) "alias_get qs name = None" "dict_get (qmap qs) name = None" "missing env name qs = (r, qs')"
  using assms unfolding getitem_def by (auto split: option.splits)

lemma alias_get_ok:
  assumes "queues_ok qs" and "alias_get qs a = Some q"
  shows "qalias q = Some a \<and> qname q \<in> set (keys (qmap qs)) \<and> complete qs q"
  using assms dict_get_mem [of "aliases qs" a q]
  by (fastforce simp: alias_get_def queues_ok_def aliases_ok_def split: option.splits if_splits)

lemma getitem_yields:
  assumes ok: "queues_ok qs" and get: "getitem env name qs = (r, qs')"
  shows "grows qs qs' \<and> queues_ok qs' \<and> selected qs' = selected qs \<and> default_consume_from qs' = default_consume_from qs \<and>
    (\<forall>q. r = Inr q \<longrightarrow> yields qs q qs')"
  using get
proof (cases rule: getitem_cases)
  case (aliased q)
  then show ?thesis using ok alias_get_ok [OF ok aliased(1)] by (simp add: yields_def grows_refl)
next
  case (present q)
  then show ?thesis using ok entries_ok_get [of qs "qmap qs" name q] by (simp add: yields_def grows_refl queues_ok_def)
next
  case absent
  from absent(3) show ?thesis
  proof (cases rule: missing_cases)
    case (raised e)
    then show ?thesis using ok by (simp add: grows_refl)
  next
    case (created q0 q)
    from add_queue_yields [OF alloc_queues_ok [OF ok] created(4)] have "yields qs q qs'" "selected qs' = selected qs"
      "default_consume_from qs' = default_consume_from qs"
      using yields_trans [OF alloc_grows] by auto
    then show ?thesis using created(3) by (simp add: yields_def)
  qed
qed

lemma queues_ok_consume:
  assumes "queues_ok qs" and "entries_ok qs d"
  shows "queues_ok (qs\<lparr>selected := Some d\<rparr>)" and "queues_ok (qs\<lparr>default_consume_from := d\<rparr>)"
  using assms by (auto simp: queues_ok_def entries_ok_def aliases_ok_def complete_def split: option.splits)

lemma consume_from_ok: "queues_ok qs \<Longrightarrow> entries_ok qs (consume_from qs)"
  by (simp add: queues_ok_def consume_from_def split: option.splits)

lemma select_add_ok:
  assumes ok: "queues_ok qs" and add: "select_add env d qs = (q, qs')"
  shows "queues_ok qs'"
proof -
  obtain qs1 where a: "add env d qs = (q, qs1)"
    and qs': "qs' = (case selected qs1 of
       Some s \<Rightarrow> qs1\<lparr>selected := Some (dict_set (qname q) q s)\<rparr>
     | None \<Rightarrow> qs1\<lparr>default_consume_from := dict_set (qname q) q (default_consume_from qs1)\<rparr>)"
    using add by (auto simp: select_add_def split: prod.splits)
  from add_yields [OF ok a] have y: "queues_ok qs1" "qname q \<in> set (keys (qmap qs1))" "complete qs1 q"
    by (auto simp: yields_def)
  show ?thesis
  proof (cases "selected qs1")
    case None
    moreover have "entries_ok qs1 (default_consume_from qs1)" using y(1) by (simp add: queues_ok_def)
    ultimately show ?thesis unfolding qs' using y by (simp add: queues_ok_consume(2) entries_ok_set)
  next
    case (Some s)
    then have "entries_ok qs1 s" using y(1) by (simp add: queues_ok_def)
    then show ?thesis unfolding qs' using y Some by (simp add: queues_ok_consume(1) entries_ok_set)
  qed
qed

lemma select_names_ok:
  assumes "queues_ok qs" and "select_names env names qs = (r, qs')"
  shows "queues_ok qs'"
  using assms
proof (induction names arbitrary: qs)
  case Nil
  then show ?case by simp
next
  case (Cons name names)
  obtain g qs1 where g: "getitem env name qs = (g, qs1)" by fastforce
  from getitem_yields [OF Cons.prems(1) g] have ok1: "queues_ok qs1" and y: "\<forall>q. g = Inr q \<longrightarrow> yields qs q qs1" by auto
  show ?case
  proof (cases g)
    case (Inl e)
    then show ?thesis using Cons.prems(2) g ok1 by simp
  next
    case (Inr q)
    let ?d = "case selected qs1 of None \<Rightarrow> [] | Some d \<Rightarrow> d"
    have "entries_ok qs1 ?d" using ok1 by (auto simp: queues_ok_def entries_ok_empty split: option.splits)
    then have "entries_ok qs1 (dict_set (qname q) q ?d)" using y Inr entries_ok_set by (simp add: yields_def)
    then have "queues_ok (qs1\<lparr>selected := Some (dict_set (qname q) q ?d)\<rparr>)" by (rule queues_ok_consume(1) [OF ok1])
    then show ?thesis using Cons.IH Cons.prems(2) g Inr by simp
  qed
qed

lemma select_ok: "queues_ok qs \<Longrightarrow> select env include qs = (r, qs') \<Longrightarrow> queues_ok qs'"
  using select_names_ok [OF queues_ok_consume(1) [OF _ entries_ok_empty]] by (auto simp: select_def split: if_splits)

lemma deselect_ok: "queues_ok qs \<Longrightarrow> queues_ok (deselect exclude qs)"
proof (induction exclude arbitrary: qs)
  case (Cons name exclude)
  have "queues_ok (set_consume_from (dict_del (alias_target qs name) (consume_from qs)) qs)"
    using queues_ok_consume [OF Cons.prems entries_ok_del [OF consume_from_ok [OF Cons.prems]]]
    by (simp add: set_consume_from_def split: option.splits)
  then show ?case using Cons.IH by simp
qed simp

lemma add_all_ok: "queues_ok qs \<Longrightarrow> queues_ok (add_all env ds qs)"
proof (induction ds arbitrary: qs)
  case (Cons d ds)
  obtain q qs1 where "add env d qs = (q, qs1)" by fastforce
  with add_yields [OF Cons.prems this] Cons.IH show ?case by (simp add: yields_def)
qed simp

lemma Queues_init_ok: "queues_ok (Queues_init env given qs)"
proof -
  have "queues_ok (empty_queues qs)" by (simp add: queues_ok_def empty_queues_def entries_ok_def aliases_ok_def)
  from add_all_ok [OF this] have "queues_ok (add_all env (given_queues given) (empty_queues qs))" .
  then show ?thesis
    unfolding Queues_init_def Let_def using queues_ok_consume(2) [of "add_all env (given_queues given) (empty_queues qs)"] by (simp add: queues_ok_def)
qed

section \<open>The table as a transition system\<close>

datatype table_call = AddQueue queue_decl | GetQueue string | SelectAdd queue_decl | Select "string list" | Deselect "string list"

fun table_step :: "declarations \<Rightarrow> queues \<Rightarrow> table_call \<Rightarrow> queues" where
  "table_step env qs (AddQueue d) = snd (add env d qs)"
| "table_step env qs (GetQueue name) = snd (getitem env name qs)"
| "table_step env qs (SelectAdd d) = snd (select_add env d qs)"
| "table_step env qs (Select include) = snd (select env include qs)"
| "table_step env qs (Deselect exclude) = deselect exclude qs"

definition new_table :: "declarations \<Rightarrow> queues \<Rightarrow> bool" where
  "new_table env qs \<longleftrightarrow> (\<exists>given conf. qs = Queues_init env given conf)"

lemma table_step_ok:
  assumes "queues_ok qs"
  shows "queues_ok (table_step env qs c)"
proof (cases c)
  case (AddQueue d)
  obtain q qs' where "add env d qs = (q, qs')" by fastforce
  with add_yields [OF assms this] AddQueue show ?thesis by (simp add: yields_def)
next
  case (GetQueue name)
  obtain r qs' where "getitem env name qs = (r, qs')" by fastforce
  with getitem_yields [OF assms this] GetQueue show ?thesis by simp
next
  case (SelectAdd d)
  obtain q qs' where "select_add env d qs = (q, qs')" by fastforce
  with select_add_ok [OF assms this] SelectAdd show ?thesis by simp
next
  case (Select names)
  obtain r qs' where "select env names qs = (r, qs')" by fastforce
  with select_ok [OF assms this] Select show ?thesis by simp
next
  case (Deselect exclude)
  then show ?thesis using deselect_ok [OF assms] by simp
qed

interpretation queue_table: invariant_system "new_table env" "\<lambda>qs c qs'. qs' = table_step env qs c" queues_ok for env
  by unfold_locales (auto simp: new_table_def Queues_init_ok table_step_ok)

section \<open>Lookups by alias\<close>

text \<open>No aliased queue has been replaced under its name: then the weak table of aliases loses nothing.\<close>

definition aliases_current :: "queues \<Rightarrow> bool" where
  "aliases_current qs \<longleftrightarrow> (\<forall>(a, q) \<in> set (aliases qs). dict_get (qmap qs) (qname q) = Some q)"

lemma alias_get_current:
  assumes "aliases_current qs"
  shows "alias_get qs a = dict_get (aliases qs) a"
proof (cases "dict_get (aliases qs) a")
  case None
  then show ?thesis by (simp add: alias_get_def)
next
  case (Some q)
  with assms dict_get_mem have "dict_get (qmap qs) (qname q) = Some q" unfolding aliases_current_def by fastforce
  then have "(qname q, q) \<in> set (qmap qs)" by (rule dict_get_mem)
  then have "live qs q" by (force simp: live_def)
  with Some show ?thesis by (simp add: alias_get_def)
qed

text \<open>Two tables in which the same names lead to the same queues.\<close>

definition same_aliases :: "queues \<Rightarrow> queues \<Rightarrow> bool" where
  "same_aliases qs qs' \<longleftrightarrow> aliases_current qs' \<and> aliases qs' = aliases qs"

lemma same_aliases_target: "aliases_current qs \<Longrightarrow> same_aliases qs qs' \<Longrightarrow> alias_target qs' n = alias_target qs n"
  by (simp add: same_aliases_def alias_target_def alias_get_current)

lemma same_aliases_trans: "same_aliases a b \<Longrightarrow> same_aliases b c \<Longrightarrow> same_aliases a c"
  by (simp add: same_aliases_def)

lemma add_no_alias:
  assumes "qalias q0 = None" and "add_queue (fst (alloc q0 qs)) (snd (alloc q0 qs)) = (q, qs')"
  shows "aliases qs' = aliases qs \<and> qmap qs' = dict_set (qname q0) q (qmap qs) \<and> create_missing qs' = create_missing qs"
  using assms(2,1) by (auto simp: add_queue_def setitem_def alloc_def Let_def str_true_def split: if_splits)

lemma add_fresh_same_aliases:
  assumes cur: "aliases_current qs" and fresh: "dict_get (qmap qs) (qname q0) = None" and na: "qalias q0 = None"
    and add: "add_queue (fst (alloc q0 qs)) (snd (alloc q0 qs)) = (q, qs')"
  shows "same_aliases qs qs'"
proof -
  note eqs = add_no_alias [OF na add]
  have "dict_get (qmap qs') (qname q1) = Some q1" if "(a, q1) \<in> set (aliases qs)" for a q1
  proof -
    have "dict_get (qmap qs) (qname q1) = Some q1" using cur that by (auto simp: aliases_current_def)
    with fresh eqs show ?thesis by (auto simp: dict_simps)
  qed
  with eqs show ?thesis by (auto simp: same_aliases_def aliases_current_def)
qed

text \<open>A lookup that succeeds gives the queue the alias table names, or the queue of that name.\<close>

lemma getitem_current:
  assumes ok: "queues_ok qs" and cur: "aliases_current qs" and get: "getitem env name qs = (r, qs')"
  shows "same_aliases qs qs' \<and> create_missing qs' = create_missing qs \<and> (\<forall>n. n \<noteq> name \<longrightarrow> dict_get (qmap qs') n = dict_get (qmap qs) n) \<and>
    (\<forall>q. r = Inr q \<longrightarrow> qname q = alias_target qs name \<and> getitem env name qs' = (Inr q, qs'))"
  using get
proof (cases rule: getitem_cases)
  case (aliased q)
  then show ?thesis using cur get by (simp add: same_aliases_def alias_target_def)
next
  case (present q)
  then have "qname q = name" using ok entries_ok_get [of qs "qmap qs" name q] by (simp add: queues_ok_def)
  with present show ?thesis using cur get by (simp add: same_aliases_def alias_target_def)
next
  case absent
  from absent(3) show ?thesis
  proof (cases rule: missing_cases)
    case (raised e)
    then show ?thesis using cur by (simp add: same_aliases_def)
  next
    case (created q0 q)
    note na = created(2)
    have fresh: "dict_get (qmap qs) (qname q0) = None" using absent(2) created(1) by simp
    note sa = add_fresh_same_aliases [OF cur fresh na created(4)] and eqs = add_no_alias [OF na created(4)]
    have "alias_get qs' name = None"
      using absent(1) sa cur by (simp add: alias_get_current same_aliases_def)
    moreover have "qname q = name" using add_queue_yields [OF alloc_queues_ok [OF ok] created(4)] created(1) by simp
    ultimately show ?thesis
      using sa eqs created(1,3) absent(1) by (simp add: getitem_def alias_target_def dict_simps)
  qed
qed

lemma same_aliases_consume:
  "aliases_current qs \<Longrightarrow> same_aliases qs (qs\<lparr>selected := s\<rparr>)" "aliases_current qs \<Longrightarrow> same_aliases qs (qs\<lparr>default_consume_from := d\<rparr>)"
  by (simp_all add: same_aliases_def aliases_current_def)

definition selected_names :: "queues \<Rightarrow> string set" where
  "selected_names qs = set (keys (case selected qs of None \<Rightarrow> [] | Some d \<Rightarrow> d))"

lemma select_names_current:
  assumes "queues_ok qs" and "aliases_current qs" and "select_names env names qs = (Inr (), qs')"
  shows "same_aliases qs qs' \<and> selected_names qs' = selected_names qs \<union> alias_target qs ` set names \<and>
    (names \<noteq> [] \<longrightarrow> selected qs' \<noteq> None)"
  using assms
proof (induction names arbitrary: qs)
  case Nil
  then show ?case by (simp add: same_aliases_def)
next
  case (Cons name names)
  obtain g qs1 where g: "getitem env name qs = (g, qs1)" by fastforce
  then obtain q where q: "g = Inr q" using Cons.prems(3) by (cases g) auto
  define qs2 where "qs2 = qs1\<lparr>selected := Some (dict_set (qname q) q (case selected qs1 of None \<Rightarrow> [] | Some d \<Rightarrow> d))\<rparr>"
  from getitem_current [OF Cons.prems(1,2) g] q have c: "same_aliases qs qs1" "qname q = alias_target qs name" by auto
  have s1: "selected qs1 = selected qs" using getitem_yields [OF Cons.prems(1) g] by simp
  have s2: "same_aliases qs qs2" using c(1) same_aliases_consume(1) same_aliases_trans unfolding qs2_def same_aliases_def by blast
  have run: "select_names env names qs2 = (Inr (), qs')" using Cons.prems(3) g q by (simp add: qs2_def)
  have one: "select_names env [name] qs = (Inr (), qs2)" using g q by (simp add: qs2_def)
  from Cons.IH [OF select_names_ok [OF Cons.prems(1) one] _ run] s2
  have "same_aliases qs2 qs'" "selected_names qs' = selected_names qs2 \<union> alias_target qs2 ` set names" "names \<noteq> [] \<longrightarrow> selected qs' \<noteq> None"
    by (auto simp: same_aliases_def)
  moreover have "selected_names qs2 = insert (alias_target qs name) (selected_names qs)"
    using c(2) s1 by (simp add: selected_names_def qs2_def)
  moreover have "selected qs' \<noteq> None" if "names = []" using that run by (auto simp: qs2_def)
  ultimately show ?case using same_aliases_trans [OF s2] same_aliases_target [OF Cons.prems(2) s2] by auto
qed

lemma select_names_fails:
  assumes "queues_ok qs" and "aliases_current qs" and "\<not> create_missing qs"
  shows "fst (select_names env names qs) =
    (if \<forall>n \<in> set names. dict_get (aliases qs) n \<noteq> None \<or> dict_get (qmap qs) n \<noteq> None then Inr () else Inl KeyError)"
  using assms
proof (induction names arbitrary: qs)
  case Nil
  then show ?case by simp
next
  case (Cons name names)
  show ?case
  proof (cases "getitem env name qs")
    case (Pair g qs1)
    show ?thesis
    proof (cases g)
      case (Inl e)
      then have "dict_get (aliases qs) name = None \<and> dict_get (qmap qs) name = None \<and> e = KeyError"
        using Pair Cons.prems by (auto simp: getitem_def alias_get_current missing_def split: option.splits)
      then show ?thesis using Pair Inl by simp
    next
      case (Inr q)
      then have found: "dict_get (aliases qs) name \<noteq> None \<or> dict_get (qmap qs) name \<noteq> None" and "qs1 = qs"
        using Pair Cons.prems by (auto simp: getitem_def alias_get_current missing_def split: option.splits)
      let ?qs2 = "qs\<lparr>selected := Some (dict_set (qname q) q (case selected qs of None \<Rightarrow> [] | Some d \<Rightarrow> d))\<rparr>"
      have one: "select_names env [name] qs = (Inr (), ?qs2)" using Pair Inr \<open>qs1 = qs\<close> by simp
      have "aliases_current ?qs2" using Cons.prems(2) by (simp add: aliases_current_def)
      with Cons.IH [OF select_names_ok [OF Cons.prems(1) one]] Cons.prems(3)
      show ?thesis using Pair Inr \<open>qs1 = qs\<close> found by simp
    qed
  qed
qed

lemma set_consume_from_names: "consume_from (set_consume_from d qs) = d"
  by (simp add: set_consume_from_def consume_from_def split: option.splits)

lemma deselect_current:
  assumes "aliases_current qs"
  shows "same_aliases qs (deselect names qs) \<and>
    set (keys (consume_from (deselect names qs))) = set (keys (consume_from qs)) - alias_target qs ` set names"
  using assms
proof (induction names arbitrary: qs)
  case Nil
  then show ?case by (simp add: same_aliases_def)
next
  case (Cons name names)
  let ?qs1 = "set_consume_from (dict_del (alias_target qs name) (consume_from qs)) qs"
  have s: "same_aliases qs ?qs1"
    using same_aliases_consume [OF Cons.prems] by (simp add: set_consume_from_def split: option.splits)
  with Cons.IH [of ?qs1] have "same_aliases ?qs1 (deselect names ?qs1)" and
    "set (keys (consume_from (deselect names ?qs1))) = set (keys (consume_from ?qs1)) - alias_target ?qs1 ` set names"
    by (simp_all add: same_aliases_def)
  then show ?case
    using same_aliases_trans [OF s] same_aliases_target [OF Cons.prems s] by (auto simp: set_consume_from_names set_dict_del)
qed

section \<open>Properties\<close>

text \<open>
  C30: the tables stay well-typed. In every table made by the constructor and any sequence of additions,
  lookups, selections and deselections, a queue to consume from is listed under its own name, is known
  for routing, and has every default the table can give it: an exchange, a routing key, a maximal priority.
\<close>

theorem queue_tables_typed:
  assumes "reach (new_table env) (\<lambda>qs c qs'. qs' = table_step env qs c) qs" and "dict_get (consume_from qs) name = Some q"
  shows "qname q = name \<and> dict_get (qmap qs) name \<noteq> None \<and> complete qs q"
proof -
  have "queues_ok qs" by (rule queue_table.inv_reach [OF assms(1)])
  from entries_ok_get [OF consume_from_ok [OF this] assms(2)] show ?thesis by (auto simp: map_of_eq_None_iff)
qed

definition sample_env :: declarations where
  "sample_env = \<lparr>autoexchange = (\<lambda>n. Some \<lparr>ex_name = n, ex_type = ''direct'', ex_delivery_mode = None\<rparr>),
     from_dict = (\<lambda>n d. \<lparr>qid = 0, qname = n, qexchange = None,
       qrouting_key = (case dict_get d ''routing_key'' of Some (Some (OStr k)) \<Rightarrow> Some k | _ \<Rightarrow> None), qalias = None, qarguments = None\<rparr>)\<rparr>"

definition sample_conf :: queues where
  "sample_conf = \<lparr>qmap = [], aliases = [], default_exchange = Some \<lparr>ex_name = ''celery'', ex_type = ''direct'', ex_delivery_mode = None\<rparr>,
     default_routing_key = Some ''celery'', create_missing = False, create_missing_queue_type = None,
     create_missing_queue_exchange_type = None, max_priority = Some 10, selected = None, default_consume_from = [],
     next_qid = 10, held = []\<rparr>"

definition sample_queue :: "nat \<Rightarrow> string \<Rightarrow> string option \<Rightarrow> queue" where
  "sample_queue i n a = \<lparr>qid = i, qname = n, qexchange = None, qrouting_key = None, qalias = a, qarguments = None\<rparr>"

definition sample_table :: queues where
  "sample_table = Queues_init sample_env
     (QueueSeq [sample_queue 1 ''foo'' (Some ''fast''), sample_queue 2 ''bar'' None]) sample_conf"

lemma sample_table_ok: "queues_ok sample_table"
  unfolding sample_table_def by (rule Queues_init_ok)

lemma sample_table_current: "aliases_current sample_table"
  by code_simp

lemma sample_table_reach: "reach (new_table sample_env) (\<lambda>qs c qs'. qs' = table_step sample_env qs c) sample_table"
  by (rule reach_init) (auto simp: new_table_def sample_table_def)

theorem queue_tables_typed_witness:
  "\<exists>q. dict_get (consume_from (table_step sample_env sample_table (Select [''fast'']))) ''foo'' = Some q \<and> qrouting_key q \<noteq> None"
proof -
  let ?qs = "table_step sample_env sample_table (Select [''fast''])"
  have r: "reach (new_table sample_env) (\<lambda>qs c qs'. qs' = table_step sample_env qs c) ?qs"
    by (rule reach_step [OF sample_table_reach]) (rule refl)
  have "dict_get (consume_from ?qs) ''foo'' \<noteq> None" by code_simp
  then obtain q where q: "dict_get (consume_from ?qs) ''foo'' = Some q" by blast
  have "str_true (default_routing_key ?qs)" by code_simp
  with queue_tables_typed [OF r q] q show ?thesis by (auto simp: complete_def str_true_def)
qed

text \<open>
  a worker consumes from exactly the queues it was told to. When the set-up of the queues succeeds, the
  worker reads the queues selected by name or alias (the configured ones, if none are selected), less
  those excluded by name or alias.
\<close>

theorem worker_consumes_selected:
  assumes ok: "queues_ok qs" and cur: "aliases_current qs" and run: "setup_queues env sel excl None qs = (Inr (), qs')"
  shows "set (keys (consume_from qs')) =
    (if sel = [] then set (keys (consume_from qs)) else alias_target qs ` set sel) - alias_target qs ` set excl"
proof -
  obtain r qs1 where s: "select env sel qs = (r, qs1)" by fastforce
  have r: "r = Inr ()" and qs': "qs' = deselect excl qs1" using run s by (auto simp: setup_queues_def Let_def split: sum.splits)
  have sa: "same_aliases qs qs1" and names: "set (keys (consume_from qs1)) = (if sel = [] then set (keys (consume_from qs)) else alias_target qs ` set sel)"
  proof -
    let ?qs0 = "qs\<lparr>selected := Some []\<rparr>"
    have s0: "same_aliases qs ?qs0" by (rule same_aliases_consume(1) [OF cur])
    have "same_aliases qs qs1 \<and> set (keys (consume_from qs1)) = alias_target qs ` set sel" if "sel \<noteq> []"
    proof -
      have "select_names env sel ?qs0 = (Inr (), qs1)" using s r that by (simp add: select_def)
      from select_names_current [OF queues_ok_consume(1) [OF ok entries_ok_empty] _ this] s0 that
      have c: "same_aliases ?qs0 qs1" "selected_names qs1 = alias_target ?qs0 ` set sel" "selected qs1 \<noteq> None"
        by (simp_all add: same_aliases_def selected_names_def)
      from c(3) obtain d where "selected qs1 = Some d" by blast
      with c show ?thesis
        using same_aliases_trans [OF s0] same_aliases_target [OF cur s0] by (simp add: selected_names_def consume_from_def)
    qed
    moreover have "qs1 = qs" if "sel = []" using s that by (simp add: select_def)
    ultimately show "same_aliases qs qs1" and "set (keys (consume_from qs1)) = (if sel = [] then set (keys (consume_from qs)) else alias_target qs ` set sel)"
      using cur by (auto simp: same_aliases_def)
  qed
  have "aliases_current qs1" using sa by (simp add: same_aliases_def)
  from deselect_current [OF this, of excl] show ?thesis
    using names same_aliases_target [OF cur sa] unfolding qs' by simp
qed

theorem worker_consumes_selected_witness:
  "set (keys (consume_from (snd (setup_queues sample_env [''fast'', ''bar''] [''bar''] None sample_table)))) = {''foo''}"
proof -
  have "setup_queues sample_env [''fast'', ''bar''] [''bar''] None sample_table =
      (Inr (), snd (setup_queues sample_env [''fast'', ''bar''] [''bar''] None sample_table))"
    by code_simp
  from worker_consumes_selected [OF sample_table_ok sample_table_current this]
  show ?thesis by code_simp
qed

text \<open>
  C37: without the creation of missing queues, the set-up of the worker's queues fails exactly if a selected name is neither the name nor
  the alias of a known queue, and then as a configuration error.
\<close>

theorem unknown_selection_rejected:
  assumes ok: "queues_ok qs" and cur: "aliases_current qs" and "\<not> create_missing qs"
  shows "fst (setup_queues env sel excl direct qs) =
    (if \<exists>n \<in> set sel. dict_get (aliases qs) n = None \<and> dict_get (qmap qs) n = None then Inl ImproperlyConfigured else Inr ())"
proof -
  have "fst (select env sel qs) =
      (if \<exists>n \<in> set sel. dict_get (aliases qs) n = None \<and> dict_get (qmap qs) n = None then Inl KeyError else Inr ())"
    using select_names_fails [OF queues_ok_consume(1) [OF ok entries_ok_empty], of env sel] assms(3) same_aliases_consume(1) [OF cur]
    by (auto simp: select_def same_aliases_def)
  then show ?thesis by (cases "select env sel qs") (auto simp: setup_queues_def Let_def split: sum.splits if_splits)
qed

theorem unknown_selection_rejected_witness:
  "fst (setup_queues sample_env [''fast'', ''baz''] [] None sample_table) = Inl ImproperlyConfigured"
proof -
  have "\<not> create_missing sample_table" by code_simp
  from unknown_selection_rejected [OF sample_table_ok sample_table_current this, of sample_env "[''fast'', ''baz'']" "[]" None]
  show ?thesis by (simp, code_simp)
qed

lemma from_dict_add:
  assumes "qname (from_dict env n (compat_options n options)) = n" "qalias (from_dict env n (compat_options n options)) = None"
    and "select_add env (DOptions n options) qs = (q, qs')"
  shows "aliases qs' = aliases qs \<and> qname q = n \<and> dict_get (qmap qs') n = Some q \<and> dict_get (consume_from qs') n = Some q \<and>
    (\<forall>m. m \<noteq> n \<longrightarrow> dict_get (qmap qs') m = dict_get (qmap qs) m)"
proof -
  let ?q0 = "from_dict env n (compat_options n options)"
  obtain q1 qs1 where a: "add_queue (fst (alloc ?q0 qs)) (snd (alloc ?q0 qs)) = (q1, qs1)" by fastforce
  have "add env (DOptions n options) qs = (q1, qs1)" using a by (simp add: add_compat_def case_prod_beta)
  moreover have "qname q1 = n" using a assms(1) by (auto simp: add_queue_def setitem_def alloc_def Let_def split: if_splits)
  moreover note add_no_alias [OF assms(2) a]
  ultimately show ?thesis
    using assms(1,3) by (auto simp: select_add_def consume_from_def dict_simps split: option.splits)
qed

text \<open>
  a queue can be consumed from and given up again while the worker runs. Adding a name that is no alias and then
  cancelling it leaves the worker without that queue, both in the table and at the broker, and does not touch
  the other queues that are consumed from.
\<close>

theorem add_cancel_consumer:
  assumes "dict_get (aliases (table c)) n = None" and "n \<noteq> []"
    and "dict_get (qmap (table c)) n = None"
    and "qname (from_dict env n (compat_options n (consumer_options n x t k options))) = n"
    and "qalias (from_dict env n (compat_options n (consumer_options n x t k options))) = None"
    and "add_task_queue env n x t k options c = (r, c1)"
  shows "r = Inr () \<and> dict_get (consume_from (table c1)) n \<noteq> None \<and> dict_get (consuming c1) n \<noteq> None \<and>
    dict_get (consume_from (table (cancel_task_queue n c1))) n = None \<and> dict_get (consuming (cancel_task_queue n c1)) n = None \<and>
    (\<forall>m. m \<noteq> n \<longrightarrow> dict_get (consuming (cancel_task_queue n c1)) m = dict_get (consuming c) m)"
proof -
  obtain q qs1 where s: "select_add env (DOptions n (consumer_options n x t k options)) (table c) = (q, qs1)" by fastforce
  note f = from_dict_add [OF assms(4,5) s]
  have c1: "r = Inr ()" "c1 = start_consuming n q (c\<lparr>table := qs1\<rparr>)" using assms(3,6) s by (simp_all add: add_task_queue_def)
  have t: "table c1 = qs1" using c1(2) by (simp add: start_consuming_def)
  have al: "alias_target (deselect [n] qs1) n = n" "alias_target qs1 n = n"
    using f assms(1) by (simp_all add: alias_target_def alias_get_def set_consume_from_def split: option.splits)
  have cons: "dict_get (consuming c1) n \<noteq> None" "\<forall>m. m \<noteq> n \<longrightarrow> dict_get (consuming c1) m = dict_get (consuming c) m"
    using f c1(2) by (auto simp: start_consuming_def dict_simps)
  show ?thesis
    using c1(1) f t al cons assms(2) by (auto simp: cancel_task_queue_def Let_def dict_simps set_consume_from_names)
qed

definition sample_consumer :: consumer_queues where
  "sample_consumer = \<lparr>table = sample_table, consuming = consume_from sample_table\<rparr>"

theorem add_cancel_consumer_witness:
  "dict_get (consuming (snd (add_task_queue sample_env ''baz'' None None None [] sample_consumer))) ''baz'' \<noteq> None"
proof -
  have "dict_get (aliases (table sample_consumer)) ''baz'' = None"
    "dict_get (qmap (table sample_consumer)) ''baz'' = None" by code_simp+
  moreover have "qname (from_dict sample_env n d) = n" "qalias (from_dict sample_env n d) = None" for n d
    by (simp_all add: sample_env_def)
  ultimately show ?thesis
    using add_cancel_consumer [of sample_consumer "''baz''" sample_env None None None "[]"]
    by (cases "add_task_queue sample_env ''baz'' None None None [] sample_consumer") simp
qed

text \<open>
  a worker told to consume from an alias reads a new queue of that name, and cannot be told to stop. Adding a consumer looks at the names of the
  table only, so that an alias is taken for an unknown queue and a queue of that name is declared; cancelling
  resolves the alias and gives up the aliased queue instead.
\<close>

theorem alias_consumer_not_cancelled:
  assumes "aliases_current (table c)" and "alias_get (table c) a = Some q" and "qname q \<noteq> a" and "a \<noteq> []"
    and "dict_get (qmap (table c)) a = None"
    and "qname (from_dict env a (compat_options a (consumer_options a x t k options))) = a"
    and "qalias (from_dict env a (compat_options a (consumer_options a x t k options))) = None"
    and "add_task_queue env a x t k options c = (r, c1)"
  shows "dict_get (consume_from (table (cancel_task_queue a c1))) a \<noteq> None \<and>
    dict_get (consuming (cancel_task_queue a c1)) a \<noteq> None \<and> dict_get (consuming (cancel_task_queue a c1)) (qname q) = None"
proof -
  obtain q1 qs1 where s: "select_add env (DOptions a (consumer_options a x t k options)) (table c) = (q1, qs1)" by fastforce
  note f = from_dict_add [OF assms(6,7) s]
  have c1: "c1 = start_consuming a q1 (c\<lparr>table := qs1\<rparr>)" using assms(5,8) s by (simp add: add_task_queue_def)
  have t: "table c1 = qs1" using c1 by (simp add: start_consuming_def)
  have "dict_get (qmap qs1) (qname p) = Some p" if "(b, p) \<in> set (aliases (table c))" for b p
  proof -
    have "dict_get (qmap (table c)) (qname p) = Some p" using assms(1) that by (auto simp: aliases_current_def)
    with f assms(5) show ?thesis by (cases "qname p = a") auto
  qed
  then have cur: "aliases_current qs1" using f by (auto simp: aliases_current_def)
  have al: "alias_target qs1 a = qname q" using assms(1,2) cur f by (simp add: alias_target_def alias_get_current)
  have al2: "alias_target (deselect [a] qs1) a = qname q"
    using al same_aliases_target [OF cur] deselect_current [OF cur, of "[a]"] by simp
  have "dict_get (consuming c1) a \<noteq> None" using f c1 by (auto simp: start_consuming_def dict_simps)
  then show ?thesis
    using t f al al2 assms(3,4) by (auto simp: cancel_task_queue_def Let_def dict_simps set_consume_from_names)
qed

theorem alias_consumer_not_cancelled_witness:
  "dict_get (consuming (cancel_task_queue ''fast'' (snd (add_task_queue sample_env ''fast'' None None None [] sample_consumer)))) ''fast'' \<noteq> None"
proof -
  have "alias_get (table sample_consumer) ''fast'' \<noteq> None" "map_option qname (alias_get (table sample_consumer) ''fast'') = Some ''foo''"
    "dict_get (qmap (table sample_consumer)) ''fast'' = None" "aliases_current (table sample_consumer)" by code_simp+
  moreover have "qname (from_dict sample_env n d) = n" "qalias (from_dict sample_env n d) = None" for n d
    by (simp_all add: sample_env_def)
  ultimately show ?thesis
    using alias_consumer_not_cancelled [of sample_consumer "''fast''" _ sample_env None None None "[]"]
    by (cases "add_task_queue sample_env ''fast'' None None None [] sample_consumer") force
qed

end
