(* ===== verification/Routes.thy ===== *)
theory Routes
  imports Queues
begin

text \<open>
  Task routing, \<open>celery.app.routes\<close>: routers made of a mapping from task names and patterns to routes
  (\<open>MapRoute\<close>), and the class \<open>Router\<close> that finds the destination of a task. The patterns of a
  mapping are the shell patterns of Python's \<open>fnmatch\<close>, modelled here, or compiled regular expressions, whose
  matching is an argument.

  A route is a dictionary of options, the name of a queue, or an object that is neither; routers written
  by the user are functions.
\<close>

section \<open>Shell patterns\<close>

text \<open>The parts of a pattern, as \<open>fnmatch.translate\<close> reads it; a class lists ranges of characters.\<close>

datatype glob = GStar | GAny | GChar char | GClass bool "(char \<times> char) list"

fun class_items :: "string \<Rightarrow> (char \<times> char) list" where
  "class_items (c # d # e # cs) = (if d = CHR ''-'' then (c, e) # class_items cs else (c, c) # class_items (d # e # cs))"
| "class_items [c, d] = [(c, c), (d, d)]"
| "class_items [c] = [(c, c)]"
| "class_items [] = []"

text \<open>The text of a class up to its closing bracket, which may not be its first character.\<close>

fun class_body :: "string \<Rightarrow> (string \<times> string) option" where
  "class_body [] = None"
| "class_body (c # cs) = (if c = CHR '']'' then Some ([], cs) else map_option (\<lambda>(b, r). (c # b, r)) (class_body cs))"

definition class_text :: "string \<Rightarrow> (string \<times> string) option" where
  "class_text cs = (case cs of
     [] \<Rightarrow> None
   | c # cs' \<Rightarrow> if c = CHR ''!''
       then (case cs' of
           [] \<Rightarrow> None
         | d # cs'' \<Rightarrow> if d = CHR '']'' then map_option (\<lambda>(b, r). (c # d # b, r)) (class_body cs'')
             else map_option (\<lambda>(b, r). (c # b, r)) (class_body cs'))
       else map_option (\<lambda>(b, r). (c # b, r)) (class_body cs'))"

lemma class_body_shorter: "class_body cs = Some (b, r) \<Longrightarrow> length r < length cs"
proof (induction cs arbitrary: b)
  case (Cons c cs)
  then show ?case by (fastforce split: if_splits)
qed simp

lemma class_text_shorter: "class_text cs = Some (b, r) \<Longrightarrow> length r < length cs"
  by (auto simp: class_text_def split: list.splits if_splits dest!: class_body_shorter)

definition class_part :: "string \<Rightarrow> glob" where
  "class_part b = (case b of
     c # cs \<Rightarrow> if c = CHR ''!'' then GClass True (class_items cs) else GClass False (class_items b)
   | [] \<Rightarrow> GClass False [])"

function translate :: "string \<Rightarrow> glob list" where
  "translate [] = []"
| "translate (c # cs) =
     (if c = CHR ''*'' then (case translate cs of GStar # gs \<Rightarrow> GStar # gs | gs \<Rightarrow> GStar # gs)
      else if c = CHR ''?'' then GAny # translate cs
      else if c = CHR ''['' then (case class_text cs of
          None \<Rightarrow> GChar c # translate cs
        | Some (b, r) \<Rightarrow> class_part b # translate r)
      else GChar c # translate cs)"
  by pat_completeness auto
termination
  by (relation "measure length") (auto dest: class_text_shorter)

definition in_class :: "(char \<times> char) list \<Rightarrow> char \<Rightarrow> bool" where
  "in_class items c \<longleftrightarrow> (\<exists>(a, b) \<in> set items. a \<le> c \<and> c \<le> b)"

fun glob_char :: "glob \<Rightarrow> char \<Rightarrow> bool" where
  "glob_char GStar c = False"
| "glob_char GAny c = True"
| "glob_char (GChar d) c = (c = d)"
| "glob_char (GClass neg items) c = (in_class items c \<noteq> neg)"

fun glob_match :: "glob list \<Rightarrow> string \<Rightarrow> bool" where
  "glob_match [] s = (s = [])"
| "glob_match (GStar # gs) [] = glob_match gs []"
| "glob_match (GStar # gs) (c # s) = (glob_match gs (c # s) \<or> glob_match (GStar # gs) s)"
| "glob_match (g # gs) [] = False"
| "glob_match (g # gs) (c # s) = (glob_char g c \<and> glob_match gs s)"

section \<open>Routers made of mappings\<close>

datatype route = RDict opts | RName string | RObject nat

datatype route_key = KName string | KRegex nat

datatype pattern = Glob "glob list" | Regex nat

record map_route =
  route_names :: "(string, route) dict"
  route_patterns :: "(pattern, route) dict"

fun map_route_add :: "map_route \<Rightarrow> route_key \<times> route \<Rightarrow> map_route" where
  "map_route_add m (KRegex r, v) = m\<lparr>route_patterns := dict_set (Regex r) v (route_patterns m)\<rparr>"
| "map_route_add m (KName k, v) =
     (if CHR ''*'' \<in> set k then m\<lparr>route_patterns := dict_set (Glob (translate k)) v (route_patterns m)\<rparr>
      else m\<lparr>route_names := dict_set k v (route_names m)\<rparr>)"

definition MapRoute :: "(route_key \<times> route) list \<Rightarrow> map_route" where
  "MapRoute items = foldl map_route_add \<lparr>route_names = [], route_patterns = []\<rparr> items"

fun pattern_match :: "(nat \<Rightarrow> string \<Rightarrow> bool) \<Rightarrow> pattern \<Rightarrow> string \<Rightarrow> bool" where
  "pattern_match rx (Glob g) name = glob_match g name"
| "pattern_match rx (Regex r) name = rx r name"

text \<open>
  \<open>dict(route)\<close> copies a dictionary and raises \<open>ValueError\<close> for a string that is not empty, which is then
  taken as the name of a queue; any other object is a \<open>TypeError\<close>.
\<close>

fun route_dict :: "route \<Rightarrow> opts result" where
  "route_dict (RDict d) = Inr d"
| "route_dict (RName []) = Inr []"
| "route_dict (RName q) = Inr [(''queue'', Some (OStr q))]"
| "route_dict (RObject _) = Inl TypeError"

fun first_pattern :: "(nat \<Rightarrow> string \<Rightarrow> bool) \<Rightarrow> string \<Rightarrow> (pattern, route) dict \<Rightarrow> opts option result" where
  "first_pattern rx name [] = Inr None"
| "first_pattern rx name ((p, r) # ps) =
     (if pattern_match rx p name then map_sum id Some (route_dict r) else first_pattern rx name ps)"

definition map_route_call :: "(nat \<Rightarrow> string \<Rightarrow> bool) \<Rightarrow> map_route \<Rightarrow> string \<Rightarrow> opts option result" where
  "map_route_call rx m name = (case dict_get (route_names m) name of
     Some r \<Rightarrow> map_sum id Some (route_dict r)
   | None \<Rightarrow> first_pattern rx name (route_patterns m))"

section \<open>The router\<close>

text \<open>What a router of the user returns: nothing, a queue name, or options.\<close>

datatype dest = DName string | DOpts opts

datatype router = RMap map_route | RFun "string \<Rightarrow> opts \<Rightarrow> dest option result" | RString string

text \<open>The environment of a router: regular expressions, and the routers that dotted names stand for.\<close>

record routing =
  regex :: "nat \<Rightarrow> string \<Rightarrow> bool"
  symbol_by_name :: "string \<Rightarrow> string \<Rightarrow> opts \<Rightarrow> dest option result"
  decl :: declarations

datatype route_error = QueueNotFound string | RouteRaised exn

text \<open>
  \<open>prepare\<close> expands the setting: nothing, one route, or a list of routes; one route is a mapping, a dotted
  name or a router.
\<close>

datatype route_setting = SMap "(route_key \<times> route) list" | SName string | SRouter "string \<Rightarrow> opts \<Rightarrow> dest option result"

datatype routes_setting = NoRoutes | OneRoute route_setting | ManyRoutes "route_setting list"

fun expand_route :: "route_setting \<Rightarrow> router" where
  "expand_route (SMap items) = RMap (MapRoute items)"
| "expand_route (SName s) = RString s"
| "expand_route (SRouter f) = RFun f"

fun prepare :: "routes_setting \<Rightarrow> router list" where
  "prepare NoRoutes = []"
| "prepare (OneRoute r) = [expand_route r]"
| "prepare (ManyRoutes rs) = map expand_route rs"

definition query_router :: "routing \<Rightarrow> router \<Rightarrow> string \<Rightarrow> opts \<Rightarrow> dest option result" where
  "query_router env r name options = (case r of
     RMap m \<Rightarrow> map_sum id (map_option DOpts) (map_route_call (regex env) m name)
   | RFun f \<Rightarrow> f name options
   | RString s \<Rightarrow> symbol_by_name env s name options)"

fun lookup_route :: "routing \<Rightarrow> router list \<Rightarrow> string \<Rightarrow> opts \<Rightarrow> dest option result" where
  "lookup_route env [] name options = Inr None"
| "lookup_route env (r # rs) name options = (case query_router env r name options of
     Inl e \<Rightarrow> Inl e
   | Inr None \<Rightarrow> lookup_route env rs name options
   | Inr (Some d) \<Rightarrow> Inr (Some d))"

text \<open>A value is true in a condition.\<close>

fun oval_true :: "oval option \<Rightarrow> bool" where
  "oval_true None = False"
| "oval_true (Some (OStr s)) = (s \<noteq> [])"
| "oval_true (Some (OInt i)) = (i \<noteq> 0)"
| "oval_true (Some (OBool b)) = b"
| "oval_true (Some (OExchange _)) = True"
| "oval_true (Some (OQueue _)) = True"

fun queue_key :: "oval \<Rightarrow> string option" where
  "queue_key (OStr s) = Some s"
| "queue_key _ = None"

fun dest_parts :: "dest \<Rightarrow> oval option \<times> opts" where
  "dest_parts (DName s) = (Some (OStr s), [])"
| "dest_parts (DOpts d) = (case dict_get d ''queue'' of None \<Rightarrow> None | Some v \<Rightarrow> v, dict_del ''queue'' d)"

text \<open>Queues given as numbers or exchanges are outside the model, and are an error in it.\<close>

definition expand_destination :: "routing \<Rightarrow> dest \<Rightarrow> queues \<Rightarrow> (route_error + opts) \<times> queues" where
  "expand_destination env d qs = (case dest_parts d of (queue, route) \<Rightarrow>
     (case queue of
        None \<Rightarrow> (Inr route, qs)
      | Some v \<Rightarrow>
          if \<not> oval_true (Some v) then (Inr route, qs)
          else (case v of
              OQueue q \<Rightarrow> (Inr (dict_set ''queue'' (Some (OQueue q)) route), qs)
            | OStr name \<Rightarrow> (case getitem (decl env) name qs of
                  (Inr q, qs) \<Rightarrow> (Inr (dict_set ''queue'' (Some (OQueue q)) route), qs)
                | (Inl e, qs) \<Rightarrow> (Inl (if e = KeyError then QueueNotFound name else RouteRaised e), qs))
            | _ \<Rightarrow> (Inl (RouteRaised TypeError), qs))))"

definition dest_true :: "dest \<Rightarrow> bool" where
  "dest_true d = (case d of DName s \<Rightarrow> s \<noteq> [] | DOpts o' \<Rightarrow> o' \<noteq> [])"

definition route_task :: "routing \<Rightarrow> router list \<Rightarrow> dest \<Rightarrow> opts \<Rightarrow> string \<Rightarrow> queues \<Rightarrow> (route_error + opts) \<times> queues" where
  "route_task env routes default_dest options name qs =
     (case expand_destination env (DOpts options) qs of
        (Inl e, qs) \<Rightarrow> (Inl e, qs)
      | (Inr options, qs) \<Rightarrow>
          (case lookup_route env routes name options of
             Inl e \<Rightarrow> (Inl (RouteRaised e), qs)
           | Inr found \<Rightarrow>
               (case (case found of Some d \<Rightarrow> if dest_true d then Some d else None | None \<Rightarrow> None) of
                  Some d \<Rightarrow> (case expand_destination env d qs of
                      (Inl e, qs) \<Rightarrow> (Inl e, qs)
                    | (Inr route, qs) \<Rightarrow> (Inr (lpmerge route options), qs))
                | None \<Rightarrow>
                    if dict_get options ''queue'' = None
                    then (case expand_destination env default_dest qs of
                        (Inl e, qs) \<Rightarrow> (Inl e, qs)
                      | (Inr route, qs) \<Rightarrow> (Inr (lpmerge route options), qs))
                    else (Inr options, qs))))"

section \<open>What patterns match\<close>

lemma glob_match_star: "glob_match (GStar # gs) s \<longleftrightarrow> (\<exists>a b. s = a @ b \<and> glob_match gs b)"
proof (induction s)
  case Nil
  then show ?case by simp
next
  case (Cons c s)
  have "(\<exists>a b. c # s = a @ b \<and> glob_match gs b) \<longleftrightarrow> glob_match gs (c # s) \<or> (\<exists>a b. s = a @ b \<and> glob_match gs b)"
    by (metis append_Cons append_Nil append_eq_Cons_conv)
  with Cons show ?case by simp
qed

lemma glob_match_one: "g \<noteq> GStar \<Longrightarrow> glob_match (g # gs) s \<longleftrightarrow> (\<exists>c b. s = c # b \<and> glob_char g c \<and> glob_match gs b)"
  by (cases g; cases s) auto

lemma glob_match_append: "glob_match (gs @ hs) s \<longleftrightarrow> (\<exists>a b. s = a @ b \<and> glob_match gs a \<and> glob_match hs b)"
proof (induction gs arbitrary: s)
  case Nil
  then show ?case by simp
next
  case (Cons g gs)
  show ?case
  proof (cases "g = GStar")
    case True
    have "glob_match ((g # gs) @ hs) s \<longleftrightarrow> (\<exists>a b. s = a @ b \<and> glob_match (gs @ hs) b)"
      using True glob_match_star by simp
    also have "\<dots> \<longleftrightarrow> (\<exists>a b c. s = a @ b @ c \<and> glob_match gs b \<and> glob_match hs c)"
      using Cons.IH by blast
    also have "\<dots> \<longleftrightarrow> (\<exists>a b. s = a @ b \<and> glob_match (g # gs) a \<and> glob_match hs b)"
      using True glob_match_star by (metis append.assoc)
    finally show ?thesis .
  next
    case False
    have "glob_match ((g # gs) @ hs) s \<longleftrightarrow> (\<exists>c b. s = c # b \<and> glob_char g c \<and> glob_match (gs @ hs) b)"
      using False glob_match_one by simp
    also have "\<dots> \<longleftrightarrow> (\<exists>c a b. s = c # a @ b \<and> glob_char g c \<and> glob_match gs a \<and> glob_match hs b)"
      using Cons.IH by blast
    also have "\<dots> \<longleftrightarrow> (\<exists>a b. s = a @ b \<and> glob_match (g # gs) a \<and> glob_match hs b)"
      using glob_match_one [OF False] by (metis append_Cons)
    finally show ?thesis .
  qed
qed

text \<open>A reference definition of what a pattern means: its parts, one after the other, each with the strings it stands for.\<close>

fun part_lang :: "glob \<Rightarrow> string \<Rightarrow> bool" where
  "part_lang GStar s = True"
| "part_lang g s = (case s of [c] \<Rightarrow> glob_char g c | _ \<Rightarrow> False)"

definition glob_lang :: "glob list \<Rightarrow> string \<Rightarrow> bool" where
  "glob_lang gs s \<longleftrightarrow> (\<exists>ss. s = concat ss \<and> list_all2 part_lang gs ss)"

lemma part_lang_match: "part_lang g s \<longleftrightarrow> glob_match [g] s"
proof (cases "g = GStar")
  case True
  then show ?thesis using glob_match_star [of "[]" s] by simp
next
  case False
  then show ?thesis using glob_match_one [of g "[]" s] by (cases g) (auto split: list.splits)
qed

lemma glob_match_lang: "glob_match gs s \<longleftrightarrow> glob_lang gs s"
proof (induction gs arbitrary: s)
  case Nil
  then show ?case by (simp add: glob_lang_def)
next
  case (Cons g gs)
  have "glob_match (g # gs) s \<longleftrightarrow> (\<exists>a b. s = a @ b \<and> part_lang g a \<and> glob_match gs b)"
    using glob_match_append [of "[g]" gs s] by (simp add: part_lang_match)
  also have "\<dots> \<longleftrightarrow> glob_lang (g # gs) s"
    unfolding Cons.IH glob_lang_def list_all2_Cons1 by (metis concat.simps(2))
  finally show ?case .
qed

definition plain :: "string \<Rightarrow> bool" where
  "plain s \<longleftrightarrow> CHR ''*'' \<notin> set s \<and> CHR ''?'' \<notin> set s \<and> CHR ''['' \<notin> set s"

lemma translate_plain: "plain p \<Longrightarrow> translate (p @ s) = map GChar p @ translate s"
  by (induction p) (auto simp: plain_def)

lemma glob_match_chars: "glob_match (map GChar p) s \<longleftrightarrow> s = p"
  by (induction p arbitrary: s) (auto simp: glob_match_one)

text \<open>
  a pattern that ends in a star stands for the names with that prefix. This is the usual way to route
  all tasks of a module.
\<close>

theorem prefix_pattern_matches:
  assumes "plain p"
  shows "glob_match (translate (p @ ''*'')) name \<longleftrightarrow> (\<exists>rest. name = p @ rest)"
proof -
  have "glob_match (map GChar p @ [GStar]) name \<longleftrightarrow> (\<exists>a b. name = a @ b \<and> a = p \<and> glob_match [GStar] b)"
    by (simp add: glob_match_append glob_match_chars)
  moreover have "glob_match [GStar] b" for b using part_lang_match [of GStar b] by simp
  ultimately show ?thesis by (simp add: translate_plain [OF assms])
qed

theorem prefix_pattern_matches_witness: "glob_match (translate ''feed.tasks.*'') ''feed.tasks.import''"
proof -
  have "plain ''feed.tasks.''" by code_simp
  from prefix_pattern_matches [OF this, of "''feed.tasks.import''"] show ?thesis by simp
qed

section \<open>Mappings\<close>

text \<open>The entry that counts for a task name: the last one given for exactly this name, which has no star in it.\<close>

fun exact_entry :: "(route_key \<times> route) list \<Rightarrow> string \<Rightarrow> route option" where
  "exact_entry [] name = None"
| "exact_entry ((k, v) # items) name = (case exact_entry items name of
     Some r \<Rightarrow> Some r
   | None \<Rightarrow> if k = KName name \<and> CHR ''*'' \<notin> set name then Some v else None)"

lemma foldl_map_route_add:
  "dict_get (route_names (foldl map_route_add m items)) name =
     (case exact_entry items name of Some r \<Rightarrow> Some r | None \<Rightarrow> dict_get (route_names m) name)"
proof (induction items arbitrary: m)
  case (Cons item items)
  obtain k v where item: "item = (k, v)" by fastforce
  have "dict_get (route_names (map_route_add m (k, v))) name =
      (if k = KName name \<and> CHR ''*'' \<notin> set name then Some v else dict_get (route_names m) name)"
    by (cases k) (auto simp: dict_simps)
  with Cons item show ?case by (auto split: option.splits)
qed simp

lemma map_route_names: "dict_get (route_names (MapRoute items)) name = exact_entry items name"
  by (simp add: MapRoute_def foldl_map_route_add split: option.splits)

lemma foldl_map_route_patterns:
  "set (keys (route_patterns (foldl map_route_add m items))) = set (keys (route_patterns m)) \<union>
     (\<lambda>k. Glob (translate k)) ` {k. KName k \<in> fst ` set items \<and> CHR ''*'' \<in> set k} \<union> Regex ` {r. KRegex r \<in> fst ` set items}"
proof (induction items arbitrary: m)
  case (Cons item items)
  obtain k v where item: "item = (k, v)" by fastforce
  have "set (keys (route_patterns (map_route_add m (k, v)))) = set (keys (route_patterns m)) \<union>
      (\<lambda>k. Glob (translate k)) ` {k'. KName k' = k \<and> CHR ''*'' \<in> set k'} \<union> Regex ` {r. KRegex r = k}"
    by (cases k) auto
  with Cons item show ?case by auto
qed simp

lemma ball_route_key: "(\<forall>k \<in> K. P k) \<longleftrightarrow> (\<forall>s. KName s \<in> K \<longrightarrow> P (KName s)) \<and> (\<forall>r. KRegex r \<in> K \<longrightarrow> P (KRegex r))"
  by (metis route_key.exhaust)

lemma first_pattern_None: "first_pattern rx name ps = Inr None \<longleftrightarrow> (\<forall>p \<in> set (keys ps). \<not> pattern_match rx p name)"
proof (induction ps)
  case (Cons a ps)
  obtain p r where "a = (p, r)" by fastforce
  then show ?case using Cons by (cases "route_dict r") auto
qed simp

text \<open>
  an exact name comes before every pattern. A mapping with an entry for the name of the task gives the
  last such entry, wherever it stands and whatever patterns match.
\<close>

theorem exact_name_before_patterns:
  assumes "exact_entry items name = Some r"
  shows "map_route_call rx (MapRoute items) name = map_sum id Some (route_dict r)"
  using assms by (simp add: map_route_call_def map_route_names)

theorem exact_name_before_patterns_witness:
  "map_route_call (\<lambda>_ _. False) (MapRoute [(KName ''feed.*'', RName ''slow''), (KName ''feed.now'', RName ''fast'')]) ''feed.now'' =
    Inr (Some [(''queue'', Some (OStr ''fast''))])"
proof -
  have "exact_entry [(KName ''feed.*'', RName ''slow''), (KName ''feed.now'', RName ''fast'')] ''feed.now'' = Some (RName ''fast'')"
    by code_simp
  from exact_name_before_patterns [OF this] show ?thesis by simp
qed

text \<open>
  a name of a mapping is a pattern only if it has a star. Names with a question mark or a character class
  but no star, which are shell patterns too, are compared literally, so that no other task name is routed by them.
\<close>

theorem pattern_without_star_is_literal:
  assumes "CHR ''*'' \<notin> set k" and "name \<noteq> k"
  shows "map_route_call rx (MapRoute [(KName k, r)]) name = Inr None"
  using assms by (simp add: map_route_call_def MapRoute_def)

theorem pattern_without_star_is_literal_witness:
  "map_route_call (\<lambda>_ _. False) (MapRoute [(KName ''feed.task?'', RName ''slow'')]) ''feed.task1'' = Inr None \<and>
   glob_match (translate ''feed.task?'') ''feed.task1''"
proof -
  have "glob_match (translate ''feed.task?'') ''feed.task1''" by code_simp
  then show ?thesis using pattern_without_star_is_literal [of "''feed.task?''" "''feed.task1''"] by simp
qed

text \<open>
  a mapping leaves a task to the next router exactly if neither its name nor a pattern is listed. Shell patterns match
  the names made of what their parts stand for, in order.
\<close>

theorem mapping_declines_iff:
  "map_route_call rx (MapRoute items) name = Inr None \<longleftrightarrow>
     exact_entry items name = None \<and>
     (\<forall>(k, _) \<in> set items. case k of
        KName s \<Rightarrow> CHR ''*'' \<in> set s \<longrightarrow> \<not> glob_lang (translate s) name
      | KRegex r \<Rightarrow> \<not> rx r name)"
proof (cases "exact_entry items name")
  case None
  have "map_route_call rx (MapRoute items) name = Inr None \<longleftrightarrow>
      (\<forall>p \<in> set (keys (route_patterns (MapRoute items))). \<not> pattern_match rx p name)"
    by (simp add: map_route_call_def map_route_names None first_pattern_None)
  also have "\<dots> \<longleftrightarrow> (\<forall>k. KName k \<in> fst ` set items \<and> CHR ''*'' \<in> set k \<longrightarrow> \<not> glob_lang (translate k) name) \<and>
      (\<forall>r. KRegex r \<in> fst ` set items \<longrightarrow> \<not> rx r name)"
    unfolding MapRoute_def foldl_map_route_patterns by (simp add: glob_match_lang ball_Un)
  also have "\<dots> \<longleftrightarrow> (\<forall>(k, _) \<in> set items. case k of
        KName s \<Rightarrow> CHR ''*'' \<in> set s \<longrightarrow> \<not> glob_lang (translate s) name
      | KRegex r \<Rightarrow> \<not> rx r name)"
    using ball_route_key [of "fst ` set items" "\<lambda>k. case k of
        KName s \<Rightarrow> CHR ''*'' \<in> set s \<longrightarrow> \<not> glob_lang (translate s) name | KRegex r \<Rightarrow> \<not> rx r name"] by (auto simp: case_prod_beta)
  finally show ?thesis using None by simp
next
  case (Some r)
  then show ?thesis by (cases "route_dict r") (simp_all add: map_route_call_def map_route_names)
qed

theorem mapping_declines_iff_witness:
  "map_route_call (\<lambda>_ _. False) (MapRoute [(KName ''feed.*'', RName ''slow'')]) ''video.cut'' = Inr None \<and>
   \<not> glob_lang (translate ''feed.*'') ''video.cut''"
proof -
  have "map_route_call (\<lambda>_ _. False) (MapRoute [(KName ''feed.*'', RName ''slow'')]) ''video.cut'' = Inr None" by code_simp
  with mapping_declines_iff [of "\<lambda>_ _. False" "[(KName ''feed.*'', RName ''slow'')]" "''video.cut''"] show ?thesis by simp
qed

section \<open>Destinations\<close>

lemma lpmerge_get:
  assumes "dict_wf R"
  shows "dict_get (lpmerge L R) k = (case dict_get R k of Some (Some v) \<Rightarrow> Some (Some v) | _ \<Rightarrow> dict_get L k)"
proof -
  let ?F = "filter (\<lambda>(k, v). v \<noteq> None) R"
  have wf: "dict_wf ?F" using assms by (simp add: distinct_map_filter)
  have "dict_get ?F k = (case dict_get R k of Some (Some v) \<Rightarrow> Some (Some v) | _ \<Rightarrow> None)"
    using assms by (induction R) (auto simp: dict_get_None_iff split: option.splits)
  then show ?thesis using dict_get_update [OF wf, of L k] by (simp add: lpmerge_def split: option.splits)
qed

lemma expand_destination_cases:
  assumes "expand_destination env d qs = (Inr r, qs')"
  obtains (none) "\<not> oval_true (fst (dest_parts d))" "r = snd (dest_parts d)" "qs' = qs"
  | (object) q where "fst (dest_parts d) = Some (OQueue q)" "r = dict_set ''queue'' (Some (OQueue q)) (snd (dest_parts d))" "qs' = qs"
  | (named) n q where "fst (dest_parts d) = Some (OStr n)" "n \<noteq> []" "getitem (decl env) n qs = (Inr q, qs')"
      "r = dict_set ''queue'' (Some (OQueue q)) (snd (dest_parts d))"
proof (cases "fst (dest_parts d)")
  case None
  then show ?thesis using assms none by (auto simp: expand_destination_def case_prod_beta)
next
  case (Some v)
  show ?thesis
  proof (cases v)
    case (OStr n)
    then show ?thesis
      using Some assms none named [of n]
      by (cases "getitem (decl env) n qs") (auto simp: expand_destination_def case_prod_beta split: if_splits sum.splits)
  qed (use Some assms none object in \<open>auto simp: expand_destination_def case_prod_beta split: if_splits\<close>)
qed

lemma dest_parts_no_queue: "dict_get (snd (dest_parts d)) ''queue'' = None"
  by (cases d) (auto simp: dict_simps)

lemma dest_parts_wf: "(case d of DName _ \<Rightarrow> True | DOpts options \<Rightarrow> dict_wf options) \<Longrightarrow> dict_wf (snd (dest_parts d))"
  by (cases d) (auto simp: distinct_delete)

lemma expand_destination_queue:
  assumes "expand_destination env d qs = (Inr r, qs')" and "dict_get r ''queue'' = Some v"
  shows "\<exists>q. v = Some (OQueue q)"
  using assms(1)
proof (cases rule: expand_destination_cases)
  case none
  then show ?thesis using assms(2) dest_parts_no_queue [of d] by simp
next
  case (object q)
  then show ?thesis using assms(2) by (metis dict_get_set option.inject)
next
  case (named n q)
  then show ?thesis using assms(2) by (metis dict_get_set option.inject)
qed

lemma expand_options_wf:
  assumes "expand_destination env (DOpts options) qs = (Inr r, qs')" and "dict_wf options"
  shows "dict_wf r"
  using assms(1)
proof (cases rule: expand_destination_cases)
  case none
  then show ?thesis using dest_parts_wf [of "DOpts options"] assms(2) by simp
qed (use dest_parts_wf [of "DOpts options"] assms(2) in \<open>simp_all add: distinct_update\<close>)

text \<open>
  The destination that completes the options of a task: the first route found, unless it is empty; then the
  default queue, unless the options name a queue.
\<close>

definition chosen_dest :: "routing \<Rightarrow> router list \<Rightarrow> dest \<Rightarrow> opts \<Rightarrow> string \<Rightarrow> dest option" where
  "chosen_dest env routes default_dest options name = (case lookup_route env routes name options of
     Inr (Some d) \<Rightarrow> if dest_true d then Some d else if dict_get options ''queue'' = None then Some default_dest else None
   | _ \<Rightarrow> if dict_get options ''queue'' = None then Some default_dest else None)"

lemma route_task_cases:
  assumes "route_task env routes dflt options name qs = (Inr res, qs')"
  obtains options' qs1 where "expand_destination env (DOpts options) qs = (Inr options', qs1)"
    "case chosen_dest env routes dflt options' name of
       None \<Rightarrow> res = options' \<and> qs' = qs1
     | Some d \<Rightarrow> (\<exists>route. expand_destination env d qs1 = (Inr route, qs') \<and> res = lpmerge route options')"
proof -
  obtain e qs1 where x: "expand_destination env (DOpts options) qs = (e, qs1)" by fastforce
  obtain options' where e: "e = Inr options'" using assms x by (cases e) (auto simp: route_task_def)
  obtain found where l: "lookup_route env routes name options' = Inr found"
    using assms x e by (cases "lookup_route env routes name options'") (auto simp: route_task_def)
  have "case chosen_dest env routes dflt options' name of
       None \<Rightarrow> res = options' \<and> qs' = qs1
     | Some d \<Rightarrow> (\<exists>route. expand_destination env d qs1 = (Inr route, qs') \<and> res = lpmerge route options')"
    using assms x e l
    by (cases found) (auto simp: route_task_def chosen_dest_def split: if_splits sum.splits prod.splits)
  with x e that show ?thesis by blast
qed

text \<open>
  C18: options given with the call come first, then the route, then the default queue. If a task is routed,
  either its options name a queue and no router wants it, and they are the result; or they are completed from
  the first route found, or else from the default queue: an option the caller set (to something other than
  \<open>None\<close>) is kept, and every other one is that of the route.
\<close>

theorem route_precedence:
  assumes wf: "dict_wf options" and run: "route_task env routes dflt options name qs = (Inr res, qs')"
  shows "\<exists>options' qs1. expand_destination env (DOpts options) qs = (Inr options', qs1) \<and>
    (case chosen_dest env routes dflt options' name of
       None \<Rightarrow> res = options' \<and> dict_get options' ''queue'' \<noteq> None
     | Some d \<Rightarrow> (\<exists>route. expand_destination env d qs1 = (Inr route, qs') \<and>
         (\<forall>k. dict_get res k = (case dict_get options' k of Some (Some v) \<Rightarrow> Some (Some v) | _ \<Rightarrow> dict_get route k))))"
proof -
  from run obtain options' qs1 where x: "expand_destination env (DOpts options) qs = (Inr options', qs1)"
    and c: "case chosen_dest env routes dflt options' name of
       None \<Rightarrow> res = options' \<and> qs' = qs1
     | Some d \<Rightarrow> (\<exists>route. expand_destination env d qs1 = (Inr route, qs') \<and> res = lpmerge route options')"
    by (rule route_task_cases)
  have "dict_get options' ''queue'' \<noteq> None" if "chosen_dest env routes dflt options' name = None"
    using that by (auto simp: chosen_dest_def split: if_splits sum.splits option.splits)
  then show ?thesis
    using x c lpmerge_get [OF expand_options_wf [OF x wf]] by (intro exI [of _ options'] exI [of _ qs1]) (auto split: option.splits)
qed

lemma route_task_queue:
  assumes wf: "dict_wf options" and ok: "queues_ok qs" and run: "route_task env routes dflt options name qs = (Inr res, qs')"
  shows "queues_ok qs' \<and> (\<forall>v. dict_get res ''queue'' = Some v \<longrightarrow> (\<exists>q. v = Some (OQueue q))) \<and>
    (routes = [] \<and> (\<exists>n. dflt = DName n \<and> n \<noteq> []) \<longrightarrow> dict_get res ''queue'' \<noteq> None)"
proof -
  have keeps: "queues_ok b" if "expand_destination env d a = (Inr r, b)" "queues_ok a" for d r a b
    using that(1) by (cases rule: expand_destination_cases) (use that(2) getitem_yields in auto)
  from run obtain options' qs1 where x: "expand_destination env (DOpts options) qs = (Inr options', qs1)"
    and c: "case chosen_dest env routes dflt options' name of
       None \<Rightarrow> res = options' \<and> qs' = qs1
     | Some d \<Rightarrow> (\<exists>route. expand_destination env d qs1 = (Inr route, qs') \<and> res = lpmerge route options')"
    by (rule route_task_cases)
  note ok1 = keeps [OF x ok] and q1 = expand_destination_queue [OF x]
  show ?thesis
  proof (cases "chosen_dest env routes dflt options' name")
    case None
    then have "dict_get options' ''queue'' \<noteq> None" by (auto simp: chosen_dest_def split: if_splits sum.splits option.splits)
    then show ?thesis using None c ok1 q1 by auto
  next
    case (Some d)
    with c obtain route where r: "expand_destination env d qs1 = (Inr route, qs')" "res = lpmerge route options'" by auto
    have get: "dict_get res ''queue'' = (case dict_get options' ''queue'' of Some (Some v) \<Rightarrow> Some (Some v) | _ \<Rightarrow> dict_get route ''queue'')"
      using lpmerge_get [OF expand_options_wf [OF x wf]] r(2) by simp
    have "dict_get route ''queue'' \<noteq> None" if "d = DName n" "n \<noteq> []" for n
      using r(1) by (cases rule: expand_destination_cases) (use that in \<open>auto simp: dict_simps\<close>)
    moreover have "d = dflt" if "routes = []" using that Some by (auto simp: chosen_dest_def split: if_splits)
    ultimately show ?thesis using keeps [OF r(1) ok1] q1 expand_destination_queue [OF r(1)] get
      by (auto split: option.splits)
  qed
qed

text \<open>
  a task is routed to a declared queue. Whatever names the caller, the routers and the settings use, the queue
  of a routed task is a queue declaration, and the table of queues stays well-formed. If the default queue
  has a name and no router knows the task, there always is a queue.
\<close>

theorem routed_queue_is_declared:
  assumes "dict_wf options" and "queues_ok qs" and "route_task env routes dflt options name qs = (Inr res, qs')"
  shows "queues_ok qs' \<and> (\<forall>v. dict_get res ''queue'' = Some v \<longrightarrow> (\<exists>q. v = Some (OQueue q))) \<and>
    (routes = [] \<and> (\<exists>n. dflt = DName n \<and> n \<noteq> []) \<longrightarrow> dict_get res ''queue'' \<noteq> None)"
  by (rule route_task_queue [OF assms])

definition sample_routing :: routing where
  "sample_routing = \<lparr>regex = (\<lambda>_ _. False), symbol_by_name = (\<lambda>_ _ _. Inr None), decl = sample_env\<rparr>"

definition sample_routes :: "router list" where
  "sample_routes = prepare (OneRoute (SMap [(KName ''video.*'', RDict [(''queue'', Some (OStr ''foo'')), (''priority'', Some (OInt 3))])]))"

theorem route_precedence_witness:
  "\<exists>res. fst (route_task sample_routing sample_routes (DName ''bar'') [(''priority'', Some (OInt 9))] ''video.cut'' sample_table) = Inr res \<and>
     dict_get res ''priority'' = Some (Some (OInt 9))"
proof -
  let ?run = "route_task sample_routing sample_routes (DName ''bar'') [(''priority'', Some (OInt 9))] ''video.cut'' sample_table"
  have "isl (fst ?run) = False" by code_simp
  then obtain res qs' where run: "?run = (Inr res, qs')" by (metis isl_def prod.collapse sum.collapse(2))
  have wf: "dict_wf [(''priority'', Some (OInt 9))]" by simp
  have "expand_destination sample_routing (DOpts [(''priority'', Some (OInt 9))]) sample_table = (Inr [(''priority'', Some (OInt 9))], sample_table)"
    by (simp add: expand_destination_def)
  with route_precedence [OF wf run] run show ?thesis by (auto split: option.splits)
qed

theorem routed_queue_is_declared_witness:
  "\<exists>res q. fst (route_task sample_routing [] (DName ''bar'') [] ''video.cut'' sample_table) = Inr res \<and> dict_get res ''queue'' = Some (Some (OQueue q))"
proof -
  let ?run = "route_task sample_routing [] (DName ''bar'') [] ''video.cut'' sample_table"
  have "isl (fst ?run) = False" by code_simp
  then obtain res qs' where run: "?run = (Inr res, qs')" by (metis isl_def prod.collapse sum.collapse(2))
  from routed_queue_is_declared [OF _ sample_table_ok run] have "\<exists>v. dict_get res ''queue'' = Some v"
    "\<forall>v. dict_get res ''queue'' = Some v \<longrightarrow> (\<exists>q. v = Some (OQueue q))" by auto
  with run show ?thesis by auto
qed

text \<open>
  a queue named with the call keeps the routing key of the route. The options of a route for another queue fill
  in everything the caller left open: sending a task to a queue by name, when a router knows the task, gives
  the caller's queue with the routing key of the router's queue.
\<close>

theorem explicit_queue_keeps_route_key:
  assumes "dict_get (qmap qs) n = Some q" and "alias_get qs n = None" and "n \<noteq> []"
    and "lookup_route env routes name [(''queue'', Some (OQueue q))] = Inr (Some (DOpts [(''queue'', Some (OQueue q')), (''routing_key'', Some (OStr k))]))"
  shows "fst (route_task env routes dflt [(''queue'', Some (OStr n))] name qs) =
    Inr [(''routing_key'', Some (OStr k)), (''queue'', Some (OQueue q))]"
proof -
  have "getitem (decl env) n qs = (Inr q, qs)" using assms(1,2) by (simp add: getitem_def)
  then have "expand_destination env (DOpts [(''queue'', Some (OStr n))]) qs = (Inr [(''queue'', Some (OQueue q))], qs)"
    using assms(3) by (simp add: expand_destination_def)
  then show ?thesis using assms(4) by (simp add: route_task_def dest_true_def expand_destination_def lpmerge_def)
qed

theorem explicit_queue_keeps_route_key_witness:
  "\<exists>q q'. dict_get (qmap sample_table) ''bar'' = Some q \<and>
     fst (route_task sample_routing [RFun (\<lambda>_ _. Inr (Some (DOpts [(''queue'', Some (OQueue q')), (''routing_key'', Some (OStr ''cut''))])))]
       (DName ''foo'') [(''queue'', Some (OStr ''bar''))] ''video.cut'' sample_table) =
     Inr [(''routing_key'', Some (OStr ''cut'')), (''queue'', Some (OQueue q))]"
proof -
  have "dict_get (qmap sample_table) ''bar'' \<noteq> None" "alias_get sample_table ''bar'' = None" by code_simp+
  then obtain q where "dict_get (qmap sample_table) ''bar'' = Some q" "alias_get sample_table ''bar'' = None" by blast
  with explicit_queue_keeps_route_key [OF this, of sample_routing] show ?thesis by (fastforce simp: query_router_def)
qed

end
