(* ===== verification/Amqp.thy ===== *)
theory Amqp
  imports Routes
begin

text \<open>
  Messages of tasks, class \<open>AMQP\<close> of \<open>celery.app.amqp\<close>: making the message of a call in both
  versions of the protocol, and sending it through the producer of the broker library; and the conversion of old messages by
  the worker (\<open>worker/strategy.py\<close>).

  Python values are a datatype. A point in time is a rational number, whose text form (ISO 8601) is an
  argument, like the short representation of values, the node name and the clock; dates never overflow. Signals, publishing and
  events are entries of a log.
\<close>

section \<open>Values\<close>

datatype pyv =
    PNone
  | PBool bool
  | PInt int
  | PFloat rat
  | PStr string
  | PTime rat
  | PTuple "pyv list"
  | PList "pyv list"
  | PDict "(string \<times> pyv) list"
  | PObject nat

fun py_true :: "pyv \<Rightarrow> bool" where
  "py_true PNone = False"
| "py_true (PBool b) = b"
| "py_true (PInt i) = (i \<noteq> 0)"
| "py_true (PFloat r) = (r \<noteq> 0)"
| "py_true (PStr s) = (s \<noteq> [])"
| "py_true (PTime t) = True"
| "py_true (PTuple xs) = (xs \<noteq> [])"
| "py_true (PList xs) = (xs \<noteq> [])"
| "py_true (PDict d) = (d \<noteq> [])"
| "py_true (PObject n) = True"

definition py_or :: "pyv \<Rightarrow> pyv \<Rightarrow> pyv" where
  "py_or a b = (if py_true a then a else b)"

text \<open>The value of a real number, which in Python includes truth values.\<close>

fun py_real :: "pyv \<Rightarrow> rat option" where
  "py_real (PBool b) = Some (if b then 1 else 0)"
| "py_real (PInt i) = Some (of_int i)"
| "py_real (PFloat r) = Some r"
| "py_real _ = None"

fun is_sequence :: "pyv \<Rightarrow> bool" where
  "is_sequence (PTuple _) = True"
| "is_sequence (PList _) = True"
| "is_sequence _ = False"

fun is_mapping :: "pyv \<Rightarrow> bool" where
  "is_mapping (PDict _) = True"
| "is_mapping _ = False"

section \<open>Making messages\<close>

type_synonym fields = "(string, pyv) dict"

record task_call =
  task_id :: pyv
  task_name :: pyv
  args :: pyv
  kwargs :: pyv
  countdown :: pyv
  eta :: pyv
  group_id :: pyv
  group_index :: pyv
  expires :: pyv
  retries :: pyv
  chord :: pyv
  callbacks :: pyv
  errbacks :: pyv
  reply_to :: pyv
  time_limit :: pyv
  soft_time_limit :: pyv
  create_sent_event :: bool
  root_id :: pyv
  parent_id :: pyv
  shadow :: pyv
  chain :: pyv
  call_now :: "rat option"
  origin :: pyv
  ignore_result :: pyv
  argsrepr :: pyv
  kwargsrepr :: pyv
  stamped_headers :: "string list option"
  replaced_task_nesting :: pyv
  call_options :: fields

record message =
  headers :: fields
  properties :: fields
  body :: pyv
  sent_event :: "fields option"

text \<open>
  The application. The representation of values with the size and depth limits of the sender, which the new protocol puts in its
  headers, is not the one with the defaults of \<open>saferepr\<close>, which the old protocol and the worker use.
\<close>

record app_env =
  app_now :: rat
  isoformat :: "rat \<Rightarrow> string"
  saferepr_limited :: "pyv \<Rightarrow> string"
  saferepr :: "pyv \<Rightarrow> string"
  anon_nodename :: string
  utc :: bool
  uses_utc_timezone :: bool

definition INT_MIN :: rat where
  "INT_MIN = - 2147483648"

definition verify_seconds :: "rat \<Rightarrow> rat result" where
  "verify_seconds s = (if s < INT_MIN then Inl ValueError else Inr s)"

definition the_now :: "app_env \<Rightarrow> task_call \<Rightarrow> rat" where
  "the_now env c = (case call_now c of Some t \<Rightarrow> t | None \<Rightarrow> app_now env)"

text \<open>A true value that is not a number is no countdown: it cannot be compared with one.\<close>

definition eta_of :: "app_env \<Rightarrow> task_call \<Rightarrow> pyv result" where
  "eta_of env c =
     (if py_true (countdown c) then
        (case py_real (countdown c) of
           None \<Rightarrow> Inl TypeError
         | Some s \<Rightarrow> res_bind (verify_seconds s) (\<lambda>s. Inr (PTime (the_now env c + s))))
      else Inr (eta c))"

definition expires_of :: "app_env \<Rightarrow> task_call \<Rightarrow> pyv result" where
  "expires_of env c = (case py_real (expires c) of
     Some s \<Rightarrow> res_bind (verify_seconds s) (\<lambda>s. Inr (PTime (the_now env c + s)))
   | None \<Rightarrow> Inr (expires c))"

text \<open>\<open>x and x.isoformat()\<close>: false values are kept, and only points in time have a text form.\<close>

fun iso :: "app_env \<Rightarrow> pyv \<Rightarrow> pyv result" where
  "iso env (PTime t) = Inr (PStr (isoformat env t))"
| "iso env v = (if py_true v then Inl AttributeError else Inr v)"

fun iso_unless_str :: "app_env \<Rightarrow> pyv \<Rightarrow> pyv result" where
  "iso_unless_str env (PStr s) = Inr (PStr s)"
| "iso_unless_str env v = iso env v"

definition check_args :: "pyv \<Rightarrow> pyv \<Rightarrow> unit result" where
  "check_args a k = (if \<not> is_sequence a then Inl TypeError else if \<not> is_mapping k then Inl TypeError else Inr ())"

fun pick_stamps :: "fields \<Rightarrow> string list \<Rightarrow> fields result" where
  "pick_stamps options [] = Inr []"
| "pick_stamps options (h # hs) = (case dict_get options h of
     None \<Rightarrow> Inl KeyError
   | Some v \<Rightarrow> res_bind (pick_stamps options hs) (\<lambda>st. Inr (if dict_get st h = None then (h, v) # st else (h, v) # dict_del h st)))"

definition repr_or :: "app_env \<Rightarrow> pyv \<Rightarrow> pyv \<Rightarrow> pyv" where
  "repr_or env given v = (if given = PNone then PStr (saferepr_limited env v) else given)"

definition message_properties :: "task_call \<Rightarrow> fields" where
  "message_properties c = [(''correlation_id'', task_id c), (''reply_to'', py_or (reply_to c) (PStr []))]"

definition as_task_v2 :: "app_env \<Rightarrow> task_call \<Rightarrow> message result" where
  "as_task_v2 env c =
     (let a = py_or (args c) (PTuple []); k = py_or (kwargs c) (PDict []) in
      res_bind (check_args a k) (\<lambda>_.
      res_bind (eta_of env c) (\<lambda>e.
      res_bind (expires_of env c) (\<lambda>x.
      res_bind (iso_unless_str env e) (\<lambda>e.
      res_bind (iso_unless_str env x) (\<lambda>x.
      res_bind (pick_stamps (call_options c) (case stamped_headers c of None \<Rightarrow> [] | Some hs \<Rightarrow> hs)) (\<lambda>stamps.
      (let ar = repr_or env (argsrepr c) a; kr = repr_or env (kwargsrepr c) k;
           root = py_or (root_id c) (task_id c) in
       Inr \<lparr>headers =
              [(''lang'', PStr ''py''), (''task'', task_name c), (''id'', task_id c), (''shadow'', shadow c), (''eta'', e), (''expires'', x),
               (''group'', group_id c), (''group_index'', group_index c), (''retries'', retries c),
               (''timelimit'', PList [time_limit c, soft_time_limit c]), (''root_id'', root), (''parent_id'', parent_id c),
               (''argsrepr'', ar), (''kwargsrepr'', kr), (''origin'', py_or (origin c) (PStr (anon_nodename env))),
               (''ignore_result'', ignore_result c), (''replaced_task_nesting'', replaced_task_nesting c),
               (''stamped_headers'', case stamped_headers c of None \<Rightarrow> PNone | Some hs \<Rightarrow> PList (map PStr hs)), (''stamps'', PDict stamps)],
            properties = message_properties c,
            body = PTuple [a, k, PDict [(''callbacks'', callbacks c), (''errbacks'', errbacks c), (''chain'', chain c), (''chord'', chord c)]],
            sent_event = (if create_sent_event c
              then Some [(''uuid'', task_id c), (''root_id'', root), (''parent_id'', parent_id c), (''name'', task_name c), (''args'', ar),
                (''kwargs'', kr), (''retries'', retries c), (''eta'', e), (''expires'', x)]
              else None)\<rparr>))))))))"

definition as_task_v1 :: "app_env \<Rightarrow> task_call \<Rightarrow> message result" where
  "as_task_v1 env c =
     (let a = py_or (args c) (PTuple []); k = py_or (kwargs c) (PDict []) in
      res_bind (check_args a k) (\<lambda>_.
      res_bind (eta_of env c) (\<lambda>e.
      res_bind (expires_of env c) (\<lambda>x.
      res_bind (iso env e) (\<lambda>e.
      res_bind (iso env x) (\<lambda>x.
       Inr \<lparr>headers = [],
            properties = message_properties c,
            body = PDict
              [(''task'', task_name c), (''id'', task_id c), (''args'', a), (''kwargs'', k), (''group'', group_id c),
               (''group_index'', group_index c), (''retries'', retries c), (''eta'', e), (''expires'', x), (''utc'', PBool (utc env)),
               (''callbacks'', callbacks c), (''errbacks'', errbacks c), (''timelimit'', PTuple [time_limit c, soft_time_limit c]),
               (''taskset'', group_id c), (''chord'', chord c)],
            sent_event = (if create_sent_event c
              then Some [(''uuid'', task_id c), (''name'', task_name c), (''args'', PStr (saferepr env a)), (''kwargs'', PStr (saferepr env k)),
                (''retries'', retries c), (''eta'', e), (''expires'', x)]
              else None)\<rparr>))))))"

section \<open>Reading messages in the worker\<close>

text \<open>What a task request is made from: the body, the headers, whether the body is decoded, and whether times are in UTC.\<close>

record decoded =
  d_body :: pyv
  d_headers :: fields
  d_decoded :: bool
  d_utc :: pyv

definition field :: "fields \<Rightarrow> string \<Rightarrow> pyv \<Rightarrow> pyv" where
  "field d k dflt = (case dict_get d k of None \<Rightarrow> dflt | Some v \<Rightarrow> v)"

definition old_embed :: "fields \<Rightarrow> pyv" where
  "old_embed b = PDict [(''callbacks'', field b ''callbacks'' PNone), (''errbacks'', field b ''errbacks'' PNone),
     (''chord'', field b ''chord'' PNone), (''chain'', PNone)]"

datatype task_error = InvalidTaskError | TaskRaised exn

definition hybrid_to_proto2 :: "fields \<Rightarrow> fields \<Rightarrow> task_error + decoded" where
  "hybrid_to_proto2 hdrs b =
     (let a = field b ''args'' (PTuple []); k = field b ''kwargs'' (PDict []) in
      if \<not> is_mapping k then Inl InvalidTaskError
      else Inr \<lparr>d_body = PTuple [a, k, old_embed b],
        d_headers = dict_update
          (map (\<lambda>n. (n, field b n (if n = ''retries'' then PInt 0 else if n = ''timelimit'' then PTuple [PNone, PNone] else PNone)))
            [''lang'', ''task'', ''id'', ''root_id'', ''parent_id'', ''group'', ''meth'', ''shadow'', ''eta'', ''expires'', ''retries'',
             ''timelimit'', ''argsrepr'', ''kwargsrepr'', ''origin'']) hdrs,
        d_decoded = True, d_utc = field b ''utc'' (PBool True)\<rparr>)"

definition proto1_to_proto2 :: "app_env \<Rightarrow> fields \<Rightarrow> fields \<Rightarrow> task_error + decoded" where
  "proto1_to_proto2 env hdrs b =
     (let a = field b ''args'' (PTuple []); k = field b ''kwargs'' (PDict []) in
      if \<not> is_mapping k then Inl InvalidTaskError
      else (let b = dict_update b [(''argsrepr'', PStr (saferepr env a)), (''kwargsrepr'', PStr (saferepr env k)), (''headers'', PDict hdrs)];
                b = (case dict_get b ''taskset'' of None \<Rightarrow> b | Some g \<Rightarrow> dict_set ''group'' g b) in
            Inr \<lparr>d_body = PTuple [a, k, old_embed b], d_headers = b, d_decoded = True, d_utc = field b ''utc'' (PBool True)\<rparr>))"

text \<open>
  What the strategy of a task makes of a received message. The strategy is called with a body of \<open>None\<close> for messages that name the task
  in their headers, and with the decoded payload otherwise. The test for arguments in the payload is that of Python's \<open>in\<close>: a key of a
  mapping, an element of a sequence, a part of a text. A payload that has no method \<open>get\<close> is an invalid task.
\<close>

record received =
  rcv_headers :: fields
  rcv_payload :: pyv
  rcv_body :: pyv

fun is_part :: "string \<Rightarrow> string \<Rightarrow> bool" where
  "is_part p [] = (p = [])"
| "is_part p (x # xs) = (take (length p) (x # xs) = p \<or> is_part p xs)"

fun py_in :: "string \<Rightarrow> pyv \<Rightarrow> bool result" where
  "py_in k (PDict d) = Inr (dict_get d k \<noteq> None)"
| "py_in k (PTuple vs) = Inr (PStr k \<in> set vs)"
| "py_in k (PList vs) = Inr (PStr k \<in> set vs)"
| "py_in k (PStr s) = Inr (is_part k s)"
| "py_in k _ = Inl TypeError"

definition read_message :: "app_env \<Rightarrow> received \<Rightarrow> pyv \<Rightarrow> task_error + decoded" where
  "read_message env msg b = (case py_in ''args'' (rcv_payload msg) of
     Inl e \<Rightarrow> Inl (TaskRaised e)
   | Inr has_args \<Rightarrow>
       if b = PNone \<and> \<not> has_args
       then Inr \<lparr>d_body = rcv_body msg, d_headers = rcv_headers msg, d_decoded = False, d_utc = PBool (uses_utc_timezone env)\<rparr>
       else if has_args
       then (case rcv_payload msg of PDict d \<Rightarrow> hybrid_to_proto2 (rcv_headers msg) d | _ \<Rightarrow> Inl InvalidTaskError)
       else (case b of PDict d \<Rightarrow> proto1_to_proto2 env (rcv_headers msg) d | _ \<Rightarrow> Inl InvalidTaskError))"

section \<open>Sending messages\<close>

record publish_opts =
  p_exchange :: "oval option"
  p_routing_key :: "string option"
  p_queue :: "oval option"
  p_retry :: "bool option"
  p_retry_policy :: fields
  p_serializer :: "string option"
  p_delivery_mode :: "int option"
  p_compression :: "string option"
  p_declare :: "queue list option"
  p_headers :: fields
  p_exchange_type :: "string option"
  p_properties :: fields

record publication =
  pub_body :: pyv
  pub_exchange :: "oval option"
  pub_routing_key :: "string option"
  pub_serializer :: "string option"
  pub_compression :: "string option"
  pub_retry :: bool
  pub_retry_policy :: fields
  pub_delivery_mode :: "int option"
  pub_declare :: "queue list option"
  pub_headers :: fields
  pub_properties :: fields

datatype sent =
    BeforePublish publication
  | Publish publication
  | AfterPublish publication
  | TaskSent publication
  | EventSent fields publication

record sender_env =
  s_decl :: declarations
  default_retry :: bool
  default_policy :: fields
  default_delivery_mode :: "int option"
  default_rkey :: "string option"
  default_serializer :: "string option"
  default_compressor :: "string option"
  task_default_queue :: string
  is_broadcast :: "queue \<Rightarrow> bool"
  before_receivers :: bool
  after_receivers :: bool
  sent_receivers :: bool
  producer_publish :: "publication \<Rightarrow> pyv result"

text \<open>The state of the sender: the queue table, the cached default queue, and what happened so far.\<close>

record sender =
  s_queues :: queues
  s_default_queue :: "queue option"
  s_log :: "sent list"

definition the_default_queue :: "sender_env \<Rightarrow> sender \<Rightarrow> queue result \<times> sender" where
  "the_default_queue env st = (case s_default_queue st of
     Some q \<Rightarrow> (Inr q, st)
   | None \<Rightarrow> (case getitem (s_decl env) (task_default_queue env) (s_queues st) of
       (Inl e, qs) \<Rightarrow> (Inl e, st\<lparr>s_queues := qs\<rparr>)
     | (Inr q, qs) \<Rightarrow> (Inr q, st\<lparr>s_queues := qs, s_default_queue := Some q\<rparr>)))"

text \<open>The queue of the message and its name.\<close>

definition find_queue :: "sender_env \<Rightarrow> publish_opts \<Rightarrow> sender \<Rightarrow> (string option \<times> queue option) result \<times> sender" where
  "find_queue env p st = (case p_queue p of
     None \<Rightarrow> if p_exchange p = None
       then (case the_default_queue env st of (Inl e, st) \<Rightarrow> (Inl e, st) | (Inr q, st) \<Rightarrow> (Inr (Some (qname q), Some q), st))
       else (Inr (None, None), st)
   | Some (OStr n) \<Rightarrow> (case getitem (s_decl env) n (s_queues st) of
       (Inl e, qs) \<Rightarrow> (Inl e, st\<lparr>s_queues := qs\<rparr>)
     | (Inr q, qs) \<Rightarrow> (Inr (Some n, Some q), st\<lparr>s_queues := qs\<rparr>))
   | Some (OQueue q) \<Rightarrow> (Inr (Some (qname q), Some q), st)
   | Some _ \<Rightarrow> (Inl AttributeError, st))"

definition int_or :: "int option \<Rightarrow> int option \<Rightarrow> int option" where
  "int_or a b = (if a = None \<or> a = Some 0 then b else a)"

definition str_or :: "string option \<Rightarrow> string option \<Rightarrow> string option" where
  "str_or a b = (if str_true a then a else b)"

definition queue_exchange :: "queue option \<Rightarrow> exchange option" where
  "queue_exchange q = (case q of None \<Rightarrow> None | Some q \<Rightarrow> qexchange q)"

definition delivery_mode_of :: "sender_env \<Rightarrow> publish_opts \<Rightarrow> queue option \<Rightarrow> int option" where
  "delivery_mode_of env p q = (case p_delivery_mode p of
     Some m \<Rightarrow> Some m
   | None \<Rightarrow> int_or (case queue_exchange q of None \<Rightarrow> None | Some x \<Rightarrow> ex_delivery_mode x) (default_delivery_mode env))"

definition exchange_type_of :: "publish_opts \<Rightarrow> queue option \<Rightarrow> string" where
  "exchange_type_of p q = (case p_exchange_type p of
     Some t \<Rightarrow> t
   | None \<Rightarrow> (case queue_exchange q of None \<Rightarrow> ''direct'' | Some x \<Rightarrow> ex_type x))"

definition exchange_of :: "sender_env \<Rightarrow> queues \<Rightarrow> publish_opts \<Rightarrow> string option \<Rightarrow> queue option \<Rightarrow> (oval option \<times> string option) result" where
  "exchange_of env qs p qn q =
     (if (\<not> oval_true (p_exchange p) \<or> \<not> str_true (p_routing_key p)) \<and> exchange_type_of p q = ''direct''
      then Inr (Some (OStr []), qn)
      else if p_exchange p = None
      then (case q of
          None \<Rightarrow> Inl AttributeError
        | Some q \<Rightarrow> (case qexchange q of
            None \<Rightarrow> Inl AttributeError
          | Some x \<Rightarrow> Inr (if ex_name x \<noteq> [] then Some (OStr (ex_name x)) else map_option OExchange (default_exchange qs),
              str_or (p_routing_key p) (str_or (qrouting_key q) (default_rkey env)))))
      else Inr (p_exchange p, p_routing_key p))"

definition declare_of :: "sender_env \<Rightarrow> publish_opts \<Rightarrow> queue option \<Rightarrow> queue list option" where
  "declare_of env p q = (case p_declare p of
     Some d \<Rightarrow> Some d
   | None \<Rightarrow> (case q of None \<Rightarrow> None | Some q \<Rightarrow> if is_broadcast env q then None else Some [q]))"

fun exchange_text :: "oval option \<Rightarrow> pyv" where
  "exchange_text (Some (OExchange x)) = PStr (ex_name x)"
| "exchange_text (Some (OStr s)) = PStr s"
| "exchange_text _ = PNone"

definition str_value :: "string option \<Rightarrow> pyv" where
  "str_value s = (case s of None \<Rightarrow> PNone | Some s \<Rightarrow> PStr s)"

text \<open>Publishing with the signals before and after it, and the event at the end.\<close>

definition publish_message :: "sender_env \<Rightarrow> publication \<Rightarrow> string option \<Rightarrow> fields option \<Rightarrow> sender \<Rightarrow> pyv result \<times> sender" where
  "publish_message env pub qn event st =
     (let st = st\<lparr>s_log := s_log st @ (if before_receivers env then [BeforePublish pub] else []) @ [Publish pub]\<rparr> in
      case producer_publish env pub of
        Inl e \<Rightarrow> (Inl e, st)
      | Inr r \<Rightarrow> (Inr r, st\<lparr>s_log := s_log st
          @ (if after_receivers env then [AfterPublish pub] else [])
          @ (if sent_receivers env then [TaskSent pub] else [])
          @ (case event of
               None \<Rightarrow> []
             | Some ev \<Rightarrow> if ev = [] then [] else
                 [EventSent (dict_update ev [(''queue'', str_value qn), (''exchange'', exchange_text (pub_exchange pub)),
                    (''routing_key'', str_value (pub_routing_key pub))]) pub])\<rparr>))"

definition send_task_message :: "sender_env \<Rightarrow> message \<Rightarrow> publish_opts \<Rightarrow> sender \<Rightarrow> pyv result \<times> sender" where
  "send_task_message env m p st =
     (case find_queue env p st of
        (Inl e, st) \<Rightarrow> (Inl e, st)
      | (Inr (qn, q), st) \<Rightarrow>
          (case exchange_of env (s_queues st) p qn q of
             Inl e \<Rightarrow> (Inl e, st)
           | Inr (ex, rk) \<Rightarrow> publish_message env
               \<lparr>pub_body = body m, pub_exchange = ex, pub_routing_key = rk,
                pub_serializer = str_or (p_serializer p) (default_serializer env),
                pub_compression = str_or (p_compression p) (default_compressor env),
                pub_retry = (case p_retry p of None \<Rightarrow> default_retry env | Some r \<Rightarrow> r),
                pub_retry_policy = dict_update (default_policy env) (p_retry_policy p),
                pub_delivery_mode = delivery_mode_of env p q, pub_declare = declare_of env p q,
                pub_headers = dict_update (headers m) (p_headers p),
                pub_properties = dict_update (properties m) (p_properties p)\<rparr>
               qn (sent_event m) st))"

section \<open>Properties of messages\<close>

lemma check_args_iff: "check_args a k = Inr u \<longleftrightarrow> is_sequence a \<and> is_mapping k"
  by (auto simp: check_args_def)

lemma iso_agree: "iso env v = Inr w \<Longrightarrow> iso_unless_str env v = Inr w"
  by (cases v) (auto split: if_splits)

text \<open>The headers of the new protocol that the worker finds in a message of the old one.\<close>

definition shared_headers :: "string list" where
  "shared_headers = [''task'', ''id'', ''eta'', ''expires'', ''group'', ''retries'']"

lemma as_task_v1_ok:
  assumes "as_task_v1 env c = Inr m"
  obtains e x e' x' where "is_sequence (py_or (args c) (PTuple []))" "is_mapping (py_or (kwargs c) (PDict []))"
    "eta_of env c = Inr e" "expires_of env c = Inr x" "iso env e = Inr e'" "iso env x = Inr x'"
    "body m = PDict [(''task'', task_name c), (''id'', task_id c), (''args'', py_or (args c) (PTuple [])), (''kwargs'', py_or (kwargs c) (PDict [])),
       (''group'', group_id c), (''group_index'', group_index c), (''retries'', retries c), (''eta'', e'), (''expires'', x'), (''utc'', PBool (utc env)),
       (''callbacks'', callbacks c), (''errbacks'', errbacks c), (''timelimit'', PTuple [time_limit c, soft_time_limit c]),
       (''taskset'', group_id c), (''chord'', chord c)]"
  using assms unfolding as_task_v1_def Let_def by (auto simp: res_bind_Inr_iff check_args_iff)

lemma as_task_v2_ok:
  assumes "as_task_v2 env c = Inr m"
  obtains e x e' x' where "is_sequence (py_or (args c) (PTuple []))" "is_mapping (py_or (kwargs c) (PDict []))"
    "eta_of env c = Inr e" "expires_of env c = Inr x" "iso_unless_str env e = Inr e'" "iso_unless_str env x = Inr x'"
    "body m = PTuple [py_or (args c) (PTuple []), py_or (kwargs c) (PDict []),
       PDict [(''callbacks'', callbacks c), (''errbacks'', errbacks c), (''chain'', chain c), (''chord'', chord c)]]"
    "\<forall>k \<in> set shared_headers. dict_get (headers m) k = dict_get
       [(''task'', task_name c), (''id'', task_id c), (''eta'', e'), (''expires'', x'), (''group'', group_id c), (''retries'', retries c)] k"
    "dict_get (headers m) ''group_index'' = Some (group_index c)"
    "dict_get (headers m) ''argsrepr'' = Some (repr_or env (argsrepr c) (py_or (args c) (PTuple [])))"
    "dict_get (headers m) ''timelimit'' = Some (PList [time_limit c, soft_time_limit c])"
  using assms unfolding as_task_v2_def Let_def by (auto simp: res_bind_Inr_iff check_args_iff shared_headers_def)

definition old_decoded :: "app_env \<Rightarrow> task_call \<Rightarrow> pyv \<Rightarrow> pyv \<Rightarrow> decoded" where
  "old_decoded env c e x = \<lparr>d_body = PTuple [py_or (args c) (PTuple []), py_or (kwargs c) (PDict []),
       PDict [(''callbacks'', callbacks c), (''errbacks'', errbacks c), (''chord'', chord c), (''chain'', PNone)]],
     d_headers = [(''lang'', PNone), (''task'', task_name c), (''id'', task_id c), (''root_id'', PNone), (''parent_id'', PNone),
       (''group'', group_id c), (''meth'', PNone), (''shadow'', PNone), (''eta'', e), (''expires'', x), (''retries'', retries c),
       (''timelimit'', PTuple [time_limit c, soft_time_limit c]), (''argsrepr'', PNone), (''kwargsrepr'', PNone), (''origin'', PNone)],
     d_decoded = True, d_utc = PBool (utc env)\<rparr>"

lemma old_message_read:
  assumes "as_task_v1 env c = Inr m"
  obtains e x e' x' where "is_mapping (py_or (kwargs c) (PDict []))" "eta_of env c = Inr e" "expires_of env c = Inr x"
    "iso env e = Inr e'" "iso env x = Inr x'"
    "read_message env \<lparr>rcv_headers = headers m, rcv_payload = body m, rcv_body = raw\<rparr> (body m) = Inr (old_decoded env c e' x')"
proof -
  have h: "headers m = []" using assms unfolding as_task_v1_def Let_def by (auto simp: res_bind_Inr_iff)
  show ?thesis
    using assms that
    by (rule as_task_v1_ok) (auto simp: h read_message_def hybrid_to_proto2_def old_embed_def field_def old_decoded_def Let_def)
qed

text \<open>
  C35: a worker reads the same task from both versions of the protocol. For a call without a chain, the payload of the
  old message, which the worker finds has arguments and converts as a hybrid message, has the arguments, the call-backs, the error
  call-backs and the chord of the new message, its time limits, and its name, id, start time, expiry, group and number of
  retries; the new message the worker takes as it is.
\<close>

theorem protocols_agree:
  assumes v1: "as_task_v1 env c = Inr m1" and v2: "as_task_v2 env c = Inr m2" and "chain c = PNone"
  shows "\<exists>d1 a k embed1 embed2 l.
    read_message env \<lparr>rcv_headers = headers m1, rcv_payload = body m1, rcv_body = raw1\<rparr> (body m1) = Inr d1 \<and>
    read_message env \<lparr>rcv_headers = headers m2, rcv_payload = body m2, rcv_body = raw2\<rparr> PNone =
      Inr \<lparr>d_body = raw2, d_headers = headers m2, d_decoded = False, d_utc = PBool (uses_utc_timezone env)\<rparr> \<and>
    d_decoded d1 \<and> d_utc d1 = PBool (utc env) \<and>
    d_body d1 = PTuple [a, k, PDict embed1] \<and> body m2 = PTuple [a, k, PDict embed2] \<and> (\<forall>n. dict_get embed1 n = dict_get embed2 n) \<and>
    dict_get (d_headers d1) ''timelimit'' = Some (PTuple l) \<and> dict_get (headers m2) ''timelimit'' = Some (PList l) \<and>
    (\<forall>h \<in> set shared_headers. dict_get (d_headers d1) h = dict_get (headers m2) h)"
proof -
  from v1 obtain e x e1 x1 where one: "is_mapping (py_or (kwargs c) (PDict []))" "eta_of env c = Inr e" "expires_of env c = Inr x"
      "iso env e = Inr e1" "iso env x = Inr x1" and old: "read_message env \<lparr>rcv_headers = headers m1, rcv_payload = body m1, rcv_body = raw1\<rparr> (body m1) =
      Inr (old_decoded env c e1 x1)"
    by (rule old_message_read)
  from v2 obtain e' x' e2 x2 where two: "is_sequence (py_or (args c) (PTuple []))" "is_mapping (py_or (kwargs c) (PDict []))"
      "eta_of env c = Inr e'" "expires_of env c = Inr x'" "iso_unless_str env e' = Inr e2" "iso_unless_str env x' = Inr x2"
    and b2: "body m2 = PTuple [py_or (args c) (PTuple []), py_or (kwargs c) (PDict []),
       PDict [(''callbacks'', callbacks c), (''errbacks'', errbacks c), (''chain'', chain c), (''chord'', chord c)]]"
    and h2: "\<forall>k \<in> set shared_headers. dict_get (headers m2) k = dict_get
       [(''task'', task_name c), (''id'', task_id c), (''eta'', e2), (''expires'', x2), (''group'', group_id c), (''retries'', retries c)] k"
    and t2: "dict_get (headers m2) ''timelimit'' = Some (PList [time_limit c, soft_time_limit c])"
    by (rule as_task_v2_ok)
  have eq: "e2 = e1" "x2 = x1" using one two iso_agree by fastforce+
  have "PStr s \<noteq> v" if "is_sequence v \<or> is_mapping v" for s v using that by auto
  then have "py_in ''args'' (body m2) = Inr False" using two(1,2) b2 by simp
  then have "read_message env \<lparr>rcv_headers = headers m2, rcv_payload = body m2, rcv_body = raw2\<rparr> PNone =
      Inr \<lparr>d_body = raw2, d_headers = headers m2, d_decoded = False, d_utc = PBool (uses_utc_timezone env)\<rparr>"
    by (simp add: read_message_def)
  then show ?thesis using old b2 h2 t2 eq assms(3) by (simp add: old_decoded_def shared_headers_def)
qed

text \<open>
  a message of the old protocol loses the index of its task in the group and the representation of its arguments. The
  conversion of a payload with arguments copies a fixed list of fields, without the index although the sender puts it in the
  payload, and without making the representations, as the conversion of messages without arguments does.
\<close>

theorem old_protocol_loses_headers:
  assumes v1: "as_task_v1 env c = Inr m1" and v2: "as_task_v2 env c = Inr m2"
  shows "\<exists>b d. body m1 = PDict b \<and> dict_get b ''group_index'' = Some (group_index c) \<and>
    read_message env \<lparr>rcv_headers = headers m1, rcv_payload = body m1, rcv_body = raw\<rparr> (body m1) = Inr d \<and>
    dict_get (d_headers d) ''group_index'' = None \<and> dict_get (headers m2) ''group_index'' = Some (group_index c) \<and>
    dict_get (d_headers d) ''argsrepr'' = Some PNone \<and> dict_get (d_headers d) ''kwargsrepr'' = Some PNone \<and>
    dict_get (headers m2) ''argsrepr'' \<noteq> Some PNone"
proof -
  from v1 obtain e1 x1 where old: "read_message env \<lparr>rcv_headers = headers m1, rcv_payload = body m1, rcv_body = raw\<rparr> (body m1) =
      Inr (old_decoded env c e1 x1)"
    by (rule old_message_read)
  from v1 obtain b where b: "body m1 = PDict b" "dict_get b ''group_index'' = Some (group_index c)" by (rule as_task_v1_ok) simp
  from v2 have "dict_get (headers m2) ''group_index'' = Some (group_index c)" "dict_get (headers m2) ''argsrepr'' \<noteq> Some PNone"
    by (rule as_task_v2_ok, simp, rule as_task_v2_ok, simp add: repr_or_def)
  with old b show ?thesis by (simp add: old_decoded_def)
qed

definition sample_app :: app_env where
  "sample_app = \<lparr>app_now = 100, isoformat = (\<lambda>t. if t = 110 then ''110'' else ''later''), saferepr_limited = (\<lambda>v. ''short''), saferepr = (\<lambda>v. ''repr''), anon_nodename = ''gen1@host'', utc = True, uses_utc_timezone = True\<rparr>"

definition sample_call :: task_call where
  "sample_call = \<lparr>task_id = PStr ''id1'', task_name = PStr ''proj.add'', args = PTuple [PInt 2, PInt 3], kwargs = PDict [], countdown = PInt 10, eta = PNone,
     group_id = PNone, group_index = PNone, expires = PNone, retries = PInt 0, chord = PNone, callbacks = PNone, errbacks = PNone, reply_to = PNone,
     time_limit = PNone, soft_time_limit = PNone, create_sent_event = False, root_id = PNone, parent_id = PNone, shadow = PNone, chain = PNone,
     call_now = None, origin = PNone, ignore_result = PBool False, argsrepr = PNone, kwargsrepr = PNone, stamped_headers = None,
     replaced_task_nesting = PInt 0, call_options = []\<rparr>"

lemma sample_call_ok: "isl (as_task_v1 sample_app sample_call) = False" "isl (as_task_v2 sample_app sample_call) = False"
  by code_simp+

theorem protocols_agree_witness:
  "\<exists>m1 m2 d. as_task_v1 sample_app sample_call = Inr m1 \<and> as_task_v2 sample_app sample_call = Inr m2 \<and>
     read_message sample_app \<lparr>rcv_headers = headers m1, rcv_payload = body m1, rcv_body = PNone\<rparr> (body m1) = Inr d \<and>
     dict_get (d_headers d) ''eta'' = dict_get (headers m2) ''eta''"
proof -
  obtain m1 m2 where m: "as_task_v1 sample_app sample_call = Inr m1" "as_task_v2 sample_app sample_call = Inr m2"
    using sample_call_ok by (metis isl_def sum.collapse(2))
  have "chain sample_call = PNone" by (simp add: sample_call_def)
  from protocols_agree [OF m this, of PNone PNone] m show ?thesis by (fastforce simp: shared_headers_def)
qed

theorem old_protocol_loses_headers_witness:
  "\<exists>m1 d. as_task_v1 sample_app (sample_call\<lparr>group_index := PInt 3\<rparr>) = Inr m1 \<and>
     read_message sample_app \<lparr>rcv_headers = headers m1, rcv_payload = body m1, rcv_body = PNone\<rparr> (body m1) = Inr d \<and>
     dict_get (d_headers d) ''group_index'' = None"
proof -
  let ?c = "sample_call\<lparr>group_index := PInt 3\<rparr>"
  have "isl (as_task_v1 sample_app ?c) = False" "isl (as_task_v2 sample_app ?c) = False" by code_simp+
  then obtain m1 m2 where m: "as_task_v1 sample_app ?c = Inr m1" "as_task_v2 sample_app ?c = Inr m2" by (metis isl_def sum.collapse(2))
  from old_protocol_loses_headers [OF m, of PNone] m(1) show ?thesis by blast
qed

text \<open>
  the start and the expiry of a message. A countdown is an offset from now and replaces the given start time; it is refused
  below the smallest 32-bit integer. The time in the header is the text form of the sum.
\<close>

theorem countdown_sets_eta:
  assumes "py_true (countdown c)" and "py_real (countdown c) = Some s" and "as_task_v2 env c = Inr m"
  shows "INT_MIN \<le> s \<and> dict_get (headers m) ''eta'' = Some (PStr (isoformat env (the_now env c + s)))"
proof -
  from assms(3) obtain e e' where "eta_of env c = Inr e" "iso_unless_str env e = Inr e'" "dict_get (headers m) ''eta'' = Some e'"
    by (rule as_task_v2_ok) (auto simp: shared_headers_def)
  then show ?thesis using assms(1,2) by (auto simp: eta_of_def res_bind_Inr_iff verify_seconds_def split: if_splits)
qed

theorem countdown_sets_eta_witness:
  "\<exists>m. as_task_v2 sample_app sample_call = Inr m \<and> dict_get (headers m) ''eta'' = Some (PStr ''110'')"
proof -
  obtain m where m: "as_task_v2 sample_app sample_call = Inr m" using sample_call_ok(2) by (metis isl_def sum.collapse(2))
  have "py_true (countdown sample_call)" "py_real (countdown sample_call) = Some 10" by (simp_all add: sample_call_def)
  from countdown_sets_eta [OF this m] m show ?thesis by (simp add: the_now_def sample_call_def sample_app_def)
qed

text \<open>
  the old protocol cannot send an expiry time in text form. A task that is sent again with the headers of its
  message, as for a retry, has its times as text; the new protocol takes them as they are, the old one
  asks a string for its text form and fails.
\<close>

theorem old_protocol_rejects_text_expiry:
  assumes "expires c = PStr s" and "s \<noteq> []" and "as_task_v2 env c = Inr m" and "\<not> py_true (eta c)"
  shows "as_task_v1 env c = Inl AttributeError \<and> dict_get (headers m) ''expires'' = Some (PStr s)"
proof -
  have x: "expires_of env c = Inr (PStr s)" using assms(1) by (simp add: expires_of_def)
  from assms(3) obtain e e' x x' where two: "is_sequence (py_or (args c) (PTuple []))" "is_mapping (py_or (kwargs c) (PDict []))" "eta_of env c = Inr e"
    "expires_of env c = Inr x" "iso_unless_str env x = Inr x'" "dict_get (headers m) ''expires'' = Some x'"
    by (rule as_task_v2_ok) (auto simp: shared_headers_def)
  have "\<exists>w. iso env e = Inr w"
    using two(3) assms(4) by (cases e) (auto simp: eta_of_def res_bind_Inr_iff split: if_splits option.splits)
  then have "as_task_v1 env c = Inl AttributeError"
    using two x assms(2) by (auto simp: as_task_v1_def Let_def check_args_def)
  moreover have "x = PStr s" using two(4) x by simp
  ultimately show ?thesis using two(5,6) by simp
qed

theorem old_protocol_rejects_text_expiry_witness:
  "as_task_v1 sample_app (sample_call\<lparr>expires := PStr ''2030''\<rparr>) = Inl AttributeError"
proof -
  let ?c = "sample_call\<lparr>expires := PStr ''2030''\<rparr>"
  have "isl (as_task_v2 sample_app ?c) = False" by code_simp
  then obtain m where "as_task_v2 sample_app ?c = Inr m" by (metis isl_def sum.collapse(2))
  from old_protocol_rejects_text_expiry [OF _ _ this] show ?thesis by (simp add: sample_call_def)
qed

section \<open>Properties of sending\<close>

definition published :: "sender \<Rightarrow> publication list" where
  "published st = [pub. Publish pub \<leftarrow> s_log st]"

lemma published_message:
  "publish_message env pub qn ev st = (r, st') \<Longrightarrow> published st' = published st @ [pub]"
  by (auto simp: publish_message_def published_def Let_def split: sum.splits option.splits if_splits)

lemma send_cases:
  assumes "send_task_message env m p st = (Inr r, st')"
  obtains qn q st1 ex rk where "find_queue env p st = (Inr (qn, q), st1)" "exchange_of env (s_queues st1) p qn q = Inr (ex, rk)"
    "s_log st1 = s_log st"
    "\<exists>pub. published st' = published st @ [pub] \<and> pub_exchange pub = ex \<and> pub_routing_key pub = rk \<and> pub_declare pub = declare_of env p q \<and>
       pub_body pub = body m \<and> pub_headers pub = dict_update (headers m) (p_headers p)"
proof -
  obtain f st1 where f: "find_queue env p st = (f, st1)" by fastforce
  obtain qn q where fq: "f = Inr (qn, q)" using assms f by (cases f) (auto simp: send_task_message_def)
  obtain ex rk where e: "exchange_of env (s_queues st1) p qn q = Inr (ex, rk)"
    using assms f fq by (cases "exchange_of env (s_queues st1) p qn q") (auto simp: send_task_message_def)
  have log: "s_log st1 = s_log st"
    using f by (auto simp: find_queue_def the_default_queue_def split: option.splits if_splits oval.splits prod.splits sum.splits)
  then have pst: "published st1 = published st" by (simp add: published_def)
  obtain pub where pub: "publish_message env pub qn (sent_event m) st1 = (Inr r, st')" "pub_exchange pub = ex" "pub_routing_key pub = rk"
    "pub_declare pub = declare_of env p q" "pub_body pub = body m" "pub_headers pub = dict_update (headers m) (p_headers p)"
    using assms f fq e by (simp add: send_task_message_def)
  from published_message [OF pub(1)] pst have "published st' = published st @ [pub]" by simp
  with pub show ?thesis by (intro that [OF f [unfolded fq] e log]) blast
qed

text \<open>
  a message to a queue with a direct exchange is sent to that queue by name. Without an explicit exchange
  or without an explicit routing key, the message goes through the default exchange of the broker with the name of the
  queue as its routing key, and the queue is declared.
\<close>

theorem direct_queue_sent_by_name:
  assumes "p_queue p = Some (OQueue q)" and "p_exchange_type p = None" and "queue_exchange (Some q) = Some x" and "ex_type x = ''direct''"
    and "\<not> oval_true (p_exchange p) \<or> \<not> str_true (p_routing_key p)" and "p_declare p = None" and "\<not> is_broadcast env q"
    and "send_task_message env m p st = (Inr r, st')"
  shows "\<exists>pub. published st' = published st @ [pub] \<and> pub_exchange pub = Some (OStr []) \<and> pub_routing_key pub = Some (qname q) \<and>
    pub_declare pub = Some [q]"
proof -
  from assms(8) obtain qn q' st1 ex rk where f: "find_queue env p st = (Inr (qn, q'), st1)" and e: "exchange_of env (s_queues st1) p qn q' = Inr (ex, rk)"
    and pub: "\<exists>pub. published st' = published st @ [pub] \<and> pub_exchange pub = ex \<and> pub_routing_key pub = rk \<and> pub_declare pub = declare_of env p q' \<and>
       pub_body pub = body m \<and> pub_headers pub = dict_update (headers m) (p_headers p)"
    by (rule send_cases)
  from f assms(1) have "qn = Some (qname q)" "q' = Some q" by (simp_all add: find_queue_def)
  with e assms(2-7) have "ex = Some (OStr [])" "rk = Some (qname q)" "declare_of env p q' = Some [q]"
    by (simp_all add: exchange_of_def exchange_type_of_def declare_of_def)
  with pub show ?thesis by auto
qed

definition options_to_publish :: "opts \<Rightarrow> publish_opts \<Rightarrow> publish_opts" where
  "options_to_publish options p = p\<lparr>p_queue := (case dict_get options ''queue'' of Some v \<Rightarrow> v | None \<Rightarrow> None),
     p_exchange := (case dict_get options ''exchange'' of Some v \<Rightarrow> v | None \<Rightarrow> None),
     p_routing_key := (case dict_get options ''routing_key'' of Some (Some (OStr k)) \<Rightarrow> Some k | _ \<Rightarrow> None)\<rparr>"


definition sample_sender_env :: sender_env where
  "sample_sender_env = \<lparr>s_decl = sample_env, default_retry = True, default_policy = [], default_delivery_mode = Some 2, default_rkey = Some ''celery'',
     default_serializer = Some ''json'', default_compressor = None, task_default_queue = ''foo'', is_broadcast = (\<lambda>_. False),
     before_receivers = True, after_receivers = False, sent_receivers = False, producer_publish = (\<lambda>_. Inr PNone)\<rparr>"

definition sample_publish :: publish_opts where
  "sample_publish = \<lparr>p_exchange = None, p_routing_key = None, p_queue = None, p_retry = None, p_retry_policy = [], p_serializer = None,
     p_delivery_mode = None, p_compression = None, p_declare = None, p_headers = [], p_exchange_type = None, p_properties = []\<rparr>"

definition sample_sender :: sender where
  "sample_sender = \<lparr>s_queues = sample_table, s_default_queue = None, s_log = []\<rparr>"

definition sample_message :: message where
  "sample_message = \<lparr>headers = [], properties = [], body = PTuple [], sent_event = None\<rparr>"

text \<open>The queue \<open>bar\<close> of the sample table.\<close>

definition sample_bar :: queue where
  "sample_bar = (case dict_get (qmap sample_table) ''bar'' of Some q \<Rightarrow> q | None \<Rightarrow> sample_queue 0 [] None)"

theorem direct_queue_sent_by_name_witness:
  "\<exists>pub. published (snd (send_task_message sample_sender_env sample_message
       (sample_publish\<lparr>p_queue := Some (OQueue sample_bar), p_exchange := Some (OStr ''media'')\<rparr>) sample_sender)) = [pub] \<and>
     pub_exchange pub = Some (OStr []) \<and> pub_routing_key pub = Some ''bar''"
proof -
  let ?p = "sample_publish\<lparr>p_queue := Some (OQueue sample_bar), p_exchange := Some (OStr ''media'')\<rparr>"
  let ?run = "send_task_message sample_sender_env sample_message ?p sample_sender"
  have "isl (fst ?run) = False" by code_simp
  then obtain r st' where run: "?run = (Inr r, st')" by (metis isl_def prod.collapse sum.collapse(2))
  have x: "map_option ex_type (queue_exchange (Some sample_bar)) = Some ''direct''" "qname sample_bar = ''bar''" by code_simp+
  then obtain x where "queue_exchange (Some sample_bar) = Some x" "ex_type x = ''direct''" by auto
  then have "\<exists>pub. published st' = published sample_sender @ [pub] \<and> pub_exchange pub = Some (OStr []) \<and> pub_routing_key pub = Some (qname sample_bar) \<and>
      pub_declare pub = Some [sample_bar]"
    by (intro direct_queue_sent_by_name [OF _ _ _ _ _ _ _ run]) (simp_all add: sample_publish_def sample_sender_env_def str_true_def)
  moreover have "published sample_sender = []" by code_simp
  ultimately show ?thesis unfolding run using x(2) by auto
qed


end
