(* ===== verification/Trace.thy ===== *)
theory Trace
  imports States
begin

text \<open>
  The execution of a task in the worker, \<open>celery.app.trace\<close>: the tracer that runs the body of a task between
  its hooks and signals, stores the outcome, starts call-backs and the rest of a chain, skips tasks that were delivered
  again after they succeeded, and keeps errors from leaving the process.

  Every call out of the module (the task body, hooks, signals, the backend, starting other tasks) is an entry of a log.
  Whether it raises, and what, is decided by the environment, which sees the calls made before it.
  Local variables that survive an exception are part of the state. Exceptions that can be pickled and those that
  cannot are not told apart; tracebacks and their clearing are left out.
\<close>

section \<open>Exceptions\<close>

datatype texc =
    TReject bool
  | TIgnore
  | TRetry
  | TEncodeError
  | TMemoryError
  | TBackendGetMetaError
  | TInvalidTaskError
  | TAttributeError
  | TException nat
  | TKeyboardInterrupt
  | TSystemExit
  | TBaseException nat

text \<open>Subclasses of \<open>Exception\<close>; the others leave every handler that does not name them.\<close>

fun is_exception :: "texc \<Rightarrow> bool" where
  "is_exception TKeyboardInterrupt = False"
| "is_exception TSystemExit = False"
| "is_exception (TBaseException _) = False"
| "is_exception _ = True"

section \<open>State\<close>

text \<open>A call-back is known by its number and whether it is a group; a chain is a list of numbers, the next step last.\<close>

datatype tcall =
    Prerun
  | LoaderInit
  | StoreStarted
  | BeforeStart
  | Run
  | MarkRetry
  | OnRetry
  | SigRetry
  | MarkFailure texc bool bool
  | OnFailure texc
  | SigFailure texc
  | ApplyGroupCallback nat
  | ApplyCallbacks "nat list"
  | ApplyCallback nat
  | ApplyChain nat "nat list"
  | MarkDone bool
  | OnSuccess
  | SigSuccess
  | AfterReturn string
  | Postrun "string option"
  | ProcessCleanup
  | LoaderCleanup
  | SigInternalError texc
  | PrepareException texc
  | GetState
  | GetMeta
  | LogLine string

record tenv =
  raises :: "tcall list \<Rightarrow> tcall \<Rightarrow> texc option"
  run_value :: nat
  stored_state :: string
  stored_children :: bool

record tracer =
  t_ignore_result :: bool
  t_track_started :: bool
  t_store_eager_result :: bool
  t_store_errors_even_if_ignored :: bool
  t_before_start :: bool
  t_on_success :: bool
  t_after_return :: bool
  t_eager :: bool
  t_propagate :: bool
  t_deduplicate :: bool
  t_inherit_priority :: bool
  t_prerun_receivers :: bool
  t_postrun_receivers :: bool
  t_success_receivers :: bool

text \<open>The request; \<open>q_delivery_info\<close> tells whether the message was delivered again, if there is such information.\<close>

record trequest =
  q_id :: string
  q_kwargs_mapping :: bool
  q_ignore_result :: "bool option"
  q_delivery_info :: "bool option"
  q_callbacks :: "(nat \<times> bool) list"
  q_chain :: "nat list"

datatype pval = VNone | VVal nat | VExc texc | VInfo texc bool

record tst =
  calls :: "tcall list"
  v_R :: pval
  v_I :: "(string \<times> texc) option"
  v_T :: bool
  v_Rstr :: "pval option"
  v_retval :: pval
  v_state :: "string option"
  task_stack :: nat
  request_stack :: nat
  successful_requests :: "string list"

section \<open>Computations that may raise\<close>

type_synonym 'a tm = "tst \<Rightarrow> (texc + 'a) \<times> tst"

definition ret :: "'a \<Rightarrow> 'a tm" where
  "ret x s = (Inr x, s)"

definition throw :: "texc \<Rightarrow> 'a tm" where
  "throw e s = (Inl e, s)"

definition modify :: "(tst \<Rightarrow> tst) \<Rightarrow> unit tm" where
  "modify f s = (Inr (), f s)"

definition andthen :: "'a tm \<Rightarrow> 'b tm \<Rightarrow> 'b tm" where
  "andthen m k s = (case m s of (Inl e, s') \<Rightarrow> (Inl e, s') | (Inr _, s') \<Rightarrow> k s')"

text \<open>\<open>try m except e: h e else: k\<close>, where \<open>h\<close> gives no handler for exceptions that are not caught.\<close>

definition try_else :: "'a tm \<Rightarrow> (texc \<Rightarrow> 'b tm option) \<Rightarrow> 'b tm \<Rightarrow> 'b tm" where
  "try_else m h k s = (case m s of
     (Inl e, s') \<Rightarrow> (case h e of None \<Rightarrow> (Inl e, s') | Some r \<Rightarrow> r s')
   | (Inr _, s') \<Rightarrow> k s')"

text \<open>\<open>try: m finally: f\<close>; an exception of \<open>f\<close> replaces that of \<open>m\<close>.\<close>

definition finally_do :: "'a tm \<Rightarrow> unit tm \<Rightarrow> 'a tm" where
  "finally_do m f s = (case m s of (r, s') \<Rightarrow> (case f s' of (Inl e, s'') \<Rightarrow> (Inl e, s'') | (Inr _, s'') \<Rightarrow> (r, s'')))"

definition invoke :: "tenv \<Rightarrow> tcall \<Rightarrow> unit tm" where
  "invoke env c s = (case raises env (calls s) c of
     Some e \<Rightarrow> (Inl e, s\<lparr>calls := calls s @ [c]\<rparr>)
   | None \<Rightarrow> (Inr (), s\<lparr>calls := calls s @ [c]\<rparr>))"

definition when_do :: "bool \<Rightarrow> unit tm \<Rightarrow> unit tm" where
  "when_do b m = (if b then m else ret ())"

fun invoke_all :: "tenv \<Rightarrow> tcall list \<Rightarrow> unit tm" where
  "invoke_all env [] = ret ()"
| "invoke_all env (c # cs) = andthen (invoke env c) (invoke_all env cs)"

text \<open>Writing a line to the log does not raise.\<close>

definition log_line :: "string \<Rightarrow> unit tm" where
  "log_line l = modify (\<lambda>s. s\<lparr>calls := calls s @ [LogLine l]\<rparr>)"

section \<open>Handlers of the outcome\<close>

definition actual_ignore_result :: "tracer \<Rightarrow> trequest \<Rightarrow> bool" where
  "actual_ignore_result t q = (case q_ignore_result q of Some b \<Rightarrow> b | None \<Rightarrow> t_ignore_result t)"

definition store_errors :: "tracer \<Rightarrow> trequest \<Rightarrow> bool" where
  "store_errors t q =
     (if actual_ignore_result t q then t_store_errors_even_if_ignored t
      else if t_eager t \<and> t_store_eager_result t then True
      else \<not> t_eager t)"

definition handle_retry :: "tenv \<Rightarrow> tracer \<Rightarrow> trequest \<Rightarrow> unit tm" where
  "handle_retry env t q =
     andthen (when_do (store_errors t q) (invoke env MarkRetry))
    (andthen (invoke env OnRetry)
    (andthen (invoke env SigRetry) (log_line ''retry'')))"

definition handle_failure :: "tenv \<Rightarrow> tracer \<Rightarrow> trequest \<Rightarrow> texc \<Rightarrow> bool \<Rightarrow> unit tm" where
  "handle_failure env t q e call_errbacks =
     andthen (invoke env (MarkFailure e (store_errors t q) call_errbacks))
    (andthen (invoke env (OnFailure e))
    (andthen (invoke env (SigFailure e)) (log_line ''failure'')))"

text \<open>
  \<open>on_error\<close>: with \<open>propagate\<close> the exception being handled is raised again; otherwise the state becomes
  \<open>RETRY\<close> or \<open>FAILURE\<close>.
\<close>

definition on_error :: "tenv \<Rightarrow> tracer \<Rightarrow> trequest \<Rightarrow> texc \<Rightarrow> bool \<Rightarrow> unit tm" where
  "on_error env t q e is_retry =
     (if t_propagate t then throw e
      else if is_retry
      then andthen (handle_retry env t q)
        (modify (\<lambda>s. s\<lparr>v_R := VInfo e False, v_I := Some (RETRY, e), v_retval := VExc e, v_state := Some RETRY\<rparr>))
      else andthen (handle_failure env t q e True)
        (modify (\<lambda>s. s\<lparr>v_R := VInfo e False, v_I := Some (FAILURE, e), v_retval := VExc e, v_state := Some FAILURE\<rparr>)))"

definition on_predicate :: "string \<Rightarrow> texc \<Rightarrow> unit tm" where
  "on_predicate st e =
     andthen (modify (\<lambda>s. s\<lparr>v_R := VInfo e True, v_I := Some (st, e), v_retval := VExc e, v_state := Some st\<rparr>))
       (log_line st)"

definition dispatch_calls :: "(nat \<times> bool) list \<Rightarrow> nat list \<Rightarrow> tcall list" where
  "dispatch_calls callbacks chain =
     (case callbacks of
        [] \<Rightarrow> []
      | [(c, g)] \<Rightarrow> [if g then ApplyGroupCallback c else ApplyCallback c]
      | _ \<Rightarrow> map (ApplyGroupCallback \<circ> fst) (filter snd callbacks)
             @ (let sigs = map fst (filter (Not \<circ> snd) callbacks) in if sigs = [] then [] else [ApplyCallbacks sigs]))
     @ (if chain = [] then [] else [ApplyChain (last chain) (butlast chain)])"

definition dispatch_callbacks_and_chain :: "tenv \<Rightarrow> trequest \<Rightarrow> unit tm" where
  "dispatch_callbacks_and_chain env q = invoke_all env (dispatch_calls (q_callbacks q) (q_chain q))"

section \<open>The tracer\<close>

definition publish_result :: "tracer \<Rightarrow> trequest \<Rightarrow> bool" where
  "publish_result t q =
     (if t_eager t \<and> \<not> actual_ignore_result t q \<and> t_store_eager_result t then True
      else \<not> t_eager t \<and> \<not> actual_ignore_result t q)"

definition track_started :: "tracer \<Rightarrow> trequest \<Rightarrow> bool" where
  "track_started t q \<longleftrightarrow> \<not> t_eager t \<and> t_track_started t \<and> \<not> actual_ignore_result t q"

definition run_body :: "tenv \<Rightarrow> tracer \<Rightarrow> unit tm" where
  "run_body env t =
     andthen (when_do (t_before_start t) (invoke env BeforeStart))
    (andthen (invoke env Run)
      (modify (\<lambda>s. s\<lparr>v_R := VVal (run_value env), v_retval := VVal (run_value env), v_state := Some SUCCESS\<rparr>)))"

fun body_handler :: "tenv \<Rightarrow> tracer \<Rightarrow> trequest \<Rightarrow> texc \<Rightarrow> unit tm option" where
  "body_handler env t q (TReject b) = Some (on_predicate REJECTED (TReject b))"
| "body_handler env t q TIgnore = Some (on_predicate IGNORED TIgnore)"
| "body_handler env t q TRetry = Some (on_error env t q TRetry True)"
| "body_handler env t q e = (if is_exception e then Some (on_error env t q e False) else None)"

definition after_success :: "tenv \<Rightarrow> tracer \<Rightarrow> unit tm" where
  "after_success env t =
     andthen (modify (\<lambda>s. s\<lparr>v_T := True, v_Rstr := Some (v_R s)\<rparr>))
    (andthen (when_do (t_on_success t) (invoke env OnSuccess))
    (andthen (when_do (t_success_receivers t) (invoke env SigSuccess)) (log_line ''success'')))"

definition store_success :: "tenv \<Rightarrow> tracer \<Rightarrow> trequest \<Rightarrow> unit tm" where
  "store_success env t q =
     try_else (andthen (dispatch_callbacks_and_chain env q) (invoke env (MarkDone (publish_result t q))))
       (\<lambda>e. if e = TEncodeError then Some (on_error env t q e False) else None)
       (after_success env t)"

definition ignore_states :: "string list" where
  "ignore_states = [IGNORED, RETRY, REJECTED]"

definition call_after_return :: "tenv \<Rightarrow> tracer \<Rightarrow> unit tm" where
  "call_after_return env t s = (case v_state s of
     None \<Rightarrow> when_do (t_after_return t) (invoke env (AfterReturn [])) s
   | Some st \<Rightarrow> if st \<notin> set ignore_states then when_do (t_after_return t) (invoke env (AfterReturn st)) s else (Inr (), s))"

definition pre_run :: "tenv \<Rightarrow> tracer \<Rightarrow> trequest \<Rightarrow> unit tm" where
  "pre_run env t q =
     andthen (when_do (t_prerun_receivers t) (invoke env Prerun))
    (andthen (invoke env LoaderInit)
      (when_do (track_started t q) (invoke env StoreStarted)))"

definition send_postrun :: "tenv \<Rightarrow> tracer \<Rightarrow> unit tm" where
  "send_postrun env t s = when_do (t_postrun_receivers t) (invoke env (Postrun (v_state s))) s"

fun cleanup_handler :: "texc \<Rightarrow> unit tm option" where
  "cleanup_handler TMemoryError = None"
| "cleanup_handler e = (if is_exception e then Some (log_line ''cleanup'') else None)"

definition pop_and_clean :: "tenv \<Rightarrow> tracer \<Rightarrow> unit tm" where
  "pop_and_clean env t =
     andthen (modify (\<lambda>s. s\<lparr>task_stack := task_stack s - 1, request_stack := request_stack s - 1\<rparr>))
      (when_do (\<not> t_eager t)
        (try_else (andthen (invoke env ProcessCleanup) (invoke env LoaderCleanup)) cleanup_handler (ret ())))"

definition traced_run :: "tenv \<Rightarrow> tracer \<Rightarrow> trequest \<Rightarrow> unit tm" where
  "traced_run env t q =
     finally_do
      (andthen (pre_run env t q)
      (andthen (try_else (run_body env t) (body_handler env t q) (store_success env t q))
        (call_after_return env t)))
      (finally_do (send_postrun env t) (pop_and_clean env t))"

text \<open>The priority of the message is read between the two pushes, outside the handler that pops.\<close>

definition push_stacks :: "tracer \<Rightarrow> trequest \<Rightarrow> unit tm" where
  "push_stacks t q =
     andthen (modify (\<lambda>s. s\<lparr>task_stack := task_stack s + 1\<rparr>))
    (andthen (if t_inherit_priority t \<and> q_delivery_info q = None then throw TAttributeError else ret ())
      (modify (\<lambda>s. s\<lparr>request_stack := request_stack s + 1\<rparr>)))"

text \<open>
  A task that was delivered again: if it is known to have succeeded, nothing is done, except that its call-backs and
  chain are started if the stored result shows that they were not. The result tells whether the task is done.
\<close>

definition redelivered :: "trequest \<Rightarrow> bool" where
  "redelivered q \<longleftrightarrow> q_delivery_info q = Some True"

definition dispatch_again :: "tenv \<Rightarrow> trequest \<Rightarrow> unit tm" where
  "dispatch_again env q =
     try_else
      (andthen (invoke env GetMeta)
      (andthen (when_do ((q_callbacks q \<noteq> [] \<or> q_chain q \<noteq> []) \<and> \<not> stored_children env) (dispatch_callbacks_and_chain env q))
        (modify (\<lambda>s. s\<lparr>successful_requests := q_id q # successful_requests s\<rparr>))))
      (\<lambda>e. if e = TMemoryError \<or> \<not> is_exception e then None else Some (andthen (log_line ''redispatch failed'') (throw (TReject True))))
      (ret ())"

definition check_redelivered :: "tenv \<Rightarrow> tracer \<Rightarrow> trequest \<Rightarrow> bool tm" where
  "check_redelivered env t q s =
     (if t_deduplicate t \<and> redelivered q
      then if q_id q \<in> set (successful_requests s) then (Inr True, s)
        else (case invoke env GetState s of
            (Inl e, s') \<Rightarrow> if e = TBackendGetMetaError then (Inr False, s') else (Inl e, s')
          | (Inr _, s') \<Rightarrow>
              (let s' = s'\<lparr>v_state := Some (stored_state env)\<rparr> in
               if stored_state env = SUCCESS
               then andthen (log_line ''ignored'') (andthen (dispatch_again env q) (ret True)) s'
               else (Inr False, s')))
      else (Inr False, s))"

definition protected_run :: "tenv \<Rightarrow> tracer \<Rightarrow> trequest \<Rightarrow> unit tm" where
  "protected_run env t q s =
     (if \<not> q_kwargs_mapping q then (Inl TInvalidTaskError, s)
      else (case check_redelivered env t q s of
          (Inl e, s') \<Rightarrow> (Inl e, s')
        | (Inr finished, s') \<Rightarrow> if finished then (Inr (), s') else andthen (push_stacks t q) (traced_run env t q) s'))"

definition outside_error :: "tenv \<Rightarrow> tracer \<Rightarrow> trequest \<Rightarrow> texc \<Rightarrow> unit tm" where
  "outside_error env t q e =
     andthen (invoke env (SigInternalError e))
      (if t_eager t then throw e
       else andthen (invoke env (PrepareException e))
           (andthen (modify (\<lambda>s. s\<lparr>v_R := VInfo e True\<rparr>))
             (if q_kwargs_mapping q
              then andthen (if t_propagate t then throw e else handle_failure env t q e True)
                     (modify (\<lambda>s. s\<lparr>v_I := Some (FAILURE, e)\<rparr>))
              else ret ())))"

fun outer_handler :: "tenv \<Rightarrow> tracer \<Rightarrow> trequest \<Rightarrow> texc \<Rightarrow> unit tm option" where
  "outer_handler env t q TMemoryError = None"
| "outer_handler env t q (TReject b) = None"
| "outer_handler env t q e = (if is_exception e then Some (outside_error env t q e) else None)"

text \<open>The tracer starts with empty local variables.\<close>

definition fresh_vars :: "tst \<Rightarrow> tst" where
  "fresh_vars s = s\<lparr>v_R := VNone, v_I := None, v_T := False, v_Rstr := None, v_retval := VNone, v_state := None\<rparr>"

definition build_tracer :: "tenv \<Rightarrow> tracer \<Rightarrow> trequest \<Rightarrow> unit tm" where
  "build_tracer env t q s = try_else (protected_run env t q) (outer_handler env t q) (ret ()) (fresh_vars s)"

text \<open>What the pool process reports: an error with its exception information, or the representation of the result.\<close>

datatype report = Failed pval bool | Succeeded "pval option" bool

definition report_of :: "tst \<Rightarrow> report" where
  "report_of s = (if v_I s \<noteq> None then Failed (v_R s) (v_T s) else Succeeded (v_Rstr s) (v_T s))"

definition fast_trace_task :: "tenv \<Rightarrow> tracer \<Rightarrow> trequest \<Rightarrow> tst \<Rightarrow> (texc + report) \<times> tst" where
  "fast_trace_task env t q s = (case build_tracer env t q s of
     (Inl e, s') \<Rightarrow> (Inl e, s')
   | (Inr _, s') \<Rightarrow> (Inr (report_of s'), s'))"

text \<open>The function \<open>trace_task\<close> of the module wraps the tracer once more.\<close>

definition trace_task :: "tenv \<Rightarrow> tracer \<Rightarrow> trequest \<Rightarrow> unit tm" where
  "trace_task env t q =
     try_else (build_tracer env t q)
       (\<lambda>e. case e of
          TReject b \<Rightarrow> None
        | _ \<Rightarrow> if is_exception e
            then Some (andthen (invoke env (SigInternalError e))
              (andthen (invoke env (PrepareException e))
                (modify (\<lambda>s. s\<lparr>v_R := VInfo e True, v_I := Some (FAILURE, e), v_T := True, v_Rstr := None\<rparr>))))
            else None)
       (ret ())"

definition trace_task_ret :: "tenv \<Rightarrow> tracer \<Rightarrow> trequest \<Rightarrow> tst \<Rightarrow> (texc + report) \<times> tst" where
  "trace_task_ret env t q s = (case trace_task env t q s of
     (Inl e, s') \<Rightarrow> (Inl e, s')
   | (Inr _, s') \<Rightarrow> (Inr (report_of s'), s'))"

section \<open>What computations keep\<close>

named_theorems keeps_intros \<open>closure of kept properties under the control structures\<close>

definition keeps :: "(tst \<Rightarrow> bool) \<Rightarrow> 'a tm \<Rightarrow> bool" where
  "keeps P m \<longleftrightarrow> (\<forall>s. P s \<longrightarrow> P (snd (m s)))"

lemma kept_after: "keeps P m \<Longrightarrow> P s \<Longrightarrow> m s = (r, s') \<Longrightarrow> P s'"
  by (metis keeps_def snd_conv)

lemma keeps_ret [keeps_intros]: "keeps P (ret x)"
  by (simp add: keeps_def ret_def)

lemma keeps_throw [keeps_intros]: "keeps P (throw e)"
  by (simp add: keeps_def throw_def)

lemma keeps_andthen [keeps_intros]: "keeps P m \<Longrightarrow> keeps P k \<Longrightarrow> keeps P (andthen m k)"
  unfolding keeps_def andthen_def by (fastforce split: prod.splits sum.splits)

lemma keeps_try_else [keeps_intros]:
  "keeps P m \<Longrightarrow> (\<And>e r. h e = Some r \<Longrightarrow> keeps P r) \<Longrightarrow> keeps P k \<Longrightarrow> keeps P (try_else m h k)"
  unfolding keeps_def try_else_def by (fastforce split: prod.splits sum.splits option.splits)

lemma keeps_finally_do [keeps_intros]: "keeps P m \<Longrightarrow> keeps P f \<Longrightarrow> keeps P (finally_do m f)"
  unfolding keeps_def finally_do_def by (fastforce split: prod.splits sum.splits)

lemma keeps_when_do [keeps_intros]: "(b \<Longrightarrow> keeps P m) \<Longrightarrow> keeps P (when_do b m)"
  by (simp add: when_do_def keeps_ret)

lemma keeps_if [keeps_intros]: "(b \<Longrightarrow> keeps P m) \<Longrightarrow> (\<not> b \<Longrightarrow> keeps P k) \<Longrightarrow> keeps P (if b then m else k)"
  by simp

lemma keeps_invoke_all [keeps_intros]: "(\<And>c. c \<in> set cs \<Longrightarrow> keeps P (invoke env c)) \<Longrightarrow> keeps P (invoke_all env cs)"
  by (induction cs) (auto intro: keeps_intros)

text \<open>
  Properties that the assignments to local variables do not touch, and that the calls of a given kind keep. The kinds are those
  the parts of the tracer make: everything but the body of the task.
\<close>

definition var_free :: "(tst \<Rightarrow> bool) \<Rightarrow> bool" where
  "var_free P \<longleftrightarrow> (\<forall>s R I T r v st. P (s\<lparr>v_R := R, v_I := I, v_T := T, v_Rstr := r, v_retval := v, v_state := st\<rparr>) = P s)"

lemma var_freeD:
  assumes "var_free P"
  shows "P (s\<lparr>v_R := R\<rparr>) = P s" "P (s\<lparr>v_I := I\<rparr>) = P s" "P (s\<lparr>v_state := st\<rparr>) = P s" "P (s\<lparr>v_T := T, v_Rstr := r\<rparr>) = P s"
    "P (s\<lparr>v_R := R, v_retval := v, v_state := st\<rparr>) = P s" "P (s\<lparr>v_R := R, v_I := I, v_retval := v, v_state := st\<rparr>) = P s"
    "P (s\<lparr>v_R := R, v_I := I, v_T := T, v_Rstr := r\<rparr>) = P s"
proof -
  have *: "P (s\<lparr>v_R := R, v_I := I, v_T := T, v_Rstr := r, v_retval := v, v_state := st\<rparr>) = P s" for s R I T r v st
    using assms by (simp add: var_free_def)
  show "P (s\<lparr>v_R := R\<rparr>) = P s" using * [where s = s and R = R and I = "v_I s" and T = "v_T s" and r = "v_Rstr s" and v = "v_retval s" and st = "v_state s"] by simp
  show "P (s\<lparr>v_I := I\<rparr>) = P s" using * [where s = s and R = "v_R s" and I = I and T = "v_T s" and r = "v_Rstr s" and v = "v_retval s" and st = "v_state s"] by simp
  show "P (s\<lparr>v_state := st\<rparr>) = P s" using * [where s = s and R = "v_R s" and I = "v_I s" and T = "v_T s" and r = "v_Rstr s" and v = "v_retval s" and st = st] by simp
  show "P (s\<lparr>v_T := T, v_Rstr := r\<rparr>) = P s" using * [where s = s and R = "v_R s" and I = "v_I s" and T = T and r = r and v = "v_retval s" and st = "v_state s"] by simp
  show "P (s\<lparr>v_R := R, v_retval := v, v_state := st\<rparr>) = P s" using * [where s = s and R = R and I = "v_I s" and T = "v_T s" and r = "v_Rstr s" and v = v and st = st] by simp
  show "P (s\<lparr>v_R := R, v_I := I, v_retval := v, v_state := st\<rparr>) = P s" using * [where s = s and R = R and I = I and T = "v_T s" and r = "v_Rstr s" and v = v and st = st] by simp
  show "P (s\<lparr>v_R := R, v_I := I, v_T := T, v_Rstr := r\<rparr>) = P s" using * [where s = s and R = R and I = I and T = T and r = r and v = "v_retval s" and st = "v_state s"] by simp
qed

lemma keeps_modify: "(\<And>s. P s \<Longrightarrow> P (f s)) \<Longrightarrow> keeps P (modify f)"
  by (simp add: keeps_def modify_def)

lemma dispatch_no_run: "Run \<notin> set (dispatch_calls callbacks chain)"
proof -
  consider "callbacks = []" | c g where "callbacks = [(c, g)]" | a b cs where "callbacks = a # b # cs"
    by (metis list.exhaust surj_pair)
  then show ?thesis by cases (auto simp: dispatch_calls_def Let_def)
qed

text \<open>
  The interface of a property that survives everything the tracer does apart from running the body and moving the stacks:
  it does not depend on the local variables, and calls other than the body keep it.
\<close>

locale kept =
  fixes P :: "tst \<Rightarrow> bool"
  assumes vars: "var_free P"
    and other_calls: "c \<noteq> Run \<Longrightarrow> P s \<Longrightarrow> P (s\<lparr>calls := calls s @ [c]\<rparr>)"
begin

lemma keeps_invoke: "c \<noteq> Run \<Longrightarrow> keeps P (invoke env c)"
  by (auto simp: keeps_def invoke_def other_calls split: option.splits)

lemma keeps_log_line: "keeps P (log_line l)"
  unfolding log_line_def by (rule keeps_modify) (simp add: other_calls)

lemma keeps_vars: "(\<And>s. P (f s) = P s) \<Longrightarrow> keeps P (modify f)"
  by (rule keeps_modify) simp

lemmas parts = keeps_intros keeps_invoke keeps_log_line keeps_vars var_freeD [OF vars]

lemma keeps_handle_failure: "keeps P (handle_failure env t q e b)"
  unfolding handle_failure_def by (intro parts) simp_all

lemma keeps_on_error: "keeps P (on_error env t q e b)"
  unfolding on_error_def handle_retry_def by (intro parts keeps_handle_failure) simp_all

lemma keeps_on_predicate: "keeps P (on_predicate st e)"
  unfolding on_predicate_def by (intro parts)

lemma keeps_dispatch: "keeps P (dispatch_callbacks_and_chain env q)"
  unfolding dispatch_callbacks_and_chain_def by (intro parts) (metis dispatch_no_run)

lemma keeps_body_handler: "body_handler env t q e = Some r \<Longrightarrow> keeps P r"
  by (cases e) (auto split: if_splits intro: keeps_on_error keeps_on_predicate)

lemma keeps_store_success: "keeps P (store_success env t q)"
  unfolding store_success_def after_success_def
  by (intro parts keeps_dispatch) (auto split: if_splits intro: keeps_on_error)

lemma keeps_call_after_return: "keeps P (call_after_return env t)"
  using keeps_invoke by (auto simp: keeps_def call_after_return_def when_do_def ret_def split: option.splits)

lemma keeps_send_postrun: "keeps P (send_postrun env t)"
  using keeps_invoke by (auto simp: keeps_def send_postrun_def when_do_def ret_def)

lemma keeps_pre_run: "keeps P (pre_run env t q)"
  unfolding pre_run_def by (intro parts) simp_all

lemma keeps_cleanup: "keeps P (try_else (andthen (invoke env ProcessCleanup) (invoke env LoaderCleanup)) cleanup_handler (ret ()))"
proof (rule keeps_try_else)
  show "keeps P r" if "cleanup_handler e = Some r" for e r
    using that by (cases e) (auto split: if_splits intro: keeps_log_line)
qed (intro parts; simp)+

lemma keeps_outside_error: "keeps P (outside_error env t q e)"
  unfolding outside_error_def by (intro parts keeps_handle_failure) simp_all

lemma keeps_outer_handler: "outer_handler env t q e = Some r \<Longrightarrow> keeps P r"
  by (cases e) (auto split: if_splits intro: keeps_outside_error)

end

section \<open>The stacks of tasks and requests\<close>

definition stacks_at :: "nat \<Rightarrow> nat \<Rightarrow> tst \<Rightarrow> bool" where
  "stacks_at a b s \<longleftrightarrow> task_stack s = a \<and> request_stack s = b"

interpretation stacks: kept "stacks_at a b" for a b
  by unfold_locales (simp_all add: stacks_at_def var_free_def)

lemma pop_and_clean_stacks: "stacks_at (Suc a) (Suc b) s \<Longrightarrow> stacks_at a b (snd (pop_and_clean env t s))"
  using keeps_when_do [OF stacks.keeps_cleanup [of a b env], of "\<not> t_eager t"]
  by (auto simp: pop_and_clean_def andthen_def modify_def stacks_at_def keeps_def)

lemma finally_stacks:
  assumes "keeps (stacks_at a b) m" and "\<And>s. stacks_at a b s \<Longrightarrow> stacks_at c d (snd (f s))" and "stacks_at a b s"
  shows "stacks_at c d (snd (finally_do m f s))"
  using assms unfolding finally_do_def keeps_def by (auto split: prod.splits sum.splits) (metis snd_conv)+

lemma traced_run_stacks:
  assumes "stacks_at (Suc a) (Suc b) s"
  shows "stacks_at a b (snd (traced_run env t q s))"
proof -
  let ?P = "stacks_at (Suc a) (Suc b)"
  have run: "keeps ?P (invoke env Run)" by (auto simp: keeps_def invoke_def stacks_at_def split: option.splits)
  have body: "keeps ?P (run_body env t)"
    unfolding run_body_def by (intro keeps_andthen keeps_when_do run stacks.keeps_invoke keeps_modify) (simp_all add: stacks_at_def)
  have "keeps ?P (andthen (pre_run env t q) (andthen (try_else (run_body env t) (body_handler env t q) (store_success env t q)) (call_after_return env t)))"
    by (intro keeps_intros stacks.keeps_pre_run body stacks.keeps_store_success stacks.keeps_call_after_return) (rule stacks.keeps_body_handler)
  then show ?thesis unfolding traced_run_def
    by (rule finally_stacks) (auto intro: finally_stacks [OF stacks.keeps_send_postrun] pop_and_clean_stacks assms)
qed

lemma push_stacks_result:
  "push_stacks t q s = (if t_inherit_priority t \<and> q_delivery_info q = None then (Inl TAttributeError, s\<lparr>task_stack := task_stack s + 1\<rparr>)
     else (Inr (), s\<lparr>task_stack := task_stack s + 1, request_stack := request_stack s + 1\<rparr>))"
  by (simp add: push_stacks_def andthen_def modify_def throw_def ret_def)

lemma keeps_dispatch_again_stacks: "keeps (stacks_at a b) (dispatch_again env q)"
  unfolding dispatch_again_def
  by (intro keeps_intros stacks.keeps_dispatch stacks.keeps_invoke keeps_modify)
     (auto simp: stacks_at_def split: if_splits intro!: keeps_intros stacks.keeps_log_line)

lemma check_redelivered_stacks:
  assumes "stacks_at a b s" and "check_redelivered env t q s = (r, s')"
  shows "stacks_at a b s'"
proof -
  have i: "stacks_at a b s1" if "invoke env GetState s = (x, s1)" for x s1
    using kept_after [OF stacks.keeps_invoke assms(1) that] by simp
  have d: "stacks_at a b s2" if "andthen (log_line l) (andthen (dispatch_again env q) (ret True)) s1 = (x, s2)" "stacks_at a b s1" for l s1 x s2
    using kept_after [OF keeps_andthen [OF stacks.keeps_log_line keeps_andthen [OF keeps_dispatch_again_stacks keeps_ret]] that(2,1)] .
  have v: "stacks_at a b (s1\<lparr>v_state := x\<rparr>) = stacks_at a b s1" for s1 x by (simp add: stacks_at_def)
  show ?thesis
    using assms i d [of "''ignored''"] v by (auto simp: check_redelivered_def Let_def split: if_splits prod.splits sum.splits)
qed

lemma protected_run_stacks:
  assumes "\<not> (t_inherit_priority t \<and> q_delivery_info q = None)" and "stacks_at a b s"
  shows "stacks_at a b (snd (protected_run env t q s))"
proof (cases "check_redelivered env t q s")
  case (Pair r s1)
  have s1: "stacks_at a b s1" by (rule check_redelivered_stacks [OF assms(2) Pair])
  have "stacks_at a b (snd (andthen (push_stacks t q) (traced_run env t q) s1))"
    using traced_run_stacks [of a b "s1\<lparr>task_stack := task_stack s1 + 1, request_stack := request_stack s1 + 1\<rparr>" env t q] s1 assms(1)
    by (auto simp: andthen_def push_stacks_result stacks_at_def)
  then show ?thesis using Pair s1 assms(2) by (auto simp: protected_run_def split: sum.splits)
qed

section \<open>How often the body runs\<close>

definition runs :: "tst \<Rightarrow> nat" where
  "runs s = count_list (calls s) Run"

lemma runs_append: "runs (s\<lparr>calls := calls s @ [c]\<rparr>) = runs s + (if c = Run then 1 else 0)"
  by (simp add: runs_def)

text \<open>A bound on the number of runs that later parts of the tracer keep; the body itself adds one.\<close>

definition runs_below :: "nat \<Rightarrow> tst \<Rightarrow> bool" where
  "runs_below n s \<longleftrightarrow> runs s \<le> n"

interpretation run_bound: kept "runs_below n" for n
  by unfold_locales (simp_all add: runs_below_def runs_append var_free_def runs_def)

lemma run_body_runs: "runs_below n s \<Longrightarrow> runs_below (Suc n) (snd (run_body env t s))"
proof -
  assume n: "runs_below n s"
  have before: "keeps (runs_below n) (when_do (t_before_start t) (invoke env BeforeStart))"
    by (intro keeps_when_do run_bound.keeps_invoke) simp
  obtain r s1 where s1: "when_do (t_before_start t) (invoke env BeforeStart) s = (r, s1)" by fastforce
  have "runs_below n s1" by (rule kept_after [OF before n s1])
  then have "runs_below (Suc n) s1" "runs_below (Suc n) (s1\<lparr>calls := calls s1 @ [Run]\<rparr>)" by (simp_all add: runs_below_def runs_append)
  moreover have "runs_below (Suc n) (x\<lparr>v_R := R, v_retval := v, v_state := st\<rparr>) = runs_below (Suc n) x" for x R v st
    by (simp add: runs_below_def runs_def)
  ultimately show ?thesis
    using s1 by (auto simp: run_body_def andthen_def modify_def invoke_def split: sum.splits option.splits)
qed

lemma try_body_runs:
  assumes "runs_below n s"
  shows "runs_below (Suc n) (snd (try_else (run_body env t) (body_handler env t q) (store_success env t q) s))"
proof (cases "run_body env t s")
  case (Pair r s1)
  have s1: "runs_below (Suc n) s1" using run_body_runs [OF assms, of env t] Pair by simp
  have k: "keeps (runs_below (Suc n)) (store_success env t q)" by (rule run_bound.keeps_store_success)
  have h: "keeps (runs_below (Suc n)) h" if "body_handler env t q e = Some h" for e h
    by (rule run_bound.keeps_body_handler [OF that])
  show ?thesis
    using Pair s1 k h by (auto simp: try_else_def keeps_def split: sum.splits option.splits)
qed

lemma traced_run_runs:
  assumes "runs_below n s"
  shows "runs_below (Suc n) (snd (traced_run env t q s))"
proof -
  have pop: "keeps (runs_below m) (pop_and_clean env t)" for m
    unfolding pop_and_clean_def
    by (intro keeps_andthen keeps_when_do run_bound.keeps_cleanup keeps_modify) (simp add: runs_below_def runs_def)
  have fin: "keeps (runs_below m) (finally_do (send_postrun env t) (pop_and_clean env t))" for m
    by (intro keeps_intros run_bound.keeps_send_postrun pop)
  let ?m = "andthen (pre_run env t q) (andthen (try_else (run_body env t) (body_handler env t q) (store_success env t q)) (call_after_return env t))"
  have "runs_below (Suc n) (snd (?m s))"
  proof (cases "pre_run env t q s")
    case (Pair r s1)
    have s1: "runs_below n s1" by (rule kept_after [OF run_bound.keeps_pre_run assms Pair])
    then have s1': "runs_below (Suc n) s1" by (simp add: runs_below_def)
    obtain r2 s2 where s2: "try_else (run_body env t) (body_handler env t q) (store_success env t q) s1 = (r2, s2)" by fastforce
    have "runs_below (Suc n) s2" using try_body_runs [OF s1, of env t q] s2 by simp
    moreover have "runs_below (Suc n) (snd (call_after_return env t s2))"
      using run_bound.keeps_call_after_return calculation by (simp add: keeps_def)
    ultimately show ?thesis using Pair s1' s2 by (auto simp: andthen_def split: sum.splits)
  qed
  then show ?thesis using fin [of "Suc n"] unfolding traced_run_def finally_do_def keeps_def
    by (auto split: prod.splits sum.splits) (metis snd_conv)+
qed

lemma check_redelivered_runs:
  assumes "runs_below n s" and "check_redelivered env t q s = (r, s')"
  shows "runs_below n s'"
proof -
  have again: "keeps (runs_below n) (dispatch_again env q)"
    unfolding dispatch_again_def
    by (intro keeps_intros run_bound.keeps_dispatch run_bound.keeps_invoke keeps_modify)
       (auto simp: runs_below_def runs_def split: if_splits intro!: keeps_intros run_bound.keeps_log_line)
  have i: "runs_below n s1" if "invoke env GetState s = (x, s1)" for x s1
    using kept_after [OF run_bound.keeps_invoke assms(1) that] by simp
  have d: "runs_below n s2" if "andthen (log_line l) (andthen (dispatch_again env q) (ret True)) s1 = (x, s2)" "runs_below n s1" for l s1 x s2
    using kept_after [OF keeps_andthen [OF run_bound.keeps_log_line keeps_andthen [OF again keeps_ret]] that(2,1)] .
  have v: "runs_below n (s1\<lparr>v_state := x\<rparr>) = runs_below n s1" for s1 x by (simp add: runs_below_def runs_def)
  show ?thesis
    using assms i d [of "''ignored''"] v by (auto simp: check_redelivered_def Let_def split: if_splits prod.splits sum.splits)
qed

lemma build_tracer_keeps:
  assumes "\<And>s. I s \<Longrightarrow> J (snd (protected_run env t q s))" and "kept J" and "var_free I" and "I s"
  shows "J (snd (build_tracer env t q s))"
proof -
  have "I (fresh_vars s)" using assms(3,4) by (simp add: fresh_vars_def var_free_def)
  then have J: "J (snd (protected_run env t q (fresh_vars s)))" by (rule assms(1))
  have "keeps J r" if "outer_handler env t q e = Some r" for e r by (rule kept.keeps_outer_handler [OF assms(2) that])
  with J show ?thesis by (auto simp: build_tracer_def try_else_def ret_def keeps_def split: prod.splits sum.splits option.splits)
qed

section \<open>Properties\<close>

text \<open>
  C17: the tracer leaves the stacks of current tasks and requests as it found them, whatever the task, the hooks, the signals, the backend or the
  clean-up raise, for every request that comes with delivery information or does not inherit the priority of its parent.
\<close>

theorem tracer_balances_stacks:
  assumes "\<not> (t_inherit_priority t \<and> q_delivery_info q = None)" and "build_tracer env t q s = (r, s')"
  shows "task_stack s' = task_stack s \<and> request_stack s' = request_stack s"
proof -
  let ?P = "stacks_at (task_stack s) (request_stack s)"
  have "?P (snd (build_tracer env t q s))"
    by (rule build_tracer_keeps [of ?P, OF protected_run_stacks [OF assms(1)] stacks.kept_axioms stacks.vars]) (simp_all add: stacks_at_def)
  then show ?thesis using assms(2) by (simp add: stacks_at_def)
qed

definition sample_tracer :: tracer where
  "sample_tracer = \<lparr>t_ignore_result = False, t_track_started = True, t_store_eager_result = False, t_store_errors_even_if_ignored = False,
     t_before_start = False, t_on_success = True, t_after_return = True, t_eager = False, t_propagate = False, t_deduplicate = True,
     t_inherit_priority = False, t_prerun_receivers = True, t_postrun_receivers = True, t_success_receivers = True\<rparr>"

definition sample_trequest :: trequest where
  "sample_trequest = \<lparr>q_id = ''id1'', q_kwargs_mapping = True, q_ignore_result = None, q_delivery_info = Some False,
     q_callbacks = [(1, False), (2, True), (3, False)], q_chain = [8, 7]\<rparr>"

definition sample_tenv :: "tcall \<Rightarrow> texc option \<Rightarrow> tenv" where
  "sample_tenv c e = \<lparr>raises = (\<lambda>_ c'. if c' = c then e else None), run_value = 42, stored_state = SUCCESS, stored_children = False\<rparr>"

definition sample_tst :: tst where
  "sample_tst = \<lparr>calls = [], v_R = VNone, v_I = None, v_T = False, v_Rstr = None, v_retval = VNone, v_state = None, task_stack = 2, request_stack = 3,
     successful_requests = []\<rparr>"

theorem tracer_balances_stacks_witness:
  "task_stack (snd (build_tracer (sample_tenv OnSuccess (Some TSystemExit)) sample_tracer sample_trequest sample_tst)) = 2"
  using tracer_balances_stacks [of sample_tracer sample_trequest "sample_tenv OnSuccess (Some TSystemExit)" sample_tst]
  by (cases "build_tracer (sample_tenv OnSuccess (Some TSystemExit)) sample_tracer sample_trequest sample_tst")
     (simp add: sample_tracer_def sample_tst_def)



section \<open>Outcomes\<close>

text \<open>An environment in which only the body and the success hook may raise, and the calls that change what others see of the task.\<close>

definition behaves :: "texc option \<Rightarrow> texc option \<Rightarrow> tenv \<Rightarrow> bool" where
  "behaves out hook env \<longleftrightarrow> (\<forall>h c. raises env h c = (if c = Run then out else if c = OnSuccess then hook else None))"

fun visible :: "tcall \<Rightarrow> bool" where
  "visible MarkRetry = True"
| "visible (MarkFailure _ _ _) = True"
| "visible (MarkDone _) = True"
| "visible (ApplyGroupCallback _) = True"
| "visible (ApplyCallbacks _) = True"
| "visible (ApplyCallback _) = True"
| "visible (ApplyChain _ _) = True"
| "visible _ = False"

definition effects :: "tst \<Rightarrow> tcall list" where
  "effects s = filter visible (calls s)"

lemma dispatch_visible: "filter visible (dispatch_calls callbacks chain) = dispatch_calls callbacks chain"
proof -
  have g: "filter visible (map (ApplyGroupCallback \<circ> fst) xs) = map (ApplyGroupCallback \<circ> fst) xs" for xs :: "(nat \<times> bool) list"
    by (induction xs) auto
  consider "callbacks = []" | c b where "callbacks = [(c, b)]" | x y cs where "callbacks = x # y # cs"
    by (metis list.exhaust surj_pair)
  then show ?thesis by cases (auto simp: dispatch_calls_def Let_def g simp del: map_map)
qed

lemma dispatch_no_hook: "OnSuccess \<notin> set (dispatch_calls callbacks chain)"
  using dispatch_visible [of callbacks chain] by (auto simp: filter_id_conv)

lemma invoke_quiet: "behaves out hook env \<Longrightarrow> c \<noteq> Run \<Longrightarrow> c \<noteq> OnSuccess \<Longrightarrow> invoke env c s = (Inr (), s\<lparr>calls := calls s @ [c]\<rparr>)"
  by (simp add: invoke_def behaves_def)

lemma when_quiet: "behaves out hook env \<Longrightarrow> c \<noteq> Run \<Longrightarrow> c \<noteq> OnSuccess \<Longrightarrow>
    when_do b (invoke env c) s = (Inr (), s\<lparr>calls := calls s @ (if b then [c] else [])\<rparr>)"
  by (simp add: when_do_def invoke_quiet ret_def)

lemma hook_quiet: "behaves out None env \<Longrightarrow> when_do b (invoke env OnSuccess) s = (Inr (), s\<lparr>calls := calls s @ (if b then [OnSuccess] else [])\<rparr>)"
  by (simp add: when_do_def invoke_def behaves_def ret_def)

lemma invoke_all_quiet: "behaves out hook env \<Longrightarrow> Run \<notin> set cs \<Longrightarrow> OnSuccess \<notin> set cs \<Longrightarrow> invoke_all env cs s = (Inr (), s\<lparr>calls := calls s @ cs\<rparr>)"
proof (induction cs arbitrary: s)
  case (Cons c cs)
  then have "c \<noteq> Run" "c \<noteq> OnSuccess" by auto
  then show ?case using Cons by (simp add: andthen_def invoke_quiet)
qed (simp add: ret_def)

lemmas quiet = invoke_quiet when_quiet hook_quiet invoke_all_quiet andthen_def modify_def ret_def log_line_def

text \<open>The parts of the tracer in such an environment: they return and add calls of which only the visible ones are listed.\<close>

definition adds :: "tcall list \<Rightarrow> unit tm \<Rightarrow> bool" where
  "adds cs m \<longleftrightarrow> (\<forall>s. fst (m s) = Inr () \<and> effects (snd (m s)) = effects s @ cs)"

definition same_vars :: "tst \<Rightarrow> tst \<Rightarrow> bool" where
  "same_vars s s' \<longleftrightarrow> v_R s' = v_R s \<and> v_I s' = v_I s \<and> v_T s' = v_T s \<and> v_Rstr s' = v_Rstr s \<and> v_state s' = v_state s"

definition quietly :: "tcall list \<Rightarrow> unit tm \<Rightarrow> bool" where
  "quietly cs m \<longleftrightarrow> adds cs m \<and> (\<forall>s. same_vars s (snd (m s)))"

lemma quietlyD:
  assumes "quietly cs m" and "m s = (x, s1)"
  shows "x = Inr ()" and "effects s1 = effects s @ cs" and "same_vars s s1"
  using assms unfolding quietly_def adds_def by (metis fst_conv, metis snd_conv, metis snd_conv)

lemma effects_calls: "effects (s\<lparr>calls := calls s @ cs\<rparr>) = effects s @ filter visible cs"
  by (simp add: effects_def)

lemma quietly_pre_run: "behaves out hook env \<Longrightarrow> quietly [] (pre_run env t q)"
  by (simp add: quietly_def adds_def same_vars_def pre_run_def quiet effects_calls)

lemma quietly_postrun: "behaves out hook env \<Longrightarrow> quietly [] (send_postrun env t)"
  by (simp add: quietly_def adds_def same_vars_def send_postrun_def quiet effects_calls)

lemma quietly_pop: "behaves out hook env \<Longrightarrow> quietly [] (pop_and_clean env t)"
  by (simp add: quietly_def adds_def same_vars_def pop_and_clean_def quiet when_do_def try_else_def effects_def)

lemma quietly_after_return: "behaves out hook env \<Longrightarrow> quietly [] (call_after_return env t)"
  by (simp add: quietly_def adds_def same_vars_def call_after_return_def quiet effects_calls split: option.splits)

lemma quietly_final:
  assumes "behaves out hook env"
  shows "quietly [] (finally_do (send_postrun env t) (pop_and_clean env t))"
proof -
  have "fst (finally_do a b s) = Inr () \<and> effects (snd (finally_do a b s)) = effects s \<and> same_vars s (snd (finally_do a b s))"
    if "quietly [] a" "quietly [] b" for a b s
    using that by (auto simp: quietly_def adds_def same_vars_def finally_do_def split: prod.splits sum.splits) (metis fst_conv snd_conv Inl_Inr_False)+
  from this [OF quietly_postrun [OF assms] quietly_pop [OF assms]] show ?thesis by (auto simp: quietly_def adds_def)
qed

text \<open>What each way for the body to end does: the visible calls, and the report.\<close>

definition expected_effects :: "tracer \<Rightarrow> trequest \<Rightarrow> texc option \<Rightarrow> tcall list" where
  "expected_effects t q out = (case out of
     None \<Rightarrow> dispatch_calls (q_callbacks q) (q_chain q) @ [MarkDone (publish_result t q)]
   | Some (TReject _) \<Rightarrow> []
   | Some TIgnore \<Rightarrow> []
   | Some TRetry \<Rightarrow> if store_errors t q then [MarkRetry] else []
   | Some e \<Rightarrow> if is_exception e then [MarkFailure e (store_errors t q) True] else [])"

definition expected_report :: "tenv \<Rightarrow> texc option \<Rightarrow> texc + report" where
  "expected_report env out = (case out of
     None \<Rightarrow> Inr (Succeeded (Some (VVal (run_value env))) True)
   | Some e \<Rightarrow> if \<not> is_exception e then Inl e
       else Inr (Failed (VInfo e (case e of TReject _ \<Rightarrow> True | TIgnore \<Rightarrow> True | _ \<Rightarrow> False)) False))"

definition report_result :: "(texc + unit) \<times> tst \<Rightarrow> texc + report" where
  "report_result p = (case p of (Inl e, s) \<Rightarrow> Inl e | (Inr _, s) \<Rightarrow> Inr (report_of s))"

definition blank_vars :: "tst \<Rightarrow> bool" where
  "blank_vars s \<longleftrightarrow> v_I s = None \<and> v_T s = False"

lemma run_body_quiet:
  assumes "behaves out hook env"
  shows "run_body env t s = (let s1 = s\<lparr>calls := calls s @ (if t_before_start t then [BeforeStart] else []) @ [Run]\<rparr> in
    case out of None \<Rightarrow> (Inr (), s1\<lparr>v_R := VVal (run_value env), v_retval := VVal (run_value env), v_state := Some SUCCESS\<rparr>)
    | Some e \<Rightarrow> (Inl e, s1))"
proof -
  have "invoke env Run s = (case out of None \<Rightarrow> Inr () | Some e \<Rightarrow> Inl e, s\<lparr>calls := calls s @ [Run]\<rparr>)" for s
    using assms by (simp add: invoke_def behaves_def split: option.splits)
  then show ?thesis using assms by (simp add: run_body_def quiet Let_def split: option.splits)
qed

lemma middle_quiet:
  assumes "behaves out None env" and "\<not> t_propagate t" and "blank_vars s"
  shows "report_result (try_else (run_body env t) (body_handler env t q) (store_success env t q) s) = expected_report env out \<and>
    effects (snd (try_else (run_body env t) (body_handler env t q) (store_success env t q) s)) = effects s @ expected_effects t q out"
proof (cases out)
  case None
  then show ?thesis using assms
    by (simp add: try_else_def run_body_quiet Let_def store_success_def after_success_def dispatch_callbacks_and_chain_def quiet dispatch_no_run dispatch_no_hook
        effects_def dispatch_visible report_result_def report_of_def blank_vars_def expected_report_def expected_effects_def)
next
  case (Some e)
  show ?thesis using assms Some
    by (cases e) (simp_all add: try_else_def run_body_quiet Let_def on_predicate_def on_error_def handle_retry_def handle_failure_def quiet
        effects_def report_result_def report_of_def blank_vars_def expected_report_def expected_effects_def)
qed

lemma andthen_quiet:
  assumes "quietly [] k"
  shows "report_result (andthen m k s) = report_result (m s) \<and> effects (snd (andthen m k s)) = effects (snd (m s))"
proof (cases "m s")
  case (Pair r s1)
  obtain x s2 where k: "k s1 = (x, s2)" by fastforce
  with quietlyD [OF assms k] have "x = Inr ()" "effects s2 = effects s1" "same_vars s1 s2" by simp_all
  with Pair k show ?thesis by (cases r) (auto simp: andthen_def report_result_def report_of_def same_vars_def)
qed

lemma finally_quiet:
  assumes "quietly [] f"
  shows "report_result (finally_do m f s) = report_result (m s) \<and> effects (snd (finally_do m f s)) = effects (snd (m s))"
proof (cases "m s")
  case (Pair r s1)
  obtain x s2 where f: "f s1 = (x, s2)" by fastforce
  with quietlyD [OF assms f] have "x = Inr ()" "effects s2 = effects s1" "same_vars s1 s2" by simp_all
  with Pair f show ?thesis by (cases r) (auto simp: finally_do_def report_result_def report_of_def same_vars_def)
qed

lemma traced_run_quiet:
  assumes "behaves out None env" and "\<not> t_propagate t" and "blank_vars s"
  shows "report_result (traced_run env t q s) = expected_report env out \<and> effects (snd (traced_run env t q s)) = effects s @ expected_effects t q out"
proof -
  obtain x s1 where p: "pre_run env t q s = (x, s1)" by fastforce
  from quietlyD [OF quietly_pre_run [OF assms(1)] p] have s1: "x = Inr ()" "effects s1 = effects s" "same_vars s s1" by simp_all
  have b: "blank_vars s1" using s1(3) assms(3) by (simp add: same_vars_def blank_vars_def)
  let ?m = "andthen (try_else (run_body env t) (body_handler env t q) (store_success env t q)) (call_after_return env t)"
  have "andthen (pre_run env t q) ?m s = ?m s1" using p s1(1) by (simp add: andthen_def)
  then show ?thesis
    using finally_quiet [OF quietly_final [OF assms(1)], of "andthen (pre_run env t q) ?m" t s] andthen_quiet [OF quietly_after_return [OF assms(1)]]
      middle_quiet [OF assms(1,2) b] s1(2) by (simp add: traced_run_def)
qed

text \<open>
  C7: what a task leaves behind, for every way its body can end, when nothing else raises. A body that returns starts every call-back and the rest of the chain and then stores the
  result; a rejected or ignored task stores nothing; a retried one is marked for retry, any other exception as a failure whose error
  call-backs are called; exceptions that end the process are passed on. The report to the worker tells the same.
\<close>

theorem traced_outcome:
  assumes env: "behaves out None env" and "\<not> t_propagate t" and "q_kwargs_mapping q"
    and "\<not> (t_deduplicate t \<and> redelivered q)" and "\<not> (t_inherit_priority t \<and> q_delivery_info q = None)"
  shows "fst (fast_trace_task env t q s) = expected_report env out \<and>
    effects (snd (fast_trace_task env t q s)) = effects s @ expected_effects t q out"
proof -
  define s1 where "s1 = (fresh_vars s)\<lparr>task_stack := task_stack s + 1, request_stack := request_stack s + 1\<rparr>"
  have s1: "blank_vars s1" "effects s1 = effects s" by (simp_all add: s1_def blank_vars_def fresh_vars_def effects_def)
  have "protected_run env t q (fresh_vars s) = traced_run env t q s1"
    using assms(3-5) by (auto simp: protected_run_def check_redelivered_def andthen_def push_stacks_result s1_def fresh_vars_def)
  moreover note run = traced_run_quiet [OF env assms(2) s1(1), of q]
  obtain r s2 where t: "traced_run env t q s1 = (r, s2)" by fastforce
  moreover have "outer_handler env t q e = None" if "r = Inl e" for e
  proof -
    from that run t have "expected_report env out = Inl e" by (simp add: report_result_def)
    then show ?thesis by (cases e) (auto simp: expected_report_def split: option.splits if_splits)
  qed
  ultimately have "build_tracer env t q s = (r, s2)"
    by (cases r) (auto simp: build_tracer_def try_else_def ret_def)
  then show ?thesis using run t s1(2) by (cases r) (auto simp: fast_trace_task_def report_result_def)
qed

theorem traced_outcome_witness:
  "effects (snd (fast_trace_task (sample_tenv Run None) sample_tracer sample_trequest sample_tst)) =
     [ApplyGroupCallback 2, ApplyCallbacks [1, 3], ApplyChain 7 [8], MarkDone True]"
proof -
  have "behaves None None (sample_tenv Run None)" by (simp add: behaves_def sample_tenv_def)
  moreover have "effects sample_tst @ expected_effects sample_tracer sample_trequest None =
     [ApplyGroupCallback 2, ApplyCallbacks [1, 3], ApplyChain 7 [8], MarkDone True]" by code_simp
  ultimately show ?thesis
    using traced_outcome [of None "sample_tenv Run None" sample_tracer sample_trequest sample_tst]
    by (simp add: sample_tracer_def sample_trequest_def redelivered_def)
qed

fun started_ids :: "tcall \<Rightarrow> nat list" where
  "started_ids (ApplyGroupCallback c) = [c]"
| "started_ids (ApplyCallbacks cs) = cs"
| "started_ids (ApplyCallback c) = [c]"
| "started_ids _ = []"

text \<open>
  a task that succeeds starts each of its call-backs exactly once: groups one by one, the other signatures together as one group.
\<close>

theorem callbacks_started_once: "mset (concat (map started_ids (dispatch_calls callbacks chain))) = mset (map fst callbacks)"
proof -
  have groups: "concat (map started_ids (map (ApplyGroupCallback \<circ> fst) xs)) = map fst xs" for xs :: "(nat \<times> bool) list"
    by (induction xs) auto
  have split: "mset (map fst (filter snd callbacks)) + mset (map fst (filter (Not \<circ> snd) callbacks)) = mset (map fst callbacks)"
    by (metis (no_types, lifting) comp_apply filter_cong image_mset_union mset_filter mset_map multiset_partition)
  consider "callbacks = []" | c g where "callbacks = [(c, g)]" | x y cs where "callbacks = x # y # cs"
    by (metis list.exhaust surj_pair)
  then show ?thesis
  proof cases
    case 3
    then have "dispatch_calls callbacks chain = map (ApplyGroupCallback \<circ> fst) (filter snd callbacks)
        @ (if map fst (filter (Not \<circ> snd) callbacks) = [] then [] else [ApplyCallbacks (map fst (filter (Not \<circ> snd) callbacks))])
        @ (if chain = [] then [] else [ApplyChain (last chain) (butlast chain)])"
      by (simp add: dispatch_calls_def Let_def)
    moreover define S where "S = map fst (filter (Not \<circ> snd) callbacks)"
    ultimately show ?thesis
      using groups [of "filter snd callbacks"] split unfolding S_def [symmetric] by (cases "S = []") (simp_all del: map_map mset_map mset_filter)
  qed (auto simp: dispatch_calls_def)
qed

text \<open>
  a message whose keyword arguments are no mapping is reported to the worker as a success. The error is announced by a signal only: no result is
  stored, and since there is no error information the report says that the task succeeded, without a result.
\<close>

theorem invalid_kwargs_reported_success:
  assumes "\<not> q_kwargs_mapping q" and "\<not> t_eager t"
    and "\<And>h e. raises env h (SigInternalError e) = None" and "\<And>h e. raises env h (PrepareException e) = None"
  shows "fst (fast_trace_task env t q s) = Inr (Succeeded None False) \<and> effects (snd (fast_trace_task env t q s)) = effects s"
  using assms by (simp add: fast_trace_task_def build_tracer_def protected_run_def try_else_def outside_error_def andthen_def invoke_def modify_def
      ret_def report_of_def fresh_vars_def effects_def)

theorem invalid_kwargs_reported_success_witness:
  "fst (fast_trace_task (sample_tenv Run None) sample_tracer (sample_trequest\<lparr>q_kwargs_mapping := False\<rparr>) sample_tst) = Inr (Succeeded None False)"
  using invalid_kwargs_reported_success [of "sample_trequest\<lparr>q_kwargs_mapping := False\<rparr>" sample_tracer "sample_tenv Run None" sample_tst]
  by (simp add: sample_tracer_def sample_tenv_def)

lemma middle_hook:
  assumes "behaves None (Some e) env" and "t_on_success t"
  shows "\<exists>s'. try_else (run_body env t) (body_handler env t q) (store_success env t q) s = (Inl e, s') \<and> v_T s' \<and>
    effects s' = effects s @ dispatch_calls (q_callbacks q) (q_chain q) @ [MarkDone (publish_result t q)]"
proof -
  have "invoke env OnSuccess s = (Inl e, s\<lparr>calls := calls s @ [OnSuccess]\<rparr>)" for s
    using assms(1) by (simp add: invoke_def behaves_def)
  then show ?thesis using assms
    by (simp add: try_else_def run_body_quiet Let_def store_success_def after_success_def dispatch_callbacks_and_chain_def quiet dispatch_no_run dispatch_no_hook
        when_do_def effects_def dispatch_visible)
qed

lemma traced_run_hook:
  assumes "behaves None (Some e) env" and "t_on_success t"
  shows "\<exists>s'. traced_run env t q s = (Inl e, s') \<and> v_T s' \<and>
    effects s' = effects s @ dispatch_calls (q_callbacks q) (q_chain q) @ [MarkDone (publish_result t q)]"
proof -
  obtain x s1 where p: "pre_run env t q s = (x, s1)" by fastforce
  note p1 = quietlyD [OF quietly_pre_run [OF assms(1)] p]
  obtain s2 where m: "try_else (run_body env t) (body_handler env t q) (store_success env t q) s1 = (Inl e, s2)" "v_T s2"
    "effects s2 = effects s1 @ dispatch_calls (q_callbacks q) (q_chain q) @ [MarkDone (publish_result t q)]"
    using middle_hook [OF assms, of q s1] by blast
  obtain y s3 where f: "finally_do (send_postrun env t) (pop_and_clean env t) s2 = (y, s3)" by fastforce
  note f1 = quietlyD [OF quietly_final [OF assms(1)] f]
  show ?thesis
    using p p1 m f f1 by (simp add: traced_run_def finally_do_def [of "andthen (pre_run env t q) _"] andthen_def same_vars_def)
qed

text \<open>
  an error in the success hook turns a success into a failure. The hook runs after the call-backs were started and the result was stored; when it raises,
  the task is marked as failed as well, its error call-backs are called, and the worker is told that it failed.
\<close>

theorem success_hook_error_marks_failure:
  assumes env: "behaves None (Some (TException n)) env" and "t_on_success t" and "\<not> t_propagate t" and "\<not> t_eager t"
    and "q_kwargs_mapping q" and "\<not> (t_deduplicate t \<and> redelivered q)" and "\<not> t_inherit_priority t"
  shows "effects (snd (fast_trace_task env t q s)) = effects s @ dispatch_calls (q_callbacks q) (q_chain q) @
      [MarkDone (publish_result t q), MarkFailure (TException n) (store_errors t q) True] \<and>
    fst (fast_trace_task env t q s) = Inr (Failed (VInfo (TException n) True) True)"
proof -
  define s1 where "s1 = (fresh_vars s)\<lparr>task_stack := task_stack s + 1, request_stack := request_stack s + 1\<rparr>"
  have s1: "effects s1 = effects s" by (simp add: s1_def fresh_vars_def effects_def)
  have "protected_run env t q (fresh_vars s) = traced_run env t q s1"
    using assms(5-7) by (auto simp: protected_run_def check_redelivered_def andthen_def push_stacks_result s1_def fresh_vars_def)
  moreover obtain s2 where s2: "traced_run env t q s1 = (Inl (TException n), s2)" "v_T s2" 
    "effects s2 = effects s @ dispatch_calls (q_callbacks q) (q_chain q) @ [MarkDone (publish_result t q)]"
    using traced_run_hook [OF env assms(2), of q s1] s1 by auto
  ultimately have "build_tracer env t q s = outside_error env t q (TException n) s2"
    by (simp add: build_tracer_def try_else_def)
  then show ?thesis
    using s2(2,3) assms(3-5) env by (simp add: fast_trace_task_def outside_error_def handle_failure_def quiet report_of_def effects_def)
qed

theorem success_hook_error_marks_failure_witness:
  "effects (snd (fast_trace_task (sample_tenv OnSuccess (Some (TException 1))) sample_tracer (sample_trequest\<lparr>q_chain := [], q_callbacks := []\<rparr>) sample_tst)) =
     [MarkDone True, MarkFailure (TException 1) True True]"
proof -
  let ?q = "sample_trequest\<lparr>q_chain := [], q_callbacks := []\<rparr>"
  have env: "behaves None (Some (TException 1)) (sample_tenv OnSuccess (Some (TException 1)))" by (simp add: behaves_def sample_tenv_def)
  have "dispatch_calls (q_callbacks ?q) (q_chain ?q) = []" "publish_result sample_tracer ?q" "store_errors sample_tracer ?q" "effects sample_tst = []"
    by code_simp+
  then show ?thesis
    using success_hook_error_marks_failure [OF env, of sample_tracer ?q sample_tst]
    by (simp add: sample_tracer_def sample_trequest_def redelivered_def)
qed

text \<open>
  a request without delivery information leaves its task on the stack, if tasks inherit the priority of their parent. Reading the
  priority fails after the task was pushed and before the handler that pops is in place.
\<close>

theorem missing_delivery_info_leaks_task:
  assumes "t_inherit_priority t" and "q_delivery_info q = None" and "q_kwargs_mapping q"
  shows "task_stack (snd (build_tracer env t q s)) = task_stack s + 1"
proof -
  let ?s = "(fresh_vars s)\<lparr>task_stack := task_stack s + 1\<rparr>"
  have "protected_run env t q (fresh_vars s) = (Inl TAttributeError, ?s)"
    using assms by (simp add: protected_run_def check_redelivered_def redelivered_def andthen_def push_stacks_result fresh_vars_def)
  then have "build_tracer env t q s = outside_error env t q TAttributeError ?s" by (simp add: build_tracer_def try_else_def)
  moreover have "stacks_at (task_stack s + 1) (request_stack s) ?s" by (simp add: stacks_at_def fresh_vars_def)
  then have "stacks_at (task_stack s + 1) (request_stack s) (snd (outside_error env t q TAttributeError ?s))"
    using kept_after [OF stacks.keeps_outside_error] by (metis prod.collapse)
  ultimately show ?thesis by (simp add: stacks_at_def)
qed

theorem missing_delivery_info_leaks_task_witness:
  "task_stack (snd (build_tracer (sample_tenv Run None) (sample_tracer\<lparr>t_inherit_priority := True\<rparr>) (sample_trequest\<lparr>q_delivery_info := None\<rparr>) sample_tst)) = 3"
  using missing_delivery_info_leaks_task [of "sample_tracer\<lparr>t_inherit_priority := True\<rparr>" "sample_trequest\<lparr>q_delivery_info := None\<rparr>"
      "sample_tenv Run None" sample_tst] by (simp add: sample_trequest_def sample_tst_def)

end
