(* ===== verification/Consumer.thy ===== *)
theory Consumer
  imports Worker_State
begin

text \<open>
  The worker's consumer, \<open>celery.worker.consumer.consumer\<close> and \<open>celery.worker.strategy\<close>: what happens to a received message until
  the request is handed to the pool (revocation, start times, rate limits), the timers that continue it, the clean-up when the connection is lost, and the
  prefetch count.

  The token bucket of the broker library is a queue of waiting requests and a supply of tokens, which is an argument. Timers are a list of
  pending entries, and firing one removes it. Handing a request to the pool appends it to \<open>handled\<close>. Bucket objects live in a store, because timers
  refer to buckets that have been replaced in the table.
\<close>

section \<open>State\<close>

record 'b bucket =
  bcontents :: "(wreq \<times> nat) list"
  btokens :: 'b

text \<open>The supply of tokens: whether it has enough, and how long to wait otherwise.\<close>

record 'b token_supply =
  can_consume :: "nat \<Rightarrow> 'b \<Rightarrow> bool \<times> 'b"
  expected_time :: "nat \<Rightarrow> 'b \<Rightarrow> rat"
  new_tokens :: "rat \<Rightarrow> 'b"

datatype timer =
    ApplyEta rat wreq
  | LimitPostEta rat wreq nat nat
  | ScheduleBucket rat nat nat

datatype notice =
    Received wreq
  | RevokedDropped wreq
  | Rejected wreq bool
  | TimerCancelled wreq
  | PoolFlushed
  | SemaphoreCleared

record 'b consumer =
  glob :: worker_state
  bstore :: "'b bucket list"
  task_buckets :: "(string, nat option) dict"
  disable_rate_limits :: bool
  timers :: "timer list"
  limit_order :: nat
  qos_value :: int
  has_semaphore :: bool
  pool_flushes :: bool
  handled :: "wreq list"
  notices :: "notice list"

section \<open>Rate limits\<close>

definition limit_move_to_pool :: "wreq \<Rightarrow> 'b consumer \<Rightarrow> 'b consumer" where
  "limit_move_to_pool r c = c\<lparr>glob := task_reserved r (glob c), handled := handled c @ [r]\<rparr>"

text \<open>
  The loop of \<open>_schedule_bucket_request\<close> over the waiting requests: it takes requests as long as there are tokens. The result has the requests that
  still wait, the tokens left, and the time to wait if any request does.
\<close>

fun drain :: "'b token_supply \<Rightarrow> (wreq \<times> nat) list \<Rightarrow> 'b \<Rightarrow> 'b consumer \<Rightarrow> (wreq \<times> nat) list \<times> 'b \<times> 'b consumer \<times> rat option" where
  "drain tb [] tok c = ([], tok, c, None)"
| "drain tb ((r, n) # rest) tok c = (case can_consume tb n tok of
     (True, tok') \<Rightarrow> drain tb rest tok' (limit_move_to_pool r c)
   | (False, tok') \<Rightarrow> ((r, n) # rest, tok', c, Some (expected_time tb n tok')))"

definition schedule_bucket_request :: "'b token_supply \<Rightarrow> nat \<Rightarrow> 'b consumer \<Rightarrow> 'b consumer" where
  "schedule_bucket_request tb b c = (case drain tb (bcontents (bstore c ! b)) (btokens (bstore c ! b)) c of
     (waiting, tok, c, hold) \<Rightarrow>
       (let c = c\<lparr>bstore := (bstore c)[b := \<lparr>bcontents = waiting, btokens = tok\<rparr>]\<rparr> in
        case hold of
          None \<Rightarrow> c
        | Some h \<Rightarrow> (let pri = (limit_order c + 1) mod 10 in c\<lparr>limit_order := pri, timers := timers c @ [ScheduleBucket h b pri]\<rparr>)))"

definition bucket_add :: "nat \<Rightarrow> wreq \<times> nat \<Rightarrow> 'b consumer \<Rightarrow> 'b consumer" where
  "bucket_add b e c = c\<lparr>bstore := (bstore c)[b := (bstore c ! b)\<lparr>bcontents := bcontents (bstore c ! b) @ [e]\<rparr>]\<rparr>"

definition limit_task :: "'b token_supply \<Rightarrow> wreq \<Rightarrow> nat \<Rightarrow> nat \<Rightarrow> 'b consumer \<Rightarrow> 'b consumer" where
  "limit_task tb r b n c = schedule_bucket_request tb b (bucket_add b (r, n) c)"

definition limit_post_eta :: "'b token_supply \<Rightarrow> wreq \<Rightarrow> nat \<Rightarrow> nat \<Rightarrow> 'b consumer \<Rightarrow> 'b consumer" where
  "limit_post_eta tb r b n c = schedule_bucket_request tb b (bucket_add b (r, n) (c\<lparr>qos_value := qos_value c - 1\<rparr>))"

text \<open>A task has a bucket if it has a rate limit that is not zero; \<open>rate\<close> turns the limit of a task into a number.\<close>

definition bucket_for_task :: "'b token_supply \<Rightarrow> rat \<Rightarrow> 'b bucket option" where
  "bucket_for_task tb limit = (if limit \<noteq> 0 then Some \<lparr>bcontents = [], btokens = new_tokens tb limit\<rparr> else None)"

fun reset_rate_limits :: "'b token_supply \<Rightarrow> (string \<times> rat) list \<Rightarrow> 'b consumer \<Rightarrow> 'b consumer" where
  "reset_rate_limits tb [] c = c"
| "reset_rate_limits tb ((n, limit) # tasks) c = reset_rate_limits tb tasks
     (case bucket_for_task tb limit of
        None \<Rightarrow> c\<lparr>task_buckets := dict_set n None (task_buckets c)\<rparr>
      | Some b \<Rightarrow> c\<lparr>task_buckets := dict_set n (Some (length (bstore c))) (task_buckets c), bstore := bstore c @ [b]\<rparr>)"

definition get_bucket :: "string \<Rightarrow> 'b consumer \<Rightarrow> nat option" where
  "get_bucket name c = (case dict_get (task_buckets c) name of None \<Rightarrow> None | Some b \<Rightarrow> b)"

section \<open>The strategy for received messages\<close>

text \<open>The start time of a request: none, a time stamp, or one that cannot be converted.\<close>

datatype start_time = NoEta | EtaAt rat | EtaUnconvertible

record incoming =
  i_req :: wreq
  i_expires :: bool
  i_revoked :: bool
  i_eta :: start_time

definition req_reject :: "wreq \<Rightarrow> bool \<Rightarrow> 'b consumer \<Rightarrow> 'b consumer" where
  "req_reject r requeue c = c\<lparr>notices := notices c @ [Rejected r requeue]\<rparr>"

definition convert_eta :: "incoming \<Rightarrow> 'b consumer \<Rightarrow> rat option \<times> 'b consumer" where
  "convert_eta m c = (case i_eta m of
     NoEta \<Rightarrow> (None, c)
   | EtaAt t \<Rightarrow> (if t = 0 then None else Some t, c)
   | EtaUnconvertible \<Rightarrow> (None, req_reject (i_req m) False c))"

text \<open>
  \<open>i_revoked\<close> is the answer of \<open>req.revoked()\<close>, which is asked only for requests that expire or are among the revoked ones.
\<close>

definition dropped :: "incoming \<Rightarrow> 'b consumer \<Rightarrow> bool" where
  "dropped m c \<longleftrightarrow> (i_expires m \<or> ls_contains (rq_id (i_req m)) (revoked (glob c))) \<and> i_revoked m"

definition task_message_handler :: "'b token_supply \<Rightarrow> incoming \<Rightarrow> 'b consumer \<Rightarrow> 'b consumer" where
  "task_message_handler tb m c =
     (let r = i_req m in
      if dropped m c then c\<lparr>notices := notices c @ [RevokedDropped r]\<rparr>
      else (case convert_eta m (c\<lparr>notices := notices c @ [Received r]\<rparr>) of (eta, c) \<Rightarrow>
        (let bucket = (if disable_rate_limits c then None else get_bucket (rq_name r) c) in
         case eta of
           Some t \<Rightarrow>
             (let c = c\<lparr>qos_value := qos_value c + 1,
                timers := timers c @ [case bucket of Some b \<Rightarrow> LimitPostEta t r b 1 | None \<Rightarrow> ApplyEta t r]\<rparr> in
              c\<lparr>glob := task_scheduled r (glob c)\<rparr>)
         | None \<Rightarrow>
             (case bucket of
                Some b \<Rightarrow> limit_task tb r b 1 c
              | None \<Rightarrow> c\<lparr>glob := task_reserved r (glob c), handled := handled c @ [r]\<rparr>))))"

definition apply_eta_task :: "wreq \<Rightarrow> 'b consumer \<Rightarrow> 'b consumer" where
  "apply_eta_task r c = c\<lparr>glob := task_reserved r (glob c), handled := handled c @ [r], qos_value := qos_value c - 1\<rparr>"

fun run_timer :: "'b token_supply \<Rightarrow> timer \<Rightarrow> 'b consumer \<Rightarrow> 'b consumer" where
  "run_timer tb (ApplyEta t r) c = apply_eta_task r c"
| "run_timer tb (LimitPostEta t r b n) c = limit_post_eta tb r b n c"
| "run_timer tb (ScheduleBucket t b p) c = schedule_bucket_request tb b c"

text \<open>The timer takes entry \<open>i\<close> from its list and runs it.\<close>

definition fire :: "'b token_supply \<Rightarrow> nat \<Rightarrow> 'b consumer \<Rightarrow> 'b consumer" where
  "fire tb i c = (if i < length (timers c)
     then run_timer tb (timers c ! i) (c\<lparr>timers := take i (timers c) @ drop (Suc i) (timers c)\<rparr>) else c)"

section \<open>Loss of the connection\<close>

fun timer_request :: "timer \<Rightarrow> wreq option" where
  "timer_request (ApplyEta t r) = Some r"
| "timer_request (LimitPostEta t r b n) = Some r"
| "timer_request (ScheduleBucket t b p) = None"

definition bucket_clear :: "(string, nat option) dict \<Rightarrow> 'b bucket list \<Rightarrow> 'b bucket list" where
  "bucket_clear table store = foldl (\<lambda>st b. case b of None \<Rightarrow> st | Some i \<Rightarrow> st[i := (st ! i)\<lparr>bcontents := []\<rparr>]) store (vals table)"

definition drop_requests :: "wreq set \<Rightarrow> (string, wreq) dict \<Rightarrow> (string, wreq) dict" where
  "drop_requests rs d = filter (\<lambda>(k, _). k \<notin> rq_id ` rs) d"

definition on_close :: "'b consumer \<Rightarrow> 'b consumer" where
  "on_close c =
     (let w = glob c;
          c = c\<lparr>notices := notices c @ (if has_semaphore c then [SemaphoreCleared] else []), bstore := bucket_clear (task_buckets c) (bstore c)\<rparr>;
          w = w\<lparr>requests := drop_requests (reserved_requests w - active_requests w) (requests w), reserved_requests := active_requests w\<rparr>;
          sched = scheduled_requests w;
          c = c\<lparr>timers := filter (\<lambda>e. case timer_request e of None \<Rightarrow> True | Some r \<Rightarrow> r \<notin> sched) (timers c)\<rparr>;
          w = w\<lparr>requests := drop_requests (sched - active_requests w - reserved_requests w) (requests w), scheduled_requests := {}\<rparr> in
      c\<lparr>glob := w, notices := notices c @ (if pool_flushes c then [PoolFlushed] else [])\<rparr>)"

section \<open>Received messages\<close>

text \<open>The form of a message: headers that are no dictionary, a task name in the headers (new protocol), or a body to decode (old protocol).\<close>

datatype payload = DecodeFails | NoTaskField | OldTask string

datatype headers_form = BadHeaders | NewTask string | NoTaskHeader payload

datatype strategy_result = Accepted | InvalidTask | ContentDisallowed | DecodeErrorRaised

datatype intake = UnknownMessage | DecodeErrorAcked | UnknownTask string | InvalidRejected | Strategy string

text \<open>What \<open>on_task_received\<close> does with a message; the strategy of a known task may find that the message is no task after all.\<close>

definition on_task_received :: "(string \<Rightarrow> bool) \<Rightarrow> (string \<Rightarrow> strategy_result) \<Rightarrow> headers_form \<Rightarrow> intake" where
  "on_task_received known strategy h =
     (let dispatch = (\<lambda>n. if \<not> known n then UnknownTask n
            else (case strategy n of Accepted \<Rightarrow> Strategy n | DecodeErrorRaised \<Rightarrow> DecodeErrorAcked | _ \<Rightarrow> InvalidRejected)) in
      case h of
        BadHeaders \<Rightarrow> UnknownMessage
      | NewTask n \<Rightarrow> dispatch n
      | NoTaskHeader DecodeFails \<Rightarrow> DecodeErrorAcked
      | NoTaskHeader NoTaskField \<Rightarrow> UnknownMessage
      | NoTaskHeader (OldTask n) \<Rightarrow> dispatch n)"

section \<open>What draining a bucket does\<close>

text \<open>The parts of the state that draining a bucket does not touch.\<close>

definition same_frame :: "'b consumer \<Rightarrow> 'b consumer \<Rightarrow> bool" where
  "same_frame c c' \<longleftrightarrow> bstore c' = bstore c \<and> task_buckets c' = task_buckets c \<and> timers c' = timers c \<and> qos_value c' = qos_value c \<and>
     limit_order c' = limit_order c \<and> notices c' = notices c \<and> disable_rate_limits c' = disable_rate_limits c"

lemma drain_result:
  assumes "drain tb xs tok c = (w, tok', c', hold)"
  obtains moved where "xs = moved @ w" "handled c' = handled c @ map fst moved" "hold = None \<longleftrightarrow> w = []" "same_frame c c'"
    "glob c' = fold (\<lambda>e. task_reserved (fst e)) moved (glob c)"
  using assms
proof (induction tb xs tok c arbitrary: thesis rule: drain.induct)
  case (1 tb tok c)
  then show ?case by (simp add: same_frame_def)
next
  case (2 tb r n rest tok c)
  obtain ok tok1 where t: "can_consume tb n tok = (ok, tok1)" by fastforce
  show ?case
  proof (cases ok)
    case True
    with 2(3) t have d: "drain tb rest tok1 (limit_move_to_pool r c) = (w, tok', c', hold)" by simp
    obtain moved where m: "rest = moved @ w" "handled c' = handled (limit_move_to_pool r c) @ map fst moved" "hold = None \<longleftrightarrow> w = []"
        "same_frame (limit_move_to_pool r c) c'" "glob c' = fold (\<lambda>e. task_reserved (fst e)) moved (glob (limit_move_to_pool r c))"
      using 2(1) [OF t [symmetric]] True d by auto
    show ?thesis
      by (rule 2(2) [of "(r, n) # moved"]) (use m in \<open>simp_all add: limit_move_to_pool_def same_frame_def\<close>)
  next
    case False
    with 2(3) t have "w = (r, n) # rest" "c' = c" "hold \<noteq> None" by auto
    then show ?thesis using 2(2) [of "[]"] by (simp add: same_frame_def)
  qed
qed

definition bucket_requests :: "'b consumer \<Rightarrow> wreq list" where
  "bucket_requests c = concat (map (\<lambda>b. map fst (bcontents b)) (bstore c))"

definition timer_requests :: "'b consumer \<Rightarrow> wreq list" where
  "timer_requests c = List.map_filter timer_request (timers c)"

text \<open>All requests the consumer is responsible for: handed to the pool, waiting for their time, or waiting for tokens.\<close>

definition requests_held :: "'b consumer \<Rightarrow> wreq multiset" where
  "requests_held c = mset (handled c) + mset (timer_requests c) + mset (bucket_requests c)"

lemma mset_concat_update:
  assumes "i < length xs"
  shows "mset (concat (map f (xs[i := y]))) + mset (f (xs ! i)) = mset (concat (map f xs)) + mset (f y)"
  using assms
proof (induction xs arbitrary: i)
  case (Cons x xs)
  then show ?case by (cases i) (auto simp: add_ac)
qed simp

lemma bucket_requests_update:
  assumes "b < length (bstore c)"
  shows "mset (bucket_requests (c\<lparr>bstore := (bstore c)[b := x]\<rparr>)) + mset (map fst (bcontents (bstore c ! b))) =
    mset (bucket_requests c) + mset (map fst (bcontents x))"
  using mset_concat_update [OF assms, of "\<lambda>b. map fst (bcontents b)" x] by (simp add: bucket_requests_def)

lemma map_filter_append: "List.map_filter f (xs @ ys) = List.map_filter f xs @ List.map_filter f ys"
  by (simp add: List.map_filter_def)

lemma schedule_bucket_result:
  fixes c :: "'b consumer"
  assumes "b < length (bstore c)"
  shows "\<exists>moved w. bcontents (bstore c ! b) = moved @ w \<and> handled (schedule_bucket_request tb b c) = handled c @ map fst moved \<and>
    bcontents (bstore (schedule_bucket_request tb b c) ! b) = w \<and> length (bstore (schedule_bucket_request tb b c)) = length (bstore c) \<and>
    (\<forall>b'. b' \<noteq> b \<longrightarrow> bstore (schedule_bucket_request tb b c) ! b' = bstore c ! b') \<and>
    (\<exists>ts. timers (schedule_bucket_request tb b c) = timers c @ ts \<and> (\<forall>e \<in> set ts. \<exists>t p. e = ScheduleBucket t b p) \<and>
      (w \<noteq> [] \<longrightarrow> (\<exists>t p. ScheduleBucket t b p \<in> set ts))) \<and>
    qos_value (schedule_bucket_request tb b c) = qos_value c \<and> task_buckets (schedule_bucket_request tb b c) = task_buckets c \<and>
    glob (schedule_bucket_request tb b c) = fold (\<lambda>e. task_reserved (fst e)) moved (glob c) \<and>
    requests_held (schedule_bucket_request tb b c) = requests_held c \<and> notices (schedule_bucket_request tb b c) = notices c"
proof -
  obtain w tok c1 hold where d: "drain tb (bcontents (bstore c ! b)) (btokens (bstore c ! b)) c = (w, tok, c1, hold)" by (metis prod_cases4)
  then obtain moved where m: "bcontents (bstore c ! b) = moved @ w" "handled c1 = handled c @ map fst moved" "hold = None \<longleftrightarrow> w = []"
      "same_frame c c1" "glob c1 = fold (\<lambda>e. task_reserved (fst e)) moved (glob c)"
    by (rule drain_result)
  define c2 where "c2 = c1\<lparr>bstore := (bstore c)[b := \<lparr>bcontents = w, btokens = tok\<rparr>]\<rparr>"
  have s: "schedule_bucket_request tb b c = (case hold of None \<Rightarrow> c2
      | Some h \<Rightarrow> (let pri = (limit_order c2 + 1) mod 10 in c2\<lparr>limit_order := pri, timers := timers c2 @ [ScheduleBucket h b pri]\<rparr>))"
    using d m(4) by (simp add: schedule_bucket_request_def c2_def same_frame_def Let_def cong: option.case_cong)
  have "mset (bucket_requests c2) + mset (map fst (moved @ w)) = mset (bucket_requests c) + mset (map fst w)"
    using bucket_requests_update [OF assms, of "\<lparr>bcontents = w, btokens = tok\<rparr>"] m(1) by (simp add: c2_def bucket_requests_def)
  then have held: "requests_held c2 = requests_held c"
    using m(2,4) by (simp add: requests_held_def c2_def timer_requests_def same_frame_def add_ac)
  have f: "handled c2 = handled c @ map fst moved" "timers c2 = timers c" "qos_value c2 = qos_value c" "task_buckets c2 = task_buckets c"
    "bstore c2 = (bstore c)[b := \<lparr>bcontents = w, btokens = tok\<rparr>]" "glob c2 = fold (\<lambda>e. task_reserved (fst e)) moved (glob c)" "notices c2 = notices c"
    using m by (simp_all add: c2_def same_frame_def)
  show ?thesis
  proof (cases hold)
    case None
    then have e: "schedule_bucket_request tb b c = c2" using s by simp
    show ?thesis unfolding e using m(1,3) f held None assms by (intro exI [of _ moved] exI [of _ w]) (simp add: List.map_filter_def)
  next
    case (Some h)
    define pri where "pri = (limit_order c2 + 1) mod 10"
    have e: "schedule_bucket_request tb b c = c2\<lparr>limit_order := pri, timers := timers c2 @ [ScheduleBucket h b pri]\<rparr>"
      using s Some by (simp add: pri_def Let_def)
    have "requests_held (c2\<lparr>limit_order := pri, timers := timers c2 @ [ScheduleBucket h b pri]\<rparr>) = requests_held c2"
      by (simp add: requests_held_def timer_requests_def bucket_requests_def map_filter_append List.map_filter_def)
    then show ?thesis unfolding e using m(1) f held assms
      by (intro exI [of _ moved] exI [of _ w]) (auto simp: List.map_filter_def)
  qed
qed

section \<open>The consumer as a transition system\<close>

text \<open>Indices of buckets in the table and in timers are those of bucket objects.\<close>

fun timer_bucket :: "timer \<Rightarrow> nat option" where
  "timer_bucket (ApplyEta t r) = None"
| "timer_bucket (LimitPostEta t r b n) = Some b"
| "timer_bucket (ScheduleBucket t b p) = Some b"

definition buckets_ok :: "'b consumer \<Rightarrow> bool" where
  "buckets_ok c \<longleftrightarrow> (\<forall>b. Some b \<in> set (vals (task_buckets c)) \<longrightarrow> b < length (bstore c)) \<and>
     (\<forall>e \<in> set (timers c). \<forall>b. timer_bucket e = Some b \<longrightarrow> b < length (bstore c))"

text \<open>Every bucket in which requests wait will be looked at again.\<close>

definition waiting_scheduled :: "'b consumer \<Rightarrow> bool" where
  "waiting_scheduled c \<longleftrightarrow> (\<forall>b < length (bstore c). bcontents (bstore c ! b) \<noteq> [] \<longrightarrow> (\<exists>t p. ScheduleBucket t b p \<in> set (timers c)))"

definition consumer_ok :: "'b consumer \<Rightarrow> bool" where
  "consumer_ok c \<longleftrightarrow> buckets_ok c \<and> waiting_scheduled c"

lemma get_bucket_mem: "get_bucket n c = Some b \<Longrightarrow> Some b \<in> set (vals (task_buckets c))"
  unfolding get_bucket_def by (auto split: option.splits dest: map_of_SomeD intro: image_eqI [rotated])

lemma bucket_add_result:
  assumes "b < length (bstore c)"
  shows "bcontents (bstore (bucket_add b e c) ! b) = bcontents (bstore c ! b) @ [e]" "length (bstore (bucket_add b e c)) = length (bstore c)"
    "b' \<noteq> b \<Longrightarrow> bstore (bucket_add b e c) ! b' = bstore c ! b'" "timers (bucket_add b e c) = timers c" "handled (bucket_add b e c) = handled c"
    "task_buckets (bucket_add b e c) = task_buckets c" "qos_value (bucket_add b e c) = qos_value c" "notices (bucket_add b e c) = notices c"
    "requests_held (bucket_add b e c) = add_mset (fst e) (requests_held c)"
proof -
  have "mset (bucket_requests (bucket_add b e c)) = add_mset (fst e) (mset (bucket_requests c))"
    using bucket_requests_update [OF assms, of "(bstore c ! b)\<lparr>bcontents := bcontents (bstore c ! b) @ [e]\<rparr>"] by (simp add: bucket_add_def)
  then show "requests_held (bucket_add b e c) = add_mset (fst e) (requests_held c)"
    by (simp add: requests_held_def timer_requests_def bucket_add_def)
qed (use assms in \<open>simp_all add: bucket_add_def\<close>)

text \<open>Adding a request to a bucket and draining it, whatever timer was taken off before.\<close>

lemma schedule_keeps:
  assumes "b < length (bstore c)" and "buckets_ok c"
    and "\<And>b'. b' < length (bstore c) \<Longrightarrow> b' \<noteq> b \<Longrightarrow> bcontents (bstore c ! b') \<noteq> [] \<Longrightarrow> \<exists>t p. ScheduleBucket t b' p \<in> set (timers c)"
  shows "consumer_ok (schedule_bucket_request tb b c)"
proof -
  let ?c = "schedule_bucket_request tb b c"
  obtain moved w ts where r: "bcontents (bstore ?c ! b) = w" "length (bstore ?c) = length (bstore c)" "\<forall>b'. b' \<noteq> b \<longrightarrow> bstore ?c ! b' = bstore c ! b'"
    "timers ?c = timers c @ ts" "\<forall>e \<in> set ts. \<exists>t p. e = ScheduleBucket t b p" "w \<noteq> [] \<longrightarrow> (\<exists>t p. ScheduleBucket t b p \<in> set ts)" "task_buckets ?c = task_buckets c"
    using schedule_bucket_result [OF assms(1), of tb] by blast
  have "timer_bucket e = Some b" if "e \<in> set ts" for e using r(5) that by force
  then have "buckets_ok ?c" using assms(1,2) unfolding buckets_ok_def r(2,4,7) by auto
  moreover have "waiting_scheduled ?c" unfolding waiting_scheduled_def
  proof (intro allI impI)
    fix b' assume "b' < length (bstore ?c)" "bcontents (bstore ?c ! b') \<noteq> []"
    then show "\<exists>t p. ScheduleBucket t b' p \<in> set (timers ?c)"
      using r assms(3) [of b'] by (cases "b' = b") auto
  qed
  ultimately show ?thesis by (simp add: consumer_ok_def)
qed

lemma limit_task_keeps:
  assumes "consumer_ok c" and "b < length (bstore c)"
  shows "consumer_ok (limit_task tb r b n c)" and "requests_held (limit_task tb r b n c) = add_mset r (requests_held c)"
    and "qos_value (limit_task tb r b n c) = qos_value c"
proof -
  let ?c = "bucket_add b (r, n) c"
  note a = bucket_add_result [OF assms(2), where e = "(r, n)"]
  have b: "b < length (bstore ?c)" using assms(2) a(2) by simp
  have ok: "buckets_ok ?c" using assms(1) a(2,4,6) by (simp add: consumer_ok_def buckets_ok_def)
  show "consumer_ok (limit_task tb r b n c)"
    unfolding limit_task_def
  proof (rule schedule_keeps [OF b ok])
    fix b' assume "b' < length (bstore ?c)" "b' \<noteq> b" "bcontents (bstore ?c ! b') \<noteq> []"
    then show "\<exists>t p. ScheduleBucket t b' p \<in> set (timers ?c)"
      using assms(1) a by (simp add: consumer_ok_def waiting_scheduled_def)
  qed
  show "requests_held (limit_task tb r b n c) = add_mset r (requests_held c)" "qos_value (limit_task tb r b n c) = qos_value c"
    using schedule_bucket_result [OF b, of tb] a unfolding limit_task_def by auto
qed

lemma limit_post_eta_eq: "limit_post_eta tb r b n c = limit_task tb r b n (c\<lparr>qos_value := qos_value c - 1\<rparr>)"
  by (simp add: limit_post_eta_def limit_task_def bucket_add_def)

lemma consumer_ok_frame:
  assumes "consumer_ok c" "bstore c' = bstore c" "task_buckets c' = task_buckets c" "set (timers c') = set (timers c)"
  shows "consumer_ok c'"
  using assms by (simp add: consumer_ok_def buckets_ok_def waiting_scheduled_def)

lemma timer_bucket_ok: "consumer_ok c \<Longrightarrow> e \<in> set (timers c) \<Longrightarrow> timer_bucket e = Some b \<Longrightarrow> b < length (bstore c)"
  by (simp add: consumer_ok_def buckets_ok_def)

lemma consumer_ok_timer:
  assumes "consumer_ok c" "\<And>b. timer_bucket e = Some b \<Longrightarrow> b < length (bstore c)"
    and "bstore c' = bstore c" "task_buckets c' = task_buckets c" "timers c' = timers c @ [e]"
  shows "consumer_ok c'"
  using assms unfolding consumer_ok_def buckets_ok_def waiting_scheduled_def by (simp, blast)

lemma held_frame:
  assumes "bstore c' = bstore c" "timers c' = timers c" "handled c' = handled c"
  shows "requests_held c' = requests_held c"
  using assms by (simp add: requests_held_def timer_requests_def bucket_requests_def)

lemma convert_eta_frame:
  assumes "convert_eta m c = (eta, c')"
  shows "bstore c' = bstore c" "timers c' = timers c" "handled c' = handled c" "task_buckets c' = task_buckets c" "qos_value c' = qos_value c"
    "glob c' = glob c" "disable_rate_limits c' = disable_rate_limits c"
  using assms by (auto simp: convert_eta_def req_reject_def split: start_time.splits)

lemma handler_cases:
  fixes c :: "'b consumer"
  assumes "\<not> dropped m c"
  obtains (timed) t e c1 where "convert_eta m (c\<lparr>notices := notices c @ [Received (i_req m)]\<rparr>) = (Some t, c1)" "timer_request e = Some (i_req m)"
      "timer_bucket e = (if disable_rate_limits c then None else get_bucket (rq_name (i_req m)) c)"
      "task_message_handler tb m c = c1\<lparr>qos_value := qos_value c + 1, timers := timers c @ [e], glob := task_scheduled (i_req m) (glob c)\<rparr>"
  | (limited) b c1 where "convert_eta m (c\<lparr>notices := notices c @ [Received (i_req m)]\<rparr>) = (None, c1)" "get_bucket (rq_name (i_req m)) c = Some b"
      "task_message_handler tb m c = limit_task tb (i_req m) b 1 c1"
  | (direct) c1 where "convert_eta m (c\<lparr>notices := notices c @ [Received (i_req m)]\<rparr>) = (None, c1)"
      "task_message_handler tb m c = c1\<lparr>glob := task_reserved (i_req m) (glob c), handled := handled c @ [i_req m]\<rparr>"
proof -
  let ?c0 = "c\<lparr>notices := notices c @ [Received (i_req m)]\<rparr>"
  obtain eta c1 where e: "convert_eta m ?c0 = (eta, c1)" by fastforce
  note f = convert_eta_frame [OF e]
  define bucket where "bucket = (if disable_rate_limits c then None else get_bucket (rq_name (i_req m)) c)"
  have b: "(if disable_rate_limits c1 then None else get_bucket (rq_name (i_req m)) c1) = bucket"
    using f by (simp add: bucket_def get_bucket_def)
  show ?thesis
  proof (cases eta)
    case (Some t)
    let ?e = "case bucket of Some b \<Rightarrow> LimitPostEta t (i_req m) b 1 | None \<Rightarrow> ApplyEta t (i_req m)"
    show ?thesis
      by (rule timed [of t c1 ?e]) (use assms e Some f b in \<open>auto simp: task_message_handler_def Let_def bucket_def [symmetric] split: option.splits\<close>)
  next
    case None
    show ?thesis
    proof (cases bucket)
      case (Some b')
      then show ?thesis using limited [of c1 b'] assms e None b
        by (auto simp: task_message_handler_def Let_def bucket_def split: if_splits)
    next
      case None2: None
      then show ?thesis using direct [of c1] assms e None b f by (simp add: task_message_handler_def Let_def)
    qed
  qed
qed

lemma handler_keeps:
  assumes "consumer_ok c"
  shows "consumer_ok (task_message_handler tb m c) \<and>
    requests_held (task_message_handler tb m c) = (if dropped m c then requests_held c else add_mset (i_req m) (requests_held c))"
proof (cases "dropped m c")
  case True
  then have e: "task_message_handler tb m c = c\<lparr>notices := notices c @ [RevokedDropped (i_req m)]\<rparr>" by (simp add: task_message_handler_def Let_def)
  show ?thesis unfolding e using True consumer_ok_frame [OF assms] held_frame [of "c\<lparr>notices := notices c @ [RevokedDropped (i_req m)]\<rparr>" c] by simp
next
  case False
  have ok: "consumer_ok c1" "requests_held c1 = requests_held c" "bstore c1 = bstore c"
    if "convert_eta m (c\<lparr>notices := notices c @ [Received (i_req m)]\<rparr>) = (x, c1)" for x c1
    using convert_eta_frame [OF that] consumer_ok_frame [OF assms, of c1] held_frame [of c1 c] by simp_all
  from False show ?thesis
  proof (cases rule: handler_cases [where tb = tb])
    case (timed t e c1)
    have "b < length (bstore c)" if "timer_bucket e = Some b" for b
      using that timed(3) assms get_bucket_mem [of "rq_name (i_req m)" c b] by (auto simp: consumer_ok_def buckets_ok_def split: if_splits)
    then have "consumer_ok (task_message_handler tb m c)"
      unfolding timed(4) using convert_eta_frame [OF timed(1)] by (intro consumer_ok_timer [OF assms]) simp_all
    moreover have "requests_held (task_message_handler tb m c) = add_mset (i_req m) (requests_held c)"
      unfolding timed(4) using timed(2) convert_eta_frame [OF timed(1)]
      by (simp add: requests_held_def timer_requests_def bucket_requests_def map_filter_append List.map_filter_def)
    ultimately show ?thesis using False by simp
  next
    case (limited b c1)
    have "b < length (bstore c1)"
      using assms get_bucket_mem [OF limited(2)] ok(3) [OF limited(1)] by (simp add: consumer_ok_def buckets_ok_def)
    from limit_task_keeps [OF ok(1) [OF limited(1)] this] show ?thesis using False ok(2) [OF limited(1)] limited(3) by simp
  next
    case (direct c1)
    have "requests_held (task_message_handler tb m c) = add_mset (i_req m) (requests_held c)"
      unfolding direct(2) using convert_eta_frame [OF direct(1)] by (simp add: requests_held_def timer_requests_def bucket_requests_def)
    moreover have "consumer_ok (task_message_handler tb m c)"
      unfolding direct(2) by (rule consumer_ok_frame [OF ok(1) [OF direct(1)]]) simp_all
    ultimately show ?thesis using False by simp
  qed
qed

lemma take_off_timer:
  assumes "i < length xs"
  shows "mset (List.map_filter f xs) = mset (List.map_filter f (take i xs @ drop (Suc i) xs)) + (case f (xs ! i) of None \<Rightarrow> {#} | Some y \<Rightarrow> {#y#})"
proof -
  have "xs = take i xs @ xs ! i # drop (Suc i) xs" by (rule id_take_nth_drop [OF assms])
  then have "List.map_filter f xs = List.map_filter f (take i xs) @ List.map_filter f [xs ! i] @ List.map_filter f (drop (Suc i) xs)"
    by (metis append_Cons append_Nil map_filter_append)
  then show ?thesis by (auto simp: map_filter_append List.map_filter_def split: option.splits)
qed

lemma set_take_off: "i < length xs \<Longrightarrow> set xs = insert (xs ! i) (set (take i xs @ drop (Suc i) xs))"
  by (subst id_take_nth_drop [of i xs]) auto

lemma fire_keeps:
  assumes "consumer_ok c" and "i < length (timers c)"
  shows "consumer_ok (fire tb i c) \<and> requests_held (fire tb i c) = requests_held c"
proof -
  define c0 where "c0 = c\<lparr>timers := take i (timers c) @ drop (Suc i) (timers c)\<rparr>"
  have f: "fire tb i c = run_timer tb (timers c ! i) c0" using assms(2) by (simp add: fire_def c0_def)
  have held: "requests_held c = requests_held c0 + (case timer_request (timers c ! i) of None \<Rightarrow> {#} | Some r \<Rightarrow> {#r#})"
    using take_off_timer [OF assms(2), of timer_request] by (simp add: requests_held_def timer_requests_def bucket_requests_def c0_def)
  have set: "set (timers c) = insert (timers c ! i) (set (timers c0))" using set_take_off [OF assms(2)] by (simp add: c0_def)
  have b0: "buckets_ok c0" using assms(1) set by (auto simp: consumer_ok_def buckets_ok_def c0_def)
  have w0: "\<exists>t p. ScheduleBucket t b' p \<in> set (timers c0)"
    if "b' < length (bstore c0)" "bcontents (bstore c0 ! b') \<noteq> []" "\<forall>t p. timers c ! i \<noteq> ScheduleBucket t b' p" for b'
  proof -
    from that(1,2) assms(1) obtain t p where "ScheduleBucket t b' p \<in> set (timers c)"
      by (auto simp: consumer_ok_def waiting_scheduled_def c0_def)
    with set that(3) show ?thesis by (metis insertE)
  qed
  show ?thesis
  proof (cases "timers c ! i")
    case (ApplyEta t r)
    then have "consumer_ok c0" using b0 w0 by (simp add: consumer_ok_def waiting_scheduled_def)
    then have "consumer_ok (fire tb i c)" unfolding f ApplyEta by (rule consumer_ok_frame) (simp_all add: apply_eta_task_def)
    then show ?thesis using held ApplyEta f by (simp add: apply_eta_task_def requests_held_def timer_requests_def bucket_requests_def)
  next
    case (LimitPostEta t r b n)
    let ?c = "c0\<lparr>qos_value := qos_value c0 - 1\<rparr>"
    have "consumer_ok c0" using b0 w0 LimitPostEta by (simp add: consumer_ok_def waiting_scheduled_def)
    then have ok: "consumer_ok ?c" by (rule consumer_ok_frame) simp_all
    have b: "b < length (bstore ?c)" using timer_bucket_ok [OF assms(1) nth_mem [OF assms(2)]] LimitPostEta by (simp add: c0_def)
    show ?thesis using limit_task_keeps [OF ok b, of tb r n] held LimitPostEta f held_frame [of ?c c0] by (simp add: limit_post_eta_eq)
  next
    case (ScheduleBucket t b p)
    have b: "b < length (bstore c0)" using timer_bucket_ok [OF assms(1) nth_mem [OF assms(2)]] ScheduleBucket by (simp add: c0_def)
    have "consumer_ok (schedule_bucket_request tb b c0)"
      by (rule schedule_keeps [OF b b0]) (use w0 ScheduleBucket in auto)
    moreover have "requests_held (schedule_bucket_request tb b c0) = requests_held c0"
      using schedule_bucket_result [OF b, of tb] by auto
    ultimately show ?thesis using held ScheduleBucket f by simp
  qed
qed

lemma bucket_clear_result:
  "length (bucket_clear table store) = length store"
  "i < length store \<Longrightarrow> bcontents (bucket_clear table store ! i) = (if Some i \<in> set (vals table) then [] else bcontents (store ! i))"
proof -
  let ?f = "\<lambda>st b. case b of None \<Rightarrow> st | Some i \<Rightarrow> st[i := (st ! i)\<lparr>bcontents := []\<rparr>]"
  have len: "length (foldl ?f st bs) = length st" for st :: "'a bucket list" and bs
    by (induction bs arbitrary: st) (auto split: option.splits)
  have "bcontents (foldl ?f st bs ! i) = (if Some i \<in> set bs then [] else bcontents (st ! i))" if "i < length st" for st :: "'a bucket list" and bs i
    using that
  proof (induction bs arbitrary: st)
    case (Cons b bs)
    have l: "i < length (?f st b)" using Cons.prems by (simp split: option.splits)
    have "bcontents (?f st b ! i) = (if b = Some i then [] else bcontents (st ! i))"
      using Cons.prems by (auto simp: nth_list_update split: option.splits)
    then show ?case using Cons.IH [OF l] by auto
  qed simp
  then show "length (bucket_clear table store) = length store"
    "i < length store \<Longrightarrow> bcontents (bucket_clear table store ! i) = (if Some i \<in> set (vals table) then [] else bcontents (store ! i))"
    by (simp_all only: bucket_clear_def len)
qed

lemma mset_concat_le:
  assumes "length xs = length ys" and "\<And>i. i < length xs \<Longrightarrow> mset (f (xs ! i)) \<subseteq># mset (f (ys ! i))"
  shows "mset (concat (map f xs)) \<subseteq># mset (concat (map f ys))"
  using assms
proof (induction xs ys rule: list_induct2)
  case (Cons x xs y ys)
  have "mset (f (xs ! i)) \<subseteq># mset (f (ys ! i))" if "i < length xs" for i using Cons.prems [of "Suc i"] that by simp
  then show ?case using Cons.IH Cons.prems [of 0] by (simp add: subset_mset.add_mono)
qed simp

lemma map_filter_filter_le: "mset (List.map_filter f (filter P xs)) \<subseteq># mset (List.map_filter f xs)"
  unfolding List.map_filter_def mset_map mset_filter by (intro image_mset_subseteq_mono multiset_filter_mono multiset_filter_subset)

lemma on_close_fields:
  "bstore (on_close c) = bucket_clear (task_buckets c) (bstore c)" "task_buckets (on_close c) = task_buckets c" "handled (on_close c) = handled c"
  "timers (on_close c) = filter (\<lambda>e. case timer_request e of None \<Rightarrow> True | Some r \<Rightarrow> r \<notin> scheduled_requests (glob c)) (timers c)"
  by (simp_all add: on_close_def Let_def cong: option.case_cong)

lemma on_close_keeps:
  assumes "consumer_ok c"
  shows "consumer_ok (on_close c) \<and> requests_held (on_close c) \<subseteq># requests_held c"
proof -
  have w: "waiting_scheduled (on_close c)"
    unfolding waiting_scheduled_def
  proof (intro allI impI)
    fix b assume "b < length (bstore (on_close c))" "bcontents (bstore (on_close c) ! b) \<noteq> []"
    then have "b < length (bstore c)" "bcontents (bstore c ! b) \<noteq> []"
      by (auto simp: on_close_fields bucket_clear_result split: if_splits)
    then obtain t p where "ScheduleBucket t b p \<in> set (timers c)" using assms by (auto simp: consumer_ok_def waiting_scheduled_def)
    then show "\<exists>t p. ScheduleBucket t b p \<in> set (timers (on_close c))" by (auto simp: on_close_fields)
  qed
  have "buckets_ok (on_close c)" using assms by (auto simp: consumer_ok_def buckets_ok_def on_close_fields bucket_clear_result)
  moreover have "mset (bucket_requests (on_close c)) \<subseteq># mset (bucket_requests c)"
    unfolding bucket_requests_def on_close_fields by (rule mset_concat_le) (simp_all add: bucket_clear_result)
  moreover have "mset (timer_requests (on_close c)) \<subseteq># mset (timer_requests c)"
    unfolding timer_requests_def on_close_fields by (rule map_filter_filter_le)
  ultimately show ?thesis using w by (simp add: consumer_ok_def requests_held_def on_close_fields subset_mset.add_mono)
qed

lemma reset_rate_limits_keeps:
  assumes "consumer_ok c"
  shows "consumer_ok (reset_rate_limits tb tasks c) \<and> requests_held (reset_rate_limits tb tasks c) = requests_held c"
  using assms
proof (induction tb tasks c rule: reset_rate_limits.induct)
  case (2 tb n limit tasks c)
  let ?c = "case bucket_for_task tb limit of
        None \<Rightarrow> c\<lparr>task_buckets := dict_set n None (task_buckets c)\<rparr>
      | Some b \<Rightarrow> c\<lparr>task_buckets := dict_set n (Some (length (bstore c))) (task_buckets c), bstore := bstore c @ [b]\<rparr>"
  have v: "snd ` set (dict_set k v d) \<subseteq> insert v (snd ` set d)" for k v and d :: "(string, nat option) dict"
    by (induction d) auto
  have "consumer_ok ?c"
  proof (cases "bucket_for_task tb limit")
    case None
    then show ?thesis using 2(2) v [of n None "task_buckets c"] by (auto simp: consumer_ok_def buckets_ok_def waiting_scheduled_def)
  next
    case (Some b)
    then have "bcontents b = []" by (auto simp: bucket_for_task_def split: if_splits)
    then have "waiting_scheduled ?c" using 2(2) Some by (auto simp: consumer_ok_def waiting_scheduled_def nth_append)
    moreover have "x < length (bstore c) \<or> x = length (bstore c)" if "Some x \<in> snd ` set (task_buckets ?c)" for x
      using v [of n "Some (length (bstore c))" "task_buckets c"] that 2(2) Some by (auto simp: consumer_ok_def buckets_ok_def dest!: subsetD)
    then have "buckets_ok ?c" using 2(2) Some by (auto simp: consumer_ok_def buckets_ok_def less_Suc_eq)
    ultimately show ?thesis by (simp add: consumer_ok_def)
  qed
  moreover have "requests_held ?c = requests_held c"
    by (auto simp: bucket_for_task_def requests_held_def bucket_requests_def timer_requests_def)
  ultimately show ?case using 2(1) by simp
qed simp

datatype consumer_event = Receive incoming | Fire nat | Close | Reset "(string \<times> rat) list"

inductive consumer_step :: "'b token_supply \<Rightarrow> 'b consumer \<Rightarrow> consumer_event \<Rightarrow> 'b consumer \<Rightarrow> bool" for tb where
  receive: "i_req m \<notin># requests_held c \<Longrightarrow> consumer_step tb c (Receive m) (task_message_handler tb m c)"
| fire: "i < length (timers c) \<Longrightarrow> consumer_step tb c (Fire i) (fire tb i c)"
| close: "consumer_step tb c Close (on_close c)"
| reset: "consumer_step tb c (Reset tasks) (reset_rate_limits tb tasks c)"

definition no_request_twice :: "'b consumer \<Rightarrow> bool" where
  "no_request_twice c \<longleftrightarrow> (\<forall>r. count (requests_held c) r \<le> 1)"

definition new_consumer :: "'b consumer \<Rightarrow> bool" where
  "new_consumer c \<longleftrightarrow> bstore c = [] \<and> task_buckets c = [] \<and> timers c = [] \<and> handled c = []"

interpretation intake: invariant_system new_consumer "consumer_step tb" "\<lambda>c. consumer_ok c \<and> no_request_twice c" for tb
proof
  show "consumer_ok c \<and> no_request_twice c" if "new_consumer c" for c :: "'a consumer"
    using that by (simp add: new_consumer_def consumer_ok_def buckets_ok_def waiting_scheduled_def no_request_twice_def requests_held_def
        bucket_requests_def timer_requests_def List.map_filter_def)
  show "consumer_ok c' \<and> no_request_twice c'" if "consumer_ok c \<and> no_request_twice c" "consumer_step tb c e c'" for c c' :: "'a consumer" and e
    using that(2)
  proof (cases rule: consumer_step.cases)
    case (receive m)
    then show ?thesis using handler_keeps [of c tb m] that(1) by (auto simp: no_request_twice_def count_eq_zero_iff)
  next
    case (fire i)
    then show ?thesis using fire_keeps [of c i tb] that(1) by (simp add: no_request_twice_def)
  next
    case close
    then show ?thesis using on_close_keeps [of c] that(1) by (auto simp: no_request_twice_def) (meson le_trans mset_subset_eq_count)
  next
    case (reset tasks)
    then show ?thesis using reset_rate_limits_keeps [of c tb tasks] that(1) by (simp add: no_request_twice_def)
  qed
qed

section \<open>Properties of the intake\<close>

text \<open>
  C12: a request is handed to the pool at most once. In every reachable state no request was handed over twice, and none that was handed over still waits
  for its start time or for tokens, whatever messages, timers, lost connections and changed rate limits there were.
\<close>

theorem request_handed_over_once:
  assumes "reach new_consumer (consumer_step tb) c"
  shows "distinct (handled c) \<and> set (handled c) \<inter> (set (timer_requests c) \<union> set (bucket_requests c)) = {}"
proof -
  have one: "count (mset (handled c)) r + count (mset (timer_requests c)) r + count (mset (bucket_requests c)) r \<le> 1" for r
    using intake.inv_reach [OF assms] by (simp add: no_request_twice_def requests_held_def)
  have "count (mset (handled c)) r \<le> 1" for r using one [of r] by linarith
  then have "distinct (handled c)" by (metis count_mset_0_iff distinct_count_atmost_1 le_neq_implies_less less_one)
  moreover have False if "r \<in> set (handled c)" "r \<in> set (timer_requests c) \<union> set (bucket_requests c)" for r
  proof -
    have "count (mset (handled c)) r \<ge> 1" using that(1) by (simp add: Suc_le_eq)
    moreover have "count (mset (timer_requests c)) r \<ge> 1 \<or> count (mset (bucket_requests c)) r \<ge> 1"
      using that(2) by (auto simp: Suc_le_eq)
    ultimately show False using one [of r] by linarith
  qed
  ultimately show ?thesis by blast
qed

definition sample_consumer :: "nat consumer" where
  "sample_consumer = \<lparr>glob = new_state 10 100 10 100, bstore = [], task_buckets = [], disable_rate_limits = False, timers = [], limit_order = 0,
     qos_value = 4, has_semaphore = False, pool_flushes = False, handled = [], notices = []\<rparr>"

text \<open>A supply with one token for each request up to a limit.\<close>

definition sample_supply :: "nat token_supply" where
  "sample_supply = \<lparr>can_consume = (\<lambda>n k. if n \<le> k then (True, k - n) else (False, k)), expected_time = (\<lambda>n k. 1), new_tokens = (\<lambda>limit. 1)\<rparr>"

definition sample_incoming :: "nat \<Rightarrow> start_time \<Rightarrow> incoming" where
  "sample_incoming i e = \<lparr>i_req = \<lparr>rq_ref = i, rq_id = ''id'', rq_name = ''proj.add''\<rparr>, i_expires = False, i_revoked = False, i_eta = e\<rparr>"

definition sample_limited :: "nat consumer" where
  "sample_limited = task_message_handler sample_supply (sample_incoming 2 NoEta)
     (task_message_handler sample_supply (sample_incoming 1 NoEta) (reset_rate_limits sample_supply [(''proj.add'', 5)] sample_consumer))"

lemma reach_receive:
  assumes "reach new_consumer (consumer_step tb) c" and "i_req m \<notin># requests_held c"
  shows "reach new_consumer (consumer_step tb) (task_message_handler tb m c)"
  by (rule reach_step) (rule assms(1), rule receive, rule assms(2))

lemma sample_limited_reach: "reach new_consumer (consumer_step sample_supply) sample_limited"
proof -
  let ?c1 = "reset_rate_limits sample_supply [(''proj.add'', 5)] sample_consumer"
  let ?c2 = "task_message_handler sample_supply (sample_incoming 1 NoEta) ?c1"
  have "new_consumer sample_consumer" by (simp add: new_consumer_def sample_consumer_def)
  then have "reach new_consumer (consumer_step sample_supply) sample_consumer" by (rule reach_init)
  then have "reach new_consumer (consumer_step sample_supply) ?c1" by (rule reach_step) (rule reset)
  moreover have "i_req (sample_incoming 1 NoEta) \<notin># requests_held ?c1" by code_simp
  ultimately have "reach new_consumer (consumer_step sample_supply) ?c2" by (rule reach_receive)
  moreover have "i_req (sample_incoming 2 NoEta) \<notin># requests_held ?c2" by code_simp
  ultimately show ?thesis unfolding sample_limited_def by (rule reach_receive)
qed

theorem request_handed_over_once_witness:
  "handled sample_limited = [i_req (sample_incoming 1 NoEta)] \<and> bucket_requests sample_limited = [i_req (sample_incoming 2 NoEta)] \<and>
   i_req (sample_incoming 1 NoEta) \<notin> set (bucket_requests sample_limited)"
proof -
  have h: "handled sample_limited = [i_req (sample_incoming 1 NoEta)]" "bucket_requests sample_limited = [i_req (sample_incoming 2 NoEta)]" by code_simp+
  have "i_req (sample_incoming 1 NoEta) \<notin> set (bucket_requests sample_limited)"
    using request_handed_over_once [OF sample_limited_reach] h(1) by auto
  with h show ?thesis by blast
qed

text \<open>
  C32: a request that waits for tokens is not forgotten. In every reachable state, for each waiting request there is a timer that will look at its
  bucket again.
\<close>

theorem waiting_request_scheduled:
  assumes "reach new_consumer (consumer_step tb) c" and "r \<in> set (bucket_requests c)"
  shows "\<exists>b t p. r \<in> fst ` set (bcontents (bstore c ! b)) \<and> ScheduleBucket t b p \<in> set (timers c)"
proof -
  from assms(2) obtain b where b: "b < length (bstore c)" "r \<in> fst ` set (bcontents (bstore c ! b))"
  proof -
    from assms(2) obtain bk where "bk \<in> set (bstore c)" "r \<in> set (map fst (bcontents bk))" unfolding bucket_requests_def by auto
    then show thesis using that by (metis in_set_conv_nth set_map)
  qed
  then have "bcontents (bstore c ! b) \<noteq> []" by auto
  with b intake.inv_reach [OF assms(1)] show ?thesis unfolding consumer_ok_def waiting_scheduled_def by blast
qed

theorem waiting_request_scheduled_witness:
  "\<exists>b t p. ScheduleBucket t b p \<in> set (timers sample_limited)"
proof -
  have "i_req (sample_incoming 2 NoEta) \<in> set (bucket_requests sample_limited)" by code_simp
  from waiting_request_scheduled [OF sample_limited_reach this] show ?thesis by blast
qed

text \<open>
  C19: no request is lost while the connection lasts. A step other than the loss of the connection keeps every request the consumer has, and a received message
  adds its request, unless it is dropped because it was revoked.
\<close>

theorem no_request_lost:
  assumes "reach new_consumer (consumer_step tb) c" and "consumer_step tb c e c'" and "e \<noteq> Close"
  shows "requests_held c' = requests_held c + (case e of Receive m \<Rightarrow> if dropped m c then {#} else {#i_req m#} | _ \<Rightarrow> {#})"
proof -
  have ok: "consumer_ok c" using intake.inv_reach [OF assms(1)] by simp
  from assms(2) show ?thesis
  proof (cases rule: consumer_step.cases)
    case (receive m)
    then show ?thesis using handler_keeps [OF ok, of tb m] by simp
  next
    case (fire i)
    then show ?thesis using fire_keeps [OF ok, of i tb] by simp
  next
    case close
    then show ?thesis using assms(3) by simp
  next
    case (reset tasks)
    then show ?thesis using reset_rate_limits_keeps [OF ok, of tb tasks] by simp
  qed
qed

theorem no_request_lost_witness:
  "requests_held (fire sample_supply 0 sample_limited) = requests_held sample_limited"
proof -
  have "0 < length (timers sample_limited)" by code_simp
  then have "consumer_step sample_supply sample_limited (Fire 0) (fire sample_supply 0 sample_limited)" by (rule fire)
  from no_request_lost [OF sample_limited_reach this] show ?thesis by simp
qed

lemma map_filter_none: "(\<And>e. e \<in> set ts \<Longrightarrow> f e = None) \<Longrightarrow> List.map_filter f ts = []"
  by (induction ts) (auto simp: List.map_filter_def)

lemma schedule_timer_requests:
  assumes "b < length (bstore c)"
  shows "timer_requests (schedule_bucket_request tb b c) = timer_requests c" "qos_value (schedule_bucket_request tb b c) = qos_value c"
proof -
  obtain ts where ts: "timers (schedule_bucket_request tb b c) = timers c @ ts" "\<forall>e \<in> set ts. \<exists>t p. e = ScheduleBucket t b p"
    "qos_value (schedule_bucket_request tb b c) = qos_value c"
    using schedule_bucket_result [OF assms, of tb] by blast
  have "List.map_filter timer_request ts = []" by (rule map_filter_none) (use ts(2) in auto)
  then show "timer_requests (schedule_bucket_request tb b c) = timer_requests c" using ts(1) by (simp add: timer_requests_def map_filter_append)
  show "qos_value (schedule_bucket_request tb b c) = qos_value c" by (rule ts(3))
qed

lemma limit_task_timer_requests:
  assumes "b < length (bstore c)"
  shows "timer_requests (limit_task tb r b n c) = timer_requests c" "qos_value (limit_task tb r b n c) = qos_value c"
  using schedule_timer_requests [of b "bucket_add b (r, n) c" tb] assms by (simp_all add: limit_task_def bucket_add_def timer_requests_def)

definition timed_credit :: "'b consumer \<Rightarrow> int" where
  "timed_credit c = qos_value c - int (length (timer_requests c))"

lemma handler_credit:
  assumes "consumer_ok c"
  shows "timed_credit (task_message_handler tb m c) = timed_credit c"
proof (cases "dropped m c")
  case True
  then show ?thesis by (simp add: task_message_handler_def Let_def timed_credit_def timer_requests_def)
next
  case False
  then show ?thesis
  proof (cases rule: handler_cases [where tb = tb])
    case (timed t e c1)
    show ?thesis unfolding timed(4) using timed(2)
      by (simp add: timed_credit_def timer_requests_def map_filter_append List.map_filter_def)
  next
    case (limited b c1)
    note f = convert_eta_frame [OF limited(1)]
    have "b < length (bstore c1)" using assms get_bucket_mem [OF limited(2)] f(1) by (simp add: consumer_ok_def buckets_ok_def)
    from limit_task_timer_requests [OF this] show ?thesis unfolding limited(3) using f by (simp add: timed_credit_def timer_requests_def)
  next
    case (direct c1)
    show ?thesis unfolding direct(2) using convert_eta_frame [OF direct(1)] by (simp add: timed_credit_def timer_requests_def)
  qed
qed

lemma fire_credit:
  assumes "consumer_ok c" and "i < length (timers c)"
  shows "timed_credit (fire tb i c) = timed_credit c"
proof -
  define c0 where "c0 = c\<lparr>timers := take i (timers c) @ drop (Suc i) (timers c)\<rparr>"
  have f: "fire tb i c = run_timer tb (timers c ! i) c0" using assms(2) by (simp add: fire_def c0_def)
  have "length (timer_requests c) = size (mset (timer_requests c))" by simp
  also have "\<dots> = length (timer_requests c0) + (case timer_request (timers c ! i) of None \<Rightarrow> 0 | Some r \<Rightarrow> 1)"
    using take_off_timer [OF assms(2), of timer_request] by (simp add: timer_requests_def c0_def split: option.splits)
  finally have len: "length (timer_requests c) = length (timer_requests c0) + (case timer_request (timers c ! i) of None \<Rightarrow> 0 | Some r \<Rightarrow> 1)" .
  have q: "qos_value c0 = qos_value c" "length (bstore c0) = length (bstore c)" by (simp_all add: c0_def)
  note b = timer_bucket_ok [OF assms(1) nth_mem [OF assms(2)]]
  show ?thesis
  proof (cases "timers c ! i")
    case (ApplyEta t r)
    then show ?thesis using f len q by (simp add: timed_credit_def apply_eta_task_def timer_requests_def)
  next
    case (LimitPostEta t r b' n)
    then have "b' < length (bstore (c0\<lparr>qos_value := qos_value c0 - 1\<rparr>))" using b q by simp
    from limit_task_timer_requests [OF this, of tb r n] show ?thesis using LimitPostEta f len q
      by (simp add: timed_credit_def limit_post_eta_eq timer_requests_def)
  next
    case (ScheduleBucket t b' p)
    then have "b' < length (bstore c0)" using b q by simp
    from schedule_timer_requests [OF this, of tb] show ?thesis using ScheduleBucket f len q by (simp add: timed_credit_def)
  qed
qed

lemma reset_credit: "timed_credit (reset_rate_limits tb tasks c) = timed_credit c"
  by (induction tb tasks c rule: reset_rate_limits.induct) (auto simp: timed_credit_def timer_requests_def split: option.splits)

text \<open>
  the prefetch count makes room for exactly the requests that wait for their start time. Every step other than the loss of the connection changes the
  prefetch count by the change in the number of such requests.
\<close>

theorem prefetch_follows_timed_requests:
  assumes "reach new_consumer (consumer_step tb) c" and "consumer_step tb c e c'" and "e \<noteq> Close"
  shows "qos_value c' - qos_value c = int (length (timer_requests c')) - int (length (timer_requests c))"
proof -
  have ok: "consumer_ok c" using intake.inv_reach [OF assms(1)] by simp
  from assms(2) have "timed_credit c' = timed_credit c"
    by (cases rule: consumer_step.cases) (use assms(3) handler_credit [OF ok] fire_credit [OF ok] reset_credit in auto)
  then show ?thesis by (simp add: timed_credit_def)
qed

theorem prefetch_follows_timed_requests_witness:
  "qos_value (task_message_handler sample_supply (sample_incoming 3 (EtaAt 50)) sample_limited) = qos_value sample_limited + 1"
proof -
  have "i_req (sample_incoming 3 (EtaAt 50)) \<notin># requests_held sample_limited" by code_simp
  then have "consumer_step sample_supply sample_limited (Receive (sample_incoming 3 (EtaAt 50)))
      (task_message_handler sample_supply (sample_incoming 3 (EtaAt 50)) sample_limited)" by (rule receive)
  from prefetch_follows_timed_requests [OF sample_limited_reach this]
  have "qos_value (task_message_handler sample_supply (sample_incoming 3 (EtaAt 50)) sample_limited) - qos_value sample_limited =
    int (length (timer_requests (task_message_handler sample_supply (sample_incoming 3 (EtaAt 50)) sample_limited))) - int (length (timer_requests sample_limited))"
    by simp
  moreover have "length (timer_requests (task_message_handler sample_supply (sample_incoming 3 (EtaAt 50)) sample_limited)) = 1"
    "length (timer_requests sample_limited) = 0" by code_simp+
  ultimately show ?thesis by simp
qed

datatype bucket_op = Offer wreq | Look

fun bucket_ops :: "'b token_supply \<Rightarrow> nat \<Rightarrow> bucket_op list \<Rightarrow> 'b consumer \<Rightarrow> 'b consumer" where
  "bucket_ops tb b [] c = c"
| "bucket_ops tb b (Offer r # ops) c = bucket_ops tb b ops (limit_task tb r b 1 c)"
| "bucket_ops tb b (Look # ops) c = bucket_ops tb b ops (schedule_bucket_request tb b c)"

lemma schedule_fifo:
  assumes "b < length (bstore c)"
  shows "\<exists>moved. handled (schedule_bucket_request tb b c) = handled c @ moved \<and>
    moved @ map fst (bcontents (bstore (schedule_bucket_request tb b c) ! b)) = map fst (bcontents (bstore c ! b)) \<and>
    length (bstore (schedule_bucket_request tb b c)) = length (bstore c)"
proof -
  obtain moved w where "bcontents (bstore c ! b) = moved @ w" "handled (schedule_bucket_request tb b c) = handled c @ map fst moved"
    "bcontents (bstore (schedule_bucket_request tb b c) ! b) = w" "length (bstore (schedule_bucket_request tb b c)) = length (bstore c)"
    using schedule_bucket_result [OF assms, of tb] by blast
  then show ?thesis by (intro exI [of _ "map fst moved"]) simp
qed

text \<open>
  requests for a task with a rate limit are handed to the pool in the order in which they came, whenever tokens run out and timers fire: what has been handed over
  followed by what waits is what waited before followed by the new requests.
\<close>

theorem rate_limited_in_order:
  assumes "b < length (bstore c)"
  shows "\<exists>moved. handled (bucket_ops tb b ops c) = handled c @ moved \<and>
    moved @ map fst (bcontents (bstore (bucket_ops tb b ops c) ! b)) = map fst (bcontents (bstore c ! b)) @ [r. Offer r \<leftarrow> ops]"
  using assms
proof (induction tb b ops c rule: bucket_ops.induct)
  case (1 tb b c)
  then show ?case by simp
next
  case (2 tb b r ops c)
  let ?c = "bucket_add b (r, 1) c"
  note a = bucket_add_result [OF 2(2), where e = "(r, 1)"]
  have b: "b < length (bstore ?c)" using 2(2) a(2) by simp
  obtain m1 where m1: "handled (limit_task tb r b 1 c) = handled c @ m1" "length (bstore (limit_task tb r b 1 c)) = length (bstore c)"
    "m1 @ map fst (bcontents (bstore (limit_task tb r b 1 c) ! b)) = map fst (bcontents (bstore c ! b)) @ [r]"
    using schedule_fifo [OF b, of tb] a by (auto simp: limit_task_def)
  obtain m2 where "handled (bucket_ops tb b ops (limit_task tb r b 1 c)) = handled (limit_task tb r b 1 c) @ m2"
    "m2 @ map fst (bcontents (bstore (bucket_ops tb b ops (limit_task tb r b 1 c)) ! b)) =
     map fst (bcontents (bstore (limit_task tb r b 1 c) ! b)) @ [r. Offer r \<leftarrow> ops]"
    using 2(1,2) m1(2) by auto
  then show ?case using m1 by (intro exI [of _ "m1 @ m2"]) simp
next
  case (3 tb b ops c)
  obtain m1 where m1: "handled (schedule_bucket_request tb b c) = handled c @ m1" "length (bstore (schedule_bucket_request tb b c)) = length (bstore c)"
    "m1 @ map fst (bcontents (bstore (schedule_bucket_request tb b c) ! b)) = map fst (bcontents (bstore c ! b))"
    using schedule_fifo [OF 3(2), of tb] by auto
  obtain m2 where "handled (bucket_ops tb b ops (schedule_bucket_request tb b c)) = handled (schedule_bucket_request tb b c) @ m2"
    "m2 @ map fst (bcontents (bstore (bucket_ops tb b ops (schedule_bucket_request tb b c)) ! b)) =
     map fst (bcontents (bstore (schedule_bucket_request tb b c) ! b)) @ [r. Offer r \<leftarrow> ops]"
    using 3(1,2) m1(2) by auto
  then show ?case using m1(1) m1(3) [symmetric] by (intro exI [of _ "m1 @ m2"]) simp
qed

theorem rate_limited_in_order_witness:
  "\<exists>moved. handled (bucket_ops sample_supply 0 [Look, Offer (i_req (sample_incoming 5 NoEta))] sample_limited) = handled sample_limited @ moved \<and>
     moved @ map fst (bcontents (bstore (bucket_ops sample_supply 0 [Look, Offer (i_req (sample_incoming 5 NoEta))] sample_limited) ! 0)) =
     [i_req (sample_incoming 2 NoEta), i_req (sample_incoming 5 NoEta)]"
proof -
  have b: "0 < length (bstore sample_limited)" and w: "map fst (bcontents (bstore sample_limited ! 0)) = [i_req (sample_incoming 2 NoEta)]" by code_simp+
  from rate_limited_in_order [OF b, of sample_supply "[Look, Offer (i_req (sample_incoming 5 NoEta))]"] w show ?thesis by simp
qed

text \<open>
  a request whose start time cannot be converted is rejected and run all the same. The handler of the conversion error rejects the message and goes on as if there
  were no start time.
\<close>

theorem unconvertible_eta_runs_rejected:
  assumes "i_eta m = EtaUnconvertible" and "\<not> dropped m c" and "disable_rate_limits c \<or> get_bucket (rq_name (i_req m)) c = None"
  shows "handled (task_message_handler tb m c) = handled c @ [i_req m] \<and> Rejected (i_req m) False \<in> set (notices (task_message_handler tb m c))"
  using assms by (auto simp: task_message_handler_def convert_eta_def req_reject_def Let_def get_bucket_def)

theorem unconvertible_eta_runs_rejected_witness:
  "handled (task_message_handler sample_supply (sample_incoming 1 EtaUnconvertible) sample_consumer) = [i_req (sample_incoming 1 EtaUnconvertible)]"
proof -
  have "\<not> dropped (sample_incoming 1 EtaUnconvertible) sample_consumer" "get_bucket (rq_name (i_req (sample_incoming 1 EtaUnconvertible))) sample_consumer = None"
    "handled sample_consumer = []" by code_simp+
  then show ?thesis
    using unconvertible_eta_runs_rejected [of "sample_incoming 1 EtaUnconvertible" sample_consumer sample_supply] by (simp add: sample_incoming_def)
qed

text \<open>
  requests that wait for the tokens of a replaced rate limit survive the loss of the connection. A change of rate limits makes new buckets; requests waiting in the old one
  are known to its timer only, and the clean-up empties the buckets of the table alone. Their messages are delivered again on the new connection, and
  the old requests run as well.
\<close>

theorem replaced_bucket_survives_close:
  assumes "consumer_ok c" and "b < length (bstore c)" and "\<forall>n'. get_bucket n' c = Some b \<longrightarrow> n' = n" and "dict_wf (task_buckets c)"
  shows "bcontents (bstore (on_close (reset_rate_limits tb [(n, limit)] c)) ! b) = bcontents (bstore c ! b)"
proof -
  let ?c = "reset_rate_limits tb [(n, limit)] c"
  have no: "Some b \<notin> set (vals (dict_set n v (task_buckets c)))" if "v \<noteq> Some b" for v
  proof
    assume "Some b \<in> set (vals (dict_set n v (task_buckets c)))"
    then obtain k where "(k, Some b) \<in> set (dict_set n v (task_buckets c))" by auto
    then have "dict_get (dict_set n v (task_buckets c)) k = Some (Some b)" using assms(4) by (simp add: distinct_update)
    then show False using that assms(3) by (auto simp: dict_simps get_bucket_def split: if_splits)
  qed
  have "Some b \<notin> set (vals (task_buckets ?c))" "bstore ?c ! b = bstore c ! b" "b < length (bstore ?c)"
    using no [of None] no [of "Some (length (bstore c))"] assms(2) by (auto simp: nth_append bucket_for_task_def)
  then show ?thesis unfolding on_close_fields by (simp only: bucket_clear_result if_False)
qed

theorem replaced_bucket_survives_close_witness:
  "bcontents (bstore (on_close (reset_rate_limits sample_supply [(''proj.add'', 7)] sample_limited)) ! 0) = [(i_req (sample_incoming 2 NoEta), 1)]"
proof -
  have "consumer_ok sample_limited" using intake.inv_reach [OF sample_limited_reach] by simp
  moreover have "0 < length (bstore sample_limited)" "dict_wf (task_buckets sample_limited)" "task_buckets sample_limited = [(''proj.add'', Some 0)]"
    "bcontents (bstore sample_limited ! 0) = [(i_req (sample_incoming 2 NoEta), 1)]" by code_simp+
  ultimately show ?thesis
    using replaced_bucket_survives_close [of sample_limited 0 "''proj.add''" sample_supply 7] by (simp add: get_bucket_def split: if_splits)
qed

text \<open>
  every received message is dealt with in exactly one way, and only a message of a registered task reaches its strategy; one that cannot be
  decoded is acknowledged.
\<close>

theorem message_reaches_strategy_iff:
  "on_task_received known strategy h = Strategy n \<longleftrightarrow>
     (h = NewTask n \<or> h = NoTaskHeader (OldTask n)) \<and> known n \<and> strategy n = Accepted"
  by (auto simp: on_task_received_def Let_def split: headers_form.splits payload.splits if_splits strategy_result.splits)

end
