(* ===== verification/Prefetch.thy ===== *)
theory Prefetch
  imports Prelude
begin

text \<open>
  The prefetch count of the consumer, \<open>celery.worker.consumer.consumer\<close>: it follows the size of the pool, is reduced when the connection is lost while
  tasks are running, and is restored step by step as messages are acknowledged.
\<close>

section \<open>State and operations\<close>

record prefetch =
  num_processes :: int
  prefetch_multiplier :: int
  initial_prefetch_count :: int
  qos_count :: int
  maximum_prefetch_restored :: bool
  reduction_enabled :: bool
  qos_global :: "bool option"

definition max_prefetch_count :: "prefetch \<Rightarrow> int" where
  "max_prefetch_count p = num_processes p * prefetch_multiplier p"

definition new_prefetch_count :: "prefetch \<Rightarrow> int" where
  "new_prefetch_count p = qos_count p + prefetch_multiplier p"

definition update_qos_eventually :: "int \<Rightarrow> prefetch \<Rightarrow> prefetch" where
  "update_qos_eventually index p =
     (let d = \<bar>index\<bar> * prefetch_multiplier p in
      p\<lparr>qos_count := (if index < 0 then qos_count p - d else qos_count p + d)\<rparr>)"

definition update_prefetch_count :: "int \<Rightarrow> prefetch \<Rightarrow> prefetch" where
  "update_prefetch_count index p =
     (if initial_prefetch_count p = 0 \<or> num_processes p = 0 then p
      else update_qos_eventually index (p\<lparr>initial_prefetch_count := num_processes p * prefetch_multiplier p\<rparr>))"

text \<open>The part of \<open>on_connection_error_after_connected\<close> about the prefetch count; \<open>active\<close> is the number of running requests.\<close>

definition reduce_prefetch :: "int \<Rightarrow> prefetch \<Rightarrow> prefetch" where
  "reduce_prefetch active p =
     (if reduction_enabled p
      then if qos_global p = Some False
        then p\<lparr>initial_prefetch_count := max_prefetch_count p, maximum_prefetch_restored := True\<rparr>
        else (let n = max (prefetch_multiplier p) (max_prefetch_count p - active * prefetch_multiplier p) in
              p\<lparr>initial_prefetch_count := n, maximum_prefetch_restored := (n = max_prefetch_count p)\<rparr>)
      else p)"

text \<open>On the new connection the task consumer starts with the initial prefetch count.\<close>

definition start_tasks :: "prefetch \<Rightarrow> prefetch" where
  "start_tasks p = p\<lparr>qos_count := initial_prefetch_count p\<rparr>"

definition restore_prefetch :: "prefetch \<Rightarrow> prefetch" where
  "restore_prefetch p =
     (if \<not> reduction_enabled p \<or> maximum_prefetch_restored p then p
      else (let n = min (max_prefetch_count p) (new_prefetch_count p) in
            p\<lparr>qos_count := n, initial_prefetch_count := n, maximum_prefetch_restored := (n = max_prefetch_count p)\<rparr>))"

text \<open>
  Restoration is attached to the acknowledgement of a message under this condition, tested when the message arrives. Messages here are
  acknowledged one after the other, each before the next one arrives.
\<close>

definition restores_on_ack :: "int \<Rightarrow> prefetch \<Rightarrow> bool" where
  "restores_on_ack restart_count p \<longleftrightarrow>
     \<not> maximum_prefetch_restored p \<and> restart_count > 0 \<and> new_prefetch_count p \<le> max_prefetch_count p"

definition on_ack :: "int \<Rightarrow> prefetch \<Rightarrow> prefetch" where
  "on_ack restart_count p = (if restores_on_ack restart_count p then restore_prefetch p else p)"

section \<open>Restoring\<close>

text \<open>The pool and the settings, which none of the operations changes.\<close>

definition same_setup :: "prefetch \<Rightarrow> prefetch \<Rightarrow> bool" where
  "same_setup p p' \<longleftrightarrow> num_processes p' = num_processes p \<and> prefetch_multiplier p' = prefetch_multiplier p \<and> reduction_enabled p' = reduction_enabled p"

lemma on_ack_setup: "same_setup p ((on_ack rc ^^ k) p)"
  by (induction k) (auto simp: same_setup_def on_ack_def restore_prefetch_def Let_def)

text \<open>The count is a number of processes times the multiplier, up to that of the whole pool, and restored when it is all of it.\<close>

definition at_level :: "int \<Rightarrow> prefetch \<Rightarrow> bool" where
  "at_level k p \<longleftrightarrow> reduction_enabled p \<and> 0 < prefetch_multiplier p \<and> qos_count p = min k (num_processes p) * prefetch_multiplier p \<and>
     (maximum_prefetch_restored p \<longleftrightarrow> num_processes p \<le> k)"

lemma on_ack_level:
  assumes "at_level k p" and "rc > 0"
  shows "at_level (k + 1) (on_ack rc p)"
proof (cases "num_processes p \<le> k")
  case True
  then show ?thesis using assms by (auto simp: at_level_def on_ack_def restores_on_ack_def min_def)
next
  case False
  define mu where "mu = prefetch_multiplier p"
  have q: "qos_count p = k * mu" "\<not> maximum_prefetch_restored p" "mu > 0" using assms(1) False by (simp_all add: at_level_def mu_def min_def)
  have le: "(k + 1) * mu \<le> num_processes p * mu" using False q(3) by (intro mult_right_mono) auto
  have eq: "(k + 1) * mu = num_processes p * mu \<longleftrightarrow> num_processes p \<le> k + 1" using False q(3) by auto
  have "on_ack rc p = p\<lparr>qos_count := (k + 1) * mu, initial_prefetch_count := (k + 1) * mu, maximum_prefetch_restored := ((k + 1) * mu = num_processes p * mu)\<rparr>"
    using q assms le
    by (simp add: on_ack_def restores_on_ack_def restore_prefetch_def new_prefetch_count_def max_prefetch_count_def mu_def at_level_def Let_def algebra_simps)
  then show ?thesis using assms(1) q(3) False eq by (simp add: at_level_def mu_def min_def)
qed

lemma on_ack_iterate: "at_level k p \<Longrightarrow> rc > 0 \<Longrightarrow> at_level (k + int n) ((on_ack rc ^^ n) p)"
proof (induction n)
  case (Suc n)
  then show ?case using on_ack_level [of "k + int n" "(on_ack rc ^^ n) p" rc] by (simp add: algebra_simps)
qed simp

lemma reduced_level:
  assumes "reduction_enabled p" "qos_global p \<noteq> Some False" "0 < prefetch_multiplier p" "0 < num_processes p" "0 \<le> active"
  shows "at_level (max 1 (num_processes p - active)) (start_tasks (reduce_prefetch active p))"
proof -
  define mu where "mu = prefetch_multiplier p"
  have "max mu (num_processes p * mu - active * mu) = max 1 (num_processes p - active) * mu"
    using assms(3) by (simp add: mu_def max_def left_diff_distrib [symmetric])
  moreover have "max 1 (num_processes p - active) \<le> num_processes p" using assms(4,5) by simp
  moreover have "max 1 (num_processes p - active) * mu = num_processes p * mu \<longleftrightarrow> num_processes p \<le> max 1 (num_processes p - active)"
    using assms(3-5) by (auto simp: mu_def)
  ultimately show ?thesis using assms
    by (simp add: at_level_def start_tasks_def reduce_prefetch_def max_prefetch_count_def Let_def mu_def [symmetric] min_absorb1)
qed

section \<open>Properties\<close>

text \<open>
  C40: the prefetch count is restored by as many acknowledged messages as there were running tasks. After the loss of a connection with some number of running requests, the count is
  that of the idle processes, but at least one; each acknowledgement adds one process, never beyond the size of the pool; and after as
  many acknowledgements as there were running requests it is the maximum again.
\<close>

theorem prefetch_restored:
  assumes "reduction_enabled p" "qos_global p \<noteq> Some False" "0 < prefetch_multiplier p" "0 < num_processes p" "0 \<le> active" "rc > 0"
  shows "qos_count ((on_ack rc ^^ n) (start_tasks (reduce_prefetch active p))) =
      min (max 1 (num_processes p - active) + int n) (num_processes p) * prefetch_multiplier p \<and>
    (int n \<ge> active \<longrightarrow> maximum_prefetch_restored ((on_ack rc ^^ n) (start_tasks (reduce_prefetch active p))) \<and>
      qos_count ((on_ack rc ^^ n) (start_tasks (reduce_prefetch active p))) = max_prefetch_count p)"
proof -
  let ?p = "start_tasks (reduce_prefetch active p)"
  have s: "num_processes ((on_ack rc ^^ n) ?p) = num_processes p" "prefetch_multiplier ((on_ack rc ^^ n) ?p) = prefetch_multiplier p"
    using on_ack_setup [where p = ?p and rc = rc and k = n] by (auto simp: same_setup_def start_tasks_def reduce_prefetch_def Let_def)
  from on_ack_iterate [OF reduced_level [OF assms(1-5)] assms(6), of n] s show ?thesis
    by (auto simp: at_level_def max_prefetch_count_def min_absorb2)
qed

definition sample_prefetch :: prefetch where
  "sample_prefetch = \<lparr>num_processes = 4, prefetch_multiplier = 2, initial_prefetch_count = 8, qos_count = 8, maximum_prefetch_restored = True,
     reduction_enabled = True, qos_global = None\<rparr>"

theorem prefetch_restored_witness:
  "qos_count ((on_ack 1 ^^ 1) (start_tasks (reduce_prefetch 3 sample_prefetch))) = 4 \<and>
   qos_count ((on_ack 1 ^^ 3) (start_tasks (reduce_prefetch 3 sample_prefetch))) = 8"
proof -
  have p: "reduction_enabled sample_prefetch" "qos_global sample_prefetch \<noteq> Some False" "0 < prefetch_multiplier sample_prefetch" "0 < num_processes sample_prefetch"
    "(0::int) \<le> 3" "(1::int) > 0" by (simp_all add: sample_prefetch_def)
  from prefetch_restored [OF p, of 1] prefetch_restored [OF p, of 3] show ?thesis by (simp add: sample_prefetch_def)
qed

text \<open>
  the prefetch count follows the pool. If the count is that of the pool, it is so again after the pool has grown or shrunk by some number of processes,
  unless prefetching is unlimited or the pool is empty afterwards.
\<close>

theorem prefetch_follows_pool:
  assumes "qos_count p = num_processes p * prefetch_multiplier p" and "initial_prefetch_count p \<noteq> 0" and "num_processes p + n \<noteq> 0"
  shows "qos_count (update_prefetch_count n (p\<lparr>num_processes := num_processes p + n\<rparr>)) = (num_processes p + n) * prefetch_multiplier p"
  using assms by (simp add: update_prefetch_count_def update_qos_eventually_def Let_def algebra_simps)

theorem prefetch_follows_pool_witness:
  "qos_count (update_prefetch_count (-1) (sample_prefetch\<lparr>num_processes := 3\<rparr>)) = 6"
  using prefetch_follows_pool [of sample_prefetch "-1"] by (simp add: sample_prefetch_def)

end
