(* ===== verification/Results.thy ===== *)
theory Results
  imports States "HOL-Library.Multiset"
begin

text \<open>
  Result objects, \<open>celery.result\<close>: results of single tasks, of groups and of tasks run locally, with their parents; their
  form as tuples for storage, their states, errors of parents, waiting for all members of a group, sets of results, and the traversal of the
  results a task left behind.

  A result object is a tree; what the backend knows about a task id is an argument: its state and the value stored for it. Waiting for one result is an argument of the
  functions that wait for many (it is modelled with the backend).
\<close>

section \<open>Result objects\<close>

datatype 'v result_obj =
    AsyncResult (r_id: string) (r_parent: "'v result_obj option")
  | GroupResult (g_id: "string option") (g_results: "'v result_obj list") (r_parent: "'v result_obj option")
  | EagerResult (r_id: string) (e_value: 'v) (e_state: string)

text \<open>Parents are attributes of every result; results of local runs have none.\<close>

fun parent_of :: "'v result_obj \<Rightarrow> 'v result_obj option" where
  "parent_of (AsyncResult i p) = p"
| "parent_of (GroupResult i rs p) = p"
| "parent_of (EagerResult i v s) = None"

text \<open>A group without id and members is false, every other result is true.\<close>

fun res_true :: "'v result_obj \<Rightarrow> bool" where
  "res_true (GroupResult i rs p) = ((i \<noteq> None \<and> i \<noteq> Some []) \<or> rs \<noteq> [])"
| "res_true _ = True"

section \<open>Results as tuples\<close>

text \<open>
  The tuple form: an id, a parent and the members of a group. A parent that is false is put into the tuple as it is. Old backends stored
  the bare id, or the object itself.
\<close>

datatype 'v res_tuple =
    RTuple "string option" "'v parent_part" "'v res_tuple list option"
  | RBare "string option" "'v res_tuple list option"
  | RObject "'v result_obj"
and 'v parent_part = NoParent | ParentTuple "'v res_tuple" | FalseParent "'v result_obj"

fun as_tuple :: "'v result_obj \<Rightarrow> 'v res_tuple" and parent_tuple :: "'v result_obj option \<Rightarrow> 'v parent_part" where
  "as_tuple (AsyncResult i p) = RTuple (Some i) (parent_tuple p) None"
| "as_tuple (GroupResult i rs p) = RTuple i (parent_tuple p) (Some (map as_tuple rs))"
| "as_tuple (EagerResult i v s) = RTuple (Some i) NoParent None"
| "parent_tuple None = NoParent"
| "parent_tuple (Some r) = (if res_true r then ParentTuple (as_tuple r) else FalseParent r)"

text \<open>A missing id is a \<open>ValueError\<close> of the constructor of single results.\<close>

fun result_from_tuple :: "'v res_tuple \<Rightarrow> 'v result_obj result" and parent_from_tuple :: "'v parent_part \<Rightarrow> 'v result_obj option result"
  and results_from_tuples :: "'v res_tuple list \<Rightarrow> 'v result_obj list result" where
  "result_from_tuple (RObject r) = Inr r"
| "result_from_tuple (RTuple i p None) = res_bind (parent_from_tuple p) (\<lambda>p. case i of None \<Rightarrow> Inl ValueError | Some i \<Rightarrow> Inr (AsyncResult i p))"
| "result_from_tuple (RTuple i p (Some ns)) = res_bind (parent_from_tuple p) (\<lambda>p. res_bind (results_from_tuples ns) (\<lambda>rs. Inr (GroupResult i rs p)))"
| "result_from_tuple (RBare i None) = (case i of None \<Rightarrow> Inl ValueError | Some i \<Rightarrow> Inr (AsyncResult i None))"
| "result_from_tuple (RBare i (Some ns)) = res_bind (results_from_tuples ns) (\<lambda>rs. Inr (GroupResult i rs None))"
| "parent_from_tuple NoParent = Inr None"
| "parent_from_tuple (ParentTuple t) = res_bind (result_from_tuple t) (\<lambda>r. Inr (Some r))"
| "parent_from_tuple (FalseParent r) = Inr (Some r)"
| "results_from_tuples [] = Inr []"
| "results_from_tuples (t # ts) = res_bind (result_from_tuple t) (\<lambda>r. res_bind (results_from_tuples ts) (\<lambda>rs. Inr (r # rs)))"

text \<open>\<open>as_list\<close> is defined for single results only.\<close>

fun as_list :: "'v result_obj \<Rightarrow> string list result" where
  "as_list (AsyncResult i None) = Inr [i]"
| "as_list (AsyncResult i (Some p)) = res_bind (as_list p) (\<lambda>ids. Inr (i # ids))"
| "as_list (EagerResult i v s) = Inr [i]"
| "as_list (GroupResult i rs p) = Inl AttributeError"

section \<open>States\<close>

record 'v meta =
  status :: string
  outcome :: 'v

type_synonym 'v backend_view = "string \<Rightarrow> 'v meta"

fun res_state :: "'v backend_view \<Rightarrow> 'v result_obj \<Rightarrow> string" where
  "res_state B (AsyncResult i p) = status (B i)"
| "res_state B (EagerResult i v s) = s"
| "res_state B (GroupResult i rs p) = []"

fun ready :: "'v backend_view \<Rightarrow> 'v result_obj \<Rightarrow> bool" where
  "ready B (AsyncResult i p) = (status (B i) \<in> READY_STATES)"
| "ready B (EagerResult i v s) = True"
| "ready B (GroupResult i rs p) = (\<forall>r \<in> set rs. ready B r)"

fun successful :: "'v backend_view \<Rightarrow> 'v result_obj \<Rightarrow> bool" where
  "successful B (AsyncResult i p) = (status (B i) = SUCCESS)"
| "successful B (EagerResult i v s) = (s = SUCCESS)"
| "successful B (GroupResult i rs p) = (\<forall>r \<in> set rs. successful B r)"

fun failed :: "'v backend_view \<Rightarrow> 'v result_obj \<Rightarrow> bool" where
  "failed B (AsyncResult i p) = (status (B i) = FAILURE)"
| "failed B (EagerResult i v s) = (s = FAILURE)"
| "failed B (GroupResult i rs p) = (\<exists>r \<in> set rs. failed B r)"

definition set_waiting :: "'v backend_view \<Rightarrow> 'v result_obj list \<Rightarrow> bool" where
  "set_waiting B rs \<longleftrightarrow> (\<exists>r \<in> set rs. \<not> ready B r)"

definition completed_count :: "'v backend_view \<Rightarrow> 'v result_obj list \<Rightarrow> nat" where
  "completed_count B rs = sum_list (map (\<lambda>r. of_bool (successful B r)) rs)"

text \<open>\<open>maybe_throw\<close> raises the stored exception of a task in one of the states that propagate; a group asks its members in order.\<close>

datatype ('v) thrown = Thrown string 'v

fun maybe_throw :: "'v backend_view \<Rightarrow> 'v result_obj \<Rightarrow> 'v thrown option" where
  "maybe_throw B (AsyncResult i p) = (if status (B i) \<in> PROPAGATE_STATES then Some (Thrown i (outcome (B i))) else None)"
| "maybe_throw B (EagerResult i v s) = (if s \<in> PROPAGATE_STATES then Some (Thrown i v) else None)"
| "maybe_throw B (GroupResult i rs p) = (case concat (map (\<lambda>r. case maybe_throw B r of None \<Rightarrow> [] | Some t \<Rightarrow> [t]) rs) of [] \<Rightarrow> None | t # _ \<Rightarrow> Some t)"

fun parents :: "'v result_obj \<Rightarrow> 'v result_obj list" where
  "parents (AsyncResult i None) = []"
| "parents (AsyncResult i (Some p)) = (if res_true p then p # parents p else [])"
| "parents (GroupResult i rs None) = []"
| "parents (GroupResult i rs (Some p)) = (if res_true p then p # parents p else [])"
| "parents (EagerResult i v s) = []"

definition maybe_reraise_parent_error :: "'v backend_view \<Rightarrow> 'v result_obj \<Rightarrow> 'v thrown option" where
  "maybe_reraise_parent_error B r = (case List.map_filter (maybe_throw B) (rev (parents r)) of [] \<Rightarrow> None | t # _ \<Rightarrow> Some t)"

text \<open>The ids whose results a call of \<open>forget\<close> deletes, in order: parents first.\<close>

fun forget :: "'v result_obj \<Rightarrow> string list" where
  "forget (AsyncResult i None) = [i]"
| "forget (AsyncResult i (Some p)) = (if res_true p then forget p else []) @ [i]"
| "forget (EagerResult i v s) = []"
| "forget (GroupResult i rs p) = concat (map forget rs)"

section \<open>Sets of results\<close>

text \<open>Equality of result objects: single results by id, groups by id, members and parents.\<close>

fun res_eq :: "'v result_obj \<Rightarrow> 'v result_obj \<Rightarrow> bool" and res_list_eq :: "'v result_obj list \<Rightarrow> 'v result_obj list \<Rightarrow> bool"
  and res_opt_eq :: "'v result_obj option \<Rightarrow> 'v result_obj option \<Rightarrow> bool" where
  "res_eq (GroupResult i rs p) (GroupResult j ss q) = (i = j \<and> res_list_eq rs ss \<and> res_opt_eq p q)"
| "res_eq (GroupResult i rs p) _ = False"
| "res_eq _ (GroupResult j ss q) = False"
| "res_eq a b = (r_id a = r_id b)"
| "res_list_eq [] [] = True"
| "res_list_eq (a # as) (b # bs) = (res_eq a b \<and> res_list_eq as bs)"
| "res_list_eq _ _ = False"
| "res_opt_eq None None = True"
| "res_opt_eq (Some a) (Some b) = res_eq a b"
| "res_opt_eq _ _ = False"

definition member :: "'v result_obj \<Rightarrow> 'v result_obj list \<Rightarrow> bool" where
  "member r rs \<longleftrightarrow> (\<exists>x \<in> set rs. res_eq r x)"

definition set_add :: "'v result_obj \<Rightarrow> 'v result_obj list \<Rightarrow> 'v result_obj list" where
  "set_add r rs = (if member r rs then rs else rs @ [r])"

fun set_remove :: "'v result_obj \<Rightarrow> 'v result_obj list \<Rightarrow> 'v result_obj list result" where
  "set_remove r [] = Inl KeyError"
| "set_remove r (x # xs) = (if res_eq x r then Inr xs else res_bind (set_remove r xs) (\<lambda>ys. Inr (x # ys)))"

definition set_discard :: "'v result_obj \<Rightarrow> 'v result_obj list \<Rightarrow> 'v result_obj list" where
  "set_discard r rs = (case set_remove r rs of Inl _ \<Rightarrow> rs | Inr ys \<Rightarrow> ys)"

definition set_update :: "'v result_obj list \<Rightarrow> 'v result_obj list \<Rightarrow> 'v result_obj list" where
  "set_update new rs = foldl (\<lambda>rs r. set_add r rs) rs new"

section \<open>Waiting for all results\<close>

text \<open>
  \<open>join\<close>: each result is waited for with what is left of the time. \<open>fetch\<close> waits for one result, given the time of the clock and the
  time-out; it gives the value or the exception, and the time afterwards.
\<close>

datatype ('v) wait_error = WaitTimeout | WaitThrown 'v

type_synonym 'v fetch = "rat \<Rightarrow> rat option \<Rightarrow> 'v result_obj \<Rightarrow> ('v wait_error + 'v) \<times> rat"

definition remaining_time :: "rat \<Rightarrow> rat option \<Rightarrow> rat \<Rightarrow> rat option" where
  "remaining_time start timeout now = (case timeout of None \<Rightarrow> None | Some t \<Rightarrow> Some (max (t - (now - start)) 0))"

fun join_loop :: "'v fetch \<Rightarrow> rat \<Rightarrow> rat option \<Rightarrow> 'v result_obj list \<Rightarrow> rat \<Rightarrow> ('v wait_error + 'v list) \<times> rat" where
  "join_loop fetch start timeout [] now = (Inr [], now)"
| "join_loop fetch start timeout (r # rs) now = (case fetch now (remaining_time start timeout now) r of
     (Inl e, now') \<Rightarrow> (Inl e, now')
   | (Inr v, now') \<Rightarrow> (case join_loop fetch start timeout rs now' of
       (Inl e, now'') \<Rightarrow> (Inl e, now'')
     | (Inr vs, now'') \<Rightarrow> (Inr (v # vs), now'')))"

definition join :: "'v fetch \<Rightarrow> bool \<Rightarrow> rat option \<Rightarrow> 'v result_obj list \<Rightarrow> rat \<Rightarrow> (exn + ('v wait_error + 'v list)) \<times> rat" where
  "join fetch will_block timeout rs now =
     (if will_block then (Inl RuntimeError, now)
      else (case join_loop fetch now timeout rs now of (r, now') \<Rightarrow> (Inr r, now')))"

fun eager_get :: "bool \<Rightarrow> 'v result_obj \<Rightarrow> 'v thrown + 'v option" where
  "eager_get propagate (EagerResult i v s) =
     (if s = SUCCESS then Inr (Some v)
      else if s \<in> PROPAGATE_STATES then if propagate then Inl (Thrown i v) else Inr (Some v)
      else Inr None)"
| "eager_get propagate _ = Inr None"

section \<open>The results a task left behind\<close>

text \<open>
  \<open>iterdeps\<close> visits the results reachable through the children of ready results, breadth first, with the result each was reached from.
  The children of a group are its members; those of a single result are stored with it. The traversal may never end if children form a cycle, and
  then its value is \<open>None\<close>. A result that is not ready ends it with an error, unless intermediate results are asked for.
\<close>

definition node_children :: "('v result_obj \<Rightarrow> 'v result_obj list) \<Rightarrow> 'v result_obj \<Rightarrow> 'v result_obj list" where
  "node_children ch r = (case r of GroupResult i rs p \<Rightarrow> rs | _ \<Rightarrow> ch r)"

type_synonym 'v visit = "'v result_obj option \<times> 'v result_obj"

partial_function (option) iterdeps_loop :: "('v result_obj \<Rightarrow> bool) \<Rightarrow> ('v result_obj \<Rightarrow> 'v result_obj list) \<Rightarrow> bool \<Rightarrow> 'v visit list \<Rightarrow>
    'v visit list \<Rightarrow> (bool \<times> 'v visit list) option" where
  "iterdeps_loop rdy ch intermediate seen queue = (case queue of
     [] \<Rightarrow> Some (True, rev seen)
   | v # rest \<Rightarrow>
       if rdy (snd v) then iterdeps_loop rdy ch intermediate (v # seen) (rest @ map (\<lambda>c. (Some (snd v), c)) (node_children ch (snd v)))
       else if intermediate then iterdeps_loop rdy ch intermediate (v # seen) rest
       else Some (False, rev (v # seen)))"

definition iterdeps :: "('v result_obj \<Rightarrow> bool) \<Rightarrow> ('v result_obj \<Rightarrow> 'v result_obj list) \<Rightarrow> bool \<Rightarrow> 'v result_obj \<Rightarrow> (bool \<times> 'v visit list) option" where
  "iterdeps rdy ch intermediate r = iterdeps_loop rdy ch intermediate [] [(None, r)]"

section \<open>Properties of result objects\<close>

text \<open>No part of a result is one of a local run.\<close>

fun no_eager :: "'v result_obj \<Rightarrow> bool" and no_eager_opt :: "'v result_obj option \<Rightarrow> bool" where
  "no_eager (AsyncResult i p) = no_eager_opt p"
| "no_eager (GroupResult i rs p) = ((\<forall>r \<in> set rs. no_eager r) \<and> no_eager_opt p)"
| "no_eager (EagerResult i v s) = False"
| "no_eager_opt None = True"
| "no_eager_opt (Some r) = no_eager r"

lemma results_from_tuples_map:
  "(\<And>r. r \<in> set rs \<Longrightarrow> result_from_tuple (as_tuple r) = Inr r) \<Longrightarrow> results_from_tuples (map as_tuple rs) = Inr rs"
  by (induction rs) auto

lemma from_as_tuple:
  fixes r :: "'v result_obj" and o' :: "'v result_obj option"
  shows "no_eager r \<Longrightarrow> result_from_tuple (as_tuple r) = Inr r" and "no_eager_opt o' \<Longrightarrow> parent_from_tuple (parent_tuple o') = Inr o'"
proof (induction r and o' rule: as_tuple_parent_tuple.induct)
  case (2 i rs p)
  then have "results_from_tuples (map as_tuple rs) = Inr rs" by (intro results_from_tuples_map) simp
  with 2 show ?case by simp
qed auto

text \<open>
  storing a result as a tuple and reading it back gives the same result, with all parents and members.
\<close>

theorem result_tuple_roundtrip:
  assumes "no_eager r"
  shows "result_from_tuple (as_tuple r) = Inr r"
  by (rule from_as_tuple(1) [OF assms])

definition sample_group :: "nat result_obj" where
  "sample_group = GroupResult (Some ''g'') [AsyncResult ''a'' None, AsyncResult ''b'' None] (Some (AsyncResult ''first'' None))"

theorem result_tuple_roundtrip_witness:
  "result_from_tuple (as_tuple (AsyncResult ''body'' (Some sample_group))) = Inr (AsyncResult ''body'' (Some sample_group))"
proof -
  have "no_eager (AsyncResult ''body'' (Some sample_group))" by (simp add: sample_group_def)
  then show ?thesis by (rule result_tuple_roundtrip)
qed

fun ancestors :: "'v result_obj \<Rightarrow> 'v result_obj list" where
  "ancestors (AsyncResult i None) = []"
| "ancestors (AsyncResult i (Some p)) = p # ancestors p"
| "ancestors (GroupResult i rs None) = []"
| "ancestors (GroupResult i rs (Some p)) = p # ancestors p"
| "ancestors (EagerResult i v s) = []"

fun is_group :: "'v result_obj \<Rightarrow> bool" where
  "is_group (GroupResult i rs p) = True"
| "is_group _ = False"

text \<open>
  the list of ids of a result and its parents exists exactly if neither the result nor a parent is a group; otherwise asking for it is an
  \<open>AttributeError\<close>. The result of a chord has a group as its parent.
\<close>

theorem as_list_fails_for_groups:
  "as_list r = (if is_group r \<or> (\<exists>p \<in> set (ancestors r). is_group p) then Inl AttributeError
     else Inr (r_id r # map r_id (ancestors r)))"
proof (induction r rule: as_list.induct)
  case (2 i p)
  then show ?case by (cases p) auto
qed auto

fun leaf_ids :: "'v result_obj \<Rightarrow> string list" where
  "leaf_ids (AsyncResult i p) = [i]"
| "leaf_ids (EagerResult i v s) = []"
| "leaf_ids (GroupResult i rs p) = concat (map leaf_ids rs)"

text \<open>
  what the states of a group say. A group that is ready and has not failed is successful, unless one of its tasks was revoked: a
  revoked task is ready, and neither successful nor failed. A successful result is ready.
\<close>

theorem group_states:
  assumes "no_eager r"
  shows "(ready B r \<and> \<not> failed B r \<longrightarrow> successful B r \<or> (\<exists>i \<in> set (leaf_ids r). status (B i) = REVOKED)) \<and> (successful B r \<longrightarrow> ready B r)"
  using assms
proof (induction r)
  case (AsyncResult i p)
  then show ?case by (auto simp: READY_STATES_def state_names)
next
  case (GroupResult i rs p)
  then show ?case by fastforce
qed simp

theorem group_states_witness:
  "\<exists>i \<in> set (leaf_ids sample_group). (if i = ''b'' then REVOKED else SUCCESS) = REVOKED"
proof -
  let ?B = "\<lambda>i. \<lparr>status = (if i = ''b'' then REVOKED else SUCCESS), outcome = 0::nat\<rparr>"
  have "no_eager sample_group" "ready ?B sample_group" "\<not> failed ?B sample_group" "\<not> successful ?B sample_group"
    by (simp_all add: sample_group_def READY_STATES_def state_names)
  then show ?thesis using group_states [of sample_group ?B] by simp
qed

lemma first_of_filter:
  "(case List.map_filter f xs of [] \<Rightarrow> None | t # _ \<Rightarrow> Some t) = Some t \<longleftrightarrow> (\<exists>a x b. xs = a @ x # b \<and> f x = Some t \<and> (\<forall>y \<in> set a. f y = None))"
proof (induction xs)
  case Nil
  then show ?case by (simp add: List.map_filter_def)
next
  case (Cons z xs)
  show ?case
  proof (cases "f z")
    case None
    then have "(case List.map_filter f (z # xs) of [] \<Rightarrow> None | t # _ \<Rightarrow> Some t) = (case List.map_filter f xs of [] \<Rightarrow> None | t # _ \<Rightarrow> Some t)"
      by (simp add: List.map_filter_def)
    moreover have "(\<exists>a x b. z # xs = a @ x # b \<and> f x = Some t \<and> (\<forall>y \<in> set a. f y = None)) \<longleftrightarrow>
        (\<exists>a x b. xs = a @ x # b \<and> f x = Some t \<and> (\<forall>y \<in> set a. f y = None))"
      using None by (auto simp: Cons_eq_append_conv) (metis append_Cons list.set_intros set_ConsD)+
    ultimately show ?thesis using Cons by simp
  next
    case (Some u)
    have "(\<exists>a x b. z # xs = a @ x # b \<and> f x = Some t \<and> (\<forall>y \<in> set a. f y = None)) \<longleftrightarrow> u = t"
    proof
      assume "\<exists>a x b. z # xs = a @ x # b \<and> f x = Some t \<and> (\<forall>y \<in> set a. f y = None)"
      then show "u = t" using Some by (auto simp: Cons_eq_append_conv)
    next
      assume "u = t"
      then show "\<exists>a x b. z # xs = a @ x # b \<and> f x = Some t \<and> (\<forall>y \<in> set a. f y = None)"
        using Some by (intro exI [of _ "[]"] exI [of _ z] exI [of _ xs]) simp
    qed
    then show ?thesis using Some by (simp add: List.map_filter_def)
  qed
qed

text \<open>
  a failed chain reports its first failure. Asking for a result raises the error of the oldest ancestor that failed: no ancestor before that one
  has failed.
\<close>

theorem parent_error_is_oldest:
  "maybe_reraise_parent_error B r = Some t \<longleftrightarrow>
     (\<exists>younger p older. parents r = younger @ p # older \<and> maybe_throw B p = Some t \<and> (\<forall>x \<in> set older. maybe_throw B x = None))"
proof -
  have "maybe_reraise_parent_error B r = Some t \<longleftrightarrow>
      (\<exists>a x b. rev (parents r) = a @ x # b \<and> maybe_throw B x = Some t \<and> (\<forall>y \<in> set a. maybe_throw B y = None))"
    unfolding maybe_reraise_parent_error_def by (rule first_of_filter)
  also have "\<dots> \<longleftrightarrow> (\<exists>younger p older. parents r = younger @ p # older \<and> maybe_throw B p = Some t \<and> (\<forall>x \<in> set older. maybe_throw B x = None))"
    by (auto simp: rev_eq_append_conv) (metis append.assoc append_Cons append_Nil rev.simps(2) rev_append rev_rev_ident set_rev)+
  finally show ?thesis .
qed

section \<open>Properties of waiting and traversal\<close>

text \<open>What waiting for one result promises: time does not run backwards, and a time-out is kept.\<close>

definition fetch_ok :: "'v fetch \<Rightarrow> bool" where
  "fetch_ok fetch \<longleftrightarrow> (\<forall>now t r. 0 \<le> t \<longrightarrow> now \<le> snd (fetch now (Some t) r) \<and> snd (fetch now (Some t) r) \<le> now + t)"

lemma join_loop_values:
  "fst (join_loop fetch start timeout rs now) = Inr vs \<Longrightarrow> list_all2 (\<lambda>r v. \<exists>n t. fst (fetch n t r) = Inr v) rs vs"
proof (induction fetch start timeout rs now arbitrary: vs rule: join_loop.induct)
  case (1 fetch start timeout now)
  then show ?case by simp
next
  case (2 fetch start timeout r rs now)
  obtain x now' where f: "fetch now (remaining_time start timeout now) r = (x, now')" by fastforce
  obtain y now'' where j: "join_loop fetch start timeout rs now' = (y, now'')" by fastforce
  obtain v where v: "x = Inr v" using 2(2) f by (cases x) auto
  obtain vs' where vs': "y = Inr vs'" "vs = v # vs'" using 2(2) f j v by (cases y) auto
  have "list_all2 (\<lambda>r v. \<exists>n t. fst (fetch n t r) = Inr v) rs vs'" using 2(1) [OF f [symmetric] v] j vs'(1) by simp
  moreover have "\<exists>n t. fst (fetch n t r) = Inr v" using f v by (metis fst_conv)
  ultimately show ?case using vs'(2) by simp
qed

lemma join_loop_time:
  assumes "fetch_ok fetch" and "start \<le> now" and "now \<le> start + t"
  shows "snd (join_loop fetch start (Some t) rs now) \<le> start + t"
  using assms
proof (induction rs arbitrary: now)
  case (Cons r rs)
  let ?rem = "max (t - (now - start)) 0"
  obtain x now' where f: "fetch now (Some ?rem) r = (x, now')" by fastforce
  have "now \<le> now' \<and> now' \<le> now + ?rem"
    using Cons.prems(1) f unfolding fetch_ok_def by (metis max.cobounded2 snd_conv)
  moreover have "now + ?rem \<le> start + t" using Cons.prems(2,3) by (auto simp: max_def)
  ultimately have n: "start \<le> now'" "now' \<le> start + t" using Cons.prems(2) by linarith+
  have r: "remaining_time start (Some t) now = Some ?rem" by (simp add: remaining_time_def)
  obtain y now'' where j: "join_loop fetch start (Some t) rs now' = (y, now'')" by fastforce
  have "now'' \<le> start + t" using Cons.IH [OF Cons.prems(1) n] j by simp
  then show ?case using f r j n by (cases x; cases y) auto
qed simp

text \<open>
  waiting for a group keeps its time-out and returns the values in the order of the members. However the time is spent on single results, the whole is
  over when the time-out is; and a list of values has one for each member, got for that member.
\<close>

theorem join_meets_deadline:
  assumes "fetch_ok fetch" and "0 \<le> t" and "join fetch False (Some t) rs now = (Inr r, now')"
  shows "now' \<le> now + t \<and> (\<forall>vs. r = Inr vs \<longrightarrow> list_all2 (\<lambda>r v. \<exists>n t. fst (fetch n t r) = Inr v) rs vs)"
proof -
  have j: "join_loop fetch now (Some t) rs now = (r, now')" using assms(3) by (auto simp: join_def split: prod.splits)
  then have "now' \<le> now + t" using join_loop_time [OF assms(1), of now now t rs] assms(2) by simp
  then show ?thesis using join_loop_values [of fetch now "Some t" rs now] j by auto
qed

definition sample_fetch :: "nat fetch" where
  "sample_fetch now t r = (case t of None \<Rightarrow> (Inr 7, now + 2) | Some t \<Rightarrow> if 2 \<le> t then (Inr 7, now + 2) else (Inl WaitTimeout, now + t))"

lemma sample_fetch_ok: "fetch_ok sample_fetch"
  by (auto simp: fetch_ok_def sample_fetch_def)

theorem join_meets_deadline_witness:
  "snd (join sample_fetch False (Some 3) [AsyncResult ''a'' None, AsyncResult ''b'' None] 100) \<le> 103"
proof -
  obtain x now' where loop: "join_loop sample_fetch 100 (Some 3) [AsyncResult ''a'' None, AsyncResult ''b'' None] 100 = (x, now')"
    by (rule prod.exhaust)
  then have run: "join sample_fetch False (Some 3) [AsyncResult ''a'' None, AsyncResult ''b'' None] 100 = (Inr x, now')"
    by (simp only: join_def if_False prod.case)
  from join_meets_deadline [OF sample_fetch_ok _ run] show ?thesis unfolding run by simp
qed

text \<open>No member of a set of results equals an earlier one.\<close>

definition no_equal_members :: "'v result_obj list \<Rightarrow> bool" where
  "no_equal_members rs \<longleftrightarrow> sorted_wrt (\<lambda>x y. \<not> res_eq y x) rs"

lemma set_add_no_equal: "no_equal_members rs \<Longrightarrow> no_equal_members (set_add r rs)"
  by (auto simp: no_equal_members_def set_add_def member_def sorted_wrt_append)

lemma set_remove_sublist: "set_remove r rs = Inr ys \<Longrightarrow> \<exists>a x b. rs = a @ x # b \<and> ys = a @ b \<and> res_eq x r"
proof (induction rs arbitrary: ys)
  case (Cons z rs)
  show ?case
  proof (cases "res_eq z r")
    case True
    then show ?thesis using Cons.prems by (intro exI [of _ "[]"] exI [of _ z] exI [of _ rs]) simp
  next
    case False
    then obtain ys' where "set_remove r rs = Inr ys'" "ys = z # ys'" using Cons.prems by (auto simp: res_bind_Inr_iff)
    with Cons.IH obtain a x b where "rs = a @ x # b" "ys' = a @ b" "res_eq x r" by blast
    then show ?thesis using \<open>ys = z # ys'\<close> by (intro exI [of _ "z # a"] exI [of _ x] exI [of _ b]) simp
  qed
qed simp

text \<open>
  a set of results never has two equal members. Adding, extending, removing and discarding keep this, where results of single tasks are equal if
  their ids are.
\<close>

theorem result_set_no_duplicates:
  assumes "no_equal_members rs"
  shows "no_equal_members (set_add r rs) \<and> no_equal_members (set_update new rs) \<and> no_equal_members (set_discard r rs)"
proof -
  have "no_equal_members (set_update new rs)"
    using assms unfolding set_update_def by (induction new arbitrary: rs) (simp_all add: set_add_no_equal)
  moreover have "no_equal_members (set_discard r rs)"
    using assms set_remove_sublist [of r rs] by (auto simp: set_discard_def no_equal_members_def sorted_wrt_append split: sum.splits)
  ultimately show ?thesis using set_add_no_equal [OF assms] by simp
qed

theorem result_set_no_duplicates_witness:
  "no_equal_members (set_add (AsyncResult ''a'' None) [AsyncResult ''a'' None, sample_group])"
proof -
  have "no_equal_members [AsyncResult ''a'' None, sample_group]" by (simp add: no_equal_members_def sample_group_def)
  then show ?thesis using result_set_no_duplicates by blast
qed

text \<open>
  The results reachable from a list of results: the children of a ready result are one step away. \<open>rank\<close> bounds the length of the paths.
\<close>

inductive_set reachable_results for rdy :: "'v result_obj \<Rightarrow> bool" and ch :: "'v result_obj \<Rightarrow> 'v result_obj list" and R :: "'v result_obj set" where
  start: "r \<in> R \<Longrightarrow> r \<in> reachable_results rdy ch R"
| child: "r \<in> reachable_results rdy ch R \<Longrightarrow> rdy r \<Longrightarrow> c \<in> set (node_children ch r) \<Longrightarrow> c \<in> reachable_results rdy ch R"

lemma reachable_results_pop:
  "reachable_results rdy ch (insert r R) = insert r (reachable_results rdy ch ((if rdy r then set (node_children ch r) else {}) \<union> R))"
  (is "?A = ?B")
proof (intro equalityI subsetI)
  fix x
  assume "x \<in> ?A"
  then show "x \<in> ?B"
    by induction (auto intro: reachable_results.intros)
next
  fix x
  assume "x \<in> ?B"
  moreover have "x \<in> ?A" if "x \<in> reachable_results rdy ch ((if rdy r then set (node_children ch r) else {}) \<union> R)" for x
    using that by induction (auto intro: reachable_results.intros split: if_splits)
  ultimately show "x \<in> ?A" by (auto intro: reachable_results.intros)
qed

lemma reachable_results_empty: "reachable_results rdy ch {} = {}"
proof -
  have "x \<notin> reachable_results rdy ch {}" for x
  proof
    assume "x \<in> reachable_results rdy ch {}"
    then show False by induction auto
  qed
  then show ?thesis by blast
qed

lemma iterdeps_loop_complete:
  assumes rank: "\<And>r c. rdy r \<Longrightarrow> c \<in> set (node_children ch r) \<Longrightarrow> rank c < (rank r :: nat)"
  shows "\<exists>vs. iterdeps_loop rdy ch True seen queue = Some (True, rev seen @ vs) \<and> set (map snd vs) = reachable_results rdy ch (set (map snd queue))"
proof (induction "mset (map (rank \<circ> snd) queue)" arbitrary: seen queue rule: wf_induct_rule [OF wf_mult [OF wf_less_than]])
  case 1
  show ?case
  proof (cases queue)
    case Nil
    then show ?thesis by (simp add: iterdeps_loop.simps reachable_results_empty)
  next
    case (Cons v rest)
    define cs where "cs = (if rdy (snd v) then node_children ch (snd v) else [])"
    define queue' where "queue' = rest @ map (\<lambda>c. (Some (snd v), c)) cs"
    have step: "iterdeps_loop rdy ch True seen queue = iterdeps_loop rdy ch True (v # seen) queue'"
      by (subst iterdeps_loop.simps) (simp add: Cons cs_def queue'_def)
    have q': "mset (map (rank \<circ> snd) queue') = mset (map (rank \<circ> snd) rest) + mset (map rank cs)"
      by (simp add: queue'_def comp_def)
    have q: "mset (map (rank \<circ> snd) queue) = mset (map (rank \<circ> snd) rest) + {#rank (snd v)#}" by (simp add: Cons)
    have "(mset (map (rank \<circ> snd) queue'), mset (map (rank \<circ> snd) queue)) \<in> mult less_than"
      unfolding q q' by (rule one_step_implies_mult) (auto simp: cs_def dest: rank split: if_splits)
    from 1 [OF this] obtain vs where vs: "iterdeps_loop rdy ch True (v # seen) queue' = Some (True, rev (v # seen) @ vs)"
      "set (map snd vs) = reachable_results rdy ch (set (map snd queue'))" by blast
    have "set (map snd queue') = (if rdy (snd v) then set (node_children ch (snd v)) else {}) \<union> set (map snd rest)"
      by (auto simp: queue'_def cs_def image_iff)
    then have "set (map snd (v # vs)) = reachable_results rdy ch (set (map snd queue))"
      using vs(2) by (simp add: Cons reachable_results_pop)
    moreover have "iterdeps_loop rdy ch True seen queue = Some (True, rev seen @ (v # vs))" using step vs(1) by simp
    ultimately show ?thesis by blast
  qed
qed

text \<open>
  the traversal of the results a task left behind ends, and visits exactly the results reachable through the children of ready ones, when the
  children form no cycle and intermediate results are asked for.
\<close>

theorem iterdeps_visits_reachable:
  assumes "\<And>r c. rdy r \<Longrightarrow> c \<in> set (node_children ch r) \<Longrightarrow> rank c < (rank r :: nat)"
  shows "\<exists>vs. iterdeps rdy ch True r = Some (True, vs) \<and> set (map snd vs) = reachable_results rdy ch {r}"
  using iterdeps_loop_complete [of rdy ch rank "[]" "[(None, r)]", OF assms] by (simp add: iterdeps_def)

definition sample_children :: "nat result_obj \<Rightarrow> nat result_obj list" where
  "sample_children r = (if r = AsyncResult ''A'' None then [AsyncResult ''B'' None, AsyncResult ''C'' None] else [])"

theorem iterdeps_visits_reachable_witness:
  "\<exists>vs. iterdeps (\<lambda>r. r = AsyncResult ''A'' None) sample_children True (AsyncResult ''A'' None) = Some (True, vs) \<and>
     set (map snd vs) = reachable_results (\<lambda>r. r = AsyncResult ''A'' None) sample_children {AsyncResult ''A'' None}"
  by (rule iterdeps_visits_reachable [where rank = "\<lambda>r. if r = AsyncResult ''A'' None then 1 else 0"])
    (auto simp: node_children_def sample_children_def)

end
