(* ===== verification/Tasks.thy ===== *)
theory Tasks
  imports Amqp
begin

text \<open>
  Task classes, \<open>celery.app.task\<close>, with automatic retries (\<open>app/autoretry.py\<close>) and the sending of a task
  by the application (\<open>send_task\<close> of \<open>app/base.py\<close>): the context of a request, the options that
  describe an execution, the signature that repeats a request, retrying and local execution.

  A context is the dictionary of its attributes, with the defaults of the class behind it. Arguments of the model are the
  router (modelled in \<open>Routes\<close>), \<open>maybe_list\<close> of the broker library, the redirection of delayed messages, the check of the arguments of a task, its
  \<open>shadow_name\<close> hook, ids and random draws. What is sent is a log.
\<close>

section \<open>Contexts\<close>

text \<open>The attributes of the class \<open>Context\<close>; names with underscores at both ends that Python adds are left out.\<close>

definition context_defaults :: fields where
  "context_defaults =
     map (\<lambda>k. (k, PNone)) [''_children'', ''args'', ''callbacks'', ''chain'', ''chord'', ''correlation_id'', ''delivery_info'', ''errbacks'',
       ''eta'', ''expires'', ''group'', ''group_index'', ''headers'', ''hostname'', ''id'', ''kwargs'', ''logfile'', ''loglevel'', ''origin'',
       ''parent_id'', ''properties'', ''reply_to'', ''root_id'', ''shadow'', ''taskset'', ''timelimit'', ''time_limit'',
       ''soft_time_limit'', ''utc'', ''stamped_headers'', ''stamps'']
     @ [(''_protected'', PInt 0), (''called_directly'', PBool True), (''ignore_result'', PBool False), (''is_eager'', PBool False),
        (''retries'', PInt 0), (''replaced_task_nesting'', PInt 0)]"

definition celery_keys :: "string list" where
  "celery_keys = keys context_defaults @ [''__init__'', ''_get_custom_headers'', ''update'', ''clear'', ''get'', ''__repr__'',
     ''_filter_x_death_headers'', ''as_execution_options'', ''children'', ''lang'', ''task'', ''argsrepr'', ''kwargsrepr'', ''compression'']"

definition ctx :: "fields \<Rightarrow> string \<Rightarrow> pyv" where
  "ctx c k = field c k (field context_defaults k PNone)"

definition get_custom_headers :: "fields \<Rightarrow> pyv" where
  "get_custom_headers d = (let h = filter (\<lambda>(k, v). k \<notin> set celery_keys) d in if h = [] then PNone else PDict h)"

text \<open>\<open>update\<close> of a new context: limits are taken apart when there is a pair of them, and cleared by anything else.\<close>

fun limit_pair :: "pyv \<Rightarrow> pyv \<times> pyv" where
  "limit_pair (PList (a # b # _)) = (a, b)"
| "limit_pair (PTuple (a # b # _)) = (a, b)"
| "limit_pair _ = (PNone, PNone)"

definition context_update :: "fields \<Rightarrow> fields" where
  "context_update d = (case dict_get d ''timelimit'' of
     None \<Rightarrow> d
   | Some v \<Rightarrow> (case limit_pair v of (hard, soft) \<Rightarrow> dict_set ''soft_time_limit'' soft (dict_set ''time_limit'' hard d)))"

definition make_context :: "fields \<Rightarrow> fields" where
  "make_context d = (let c = context_update d in
     if ctx c ''headers'' = PNone then dict_set ''headers'' (get_custom_headers d) c else c)"

definition X_DEATH_HEADERS :: "string list" where
  "X_DEATH_HEADERS = [''x-death'', ''x-first-death-exchange'', ''x-first-death-queue'', ''x-first-death-reason'',
     ''x-last-death-exchange'', ''x-last-death-queue'', ''x-last-death-reason'']"

fun filter_x_death_headers :: "pyv \<Rightarrow> pyv result" where
  "filter_x_death_headers (PDict d) = Inr (PDict (filter (\<lambda>(k, v). k \<notin> set X_DEATH_HEADERS) d))"
| "filter_x_death_headers (PList (_ # _)) = Inl TypeError"
| "filter_x_death_headers v = (if py_true v then Inl AttributeError else Inr (PDict []))"

text \<open>Unpacking a value into two variables.\<close>

fun unpack2 :: "pyv \<Rightarrow> (pyv \<times> pyv) result" where
  "unpack2 (PTuple [a, b]) = Inr (a, b)"
| "unpack2 (PList [a, b]) = Inr (a, b)"
| "unpack2 (PStr [a, b]) = Inr (PStr [a], PStr [b])"
| "unpack2 (PDict [a, b]) = Inr (PStr (fst a), PStr (fst b))"
| "unpack2 (PTuple _) = Inl ValueError"
| "unpack2 (PList _) = Inl ValueError"
| "unpack2 (PStr _) = Inl ValueError"
| "unpack2 (PDict _) = Inl ValueError"
| "unpack2 _ = Inl TypeError"

definition stamp_options :: "fields \<Rightarrow> fields \<Rightarrow> fields result" where
  "stamp_options c opts =
     (if ctx c ''stamps'' \<noteq> PNone \<and> ctx c ''stamped_headers'' \<noteq> PNone
      then (case ctx c ''stamps'' of
              PDict st \<Rightarrow> Inr (dict_update (dict_set ''stamped_headers'' (ctx c ''stamped_headers'') opts) st)
            | _ \<Rightarrow> Inl AttributeError)
      else Inr opts)"

definition as_execution_options :: "fields \<Rightarrow> fields result" where
  "as_execution_options c =
     res_bind (unpack2 (py_or (ctx c ''timelimit'') (PTuple [PNone, PNone]))) (\<lambda>(limit_hard, limit_soft).
     res_bind (filter_x_death_headers (ctx c ''headers'')) (\<lambda>hdrs.
     stamp_options c
       [(''task_id'', ctx c ''id''), (''root_id'', ctx c ''root_id''), (''parent_id'', ctx c ''parent_id''), (''group_id'', ctx c ''group''),
        (''group_index'', ctx c ''group_index''), (''shadow'', ctx c ''shadow''), (''chord'', ctx c ''chord''), (''chain'', ctx c ''chain''),
        (''link'', ctx c ''callbacks''), (''link_error'', ctx c ''errbacks''), (''expires'', ctx c ''expires''),
        (''soft_time_limit'', limit_soft), (''time_limit'', limit_hard), (''headers'', hdrs), (''retries'', ctx c ''retries''),
        (''reply_to'', ctx c ''reply_to''), (''replaced_task_nesting'', ctx c ''replaced_task_nesting''), (''origin'', ctx c ''origin'')]))"

section \<open>Tasks\<close>

record task_class =
  t_name :: string
  t_max_retries :: "int option"
  t_default_retry_delay :: pyv
  t_override_max_retries :: "int option"
  t_exec_options :: fields
  t_ignore_result :: pyv
  t_priority :: pyv
  t_time_limit :: "rat option"
  t_soft_time_limit :: "rat option"
  t_check_arguments :: "pyv \<Rightarrow> pyv \<Rightarrow> exn option"
  t_shadow_name :: "pyv \<Rightarrow> pyv \<Rightarrow> fields \<Rightarrow> pyv"

record tsig =
  s_task :: string
  s_args :: pyv
  s_kwargs :: pyv
  s_options :: fields

fun py_tuple :: "pyv \<Rightarrow> pyv result" where
  "py_tuple (PTuple xs) = Inr (PTuple xs)"
| "py_tuple (PList xs) = Inr (PTuple xs)"
| "py_tuple (PStr s) = Inr (PTuple (map (\<lambda>ch. PStr [ch]) s))"
| "py_tuple (PDict d) = Inr (PTuple (map (\<lambda>(k, v). PStr k) d))"
| "py_tuple _ = Inl TypeError"

text \<open>The constructor of signatures: further keyword arguments are options and win over the given ones.\<close>

definition new_signature :: "string \<Rightarrow> pyv \<Rightarrow> pyv \<Rightarrow> fields \<Rightarrow> fields \<Rightarrow> tsig result" where
  "new_signature name a k options ex =
     res_bind (py_tuple (py_or a (PTuple []))) (\<lambda>a.
     Inr \<lparr>s_task = name, s_args = a, s_kwargs = py_or k (PDict []), s_options = dict_update options ex\<rparr>)"

fun py_mapping :: "pyv \<Rightarrow> fields result" where
  "py_mapping (PDict d) = Inr d"
| "py_mapping v = (if py_true v then Inl AttributeError else Inr [])"

definition signature_from_request :: "task_class \<Rightarrow> fields \<Rightarrow> pyv \<Rightarrow> pyv \<Rightarrow> pyv \<Rightarrow> fields \<Rightarrow> tsig result" where
  "signature_from_request t c a k que extra =
     (let a = (if a = PNone then ctx c ''args'' else a); k = (if k = PNone then ctx c ''kwargs'' else k) in
      res_bind (as_execution_options c) (\<lambda>eo.
      res_bind (py_mapping (ctx c ''delivery_info'')) (\<lambda>di.
      let options = dict_update eo extra;
          options = (if field di ''priority'' PNone \<noteq> PNone then dict_set ''priority'' (field di ''priority'' PNone) options else options);
          options = (if py_true que then dict_set ''queue'' que options
                     else if field di ''exchange'' PNone = PStr [] \<and> py_true (field di ''routing_key'' PNone)
                     then dict_set ''queue'' (field di ''routing_key'' PNone) options
                     else dict_update options di) in
      new_signature (t_name t) a k options extra)))"

section \<open>Sending\<close>

record send_env =
  se_app :: app_env
  se_uuid :: string
  se_router :: "fields \<Rightarrow> string \<Rightarrow> fields result"
  se_delay :: "pyv \<Rightarrow> pyv \<Rightarrow> fields \<Rightarrow> (pyv \<times> fields) result"
  se_isoparse :: "string \<Rightarrow> rat result"
  se_registry :: "string \<Rightarrow> fields option"
  se_current :: "fields option"
  se_inherit_priority :: bool
  se_send_sent_event :: bool
  se_thread_oid :: pyv
  se_maybe_list :: "pyv \<Rightarrow> pyv"

datatype sent_log = OnTaskCall pyv | PublishTask message fields | AddTrail pyv

definition send_task_params :: "string list" where
  "send_task_params = [''countdown'', ''eta'', ''task_id'', ''producer'', ''connection'', ''router'', ''result_cls'', ''expires'', ''publisher'',
     ''link'', ''link_error'', ''add_to_parent'', ''group_id'', ''group_index'', ''retries'', ''chord'', ''reply_to'', ''time_limit'',
     ''soft_time_limit'', ''root_id'', ''parent_id'', ''route_name'', ''shadow'', ''chain'', ''task_type'', ''replaced_task_nesting'']"

text \<open>Options of a registered task fill what the caller omitted, unless a task class sends itself.\<close>

definition named_options :: "send_env \<Rightarrow> string \<Rightarrow> bool \<Rightarrow> fields \<Rightarrow> fields" where
  "named_options env name has_type kw =
     (let options = filter (\<lambda>(k, v). k \<notin> set send_task_params) kw in
      if has_type then options
      else (case se_registry env name of
              None \<Rightarrow> options
            | Some eo \<Rightarrow> dict_update (filter (\<lambda>(k, v). v \<noteq> PNone) eo) options))"

definition explicit_or :: "fields \<Rightarrow> fields \<Rightarrow> string \<Rightarrow> pyv" where
  "explicit_or kw options k = (case dict_get kw k of Some v \<Rightarrow> v | None \<Rightarrow> field options k PNone)"

definition expiration :: "send_env \<Rightarrow> pyv \<Rightarrow> fields \<Rightarrow> fields result" where
  "expiration env x options =
     (if x = PNone then Inr options
      else res_bind (case x of
               PTime u \<Rightarrow> Inr (PFloat (u - app_now (se_app env)))
             | PStr s \<Rightarrow> res_bind (se_isoparse env s) (\<lambda>u. Inr (PFloat (u - app_now (se_app env))))
             | v \<Rightarrow> Inr v) (\<lambda>v.
           case py_real v of
             None \<Rightarrow> Inl TypeError
           | Some s \<Rightarrow> Inr (dict_set ''expiration'' (if s < 0 then PInt 0 else v) options)))"

text \<open>The root and the parent default to the task that is running; its priority may be inherited.\<close>

definition family :: "send_env \<Rightarrow> pyv \<Rightarrow> pyv \<Rightarrow> fields \<Rightarrow> (pyv \<times> pyv \<times> fields) result" where
  "family env rid pid options =
     (if py_true rid \<and> py_true pid then Inr (rid, pid, options)
      else (case se_current env of
              None \<Rightarrow> Inr (rid, pid, options)
            | Some p \<Rightarrow>
                let rid = (if py_true rid then rid else py_or (ctx p ''root_id'') (ctx p ''id''));
                    pid = (if py_true pid then pid else ctx p ''id'') in
                if se_inherit_priority env
                then (case ctx p ''delivery_info'' of
                        PDict di \<Rightarrow> Inr (rid, pid, dict_setdefault ''priority'' (field di ''priority'' PNone) options)
                      | _ \<Rightarrow> Inl AttributeError)
                else Inr (rid, pid, options)))"

fun stamp_names :: "pyv \<Rightarrow> string list option result" where
  "stamp_names PNone = Inr None"
| "stamp_names (PList vs) = (if list_all (\<lambda>v. case v of PStr s \<Rightarrow> True | _ \<Rightarrow> False) vs
     then Inr (Some (map (\<lambda>v. case v of PStr s \<Rightarrow> s | _ \<Rightarrow> []) vs)) else Inl TypeError)"
| "stamp_names _ = Inl TypeError"

definition task_message_call :: "send_env \<Rightarrow> pyv \<Rightarrow> string \<Rightarrow> pyv \<Rightarrow> pyv \<Rightarrow> pyv \<Rightarrow> fields \<Rightarrow> pyv \<Rightarrow> pyv \<Rightarrow> pyv \<Rightarrow> pyv \<Rightarrow> pyv \<Rightarrow> pyv \<Rightarrow>
    string list option \<Rightarrow> fields \<Rightarrow> task_call" where
  "task_message_call env tid name a k cd kw x hl sl ign rid pid stamped options =
     \<lparr>task_id = tid, task_name = PStr name, args = a, kwargs = k, countdown = cd, eta = field kw ''eta'' PNone,
      group_id = field kw ''group_id'' PNone, group_index = field kw ''group_index'' PNone, expires = x, retries = field kw ''retries'' (PInt 0),
      chord = field kw ''chord'' PNone, callbacks = se_maybe_list env (field kw ''link'' PNone), errbacks = se_maybe_list env (field kw ''link_error'' PNone),
      reply_to = py_or (field kw ''reply_to'' PNone) (se_thread_oid env), time_limit = hl, soft_time_limit = sl,
      create_sent_event = se_send_sent_event env, root_id = rid, parent_id = pid, shadow = field kw ''shadow'' PNone,
      chain = field kw ''chain'' PNone, call_now = None, origin = field options ''origin'' PNone, ignore_result = ign,
      argsrepr = field options ''argsrepr'' PNone, kwargsrepr = field options ''kwargsrepr'' PNone, stamped_headers = stamped,
      replaced_task_nesting = field kw ''replaced_task_nesting'' (PInt 0), call_options = options\<rparr>"

definition drop_keys :: "string list \<Rightarrow> fields \<Rightarrow> fields" where
  "drop_keys ks d = filter (\<lambda>(k, v). k \<notin> set ks) d"

definition send_task :: "send_env \<Rightarrow> string \<Rightarrow> pyv \<Rightarrow> pyv \<Rightarrow> bool \<Rightarrow> fields \<Rightarrow> sent_log list \<Rightarrow> pyv result \<times> sent_log list" where
  "send_task env name a k has_type kw lg =
     (let tid = py_or (field kw ''task_id'' PNone) (PStr (se_uuid env));
          merged = named_options env name has_type kw;
          hl = explicit_or kw merged ''time_limit''; sl = explicit_or kw merged ''soft_time_limit''; x = explicit_or kw merged ''expires'';
          ign = field merged ''ignore_result'' (PBool False);
          options = drop_keys [''time_limit'', ''soft_time_limit'', ''expires'', ''ignore_result''] merged;
          e = field kw ''eta'' PNone; cd = field kw ''countdown'' PNone;
          route = (let r = field kw ''route_name'' PNone in case r of PStr (ch # s) \<Rightarrow> ch # s | _ \<Rightarrow> name);
          made = (res_bind (se_router env options route) (\<lambda>options.
                  res_bind (if py_true e \<or> py_true cd then se_delay env e cd options else Inr (cd, options)) (\<lambda>(cd, options).
                  res_bind (expiration env x options) (\<lambda>options.
                  res_bind (family env (field kw ''root_id'' PNone) (field kw ''parent_id'' PNone) options) (\<lambda>(rid, pid, options).
                  res_bind (stamp_names (field options ''stamped_headers'' PNone)) (\<lambda>stamped.
                  res_bind (as_task_v2 (se_app env) (task_message_call env tid name a k cd kw x hl sl ign rid pid stamped options)) (\<lambda>m.
                  Inr (m, drop_keys (case stamped of None \<Rightarrow> [''stamped_headers''] | Some hs \<Rightarrow> ''stamped_headers'' # hs) options))))))))
      in (case made of
            Inl err \<Rightarrow> (Inl err, lg)
          | Inr (m, options) \<Rightarrow>
              (Inr tid, lg @ (if py_true ign then [] else [OnTaskCall tid]) @ [PublishTask m options]
                 @ (if py_true (field kw ''add_to_parent'' (PBool True)) \<and> se_current env \<noteq> None then [AddTrail tid] else []))))"

section \<open>Calling a task\<close>

definition limits_inverted :: "task_class \<Rightarrow> bool" where
  "limits_inverted t = (case (t_soft_time_limit t, t_time_limit t) of (Some s, Some h) \<Rightarrow> s \<noteq> 0 \<and> h \<noteq> 0 \<and> s > h | _ \<Rightarrow> False)"

text \<open>\<open>apply_async\<close> of a task when tasks are not run locally; its parameters besides the arguments are keyword arguments.\<close>

definition call_options_of :: "task_class \<Rightarrow> pyv \<Rightarrow> pyv \<Rightarrow> fields \<Rightarrow> fields" where
  "call_options_of t a k kw =
     (let options = drop_keys [''task_id'', ''producer'', ''link'', ''link_error'', ''shadow''] kw;
          sh = py_or (field kw ''shadow'' PNone) (t_shadow_name t a k options);
          options = dict_setdefault ''ignore_result'' (t_ignore_result t) (dict_update (t_exec_options t) options);
          options = (if py_true (t_priority t) then dict_setdefault ''priority'' (t_priority t) options else options) in
      [(''task_id'', field kw ''task_id'' PNone), (''link'', field kw ''link'' PNone), (''link_error'', field kw ''link_error'' PNone), (''shadow'', sh)]
      @ options)"

definition task_apply_async :: "send_env \<Rightarrow> task_class \<Rightarrow> pyv \<Rightarrow> pyv \<Rightarrow> fields \<Rightarrow> sent_log list \<Rightarrow> pyv result \<times> sent_log list" where
  "task_apply_async env t a k kw lg =
     (if limits_inverted t then (Inl ValueError, lg)
      else (case t_check_arguments t (py_or a (PTuple [])) (py_or k (PDict [])) of
              Some err \<Rightarrow> (Inl err, lg)
            | None \<Rightarrow> send_task env (t_name t) a k True (call_options_of t a k kw) lg))"

text \<open>A signature without further arguments calls its task with what it holds.\<close>

definition sig_apply_async :: "send_env \<Rightarrow> task_class \<Rightarrow> tsig \<Rightarrow> sent_log list \<Rightarrow> pyv result \<times> sent_log list" where
  "sig_apply_async env t s lg = task_apply_async env t (s_args s) (s_kwargs s) (s_options s) lg"

section \<open>Retrying\<close>

text \<open>
  The outcome of a body, or of \<open>retry\<close>, by exception: user exceptions have numbers. A \<open>Retry\<close> carries the signature to
  run again, unless it was raised outside of a worker.
\<close>

datatype rexc =
    UserExc nat
  | IgnoreExc
  | RetryExc "tsig option"
  | MaxRetriesExceeded tsig
  | RejectExc
  | PyExc exn

record retry_call =
  rc_args :: pyv
  rc_kwargs :: pyv
  rc_exc :: "nat option"
  rc_throw :: bool
  rc_eta :: pyv
  rc_countdown :: pyv
  rc_max_retries :: "int option"
  rc_options :: fields

fun py_succ :: "pyv \<Rightarrow> (pyv \<times> rat) result" where
  "py_succ (PInt n) = Inr (PInt (n + 1), of_int n + 1)"
| "py_succ (PBool b) = Inr (PInt (of_bool b + 1), of_bool b + 1)"
| "py_succ (PFloat r) = Inr (PFloat (r + 1), r + 1)"
| "py_succ _ = Inl TypeError"

definition retry_limit :: "task_class \<Rightarrow> retry_call \<Rightarrow> int option" where
  "retry_limit t rc = (case rc_max_retries rc of None \<Rightarrow> t_max_retries t | Some m \<Rightarrow> Some m)"

definition over_limit :: "int option \<Rightarrow> rat \<Rightarrow> bool" where
  "over_limit m n = (case m of None \<Rightarrow> False | Some l \<Rightarrow> n > of_int l)"

definition retry_signature :: "task_class \<Rightarrow> fields \<Rightarrow> retry_call \<Rightarrow> pyv \<Rightarrow> tsig result" where
  "retry_signature t c rc n =
     (let cd = (if \<not> py_true (rc_eta rc) \<and> rc_countdown rc = PNone then t_default_retry_delay t else rc_countdown rc) in
      signature_from_request t c (rc_args rc) (rc_kwargs rc) (field (rc_options rc) ''queue'' PNone)
        ([(''countdown'', cd), (''eta'', rc_eta rc), (''retries'', n)] @ dict_del ''queue'' (rc_options rc)))"

text \<open>
  The value is the exception raised (left) or returned (right), with the task class, whose attribute \<open>override_max_retries\<close> is set, and
  what the sender changed.
\<close>

definition retry :: "(tsig \<Rightarrow> 'b \<Rightarrow> pyv result \<times> 'b) \<Rightarrow> task_class \<Rightarrow> fields \<Rightarrow> retry_call \<Rightarrow> 'b \<Rightarrow> (rexc + rexc) \<times> task_class \<times> 'b" where
  "retry submit t c rc b =
     (case py_succ (ctx c ''retries'') of
        Inl err \<Rightarrow> (Inl (PyExc err), t, b)
      | Inr (n, cnt) \<Rightarrow>
          let t' = (case rc_max_retries rc of None \<Rightarrow> t | Some m \<Rightarrow> t\<lparr>t_override_max_retries := Some m\<rparr>) in
          if py_true (ctx c ''called_directly'')
          then (Inl (case rc_exc rc of Some x \<Rightarrow> UserExc x | None \<Rightarrow> RetryExc None), t', b)
          else (case retry_signature t c rc n of
                  Inl err \<Rightarrow> (Inl (PyExc err), t', b)
                | Inr s \<Rightarrow>
                    if over_limit (retry_limit t rc) cnt
                    then (Inl (case rc_exc rc of Some x \<Rightarrow> UserExc x | None \<Rightarrow> MaxRetriesExceeded s), t', b)
                    else if py_true (ctx c ''is_eager'')
                    then ((if rc_throw rc then Inl else Inr) (RetryExc (Some s)), t', b)
                    else (case submit s b of
                            (Inl err, b') \<Rightarrow> (Inl RejectExc, t', b')
                          | (Inr _, b') \<Rightarrow> ((if rc_throw rc then Inl else Inr) (RetryExc (Some s)), t', b'))))"

section \<open>Automatic retries\<close>

text \<open>\<open>randrange n\<close> of an empty range is a \<open>ValueError\<close>; otherwise the draw is an argument.\<close>

definition get_exponential_backoff_interval :: "(int \<Rightarrow> int) \<Rightarrow> int \<Rightarrow> nat \<Rightarrow> int \<Rightarrow> bool \<Rightarrow> int result" where
  "get_exponential_backoff_interval rand factor n maximum full_jitter =
     (let cd = min maximum (factor * 2 ^ n) in
      if full_jitter
      then (if cd + 1 \<le> 0 then Inl ValueError else Inr (max 0 (rand (cd + 1))))
      else Inr (max 0 cd))"

record autoretry =
  ar_for :: "nat \<Rightarrow> bool"
  ar_dont :: "nat \<Rightarrow> bool"
  ar_kwargs :: retry_call
  ar_backoff :: rat
  ar_backoff_max :: int
  ar_jitter :: bool

definition backoff_countdown :: "(int \<Rightarrow> int) \<Rightarrow> autoretry \<Rightarrow> fields \<Rightarrow> pyv result" where
  "backoff_countdown rand ar c =
     (if ar_backoff ar = 0 then Inr (rc_countdown (ar_kwargs ar))
      else (case ctx c ''retries'' of
              PInt n \<Rightarrow> res_bind (get_exponential_backoff_interval rand \<lfloor>max 1 (ar_backoff ar)\<rfloor> (nat n) (ar_backoff_max ar) (ar_jitter ar)) (\<lambda>i. Inr (PInt i))
            | _ \<Rightarrow> Inl TypeError))"

text \<open>
  The wrapped \<open>run\<close>: \<open>orig\<close> is what the body of the task does. The overriding limit that an earlier call of \<open>retry\<close> left on
  the task is used, and removed only if \<open>retry\<close> returns.
\<close>

definition autoretry_run :: "(tsig \<Rightarrow> 'b \<Rightarrow> pyv result \<times> 'b) \<Rightarrow> (int \<Rightarrow> int) \<Rightarrow> autoretry \<Rightarrow> task_class \<Rightarrow> fields \<Rightarrow> rexc + pyv \<Rightarrow> 'b \<Rightarrow>
    (rexc + pyv) \<times> task_class \<times> 'b" where
  "autoretry_run submit rand ar t c orig b = (case orig of
     Inr v \<Rightarrow> (Inr v, t, b)
   | Inl (UserExc x) \<Rightarrow>
       if ar_dont ar x \<or> \<not> ar_for ar x then (Inl (UserExc x), t, b)
       else (case backoff_countdown rand ar c of
               Inl err \<Rightarrow> (Inl (PyExc err), t, b)
             | Inr cd \<Rightarrow>
                 let rc = (ar_kwargs ar)\<lparr>rc_exc := Some x, rc_countdown := cd\<rparr>;
                     rc = (case t_override_max_retries t of None \<Rightarrow> rc | Some m \<Rightarrow> rc\<lparr>rc_max_retries := Some m\<rparr>) in
                 (case retry submit t c rc b of
                    (Inl e, t', b') \<Rightarrow> (Inl e, t', b')
                  | (Inr e, t', b') \<Rightarrow> (Inl e, t'\<lparr>t_override_max_retries := None\<rparr>, b')))
   | Inl e \<Rightarrow> (Inl e, t, b))"

section \<open>Local execution\<close>

text \<open>\<open>trace\<close> is the tracer of the task: it gives the state with the value, or the retry that was raised.\<close>

datatype traced = Traced string pyv | TracedRetry tsig

record apply_env =
  ap_uuid :: string
  ap_hostname :: string
  ap_parent :: "fields option"
  ap_maybe_list :: "pyv \<Rightarrow> pyv"

definition eager_request :: "apply_env \<Rightarrow> task_class \<Rightarrow> fields \<Rightarrow> fields" where
  "eager_request env t kw =
     (let tid = py_or (field kw ''task_id'' PNone) (PStr (ap_uuid env));
          n = py_or (field kw ''retries'' PNone) (PInt 0);
          hs = ap_maybe_list env (field kw ''stamped_headers'' PNone);
          bnd = (\<lambda>x. case x of None \<Rightarrow> PNone | Some r \<Rightarrow> PFloat r) in
      [(''id'', tid), (''task'', PStr (t_name t)),
       (''parent_id'', case ap_parent env of None \<Rightarrow> PNone | Some p \<Rightarrow> ctx p ''id''),
       (''root_id'', case ap_parent env of None \<Rightarrow> tid | Some p \<Rightarrow> py_or (ctx p ''root_id'') tid),
       (''retries'', n), (''is_eager'', PBool True), (''logfile'', field kw ''logfile'' PNone),
       (''loglevel'', py_or (field kw ''loglevel'' PNone) (PInt 0)), (''hostname'', PStr (ap_hostname env)),
       (''callbacks'', ap_maybe_list env (field kw ''link'' PNone)), (''errbacks'', ap_maybe_list env (field kw ''link_error'' PNone)),
       (''headers'', field kw ''headers'' PNone),
       (''timelimit'', if t_time_limit t = None \<and> t_soft_time_limit t = None then PNone else PList [bnd (t_time_limit t), bnd (t_soft_time_limit t)]),
       (''ignore_result'', field kw ''ignore_result'' (PBool False)),
       (''delivery_info'', PDict [(''is_eager'', PBool True), (''exchange'', field kw ''exchange'' PNone),
          (''routing_key'', field kw ''routing_key'' PNone), (''priority'', field kw ''priority'' PNone)])]
      @ (if dict_get kw ''stamped_headers'' = None then []
         else [(''stamped_headers'', hs),
               (''stamps'', PDict (map (\<lambda>h. (h, ap_maybe_list env (field kw h (PList []))))
                  (case hs of PList vs \<Rightarrow> map (\<lambda>v. case v of PStr s \<Rightarrow> s | _ \<Rightarrow> []) vs | _ \<Rightarrow> [])))]))"

definition next_options :: "tsig \<Rightarrow> pyv \<Rightarrow> fields" where
  "next_options s n = dict_set ''retries'' n (s_options s)"

text \<open>The count of the tasks run is part of the value. A task that always retries without limit never returns.\<close>

partial_function (option) apply_loop :: "apply_env \<Rightarrow> task_class \<Rightarrow> (fields \<Rightarrow> pyv \<Rightarrow> pyv \<Rightarrow> traced) \<Rightarrow> pyv \<Rightarrow> pyv \<Rightarrow> fields \<Rightarrow> nat \<Rightarrow>
    ((exn + pyv \<times> string \<times> pyv) \<times> nat) option" where
  "apply_loop env t trace a k kw i =
     (let q = eager_request env t kw in
      case trace q (py_or a (PTuple [])) (py_or k (PDict [])) of
        Traced st v \<Rightarrow> Some (Inr (field q ''id'' PNone, st, v), Suc i)
      | TracedRetry s \<Rightarrow> (case py_succ (field q ''retries'' PNone) of
          Inl err \<Rightarrow> Some (Inl err, Suc i)
        | Inr (n, _) \<Rightarrow> apply_loop env t trace (s_args s) (s_kwargs s) (next_options s n) (Suc i)))"

definition apply_task :: "apply_env \<Rightarrow> task_class \<Rightarrow> (fields \<Rightarrow> pyv \<Rightarrow> pyv \<Rightarrow> traced) \<Rightarrow> pyv \<Rightarrow> pyv \<Rightarrow> fields \<Rightarrow>
    ((exn + pyv \<times> string \<times> pyv) \<times> nat) option" where
  "apply_task env t trace a k kw = apply_loop env t trace a k kw 0"

section \<open>Contexts in the worker\<close>

text \<open>
  The request dictionary of a received message (\<open>Request\<close>), completed by the tracer with the arguments and what is embedded in the body, and
  the context made from it. \<open>custom\<close> are the headers that the sender added to those of the task; the body is a triple.
\<close>

definition request_dict :: "string \<Rightarrow> fields \<Rightarrow> fields \<Rightarrow> fields \<Rightarrow> pyv \<Rightarrow> pyv \<Rightarrow> fields" where
  "request_dict host hdrs props dinfo a k =
     dict_update hdrs
       [(''properties'', PDict props), (''reply_to'', field props ''reply_to'' PNone), (''correlation_id'', field props ''correlation_id'' PNone),
        (''hostname'', PStr host),
        (''delivery_info'', PDict [(''exchange'', field dinfo ''exchange'' PNone), (''routing_key'', field dinfo ''routing_key'' PNone),
           (''priority'', field props ''priority'' PNone), (''redelivered'', field dinfo ''redelivered'' (PBool False))]),
        (''args'', a), (''kwargs'', k)]"

definition worker_context :: "string \<Rightarrow> fields \<Rightarrow> fields \<Rightarrow> message \<Rightarrow> fields \<Rightarrow> fields result" where
  "worker_context host props dinfo m custom = (case body m of
     PTuple [a, k, PDict emb] \<Rightarrow>
       let q = dict_update (dict_update (request_dict host (dict_update (headers m) custom) props dinfo a k)
                 [(''args'', a), (''kwargs'', k), (''hostname'', PStr host), (''is_eager'', PBool False)]) emb in
       Inr (make_context (dict_update q [(''args'', a), (''called_directly'', PBool False), (''kwargs'', k)]))
   | _ \<Rightarrow> Inl ValueError)"

section \<open>Properties of calls\<close>

lemma dict_get_update_other: "k \<notin> set (keys e) \<Longrightarrow> dict_get (dict_update d e) k = dict_get d k"
  by (induction d e rule: dict_update.induct) (auto simp: dict_simps)

lemma dict_get_drop: "dict_get (drop_keys ks d) k = (if k \<in> set ks then None else dict_get d k)"
  by (induction d) (auto simp: drop_keys_def)

lemma dict_wf_drop: "dict_wf d \<Longrightarrow> dict_wf (drop_keys ks d)"
  unfolding drop_keys_def by (metis distinct_map_filter)

lemma dict_get_setdefault: "dict_get (dict_setdefault k v d) k' = (if k' = k \<and> dict_get d k = None then Some v else dict_get d k')"
  by (auto simp: dict_setdefault_def dict_simps split: option.splits)

text \<open>Options that a call gives are passed on, except those the call itself sets.\<close>

lemma call_options_get:
  assumes "dict_wf kw" and "k' \<notin> {''task_id'', ''link'', ''link_error'', ''shadow'', ''producer'', ''ignore_result'', ''priority''}"
    and "dict_get kw k' = Some v"
  shows "dict_get (call_options_of t a k kw) k' = Some v"
proof -
  let ?o = "drop_keys [''task_id'', ''producer'', ''link'', ''link_error'', ''shadow''] kw"
  have "dict_get ?o k' = Some v" using assms by (auto simp: dict_get_drop)
  then have "dict_get (dict_update (t_exec_options t) ?o) k' = Some v"
    using dict_get_update [OF dict_wf_drop [OF assms(1)]] by simp
  then show ?thesis using assms(2) by (auto simp: call_options_of_def Let_def dict_get_setdefault map_add_Some_iff)
qed

lemma call_options_named:
  "dict_get (call_options_of t a k kw) ''task_id'' = Some (field kw ''task_id'' PNone)"
  "dict_get (call_options_of t a k kw) ''link'' = Some (field kw ''link'' PNone)"
  "dict_get (call_options_of t a k kw) ''link_error'' = Some (field kw ''link_error'' PNone)"
  by (simp_all add: call_options_of_def Let_def)

lemma as_execution_options_wf: "as_execution_options c = Inr eo \<Longrightarrow> dict_wf eo"
  by (auto simp: as_execution_options_def stamp_options_def res_bind_Inr_iff distinct_update inv_intros dict_wf_update split: if_splits pyv.splits prod.splits)

text \<open>A signature made from a request has the options of the request, except what is given anew and what says where to send it.\<close>

lemma signature_options:
  assumes "signature_from_request t c a k que extra = Inr s" and "as_execution_options c = Inr eo" and "py_mapping (ctx c ''delivery_info'') = Inr di"
    and "k' \<notin> set (keys extra)" and "k' \<notin> set (keys di)" and "k' \<notin> {''priority'', ''queue''}"
  shows "dict_get (s_options s) k' = dict_get eo k'"
  using assms unfolding signature_from_request_def Let_def new_signature_def
  by (auto simp: res_bind_Inr_iff dict_get_update_other dict_simps)

lemma signature_options_extra:
  assumes "signature_from_request t c a k que extra = Inr s" and "dict_wf extra" and "dict_get extra k' = Some v"
  shows "dict_get (s_options s) k' = Some v"
  using assms unfolding signature_from_request_def Let_def new_signature_def
  by (auto simp: res_bind_Inr_iff dict_get_update)

lemma signature_options_wf:
  assumes "signature_from_request t c a k que extra = Inr s"
  shows "dict_wf (s_options s)"
proof -
  from assms obtain eo where "as_execution_options c = Inr eo" by (auto simp: signature_from_request_def Let_def res_bind_Inr_iff)
  then have "dict_wf eo" by (rule as_execution_options_wf)
  with assms show ?thesis
    unfolding signature_from_request_def Let_def new_signature_def \<open>as_execution_options c = Inr eo\<close>
    by (auto simp: res_bind_Inr_iff intro!: dict_wf_update dict_wf_set)
qed

text \<open>What a call that publishes has computed.\<close>

lemma send_task_published:
  assumes "send_task env name a k has_type kw lg = (r, lg @ evs)" and "PublishTask m opts \<in> set evs"
  obtains cd rid pid stamped o1 o2 where
    "as_task_v2 (se_app env) (task_message_call env (py_or (field kw ''task_id'' PNone) (PStr (se_uuid env))) name a k cd kw
       (explicit_or kw (named_options env name has_type kw) ''expires'') (explicit_or kw (named_options env name has_type kw) ''time_limit'')
       (explicit_or kw (named_options env name has_type kw) ''soft_time_limit'')
       (field (named_options env name has_type kw) ''ignore_result'' (PBool False)) rid pid stamped o2) = Inr m"
    "family env (field kw ''root_id'' PNone) (field kw ''parent_id'' PNone) o1 = Inr (rid, pid, o2)"
  using assms unfolding send_task_def Let_def
  by (auto simp: res_bind_Inr_iff split: sum.splits prod.splits if_splits)

lemma as_task_v2_headers:
  assumes "as_task_v2 env c = Inr m"
  shows "dict_get (headers m) ''id'' = Some (task_id c)" "dict_get (headers m) ''group'' = Some (group_id c)"
    "dict_get (headers m) ''group_index'' = Some (group_index c)" "dict_get (headers m) ''retries'' = Some (retries c)"
    "dict_get (headers m) ''timelimit'' = Some (PList [time_limit c, soft_time_limit c])"
    "dict_get (headers m) ''root_id'' = Some (py_or (root_id c) (task_id c))" "dict_get (headers m) ''parent_id'' = Some (parent_id c)"
    "dict_get (headers m) ''replaced_task_nesting'' = Some (replaced_task_nesting c)"
    "dict_get (headers m) ''ignore_result'' = Some (ignore_result c)"
    "body m = PTuple [py_or (args c) (PTuple []), py_or (kwargs c) (PDict []),
       PDict [(''callbacks'', callbacks c), (''errbacks'', errbacks c), (''chain'', chain c), (''chord'', chord c)]]"
  using assms unfolding as_task_v2_def Let_def by (auto simp: res_bind_Inr_iff)

text \<open>A retry publishes only through the signature made from the request.\<close>

lemma retry_published:
  assumes "retry (sig_apply_async env t) t c rc lg = (r, t', lg @ evs)" and "PublishTask m opts \<in> set evs"
  obtains n cnt s x where "py_succ (ctx c ''retries'') = Inr (n, cnt)" "retry_signature t c rc n = Inr s"
    "send_task env (t_name t) (s_args s) (s_kwargs s) True (call_options_of t (s_args s) (s_kwargs s) (s_options s)) lg = (x, lg @ evs)"
  using assms unfolding retry_def Let_def sig_apply_async_def task_apply_async_def
  by (auto split: sum.splits prod.splits if_splits option.splits)

text \<open>The options that belong to the request itself, and the attributes they come from.\<close>

definition own_options :: "(string \<times> string) list" where
  "own_options = [(''task_id'', ''id''), (''root_id'', ''root_id''), (''parent_id'', ''parent_id''), (''group_id'', ''group''),
     (''group_index'', ''group_index''), (''chord'', ''chord''), (''chain'', ''chain''), (''link'', ''callbacks''), (''link_error'', ''errbacks''),
     (''replaced_task_nesting'', ''replaced_task_nesting'')]"

definition own_keys :: "string list" where
  "own_keys = keys own_options @ [''time_limit'', ''soft_time_limit'', ''retries'', ''countdown'', ''eta'']"

definition delivery_keys :: "string list" where
  "delivery_keys = [''exchange'', ''routing_key'', ''priority'', ''redelivered'']"

lemma as_execution_options_own:
  assumes "as_execution_options c = Inr eo" and "ctx c ''stamped_headers'' = PNone"
  shows "\<forall>(o', a) \<in> set own_options. dict_get eo o' = Some (ctx c a)"
  using assms by (auto simp: as_execution_options_def stamp_options_def own_options_def res_bind_Inr_iff split: prod.splits)

lemma as_execution_options_limits:
  assumes "as_execution_options c = Inr eo" and "ctx c ''stamped_headers'' = PNone" and "ctx c ''timelimit'' = PList [hard, soft]"
  shows "dict_get eo ''time_limit'' = Some hard" "dict_get eo ''soft_time_limit'' = Some soft"
  using assms by (auto simp: as_execution_options_def stamp_options_def res_bind_Inr_iff py_or_def split: prod.splits)

text \<open>A request that came through a worker, without stamps, and a retry with options that leave the request as it is.\<close>

definition plain_retry :: "fields \<Rightarrow> retry_call \<Rightarrow> bool" where
  "plain_retry c rc \<longleftrightarrow> ctx c ''stamped_headers'' = PNone \<and>
     (\<exists>di. ctx c ''delivery_info'' = PDict di \<and> set (keys di) \<subseteq> set delivery_keys) \<and>
     dict_wf (rc_options rc) \<and> set (keys (rc_options rc)) \<inter> set own_keys = {}"

definition retried :: "task_class \<Rightarrow> fields \<Rightarrow> retry_call \<Rightarrow> pyv \<Rightarrow> tsig \<Rightarrow> bool" where
  "retried t c rc n s \<longleftrightarrow> retry_signature t c rc n = Inr s \<and> plain_retry c rc"

lemma request_options_kept:
  assumes "retried t c rc n s" and "k' \<in> set own_keys" and "k' \<notin> {''countdown'', ''eta'', ''retries''}"
  obtains eo where "as_execution_options c = Inr eo" "dict_get (s_options s) k' = dict_get eo k'"
proof -
  from assms(1) obtain eo di where eo: "as_execution_options c = Inr eo" and di: "ctx c ''delivery_info'' = PDict di" "set (keys di) \<subseteq> set delivery_keys"
    by (auto simp: retried_def plain_retry_def retry_signature_def signature_from_request_def Let_def res_bind_Inr_iff)
  have sig: "retry_signature t c rc n = Inr s" and "set (keys (rc_options rc)) \<inter> set own_keys = {}" using assms(1) by (auto simp: retried_def plain_retry_def)
  moreover have "k' \<notin> set delivery_keys" "k' \<notin> {''priority'', ''queue''}" using assms(2) by (auto simp: own_keys_def own_options_def delivery_keys_def)
  ultimately have "dict_get (s_options s) k' = dict_get eo k'"
    using assms(2,3) di by (intro signature_options [OF sig [unfolded retry_signature_def Let_def] eo, where di = di]) auto
  with eo show thesis by (rule that)
qed

lemma retried_wf: "retried t c rc n s \<Longrightarrow> dict_wf (s_options s)"
  unfolding retried_def retry_signature_def Let_def by (blast intro: signature_options_wf)

lemma own_in_call:
  assumes "retried t c rc n s" and "(o', a) \<in> set own_options"
  shows "dict_get (call_options_of t x y (s_options s)) o' = Some (ctx c a)"
proof -
  have "o' \<in> set own_keys" "o' \<notin> {''countdown'', ''eta'', ''retries''}" using assms(2) by (auto simp: own_keys_def own_options_def)
  from request_options_kept [OF assms(1) this] obtain eo where eo: "as_execution_options c = Inr eo" "dict_get (s_options s) o' = dict_get eo o'" .
  have opt: "dict_get (s_options s) o' = Some (ctx c a)"
    using as_execution_options_own [OF eo(1)] assms eo(2) by (auto simp: retried_def plain_retry_def)
  show ?thesis
  proof (cases "o' \<in> {''task_id'', ''link'', ''link_error''}")
    case True
    then show ?thesis using opt by (auto simp: call_options_named field_def)
  next
    case False
    moreover have "o' \<notin> {''shadow'', ''producer'', ''ignore_result'', ''priority''}" using assms(2) by (auto simp: own_options_def)
    ultimately show ?thesis using opt by (intro call_options_get [OF retried_wf [OF assms(1)]]) auto
  qed
qed

lemma limits_in_call:
  assumes "retried t c rc n s" and "ctx c ''timelimit'' = PList [hard, soft]"
  shows "dict_get (call_options_of t x y (s_options s)) ''time_limit'' = Some hard"
    "dict_get (call_options_of t x y (s_options s)) ''soft_time_limit'' = Some soft"
proof -
  have u: "ctx c ''stamped_headers'' = PNone" using assms(1) by (simp add: retried_def plain_retry_def)
  have k: "''time_limit'' \<in> set own_keys" "''soft_time_limit'' \<in> set own_keys" by (simp_all add: own_keys_def)
  show "dict_get (call_options_of t x y (s_options s)) ''time_limit'' = Some hard"
    using request_options_kept [OF assms(1) k(1)] as_execution_options_limits(1) [OF _ u assms(2)]
    by (intro call_options_get [OF retried_wf [OF assms(1)]]) fastforce+
  show "dict_get (call_options_of t x y (s_options s)) ''soft_time_limit'' = Some soft"
    using request_options_kept [OF assms(1) k(2)] as_execution_options_limits(2) [OF _ u assms(2)]
    by (intro call_options_get [OF retried_wf [OF assms(1)]]) fastforce+
qed

lemma retries_in_call:
  assumes "retried t c rc n s"
  shows "dict_get (call_options_of t x y (s_options s)) ''retries'' = Some n"
proof -
  have "dict_wf (dict_del ''queue'' (rc_options rc))" using assms by (intro dict_wf_del) (simp add: retried_def plain_retry_def)
  moreover have "set (keys (dict_del ''queue'' (rc_options rc))) \<inter> set own_keys = {}" using assms by (auto simp: retried_def plain_retry_def)
  moreover have "retry_signature t c rc n = Inr s" using assms by (simp add: retried_def plain_retry_def)
  ultimately have "dict_get (s_options s) ''retries'' = Some n"
    unfolding retry_signature_def Let_def by (elim signature_options_extra) (auto simp: own_keys_def image_iff)
  then show ?thesis by (intro call_options_get [OF retried_wf [OF assms]]) auto
qed

text \<open>What is read from the context of a received message.\<close>

lemma worker_context_get:
  assumes "worker_context host props dinfo m custom = Inr c'" and "body m = PTuple [a, k, PDict emb]" and "dict_wf emb"
    and "set (keys emb) \<inter> {''args'', ''kwargs'', ''called_directly'', ''headers'', ''timelimit'', ''time_limit'', ''soft_time_limit''} = {}"
    and "k' \<in> set (keys context_defaults)" and "set (keys custom) \<inter> set celery_keys = {}"
    and "k' \<notin> {''headers'', ''time_limit'', ''soft_time_limit'', ''properties'', ''reply_to'', ''correlation_id'', ''hostname'', ''delivery_info'',
      ''args'', ''kwargs'', ''is_eager'', ''called_directly''}"
  shows "dict_get c' k' = (case dict_get emb k' of Some v \<Rightarrow> Some v | None \<Rightarrow> dict_get (headers m) k')"
proof -
  define q where "q = dict_update (dict_update (request_dict host (dict_update (headers m) custom) props dinfo a k)
    [(''args'', a), (''kwargs'', k), (''hostname'', PStr host), (''is_eager'', PBool False)]) emb"
  define q' where "q' = dict_update q [(''args'', a), (''called_directly'', PBool False), (''kwargs'', k)]"
  have c': "c' = make_context q'" using assms(1,2) by (simp add: worker_context_def q_def q'_def Let_def)
  have "dict_get c' k' = dict_get q' k'"
    using assms(7) by (auto simp: c' make_context_def context_update_def Let_def dict_simps split: option.splits prod.splits)
  also have "\<dots> = dict_get q k'" using assms(7) unfolding q'_def by (intro dict_get_update_other) auto
  also have "\<dots> = (case dict_get emb k' of Some v \<Rightarrow> Some v | None \<Rightarrow>
      dict_get (dict_update (request_dict host (dict_update (headers m) custom) props dinfo a k)
        [(''args'', a), (''kwargs'', k), (''hostname'', PStr host), (''is_eager'', PBool False)]) k')"
    unfolding q_def using dict_get_update [OF assms(3)] by (simp split: option.splits)
  also have "dict_get (dict_update (request_dict host (dict_update (headers m) custom) props dinfo a k)
        [(''args'', a), (''kwargs'', k), (''hostname'', PStr host), (''is_eager'', PBool False)]) k' = dict_get (headers m) k'"
  proof -
    have "k' \<notin> set (keys custom)" using assms(5,6) by (auto simp: celery_keys_def)
    then have "dict_get (dict_update (headers m) custom) k' = dict_get (headers m) k'" by (rule dict_get_update_other)
    then show ?thesis using assms(7) by (subst dict_get_update_other) (auto simp: request_dict_def dict_get_update_other dict_simps)
  qed
  finally show ?thesis .
qed

lemma family_ids:
  assumes "family env a b o1 = Inr (rid, pid, o2)" and "se_current env = Some c"
  shows "rid = py_or a (py_or (ctx c ''root_id'') (ctx c ''id'')) \<and> pid = py_or b (ctx c ''id'')"
  using assms by (cases "ctx c ''delivery_info''") (auto simp: family_def py_or_def Let_def split: if_splits)

definition callback_list :: "pyv \<Rightarrow> bool" where
  "callback_list v \<longleftrightarrow> v = PNone \<or> (\<exists>vs. v = PList vs)"

text \<open>\<open>maybe_list\<close> of the broker library keeps lists and \<open>None\<close>.\<close>

definition keeps_lists :: "(pyv \<Rightarrow> pyv) \<Rightarrow> bool" where
  "keeps_lists f \<longleftrightarrow> (\<forall>v. callback_list v \<longrightarrow> f v = v)"

lemma maybe_list_id: "keeps_lists f \<Longrightarrow> callback_list v \<Longrightarrow> f v = v"
  by (simp add: keeps_lists_def)

text \<open>The message of a retry, in the terms of the request that is retried.\<close>

lemma retry_message:
  assumes "retry (sig_apply_async env t) t c rc lg = (r, t', lg @ evs)" and "PublishTask m opts \<in> set evs"
    and "plain_retry c rc" and "py_succ (ctx c ''retries'') = Inr (n, cnt)"
    and "se_current env = Some c" and "py_true (ctx c ''id'')" and "ctx c ''timelimit'' = PList [hard, soft]"
    and "callback_list (ctx c ''callbacks'')" "callback_list (ctx c ''errbacks'')" and "keeps_lists (se_maybe_list env)"
  obtains a k where
    "body m = PTuple [a, k, PDict [(''callbacks'', ctx c ''callbacks''), (''errbacks'', ctx c ''errbacks''), (''chain'', ctx c ''chain''), (''chord'', ctx c ''chord'')]]"
    "dict_get (headers m) ''id'' = Some (ctx c ''id'')" "dict_get (headers m) ''group'' = Some (ctx c ''group'')"
    "dict_get (headers m) ''group_index'' = Some (ctx c ''group_index'')" "dict_get (headers m) ''retries'' = Some n"
    "dict_get (headers m) ''timelimit'' = Some (PList [hard, soft])"
    "dict_get (headers m) ''root_id'' = Some (py_or (ctx c ''root_id'') (ctx c ''id''))"
    "dict_get (headers m) ''parent_id'' = Some (py_or (ctx c ''parent_id'') (ctx c ''id''))"
    "dict_get (headers m) ''replaced_task_nesting'' = Some (ctx c ''replaced_task_nesting'')"
proof -
  from retry_published [OF assms(1,2)] obtain n' cnt' s x where n': "py_succ (ctx c ''retries'') = Inr (n', cnt')" and s': "retry_signature t c rc n' = Inr s"
    and sent: "send_task env (t_name t) (s_args s) (s_kwargs s) True (call_options_of t (s_args s) (s_kwargs s) (s_options s)) lg = (x, lg @ evs)" .
  have s: "retry_signature t c rc n = Inr s" using n' s' assms(4) by simp
  define kw where "kw = call_options_of t (s_args s) (s_kwargs s) (s_options s)"
  have rt: "retried t c rc n s" using s assms(3) by (simp add: retried_def)
  have own: "\<forall>(o', a) \<in> set own_options. dict_get kw o' = Some (ctx c a)" unfolding kw_def using own_in_call [OF rt] by blast
  have lim: "dict_get kw ''time_limit'' = Some hard" "dict_get kw ''soft_time_limit'' = Some soft"
    unfolding kw_def using limits_in_call [OF rt assms(7)] by auto
  have ret: "dict_get kw ''retries'' = Some n" unfolding kw_def by (rule retries_in_call [OF rt])
  have hard: "explicit_or kw d ''time_limit'' = hard" and soft: "explicit_or kw d ''soft_time_limit'' = soft" for d
    by (simp_all only: explicit_or_def lim option.case)
  from send_task_published [OF sent [folded kw_def] assms(2), unfolded hard soft] obtain cd rid pid stamped o1 o2 where
    call: "as_task_v2 (se_app env) (task_message_call env (py_or (field kw ''task_id'' PNone) (PStr (se_uuid env))) (t_name t) (s_args s) (s_kwargs s) cd kw
       (explicit_or kw (named_options env (t_name t) True kw) ''expires'') hard soft
       (field (named_options env (t_name t) True kw) ''ignore_result'' (PBool False)) rid pid stamped o2) = Inr m"
    and fam: "family env (field kw ''root_id'' PNone) (field kw ''parent_id'' PNone) o1 = Inr (rid, pid, o2)" .
  have id: "py_or (field kw ''task_id'' PNone) (PStr (se_uuid env)) = ctx c ''id''"
    using own assms(6) by (simp add: field_def own_options_def py_or_def)
  have "field kw ''root_id'' PNone = ctx c ''root_id''" "field kw ''parent_id'' PNone = ctx c ''parent_id''"
    using own by (simp_all add: own_options_def field_def)
  with family_ids [OF fam assms(5)] have root: "py_or rid (ctx c ''id'') = py_or (ctx c ''root_id'') (ctx c ''id'')"
    and parent: "pid = py_or (ctx c ''parent_id'') (ctx c ''id'')" by (auto simp: py_or_def)
  note h = as_task_v2_headers [OF call, unfolded id]
  show thesis
    by (rule that)
      (use h own ret root parent maybe_list_id [OF assms(10,8)] maybe_list_id [OF assms(10,9)] in \<open>simp_all add: task_message_call_def own_options_def field_def\<close>)
qed

section \<open>Properties of retries\<close>

definition kept_attributes :: "string list" where
  "kept_attributes = [''id'', ''group'', ''group_index'', ''chord'', ''chain'', ''callbacks'', ''errbacks'', ''timelimit'', ''replaced_task_nesting'']"

text \<open>
  C13: the worker that receives a retry continues the same request: its context has the id, the group and the place in it, the chord, the rest of the
  chain, the call-backs, the limits and the nesting of the request that was retried, and a count of retries one higher.
\<close>

theorem retry_continues_request:
  assumes "retry (sig_apply_async env t) t c rc lg = (r, t', lg @ evs)" and "PublishTask m opts \<in> set evs"
    and "plain_retry c rc" and "ctx c ''retries'' = PInt n" and "se_current env = Some c" and "py_true (ctx c ''id'')"
    and "ctx c ''timelimit'' = PList [hard, soft]" and "callback_list (ctx c ''callbacks'')" "callback_list (ctx c ''errbacks'')"
    and "keeps_lists (se_maybe_list env)" and "worker_context host props dinfo m custom = Inr c'" and "set (keys custom) \<inter> set celery_keys = {}"
  shows "(\<forall>k \<in> set kept_attributes. ctx c' k = ctx c k) \<and> ctx c' ''retries'' = PInt (n + 1)"
proof -
  have n: "py_succ (ctx c ''retries'') = Inr (PInt (n + 1), of_int n + 1)" by (simp add: assms(4))
  from retry_message [OF assms(1,2,3) n assms(5-10)] obtain a k where
    b: "body m = PTuple [a, k, PDict [(''callbacks'', ctx c ''callbacks''), (''errbacks'', ctx c ''errbacks''), (''chain'', ctx c ''chain''), (''chord'', ctx c ''chord'')]]"
    and h: "dict_get (headers m) ''id'' = Some (ctx c ''id'')" "dict_get (headers m) ''group'' = Some (ctx c ''group'')"
    "dict_get (headers m) ''group_index'' = Some (ctx c ''group_index'')" "dict_get (headers m) ''retries'' = Some (PInt (n + 1))"
    "dict_get (headers m) ''timelimit'' = Some (PList [hard, soft])"
    "dict_get (headers m) ''replaced_task_nesting'' = Some (ctx c ''replaced_task_nesting'')" by blast
  have get: "dict_get c' k' = (case dict_get [(''callbacks'', ctx c ''callbacks''), (''errbacks'', ctx c ''errbacks''), (''chain'', ctx c ''chain''), (''chord'', ctx c ''chord'')] k'
      of Some v \<Rightarrow> Some v | None \<Rightarrow> dict_get (headers m) k')" if "k' \<in> set (''retries'' # kept_attributes)" for k'
    using that by (intro worker_context_get [OF assms(11) b _ _ _ assms(12)]) (auto simp: kept_attributes_def context_defaults_def)
  have "\<forall>k' \<in> set kept_attributes. (case dict_get [(''callbacks'', ctx c ''callbacks''), (''errbacks'', ctx c ''errbacks''), (''chain'', ctx c ''chain''),
      (''chord'', ctx c ''chord'')] k' of Some v \<Rightarrow> Some v | None \<Rightarrow> dict_get (headers m) k') = Some (ctx c k')"
    by (simp add: kept_attributes_def h assms(7))
  then have "\<forall>k' \<in> set kept_attributes. dict_get c' k' = Some (ctx c k')" using get by (simp del: map_of.simps)
  moreover have "dict_get c' ''retries'' = Some (PInt (n + 1))" using get [of "''retries''"] h by simp
  ultimately show ?thesis by (simp add: ctx_def [of c'] field_def)
qed

text \<open>
  a task without a parent becomes its own parent when it is retried: the sender takes the running task for the missing parent, and the running task
  is the one that is retried.
\<close>

theorem retry_of_root_is_own_parent:
  assumes "retry (sig_apply_async env t) t c rc lg = (r, t', lg @ evs)" and "PublishTask m opts \<in> set evs"
    and "plain_retry c rc" and "ctx c ''retries'' = PInt n" and "se_current env = Some c" and "py_true (ctx c ''id'')"
    and "ctx c ''timelimit'' = PList [hard, soft]" and "callback_list (ctx c ''callbacks'')" "callback_list (ctx c ''errbacks'')"
    and "keeps_lists (se_maybe_list env)" and "ctx c ''parent_id'' = PNone"
  shows "dict_get (headers m) ''parent_id'' = Some (ctx c ''id'')"
proof -
  have n: "py_succ (ctx c ''retries'') = Inr (PInt (n + 1), of_int n + 1)" by (simp add: assms(4))
  from retry_message [OF assms(1,2,3) n assms(5-10)] show ?thesis using assms(11) by (simp add: py_or_def)
qed

lemma send_task_ignore_result:
  assumes "send_task env name a k has_type kw lg = (r, lg @ evs)" and "PublishTask m opts \<in> set evs"
  shows "dict_get (headers m) ''ignore_result'' = Some (field (named_options env name has_type kw) ''ignore_result'' (PBool False))"
  by (rule send_task_published [OF assms]) (drule as_task_v2_headers(9), simp add: task_message_call_def)

lemma send_task_message_parts:
  assumes "send_task env name a k has_type kw lg = (r, lg @ evs)" and "PublishTask m opts \<in> set evs"
  shows "dict_get (headers m) ''retries'' = Some (field kw ''retries'' (PInt 0))"
    "\<exists>a' k' emb. body m = PTuple [a', k', PDict emb] \<and> keys emb = [''callbacks'', ''errbacks'', ''chain'', ''chord'']"
  by (rule send_task_published [OF assms], drule as_task_v2_headers(4), simp add: task_message_call_def)
    (rule send_task_published [OF assms], drule as_task_v2_headers(10), simp)

text \<open>
  a retry forgets whether the caller asked to ignore the result: the message says what the task class says.
\<close>

theorem retry_drops_ignore_result:
  assumes "retry (sig_apply_async env t) t c rc lg = (r, t', lg @ evs)" and "PublishTask m opts \<in> set evs"
    and "plain_retry c rc" and "''ignore_result'' \<notin> set (keys (rc_options rc)) \<union> set (keys (t_exec_options t))"
  shows "dict_get (headers m) ''ignore_result'' = Some (t_ignore_result t)"
proof -
  from retry_published [OF assms(1,2)] obtain n cnt s x where s: "retry_signature t c rc n = Inr s"
    and sent: "send_task env (t_name t) (s_args s) (s_kwargs s) True (call_options_of t (s_args s) (s_kwargs s) (s_options s)) lg = (x, lg @ evs)" by blast
  obtain eo di where eo: "as_execution_options c = Inr eo" and di: "ctx c ''delivery_info'' = PDict di" "set (keys di) \<subseteq> set delivery_keys"
    using s assms(3) by (auto simp: plain_retry_def retry_signature_def signature_from_request_def Let_def res_bind_Inr_iff)
  have "dict_get (s_options s) ''ignore_result'' = dict_get eo ''ignore_result''"
    using assms(4) di by (intro signature_options [OF s [unfolded retry_signature_def Let_def] eo, where di = di]) (auto simp: delivery_keys_def)
  moreover have "dict_get eo ''ignore_result'' = None"
    using eo assms(3) by (auto simp: as_execution_options_def stamp_options_def plain_retry_def res_bind_Inr_iff split: prod.splits)
  ultimately have none: "''ignore_result'' \<notin> set (keys (drop_keys [''task_id'', ''producer'', ''link'', ''link_error'', ''shadow''] (s_options s)))"
    unfolding dict_get_None_iff [symmetric] by (simp add: dict_get_drop)
  have ign: "dict_get (call_options_of t (s_args s) (s_kwargs s) (s_options s)) ''ignore_result'' = Some (t_ignore_result t)"
    using assms(4) by (simp add: call_options_of_def Let_def dict_get_setdefault dict_get_update_other [OF none] dict_get_None_iff)
  have "dict_get (named_options env (t_name t) True kw) ''ignore_result'' = dict_get kw ''ignore_result''" for kw
    unfolding named_options_def Let_def using dict_get_drop [of send_task_params kw "''ignore_result''"] by (simp add: drop_keys_def send_task_params_def)
  then show ?thesis using send_task_ignore_result [OF sent assms(2)] ign by (simp add: field_def)
qed

text \<open>The messages in a part of the log.\<close>

fun is_publish :: "sent_log \<Rightarrow> bool" where
  "is_publish (PublishTask m opts) = True"
| "is_publish _ = False"

lemma send_task_log:
  "send_task env name a k has_type kw lg = (r, lg') \<Longrightarrow>
     (case r of Inl _ \<Rightarrow> lg' = lg | Inr _ \<Rightarrow> \<exists>evs. lg' = lg @ evs \<and> length (filter is_publish evs) = 1)"
  unfolding send_task_def Let_def by (auto split: sum.splits prod.splits)

lemma sig_apply_async_log:
  "sig_apply_async env t s lg = (r, lg') \<Longrightarrow>
     (case r of Inl _ \<Rightarrow> lg' = lg | Inr _ \<Rightarrow> \<exists>evs. lg' = lg @ evs \<and> length (filter is_publish evs) = 1)"
  unfolding sig_apply_async_def task_apply_async_def by (auto dest!: send_task_log split: option.splits if_splits sum.splits)

definition is_retry :: "rexc + rexc \<Rightarrow> bool" where
  "is_retry r = (case r of Inl (RetryExc (Some _)) \<Rightarrow> True | Inr (RetryExc (Some _)) \<Rightarrow> True | _ \<Rightarrow> False)"

lemma retry_log:
  assumes "retry (sig_apply_async env t) t c rc lg = (r, t', lg')" and "ctx c ''called_directly'' = PBool False" and "ctx c ''is_eager'' = PBool False"
  shows "(if is_retry r then \<exists>evs. lg' = lg @ evs \<and> length (filter is_publish evs) = 1 else lg' = lg) \<and>
    (is_retry r \<longrightarrow> (\<exists>n cnt. py_succ (ctx c ''retries'') = Inr (n, cnt) \<and> \<not> over_limit (retry_limit t rc) cnt))"
proof (cases "py_succ (ctx c ''retries'')")
  case (Inl e)
  then show ?thesis using assms(1) by (auto simp: retry_def is_retry_def)
next
  case (Inr p)
  obtain n cnt where p: "p = (n, cnt)" by fastforce
  show ?thesis
  proof (cases "retry_signature t c rc n")
    case (Inl e)
    then show ?thesis using assms Inr p by (auto simp: retry_def is_retry_def Let_def)
  next
    case (Inr s)
    show ?thesis
    proof (cases "over_limit (retry_limit t rc) cnt")
      case True
      then show ?thesis using assms \<open>py_succ _ = Inr p\<close> p Inr by (auto simp: retry_def is_retry_def Let_def split: option.splits)
    next
      case False
      obtain x lg1 where sub: "sig_apply_async env t s lg = (x, lg1)" by fastforce
      have "retry (sig_apply_async env t) t c rc lg = (case x of Inl _ \<Rightarrow> Inl RejectExc | Inr _ \<Rightarrow> (if rc_throw rc then Inl else Inr) (RetryExc (Some s)),
          case rc_max_retries rc of None \<Rightarrow> t | Some m \<Rightarrow> t\<lparr>t_override_max_retries := Some m\<rparr>, lg1)"
        using assms(2,3) \<open>py_succ _ = Inr p\<close> p Inr False sub by (simp add: retry_def Let_def split: sum.splits)
      then show ?thesis
        using assms(1) sig_apply_async_log [OF sub] False \<open>py_succ _ = Inr p\<close> p by (auto simp: is_retry_def split: sum.splits)
    qed
  qed
qed

text \<open>
  in the worker, \<open>retry\<close> ends with a \<open>Retry\<close> exactly if it has sent one message, and otherwise it has sent none. Beyond the limit it
  never does, whatever the task is retried for; an error while sending becomes a rejection.
\<close>

theorem retry_sends_once:
  assumes "retry (sig_apply_async env t) t c rc lg = (r, t', lg')" and "ctx c ''called_directly'' = PBool False" and "ctx c ''is_eager'' = PBool False"
  shows "(if is_retry r then \<exists>evs. lg' = lg @ evs \<and> length (filter is_publish evs) = 1 else lg' = lg) \<and>
    (is_retry r \<longrightarrow> (\<exists>n cnt. py_succ (ctx c ''retries'') = Inr (n, cnt) \<and> \<not> over_limit (retry_limit t rc) cnt))"
  by (rule retry_log [OF assms])

section \<open>A run with a retry\<close>

definition sample_send_env :: "fields \<Rightarrow> send_env" where
  "sample_send_env c = \<lparr>se_app = sample_app, se_uuid = ''new'', se_router = (\<lambda>o' n. Inr o'), se_delay = (\<lambda>e cd o'. Inr (cd, o')),
     se_isoparse = (\<lambda>s. Inl ValueError), se_registry = (\<lambda>n. None), se_current = Some c, se_inherit_priority = False,
     se_send_sent_event = False, se_thread_oid = PStr ''oid'',
     se_maybe_list = (\<lambda>v. if v = PNone then v else (case v of PList vs \<Rightarrow> v | _ \<Rightarrow> PList [v]))\<rparr>"

definition sample_task :: task_class where
  "sample_task = \<lparr>t_name = ''proj.add'', t_max_retries = Some 3, t_default_retry_delay = PInt 180, t_override_max_retries = None,
     t_exec_options = [(''queue'', PNone), (''time_limit'', PNone)], t_ignore_result = PBool False, t_priority = PNone, t_time_limit = None, t_soft_time_limit = None,
     t_check_arguments = (\<lambda>a k. None), t_shadow_name = (\<lambda>a k o'. PNone)\<rparr>"

definition sample_context :: fields where
  "sample_context = [(''id'', PStr ''id1''), (''root_id'', PStr ''id1''), (''retries'', PInt 0), (''timelimit'', PList [PInt 30, PNone]),
     (''group'', PStr ''g''), (''group_index'', PInt 2), (''chain'', PList [PObject 5]), (''callbacks'', PList [PObject 6]), (''ignore_result'', PBool True),
     (''args'', PList [PInt 2, PInt 3]), (''kwargs'', PDict []), (''called_directly'', PBool False),
     (''delivery_info'', PDict [(''exchange'', PStr []), (''routing_key'', PStr ''celery''), (''priority'', PInt 4), (''redelivered'', PBool False)])]"

definition sample_retry :: retry_call where
  "sample_retry = \<lparr>rc_args = PNone, rc_kwargs = PNone, rc_exc = Some 1, rc_throw = True, rc_eta = PNone, rc_countdown = PInt 10, rc_max_retries = None, rc_options = []\<rparr>"

lemma sample_context_facts:
  "ctx sample_context ''retries'' = PInt 0" "py_true (ctx sample_context ''id'')" "ctx sample_context ''timelimit'' = PList [PInt 30, PNone]"
  "callback_list (ctx sample_context ''callbacks'')" "callback_list (ctx sample_context ''errbacks'')" "ctx sample_context ''parent_id'' = PNone"
  "ctx sample_context ''called_directly'' = PBool False" "ctx sample_context ''is_eager'' = PBool False"
  by (simp_all add: sample_context_def ctx_def field_def context_defaults_def callback_list_def)

lemma sample_keeps_lists: "keeps_lists (se_maybe_list (sample_send_env c))"
  by (auto simp: keeps_lists_def callback_list_def sample_send_env_def)

lemma sample_plain_retry: "plain_retry sample_context sample_retry"
  by (simp add: plain_retry_def sample_context_def ctx_def field_def context_defaults_def sample_retry_def delivery_keys_def)

lemma sample_retry_sends:
  obtains r t' evs m opts where
    "retry (sig_apply_async (sample_send_env sample_context) sample_task) sample_task sample_context sample_retry [] = (r, t', [] @ evs)"
    "PublishTask m opts \<in> set evs" "is_retry r"
proof -
  let ?run = "retry (sig_apply_async (sample_send_env sample_context) sample_task) sample_task sample_context sample_retry []"
  have r: "is_retry (fst ?run)" by code_simp
  obtain r t' lg' where run: "?run = (r, t', lg')" by (metis prod.exhaust)
  from retry_log [OF run] r run obtain evs where evs: "lg' = [] @ evs" "length (filter is_publish evs) = 1"
    by (auto simp: sample_context_facts)
  then obtain e where "e \<in> set evs" "is_publish e" by (metis filter_False length_0_conv zero_neq_one)
  moreover have "\<exists>m opts. e = PublishTask m opts" using \<open>is_publish e\<close> by (cases e) auto
  ultimately obtain m opts where "PublishTask m opts \<in> set evs" by blast
  with run evs r show thesis by (intro that) auto
qed

lemma sample_second_context:
  obtains r t' evs m opts c' where
    "retry (sig_apply_async (sample_send_env sample_context) sample_task) sample_task sample_context sample_retry [] = (r, t', [] @ evs)"
    "PublishTask m opts \<in> set evs" "worker_context ''host'' [] [] m [] = Inr c'"
proof -
  obtain r t' evs m opts where run: "retry (sig_apply_async (sample_send_env sample_context) sample_task) sample_task sample_context sample_retry [] = (r, t', [] @ evs)"
    and p: "PublishTask m opts \<in> set evs" by (rule sample_retry_sends)
  have cur: "se_current (sample_send_env sample_context) = Some sample_context" by (simp add: sample_send_env_def)
  obtain c' where "worker_context ''host'' [] [] m [] = Inr c'"
    by (rule retry_message [OF run p sample_plain_retry _ cur sample_context_facts(2-5) sample_keeps_lists, of "PInt 1" 1]) (simp_all add: sample_context_facts worker_context_def Let_def)
  with run p show thesis by (rule that)
qed

theorem retry_continues_request_witness:
  "\<exists>r t' evs m opts c'. retry (sig_apply_async (sample_send_env sample_context) sample_task) sample_task sample_context sample_retry [] = (r, t', evs) \<and>
     PublishTask m opts \<in> set evs \<and> worker_context ''host'' [] [] m [] = Inr c' \<and> ctx c' ''id'' = PStr ''id1'' \<and> ctx c' ''retries'' = PInt 1 \<and>
     ctx c' ''chain'' = PList [PObject 5]"
proof -
  from sample_second_context obtain r t' evs m opts c' where
    run: "retry (sig_apply_async (sample_send_env sample_context) sample_task) sample_task sample_context sample_retry [] = (r, t', [] @ evs)"
    and p: "PublishTask m opts \<in> set evs" and c': "worker_context ''host'' [] [] m [] = Inr c'" .
  have cur: "se_current (sample_send_env sample_context) = Some sample_context" by (simp add: sample_send_env_def)
  from retry_continues_request [OF run p sample_plain_retry sample_context_facts(1) cur sample_context_facts(2-5) sample_keeps_lists c']
  have "ctx c' ''id'' = ctx sample_context ''id''" "ctx c' ''chain'' = ctx sample_context ''chain''" "ctx c' ''retries'' = PInt 1"
    by (simp_all add: kept_attributes_def)
  moreover have "ctx sample_context ''id'' = PStr ''id1''" "ctx sample_context ''chain'' = PList [PObject 5]"
    by (simp_all add: sample_context_def ctx_def field_def)
  ultimately show ?thesis using run p c' by auto
qed

theorem retry_of_root_is_own_parent_witness:
  "\<exists>r t' evs m opts. retry (sig_apply_async (sample_send_env sample_context) sample_task) sample_task sample_context sample_retry [] = (r, t', evs) \<and> PublishTask m opts \<in> set evs \<and>
     dict_get (headers m) ''parent_id'' = Some (PStr ''id1'')"
proof -
  obtain r t' evs m opts where run: "retry (sig_apply_async (sample_send_env sample_context) sample_task) sample_task sample_context sample_retry [] = (r, t', [] @ evs)"
    and p: "PublishTask m opts \<in> set evs" by (rule sample_retry_sends)
  have cur: "se_current (sample_send_env sample_context) = Some sample_context" by (simp add: sample_send_env_def)
  from retry_of_root_is_own_parent [OF run p sample_plain_retry sample_context_facts(1) cur sample_context_facts(2-5) sample_keeps_lists sample_context_facts(6)]
  have "dict_get (headers m) ''parent_id'' = Some (PStr ''id1'')" by (simp add: sample_context_def ctx_def field_def)
  then show ?thesis using run p by auto
qed

theorem retry_drops_ignore_result_witness:
  "ctx sample_context ''ignore_result'' = PBool True \<and> (\<exists>r t' evs m opts. retry (sig_apply_async (sample_send_env sample_context) sample_task) sample_task sample_context sample_retry [] = (r, t', evs) \<and>
     PublishTask m opts \<in> set evs \<and> dict_get (headers m) ''ignore_result'' = Some (PBool False))"
proof -
  obtain r t' evs m opts where run: "retry (sig_apply_async (sample_send_env sample_context) sample_task) sample_task sample_context sample_retry [] = (r, t', [] @ evs)"
    and p: "PublishTask m opts \<in> set evs" by (rule sample_retry_sends)
  from retry_drops_ignore_result [OF run p sample_plain_retry] have "dict_get (headers m) ''ignore_result'' = Some (PBool False)"
    by (simp add: sample_retry_def sample_task_def)
  moreover have "ctx sample_context ''ignore_result'' = PBool True" by (simp add: sample_context_def ctx_def field_def)
  ultimately show ?thesis using run p by auto
qed

theorem retry_sends_once_witness:
  "\<exists>evs r t'. retry (sig_apply_async (sample_send_env sample_context) sample_task) sample_task sample_context sample_retry [] = (r, t', evs) \<and>
     length (filter is_publish evs) = 1"
proof -
  obtain r t' evs m opts where run: "retry (sig_apply_async (sample_send_env sample_context) sample_task) sample_task sample_context sample_retry [] = (r, t', [] @ evs)"
    and p: "PublishTask m opts \<in> set evs" "is_retry r" by (rule sample_retry_sends)
  from retry_sends_once [OF run sample_context_facts(7,8)] run p(2) show ?thesis by auto
qed

section \<open>Limits of retries\<close>

text \<open>
  A line of executions: the context of the next one is made from a message that a retry in the one before has published. Each retry is made by the
  task class as it is at that time, with any parameters, under a limit of at most \<open>M\<close>: that of the call, if it gives one, or that of the class.
\<close>

inductive executions :: "int \<Rightarrow> fields \<Rightarrow> nat \<Rightarrow> fields \<Rightarrow> bool" for M :: int and c0 :: fields where
  first: "executions M c0 1 c0"
| again: "executions M c0 i c \<Longrightarrow> plain_retry c rc \<Longrightarrow> retry_limit t rc = Some l \<Longrightarrow> l \<le> M \<Longrightarrow>
    retry (sig_apply_async env t) t c rc lg = (r, t', lg @ evs) \<Longrightarrow> PublishTask m opts \<in> set evs \<Longrightarrow>
    worker_context host props dinfo m custom = Inr c' \<Longrightarrow> set (keys custom) \<inter> set celery_keys = {} \<Longrightarrow> executions M c0 (Suc i) c'"

lemma retry_within_limit:
  assumes "retry submit t c rc b = (r, t', b')" and "py_succ (ctx c ''retries'') = Inr (n, cnt)" and "over_limit (retry_limit t rc) cnt"
  shows "b' = b \<and> \<not> is_retry r"
  using assms by (auto simp: retry_def is_retry_def Let_def split: if_splits sum.splits option.splits)

lemma retry_counts:
  assumes "retry (sig_apply_async env t) t c rc lg = (r, t', lg @ evs)" and "PublishTask m opts \<in> set evs" and "plain_retry c rc"
    and "worker_context host props dinfo m custom = Inr c'" and "set (keys custom) \<inter> set celery_keys = {}" and "ctx c ''retries'' = PInt n"
  shows "ctx c' ''retries'' = PInt (n + 1)"
proof -
  from retry_published [OF assms(1,2)] obtain n' cnt s x where n': "py_succ (ctx c ''retries'') = Inr (n', cnt)" and s': "retry_signature t c rc n' = Inr s"
    and sent: "send_task env (t_name t) (s_args s) (s_kwargs s) True (call_options_of t (s_args s) (s_kwargs s) (s_options s)) lg = (x, lg @ evs)" .
  have s: "retry_signature t c rc (PInt (n + 1)) = Inr s" using n' s' assms(6) by simp
  have rt: "retried t c rc (PInt (n + 1)) s" using s assms(3) by (simp add: retried_def)
  note h = send_task_message_parts [OF sent assms(2)]
  obtain a k emb where b: "body m = PTuple [a, k, PDict emb]" "keys emb = [''callbacks'', ''errbacks'', ''chain'', ''chord'']" using h(2) by (elim exE conjE)
  have "dict_get (headers m) ''retries'' = Some (PInt (n + 1))" using h(1) by (simp add: field_def retries_in_call [OF rt])
  moreover have "dict_get emb ''retries'' = None" unfolding dict_get_None_iff by (simp add: b(2))
  ultimately have "dict_get c' ''retries'' = Some (PInt (n + 1))"
    using worker_context_get [OF assms(4) b(1) _ _ _ assms(5), of "''retries''"] by (simp add: context_defaults_def b(2))
  then show ?thesis by (simp add: ctx_def field_def)
qed

lemma executions_count:
  assumes "executions M c0 i c" and "ctx c0 ''retries'' = PInt n0" and "n0 \<le> M"
  shows "ctx c ''retries'' = PInt (n0 + int i - 1) \<and> n0 + int i \<le> M + 1"
  using assms(1)
proof induction
  case first
  then show ?case using assms by simp
next
  case (again i c rc t l env lg r t' evs m opts host props dinfo custom c')
  then have n: "ctx c ''retries'' = PInt (n0 + int i - 1)" by simp
  have "ctx c' ''retries'' = PInt (n0 + int (Suc i) - 1)" using retry_counts [OF again.hyps(5,6,2,7,8) n] by simp
  moreover have "\<not> over_limit (retry_limit t rc) (of_int (n0 + int i))"
  proof
    assume "over_limit (retry_limit t rc) (of_int (n0 + int i))"
    with retry_within_limit [OF again.hyps(5)] n have "lg @ evs = lg" by auto
    then show False using again.hyps(6) by simp
  qed
  then have "n0 + int i \<le> l" using again.hyps(3) by (simp only: over_limit_def option.case not_less of_int_le_iff)
  ultimately show ?case using again.hyps(4) by simp
qed

text \<open>
  C34: along every line of retries a task is executed at most \<open>M + 1\<close> times, when each call of \<open>retry\<close> is under a limit of at most \<open>M\<close>, its own
  or that of the task class, the request has no stamps and the call's options do not replace the fields of the request itself. Each of these
  executions has the number of the retries before it in its request. A body that goes on after a retry and retries again starts a second line
  with a bound of its own.
\<close>

theorem executions_bounded:
  assumes "executions M c0 i c" and "ctx c0 ''retries'' = PInt 0" and "0 \<le> M"
  shows "int i \<le> M + 1 \<and> ctx c ''retries'' = PInt (int i - 1)"
  using executions_count [OF assms] by simp

theorem executions_bounded_witness:
  "\<exists>c'. executions 3 sample_context 2 c' \<and> ctx c' ''retries'' = PInt 1"
proof -
  from sample_second_context obtain r t' evs m opts c' where
    run: "retry (sig_apply_async (sample_send_env sample_context) sample_task) sample_task sample_context sample_retry [] = (r, t', [] @ evs)"
      "PublishTask m opts \<in> set evs" "worker_context ''host'' [] [] m [] = Inr c'" .
  have "retry_limit sample_task sample_retry = Some 3" by (simp add: retry_limit_def sample_task_def sample_retry_def)
  from again [OF first sample_plain_retry this order_refl run] have "executions 3 sample_context 2 c'" by (simp add: numeral_2_eq_2)
  then show ?thesis using executions_bounded [OF \<open>executions 3 sample_context 2 c'\<close> sample_context_facts(1)] by auto
qed

text \<open>
  the delay of an automatic retry is never negative and never above its maximum; without jitter it doubles with each retry
  until it reaches the maximum.
\<close>

theorem backoff_within_maximum:
  assumes "\<And>m. 0 < m \<Longrightarrow> 0 \<le> rand m \<and> rand m < m" and "get_exponential_backoff_interval rand factor n maximum jitter = Inr i"
  shows "0 \<le> i \<and> i \<le> max 0 maximum \<and> (\<not> jitter \<and> 0 \<le> factor \<and> factor * 2 ^ Suc n \<le> maximum \<longrightarrow>
    get_exponential_backoff_interval rand factor (Suc n) maximum jitter = Inr (2 * i))"
proof -
  let ?cd = "min maximum (factor * 2 ^ n)"
  have "i \<le> max 0 maximum \<and> 0 \<le> i"
  proof (cases jitter)
    case True
    then have "0 < ?cd + 1" "i = max 0 (rand (?cd + 1))" using assms(2) by (auto simp: get_exponential_backoff_interval_def Let_def split: if_splits)
    then show ?thesis using assms(1) [of "?cd + 1"] by auto
  next
    case False
    then show ?thesis using assms(2) by (auto simp: get_exponential_backoff_interval_def Let_def)
  qed
  moreover have "get_exponential_backoff_interval rand factor (Suc n) maximum jitter = Inr (2 * i)"
    if "\<not> jitter" "0 \<le> factor" "factor * 2 ^ Suc n \<le> maximum"
  proof -
    have p: "0 \<le> factor * 2 ^ n" using that(2) by simp
    have d: "factor * 2 ^ Suc n = 2 * (factor * 2 ^ n)" by simp
    have "factor * 2 ^ n \<le> maximum" using that(3) p unfolding d by linarith
    then show ?thesis using assms(2) that(1,3) p unfolding get_exponential_backoff_interval_def Let_def d by (auto simp: min_def split: if_splits)
  qed
  ultimately show ?thesis by blast
qed

theorem backoff_within_maximum_witness:
  "get_exponential_backoff_interval (\<lambda>m. m - 1) 2 3 600 False = Inr 16 \<and> (16::int) \<le> max 0 600 \<and>
     get_exponential_backoff_interval (\<lambda>m. m - 1) 2 4 600 False = Inr 32"
proof -
  have r: "get_exponential_backoff_interval (\<lambda>m. m - 1) 2 3 600 False = Inr 16" by code_simp
  have "\<And>m::int. 0 < m \<Longrightarrow> 0 \<le> m - 1 \<and> m - 1 < m" by simp
  from backoff_within_maximum [OF this r] r show ?thesis by (simp add: eval_nat_numeral)
qed

text \<open>
  a limit given to one call of \<open>retry\<close> stays with the task. After a call with \<open>max_retries\<close> has raised its \<open>Retry\<close>, automatic retries of every later request
  of the task in this process use that limit: a request beyond it fails with its exception, whatever the limit of the task class is.
\<close>

theorem retry_limit_sticks_to_task:
  assumes "retry submit t c rc b = (Inl (RetryExc (Some s)), t', b')" and "rc_max_retries rc = Some m"
    and "ctx c2 ''retries'' = PInt k" and "m < k + 1" and "ctx c2 ''called_directly'' = PBool False"
    and "ar_for ar x" and "\<not> ar_dont ar x" and "ar_backoff ar = 0"
    and "retry_signature t' c2 ((ar_kwargs ar)\<lparr>rc_exc := Some x, rc_max_retries := Some m\<rparr>) (PInt (k + 1)) = Inr s2"
  shows "autoretry_run submit rand ar t' c2 (Inl (UserExc x)) b2 = (Inl (UserExc x), t', b2)"
proof -
  have t': "t' = t\<lparr>t_override_max_retries := Some m\<rparr>"
    using assms(1,2) by (auto simp: retry_def Let_def split: sum.splits prod.splits if_splits option.splits)
  let ?rc = "(ar_kwargs ar)\<lparr>rc_exc := Some x, rc_max_retries := Some m\<rparr>"
  have "over_limit (retry_limit t' ?rc) (of_int k + 1)" using assms(4) by (simp add: over_limit_def retry_limit_def)
  then have "retry submit t' c2 ?rc b2 = (Inl (UserExc x), t', b2)"
    using assms(3,5,9) by (simp add: retry_def Let_def t')
  then show ?thesis using assms(6-8) by (simp add: autoretry_run_def backoff_countdown_def t')
qed

definition sample_autoretry :: autoretry where
  "sample_autoretry = \<lparr>ar_for = (\<lambda>x. x = 7), ar_dont = (\<lambda>x. False), ar_kwargs = sample_retry, ar_backoff = 0, ar_backoff_max = 600, ar_jitter = True\<rparr>"

definition no_submit :: "tsig \<Rightarrow> unit \<Rightarrow> pyv result \<times> unit" where
  "no_submit s u = (Inr PNone, u)"

theorem retry_limit_sticks_to_task_witness:
  "\<exists>t'. t_max_retries t' = Some 3 \<and> autoretry_run no_submit (\<lambda>n. 0) sample_autoretry t' (dict_set ''retries'' (PInt 1) sample_context) (Inl (UserExc 7)) () =
     (Inl (UserExc 7), t', ())"
proof -
  let ?rc = "sample_retry\<lparr>rc_max_retries := Some 1\<rparr>" and ?t' = "sample_task\<lparr>t_override_max_retries := Some 1\<rparr>"
  have i: "ctx sample_context ''retries'' = PInt 0" by (rule sample_context_facts)
  obtain s where s: "retry_signature sample_task sample_context ?rc (PInt 1) = Inr s"
  proof -
    have "isl (retry_signature sample_task sample_context ?rc (PInt 1)) = False" by code_simp
    then show ?thesis using that by (metis isl_def sum.collapse(2))
  qed
  have one: "retry no_submit sample_task sample_context ?rc () = (Inl (RetryExc (Some s)), ?t', ())"
    using s by (simp add: retry_def Let_def i sample_context_facts over_limit_def retry_limit_def no_submit_def) (simp add: sample_retry_def)
  let ?c2 = "dict_set ''retries'' (PInt 1) sample_context"
  obtain s2 where s2: "retry_signature ?t' ?c2 ((ar_kwargs sample_autoretry)\<lparr>rc_exc := Some 7, rc_max_retries := Some 1\<rparr>) (PInt (1 + 1)) = Inr s2"
  proof -
    have "isl (retry_signature ?t' ?c2 ((ar_kwargs sample_autoretry)\<lparr>rc_exc := Some 7, rc_max_retries := Some 1\<rparr>) (PInt (1 + 1))) = False" by code_simp
    then show ?thesis using that by (metis isl_def sum.collapse(2))
  qed
  have "ctx ?c2 ''retries'' = PInt 1" "ctx ?c2 ''called_directly'' = PBool False"
    by (simp_all add: sample_context_def ctx_def field_def)
  from retry_limit_sticks_to_task [OF one _ this(1) _ this(2) _ _ _ s2, of "\<lambda>n. 0" "()"] show ?thesis
    by (intro exI [of _ ?t']) (simp add: sample_autoretry_def sample_task_def)
qed

section \<open>Termination of local execution\<close>

text \<open>The context of a request inside the tracer.\<close>

definition traced_context :: "fields \<Rightarrow> pyv \<Rightarrow> pyv \<Rightarrow> fields" where
  "traced_context q a k = make_context (dict_update q [(''args'', a), (''called_directly'', PBool False), (''kwargs'', k)])"

lemma traced_context_retries: "ctx (traced_context q a k) ''retries'' = ctx q ''retries''"
  by (simp add: traced_context_def make_context_def context_update_def Let_def ctx_def field_def dict_simps split: option.splits prod.splits)

lemma eager_request_retries: "field (eager_request env t kw) ''retries'' PNone = py_or (field kw ''retries'' PNone) (PInt 0)"
  "ctx (eager_request env t kw) ''retries'' = py_or (field kw ''retries'' PNone) (PInt 0)"
  by (simp_all add: eager_request_def Let_def field_def ctx_def)

text \<open>A tracer whose retries are those of \<open>retry\<close> with the limit of the task.\<close>

definition retries_by_limit :: "task_class \<Rightarrow> (fields \<Rightarrow> pyv \<Rightarrow> pyv \<Rightarrow> traced) \<Rightarrow> bool" where
  "retries_by_limit t trace \<longleftrightarrow> (\<forall>q a k s. trace q a k = TracedRetry s \<longrightarrow>
     (\<exists>rc t'. rc_max_retries rc = None \<and> retry no_submit t (traced_context q a k) rc () = (Inl (RetryExc (Some s)), t', ())))"

lemma retry_below_limit:
  assumes "retry no_submit t c rc () = (Inl (RetryExc (Some s)), t', ())" and "rc_max_retries rc = None" and "t_max_retries t = Some M" and "ctx c ''retries'' = PInt n"
  shows "n + 1 \<le> M"
proof (rule ccontr)
  assume "\<not> n + 1 \<le> M"
  then have "over_limit (retry_limit t rc) (of_int n + 1)" using assms(2,3) by (simp add: over_limit_def retry_limit_def)
  with retry_within_limit [OF assms(1)] assms(4) show False by (simp add: is_retry_def)
qed

lemma apply_loop_ends:
  assumes "retries_by_limit t trace" and "t_max_retries t = Some M"
  shows "py_or (field kw ''retries'' PNone) (PInt 0) = PInt n \<Longrightarrow> nat (M - n) = d \<Longrightarrow>
    \<exists>r j. apply_loop env t trace a k kw i = Some (r, j) \<and> j \<le> i + d + 1"
proof (induction d arbitrary: a k kw n i rule: less_induct)
  case (less d)
  let ?q = "eager_request env t kw" and ?a = "py_or a (PTuple [])" and ?k = "py_or k (PDict [])"
  show ?case
  proof (cases "trace ?q ?a ?k")
    case (Traced st v)
    then show ?thesis by (simp add: apply_loop.simps [of env t trace a k kw i] Let_def)
  next
    case (TracedRetry s)
    then obtain rc t' where rc: "rc_max_retries rc = None" "retry no_submit t (traced_context ?q ?a ?k) rc () = (Inl (RetryExc (Some s)), t', ())"
      using assms(1) unfolding retries_by_limit_def by blast
    have n: "ctx (traced_context ?q ?a ?k) ''retries'' = PInt n" by (simp add: traced_context_retries eager_request_retries less.prems(1))
    have le: "n + 1 \<le> M" by (rule retry_below_limit [OF rc(2,1) assms(2) n])
    define d' where "d' = nat (M - (n + 1))"
    have d': "d' < d" "Suc d' = d" using le less.prems(2) by (auto simp: d'_def)
    have "py_or (field (next_options s (PInt (n + 1))) ''retries'' PNone) (PInt 0) = PInt (n + 1)"
      by (simp add: next_options_def field_def dict_simps py_or_def)
    from less.IH [OF d'(1) this, of "s_args s" "s_kwargs s" "Suc i"]
    obtain r j where "apply_loop env t trace (s_args s) (s_kwargs s) (next_options s (PInt (n + 1))) (Suc i) = Some (r, j)" "j \<le> Suc i + d' + 1"
      by (auto simp: d'_def)
    then show ?thesis
      using TracedRetry d'(2) by (simp add: apply_loop.simps [of env t trace a k kw i] Let_def eager_request_retries less.prems(1))
  qed
qed

text \<open>
  local execution of a task that retries within its limit \<open>M\<close> ends, after at most \<open>M + 1\<close> runs of the body.
\<close>

theorem eager_apply_ends:
  assumes "retries_by_limit t trace" and "t_max_retries t = Some M" and "dict_get kw ''retries'' = None"
  shows "\<exists>r j. apply_task env t trace a k kw = Some (r, j) \<and> j \<le> nat M + 1"
  using apply_loop_ends [OF assms(1,2), of kw 0 "nat M" env a k 0] assms(3) by (simp add: apply_task_def field_def py_or_def)

definition sample_apply_env :: apply_env where
  "sample_apply_env = \<lparr>ap_uuid = ''new'', ap_hostname = ''host'', ap_parent = None, ap_maybe_list = (\<lambda>v. v)\<rparr>"

text \<open>A body that always retries: beyond the limit its exception is the result.\<close>

definition always_retries :: "fields \<Rightarrow> pyv \<Rightarrow> pyv \<Rightarrow> traced" where
  "always_retries q a k = (case retry no_submit sample_task (traced_context q a k) sample_retry () of
     (Inl (RetryExc (Some s)), _, _) \<Rightarrow> TracedRetry s | _ \<Rightarrow> Traced ''FAILURE'' PNone)"

theorem eager_apply_ends_witness:
  "\<exists>r j. apply_task sample_apply_env sample_task always_retries (PTuple []) (PDict []) [] = Some (r, j) \<and> j \<le> 4"
proof -
  have "retries_by_limit sample_task always_retries"
    unfolding retries_by_limit_def
  proof (intro allI impI)
    fix q a k s
    assume "always_retries q a k = TracedRetry s"
    then obtain t' where "retry no_submit sample_task (traced_context q a k) sample_retry () = (Inl (RetryExc (Some s)), t', ())"
      by (auto simp: always_retries_def split: prod.splits sum.splits rexc.splits option.splits)
    then show "\<exists>rc t'. rc_max_retries rc = None \<and> retry no_submit sample_task (traced_context q a k) rc () = (Inl (RetryExc (Some s)), t', ())"
      by (intro exI [of _ sample_retry] exI [of _ t']) (simp add: sample_retry_def)
  qed
  from eager_apply_ends [OF this, of 3 "[]" sample_apply_env "PTuple []" "PDict []"] show ?thesis by (simp add: sample_task_def)
qed

end
