(* ===== verification/Gossip.thy ===== *)
theory Gossip
  imports Heapq
begin

text \<open>
  Communication between workers, \<open>celery.worker.consumer.gossip\<close>: elections, the dispatch of events of other workers, the
  call of node handlers and the removal of lost workers; and a system of workers that exchange election events through a broker that keeps the order
  of the messages of each sender.

  The choice among the requests of an election (\<open>sort_heap\<close> of the logical clock, in the broker library) is an argument. Calls of
  the election handler, of node handlers and of the event dispatcher are entries of logs; the clock value of an event is a field of it.
\<close>

section \<open>State\<close>

text \<open>A request for leadership: the clock, the full name of the worker, the topic and the action.\<close>

type_synonym creq = "nat \<times> string \<times> string \<times> nat"

datatype sent_event = WorkerElect string string nat | WorkerElectAck string

record gossip =
  hostname :: string
  full_hostname :: string
  consensus_requests :: "(string, creq heap) dict"
  consensus_replies :: "(string, string list) dict"
  election_handlers :: "string list"
  handled :: "(string \<times> nat) list"
  sent :: "sent_event list"

text \<open>The fields of a received event; a field may be missing.\<close>

record elect_event =
  ev_id :: "string option"
  ev_clock :: "nat option"
  ev_hostname :: "string option"
  ev_pid :: "nat option"
  ev_topic :: "string option"
  ev_action :: "nat option"
  ev_cver :: "nat option"

fun pid_text :: "nat \<Rightarrow> string" where
  "pid_text n = (if n < 10 then [char_of (48 + n)] else pid_text (n div 10) @ [char_of (48 + n mod 10)])"

declare pid_text.simps [simp del]

definition full_name :: "string \<Rightarrow> nat \<Rightarrow> string" where
  "full_name host pid = host @ ''.'' @ pid_text pid"

definition new_gossip :: "string \<Rightarrow> nat \<Rightarrow> gossip" where
  "new_gossip host pid = \<lparr>hostname = host, full_hostname = full_name host pid, consensus_requests = [], consensus_replies = [],
     election_handlers = [''task''], handled = [], sent = []\<rparr>"

section \<open>Elections\<close>

definition election :: "string \<Rightarrow> string \<Rightarrow> nat \<Rightarrow> gossip \<Rightarrow> gossip" where
  "election i topic action g = g\<lparr>consensus_replies := dict_set i [] (consensus_replies g), sent := sent g @ [WorkerElect i topic action]\<rparr>"

definition requests_of :: "string \<Rightarrow> gossip \<Rightarrow> creq heap" where
  "requests_of i g = (case dict_get (consensus_requests g) i of None \<Rightarrow> [] | Some h \<Rightarrow> h)"

text \<open>An event with a missing field is logged and dropped.\<close>

definition on_elect :: "elect_event \<Rightarrow> gossip \<Rightarrow> gossip" where
  "on_elect ev g =
     (case (ev_id ev, ev_clock ev, ev_hostname ev, ev_pid ev, ev_topic ev, ev_action ev, ev_cver ev) of
        (Some i, Some clock, Some host, Some pid, Some topic, Some action, Some _) \<Rightarrow>
          g\<lparr>consensus_requests := dict_set i (heappush (requests_of i g) (clock, full_name host pid, topic, action)) (consensus_requests g),
            sent := sent g @ [WorkerElectAck i]\<rparr>
      | _ \<Rightarrow> g)"

text \<open>The winner runs the handler of the topic, if there is one.\<close>

definition conclude :: "(creq heap \<Rightarrow> creq result) \<Rightarrow> string \<Rightarrow> gossip \<Rightarrow> exn option \<times> gossip" where
  "conclude pick i g = (case pick (requests_of i g) of
     Inl e \<Rightarrow> (Some e, g)
   | Inr (clock, leader, topic, action) \<Rightarrow>
       let g = (if leader = full_hostname g \<and> topic \<in> set (election_handlers g) then g\<lparr>handled := handled g @ [(i, action)]\<rparr> else g) in
       (None, g\<lparr>consensus_requests := dict_del i (consensus_requests g), consensus_replies := dict_del i (consensus_replies g)\<rparr>))"

definition on_elect_ack :: "(creq heap \<Rightarrow> creq result) \<Rightarrow> nat \<Rightarrow> elect_event \<Rightarrow> gossip \<Rightarrow> exn option \<times> gossip" where
  "on_elect_ack pick alive ev g = (case ev_id ev of
     None \<Rightarrow> (Some KeyError, g)
   | Some i \<Rightarrow> (case dict_get (consensus_replies g) i of
       None \<Rightarrow> (None, g)
     | Some replies \<Rightarrow> (case ev_hostname ev of
         None \<Rightarrow> (Some KeyError, g)
       | Some host \<Rightarrow>
           let g = g\<lparr>consensus_replies := dict_set i (replies @ [host]) (consensus_replies g)\<rparr> in
           if length (replies @ [host]) \<ge> alive then conclude pick i g else (None, g))))"

section \<open>Messages\<close>

datatype gossip_action = ElectEvent | AckEvent | UpdateState | ForwardClock | Ignored | Failed exn

definition task_prefix :: "string \<Rightarrow> bool" where
  "task_prefix key \<longleftrightarrow> takeWhile (\<lambda>ch. ch \<noteq> CHR ''.'') key = ''task''"

text \<open>What is done with a message, by its routing key and the host names in its header and body.\<close>

definition on_message :: "gossip \<Rightarrow> string \<Rightarrow> string option \<Rightarrow> string option \<Rightarrow> gossip_action" where
  "on_message g key header_host body_host =
     (if task_prefix key then Ignored
      else if key = ''worker.elect'' then ElectEvent
      else if key = ''worker.elect.ack'' then AckEvent
      else (case (if header_host = None \<or> header_host = Some [] then body_host else header_host) of
              None \<Rightarrow> Failed KeyError
            | Some h \<Rightarrow> if h \<noteq> hostname g then UpdateState else ForwardClock))"

section \<open>Lost workers\<close>

text \<open>Handlers are called one after the other; what they raise is ignored.\<close>

datatype node_call = Called nat string | IgnoredError nat string

definition call_handlers :: "(nat \<Rightarrow> string \<Rightarrow> bool) \<Rightarrow> nat list \<Rightarrow> string \<Rightarrow> node_call list" where
  "call_handlers raises hs w = map (\<lambda>h. if raises h w then IgnoredError h w else Called h w) hs"

text \<open>The workers with their host names, and whether each is alive.\<close>

definition periodic :: "(nat \<Rightarrow> string \<Rightarrow> bool) \<Rightarrow> nat list \<Rightarrow> (string, bool) dict \<Rightarrow> node_call list \<times> (string, bool) dict" where
  "periodic raises on_lost workers =
     (let dirty = map fst (filter (\<lambda>(h, alive). \<not> alive) workers) in
      (concat (map (call_handlers raises on_lost) dirty), foldl (\<lambda>d h. dict_del h d) workers dirty))"

section \<open>Workers and a broker\<close>

text \<open>
  Workers are numbered. Every event goes to every worker, and each worker receives the events of one sender in the order they were sent.
  A worker has a host name and a process id; the clock value of each election request is given.
\<close>

datatype wire = Elect elect_event | Ack elect_event

record net =
  nodes :: "gossip list"
  wires :: "((nat \<times> nat) \<times> wire list) list"

definition blank_event :: elect_event where
  "blank_event = \<lparr>ev_id = None, ev_clock = None, ev_hostname = None, ev_pid = None, ev_topic = None, ev_action = None, ev_cver = None\<rparr>"

fun wire_of :: "nat \<Rightarrow> nat \<Rightarrow> gossip \<Rightarrow> sent_event \<Rightarrow> wire" where
  "wire_of clock pid g (WorkerElect i topic action) = Elect \<lparr>ev_id = Some i, ev_clock = Some clock, ev_hostname = Some (hostname g), ev_pid = Some pid,
     ev_topic = Some topic, ev_action = Some action, ev_cver = Some 1\<rparr>"
| "wire_of clock pid g (WorkerElectAck i) = Ack (blank_event\<lparr>ev_id := Some i, ev_hostname := Some (hostname g)\<rparr>)"

definition queue_of :: "net \<Rightarrow> nat \<times> nat \<Rightarrow> wire list" where
  "queue_of n c = (case dict_get (wires n) c of None \<Rightarrow> [] | Some q \<Rightarrow> q)"

definition broadcast :: "(nat \<Rightarrow> nat) \<Rightarrow> nat \<Rightarrow> gossip \<Rightarrow> net \<Rightarrow> net" where
  "broadcast clock w g n =
     (let evs = map (wire_of (clock w) w g) (sent g) in
      n\<lparr>nodes := (nodes n)[w := g\<lparr>sent := []\<rparr>],
        wires := foldl (\<lambda>ws r. dict_set (w, r) (queue_of n (w, r) @ evs) ws) (wires n) [0..<length (nodes n)]\<rparr>)"

datatype net_step = Command nat string nat | Deliver nat nat

text \<open>A command to hold an election reaches one worker, or the oldest event of one sender is delivered to one worker.\<close>

definition net_run_step :: "(creq heap \<Rightarrow> creq result) \<Rightarrow> (nat \<Rightarrow> nat) \<Rightarrow> net \<Rightarrow> net_step \<Rightarrow> net option" where
  "net_run_step pick clock n st = (case st of
     Command w i action \<Rightarrow> if w < length (nodes n) then Some (broadcast clock w (election i ''task'' action (nodes n ! w)) n) else None
   | Deliver s r \<Rightarrow>
       if s < length (nodes n) \<and> r < length (nodes n) then
         (case queue_of n (s, r) of
            [] \<Rightarrow> None
          | ev # rest \<Rightarrow>
              let n = n\<lparr>wires := dict_set (s, r) rest (wires n)\<rparr>;
                  g = (case ev of Elect e \<Rightarrow> on_elect e (nodes n ! r) | Ack e \<Rightarrow> snd (on_elect_ack pick (length (nodes n)) e (nodes n ! r)))
              in Some (broadcast clock r g n))
       else None)"

fun net_run :: "(creq heap \<Rightarrow> creq result) \<Rightarrow> (nat \<Rightarrow> nat) \<Rightarrow> net \<Rightarrow> net_step list \<Rightarrow> net option" where
  "net_run pick clock n [] = Some n"
| "net_run pick clock n (st # sts) = (case net_run_step pick clock n st of None \<Rightarrow> None | Some n' \<Rightarrow> net_run pick clock n' sts)"

definition new_net :: "string list \<Rightarrow> net" where
  "new_net hosts = \<lparr>nodes = map (\<lambda>(w, h). new_gossip h w) (enumerate 0 hosts), wires = []\<rparr>"

section \<open>Properties of elections\<close>

text \<open>What the acknowledgement that completes an election does.\<close>

lemma on_elect_ack_last:
  assumes "ev_id ev = Some i" "ev_hostname ev = Some host" and "dict_get (consensus_replies g) i = Some replies" and "alive \<le> Suc (length replies)"
    and "pick (requests_of i g) = Inr (clock, leader, topic, action)"
  shows "handled (snd (on_elect_ack pick alive ev g)) =
    (if leader = full_hostname g \<and> topic \<in> set (election_handlers g) then handled g @ [(i, action)] else handled g)"
  using assms by (simp add: on_elect_ack_def conclude_def requests_of_def Let_def)

text \<open>
  an election has one leader if all workers decide on the same requests. When every worker of a group holds the same requests for an election, one
  from each of them, and receives its last acknowledgement, exactly one of them calls the handler.
\<close>

theorem one_leader_from_same_requests:
  assumes "finite W" and "inj_on full_hostname W" and "\<And>g. g \<in> W \<Longrightarrow> mset (requests_of i g) = R" and "\<And>g. g \<in> W \<Longrightarrow> sorted (requests_of i g)"
    and "\<And>h x. pick h = Inr x \<Longrightarrow> x \<in> set h" and "\<And>h. h \<noteq> [] \<Longrightarrow> \<exists>x. pick h = Inr x" and "R \<noteq> {#}"
    and "\<And>clock leader topic action. (clock, leader, topic, action) \<in># R \<Longrightarrow> leader \<in> full_hostname ` W \<and> (\<forall>g \<in> W. topic \<in> set (election_handlers g))"
    and "ev_id ev = Some i" "ev_hostname ev = Some host"
    and "\<And>g. g \<in> W \<Longrightarrow> \<exists>replies. dict_get (consensus_replies g) i = Some replies \<and> alive \<le> Suc (length replies)"
  shows "card {g \<in> W. handled (snd (on_elect_ack pick alive ev g)) \<noteq> handled g} = 1"
proof -
  define h where "h = sorted_list_of_multiset R"
  have h: "requests_of i g = h" if "g \<in> W" for g
    using assms(3,4) [OF that] by (metis h_def sorted_list_of_multiset_mset sorted_sort_id)
  have "h \<noteq> []" using assms(7) by (metis h_def mset.simps(1) mset_sorted_list_of_multiset)
  then obtain clock leader topic action where pick: "pick h = Inr (clock, leader, topic, action)" using assms(6) by (metis surj_pair)
  then have "(clock, leader, topic, action) \<in># R" using assms(5) by (fastforce simp: h_def)
  with assms(8) obtain g where g: "g \<in> W" "full_hostname g = leader" and topic: "\<forall>g \<in> W. topic \<in> set (election_handlers g)" by blast
  have "handled (snd (on_elect_ack pick alive ev g')) \<noteq> handled g' \<longleftrightarrow> g' = g" if w: "g' \<in> W" for g'
  proof -
    from assms(11) [OF w] obtain replies where "dict_get (consensus_replies g') i = Some replies" "alive \<le> Suc (length replies)" by blast
    then have "handled (snd (on_elect_ack pick alive ev g')) = (if leader = full_hostname g' then handled g' @ [(i, action)] else handled g')"
      using on_elect_ack_last [OF assms(9,10)] pick topic w by (simp add: h [OF w])
    moreover have "leader = full_hostname g' \<longleftrightarrow> g' = g" using assms(2) g w by (auto simp: inj_on_def)
    ultimately show ?thesis by simp
  qed
  then have "{g' \<in> W. handled (snd (on_elect_ack pick alive ev g')) \<noteq> handled g'} = {g}" using g(1) by auto
  then show ?thesis by simp
qed

definition elector :: "string \<Rightarrow> gossip" where
  "elector host = (new_gossip host 1)\<lparr>consensus_requests := [(''e'', [(3, ''a.1'', ''task'', 9), (4, ''b.1'', ''task'', 9)])], consensus_replies := [(''e'', [''a''])]\<rparr>"

theorem one_leader_from_same_requests_witness:
  "card {g \<in> {elector ''a'', elector ''b''}. handled (snd (on_elect_ack heap_top 2 (blank_event\<lparr>ev_id := Some ''e'', ev_hostname := Some ''b''\<rparr>) g)) \<noteq> handled g} = 1"
proof (rule one_leader_from_same_requests [where i = "''e''" and host = "''b''" and R = "{#(3, ''a.1'', ''task'', 9), (4, ''b.1'', ''task'', 9)#}"])
  have names: "full_hostname (elector ''a'') = ''a.1''" "full_hostname (elector ''b'') = ''b.1''" by code_simp+
  show "inj_on full_hostname {elector ''a'', elector ''b''}" using names by (auto simp: inj_on_def)
  show "\<And>h x. heap_top h = Inr x \<Longrightarrow> x \<in> set h" by (metis heap_top.elims list.set_intros(1) sum.distinct(1) sum.inject(2))
  show "\<And>h. h \<noteq> [] \<Longrightarrow> \<exists>x. heap_top h = Inr x" by (metis heap_top.simps(2) list.exhaust)
  show "\<And>clock leader topic action. (clock, leader, topic, action) \<in># {#(3, ''a.1'', ''task'', 9), (4, ''b.1'', ''task'', 9)#} \<Longrightarrow>
      leader \<in> full_hostname ` {elector ''a'', elector ''b''} \<and> (\<forall>g \<in> {elector ''a'', elector ''b''}. topic \<in> set (election_handlers g))"
    using names by (auto simp: elector_def new_gossip_def)
qed (auto simp: elector_def new_gossip_def requests_of_def blank_event_def)

text \<open>
  acknowledgements are counted, not their senders, so an election can have two leaders. With three workers, a broker that keeps the order of each sender
  and the least request chosen, the first worker counts two acknowledgements of its own and one of the second, and wins before the request of the
  third arrives; the third receives all requests and wins with the least clock.
\<close>

theorem election_can_have_two_leaders:
  "map_option (\<lambda>n. map handled (nodes n)) (net_run heap_top (\<lambda>w. [5, 6, 1] ! w) (new_net [''a'', ''b'', ''c''])
     [Command 0 ''e'' 9, Command 1 ''e'' 9, Command 2 ''e'' 9, Deliver 0 0, Deliver 1 0, Deliver 0 1, Deliver 0 0, Deliver 0 0, Deliver 1 0,
      Deliver 2 2, Deliver 0 2, Deliver 1 2, Deliver 2 2, Deliver 2 2, Deliver 2 2]) = Some [[(''e'', 9)], [], [(''e'', 9)]]"
  by code_simp

section \<open>One call for each election\<close>

datatype gossip_call = HoldElection string string nat | OnElect elect_event | OnAck nat elect_event

fun gossip_exec :: "(creq heap \<Rightarrow> creq result) \<Rightarrow> gossip_call \<Rightarrow> gossip \<Rightarrow> gossip" where
  "gossip_exec pick (HoldElection i topic action) g = election i topic action g"
| "gossip_exec pick (OnElect ev) g = on_elect ev g"
| "gossip_exec pick (OnAck alive ev) g = snd (on_elect_ack pick alive ev g)"

definition pending :: "string \<Rightarrow> gossip \<Rightarrow> nat" where
  "pending i g = (if dict_get (consensus_replies g) i = None then 0 else 1)"

definition wins :: "string \<Rightarrow> gossip \<Rightarrow> nat" where
  "wins i g = length (filter (\<lambda>p. fst p = i) (handled g))"

fun holds :: "string \<Rightarrow> gossip_call \<Rightarrow> nat" where
  "holds i (HoldElection j topic action) = (if j = i then 1 else 0)"
| "holds i _ = 0"

lemma conclude_wins:
  "wins i (snd (conclude pick j g)) + pending i (snd (conclude pick j g)) \<le> wins i g + (if i = j then 1 else pending i g)"
  by (auto simp: conclude_def wins_def pending_def Let_def dict_simps split: sum.splits prod.splits)

lemma wins_replies: "wins i (g\<lparr>consensus_replies := d\<rparr>) = wins i g"
  by (simp add: wins_def)

lemma pending_replies: "pending i (g\<lparr>consensus_replies := dict_set j r (consensus_replies g)\<rparr>) = (if i = j then 1 else pending i g)"
  by (simp add: pending_def dict_simps)

lemma on_elect_ack_wins: "wins i (snd (on_elect_ack pick alive ev g)) + pending i (snd (on_elect_ack pick alive ev g)) \<le> wins i g + pending i g"
proof (cases "ev_id ev")
  case None
  then show ?thesis by (simp add: on_elect_ack_def)
next
  case (Some j)
  show ?thesis
  proof (cases "dict_get (consensus_replies g) j")
    case None
    then show ?thesis using Some by (simp add: on_elect_ack_def)
  next
    case (Some replies)
    have "pending j g = 1" using Some by (simp add: pending_def)
    moreover note conclude_wins [of i pick j "g\<lparr>consensus_replies := dict_set j r (consensus_replies g)\<rparr>" for r, unfolded wins_replies pending_replies]
    ultimately show ?thesis
      using Some \<open>ev_id ev = Some j\<close> by (cases "ev_hostname ev") (auto simp: on_elect_ack_def Let_def wins_replies pending_replies split: if_splits)
  qed
qed

lemma gossip_exec_wins: "wins i (gossip_exec pick c g) + pending i (gossip_exec pick c g) \<le> wins i g + pending i g + holds i c"
proof (cases c)
  case (HoldElection j topic action)
  then show ?thesis by (auto simp: election_def wins_def pending_def dict_simps)
next
  case (OnElect ev)
  then show ?thesis by (auto simp: on_elect_def wins_def pending_def split: option.splits)
next
  case (OnAck alive ev)
  then show ?thesis using on_elect_ack_wins [of i pick alive ev g] by simp
qed

text \<open>
  a worker runs the handler at most once for each election it was told to hold, whatever events arrive in whatever order; late
  acknowledgements are ignored.
\<close>

theorem handler_runs_at_most_once_per_election:
  "wins i (fold (gossip_exec pick) calls (new_gossip host pid)) \<le> sum_list (map (holds i) calls)"
proof -
  have "wins i (fold (gossip_exec pick) calls g) + pending i (fold (gossip_exec pick) calls g) \<le> wins i g + pending i g + sum_list (map (holds i) calls)" for g
  proof (induction calls arbitrary: g)
    case (Cons c calls)
    from Cons [of "gossip_exec pick c g"] gossip_exec_wins [of i pick c g] show ?case by simp
  qed simp
  from this [of "new_gossip host pid"] show ?thesis by (simp add: new_gossip_def wins_def pending_def)
qed

section \<open>Properties of lost workers\<close>

lemma dict_del_filter: "dict_del h d = filter (\<lambda>p. fst p \<noteq> h) d"
  by (induction d) auto

lemma foldl_dict_del: "foldl (\<lambda>d h. dict_del h d) d hs = filter (\<lambda>p. fst p \<notin> set hs) d"
  by (induction hs arbitrary: d) (auto simp: dict_del_filter intro: filter_cong)

text \<open>
  after the periodic check exactly the workers that are alive are left, in their order, and every handler was called once for each lost worker,
  whatever the handlers raise.
\<close>

theorem lost_workers_removed:
  assumes "dict_wf workers"
  shows "snd (periodic raises hs workers) = filter snd workers \<and>
    map (\<lambda>c. case c of Called h w \<Rightarrow> (w, h) | IgnoredError h w \<Rightarrow> (w, h)) (fst (periodic raises hs workers)) =
      List.product (map fst (filter (\<lambda>p. \<not> snd p) workers)) hs"
proof -
  have "fst p \<in> set (map fst (filter (\<lambda>(h, alive). \<not> alive) workers)) \<longleftrightarrow> \<not> snd p" if "p \<in> set workers" for p
    using assms that by (force simp: distinct_map inj_on_def)
  then have "snd (periodic raises hs workers) = filter snd workers"
    by (auto simp: periodic_def Let_def foldl_dict_del intro!: filter_cong)
  moreover have "map (\<lambda>c. case c of Called h w \<Rightarrow> (w, h) | IgnoredError h w \<Rightarrow> (w, h)) (concat (map (call_handlers raises hs) ws)) = List.product ws hs" for ws
    by (induction ws) (auto simp: call_handlers_def comp_def)
  ultimately show ?thesis by (simp add: periodic_def Let_def case_prod_unfold del: map_map)
qed

theorem lost_workers_removed_witness:
  "snd (periodic (\<lambda>h w. h = 1) [1, 2] [(''a'', True), (''b'', False), (''c'', True)]) = [(''a'', True), (''c'', True)]"
  using lost_workers_removed [of "[(''a'', True), (''b'', False), (''c'', True)]" "\<lambda>h w. h = 1" "[1, 2]"] by simp

end
