(* ===== verification/Dispatcher.thy ===== *)
theory Dispatcher
  imports Prelude
begin

text \<open>
  The event dispatcher, \<open>celery.events.dispatcher\<close>: sending of events by group, buffering of groups, the outbound buffer that keeps events while
  the connection is down, flushing, enabling and closing.

  Whether an attempt to publish succeeds is decided by the environment, by the number of attempts made before. What was published is a log. One
  thread uses the dispatcher; the logical clock counts by one.
\<close>

section \<open>State\<close>

record event =
  ev_type :: string
  ev_fields :: nat
  ev_clock :: "nat option"

text \<open>What is published: one event, or the events of a group together.\<close>

datatype parcel = Single event | Multi "event list"

record dispatcher =
  enabled :: bool
  groups :: "string set"
  buffer_group :: "string set"
  buffer_limit :: nat
  buffer_while_offline :: bool
  has_producer :: bool
  outbound :: "(parcel \<times> string) list"
  group_buffer :: "(string, event list) dict"
  clock :: nat
  attempts :: nat
  published :: "(parcel \<times> string) list"
  callbacks :: "string list"

type_synonym network = "nat \<Rightarrow> bool"

definition new_dispatcher :: "bool \<Rightarrow> bool \<Rightarrow> string list \<Rightarrow> string list \<Rightarrow> nat \<Rightarrow> bool \<Rightarrow> dispatcher" where
  "new_dispatcher enab disabled_transport grps bgroup limit offline =
     \<lparr>enabled = enab \<and> \<not> disabled_transport, groups = set grps, buffer_group = set bgroup, buffer_limit = limit, buffer_while_offline = offline,
      has_producer = enab \<and> \<not> disabled_transport, outbound = [], group_buffer = [], clock = 0, attempts = 0, published = [], callbacks = []\<rparr>"

section \<open>Enabling and closing\<close>

definition close :: "dispatcher \<Rightarrow> dispatcher" where
  "close d = d\<lparr>has_producer := False\<rparr>"

definition enable :: "dispatcher \<Rightarrow> dispatcher" where
  "enable d = d\<lparr>has_producer := True, enabled := True, callbacks := callbacks d @ [''enabled'']\<rparr>"

definition disable :: "dispatcher \<Rightarrow> dispatcher" where
  "disable d = (if enabled d then (let d = close (d\<lparr>enabled := False\<rparr>) in d\<lparr>callbacks := callbacks d @ [''disabled'']\<rparr>) else d)"

definition extend_buffer :: "dispatcher \<Rightarrow> dispatcher \<Rightarrow> dispatcher" where
  "extend_buffer other d = d\<lparr>outbound := outbound d @ outbound other\<rparr>"

section \<open>Publishing\<close>

definition group_from :: "string \<Rightarrow> string" where
  "group_from ty = takeWhile (\<lambda>ch. ch \<noteq> CHR ''-'') ty"

definition routing_key :: "string \<Rightarrow> string" where
  "routing_key ty = map (\<lambda>ch. if ch = CHR ''-'' then CHR ''.'' else ch) ty"

text \<open>\<open>_publish\<close>: nothing is done without a producer. The connection error is an \<open>OperationalError\<close> of the broker library, here a \<open>RuntimeError\<close>.\<close>

definition publish_parcel :: "network \<Rightarrow> parcel \<Rightarrow> string \<Rightarrow> dispatcher \<Rightarrow> exn option \<times> dispatcher" where
  "publish_parcel net p key d =
     (if \<not> has_producer d then (None, d)
      else (let d' = d\<lparr>attempts := Suc (attempts d)\<rparr> in
            if net (attempts d) then (None, d'\<lparr>published := published d @ [(p, key)]\<rparr>)
            else if \<not> buffer_while_offline d then (Some RuntimeError, d')
            else (None, d'\<lparr>outbound := outbound d @ [(p, key)]\<rparr>)))"

text \<open>\<open>publish\<close>: the clock goes forward unless the event is blind.\<close>

definition publish :: "network \<Rightarrow> string \<Rightarrow> nat \<Rightarrow> bool \<Rightarrow> dispatcher \<Rightarrow> exn option \<times> dispatcher" where
  "publish net ty fs blind d =
     (let d' = (if blind then d else d\<lparr>clock := Suc (clock d)\<rparr>);
          ev = \<lparr>ev_type = ty, ev_fields = fs, ev_clock = (if blind then None else Some (clock d'))\<rparr> in
      publish_parcel net (Single ev) (routing_key ty) d')"

fun flush_errors :: "network \<Rightarrow> (parcel \<times> string) list \<Rightarrow> dispatcher \<Rightarrow> exn option \<times> dispatcher" where
  "flush_errors net [] d = (None, d)"
| "flush_errors net ((p, key) # rest) d = (case publish_parcel net p key d of
     (Some e, d') \<Rightarrow> (Some e, d')
   | (None, d') \<Rightarrow> flush_errors net rest d')"

definition multi_key :: "string \<Rightarrow> string" where
  "multi_key g = g @ ''.multi''"

fun flush_groups :: "network \<Rightarrow> string list \<Rightarrow> dispatcher \<Rightarrow> exn option \<times> dispatcher" where
  "flush_groups net [] d = (None, d)"
| "flush_groups net (g # gs) d = (case dict_get (group_buffer d) g of
     Some (e # es) \<Rightarrow> (case publish_parcel net (Multi (e # es)) (multi_key g) d of
         (Some ex, d') \<Rightarrow> (Some ex, d')
       | (None, d') \<Rightarrow> flush_groups net gs (d'\<lparr>group_buffer := dict_set g [] (group_buffer d')\<rparr>))
   | _ \<Rightarrow> flush_groups net gs d)"

definition flush :: "network \<Rightarrow> bool \<Rightarrow> bool \<Rightarrow> dispatcher \<Rightarrow> exn option \<times> dispatcher" where
  "flush net errors grps d =
     (case (if errors then flush_errors net (outbound d) (d\<lparr>outbound := []\<rparr>) else (None, d)) of
        (Some e, d') \<Rightarrow> (Some e, d')
      | (None, d') \<Rightarrow> if grps then flush_groups net (keys (group_buffer d')) d' else (None, d'))"

text \<open>\<open>send\<close>, without a call-back for buffered events.\<close>

definition send :: "network \<Rightarrow> string \<Rightarrow> nat \<Rightarrow> bool \<Rightarrow> dispatcher \<Rightarrow> exn option \<times> dispatcher" where
  "send net ty fs blind d =
     (let g = group_from ty in
      if \<not> enabled d \<or> (groups d \<noteq> {} \<and> g \<notin> groups d) then (None, d)
      else if g \<in> buffer_group d then
        (let d = d\<lparr>clock := Suc (clock d)\<rparr>;
             ev = \<lparr>ev_type = ty, ev_fields = fs, ev_clock = Some (clock d)\<rparr>;
             buf = (case dict_get (group_buffer d) g of None \<Rightarrow> [] | Some b \<Rightarrow> b) @ [ev];
             d = d\<lparr>group_buffer := dict_set g buf (group_buffer d)\<rparr> in
         if length buf \<ge> buffer_limit d then flush net True True d else (None, d))
      else publish net ty fs blind d)"

section \<open>Events held and published\<close>

fun parcel_events :: "parcel \<Rightarrow> event list" where
  "parcel_events (Single e) = [e]"
| "parcel_events (Multi es) = es"

definition events_of :: "(parcel \<times> string) list \<Rightarrow> event multiset" where
  "events_of ps = mset (concat (map (parcel_events \<circ> fst) ps))"

definition grouped :: "(string, event list) dict \<Rightarrow> event multiset" where
  "grouped gb = mset (concat (map snd gb))"

definition all_events :: "dispatcher \<Rightarrow> event multiset" where
  "all_events d = events_of (published d) + events_of (outbound d) + grouped (group_buffer d)"

lemma events_of_simps [simp]:
  "events_of [] = {#}" "events_of ((p, k) # ps) = mset (parcel_events p) + events_of ps" "events_of (ps @ qs) = events_of ps + events_of qs"
  by (simp_all add: events_of_def)

lemma grouped_set:
  "dict_wf gb \<Longrightarrow> grouped (dict_set g es gb) + mset (case dict_get gb g of None \<Rightarrow> [] | Some b \<Rightarrow> b) = grouped gb + mset es"
proof (induction gb)
  case Nil
  then show ?case by (simp add: grouped_def)
next
  case (Cons p gb)
  obtain k b where p: "p = (k, b)" by fastforce
  show ?case
  proof (cases "k = g")
    case True
    then show ?thesis by (simp add: p grouped_def)
  next
    case False
    with Cons p show ?thesis by (auto simp: grouped_def)
  qed
qed

text \<open>What publishing keeps: the limits, whether there is a producer, and that the group buffer has distinct keys.\<close>

definition steady :: "dispatcher \<Rightarrow> dispatcher \<Rightarrow> bool" where
  "steady d d' \<longleftrightarrow> has_producer d' = has_producer d \<and> buffer_while_offline d' = buffer_while_offline d \<and> enabled d' = enabled d \<and>
     groups d' = groups d \<and> buffer_group d' = buffer_group d \<and> buffer_limit d' = buffer_limit d"

definition lossless :: "dispatcher \<Rightarrow> bool" where
  "lossless d \<longleftrightarrow> has_producer d \<and> buffer_while_offline d \<and> dict_wf (group_buffer d)"

lemma publish_parcel_keeps:
  assumes "publish_parcel net p key d = (r, d')" and "has_producer d" and "buffer_while_offline d"
  shows "r = None \<and> steady d d' \<and> group_buffer d' = group_buffer d \<and>
    events_of (published d') + events_of (outbound d') = events_of (published d) + events_of (outbound d) + mset (parcel_events p)"
  using assms by (auto simp: publish_parcel_def steady_def Let_def split: if_splits)

lemma flush_errors_keeps:
  assumes "flush_errors net ps d = (r, d')" and "has_producer d" and "buffer_while_offline d"
  shows "r = None \<and> steady d d' \<and> group_buffer d' = group_buffer d \<and>
    events_of (published d') + events_of (outbound d') = events_of (published d) + events_of (outbound d) + events_of ps"
  using assms
proof (induction net ps d arbitrary: r d' rule: flush_errors.induct)
  case (1 net d)
  then show ?case by (simp add: steady_def)
next
  case (2 net p key rest d)
  obtain r1 d1 where one: "publish_parcel net p key d = (r1, d1)" by fastforce
  note k = publish_parcel_keeps [OF one 2(3,4)]
  have "has_producer d1" "buffer_while_offline d1" using k 2(3,4) by (auto simp: steady_def)
  moreover have "flush_errors net rest d1 = (r, d')" using 2(2) one k by simp
  ultimately have "r = None \<and> steady d1 d' \<and> group_buffer d' = group_buffer d1 \<and>
      events_of (published d') + events_of (outbound d') = events_of (published d1) + events_of (outbound d1) + events_of rest"
    using 2(1) [OF one [symmetric]] k by blast
  then show ?case using k by (simp add: steady_def)
qed

lemma grouped_clear:
  assumes "dict_wf gb" and "dict_get gb g = Some es"
  shows "grouped (dict_set g [] gb) + mset es = grouped gb"
  using grouped_set [OF assms(1), of g "[]"] assms(2) by simp

lemma flush_groups_keeps:
  assumes "flush_groups net gs d = (r, d')" and "lossless d"
  shows "r = None \<and> steady d d' \<and> lossless d' \<and> all_events d' = all_events d"
  using assms
proof (induction gs arbitrary: r d d')
  case Nil
  then show ?case by (simp add: steady_def)
next
  case (Cons g gs)
  show ?case
  proof (cases "dict_get (group_buffer d) g")
    case None
    then show ?thesis using Cons by simp
  next
    case (Some es)
    show ?thesis
    proof (cases es)
      case Nil
      then show ?thesis using Cons Some by simp
    next
      case cons: (Cons e rest)
      obtain r1 d1 where one: "publish_parcel net (Multi (e # rest)) (multi_key g) d = (r1, d1)" by fastforce
      have l: "has_producer d" "buffer_while_offline d" "dict_wf (group_buffer d)" using Cons.prems(2) by (auto simp: lossless_def)
      note k = publish_parcel_keeps [OF one l(1,2)]
      define d2 where "d2 = d1\<lparr>group_buffer := dict_set g [] (group_buffer d1)\<rparr>"
      have l2: "lossless d2" using k l by (auto simp: d2_def lossless_def steady_def dict_wf_set)
      have a: "all_events d2 = all_events d"
        using k grouped_clear [OF l(3) Some] cons by (simp add: all_events_def d2_def add.assoc add.commute add.left_commute)
      have "flush_groups net gs d2 = (r, d')" using Cons.prems(1) Some cons one k by (simp add: d2_def)
      then have "r = None \<and> steady d2 d' \<and> lossless d' \<and> all_events d' = all_events d2"
        using l2 by (rule Cons.IH)
      then show ?thesis using a k by (auto simp: steady_def d2_def)
    qed
  qed
qed

section \<open>The bootstep of the worker\<close>

text \<open>
  \<open>Events\<close> of \<open>worker/consumer/events.py\<close>: at every start the old dispatcher is closed, and a new one takes over its outbound
  buffer and is flushed. \<open>hub\<close> tells whether there is an event loop. The buffer limit is the default of the dispatcher.
\<close>

record events_step =
  es_groups :: "string set"
  es_send :: bool

definition events_init :: "bool \<Rightarrow> bool \<Rightarrow> bool \<Rightarrow> events_step" where
  "events_init task_events without_heartbeat without_gossip =
     \<lparr>es_groups = (if task_events then {} else {''worker''}), es_send = task_events \<or> \<not> without_gossip \<or> \<not> without_heartbeat\<rparr>"

definition close_dispatcher :: "dispatcher option \<Rightarrow> events_step \<Rightarrow> dispatcher option \<times> events_step" where
  "close_dispatcher cur e = (case cur of None \<Rightarrow> (None, e) | Some d \<Rightarrow> (Some (disable d), e\<lparr>es_groups := groups d\<rparr>))"

definition start_events :: "network \<Rightarrow> bool \<Rightarrow> dispatcher option \<Rightarrow> events_step \<Rightarrow> exn option \<times> dispatcher \<times> events_step" where
  "start_events net hub cur e =
     (case close_dispatcher cur e of (prev, e) \<Rightarrow>
        let d = (new_dispatcher (es_send e) False [] (if hub then [''task''] else []) 24 True)\<lparr>groups := es_groups e\<rparr> in
        (case prev of
           None \<Rightarrow> (None, d, e)
         | Some p \<Rightarrow> (case flush net True True (extend_buffer p d) of (r, d') \<Rightarrow> (r, d', e))))"

section \<open>Properties of the dispatcher\<close>

lemma flush_keeps:
  assumes "flush net errors grps d = (r, d')" and "lossless d"
  shows "r = None \<and> steady d d' \<and> lossless d' \<and> all_events d' = all_events d"
proof -
  obtain r1 d1 where one: "(if errors then flush_errors net (outbound d) (d\<lparr>outbound := []\<rparr>) else (None, d)) = (r1, d1)" by fastforce
  have k: "r1 = None \<and> steady d d1 \<and> lossless d1 \<and> all_events d1 = all_events d"
  proof (cases errors)
    case True
    then show ?thesis
      using flush_errors_keeps [of net "outbound d" "d\<lparr>outbound := []\<rparr>" r1 d1] one assms(2)
      by (auto simp: lossless_def steady_def all_events_def)
  next
    case False
    then show ?thesis using one assms(2) by (auto simp: steady_def)
  qed
  show ?thesis
  proof (cases grps)
    case True
    then have "flush_groups net (keys (group_buffer d1)) d1 = (r, d')" using assms(1) one k by (simp add: flush_def)
    then show ?thesis using flush_groups_keeps k by (fastforce simp: steady_def)
  next
    case False
    then show ?thesis using assms(1) one k by (simp add: flush_def)
  qed
qed

definition accepts :: "dispatcher \<Rightarrow> string \<Rightarrow> bool" where
  "accepts d ty \<longleftrightarrow> enabled d \<and> (groups d = {} \<or> group_from ty \<in> groups d)"

lemma publish_keeps:
  assumes "publish net ty fs blind d = (r, d')" and "lossless d"
  shows "r = None \<and> steady d d' \<and> lossless d' \<and> (\<exists>t. all_events d' = add_mset \<lparr>ev_type = ty, ev_fields = fs, ev_clock = t\<rparr> (all_events d))"
proof -
  let ?d = "if blind then d else d\<lparr>clock := Suc (clock d)\<rparr>"
  have l: "has_producer ?d" "buffer_while_offline ?d" using assms(2) by (auto simp: lossless_def)
  obtain t where "publish_parcel net (Single \<lparr>ev_type = ty, ev_fields = fs, ev_clock = t\<rparr>) (routing_key ty) ?d = (r, d')"
    using assms(1) by (auto simp: publish_def Let_def)
  from publish_parcel_keeps [OF this l] have
    k: "r = None" "steady ?d d'" "group_buffer d' = group_buffer ?d"
      "events_of (published d') + events_of (outbound d') = events_of (published ?d) + events_of (outbound ?d) + {#\<lparr>ev_type = ty, ev_fields = fs, ev_clock = t\<rparr>#}"
    by simp_all
  have "all_events d' = add_mset \<lparr>ev_type = ty, ev_fields = fs, ev_clock = t\<rparr> (all_events d)"
    unfolding all_events_def k(3,4) by (cases blind) simp_all
  moreover have "steady d d'" "lossless d'" using k(2,3) assms(2) by (cases blind; auto simp: steady_def lossless_def)+
  ultimately show ?thesis using k(1) by blast
qed

lemma send_keeps:
  assumes "send net ty fs blind d = (r, d')" and "lossless d"
  shows "r = None \<and> steady d d' \<and> lossless d' \<and>
    image_mset ev_fields (all_events d') = image_mset ev_fields (all_events d) + (if accepts d ty then {#fs#} else {#})"
proof (cases "accepts d ty")
  case False
  then have "r = None" "d' = d" using assms(1) by (auto simp: send_def accepts_def Let_def)
  then show ?thesis using False assms(2) by (simp add: steady_def)
next
  case acc: True
  show ?thesis
  proof (cases "group_from ty \<in> buffer_group d")
    case False
    then have "publish net ty fs blind d = (r, d')" using assms(1) acc by (auto simp: send_def accepts_def Let_def)
    from publish_keeps [OF this assms(2)] show ?thesis using acc by auto
  next
    case True
    define g where "g = group_from ty"
    define ev where "ev = \<lparr>ev_type = ty, ev_fields = fs, ev_clock = Some (Suc (clock d))\<rparr>"
    define old where "old = (case dict_get (group_buffer d) g of None \<Rightarrow> [] | Some b \<Rightarrow> b)"
    define d1 where "d1 = d\<lparr>clock := Suc (clock d), group_buffer := dict_set g (old @ [ev]) (group_buffer d)\<rparr>"
    have wf: "dict_wf (group_buffer d)" using assms(2) by (simp add: lossless_def)
    have run: "(if length (old @ [ev]) \<ge> buffer_limit d1 then flush net True True d1 else (None, d1)) = (r, d')"
      using assms(1) acc True by (auto simp: send_def accepts_def Let_def g_def ev_def old_def d1_def)
    have "grouped (dict_set g (old @ [ev]) (group_buffer d)) + mset old = grouped (group_buffer d) + mset old + {#ev#}"
      using grouped_set [OF wf, of g "old @ [ev]"] by (simp add: old_def)
    then have "grouped (dict_set g (old @ [ev]) (group_buffer d)) = grouped (group_buffer d) + {#ev#}" by simp
    then have a: "all_events d1 = all_events d + {#ev#}" by (simp add: all_events_def d1_def)
    have l: "lossless d1" "steady d d1" using assms(2) wf by (auto simp: lossless_def d1_def dict_wf_set steady_def)
    have "r = None \<and> steady d1 d' \<and> lossless d' \<and> all_events d' = all_events d1"
      using run l(1) flush_keeps [of net True True d1 r d'] by (auto simp: steady_def split: if_splits)
    then show ?thesis using a l(2) acc by (auto simp: steady_def ev_def)
  qed
qed

datatype dispatcher_call = Send string nat bool | Flush bool bool

fun dispatch :: "network \<Rightarrow> dispatcher_call \<Rightarrow> dispatcher \<Rightarrow> dispatcher" where
  "dispatch net (Send ty fs blind) d = snd (send net ty fs blind d)"
| "dispatch net (Flush errors grps) d = snd (flush net errors grps d)"

fun accepted :: "dispatcher \<Rightarrow> dispatcher_call \<Rightarrow> nat list" where
  "accepted d (Send ty fs blind) = (if accepts d ty then [fs] else [])"
| "accepted d (Flush errors grps) = []"

lemma dispatch_keeps:
  assumes "lossless d"
  shows "steady d (dispatch net c d) \<and> lossless (dispatch net c d) \<and>
    image_mset ev_fields (all_events (dispatch net c d)) = image_mset ev_fields (all_events d) + mset (accepted d c)"
proof (cases c)
  case (Send ty fs blind)
  obtain r d' where "send net ty fs blind d = (r, d')" by fastforce
  from send_keeps [OF this assms] this show ?thesis by (simp add: Send)
next
  case (Flush errors grps)
  obtain r d' where "flush net errors grps d = (r, d')" by fastforce
  from flush_keeps [OF this assms] this show ?thesis by (simp add: Flush)
qed

lemma steady_accepted: "steady d d' \<Longrightarrow> accepted d' c = accepted d c"
  by (cases c) (auto simp: steady_def accepts_def)

text \<open>
  C38: a dispatcher that buffers while offline loses no event and duplicates none, however the connection fails: after any sequence of sends and flushes, the
  events of the accepted groups are exactly those published and those still buffered.
\<close>

theorem dispatcher_loses_no_event:
  assumes "d = new_dispatcher True False grps bgroup limit True"
  shows "image_mset ev_fields (all_events (fold (dispatch net) calls d)) = mset (concat (map (accepted d) calls))"
proof -
  have "image_mset ev_fields (all_events (fold (dispatch net) calls d0)) = image_mset ev_fields (all_events d0) + mset (concat (map (accepted d) calls))"
    if "steady d d0" "lossless d0" for d0
    using that
  proof (induction calls arbitrary: d0)
    case (Cons c calls)
    from dispatch_keeps [OF Cons.prems(2), of net c] have k: "steady d (dispatch net c d0)" "lossless (dispatch net c d0)"
      "image_mset ev_fields (all_events (dispatch net c d0)) = image_mset ev_fields (all_events d0) + mset (accepted d0 c)"
      using Cons.prems(1) by (auto simp: steady_def)
    from Cons.IH [OF k(1,2)] k(3) steady_accepted [OF Cons.prems(1)] show ?case by simp
  qed simp
  moreover have "steady d d" "lossless d" "all_events d = {#}"
    using assms by (auto simp: steady_def lossless_def new_dispatcher_def all_events_def grouped_def)
  ultimately show ?thesis by simp
qed

theorem dispatcher_loses_no_event_witness:
  "image_mset ev_fields (all_events (fold (dispatch (\<lambda>n. n \<noteq> 0)) [Send ''worker-online'' 1 False, Send ''task-sent'' 2 False, Flush True True]
     (new_dispatcher True False [] [''task''] 24 True))) = {#1, 2#}"
proof -
  let ?d = "new_dispatcher True False [] [''task''] 24 True"
  have "accepts ?d ''worker-online''" "accepts ?d ''task-sent''" by (simp_all add: accepts_def new_dispatcher_def)
  then show ?thesis using dispatcher_loses_no_event [of ?d "[]" "[''task'']" 24 "\<lambda>n. n \<noteq> 0" "[Send ''worker-online'' 1 False, Send ''task-sent'' 2 False, Flush True True]"]
    by simp
qed

lemma publish_parcel_online:
  "has_producer d \<Longrightarrow> net (attempts d) \<Longrightarrow> publish_parcel net p key d = (None, d\<lparr>attempts := Suc (attempts d), published := published d @ [(p, key)]\<rparr>)"
  by (simp add: publish_parcel_def Let_def)

lemma flush_errors_online:
  assumes "has_producer d" and "\<And>n. net n"
  shows "flush_errors net ps d = (None, d\<lparr>attempts := attempts d + length ps, published := published d @ ps\<rparr>)"
  using assms by (induction ps arbitrary: d) (auto simp: publish_parcel_online)

definition group_parcels :: "(string, event list) dict \<Rightarrow> string list \<Rightarrow> (parcel \<times> string) list" where
  "group_parcels gb gs = List.map_filter (\<lambda>g. case dict_get gb g of Some (e # es) \<Rightarrow> Some (Multi (e # es), multi_key g) | _ \<Rightarrow> None) gs"

lemma group_parcels_cong:
  "(\<And>g. g \<in> set gs \<Longrightarrow> dict_get gb g = dict_get gb' g) \<Longrightarrow> group_parcels gb gs = group_parcels gb' gs"
  by (simp add: group_parcels_def List.map_filter_def cong: filter_cong)

lemma flush_groups_online:
  assumes "has_producer d" and "\<And>n. net n" and "distinct gs"
  shows "fst (flush_groups net gs d) = None \<and> published (snd (flush_groups net gs d)) = published d @ group_parcels (group_buffer d) gs \<and>
    outbound (snd (flush_groups net gs d)) = outbound d \<and>
    (\<forall>g. dict_get (group_buffer (snd (flush_groups net gs d))) g = (if g \<in> set gs \<and> dict_get (group_buffer d) g \<noteq> None then Some [] else dict_get (group_buffer d) g))"
  using assms
proof (induction gs arbitrary: d)
  case Nil
  then show ?case by (simp add: group_parcels_def)
next
  case (Cons g gs)
  show ?case
  proof (cases "\<exists>e es. dict_get (group_buffer d) g = Some (e # es)")
    case True
    then obtain e es where g: "dict_get (group_buffer d) g = Some (e # es)" by blast
    define d1 where "d1 = d\<lparr>attempts := Suc (attempts d), published := published d @ [(Multi (e # es), multi_key g)], group_buffer := dict_set g [] (group_buffer d)\<rparr>"
    have run: "flush_groups net (g # gs) d = flush_groups net gs d1"
      using publish_parcel_online [OF Cons.prems(1), of net] Cons.prems(2) g by (simp add: d1_def)
    have "group_parcels (group_buffer d1) gs = group_parcels (group_buffer d) gs"
      using Cons.prems(3) by (intro group_parcels_cong) (auto simp: d1_def dict_simps)
    moreover have "group_parcels (group_buffer d) (g # gs) = (Multi (e # es), multi_key g) # group_parcels (group_buffer d) gs"
      using g by (simp add: group_parcels_def List.map_filter_def)
    moreover have "has_producer d1" "distinct gs" "outbound d1 = outbound d" "published d1 = published d @ [(Multi (e # es), multi_key g)]"
      "\<And>k. dict_get (group_buffer d1) k = (if k = g then Some [] else dict_get (group_buffer d) k)"
      using Cons.prems by (auto simp: d1_def dict_simps)
    moreover note Cons.IH [where d = d1, OF _ Cons.prems(2)]
    ultimately show ?thesis using Cons.prems(3) g unfolding run by simp
  next
    case False
    then have none: "dict_get (group_buffer d) g = None \<or> dict_get (group_buffer d) g = Some []"
      by (metis list.exhaust option.exhaust)
    then have run: "flush_groups net (g # gs) d = flush_groups net gs d" by auto
    have "group_parcels (group_buffer d) (g # gs) = group_parcels (group_buffer d) gs"
      using none by (auto simp: group_parcels_def List.map_filter_def)
    then show ?thesis using Cons.IH [where d = d, OF Cons.prems(1,2)] Cons.prems(3) none unfolding run by auto
  qed
qed

text \<open>
  a flush while the connection is up publishes the outbound buffer in the order in which the events failed, then one parcel for each group with
  buffered events, and leaves all buffers empty.
\<close>

theorem flush_publishes_all_in_order:
  assumes "has_producer d" and "\<And>n. net n" and "dict_wf (group_buffer d)"
  shows "\<exists>d'. flush net True True d = (None, d') \<and>
    published d' = published d @ outbound d @ group_parcels (group_buffer d) (keys (group_buffer d)) \<and> outbound d' = [] \<and>
    (\<forall>g es. dict_get (group_buffer d') g = Some es \<longrightarrow> es = [])"
proof -
  define d1 where "d1 = d\<lparr>outbound := [], attempts := attempts d + length (outbound d), published := published d @ outbound d\<rparr>"
  have "flush_errors net (outbound d) (d\<lparr>outbound := []\<rparr>) = (None, d1)"
    using flush_errors_online [of "d\<lparr>outbound := []\<rparr>" net "outbound d"] assms(1,2) by (simp add: d1_def)
  then have run: "flush net True True d = flush_groups net (keys (group_buffer d)) d1" by (simp add: flush_def d1_def)
  let ?run = "flush_groups net (keys (group_buffer d)) d1"
  have d1: "has_producer d1" "group_buffer d1 = group_buffer d" "published d1 = published d @ outbound d" "outbound d1 = []"
    using assms(1) by (simp_all add: d1_def)
  note k = flush_groups_online [where net = net, OF d1(1) assms(2,3), unfolded d1(2-4)]
  have "es = []" if "dict_get (group_buffer (snd ?run)) g = Some es" for g es
  proof -
    have "dict_get (group_buffer (snd ?run)) g = (if g \<in> set (keys (group_buffer d)) \<and> dict_get (group_buffer d) g \<noteq> None then Some [] else dict_get (group_buffer d) g)"
      using k by blast
    then show ?thesis using that dict_get_None_iff [of "group_buffer d" g] by (metis option.distinct(1) option.inject)
  qed
  then show ?thesis unfolding run using k by (intro exI [of _ "snd ?run"]) (simp add: prod_eq_iff)
qed

definition sample_dispatcher :: dispatcher where
  "sample_dispatcher = (new_dispatcher True False [] [''task''] 24 True)
     \<lparr>outbound := [(Single \<lparr>ev_type = ''worker-online'', ev_fields = 1, ev_clock = Some 1\<rparr>, ''worker.online'')],
      group_buffer := [(''task'', [\<lparr>ev_type = ''task-sent'', ev_fields = 2, ev_clock = Some 2\<rparr>])]\<rparr>"

theorem flush_publishes_all_in_order_witness:
  "\<exists>d'. flush (\<lambda>n. True) True True sample_dispatcher = (None, d') \<and> map snd (published d') = [''worker.online'', ''task.multi'']"
proof -
  have "has_producer sample_dispatcher" "dict_wf (group_buffer sample_dispatcher)" by (simp_all add: sample_dispatcher_def new_dispatcher_def)
  from flush_publishes_all_in_order [OF this(1) _ this(2), of "\<lambda>n. True"] show ?thesis
    by (auto simp: sample_dispatcher_def new_dispatcher_def group_parcels_def List.map_filter_def multi_key_def)
qed

text \<open>
  a restart of the connection loses the events that wait in the buffer of a group. The new dispatcher takes over the outbound buffer of the old one, whose
  group buffers are dropped; with the connection up exactly the outbound buffer is published.
\<close>

theorem restart_drops_group_buffers:
  assumes "\<And>n. net n" and "es_send e"
  shows "\<exists>d'. start_events net hub (Some d) e = (None, d', e\<lparr>es_groups := groups d\<rparr>) \<and> published d' = outbound d \<and> outbound d' = [] \<and> group_buffer d' = []"
proof -
  define n where "n = extend_buffer (disable d) ((new_dispatcher (es_send e) False [] (if hub then [''task''] else []) 24 True)\<lparr>groups := groups d\<rparr>)"
  have n: "has_producer n" "outbound n = outbound d" "published n = []" "group_buffer n = []"
    using assms(2) by (simp_all add: n_def extend_buffer_def new_dispatcher_def disable_def close_def Let_def)
  have "flush net True True n = (None, n\<lparr>outbound := [], attempts := attempts n + length (outbound d), published := outbound d\<rparr>)"
    using flush_errors_online [of "n\<lparr>outbound := []\<rparr>" net "outbound d"] assms(1) n by (simp add: flush_def)
  then show ?thesis
    using n by (simp add: start_events_def close_dispatcher_def Let_def n_def [symmetric])
qed

theorem restart_drops_group_buffers_witness:
  "\<exists>d' e. start_events (\<lambda>n. True) True (Some sample_dispatcher) (events_init True False False) = (None, d', e) \<and>
     group_buffer sample_dispatcher \<noteq> [] \<and> map snd (published d') = [''worker.online''] \<and> group_buffer d' = []"
proof -
  have "es_send (events_init True False False)" by (simp add: events_init_def)
  from restart_drops_group_buffers [OF _ this, of "\<lambda>n. True" True sample_dispatcher] show ?thesis
    by (auto simp: sample_dispatcher_def new_dispatcher_def)
qed

end
