(* ===== verification/Control.thy ===== *)
theory Control
  imports Dispatcher Request States
begin

text \<open>
  Remote control commands of the worker, \<open>celery.worker.control\<close>: revoking and terminating tasks by id and by stamped headers, querying requests, rate and
  time limits, switching events on and off, and the exchange of revoked ids between workers (\<open>hello\<close>, and \<open>Mingle\<close> of
  \<open>worker/consumer/mingle.py\<close>).

  The iteration order of a set of ids is that of the list given. Results are known by their stored state, in one backend that does not
  overwrite a success; the chord of a terminated task is left out. The request objects are those of \<open>Request\<close>, where a signal is known by its name. Arguments of the model are signal numbers,
  failures of the backend, \<open>maybe_list\<close> of the broker library, the reading of numbers and the clock.
\<close>

section \<open>State\<close>

datatype rate_value = NoRate | RateNumber rat | RateText string

record ctask =
  ct_rate_limit :: rate_value
  ct_time_limit :: "rat option"
  ct_soft_time_limit :: "rat option"

record control =
  ws :: worker_state
  stored :: "(string, string) dict"
  req_obj :: "wreq \<Rightarrow> rst"
  terminations :: "(wreq \<times> int) list"
  event_dispatcher :: "dispatcher option"
  task_table :: "(string, ctask) dict"
  limit_resets :: nat

record cenv =
  signum :: "string \<Rightarrow> int result"
  backend_fails :: "string \<Rightarrow> bool"
  backend_error :: exn
  req_env :: renv
  to_list :: "hval \<Rightarrow> hval list"
  stamps_of :: "wreq \<Rightarrow> (string, hval) dict"
  to_float :: "string \<Rightarrow> rat result"

datatype reply = Ok string | Error string | Flagged "string list" | Terminated "string list" | StampsFlagged | StampsTerminated "string list" | Nothing

section \<open>Looking up requests\<close>

definition find_requests_by_id :: "string list \<Rightarrow> worker_state \<Rightarrow> wreq list" where
  "find_requests_by_id ids w = List.map_filter (dict_get (requests w)) ids"

definition state_of_task :: "wreq \<Rightarrow> worker_state \<Rightarrow> string" where
  "state_of_task r w =
     (if r \<in> active_requests w then ''active''
      else if r \<in> reserved_requests w then ''reserved''
      else if r \<in> scheduled_requests w then ''scheduled''
      else ''ready'')"

definition query_task :: "string list \<Rightarrow> worker_state \<Rightarrow> (string, string) dict" where
  "query_task ids w = dict_update [] (map (\<lambda>r. (rq_id r, state_of_task r w)) (find_requests_by_id ids w))"

definition reserved :: "worker_state \<Rightarrow> wreq set" where
  "reserved w = reserved_requests w - active_requests w"

section \<open>Revoking by id\<close>

text \<open>The state of an unknown task is \<open>PENDING\<close>. Errors of the backend are logged.\<close>

definition mark_as_revoked :: "cenv \<Rightarrow> string \<Rightarrow> control \<Rightarrow> control" where
  "mark_as_revoked env i c =
     (if backend_fails env i then c
      else if (case dict_get (stored c) i of None \<Rightarrow> PENDING | Some s \<Rightarrow> s) \<in> READY_STATES then c
      else c\<lparr>stored := dict_set i REVOKED (stored c)\<rparr>)"

fun mark_all :: "cenv \<Rightarrow> (string, wreq) dict \<Rightarrow> string list \<Rightarrow> control \<Rightarrow> control" where
  "mark_all env by_id [] c = c"
| "mark_all env by_id (i # ids) c = mark_all env by_id ids
     (case dict_get by_id i of
        Some r \<Rightarrow> if r \<in> active_requests (ws c) then c else mark_as_revoked env i c
      | None \<Rightarrow> mark_as_revoked env i c)"

text \<open>
  \<open>Request.terminate\<close> on the worker's state. For a request that has started the result backend is told that the task is revoked; when the backend raises there,
  what follows in \<open>_announce_revoked\<close> is not done and the exception leaves the command.
\<close>

definition store_revoked :: "string \<Rightarrow> (string, string) dict \<Rightarrow> (string, string) dict" where
  "store_revoked i d = (if dict_get d i = Some SUCCESS then d else dict_set i REVOKED d)"

definition put_request :: "wreq \<Rightarrow> rst \<Rightarrow> control \<Rightarrow> control" where
  "put_request r st c = c\<lparr>ws := glob st, req_obj := (req_obj c)(r := st)\<rparr>"

definition stores_revoked :: "rst \<Rightarrow> bool" where
  "stores_revoked st \<longleftrightarrow> started st \<and> store_errors st"

definition terminate_request :: "cenv \<Rightarrow> string \<Rightarrow> int \<Rightarrow> wreq \<Rightarrow> control \<Rightarrow> unit result \<times> control" where
  "terminate_request env sig n r c =
     (let st = (req_obj c r)\<lparr>glob := ws c\<rparr>; c = c\<lparr>terminations := terminations c @ [(r, n)]\<rparr> in
      if stores_revoked st \<and> backend_fails env (rq_id r)
      then (Inl (backend_error env), put_request r
        (snd (rseq (upd (emit (TerminateJob (worker_pid st) sig))) (rseq (ready (req_env env) False) (upd (send_event ''task-revoked''))) st)) c)
      else (case Request.terminate (req_env env) sig st of
          (Inl (RExn e), st') \<Rightarrow> (Inl e, put_request r st' c)
        | (_, st') \<Rightarrow> (Inr (), (put_request r st' c)
            \<lparr>stored := (if stores_revoked st then store_revoked (rq_id r) (stored c) else stored c)\<rparr>)))"

text \<open>
  Each id is terminated once, and the loop ends when as many were terminated as were asked for. The requests are looked up as the loop goes, since terminating one
  takes it out of the table.
\<close>

fun terminate_all :: "cenv \<Rightarrow> string \<Rightarrow> int \<Rightarrow> nat \<Rightarrow> string list \<Rightarrow> string list \<Rightarrow> control \<Rightarrow> string list result \<times> control" where
  "terminate_all env sig n sz [] terminated c = (Inr terminated, c)"
| "terminate_all env sig n sz (i # ids) terminated c =
     (case dict_get (requests (ws c)) i of
        None \<Rightarrow> terminate_all env sig n sz ids terminated c
      | Some r \<Rightarrow>
          if rq_id r \<in> set terminated then terminate_all env sig n sz ids terminated c
          else (let terminated = terminated @ [rq_id r] in
                case terminate_request env sig n r c of
                  (Inl e, c) \<Rightarrow> (Inl e, c)
                | (Inr _, c) \<Rightarrow> if length terminated \<ge> sz then (Inr terminated, c) else terminate_all env sig n sz ids terminated c))"

definition term_signame :: string where
  "term_signame = ''TERM''"

definition sig_or_term :: "string option \<Rightarrow> string" where
  "sig_or_term sig = (case sig of Some (ch # s) \<Rightarrow> ch # s | _ \<Rightarrow> term_signame)"

definition revoke :: "cenv \<Rightarrow> (nat \<Rightarrow> rat) \<Rightarrow> string list \<Rightarrow> bool \<Rightarrow> string option \<Rightarrow> control \<Rightarrow> (exn + reply) \<times> control" where
  "revoke env clk ids term sig c =
     (case update clk (FromIter ids) (revoked (ws c)) of
        Inl e \<Rightarrow> (Inl e, c)
      | Inr s \<Rightarrow>
          let c = c\<lparr>ws := (ws c)\<lparr>revoked := s\<rparr>\<rparr>;
              found = find_requests_by_id ids (ws c);
              c = mark_all env (dict_update [] (map (\<lambda>r. (rq_id r, r)) found)) ids c in
          if term then
            (case signum env (sig_or_term sig) of
               Inl e \<Rightarrow> (Inl e, c)
             | Inr n \<Rightarrow> (case terminate_all env (sig_or_term sig) n (length ids) ids [] c of
                 (Inl e, c) \<Rightarrow> (Inl e, c)
               | (Inr terminated, c) \<Rightarrow> (Inr (if terminated = [] then Ok ''terminate: tasks unknown'' else Terminated terminated), c)))
          else (Inr (Flagged ids), c))"

definition terminate :: "cenv \<Rightarrow> (nat \<Rightarrow> rat) \<Rightarrow> string option \<Rightarrow> string list \<Rightarrow> control \<Rightarrow> (exn + reply) \<times> control" where
  "terminate env clk sig ids c = revoke env clk ids True sig c"

section \<open>Revoking by stamped headers\<close>

text \<open>Headers given as a list of texts: the part before the first equals sign is the key, the part up to the next one the value.\<close>

fun split_at :: "char \<Rightarrow> string \<Rightarrow> string list" where
  "split_at d [] = [[]]"
| "split_at d (ch # cs) = (if ch = d then [] # split_at d cs else (case split_at d cs of p # ps \<Rightarrow> (ch # p) # ps | [] \<Rightarrow> [[ch]]))"

fun headers_from_list :: "string list \<Rightarrow> (string, hval) dict result" where
  "headers_from_list [] = Inr []"
| "headers_from_list (h # hs) = (case split_at CHR ''='' h of
     k # v # _ \<Rightarrow> res_bind (headers_from_list hs) (\<lambda>d. Inr (if dict_get d k = None then (k, HStr v) # d else (k, the (dict_get d k)) # dict_del k d))
   | _ \<Rightarrow> Inl IndexError)"

definition flag_stamps :: "cenv \<Rightarrow> (string, hval) dict \<Rightarrow> (string, hval) dict \<Rightarrow> (string, hval) dict" where
  "flag_stamps env hdrs revs = foldl (\<lambda>revs (h, st). dict_set h
     (HList ((case dict_get revs h of None \<Rightarrow> [] | Some old \<Rightarrow> to_list env old) @ to_list env st)) revs) revs hdrs"

text \<open>The headers of a request that match, in the order of the command; each match terminates the request.\<close>

definition matching_headers :: "cenv \<Rightarrow> (string, hval) dict \<Rightarrow> wreq \<Rightarrow> string list" where
  "matching_headers env hdrs r = map fst (filter (\<lambda>(h, st). case dict_get (stamps_of env r) h of
     None \<Rightarrow> False | Some a \<Rightarrow> set (to_list env a) \<inter> set (to_list env st) \<noteq> {}) hdrs)"

fun terminate_hits :: "cenv \<Rightarrow> string \<Rightarrow> int \<Rightarrow> (wreq \<times> string) list \<Rightarrow> control \<Rightarrow> unit result \<times> control" where
  "terminate_hits env sig n [] c = (Inr (), c)"
| "terminate_hits env sig n ((r, h) # hits) c =
     (case terminate_request env sig n r c of (Inl e, c) \<Rightarrow> (Inl e, c) | (Inr _, c) \<Rightarrow> terminate_hits env sig n hits c)"

definition revoke_by_stamped_headers :: "cenv \<Rightarrow> (string, hval) dict \<Rightarrow> bool \<Rightarrow> string option \<Rightarrow> wreq list \<Rightarrow> control \<Rightarrow> (exn + reply) \<times> control" where
  "revoke_by_stamped_headers env hdrs term sig active c =
     (case signum env (sig_or_term sig) of
        Inl e \<Rightarrow> (Inl e, c)
      | Inr n \<Rightarrow>
          let c = c\<lparr>ws := (ws c)\<lparr>revoked_stamps := flag_stamps env hdrs (revoked_stamps (ws c))\<rparr>\<rparr> in
          if \<not> term then (Inr StampsFlagged, c)
          else (let hits = concat (map (\<lambda>r. map (\<lambda>h. (r, h)) (matching_headers env hdrs r)) active) in
                case terminate_hits env (sig_or_term sig) n hits c of
                  (Inl e, c) \<Rightarrow> (Inl e, c)
                | (Inr _, c) \<Rightarrow> (Inr (if hits = [] then Ok ''headers were not terminated'' else StampsTerminated (map snd hits)), c)))"

section \<open>Limits\<close>

text \<open>\<open>rate\<close> of \<open>utils/time.py\<close>: a text is a number with an optional unit; an unknown unit is a \<open>KeyError\<close>.\<close>

fun rate_modifier :: "string \<Rightarrow> (rat \<Rightarrow> rat) result" where
  "rate_modifier m =
     (if m = [] \<or> m = ''s'' then Inr (\<lambda>n. n) else if m = ''m'' then Inr (\<lambda>n. n / 60) else if m = ''h'' then Inr (\<lambda>n. n / 60 / 60) else Inl KeyError)"

definition rate :: "cenv \<Rightarrow> rate_value \<Rightarrow> rat result" where
  "rate env r = (case r of
     NoRate \<Rightarrow> Inr 0
   | RateNumber q \<Rightarrow> Inr q
   | RateText s \<Rightarrow> if s = [] then Inr 0
       else (let ops = takeWhile (\<lambda>ch. ch \<noteq> CHR ''/'') s; md = drop (Suc (length ops)) s in
             res_bind (rate_modifier md) (\<lambda>f. res_bind (to_float env ops) (\<lambda>n. Inr (f n)))))"

definition rate_true :: "rate_value \<Rightarrow> bool" where
  "rate_true r = (case r of NoRate \<Rightarrow> False | RateNumber q \<Rightarrow> q \<noteq> 0 | RateText s \<Rightarrow> s \<noteq> [])"

definition rate_limit :: "cenv \<Rightarrow> string \<Rightarrow> rate_value \<Rightarrow> control \<Rightarrow> (exn + reply) \<times> control" where
  "rate_limit env name r c = (case rate env r of
     Inl ValueError \<Rightarrow> (Inr (Error ''Invalid rate limit string''), c)
   | Inl e \<Rightarrow> (Inl e, c)
   | Inr _ \<Rightarrow> (case dict_get (task_table c) name of
       None \<Rightarrow> (Inr (Error ''unknown task''), c)
     | Some t \<Rightarrow>
         (Inr (Ok (if rate_true r then ''new rate limit set successfully'' else ''rate limit disabled successfully'')),
          c\<lparr>task_table := dict_set name (t\<lparr>ct_rate_limit := r\<rparr>) (task_table c), limit_resets := Suc (limit_resets c)\<rparr>)))"

definition time_limit :: "string \<Rightarrow> rat option \<Rightarrow> rat option \<Rightarrow> control \<Rightarrow> reply \<times> control" where
  "time_limit name hard soft c = (case dict_get (task_table c) name of
     None \<Rightarrow> (Error ''unknown task'', c)
   | Some t \<Rightarrow> (Ok ''time limits set successfully'',
       c\<lparr>task_table := dict_set name (t\<lparr>ct_soft_time_limit := soft, ct_time_limit := hard\<rparr>) (task_table c)\<rparr>))"

section \<open>Events\<close>

definition enable_events :: "control \<Rightarrow> reply \<times> control" where
  "enable_events c = (case event_dispatcher c of
     None \<Rightarrow> (Error ''event dispatcher unavailable'', c)
   | Some d \<Rightarrow>
       if groups d \<noteq> {} \<and> ''task'' \<notin> groups d
       then (Ok ''task events enabled'', c\<lparr>event_dispatcher := Some (d\<lparr>groups := insert ''task'' (groups d)\<rparr>)\<rparr>)
       else (Ok ''task events already enabled'', c))"

definition disable_events :: "control \<Rightarrow> reply \<times> control" where
  "disable_events c = (case event_dispatcher c of
     None \<Rightarrow> (Error ''event dispatcher unavailable'', c)
   | Some d \<Rightarrow>
       if ''task'' \<in> groups d
       then (Ok ''task events disabled'', c\<lparr>event_dispatcher := Some (d\<lparr>groups := groups d - {''task''}\<rparr>)\<rparr>)
       else (Ok ''task events already disabled'', c))"

section \<open>Exchange of revoked ids\<close>

text \<open>
  \<open>hello\<close> merges the ids of the other worker, drops what has expired and answers with its own. \<open>clk\<close> are the clock readings while merging, \<open>pt\<close>
  that of the purge. The logical clock is left out.
\<close>

definition hello :: "(nat \<Rightarrow> rat) \<Rightarrow> rat \<Rightarrow> string \<Rightarrow> string \<Rightarrow> string list \<Rightarrow> worker_state \<Rightarrow> (string list option \<times> worker_state) result" where
  "hello clk pt self from_node ids w =
     (if from_node = self then Inr (None, w)
      else res_bind (merge_revoked clk ids w) (\<lambda>w.
           res_bind (purge pt (revoked w)) (\<lambda>s. Inr (Some (ls_iter s), w\<lparr>revoked := s\<rparr>))))"

definition on_node_reply :: "(nat \<Rightarrow> rat) \<Rightarrow> string list option \<Rightarrow> worker_state \<Rightarrow> worker_state" where
  "on_node_reply clk reply w = (case reply of
     None \<Rightarrow> w
   | Some ids \<Rightarrow> (case merge_revoked clk ids w of Inl e \<Rightarrow> w | Inr w' \<Rightarrow> w'))"

text \<open>A worker that starts greets another one and takes over what it answers.\<close>

definition mingle :: "(nat \<Rightarrow> rat) \<Rightarrow> rat \<Rightarrow> string \<Rightarrow> string \<Rightarrow> worker_state \<Rightarrow> worker_state \<Rightarrow> (worker_state \<times> worker_state) result" where
  "mingle clk pt self other w v =
     res_bind (hello clk pt other self (ls_iter (revoked w)) v) (\<lambda>(reply, v'). Inr (on_node_reply clk reply w, v'))"

section \<open>Properties of revocation\<close>

lemma add_with_room:
  assumes "ls_inv s" and "maxlen s = 0 \<or> int (Suc (length (ls_data s))) < maxlen s"
  shows "\<exists>t. add clk clk' x None s = Inr t \<and> ls_inv t \<and> same_limits s t \<and> set (keys (ls_data t)) = insert x (set (keys (ls_data s))) \<and>
    length (ls_data t) \<le> Suc (length (ls_data s))"
proof -
  have wf: "dict_wf (ls_data s)" using assms(1) by (simp add: ls_inv_def)
  note data = add_entry_data [OF wf, of x clk]
  have len: "length (ls_data (add_entry x clk s)) \<le> Suc (length (ls_data s))" by (simp add: data length_delete_le)
  then have "add clk clk' x None s = Inr (add_entry x clk s)"
    using assms(2) add_entry_frame(1) [of s x clk] by (auto simp: add_def ls_len_def same_limits_def)
  moreover have "ls_inv (add_entry x clk s)" using assms(1) by (rule inv_intros)
  moreover have "set (keys (ls_data (add_entry x clk s))) = insert x (set (keys (ls_data s)))" by (auto simp: data)
  ultimately show ?thesis using len by auto
qed

lemma update_with_room:
  assumes "ls_inv s" and "maxlen s = 0 \<or> int (length (ls_data s) + length xs) < maxlen s"
  shows "\<exists>t. update_iter clk xs s = Inr t \<and> ls_inv t \<and> same_limits s t \<and> set (keys (ls_data t)) = set (keys (ls_data s)) \<union> set xs \<and>
    length (ls_data t) \<le> length (ls_data s) + length xs"
  using assms
proof (induction xs arbitrary: clk s)
  case Nil
  then show ?case by simp
next
  case (Cons x xs)
  from Cons.prems(2) have "maxlen s = 0 \<or> int (Suc (length (ls_data s))) < maxlen s" by auto
  from add_with_room [OF Cons.prems(1) this] obtain u where u: "add (clk 0) (clk 1) x None s = Inr u" "ls_inv u" "same_limits s u"
    "set (keys (ls_data u)) = insert x (set (keys (ls_data s)))" "length (ls_data u) \<le> Suc (length (ls_data s))" by blast
  have "maxlen u = 0 \<or> int (length (ls_data u) + length xs) < maxlen u" using Cons.prems(2) u(3,5) by (auto simp: same_limits_def)
  from Cons.IH [OF u(2) this, of "\<lambda>i. clk (i + 2)"] obtain t where
    "update_iter (\<lambda>i. clk (i + 2)) xs u = Inr t" "ls_inv t" "same_limits u t" "set (keys (ls_data t)) = set (keys (ls_data u)) \<union> set xs"
    "length (ls_data t) \<le> length (ls_data u) + length xs" by blast
  then show ?case using u same_limits_trans [OF u(3)] by auto
qed

lemma mark_as_revoked_ws [simp]: "ws (mark_as_revoked env i c) = ws c" "terminations (mark_as_revoked env i c) = terminations c" "req_obj (mark_as_revoked env i c) = req_obj c"
  by (simp_all add: mark_as_revoked_def)

lemma mark_all_ws [simp]: "ws (mark_all env by_id ids c) = ws c" "terminations (mark_all env by_id ids c) = terminations c"
    "req_obj (mark_all env by_id ids c) = req_obj c"
  by (induction env by_id ids c rule: mark_all.induct) (simp_all split: option.split)

text \<open>Terminating a request cannot raise by itself; it takes a started request out of the tables.\<close>

definition removed :: "wreq \<Rightarrow> worker_state \<Rightarrow> worker_state" where
  "removed r w = w\<lparr>requests := dict_del (rq_id r) (requests w), active_requests := active_requests w - {r},
     reserved_requests := reserved_requests w - {r}, scheduled_requests := scheduled_requests w - {r}\<rparr>"

lemma request_terminate:
  "\<exists>st'. Request.terminate env sig st = (Inr (), st') \<and> ident st' = ident st \<and> glob st' = (if started st then removed (ident st) (glob st) else glob st)"
  by (auto simp: Request.terminate_def rseq_def rbind_def upd_def announce_revoked_def ready_False removed_def terminate_result_def emit_def
      acknowledge_def send_event_def)

lemma terminate_request_spec:
  assumes "terminate_request env sig n r c = (res, c')" and "ident (req_obj c r) = r"
  shows "ws c' = (if started (req_obj c r) then removed r (ws c) else ws c)"
    and "\<And>q. q \<noteq> r \<Longrightarrow> req_obj c' q = req_obj c q" and "ident (req_obj c' r) = r"
    and "res = Inr u \<Longrightarrow> stored c' = (if stores_revoked (req_obj c r) then store_revoked (rq_id r) (stored c) else stored c)"
    and "terminations c' = terminations c @ [(r, n)]"
    and "isl res \<Longrightarrow> stored c' = stored c"
proof -
  let ?st = "(req_obj c r)\<lparr>glob := ws c\<rparr>"
  obtain st' where t: "Request.terminate (req_env env) sig ?st = (Inr (), st')" "ident st' = r"
    "glob st' = (if started (req_obj c r) then removed r (ws c) else ws c)"
    using request_terminate [of "req_env env" sig ?st] assms(2) by (auto simp: started_def)
  have s: "stores_revoked ?st = stores_revoked (req_obj c r)" by (simp add: stores_revoked_def started_def store_errors_def)
  have *: "(res, c') = terminate_request env sig n r c" using assms(1) by simp
  show "ws c' = (if started (req_obj c r) then removed r (ws c) else ws c)" "ident (req_obj c' r) = r"
    "terminations c' = terminations c @ [(r, n)]" "isl res \<Longrightarrow> stored c' = stored c"
    and "\<And>q. q \<noteq> r \<Longrightarrow> req_obj c' q = req_obj c q"
    and "res = Inr u \<Longrightarrow> stored c' = (if stores_revoked (req_obj c r) then store_revoked (rq_id r) (stored c) else stored c)"
    using * t assms(2) s
    by (auto simp: terminate_request_def Let_def put_request_def rseq_def rbind_def upd_def ready_False removed_def send_event_def emit_def
        stores_revoked_def split: if_splits)
qed

definition objects_ok :: "control \<Rightarrow> bool" where
  "objects_ok c \<longleftrightarrow> (\<forall>r. ident (req_obj c r) = r)"

lemma terminate_request_objects:
  assumes "terminate_request env sig n r c = (res, c')" and "objects_ok c"
  shows "objects_ok c'"
proof -
  have "ident (req_obj c r) = r" using assms(2) by (simp add: objects_ok_def)
  note t = terminate_request_spec(2,3) [OF assms(1) this]
  have "ident (req_obj c' q) = q" for q
    using t assms(2) by (cases "q = r") (simp_all add: objects_ok_def)
  then show ?thesis by (simp add: objects_ok_def)
qed

lemma terminate_all_revoked:
  assumes "terminate_all env sig n sz ids done' c = (res, c')" and "objects_ok c"
  shows "revoked (ws c') = revoked (ws c)"
  using assms
proof (induction ids arbitrary: done' c)
  case (Cons i ids)
  show ?case
  proof (cases "\<exists>r. dict_get (requests (ws c)) i = Some r \<and> rq_id r \<notin> set done'")
    case False
    then have "terminate_all env sig n sz (i # ids) done' c = terminate_all env sig n sz ids done' c"
      by (cases "dict_get (requests (ws c)) i") simp_all
    with Cons show ?thesis by simp
  next
    case True
    then obtain r where r: "dict_get (requests (ws c)) i = Some r" "rq_id r \<notin> set done'" by blast
    obtain x c1 where t: "terminate_request env sig n r c = (x, c1)" by fastforce
    have o: "ident (req_obj c r) = r" using Cons.prems(2) by (simp add: objects_ok_def)
    have c1: "objects_ok c1" "revoked (ws c1) = revoked (ws c)"
      using terminate_request_objects [OF t Cons.prems(2)] terminate_request_spec(1) [OF t o] by (simp_all add: removed_def)
    have "c' = c1 \<or> terminate_all env sig n sz ids (done' @ [rq_id r]) c1 = (res, c')"
      using Cons.prems(1) r t by (cases x) (auto simp: Let_def split: if_splits)
    then show ?thesis using Cons.IH c1 by metis
  qed
qed simp

lemma revoke_revoked:
  assumes "revoke env clk ids term sig c = (r, c')" and "update clk (FromIter ids) (revoked (ws c)) = Inr s" and "objects_ok c"
  shows "revoked (ws c') = s"
proof -
  define c1 where "c1 = mark_all env (dict_update [] (map (\<lambda>r. (rq_id r, r)) (find_requests_by_id ids ((ws c)\<lparr>revoked := s\<rparr>)))) ids (c\<lparr>ws := (ws c)\<lparr>revoked := s\<rparr>\<rparr>)"
  have c1: "revoked (ws c1) = s" "objects_ok c1" using assms(3) by (simp_all add: c1_def objects_ok_def)
  have "c' = c1 \<or> (\<exists>n x. terminate_all env (sig_or_term sig) n (length ids) ids [] c1 = (x, c'))"
    using assms(1,2) by (auto simp: revoke_def Let_def c1_def split: if_splits sum.splits prod.splits)
  then show ?thesis using terminate_all_revoked c1 by metis
qed

text \<open>There is room for more ids in the set of revoked ids, so none is dropped for its length.\<close>

definition has_room :: "worker_state \<Rightarrow> string list \<Rightarrow> bool" where
  "has_room w ids \<longleftrightarrow> ls_inv (revoked w) \<and> (maxlen (revoked w) = 0 \<or> int (length (ls_data (revoked w)) + length ids) < maxlen (revoked w))"

lemma has_room_update:
  assumes "has_room w ids"
  obtains s where "update clk (FromIter ids) (revoked w) = Inr s" "ls_inv s" "same_limits (revoked w) s"
    "set (keys (ls_data s)) = set (keys (ls_data (revoked w))) \<union> set ids" "length (ls_data s) \<le> length (ls_data (revoked w)) + length ids"
  using update_with_room [of "revoked w" ids clk] assms by (auto simp: has_room_def)

text \<open>
  a task that was revoked by remote control is not run: whatever else the command did, a request with one of the ids that reaches the pool afterwards
  raises \<open>TaskRevokedError\<close> and is not applied.
\<close>

theorem revoked_by_command_never_runs:
  assumes "has_room (ws c) ids" and "0 \<le> maxlen (revoked (ws c))" and "revoke env clk ids term sig c = (r, c')" and "glob st = ws c'"
    and "rq_id (ident st) \<in> set ids" and "objects_ok c" and "\<forall>h \<in> set (stamped_headers st). dict_get (msg_stamps st) h \<noteq> None"
  shows "\<exists>st'. execute_using_pool renv p st = (Inl TaskRevokedError, st') \<and> (\<forall>a b. ApplyAsync a b \<notin> new_effects st st')"
proof -
  obtain s where s: "update clk (FromIter ids) (revoked (ws c)) = Inr s" "ls_inv s" "same_limits (revoked (ws c)) s"
    "set (keys (ls_data s)) = set (keys (ls_data (revoked (ws c)))) \<union> set ids" using assms(1) by (rule has_room_update)
  have g: "revoked (glob st) = s" using revoke_revoked [OF assms(3) s(1) assms(6)] assms(4) by simp
  have "ls_contains (rq_id (ident st)) s" using s(4) assms(5) by (auto simp: ls_contains_def dict_get_None_iff)
  then show ?thesis
    using revoked_not_applied [of st renv p] s(2,3) assms(2,7) g by (auto simp: same_limits_def)
qed

text \<open>The table of requests has each request under its id.\<close>

definition requests_keyed :: "worker_state \<Rightarrow> bool" where
  "requests_keyed w \<longleftrightarrow> dict_wf (requests w) \<and> (\<forall>i r. dict_get (requests w) i = Some r \<longrightarrow> rq_id r = i)"

lemma found_by_id:
  assumes "requests_keyed w"
  shows "dict_get (dict_update d (map (\<lambda>r. (rq_id r, r)) (find_requests_by_id ids w))) i =
    (if i \<in> set ids \<and> dict_get (requests w) i \<noteq> None then dict_get (requests w) i else dict_get d i)"
proof (induction ids arbitrary: d)
  case Nil
  then show ?case by (simp add: find_requests_by_id_def List.map_filter_def)
next
  case (Cons j ids)
  show ?case
  proof (cases "dict_get (requests w) j")
    case None
    then have "find_requests_by_id (j # ids) w = find_requests_by_id ids w" by (simp add: find_requests_by_id_def List.map_filter_def)
    then show ?thesis using Cons None by auto
  next
    case (Some r)
    then have "find_requests_by_id (j # ids) w = r # find_requests_by_id ids w" by (simp add: find_requests_by_id_def List.map_filter_def)
    moreover have "rq_id r = j" using assms Some by (auto simp: requests_keyed_def)
    ultimately show ?thesis using Cons [of "dict_set j r d"] Some by (auto simp: dict_simps)
  qed
qed

definition unready :: "control \<Rightarrow> string \<Rightarrow> bool" where
  "unready c i \<longleftrightarrow> (case dict_get (stored c) i of None \<Rightarrow> True | Some s \<Rightarrow> s \<notin> READY_STATES)"

lemma mark_as_revoked_stored:
  "dict_get (stored (mark_as_revoked env i c)) k = (if k = i \<and> \<not> backend_fails env i \<and> unready c i then Some REVOKED else dict_get (stored c) k)"
  by (auto simp: mark_as_revoked_def unready_def dict_simps READY_STATES_def state_names split: option.splits)

definition spared :: "cenv \<Rightarrow> (string, wreq) dict \<Rightarrow> control \<Rightarrow> string \<Rightarrow> bool" where
  "spared env by_id c i \<longleftrightarrow> backend_fails env i \<or> (\<exists>r. dict_get by_id i = Some r \<and> r \<in> active_requests (ws c))"

lemma mark_all_stored:
  "dict_get (stored (mark_all env by_id ids c)) k = (if k \<in> set ids \<and> \<not> spared env by_id c k \<and> unready c k then Some REVOKED else dict_get (stored c) k)"
proof (induction ids arbitrary: c)
  case Nil
  then show ?case by simp
next
  case (Cons i ids)
  define c1 where "c1 = (case dict_get by_id i of Some r \<Rightarrow> if r \<in> active_requests (ws c) then c else mark_as_revoked env i c | None \<Rightarrow> mark_as_revoked env i c)"
  have c1: "dict_get (stored c1) k = (if k = i \<and> \<not> spared env by_id c i \<and> unready c i then Some REVOKED else dict_get (stored c) k)" for k
    by (auto simp: c1_def mark_as_revoked_stored spared_def split: option.splits)
  have "spared env by_id c1 k = spared env by_id c k" for k by (auto simp: c1_def spared_def split: option.splits)
  moreover have "unready c1 k \<longleftrightarrow> unready c k \<and> \<not> (k = i \<and> \<not> spared env by_id c i)" for k
    using c1 [of k] by (auto simp: unready_def READY_STATES_def split: option.splits if_splits)
  moreover have "mark_all env by_id (i # ids) c = mark_all env by_id ids c1" by (simp add: c1_def)
  ultimately show ?case using Cons [of c1] c1 [of k] by auto
qed

lemma find_requests_Cons:
  "find_requests_by_id (i # ids) w = (case dict_get (requests w) i of None \<Rightarrow> [] | Some r \<Rightarrow> [r]) @ find_requests_by_id ids w"
  by (simp add: find_requests_by_id_def List.map_filter_def split: option.split)

lemma find_requests_cong:
  "(\<And>i. i \<in> set ids \<Longrightarrow> dict_get (requests w) i = dict_get (requests w') i) \<Longrightarrow> find_requests_by_id ids w = find_requests_by_id ids w'"
  by (induction ids) (simp_all add: find_requests_Cons find_requests_by_id_def List.map_filter_def)

text \<open>What the loop over distinct ids does, unless an exception leaves it: every request known under one of them is terminated, in this order.\<close>

definition revoked_by_termination :: "control \<Rightarrow> string \<Rightarrow> bool" where
  "revoked_by_termination c k \<longleftrightarrow> dict_get (stored c) k \<noteq> Some SUCCESS \<and> (case dict_get (requests (ws c)) k of None \<Rightarrow> False | Some q \<Rightarrow> stores_revoked (req_obj c q))"

lemma terminate_request_keyed:
  assumes "requests_keyed (ws c)" and "objects_ok c" and "dict_get (requests (ws c)) i = Some r" and "terminate_request env sig n r c = (x, c1)"
  shows "requests_keyed (ws c1)" and "objects_ok c1" and "k \<noteq> i \<Longrightarrow> dict_get (requests (ws c1)) k = dict_get (requests (ws c)) k"
    and "k \<noteq> i \<Longrightarrow> dict_get (stored c1) k = dict_get (stored c) k"
    and "k \<noteq> i \<Longrightarrow> revoked_by_termination c1 k = revoked_by_termination c k"
    and "\<not> isl x \<Longrightarrow> dict_get (stored c1) i = (if revoked_by_termination c i then Some REVOKED else dict_get (stored c) i)"
    and "dict_get (stored c) k = Some SUCCESS \<Longrightarrow> dict_get (stored c1) k = Some SUCCESS"
proof -
  have r: "rq_id r = i" "ident (req_obj c r) = r" using assms(1-3) by (auto simp: requests_keyed_def objects_ok_def)
  note t = terminate_request_spec [OF assms(4) r(2)]
  have w: "requests (ws c1) = (if started (req_obj c r) then dict_del i (requests (ws c)) else requests (ws c))"
    using t(1) r(1) by (simp add: removed_def)
  have "dict_get (requests (ws c1)) k = Some q \<Longrightarrow> dict_get (requests (ws c)) k = Some q" for k q
    using w by (simp add: dict_simps split: if_splits)
  moreover have "dict_wf (requests (ws c1))" using assms(1) unfolding requests_keyed_def w by (simp add: inv_intros)
  ultimately show "requests_keyed (ws c1)" using assms(1) unfolding requests_keyed_def by blast
  show "objects_ok c1" using terminate_request_objects [OF assms(4,2)] .
  show req: "dict_get (requests (ws c1)) k = dict_get (requests (ws c)) k" if "k \<noteq> i" for k using that w by (simp add: dict_simps)
  have st: "stored c1 = (if isl x \<or> \<not> stores_revoked (req_obj c r) then stored c else store_revoked i (stored c))"
    using t(4) [of "()"] t(6) r(1) by (cases x) auto
  show sto: "dict_get (stored c1) k = dict_get (stored c) k" if "k \<noteq> i" for k using that by (simp add: st store_revoked_def dict_simps)
  show "revoked_by_termination c1 k = revoked_by_termination c k" if k: "k \<noteq> i"
  proof -
    have "req_obj c1 q = req_obj c q" if "dict_get (requests (ws c)) k = Some q" for q
    proof -
      have "rq_id q = k" using assms(1) that by (simp add: requests_keyed_def)
      with k r(1) have "q \<noteq> r" by auto
      then show ?thesis by (rule t(2))
    qed
    then show ?thesis using req [OF k] sto [OF k] by (auto simp: revoked_by_termination_def split: option.split)
  qed
  show "dict_get (stored c1) i = (if revoked_by_termination c i then Some REVOKED else dict_get (stored c) i)" if "\<not> isl x"
    using that assms(3) by (auto simp: st revoked_by_termination_def store_revoked_def dict_simps)
  show "dict_get (stored c1) k = Some SUCCESS" if "dict_get (stored c) k = Some SUCCESS"
    using that by (auto simp: st store_revoked_def dict_simps)
qed

lemma terminate_all_spec:
  assumes "requests_keyed (ws c)" and "objects_ok c" and "distinct ids" and "set ids \<inter> set done' = {}" and "length done' + length ids \<le> sz"
    and "terminate_all env sig n sz ids done' c = (res, c')"
  shows "(\<not> isl res \<longrightarrow> terminations c' = terminations c @ map (\<lambda>q. (q, n)) (find_requests_by_id ids (ws c))
      \<and> dict_get (stored c') k = (if k \<in> set ids \<and> revoked_by_termination c k then Some REVOKED else dict_get (stored c) k))
    \<and> (dict_get (stored c) k = Some SUCCESS \<longrightarrow> dict_get (stored c') k = Some SUCCESS)"
  using assms
proof (induction ids arbitrary: done' c)
  case Nil
  then show ?case by (simp add: find_requests_by_id_def List.map_filter_def)
next
  case (Cons i ids)
  show ?case
  proof (cases "dict_get (requests (ws c)) i")
    case None
    then have no: "\<not> revoked_by_termination c i" by (simp add: revoked_by_termination_def)
    from Cons.IH [of c done'] Cons.prems None have IH: "(\<not> isl res \<longrightarrow> terminations c' = terminations c @ map (\<lambda>q. (q, n)) (find_requests_by_id ids (ws c))
      \<and> dict_get (stored c') k = (if k \<in> set ids \<and> revoked_by_termination c k then Some REVOKED else dict_get (stored c) k))
      \<and> (dict_get (stored c) k = Some SUCCESS \<longrightarrow> dict_get (stored c') k = Some SUCCESS)" by simp
    then show ?thesis using no None by (auto simp: find_requests_Cons)
  next
    case (Some r)
    have r: "rq_id r = i" "ident (req_obj c r) = r" using Cons.prems(1,2) Some by (auto simp: requests_keyed_def objects_ok_def)
    obtain x c1 where t: "terminate_request env sig n r c = (x, c1)" by fastforce
    note k1 = terminate_request_keyed [OF Cons.prems(1,2) Some t]
    have fresh: "rq_id r \<notin> set done'" using Cons.prems(4) r(1) by simp
    show ?thesis
    proof (cases x)
      case (Inl e)
      with Cons.prems(6) Some fresh t have "res = Inl e" "c' = c1" by (auto simp: Let_def)
      then show ?thesis using k1(7) by simp
    next
      case (Inr u)
      have run: "terminate_all env sig n sz ids (done' @ [i]) c1 = (res, c')"
        using Cons.prems(5,6) Some fresh t Inr r(1) by (cases ids) (auto simp: Let_def split: if_splits)
      from Cons.IH [OF k1(1,2) _ _ _ run] Cons.prems(3-5)
      have IH: "(\<not> isl res \<longrightarrow> terminations c' = terminations c1 @ map (\<lambda>q. (q, n)) (find_requests_by_id ids (ws c1))
        \<and> dict_get (stored c') k = (if k \<in> set ids \<and> revoked_by_termination c1 k then Some REVOKED else dict_get (stored c1) k))
        \<and> (dict_get (stored c1) k = Some SUCCESS \<longrightarrow> dict_get (stored c') k = Some SUCCESS)" by auto
      have "find_requests_by_id ids (ws c1) = find_requests_by_id ids (ws c)"
        using Cons.prems(3) k1(3) by (intro find_requests_cong) (metis distinct.simps(2))
      then have "terminations c1 @ map (\<lambda>q. (q, n)) (find_requests_by_id ids (ws c1))
          = terminations c @ map (\<lambda>q. (q, n)) (find_requests_by_id (i # ids) (ws c))"
        using terminate_request_spec(5) [OF t r(2)] Some by (simp add: find_requests_Cons)
      then show ?thesis using IH k1(4-7) Inr Cons.prems(3) by (cases "k = i") auto
    qed
  qed
qed


text \<open>
  terminating ids terminates each request that the worker knows under one of them, once, with the signal asked for, and no other request, unless an exception
  leaves the command.
\<close>

theorem terminate_hits_each_request_once:
  assumes "requests_keyed (ws c)" and "objects_ok c" and "distinct ids" and "update clk (FromIter ids) (revoked (ws c)) = Inr s"
    and "signum env (sig_or_term sig) = Inr n" and "terminate env clk sig ids c = (Inr r, c')"
  shows "terminations c' = terminations c @ map (\<lambda>q. (q, n)) (find_requests_by_id ids (ws c))"
proof -
  define w where "w = (ws c)\<lparr>revoked := s\<rparr>"
  define c1 where "c1 = mark_all env (dict_update [] (map (\<lambda>r. (rq_id r, r)) (find_requests_by_id ids w))) ids (c\<lparr>ws := w\<rparr>)"
  have k: "requests_keyed (ws c1)" "objects_ok c1" using assms(1,2) by (simp_all add: requests_keyed_def w_def c1_def objects_ok_def)
  have "find_requests_by_id ids (ws c1) = find_requests_by_id ids (ws c)" by (simp add: find_requests_by_id_def w_def c1_def)
  moreover obtain x where "terminate_all env (sig_or_term sig) n (length ids) ids [] c1 = (Inr x, c')"
    using assms(4-6) by (auto simp: terminate_def revoke_def Let_def w_def c1_def split: sum.splits prod.splits)
  ultimately show ?thesis using terminate_all_spec [OF k assms(3), of "[]"] by (fastforce simp: c1_def)
qed

definition sample_cenv :: cenv where
  "sample_cenv = \<lparr>signum = (\<lambda>s. if s = ''TERM'' then Inr 15 else Inl ValueError), backend_fails = (\<lambda>i. False), backend_error = RuntimeError, req_env = demo_env, to_list = (\<lambda>h. case h of HList hs \<Rightarrow> hs | _ \<Rightarrow> [h]),
     stamps_of = (\<lambda>r. []), to_float = (\<lambda>s. if s = ''5'' then Inr 5 else Inl ValueError)\<rparr>"

definition sample_request :: "nat \<Rightarrow> string \<Rightarrow> wreq" where
  "sample_request n i = \<lparr>rq_ref = n, rq_id = i, rq_name = ''proj.add''\<rparr>"

definition sample_control :: control where
  "sample_control = \<lparr>ws = task_accepted (sample_request 2 ''b'') (task_reserved (sample_request 1 ''a'') (new_state 100 0 100 0)),
     stored = [(''c'', SUCCESS)], req_obj = (\<lambda>r. demo_rst\<lparr>ident := r, time_start := (if rq_id r = ''b'' then Some 99 else None)\<rparr>), terminations = [], event_dispatcher = Some (new_dispatcher True False [] [] 24 True), task_table = [], limit_resets = 0\<rparr>"

lemma sample_control_ok:
  "requests_keyed (ws sample_control)" "has_room (ws sample_control) [''a'', ''b'', ''c'']" "0 \<le> maxlen (revoked (ws sample_control))" "objects_ok sample_control"
  by (auto simp: requests_keyed_def has_room_def objects_ok_def sample_control_def task_accepted_def task_reserved_def new_state_def sample_request_def
      empty_set_def ls_inv_def covered_def split: if_splits)

theorem revoked_by_command_never_runs_witness:
  "\<exists>st'. execute_using_pool demo_env None (demo_rst\<lparr>ident := sample_request 1 ''a'', stamped_headers := [],
       req_expires := None, glob := ws (snd (revoke sample_cenv (\<lambda>n. 5) [''a'', ''b'', ''c''] False None sample_control))\<rparr>) = (Inl TaskRevokedError, st')"
proof -
  obtain r c' where run: "revoke sample_cenv (\<lambda>n. 5) [''a'', ''b'', ''c''] False None sample_control = (r, c')" by fastforce
  let ?st = "demo_rst\<lparr>ident := sample_request 1 ''a'', stamped_headers := [], req_expires := None, glob := ws c'\<rparr>"
  from revoked_by_command_never_runs [OF sample_control_ok(2,3) run, of ?st demo_env None] show ?thesis
    using run sample_control_ok(4) by (auto simp: sample_request_def)
qed


theorem terminate_hits_each_request_once_witness:
  "terminations (snd (terminate sample_cenv (\<lambda>n. 5) None [''a'', ''b'', ''c''] sample_control)) = [(sample_request 1 ''a'', 15), (sample_request 2 ''b'', 15)]"
proof -
  have "\<not> isl (fst (terminate sample_cenv (\<lambda>n. 5) None [''a'', ''b'', ''c''] sample_control))" by code_simp
  then obtain r c' where run: "terminate sample_cenv (\<lambda>n. 5) None [''a'', ''b'', ''c''] sample_control = (Inr r, c')"
    by (metis isl_def prod.collapse sum.collapse(2))
  obtain s where s: "update (\<lambda>n. 5) (FromIter [''a'', ''b'', ''c'']) (revoked (ws sample_control)) = Inr s"
    using sample_control_ok(2) by (rule has_room_update)
  have "signum sample_cenv (sig_or_term None) = Inr 15" by (simp add: sample_cenv_def sig_or_term_def term_signame_def)
  from terminate_hits_each_request_once [OF sample_control_ok(1,4) _ s this run] run show ?thesis
    by (simp add: sample_control_def find_requests_by_id_def List.map_filter_def task_accepted_def task_reserved_def new_state_def sample_request_def)
qed

section \<open>Properties of the exchange\<close>

lemma merge_with_room:
  assumes "has_room w ids"
  obtains w' where "merge_revoked clk ids w = Inr w'" "w' = w\<lparr>revoked := revoked w'\<rparr>" "ls_inv (revoked w')" "same_limits (revoked w) (revoked w')"
    "set (keys (ls_data (revoked w'))) = set (keys (ls_data (revoked w))) \<union> set ids" "length (ls_data (revoked w')) \<le> length (ls_data (revoked w)) + length ids"
proof (cases "ids = []")
  case True
  then show ?thesis using assms by (intro that [of w]) (auto simp: merge_revoked_def has_room_def)
next
  case False
  obtain s where s: "update clk (FromIter ids) (revoked w) = Inr s" "ls_inv s" "same_limits (revoked w) s"
    "set (keys (ls_data s)) = set (keys (ls_data (revoked w))) \<union> set ids" "length (ls_data s) \<le> length (ls_data (revoked w)) + length ids"
    using assms by (rule has_room_update)
  then show ?thesis using False by (intro that [of "w\<lparr>revoked := s\<rparr>"]) (auto simp: merge_revoked_def)
qed

definition revoked_ids :: "worker_state \<Rightarrow> string set" where
  "revoked_ids w = set (keys (ls_data (revoked w)))"

text \<open>
  after a worker has greeted another one, both know the revoked ids of both, provided there is room for them and ids do not expire; a
  worker ignores its own greeting.
\<close>

theorem mingle_shares_revoked_ids:
  assumes "self \<noteq> other" and "ls_inv (revoked w)" and "has_room v (ls_iter (revoked w))" and "expires (revoked v) = 0"
    and "maxlen (revoked w) = 0 \<or> int (2 * length (ls_data (revoked w)) + length (ls_data (revoked v))) < maxlen (revoked w)"
  shows "\<exists>w' v'. mingle clk pt self other w v = Inr (w', v') \<and> revoked_ids w' = revoked_ids w \<union> revoked_ids v \<and> revoked_ids v' = revoked_ids w \<union> revoked_ids v"
proof -
  note ids = ls_iter_keys [OF assms(2)]
  have len: "length (ls_iter u) = length (ls_data u)" for u :: "string limited_set" by (simp add: ls_iter_def)
  obtain v1 where v1: "merge_revoked clk (ls_iter (revoked w)) v = Inr v1" "ls_inv (revoked v1)" "same_limits (revoked v) (revoked v1)"
    "set (keys (ls_data (revoked v1))) = set (keys (ls_data (revoked v))) \<union> set (ls_iter (revoked w))"
    "length (ls_data (revoked v1)) \<le> length (ls_data (revoked v)) + length (ls_iter (revoked w))"
    using assms(3) by (rule merge_with_room)
  have "maxlen (revoked v1) = 0 \<or> ls_len (revoked v1) \<le> maxlen (revoked v1)"
    using assms(3) v1(3,5) by (auto simp: has_room_def same_limits_def ls_len_def)
  then have "purge pt (revoked v1) = Inr (revoked v1)"
    using v1(3) assms(4) by (auto simp: purge_def same_limits_def purge_excess.simps [of "revoked v1"])
  then have hello: "hello clk pt other self (ls_iter (revoked w)) v = Inr (Some (ls_iter (revoked v1)), v1)"
    using assms(1) v1(1) by (simp add: hello_def)
  have "has_room w (ls_iter (revoked v1))" using assms(2,5) v1(5) by (auto simp: has_room_def len)
  then obtain w1 where w1: "merge_revoked clk (ls_iter (revoked v1)) w = Inr w1"
    "set (keys (ls_data (revoked w1))) = set (keys (ls_data (revoked w))) \<union> set (ls_iter (revoked v1))"
    by (rule merge_with_room)
  have "mingle clk pt self other w v = Inr (w1, v1)" by (simp add: mingle_def hello on_node_reply_def w1(1))
  moreover have "revoked_ids v1 = revoked_ids w \<union> revoked_ids v" using v1(4) ids by (auto simp: revoked_ids_def)
  moreover have "revoked_ids w1 = revoked_ids w \<union> revoked_ids v1" using w1(2) ls_iter_keys [OF v1(2)] by (simp add: revoked_ids_def)
  ultimately show ?thesis by blast
qed

definition sample_revoked :: "string \<Rightarrow> worker_state" where
  "sample_revoked i = (new_state 100 0 100 0)\<lparr>revoked := add_entry i 1 (empty_set 100 0 0)\<rparr>"

lemma sample_revoked_ok: "ls_inv (revoked (sample_revoked i))" "ls_data (revoked (sample_revoked i)) = [(i, 1, 0, i)]"
  "maxlen (revoked (sample_revoked i)) = 100" "expires (revoked (sample_revoked i)) = 0"
  using ls_inv_add_entry [OF ls_inv_empty, of i 1 100 0 0] by (simp_all add: sample_revoked_def add_entry_def empty_set_def Let_def)

theorem mingle_shares_revoked_ids_witness:
  "\<exists>w' v'. mingle (\<lambda>n. 5) 5 ''w1'' ''w2'' (sample_revoked ''a'') (sample_revoked ''b'') = Inr (w', v') \<and> revoked_ids w' = {''a'', ''b''} \<and> revoked_ids v' = {''a'', ''b''}"
proof -
  have "has_room (sample_revoked ''b'') (ls_iter (revoked (sample_revoked ''a'')))"
    using sample_revoked_ok [of "''b''"] by (simp add: has_room_def ls_iter_def sample_revoked_ok)
  from mingle_shares_revoked_ids [of "''w1''" "''w2''", OF _ sample_revoked_ok(1) this, of "\<lambda>n. 5" 5] show ?thesis
    by (simp add: sample_revoked_ok revoked_ids_def insert_commute)
qed

section \<open>Properties of limits and events\<close>

text \<open>
  a rate limit is refused with an error reply if its number cannot be read and its unit is known; with an unknown unit the command raises a \<open>KeyError\<close>
  instead, whatever its number. In both cases the limits of all tasks stay as they are.
\<close>

theorem bad_rate_limit_changes_nothing:
  assumes "CHR ''/'' \<notin> set ops"
  shows "(md \<notin> {[], ''s'', ''m'', ''h''} \<longrightarrow> rate_limit env name (RateText (ops @ ''/'' @ md)) c = (Inl KeyError, c)) \<and>
    (md \<in> {[], ''s'', ''m'', ''h''} \<and> to_float env ops = Inl ValueError \<longrightarrow>
      rate_limit env name (RateText (ops @ ''/'' @ md)) c = (Inr (Error ''Invalid rate limit string''), c))"
proof -
  have "takeWhile (\<lambda>ch. ch \<noteq> CHR ''/'') (ops @ ''/'' @ md) = ops" using assms by (induction ops) auto
  then have "rate env (RateText (ops @ ''/'' @ md)) = res_bind (rate_modifier md) (\<lambda>f. res_bind (to_float env ops) (\<lambda>n. Inr (f n)))"
    by (simp add: rate_def Let_def)
  then show ?thesis by (auto simp: rate_limit_def)
qed

theorem bad_rate_limit_changes_nothing_witness:
  "rate_limit sample_cenv ''proj.add'' (RateText ''5/d'') sample_control = (Inl KeyError, sample_control) \<and>
   rate_limit sample_cenv ''proj.add'' (RateText ''x/m'') sample_control = (Inr (Error ''Invalid rate limit string''), sample_control)"
  using bad_rate_limit_changes_nothing [of "''5''" "''d''" sample_cenv] bad_rate_limit_changes_nothing [of "''x''" "''m''" sample_cenv]
  by (simp add: sample_cenv_def)

text \<open>
  events of tasks can be switched off only if the groups are listed. For a worker that sends events of all groups, whose set of groups is empty, the command
  answers that they are already disabled and changes nothing; and if tasks are the only group, switching them off lets all events through.
\<close>

theorem disabling_events_can_enable_all:
  assumes "event_dispatcher c = Some d" and "enabled d" and "groups d \<subseteq> {''task''}"
  shows "\<exists>c' d'. snd (disable_events c) = c' \<and> event_dispatcher c' = Some d' \<and> accepts d' ty"
  using assms by (auto simp: disable_events_def accepts_def)

theorem disabling_events_can_enable_all_witness:
  "\<exists>c' d'. snd (disable_events sample_control) = c' \<and> event_dispatcher c' = Some d' \<and> accepts d' ''task-started''"
  using disabling_events_can_enable_all [of sample_control "new_dispatcher True False [] [] 24 True" "''task-started''"]
  by (simp add: sample_control_def new_dispatcher_def)

text \<open>
  with other groups listed, switching events of tasks off stops exactly them, and switching them on again restores the dispatcher.
\<close>

theorem events_switch:
  assumes "event_dispatcher c = Some d" and "''task'' \<in> groups d" and "\<exists>g \<in> groups d. g \<noteq> ''task''"
  shows "(\<exists>d'. event_dispatcher (snd (disable_events c)) = Some d' \<and>
      (\<forall>ty. accepts d' ty \<longleftrightarrow> accepts d ty \<and> group_from ty \<noteq> ''task'')) \<and> snd (enable_events (snd (disable_events c))) = c"
proof -
  have "groups d - {''task''} \<noteq> {}" "insert ''task'' (groups d) = groups d" using assms(2,3) by auto
  then show ?thesis using assms(1,2) by (auto simp: disable_events_def enable_events_def accepts_def)
qed

theorem events_switch_witness:
  "snd (enable_events (snd (disable_events (sample_control\<lparr>event_dispatcher := Some (new_dispatcher True False [''worker'', ''task''] [] 24 True)\<rparr>)))) =
     sample_control\<lparr>event_dispatcher := Some (new_dispatcher True False [''worker'', ''task''] [] 24 True)\<rparr>"
  using events_switch [of "sample_control\<lparr>event_dispatcher := Some (new_dispatcher True False [''worker'', ''task''] [] 24 True)\<rparr>"
      "new_dispatcher True False [''worker'', ''task''] [] 24 True"] by (auto simp: new_dispatcher_def)

end
