(* ===== verification/Redis_Chord.thy ===== *)
theory Redis_Chord
  imports Backend
begin

text \<open>
  Chords in the Redis result backend, \<open>celery.backends.redis\<close>: every header task adds its result to a sorted set (or to a list) in one transaction that
  also reads how many results there are and how many are expected; the report that completes the set gathers the results and calls the body.

  The server is a table of keys; a transaction of commands is one step, as documented for \<open>MULTI\<close>. The serialiser, the delivery of the body and the joining of
  a header that was saved because it is nested are arguments. Expiry of keys is left out.
\<close>

section \<open>Sorted sets and lists of the server\<close>

text \<open>A score is the index of a task in its group, or \<open>+inf\<close>.\<close>

datatype score = At int | Last

instantiation score :: linorder
begin

definition less_eq_score :: "score \<Rightarrow> score \<Rightarrow> bool" where
  "less_eq_score a b = (case (a, b) of (_, Last) \<Rightarrow> True | (Last, At j) \<Rightarrow> False | (At i, At j) \<Rightarrow> i \<le> j)"

definition less_score :: "score \<Rightarrow> score \<Rightarrow> bool" where
  "less_score a b = (case (a, b) of (Last, _) \<Rightarrow> False | (At i, Last) \<Rightarrow> True | (At i, At j) \<Rightarrow> i < j)"

instance
  by standard (auto simp: less_eq_score_def less_score_def split: score.splits)

end

datatype rvalue = ZSet "(string, score) dict" | RList "string list" | RInt int

type_synonym rdb = "(string, rvalue) dict"

datatype rerror = WrongType | NoDecode | NoKey

fun zadd :: "string \<Rightarrow> string \<Rightarrow> score \<Rightarrow> rdb \<Rightarrow> rerror + rdb" where
  "zadd key m s db = (case dict_get db key of
     None \<Rightarrow> Inr (dict_set key (ZSet [(m, s)]) db)
   | Some (ZSet z) \<Rightarrow> Inr (dict_set key (ZSet (dict_set m s z)) db)
   | Some _ \<Rightarrow> Inl WrongType)"

fun zcount :: "string \<Rightarrow> rdb \<Rightarrow> rerror + nat" where
  "zcount key db = (case dict_get db key of None \<Rightarrow> Inr 0 | Some (ZSet z) \<Rightarrow> Inr (length z) | Some _ \<Rightarrow> Inl WrongType)"

fun rpush :: "string \<Rightarrow> string \<Rightarrow> rdb \<Rightarrow> rerror + rdb" where
  "rpush key m db = (case dict_get db key of
     None \<Rightarrow> Inr (dict_set key (RList [m]) db)
   | Some (RList l) \<Rightarrow> Inr (dict_set key (RList (l @ [m])) db)
   | Some _ \<Rightarrow> Inl WrongType)"

fun llen :: "string \<Rightarrow> rdb \<Rightarrow> rerror + nat" where
  "llen key db = (case dict_get db key of None \<Rightarrow> Inr 0 | Some (RList l) \<Rightarrow> Inr (length l) | Some _ \<Rightarrow> Inl WrongType)"

fun rget :: "string \<Rightarrow> rdb \<Rightarrow> rerror + int option" where
  "rget key db = (case dict_get db key of None \<Rightarrow> Inr None | Some (RInt n) \<Rightarrow> Inr (Some n) | Some _ \<Rightarrow> Inl WrongType)"

fun rincr :: "string \<Rightarrow> rdb \<Rightarrow> rerror + rdb" where
  "rincr key db = (case dict_get db key of
     None \<Rightarrow> Inr (dict_set key (RInt 1) db)
   | Some (RInt n) \<Rightarrow> Inr (dict_set key (RInt (n + 1)) db)
   | Some _ \<Rightarrow> Inl WrongType)"

text \<open>Members of a sorted set come in the order of their scores, those of equal score in the order of their bytes.\<close>

definition by_score :: "(string, score) dict \<Rightarrow> string list" where
  "by_score z = map fst (sort_key prod.swap z)"

fun zrange_all :: "string \<Rightarrow> rdb \<Rightarrow> rerror + string list" where
  "zrange_all key db = (case dict_get db key of None \<Rightarrow> Inr [] | Some (ZSet z) \<Rightarrow> Inr (by_score z) | Some _ \<Rightarrow> Inl WrongType)"

fun lrange :: "string \<Rightarrow> int \<Rightarrow> rdb \<Rightarrow> rerror + string list" where
  "lrange key last_index db = (case dict_get db key of None \<Rightarrow> Inr [] | Some (RList l) \<Rightarrow> Inr (take (nat (last_index + 1)) l) | Some _ \<Rightarrow> Inl WrongType)"

section \<open>The backend\<close>

record part =
  p_id :: string
  p_group :: string
  p_index :: "int option"
  p_state :: string
  p_result :: nat

datatype chord_failure = Dependency string nat | CallbackError | JoinError rerror

datatype chord_event = BodySent string "nat list" | BodyFailed string chord_failure

record redis_env =
  keyprefix :: string
  ordered :: bool
  encode :: "string \<times> string \<times> nat \<Rightarrow> string"
  decode :: "string \<Rightarrow> (string \<times> string \<times> nat) option"
  to_exception :: "nat \<Rightarrow> nat"
  delivers :: "string \<Rightarrow> nat list \<Rightarrow> bool"
  saved_header :: "string \<Rightarrow> (chord_failure + nat list) option"

record redis =
  db :: rdb
  sent :: "chord_event list"

definition jkey :: "redis_env \<Rightarrow> string \<Rightarrow> string" where
  "jkey e gid = get_key_for (keyprefix e) gid ''.j''"

definition tkey :: "redis_env \<Rightarrow> string \<Rightarrow> string" where
  "tkey e gid = get_key_for (keyprefix e) gid ''.t''"

definition skey :: "redis_env \<Rightarrow> string \<Rightarrow> string" where
  "skey e gid = get_key_for (keyprefix e) gid ''.s''"

definition set_chord_size :: "redis_env \<Rightarrow> string \<Rightarrow> nat \<Rightarrow> redis \<Rightarrow> redis" where
  "set_chord_size e gid n r = r\<lparr>db := dict_set (skey e gid) (RInt (int n)) (db r)\<rparr>"

definition add_to_chord :: "redis_env \<Rightarrow> string \<Rightarrow> redis \<Rightarrow> rerror + redis" where
  "add_to_chord e gid r = res_bind (rincr (tkey e gid) (db r)) (\<lambda>d. Inr (r\<lparr>db := d\<rparr>))"

definition part_score :: "part \<Rightarrow> score" where
  "part_score p = (case p_index p of None \<Rightarrow> Last | Some i \<Rightarrow> At i)"

definition encoded :: "redis_env \<Rightarrow> part \<Rightarrow> string" where
  "encoded e p = encode e (p_id p, p_state p, p_result p)"

text \<open>The transaction of a report: the number of results, the number of added tasks, and the size if it was set.\<close>

definition record_part :: "redis_env \<Rightarrow> part \<Rightarrow> rdb \<Rightarrow> rerror + (nat \<times> int option \<times> int option \<times> rdb)" where
  "record_part e p d =
     (let jk = jkey e (p_group p) in
      res_bind (if ordered e then zadd jk (encoded e p) (part_score p) d else rpush jk (encoded e p) d) (\<lambda>d1.
      res_bind (if ordered e then zcount jk d1 else llen jk d1) (\<lambda>readycount.
      res_bind (rget (tkey e (p_group p)) d1) (\<lambda>totaldiff.
      res_bind (rget (skey e (p_group p)) d1) (\<lambda>chord_size.
        Inr (readycount, totaldiff, chord_size, d1))))))"

text \<open>First half of \<open>on_chord_part_return\<close>: if the report completes the chord, the number of results to be joined.\<close>

definition report :: "redis_env \<Rightarrow> part \<Rightarrow> redis \<Rightarrow> rerror + (int option \<times> redis)" where
  "report e p r =
     (if p_group p = [] \<or> p_id p = [] then Inr (None, r)
      else res_bind (record_part e p (db r)) (\<lambda>(readycount, totaldiff, chord_size, d).
        Inr (case chord_size of
          None \<Rightarrow> None
        | Some n \<Rightarrow>
            let expected = n + (case totaldiff of None \<Rightarrow> 0 | Some k \<Rightarrow> k) in
            if int readycount = expected then Some expected else None, r\<lparr>db := d\<rparr>)))"

definition unpack_chord_result :: "redis_env \<Rightarrow> string \<Rightarrow> chord_failure + nat" where
  "unpack_chord_result e m = (case decode e m of
     None \<Rightarrow> Inl (JoinError NoDecode)
   | Some (tid, st, retval) \<Rightarrow>
       let retval = (if st \<in> EXCEPTION_STATES then to_exception e retval else retval) in
       if st \<in> PROPAGATE_STATES then Inl (Dependency tid retval) else Inr retval)"

fun unpack_all :: "redis_env \<Rightarrow> string list \<Rightarrow> chord_failure + nat list" where
  "unpack_all e [] = Inr []"
| "unpack_all e (m # ms) = res_bind (unpack_chord_result e m) (\<lambda>v. res_bind (unpack_all e ms) (\<lambda>vs. Inr (v # vs)))"

definition gather :: "redis_env \<Rightarrow> string \<Rightarrow> int \<Rightarrow> rdb \<Rightarrow> chord_failure + nat list" where
  "gather e gid expected d = (case saved_header e gid of
     Some joined \<Rightarrow> joined
   | None \<Rightarrow> (case (if ordered e then zrange_all (jkey e gid) d else lrange (jkey e gid) expected d) of
       Inl err \<Rightarrow> Inl (JoinError err)
     | Inr ms \<Rightarrow> unpack_all e ms))"

definition delete_keys :: "redis_env \<Rightarrow> string \<Rightarrow> rdb \<Rightarrow> rdb" where
  "delete_keys e gid d = dict_del (skey e gid) (dict_del (tkey e gid) (dict_del (jkey e gid) d))"

text \<open>Second half: the results are gathered and the body is called. The keys are deleted once the body was to be called, delivered or not.\<close>

definition join_chord :: "redis_env \<Rightarrow> string \<Rightarrow> int \<Rightarrow> redis \<Rightarrow> redis" where
  "join_chord e gid expected r = (case gather e gid expected (db r) of
     Inl f \<Rightarrow> r\<lparr>sent := sent r @ [BodyFailed gid f]\<rparr>
   | Inr vs \<Rightarrow> r\<lparr>db := delete_keys e gid (db r),
       sent := sent r @ [if delivers e gid vs then BodySent gid vs else BodyFailed gid CallbackError]\<rparr>)"

definition on_chord_part_return :: "redis_env \<Rightarrow> part \<Rightarrow> redis \<Rightarrow> rerror + redis" where
  "on_chord_part_return e p r =
     res_bind (report e p r) (\<lambda>(completed, r1). Inr (case completed of None \<Rightarrow> r1 | Some expected \<Rightarrow> join_chord e (p_group p) expected r1))"

section \<open>Several workers\<close>

text \<open>
  Workers report at the same time; between the two halves of a worker's call others may act. The first component of the state lists the joins that are
  still to be done.
\<close>

datatype act = Report part | Join nat | SetSize string nat

type_synonym rstate = "(string \<times> int) list \<times> redis"

fun act_step :: "redis_env \<Rightarrow> rstate \<Rightarrow> act \<Rightarrow> rstate" where
  "act_step e (js, r) (Report p) = (case report e p r of
     Inl err \<Rightarrow> (js, r)
   | Inr (None, r1) \<Rightarrow> (js, r1)
   | Inr (Some expected, r1) \<Rightarrow> (js @ [(p_group p, expected)], r1))"
| "act_step e (js, r) (Join k) = (if k < length js then (take k js @ drop (Suc k) js, join_chord e (fst (js ! k)) (snd (js ! k)) r) else (js, r))"
| "act_step e (js, r) (SetSize gid n) = (js, set_chord_size e gid n r)"

definition run_acts :: "redis_env \<Rightarrow> act list \<Rightarrow> rstate \<Rightarrow> rstate" where
  "run_acts e acts s = foldl (act_step e) s acts"

section \<open>Results come in the order of the group\<close>

lemma sorted_lex:
  assumes "sorted (map f xs)" and "distinct (map f xs)"
  shows "sorted (map (\<lambda>x. (f x, g x)) xs)"
  using assms by (induction xs) (auto simp: less_le image_iff)

lemma by_score_unique:
  assumes "mset z = mset (map (\<lambda>p. (g p, f p)) ps)" and "distinct (map f ps)"
  shows "by_score z = map g (sort_key f ps)"
proof -
  let ?ys = "map (\<lambda>p. (g p, f p)) (sort_key f ps)"
  have d: "distinct (map f (sort_key f ps))" using assms(2) by (simp add: distinct_map)
  have "sorted (map (\<lambda>p. (f p, g p)) (sort_key f ps))" by (rule sorted_lex [OF sorted_sort_key d])
  then have "sorted (map prod.swap ?ys)" by (simp add: comp_def)
  moreover have "mset (map prod.swap ?ys) = mset (map prod.swap z)"
    using assms(1) by (metis mset_map mset_sort)
  ultimately have "map prod.swap ?ys = sort (map prod.swap z)" by (metis properties_for_sort)
  moreover have "map prod.swap (sort_key prod.swap z) = sort (map prod.swap z)"
    by (rule properties_for_sort [symmetric]) auto
  ultimately have "map prod.swap (map prod.swap (sort_key prod.swap z)) = map prod.swap (map prod.swap ?ys)" by simp
  then show ?thesis by (simp add: by_score_def comp_def)
qed

section \<open>A chord in progress\<close>

text \<open>The header of a chord: tasks of one group with different ids and indices, whose results can be read back.\<close>

definition chord_header :: "redis_env \<Rightarrow> string \<Rightarrow> part list \<Rightarrow> bool" where
  "chord_header e gid ps \<longleftrightarrow> ordered e \<and> saved_header e gid = None \<and> gid \<noteq> [] \<and> distinct (map p_id ps) \<and> distinct (map part_score ps) \<and>
     (\<forall>p \<in> set ps. p_group p = gid \<and> p_id p \<noteq> [] \<and> decode e (encoded e p) = Some (p_id p, p_state p, p_result p))"

definition members :: "redis_env \<Rightarrow> part list \<Rightarrow> (string, score) dict" where
  "members e ps = map (\<lambda>p. (encoded e p, part_score p)) ps"

definition collected :: "redis_env \<Rightarrow> string \<Rightarrow> part list \<Rightarrow> nat option \<Rightarrow> redis \<Rightarrow> bool" where
  "collected e gid ps n r \<longleftrightarrow>
     dict_get (db r) (jkey e gid) = (if ps = [] then None else Some (ZSet (members e ps))) \<and>
     dict_get (db r) (tkey e gid) = None \<and> dict_get (db r) (skey e gid) = map_option (\<lambda>n. RInt (int n)) n"

lemma chord_keys: "jkey e gid \<noteq> tkey e gid" "jkey e gid \<noteq> skey e gid" "tkey e gid \<noteq> skey e gid"
  by (simp_all add: jkey_def tkey_def skey_def get_key_for_def)

lemma encoded_inj:
  assumes "chord_header e gid ps" and "p \<in> set ps" "q \<in> set ps" and "encoded e p = encoded e q"
  shows "p = q"
proof -
  have "decode e (encoded e x) = Some (p_id x, p_state x, p_result x)" if "x \<in> set ps" for x using assms(1) that by (simp add: chord_header_def)
  from this [OF assms(2)] this [OF assms(3)] have "p_id p = p_id q" using assms(4) by simp
  then show ?thesis using assms(1-3) by (auto simp: chord_header_def distinct_map dest: inj_onD)
qed

lemma update_with_same: "dict_wf d \<Longrightarrow> (k, v) \<in> set d \<Longrightarrow> dict_set k v d = d"
  by (induction d) (auto simp: rev_image_eqI)

lemma members_wf:
  assumes "chord_header e gid ps" and "set ds \<subseteq> set ps" and "distinct ds"
  shows "dict_wf (members e ds)"
proof -
  have "inj_on (encoded e) (set ds)" using encoded_inj [OF assms(1)] assms(2) by (auto intro!: inj_onI)
  then show ?thesis using assms(3) by (simp add: members_def distinct_map comp_def)
qed

lemma members_set:
  assumes "chord_header e gid ps" and "set ds \<subseteq> set ps" and "distinct ds" and "p \<in> set ps"
  shows "dict_set (encoded e p) (part_score p) (members e ds) = members e (if p \<in> set ds then ds else ds @ [p])"
proof (cases "p \<in> set ds")
  case True
  then have "(encoded e p, part_score p) \<in> set (members e ds)" by (auto simp: members_def)
  then show ?thesis using True update_with_same [OF members_wf [OF assms(1-3)]] by simp
next
  case False
  then have "encoded e p \<notin> set (keys (members e ds))"
    using encoded_inj [OF assms(1,4)] assms(2) by (auto simp: members_def)
  then show ?thesis using False dict_set_fresh [of "encoded e p" "members e ds" "part_score p"] by (simp add: members_def)
qed

text \<open>What a report does to a chord in progress: a result that is already there is not counted again.\<close>

lemma report_collected:
  assumes hd: "chord_header e gid ps" and ds: "set ds \<subseteq> set ps" "distinct ds" and p: "p \<in> set ps" and c: "collected e gid ds n r"
  defines "ds' \<equiv> if p \<in> set ds then ds else ds @ [p]"
  shows "\<exists>r'. report e p r = Inr (if n = Some (length ds') then Some (int (length ds')) else None, r') \<and> collected e gid ds' n r' \<and> sent r' = sent r"
proof -
  have g: "p_group p = gid" "p_id p \<noteq> []" "gid \<noteq> []" "ordered e" using hd p by (auto simp: chord_header_def)
  let ?d = "dict_set (jkey e gid) (ZSet (members e ds')) (db r)"
  have "ds' \<noteq> []" by (auto simp: ds'_def)
  have "zadd (jkey e gid) (encoded e p) (part_score p) (db r) = Inr ?d"
    using c members_set [OF hd ds p] by (auto simp: collected_def ds'_def members_def split: if_splits)
  moreover have "dict_get ?d (tkey e gid) = None" "dict_get ?d (skey e gid) = map_option (\<lambda>n. RInt (int n)) n" "dict_get ?d (jkey e gid) = Some (ZSet (members e ds'))"
    using c chord_keys [of e gid] by (simp_all add: collected_def dict_simps)
  moreover from this \<open>ds' \<noteq> []\<close> have "collected e gid ds' n (r\<lparr>db := ?d\<rparr>)" by (simp add: collected_def)
  moreover have "length (members e ds') = length ds'" by (simp add: members_def)
  ultimately show ?thesis using g
    by (intro exI [of _ "r\<lparr>db := ?d\<rparr>"]) (auto simp: report_def record_part_def Let_def split: option.split)
qed

lemma report_new:
  assumes "chord_header e gid ps" and "set ds \<subseteq> set ps" "distinct ds" and "p \<in> set ps" and "collected e gid ds n r" and "p \<notin> set ds"
  shows "\<exists>r'. report e p r = Inr (if n = Some (Suc (length ds)) then Some (int (Suc (length ds))) else None, r') \<and>
    collected e gid (ds @ [p]) n r' \<and> sent r' = sent r"
  using report_collected [OF assms(1-5)] unfolding if_not_P [OF assms(6)] length_append_singleton .

section \<open>What the body gets\<close>

definition part_value :: "redis_env \<Rightarrow> part \<Rightarrow> nat" where
  "part_value e p = (if p_state p \<in> EXCEPTION_STATES then to_exception e (p_result p) else p_result p)"

definition failed :: "part \<Rightarrow> bool" where
  "failed p \<longleftrightarrow> p_state p \<in> PROPAGATE_STATES"

text \<open>The outcome a chord should have: the body is called with the results in the order of the group, or it fails for the first failed task in this order.\<close>

definition chord_outcome :: "redis_env \<Rightarrow> string \<Rightarrow> part list \<Rightarrow> chord_event" where
  "chord_outcome e gid ps =
     (let qs = sort_key part_score ps; vs = map (part_value e) qs in
      case find failed qs of
        Some p \<Rightarrow> BodyFailed gid (Dependency (p_id p) (part_value e p))
      | None \<Rightarrow> if delivers e gid vs then BodySent gid vs else BodyFailed gid CallbackError)"

lemma unpack_encoded:
  assumes "decode e (encoded e p) = Some (p_id p, p_state p, p_result p)"
  shows "unpack_chord_result e (encoded e p) = (if failed p then Inl (Dependency (p_id p) (part_value e p)) else Inr (part_value e p))"
  using assms by (simp add: unpack_chord_result_def Let_def failed_def part_value_def)

lemma unpack_all_encoded:
  assumes "\<forall>p \<in> set qs. decode e (encoded e p) = Some (p_id p, p_state p, p_result p)"
  shows "unpack_all e (map (encoded e) qs) =
    (case find failed qs of Some p \<Rightarrow> Inl (Dependency (p_id p) (part_value e p)) | None \<Rightarrow> Inr (map (part_value e) qs))"
  using assms by (induction qs) (auto simp: unpack_encoded split: option.split)

lemma gather_collected:
  assumes "chord_header e gid ps" and "mset ds = mset ps" and "ps \<noteq> []" and "collected e gid ds n r"
  shows "gather e gid k (db r) = (case find failed (sort_key part_score ps) of
     Some p \<Rightarrow> Inl (Dependency (p_id p) (part_value e p)) | None \<Rightarrow> Inr (map (part_value e) (sort_key part_score ps)))"
proof -
  have "ds \<noteq> []" using assms(2,3) by auto
  have "mset (members e ds) = mset (map (\<lambda>p. (encoded e p, part_score p)) ps)" using assms(2) by (simp add: members_def)
  moreover have "distinct (map part_score ps)" using assms(1) by (simp add: chord_header_def)
  ultimately have "by_score (members e ds) = map (encoded e) (sort_key part_score ps)" by (rule by_score_unique)
  then show ?thesis
    using assms(1,4) \<open>ds \<noteq> []\<close> unpack_all_encoded [of "sort_key part_score ps" e] by (simp add: gather_def chord_header_def collected_def)
qed

lemma join_collected:
  assumes "chord_header e gid ps" and "mset ds = mset ps" and "ps \<noteq> []" and "collected e gid ds n r"
  shows "sent (join_chord e gid k r) = sent r @ [chord_outcome e gid ps] \<and>
    ((\<exists>p \<in> set ps. failed p) \<longrightarrow> collected e gid ds n (join_chord e gid k r)) \<and>
    (\<not> (\<exists>p \<in> set ps. failed p) \<longrightarrow> collected e gid [] None (join_chord e gid k r))"
proof -
  have "dict_get (delete_keys e gid (db r)) key = None" if "key \<in> {jkey e gid, tkey e gid, skey e gid}" for key
    using that by (auto simp: delete_keys_def dict_simps)
  then have del: "collected e gid [] None (r\<lparr>db := delete_keys e gid (db r), sent := x\<rparr>)" for x by (simp add: collected_def)
  have "collected e gid ds n (r\<lparr>sent := x\<rparr>)" for x using assms(4) by (simp add: collected_def)
  moreover have "find failed (sort_key part_score ps) = None \<longleftrightarrow> \<not> (\<exists>p \<in> set ps. failed p)" by (auto simp: find_None_iff)
  ultimately show ?thesis
    using gather_collected [OF assms, of k] del
    by (cases "find failed (sort_key part_score ps)") (simp_all add: join_chord_def chord_outcome_def Let_def)
qed

section \<open>The body is called once\<close>

fun reports :: "act list \<Rightarrow> part list" where
  "reports [] = []"
| "reports (Report p # as) = p # reports as"
| "reports (_ # as) = reports as"

lemma reports_append [simp]: "reports (as @ bs) = reports as @ reports bs"
  by (induction as rule: reports.induct) auto

text \<open>A run in which the chord's size is set, each header task reports at most once and the chord is not complete yet.\<close>

definition size_acts :: "string \<Rightarrow> nat \<Rightarrow> act list \<Rightarrow> bool" where
  "size_acts gid n as \<longleftrightarrow> (\<forall>g m. SetSize g m \<in> set as \<longrightarrow> g = gid \<and> m = n)"

lemma run_incomplete:
  assumes hd: "chord_header e gid ps" and "collected e gid [] None r"
    and "size_acts gid (length ps) as" and "set (reports as) \<subset> set ps" and "distinct (reports as)"
  shows "\<exists>r'. run_acts e as ([], r) = ([], r') \<and> sent r' = sent r \<and>
    collected e gid (reports as) (if SetSize gid (length ps) \<in> set as then Some (length ps) else None) r'"
  using assms(3-5)
proof (induction as rule: rev_induct)
  case Nil
  then show ?case using assms(2) by (simp add: run_acts_def)
next
  case (snoc a as)
  let ?n = "if SetSize gid (length ps) \<in> set as then Some (length ps) else None"
  have "size_acts gid (length ps) as" using snoc.prems(1) by (simp add: size_acts_def)
  moreover have "set (reports as) \<subset> set ps" "distinct (reports as)" using snoc.prems(2,3) by auto
  ultimately obtain r' where r': "run_acts e as ([], r) = ([], r')" "sent r' = sent r" "collected e gid (reports as) ?n r'"
    using snoc.IH by blast
  have step: "run_acts e (as @ [a]) ([], r) = act_step e ([], r') a" using r'(1) by (simp add: run_acts_def)
  show ?case
  proof (cases a)
    case (Report p)
    have p: "p \<in> set ps" "p \<notin> set (reports as)" using snoc.prems(2,3) Report by auto
    have "card (set (reports as @ [p])) < card (set ps)" using snoc.prems(2) Report by (intro psubset_card_mono) auto
    moreover have "distinct ps" using hd by (auto simp: chord_header_def distinct_map)
    moreover have "card (set (reports as @ [p])) = length (reports as @ [p])"
      using snoc.prems(3) Report by (intro distinct_card) auto
    ultimately have lt: "Suc (length (reports as)) < length ps" by (simp add: distinct_card)
    obtain r2 where "report e p r' = Inr (if ?n = Some (Suc (length (reports as))) then Some (int (Suc (length (reports as)))) else None, r2)"
        "collected e gid (reports as @ [p]) ?n r2" "sent r2 = sent r'"
      using report_new [OF hd _ _ p(1) r'(3) p(2)] \<open>set (reports as) \<subset> set ps\<close> \<open>distinct (reports as)\<close> by blast
    then show ?thesis using step Report lt r'(2) by (auto split: if_splits)
  next
    case (Join k)
    then show ?thesis using step r' by simp
  next
    case (SetSize g m)
    then have gm: "g = gid" "m = length ps" using snoc.prems(1) by (auto simp: size_acts_def)
    have "collected e gid (reports as) (Some (length ps)) (set_chord_size e gid (length ps) r')"
      using r'(3) chord_keys [of e gid] by (auto simp: collected_def set_chord_size_def dict_simps)
    moreover have "sent (set_chord_size e gid (length ps) r') = sent r'" by (simp add: set_chord_size_def)
    ultimately show ?thesis using step SetSize gm r'(2) by simp
  qed
qed

lemma run_joins: "set as \<subseteq> range Join \<Longrightarrow> run_acts e as ([], r) = ([], r)"
  by (induction as) (auto simp: run_acts_def)

lemma run_one_join:
  assumes "set as \<subseteq> range Join" and "Join 0 \<in> set as"
  shows "run_acts e as ([(gid, k)], r) = ([], join_chord e gid k r)"
  using assms
proof (induction as)
  case (Cons a as)
  then obtain j where a: "a = Join j" by auto
  show ?case
  proof (cases j)
    case 0
    have "run_acts e as ([], join_chord e gid k r) = ([], join_chord e gid k r)" using Cons.prems(1) by (intro run_joins) auto
    then show ?thesis using a 0 by (simp add: run_acts_def)
  next
    case (Suc i)
    then show ?thesis using Cons a by (simp add: run_acts_def)
  qed
qed simp

lemma redis_run_ends:
  assumes "chord_header e gid ps" and "collected e gid [] None r" and "mset (reports as @ [p]) = mset ps"
    and "size_acts gid (length ps) as" and "SetSize gid (length ps) \<in> set as"
    and "set bs \<subseteq> range Join" and "Join 0 \<in> set bs"
  shows "\<exists>r'. run_acts e (as @ Report p # bs) ([], r) = ([], r') \<and> sent r' = sent r @ [chord_outcome e gid ps]"
proof -
  have ps: "set ps = insert p (set (reports as))" "distinct ps" "length ps = Suc (length (reports as))"
    using mset_eq_setD [OF assms(3)] mset_eq_length [OF assms(3)] assms(1) by (auto simp: chord_header_def distinct_map)
  then have d: "distinct (reports as @ [p])" using assms(3) by (metis mset_eq_imp_distinct_iff)
  have sub: "set (reports as) \<subset> set ps" using ps(1) d by auto
  from run_incomplete [OF assms(1,2,4) this] d assms(5) obtain r1 where
    r1: "run_acts e as ([], r) = ([], r1)" "sent r1 = sent r" "collected e gid (reports as) (Some (length ps)) r1" by auto
  from report_collected [OF assms(1) psubset_imp_subset [OF sub] _ _ r1(3), of p] d ps obtain r2 where
    r2: "report e p r1 = Inr (Some (int (length ps)), r2)" "collected e gid (reports as @ [p]) (Some (length ps)) r2" "sent r2 = sent r1" by auto
  have "p_group p = gid" using assms(1) ps(1) by (auto simp: chord_header_def)
  then have "run_acts e (as @ Report p # bs) ([], r) = run_acts e bs ([(gid, int (length ps))], r2)"
    using r1(1) r2(1) by (simp add: run_acts_def)
  also have "\<dots> = ([], join_chord e gid (int (length ps)) r2)" using assms(6,7) by (rule run_one_join)
  finally show ?thesis
    using join_collected [OF assms(1,3) _ r2(2), of "int (length ps)"] r1(2) r2(3) ps(1) by (metis empty_not_insert set_empty)
qed

text \<open>
  when every header task reports once, to any workers in any order and with other workers acting between the two halves of a report, the chord ends
  exactly once: its body is called with all results in the order of the group, or, if a task failed, the body fails for the first failed one.
  The size has to be set before the last report.
\<close>

theorem redis_chord_ends_once:
  assumes "chord_header e gid ps" and "collected e gid [] None r" and "mset (reports as @ [p]) = mset ps"
    and "size_acts gid (length ps) as" and "SetSize gid (length ps) \<in> set as"
    and "set bs \<subseteq> range Join" and "Join 0 \<in> set bs"
  shows "\<exists>r'. run_acts e (as @ Report p # bs) ([], r) = ([], r') \<and> sent r' = sent r @ [chord_outcome e gid ps]"
  using assms by (rule redis_run_ends)

fun sequential :: "redis_env \<Rightarrow> part list \<Rightarrow> redis \<Rightarrow> rerror + redis" where
  "sequential e [] r = Inr r"
| "sequential e (p # ps) r = res_bind (on_chord_part_return e p r) (sequential e ps)"

lemma sequential_snoc: "sequential e (ps @ [p]) r = res_bind (sequential e ps r) (on_chord_part_return e p)"
proof (induction ps arbitrary: r)
  case Nil
  then show ?case by (cases "on_chord_part_return e p r") auto
next
  case (Cons q ps)
  then show ?case by (cases "on_chord_part_return e q r") auto
qed

text \<open>
  A chord whose size is set, after some reports: not complete and nothing sent, or ended, with the expected size forgotten. Results that come again
  after the end are collected but not counted against anything.
\<close>

definition seq_inv :: "redis_env \<Rightarrow> string \<Rightarrow> part list \<Rightarrow> redis \<Rightarrow> part set \<Rightarrow> redis \<Rightarrow> bool" where
  "seq_inv e gid ps r0 seen r \<longleftrightarrow> (\<exists>ds. distinct ds \<and> set ds \<subseteq> set ps \<and>
     (if seen \<subset> set ps then set ds = seen \<and> collected e gid ds (Some (length ps)) r \<and> sent r = sent r0
      else collected e gid ds None r \<and> sent r = sent r0 @ [chord_outcome e gid ps]))"

lemma seq_step:
  assumes hd: "chord_header e gid ps" and ok: "\<not> (\<exists>p \<in> set ps. failed p)" and inv: "seq_inv e gid ps r0 seen r" and p: "p \<in> set ps" and "seen \<subseteq> set ps"
  shows "\<exists>r'. on_chord_part_return e p r = Inr r' \<and> seq_inv e gid ps r0 (insert p seen) r'"
proof -
  obtain ds where ds: "distinct ds" "set ds \<subseteq> set ps" and
      c: "if seen \<subset> set ps then set ds = seen \<and> collected e gid ds (Some (length ps)) r \<and> sent r = sent r0
          else collected e gid ds None r \<and> sent r = sent r0 @ [chord_outcome e gid ps]"
    using inv by (auto simp: seq_inv_def)
  define ds' where "ds' = (if p \<in> set ds then ds else ds @ [p])"
  have ds': "distinct ds'" "set ds' = insert p (set ds)" using ds(1) by (auto simp: ds'_def)
  have g: "p_group p = gid" "distinct ps" using hd p by (auto simp: chord_header_def distinct_map)
  show ?thesis
  proof (cases "seen \<subset> set ps")
    case False
    then have "insert p seen = set ps" using assms(4,5) by auto
    moreover obtain r' where "report e p r = Inr (None, r')" "collected e gid ds' None r'" "sent r' = sent r"
      using report_collected [OF hd ds(2,1) p, of None r] c False by (auto simp: ds'_def)
    ultimately show ?thesis using c False ds' ds(2) p
      by (intro exI [of _ r']) (auto simp: on_chord_part_return_def seq_inv_def intro!: exI [of _ ds'])
  next
    case True
    then have seen: "set ds = seen" "collected e gid ds (Some (length ps)) r" "sent r = sent r0" using c by auto
    obtain r' where r': "report e p r = Inr (if length ps = length ds' then Some (int (length ds')) else None, r')"
        "collected e gid ds' (Some (length ps)) r'" "sent r' = sent r"
      using report_collected [OF hd ds(2,1) p seen(2)] by (auto simp: ds'_def)
    have len: "length ps = length ds' \<longleftrightarrow> insert p seen = set ps"
      using distinct_card [OF ds'(1)] distinct_card [OF g(2)] ds'(2) seen(1) ds(2) p by (metis card_subset_eq finite_set insert_subset)
    show ?thesis
    proof (cases "insert p seen = set ps")
      case True
      then have "mset ds' = mset ps" using ds' g(2) seen(1) by (metis set_eq_iff_mset_eq_distinct)
      moreover have "ps \<noteq> []" using p by auto
      ultimately have
        j: "sent (join_chord e gid k r') = sent r' @ [chord_outcome e gid ps]" "collected e gid [] None (join_chord e gid k r')" for k
        using join_collected [OF hd _ _ r'(2)] ok by auto
      have "on_chord_part_return e p r = Inr (join_chord e gid (int (length ds')) r')" using r'(1) len True g(1) by (simp add: on_chord_part_return_def)
      then show ?thesis using True j r'(3) seen(3) by (auto simp: seq_inv_def intro!: exI [of _ "[]"])
    next
      case False
      then have "insert p seen \<subset> set ps" using assms(4,5) by auto
      then show ?thesis using False r' len ds' seen ds(2) p
        by (auto simp: on_chord_part_return_def seq_inv_def intro!: exI [of _ ds'])
    qed
  qed
qed

text \<open>
  with results ordered by index, tasks that are delivered and reported again do not disturb a chord, as long as their results are the same and no report
  comes in the middle of a join: if no task failed, the chord ends exactly once, with the results in the order of the group.
\<close>

theorem redis_chord_ignores_repeats:
  assumes "chord_header e gid ps" and "\<not> (\<exists>p \<in> set ps. failed p)" and "collected e gid [] (Some (length ps)) r" and "ps \<noteq> []" and "set rs = set ps"
  shows "\<exists>r'. sequential e rs r = Inr r' \<and> sent r' = sent r @ [chord_outcome e gid ps]"
proof -
  have "\<exists>r'. sequential e rs r = Inr r' \<and> seq_inv e gid ps r (set rs) r'" if "set rs \<subseteq> set ps" for rs
    using that
  proof (induction rs rule: rev_induct)
    case Nil
    then show ?case using assms(3,4) by (auto simp: seq_inv_def intro!: exI [of _ "[]"])
  next
    case (snoc p rs)
    then obtain r1 where r1: "sequential e rs r = Inr r1" "seq_inv e gid ps r (set rs) r1" by auto
    from seq_step [OF assms(1,2) r1(2)] snoc.prems show ?case using r1(1) by (simp add: sequential_snoc)
  qed
  from this [of rs] show ?thesis using assms(5) by (auto simp: seq_inv_def)
qed

section \<open>Examples and limits\<close>

definition demo_encode :: "string \<times> string \<times> nat \<Rightarrow> string" where
  "demo_encode x = (case x of (t, st, v) \<Rightarrow> t @ CHR '':'' # st @ CHR '':'' # replicate v CHR ''x'')"

definition demo_decode :: "string \<Rightarrow> (string \<times> string \<times> nat) option" where
  "demo_decode m =
     (let t = takeWhile (\<lambda>ch. ch \<noteq> CHR '':'') m; rest = drop (Suc (length t)) m; st = takeWhile (\<lambda>ch. ch \<noteq> CHR '':'') rest in
      Some (t, st, length (drop (Suc (length st)) rest)))"

definition demo_redis :: "bool \<Rightarrow> redis_env" where
  "demo_redis zset = \<lparr>keyprefix = ''celery-taskset-meta-'', ordered = zset, encode = demo_encode, decode = demo_decode, to_exception = (\<lambda>n. 1000 + n),
     delivers = (\<lambda>g vs. True), saved_header = (\<lambda>g. None)\<rparr>"

definition demo_part :: "string \<Rightarrow> int \<Rightarrow> string \<Rightarrow> nat \<Rightarrow> part" where
  "demo_part t i st v = \<lparr>p_id = t, p_group = ''g'', p_index = Some i, p_state = st, p_result = v\<rparr>"

definition empty_redis :: redis where
  "empty_redis = \<lparr>db = [], sent = []\<rparr>"

lemma demo_header: "chord_header (demo_redis True) ''g'' [demo_part ''a'' 0 SUCCESS 4, demo_part ''b'' 1 SUCCESS 2]"
  "chord_header (demo_redis True) ''g'' [demo_part ''a'' 0 SUCCESS 4, demo_part ''b'' 1 FAILURE 2]"
  by (simp_all add: chord_header_def demo_redis_def demo_part_def part_score_def encoded_def demo_encode_def demo_decode_def SUCCESS_def FAILURE_def eval_nat_numeral)

lemma empty_collected: "collected e gid [] None empty_redis"
  by (simp add: collected_def empty_redis_def)

lemma demo_outcomes:
  "chord_outcome (demo_redis True) ''g'' [demo_part ''a'' 0 SUCCESS 4, demo_part ''b'' 1 SUCCESS 2] = BodySent ''g'' [4, 2]"
  "chord_outcome (demo_redis True) ''g'' [demo_part ''a'' 0 SUCCESS 4, demo_part ''b'' 1 FAILURE 2] = BodyFailed ''g'' (Dependency ''b'' 1002)"
  by (simp_all add: chord_outcome_def demo_redis_def demo_part_def part_score_def less_eq_score_def failed_def part_value_def state_sets state_names)

theorem redis_chord_ends_once_witness:
  "\<exists>r'. run_acts (demo_redis True) ([Report (demo_part ''b'' 1 SUCCESS 2), Join 0, SetSize ''g'' 2] @ Report (demo_part ''a'' 0 SUCCESS 4) # [Join 3, Join 0]) ([], empty_redis) =
      ([], r') \<and> sent r' = [BodySent ''g'' [4, 2]]"
  using redis_chord_ends_once [OF demo_header(1) empty_collected, of "[Report (demo_part ''b'' 1 SUCCESS 2), Join 0, SetSize ''g'' 2]"
      "demo_part ''a'' 0 SUCCESS 4" "[Join 3, Join 0]"]
  by (auto simp: size_acts_def demo_outcomes empty_redis_def)

theorem redis_chord_ignores_repeats_witness:
  "\<exists>r'. sequential (demo_redis True) [demo_part ''b'' 1 SUCCESS 2, demo_part ''b'' 1 SUCCESS 2, demo_part ''a'' 0 SUCCESS 4, demo_part ''b'' 1 SUCCESS 2]
     (set_chord_size (demo_redis True) ''g'' 2 empty_redis) = Inr r' \<and> sent r' = [BodySent ''g'' [4, 2]]"
proof -
  let ?e = "demo_redis True"
  let ?a = "demo_part ''a'' 0 SUCCESS 4" and ?b = "demo_part ''b'' 1 SUCCESS 2"
  have c: "collected ?e ''g'' [] (Some (length [?a, ?b])) (set_chord_size ?e ''g'' 2 empty_redis)"
    using chord_keys [of ?e "''g''"] by (simp add: collected_def set_chord_size_def empty_redis_def)
  have ok: "\<not> (\<exists>p \<in> set [?a, ?b]. failed p)" by (simp add: failed_def demo_part_def state_sets state_names)
  have "set [?b, ?b, ?a, ?b] = set [?a, ?b]" by auto
  from redis_chord_ignores_repeats [OF demo_header(1) ok c _ this] show ?thesis
    by (simp only: demo_outcomes) (simp add: set_chord_size_def empty_redis_def)
qed

text \<open>
  the two limits of the sentence before. A repeated report in the middle of a join completes the chord again, and the second join, which finds the keys
  deleted, calls the body a second time with no results; and without ordering every repeated report counts, so the body is called before all tasks are done.
\<close>

theorem repeated_report_calls_body_again:
  "sent (snd (run_acts (demo_redis True) [SetSize ''g'' 2, Report (demo_part ''a'' 0 SUCCESS 4), Report (demo_part ''b'' 1 SUCCESS 2),
       Report (demo_part ''b'' 1 SUCCESS 2), Join 0, Join 0] ([], empty_redis))) = [BodySent ''g'' [4, 2], BodySent ''g'' []] \<and>
   sent (snd (run_acts (demo_redis False) [SetSize ''g'' 2, Report (demo_part ''a'' 0 SUCCESS 4), Report (demo_part ''a'' 0 SUCCESS 4), Join 0] ([], empty_redis))) =
     [BodySent ''g'' [4, 4]]"
  by code_simp

text \<open>
  when a task of the header failed, the keys of the chord are not deleted, so a repeated report of any of its tasks fails the body once more.
\<close>

theorem failed_chord_fails_again:
  assumes "chord_header e gid ps" and "\<exists>p \<in> set ps. failed p" and "collected e gid ds (Some (length ps)) r" and "mset ds = mset ps" and "q \<in> set ps"
  shows "\<exists>r2. on_chord_part_return e q (join_chord e gid k r) = Inr r2 \<and> sent r2 = sent r @ [chord_outcome e gid ps, chord_outcome e gid ps]"
proof -
  have "ps \<noteq> []" using assms(2) by auto
  let ?r = "join_chord e gid k r"
  have j: "sent ?r = sent r @ [chord_outcome e gid ps]" "collected e gid ds (Some (length ps)) ?r"
    using join_collected [OF assms(1,4) \<open>ps \<noteq> []\<close> assms(3)] assms(2) by auto
  have ds: "set ds = set ps" "distinct ds" "length ds = length ps"
    using mset_eq_setD [OF assms(4)] mset_eq_length [OF assms(4)] assms(1) mset_eq_imp_distinct_iff [OF assms(4)] by (auto simp: chord_header_def distinct_map)
  then obtain r' where r': "report e q ?r = Inr (Some (int (length ps)), r')" "collected e gid ds (Some (length ps)) r'" "sent r' = sent ?r"
    using report_collected [OF assms(1) _ ds(2) assms(5) j(2)] assms(5) by auto
  have "p_group q = gid" using assms(1,5) by (auto simp: chord_header_def)
  then have "on_chord_part_return e q ?r = Inr (join_chord e gid (int (length ps)) r')" using r'(1) by (simp add: on_chord_part_return_def)
  then show ?thesis using join_collected [OF assms(1,4) \<open>ps \<noteq> []\<close> r'(2)] j(1) r'(3) by auto
qed


theorem failed_chord_fails_again_witness:
  "\<exists>r2. on_chord_part_return (demo_redis True) (demo_part ''a'' 0 SUCCESS 4) (join_chord (demo_redis True) ''g'' 2
       \<lparr>db = [(jkey (demo_redis True) ''g'', ZSet (members (demo_redis True) [demo_part ''a'' 0 SUCCESS 4, demo_part ''b'' 1 FAILURE 2])), (skey (demo_redis True) ''g'', RInt 2)], sent = []\<rparr>) = Inr r2 \<and>
     sent r2 = [BodyFailed ''g'' (Dependency ''b'' 1002), BodyFailed ''g'' (Dependency ''b'' 1002)]"
proof -
  let ?a = "demo_part ''a'' 0 SUCCESS 4" and ?b = "demo_part ''b'' 1 FAILURE 2" and ?e = "demo_redis True"
  let ?r = "\<lparr>db = [(jkey ?e ''g'', ZSet (members ?e [?a, ?b])), (skey ?e ''g'', RInt 2)], sent = []\<rparr>"
  have "collected ?e ''g'' [?a, ?b] (Some (length [?a, ?b])) ?r" using chord_keys [of ?e "''g''"] by (auto simp: collected_def)
  moreover have "\<exists>p \<in> set [?a, ?b]. failed p" by (simp add: failed_def demo_part_def state_sets state_names)
  ultimately show ?thesis using failed_chord_fails_again [OF demo_header(2), of "[?a, ?b]" ?r ?a 2] by (simp add: demo_outcomes)
qed

end
