(* ===== verification/Redis_Consumer.thy ===== *)
theory Redis_Consumer
  imports Prelude
begin

text \<open>
  The result consumer of the Redis backend, \<open>ResultConsumer\<close> of \<open>celery.backends.redis\<close>: results are awaited on a publish/subscribe connection that is shared by
  threads and must see one operation at a time. Operations run under a lock; a request to stop listening, which may come from the garbage collector in the middle of
  another operation, never waits for it but is left to the holder of the lock, who looks for such requests again after every release.

  One event is one step of a thread or of the server. What a thread does to the connection while it holds the lock is one step, except for the renewal of a
  lost connection, which first reads the results of all awaited tasks and then subscribes to them again. The state of a task is reduced to whether it is ready.
  Keys stand for task ids. \<open>stop\<close>, forking, and the wait for the socket in \<open>drain_events\<close> (done without the lock and without touching the connection) are left out.
\<close>

section \<open>State\<close>

text \<open>A thread is outside, inside a locked block, between release and the check for pending keys, emptying the pending keys, or renewing the connection for one of the two.\<close>

datatype pc = Idle | Holding | Checking | Flushing | is_renewal: Resubscribing bool

text \<open>
  \<open>chans\<close> are the channels the server has for the connection, \<open>inbox\<close> the messages not read yet, \<open>down\<close> a connection that was lost without anyone knowing yet.
  Only for the statements: \<open>due\<close> are the keys published since they were subscribed to, \<open>delivered\<close> those whose result was handed on since then, and \<open>late\<close> those published
  while a connection was being renewed.
\<close>

record rc =
  pubsub :: bool
  subscribed_to :: "string set"
  pending_unsubscribe :: "string set"
  lck :: "nat option"
  pc :: "nat \<Rightarrow> pc"
  gave_up :: bool
  chans :: "string set"
  inbox :: "string list"
  down :: bool
  stored :: "string set"
  due :: "string set"
  delivered :: "string set"
  late :: "string set"

definition new_rc :: "string set \<Rightarrow> rc" where
  "new_rc results = \<lparr>pubsub = False, subscribed_to = {}, pending_unsubscribe = {}, lck = None, pc = (\<lambda>_. Idle), gave_up = False, chans = {}, inbox = [], down = False,
     stored = results, due = {}, delivered = {}, late = {}\<rparr>"

section \<open>Operations\<close>

text \<open>A ready result is handed on, and its key is left to be unsubscribed: the thread is inside a locked block.\<close>

definition on_state_change :: "string set \<Rightarrow> rc \<Rightarrow> rc" where
  "on_state_change ks s = s\<lparr>delivered := delivered s \<union> ks, pending_unsubscribe := pending_unsubscribe s \<union> ks\<rparr>"

definition start :: "rc \<Rightarrow> rc" where
  "start s = (if pubsub s then s else s\<lparr>pubsub := True, chans := {}, inbox := [], down := False\<rparr>)"

text \<open>\<open>_consume_from\<close>, up to the subscription.\<close>

definition want :: "string \<Rightarrow> rc \<Rightarrow> rc" where
  "want k s = (let s = s\<lparr>pending_unsubscribe := pending_unsubscribe s - {k}\<rparr> in
     if k \<in> subscribed_to s then s
     else s\<lparr>subscribed_to := insert k (subscribed_to s), due := due s - {k}, delivered := delivered s - {k}, late := late s - {k}\<rparr>)"

definition subscribe :: "string \<Rightarrow> rc \<Rightarrow> rc" where
  "subscribe k s = (if down s then s else s\<lparr>chans := insert k (chans s)\<rparr>)"

definition unwant :: "string \<Rightarrow> rc \<Rightarrow> rc" where
  "unwant k s = s\<lparr>pending_unsubscribe := pending_unsubscribe s - {k}, subscribed_to := subscribed_to s - {k}\<rparr>"

text \<open>\<open>_reconnect_pubsub\<close> in two steps: the results of all awaited tasks are read, then the new connection subscribes to what is still wanted.\<close>

definition fetch_missed :: "rc \<Rightarrow> rc" where
  "fetch_missed s = on_state_change (subscribed_to s \<inter> stored s) (s\<lparr>pubsub := False, chans := {}, inbox := [], down := False\<rparr>)"

definition resubscribe :: "rc \<Rightarrow> rc" where
  "resubscribe s = s\<lparr>pubsub := True, subscribed_to := subscribed_to s - pending_unsubscribe s, pending_unsubscribe := {},
     chans := subscribed_to s - pending_unsubscribe s\<rparr>"

definition go :: "nat \<Rightarrow> pc \<Rightarrow> rc \<Rightarrow> rc" where
  "go t p s = s\<lparr>pc := (pc s)(t := p)\<rparr>"

section \<open>Events\<close>

datatype ev =
    Enter nat
  | Consume nat string
  | ConsumeError nat string
  | ReadMessage nat
  | ReadError nat
  | Resubscribe nat
  | GiveUp nat
  | CancelInside nat string
  | Cancel nat string
  | Leave nat
  | Return nat
  | StartFlush nat
  | Unsubscribe nat string
  | UnsubscribeError nat string
  | EndFlush nat
  | Publish string
  | Disconnect

definition inside :: "pc \<Rightarrow> bool" where
  "inside p \<longleftrightarrow> (case p of Holding \<Rightarrow> True | Flushing \<Rightarrow> True | Resubscribing _ \<Rightarrow> True | _ \<Rightarrow> False)"

definition renewing :: "rc \<Rightarrow> bool" where
  "renewing s \<longleftrightarrow> lck s \<noteq> None \<and> is_renewal (pc s (the (lck s)))"

text \<open>
  A subscription on a connection that was lost may go unnoticed. Renewal remembers whether it came from emptying the pending keys; when it fails, the error leaves
  the locked block by way of the check for pending keys, but leaves the emptying of pending keys without one.
\<close>

fun rc_exec :: "ev \<Rightarrow> rc \<Rightarrow> rc option" where
  "rc_exec (Enter t) s = (if pc s t = Idle \<and> lck s = None then Some (go t Holding (s\<lparr>lck := Some t\<rparr>)) else None)"
| "rc_exec (Consume t k) s = (if pc s t = Holding then
     Some (if k \<in> subscribed_to s then want k (start s) else subscribe k (want k (start s))) else None)"
| "rc_exec (ConsumeError t k) s = (if pc s t = Holding \<and> k \<notin> subscribed_to s then
     Some (go t (Resubscribing False) (fetch_missed (want k (start s)))) else None)"
| "rc_exec (ReadMessage t) s = (if pc s t = Holding \<and> pubsub s then
     (case inbox s of [] \<Rightarrow> None | k # ks \<Rightarrow> Some (on_state_change {k} (s\<lparr>inbox := ks\<rparr>))) else None)"
| "rc_exec (ReadError t) s = (if pc s t = Holding \<and> pubsub s then Some (go t (Resubscribing False) (fetch_missed s)) else None)"
| "rc_exec (Resubscribe t) s = (case pc s t of Resubscribing b \<Rightarrow> Some (go t (if b then Flushing else Holding) (resubscribe s)) | _ \<Rightarrow> None)"
| "rc_exec (GiveUp t) s = (case pc s t of
     Resubscribing b \<Rightarrow> Some (go t (if b then Idle else Checking) (s\<lparr>gave_up := True, lck := None\<rparr>)) | _ \<Rightarrow> None)"
| "rc_exec (CancelInside t k) s = (if inside (pc s t) then Some (s\<lparr>pending_unsubscribe := insert k (pending_unsubscribe s)\<rparr>) else None)"
| "rc_exec (Cancel t k) s = (if pc s t = Idle then
     Some (go t Checking (s\<lparr>pending_unsubscribe := insert k (pending_unsubscribe s)\<rparr>)) else None)"
| "rc_exec (Leave t) s = (if pc s t = Holding then Some (go t Checking (s\<lparr>lck := None\<rparr>)) else None)"
| "rc_exec (Return t) s = (if pc s t = Checking \<and> (pending_unsubscribe s = {} \<or> lck s \<noteq> None) then Some (go t Idle s) else None)"
| "rc_exec (StartFlush t) s = (if pc s t = Checking \<and> pending_unsubscribe s \<noteq> {} \<and> lck s = None then
     Some (go t Flushing (s\<lparr>lck := Some t\<rparr>)) else None)"
| "rc_exec (Unsubscribe t k) s = (if pc s t = Flushing \<and> k \<in> pending_unsubscribe s then
     Some (if k \<in> subscribed_to s \<and> pubsub s then (unwant k s)\<lparr>chans := chans s - {k}\<rparr> else unwant k s) else None)"
| "rc_exec (UnsubscribeError t k) s = (if pc s t = Flushing \<and> k \<in> pending_unsubscribe s \<and> k \<in> subscribed_to s \<and> pubsub s then
     Some (go t (Resubscribing True) (fetch_missed (unwant k s))) else None)"
| "rc_exec (EndFlush t) s = (if pc s t = Flushing \<and> pending_unsubscribe s = {} then Some (go t Checking (s\<lparr>lck := None\<rparr>)) else None)"
| "rc_exec (Publish k) s = Some (s\<lparr>stored := insert k (stored s), inbox := (if k \<in> chans s then inbox s @ [k] else inbox s),
     due := (if k \<in> subscribed_to s then insert k (due s) else due s), late := (if renewing s then insert k (late s) else late s)\<rparr>)"
| "rc_exec Disconnect s = (if pubsub s then Some (s\<lparr>down := True, chans := {}, inbox := []\<rparr>) else None)"

definition rc_step :: "rc \<Rightarrow> ev \<Rightarrow> rc \<Rightarrow> bool" where
  "rc_step s e s' \<longleftrightarrow> rc_exec e s = Some s'"

definition rc_start :: "rc \<Rightarrow> bool" where
  "rc_start s \<longleftrightarrow> (\<exists>results. s = new_rc results)"

fun run_rc :: "ev list \<Rightarrow> rc \<Rightarrow> rc option" where
  "run_rc [] s = Some s"
| "run_rc (e # es) s = (case rc_exec e s of None \<Rightarrow> None | Some s' \<Rightarrow> run_rc es s')"

lemma run_rc_reach: "run_rc es s = Some s' \<Longrightarrow> reach rc_start rc_step s \<Longrightarrow> reach rc_start rc_step s'"
proof (induction es arbitrary: s)
  case (Cons e es)
  then obtain s1 where "rc_exec e s = Some s1" "run_rc es s1 = Some s'" by (auto split: option.splits)
  then show ?case using Cons.IH [of s1] reach_step [OF Cons.prems(2), of e s1] by (simp add: rc_step_def)
qed simp

section \<open>The lock\<close>

lemmas ops = start_def want_def subscribe_def unwant_def fetch_missed_def resubscribe_def on_state_change_def go_def Let_def

lemma ops_frame [simp]:
  "lck (on_state_change ks s) = lck s" "pc (on_state_change ks s) = pc s" "gave_up (on_state_change ks s) = gave_up s"
  "lck (start s) = lck s" "pc (start s) = pc s" "gave_up (start s) = gave_up s"
  "lck (want k s) = lck s" "pc (want k s) = pc s" "gave_up (want k s) = gave_up s"
  "lck (subscribe k s) = lck s" "pc (subscribe k s) = pc s" "gave_up (subscribe k s) = gave_up s"
  "lck (unwant k s) = lck s" "pc (unwant k s) = pc s" "gave_up (unwant k s) = gave_up s"
  "lck (fetch_missed s) = lck s" "pc (fetch_missed s) = pc s" "gave_up (fetch_missed s) = gave_up s"
  "lck (resubscribe s) = lck s" "pc (resubscribe s) = pc s" "gave_up (resubscribe s) = gave_up s"
  "lck (go t p s) = lck s" "pc (go t p s) = (pc s)(t := p)" "gave_up (go t p s) = gave_up s"
  by (simp_all add: ops)

lemma start_fields [simp]:
  "pubsub (start s)" "subscribed_to (start s) = subscribed_to s" "pending_unsubscribe (start s) = pending_unsubscribe s"
  "chans (start s) = (if pubsub s then chans s else {})" "inbox (start s) = (if pubsub s then inbox s else [])" "down (start s) = (pubsub s \<and> down s)"
  "stored (start s) = stored s" "due (start s) = due s" "delivered (start s) = delivered s" "late (start s) = late s"
  by (simp_all add: start_def)

lemma want_fields [simp]:
  "pubsub (want k s) = pubsub s" "subscribed_to (want k s) = insert k (subscribed_to s)" "pending_unsubscribe (want k s) = pending_unsubscribe s - {k}"
  "chans (want k s) = chans s" "inbox (want k s) = inbox s" "down (want k s) = down s" "stored (want k s) = stored s"
  "due (want k s) = (if k \<in> subscribed_to s then due s else due s - {k})" "delivered (want k s) = (if k \<in> subscribed_to s then delivered s else delivered s - {k})"
  "late (want k s) = (if k \<in> subscribed_to s then late s else late s - {k})"
  by (auto simp: want_def Let_def)

lemma subscribe_fields [simp]:
  "pubsub (subscribe k s) = pubsub s" "subscribed_to (subscribe k s) = subscribed_to s" "pending_unsubscribe (subscribe k s) = pending_unsubscribe s"
  "chans (subscribe k s) = (if down s then chans s else insert k (chans s))" "inbox (subscribe k s) = inbox s" "down (subscribe k s) = down s"
  "stored (subscribe k s) = stored s" "due (subscribe k s) = due s" "delivered (subscribe k s) = delivered s" "late (subscribe k s) = late s"
  by (simp_all add: subscribe_def)

lemma on_state_change_fields [simp]:
  "pubsub (on_state_change ks s) = pubsub s" "subscribed_to (on_state_change ks s) = subscribed_to s" "pending_unsubscribe (on_state_change ks s) = pending_unsubscribe s \<union> ks" "chans (on_state_change ks s) = chans s" "inbox (on_state_change ks s) = inbox s" "down (on_state_change ks s) = down s" "stored (on_state_change ks s) = stored s" "due (on_state_change ks s) = due s" "delivered (on_state_change ks s) = delivered s \<union> ks" "late (on_state_change ks s) = late s"
  by (simp_all add: on_state_change_def)

lemma unwant_fields [simp]:
  "pubsub (unwant k s) = pubsub s" "subscribed_to (unwant k s) = subscribed_to s - {k}" "pending_unsubscribe (unwant k s) = pending_unsubscribe s - {k}" "chans (unwant k s) = chans s" "inbox (unwant k s) = inbox s" "down (unwant k s) = down s" "stored (unwant k s) = stored s" "due (unwant k s) = due s" "delivered (unwant k s) = delivered s" "late (unwant k s) = late s"
  by (simp_all add: unwant_def)

lemma fetch_missed_fields [simp]:
  "pubsub (fetch_missed s) = False" "subscribed_to (fetch_missed s) = subscribed_to s" "pending_unsubscribe (fetch_missed s) = pending_unsubscribe s \<union> (subscribed_to s \<inter> stored s)" "chans (fetch_missed s) = {}" "inbox (fetch_missed s) = []" "down (fetch_missed s) = False" "stored (fetch_missed s) = stored s" "due (fetch_missed s) = due s" "delivered (fetch_missed s) = delivered s \<union> (subscribed_to s \<inter> stored s)" "late (fetch_missed s) = late s"
  by (simp_all add: fetch_missed_def)

lemma resubscribe_fields [simp]:
  "pubsub (resubscribe s) = True" "subscribed_to (resubscribe s) = subscribed_to s - pending_unsubscribe s" "pending_unsubscribe (resubscribe s) = {}" "chans (resubscribe s) = subscribed_to s - pending_unsubscribe s" "inbox (resubscribe s) = inbox s" "down (resubscribe s) = down s" "stored (resubscribe s) = stored s" "due (resubscribe s) = due s" "delivered (resubscribe s) = delivered s" "late (resubscribe s) = late s"
  by (simp_all add: resubscribe_def)

lemma go_fields [simp]:
  "pubsub (go t p s) = pubsub s" "subscribed_to (go t p s) = subscribed_to s" "pending_unsubscribe (go t p s) = pending_unsubscribe s" "chans (go t p s) = chans s" "inbox (go t p s) = inbox s" "down (go t p s) = down s" "stored (go t p s) = stored s" "due (go t p s) = due s" "delivered (go t p s) = delivered s" "late (go t p s) = late s"
  by (simp_all add: go_def)

lemma inside_simps [simp]: "inside Holding" "inside Flushing" "inside (Resubscribing b)" "\<not> inside Idle" "\<not> inside Checking"
  by (simp_all add: inside_def)

text \<open>How an event moves the lock: not at all, taken by a thread that was outside, or given up by its holder.\<close>

definition others_keep :: "nat \<Rightarrow> rc \<Rightarrow> rc \<Rightarrow> bool" where
  "others_keep t s s' \<longleftrightarrow> (\<forall>u. u \<noteq> t \<longrightarrow> inside (pc s' u) = inside (pc s u))"

inductive lock_move :: "rc \<Rightarrow> rc \<Rightarrow> bool" for s s' where
  stays: "lck s' = lck s \<Longrightarrow> \<forall>t. inside (pc s' t) = inside (pc s t) \<Longrightarrow> lock_move s s'"
| takes: "lck s = None \<Longrightarrow> lck s' = Some t \<Longrightarrow> inside (pc s' t) \<Longrightarrow> others_keep t s s' \<Longrightarrow> lock_move s s'"
| releases: "inside (pc s t) \<Longrightarrow> lck s' = None \<Longrightarrow> \<not> inside (pc s' t) \<Longrightarrow> others_keep t s s' \<Longrightarrow> lock_move s s'"

lemma others_keep_go [simp]: "pc s0 = pc s \<Longrightarrow> others_keep t s (go t p s0)"
  by (simp add: others_keep_def)

lemma lock_moves:
  assumes "rc_exec e s = Some s'"
  shows "lock_move s s'"
proof (cases e)
  case (Enter t)
  then show ?thesis using assms by (intro takes [of s s' t]) (auto split: if_splits)
next
  case (StartFlush t)
  then show ?thesis using assms by (intro takes [of s s' t]) (auto split: if_splits)
next
  case (GiveUp t)
  then show ?thesis using assms by (intro releases [of s t s']) (auto split: if_splits pc.splits)
next
  case (Leave t)
  then show ?thesis using assms by (intro releases [of s t s']) (auto split: if_splits)
next
  case (EndFlush t)
  then show ?thesis using assms by (intro releases [of s t s']) (auto split: if_splits)
qed (use assms in \<open>auto intro!: stays split: if_splits pc.splits list.splits\<close>)

definition locked_inv :: "rc \<Rightarrow> bool" where
  "locked_inv s \<longleftrightarrow> (\<forall>t. inside (pc s t) \<longleftrightarrow> lck s = Some t)"

lemma locked_step: "locked_inv s \<Longrightarrow> rc_exec e s = Some s' \<Longrightarrow> locked_inv s'"
  by (drule lock_moves, erule lock_move.cases) (auto simp: locked_inv_def others_keep_def, metis+)

text \<open>Pending keys are never left to nobody: some thread holds the lock or is about to look for them.\<close>

definition attended :: "rc \<Rightarrow> bool" where
  "attended s \<longleftrightarrow> gave_up s \<or> pending_unsubscribe s = {} \<or> lck s \<noteq> None \<or> (\<exists>t. pc s t = Checking)"

lemma holder:
  assumes "locked_inv s"
  shows "pc s t = Holding \<Longrightarrow> lck s = Some t" "pc s t = Flushing \<Longrightarrow> lck s = Some t" "pc s t = Resubscribing b \<Longrightarrow> lck s = Some t"
    "inside (pc s t) \<Longrightarrow> lck s = Some t"
  using assms inside_simps unfolding locked_inv_def by metis+

lemma attended_holder: "lck s \<noteq> None \<Longrightarrow> attended s"
  by (simp add: attended_def)

lemma attended_checking: "pc s t = Checking \<Longrightarrow> attended s"
  by (auto simp: attended_def)

lemma attended_step:
  assumes "locked_inv s" and "attended s" and "rc_exec e s = Some s'"
  shows "attended s'"
proof -
  note holds = holder(1-3) [OF assms(1)]
  show ?thesis
  proof (cases e)
    case (Cancel t k)
    then show ?thesis using assms(3) by (intro attended_checking [of _ t]) (auto split: if_splits)
  next
    case (Leave t)
    then show ?thesis using assms(3) by (intro attended_checking [of _ t]) (auto split: if_splits)
  next
    case (EndFlush t)
    then show ?thesis using assms(3) by (intro attended_checking [of _ t]) (auto split: if_splits)
  next
    case (GiveUp t)
    then show ?thesis using assms(3) by (auto simp: attended_def split: pc.splits)
  next
    case (Return t)
    then show ?thesis using assms(3) by (auto simp: attended_def go_def split: if_splits)
  next
    case (CancelInside t k)
    then show ?thesis using assms(3) holder(4) [OF assms(1), of t] by (intro attended_holder) (auto split: if_splits)
  next
    case (Publish k)
    then show ?thesis using assms(2,3) by (auto simp: attended_def)
  next
    case Disconnect
    then show ?thesis using assms(2,3) by (auto simp: attended_def split: if_splits)
  qed (use assms(3) holds in \<open>auto intro!: attended_holder split: if_splits pc.splits list.splits\<close>)
qed

section \<open>Subscriptions\<close>

text \<open>
  Outside of a renewal and as long as no renewal failed, the server's channels are exactly the keys waited for, unless the connection was lost; without a connection nothing
  is waited for.
\<close>

definition in_step :: "rc \<Rightarrow> bool" where
  "in_step s \<longleftrightarrow> gave_up s \<or> renewing s \<and> \<not> pubsub s \<and> \<not> down s \<or>
     \<not> renewing s \<and> (if pubsub s then down s \<or> chans s = subscribed_to s else subscribed_to s = {} \<and> \<not> down s)"

text \<open>Results published while their key was waited for are handed on, or will be: they are in the inbox, or the next renewal finds them.\<close>

definition accounted :: "rc \<Rightarrow> bool" where
  "accounted s \<longleftrightarrow> gave_up s \<or> due s \<subseteq> stored s \<and> (down s \<or> due s \<inter> subscribed_to s \<subseteq> delivered s \<union> set (inbox s) \<union> late s)"

lemma renewing_iff: "locked_inv s \<Longrightarrow> pc s t = Resubscribing b \<Longrightarrow> renewing s"
  using holder(3) [of s t b] by (simp add: renewing_def)

lemma not_renewing: "locked_inv s \<Longrightarrow> pc s t = Holding \<Longrightarrow> \<not> renewing s" "locked_inv s \<Longrightarrow> pc s t = Flushing \<Longrightarrow> \<not> renewing s"
  using holder(1,2) [of s t] by (simp_all add: renewing_def)

lemma renewing_none: "lck s = None \<Longrightarrow> \<not> renewing s"
  by (simp add: renewing_def)

lemma renewing_cong: "lck s' = lck s \<Longrightarrow> pc s' = pc s \<Longrightarrow> renewing s' = renewing s"
  by (simp only: renewing_def)

lemma in_step_step:
  assumes "locked_inv s" and "in_step s" and "rc_exec e s = Some s'" and "locked_inv s'"
  shows "in_step s'"
proof (cases e)
  case (Enter t)
  then show ?thesis using assms renewing_none [of s] by (auto simp: in_step_def renewing_def split: if_splits)
next
  case (Consume t k)
  then have s': "s' = (if k \<in> subscribed_to s then want k (start s) else subscribe k (want k (start s)))" and "pc s t = Holding"
    using assms(3) by (simp_all split: if_splits)
  then have "\<not> renewing s" "\<not> renewing s'" using not_renewing [OF assms(1), of t] renewing_cong [of s' s] by simp_all
  then show ?thesis using assms(2) by (cases "k \<in> subscribed_to s"; cases "pubsub s") (auto simp: in_step_def s' insert_absorb)
next
  case (ConsumeError t k)
  then have s': "s' = go t (Resubscribing False) (fetch_missed (want k (start s)))" using assms(3) by (simp split: if_splits)
  then have "renewing s'" by (intro renewing_iff [OF assms(4), of t False]) simp
  then show ?thesis by (simp add: in_step_def s')
next
  case (ReadMessage t)
  then obtain k ks where s': "s' = on_state_change {k} (s\<lparr>inbox := ks\<rparr>)" and "pc s t = Holding" using assms(3) by (auto split: if_splits list.splits)
  then have "\<not> renewing s" "\<not> renewing s'" using not_renewing [OF assms(1), of t] renewing_cong [of s' s] by simp_all
  then show ?thesis using assms(2) by (simp add: in_step_def s' split: if_splits)
next
  case (ReadError t)
  then have s': "s' = go t (Resubscribing False) (fetch_missed s)" using assms(3) by (simp split: if_splits)
  then have "renewing s'" by (intro renewing_iff [OF assms(4), of t False]) simp
  then show ?thesis by (simp add: in_step_def s')
next
  case (Resubscribe t)
  then obtain b where b: "pc s t = Resubscribing b" "s' = go t (if b then Flushing else Holding) (resubscribe s)" using assms(3) by (auto split: pc.splits)
  then have "pc s' t = Holding \<or> pc s' t = Flushing" by auto
  then have "\<not> renewing s'" using not_renewing [OF assms(4)] by blast
  then show ?thesis using assms(2) renewing_iff [OF assms(1) b(1)] by (auto simp: in_step_def b(2))
next
  case (GiveUp t)
  then show ?thesis using assms(3) by (auto simp: in_step_def split: pc.splits)
next
  case (CancelInside t k)
  then show ?thesis using assms(2,3) by (auto simp: in_step_def renewing_def split: if_splits)
next
  case (Cancel t k)
  then show ?thesis using assms(2,3) by (auto simp: in_step_def renewing_def split: if_splits option.splits)
next
  case (Leave t)
  then show ?thesis using assms(2,3) not_renewing [OF assms(1), of t] by (auto simp: in_step_def renewing_def split: if_splits)
next
  case (Return t)
  then show ?thesis using assms(2,3) by (auto simp: in_step_def renewing_def split: if_splits option.splits)
next
  case (StartFlush t)
  then show ?thesis using assms renewing_none [of s] by (auto simp: in_step_def renewing_def split: if_splits)
next
  case (Unsubscribe t k)
  then have s': "s' = (if k \<in> subscribed_to s \<and> pubsub s then (unwant k s)\<lparr>chans := chans s - {k}\<rparr> else unwant k s)" and "pc s t = Flushing"
    using assms(3) by (auto split: if_splits)
  then have "\<not> renewing s" "\<not> renewing s'" using not_renewing [OF assms(1), of t] renewing_cong [of s' s] by simp_all
  then show ?thesis using assms(2) by (cases "pubsub s"; cases "k \<in> subscribed_to s") (auto simp: in_step_def s')
next
  case (UnsubscribeError t k)
  then have s': "s' = go t (Resubscribing True) (fetch_missed (unwant k s))" using assms(3) by (simp split: if_splits)
  then have "renewing s'" by (intro renewing_iff [OF assms(4), of t True]) simp
  then show ?thesis by (simp add: in_step_def s')
next
  case (EndFlush t)
  then show ?thesis using assms(2,3) not_renewing [OF assms(1), of t] by (auto simp: in_step_def renewing_def split: if_splits)
next
  case (Publish k)
  then show ?thesis using assms(2,3) by (auto simp: in_step_def renewing_def)
next
  case Disconnect
  then show ?thesis using assms(2,3) by (auto simp: in_step_def renewing_def split: if_splits)
qed

text \<open>How an event changes what is waited for and what is known of it: the cases that matter for \<^const>\<open>accounted\<close>.\<close>

lemma accounted_same:
  assumes "accounted s" and "due s' = due s" "stored s' = stored s" "down s' = down s" "gave_up s' = gave_up s" "late s' = late s"
    and "subscribed_to s' \<subseteq> subscribed_to s" and "delivered s \<union> set (inbox s) \<subseteq> delivered s' \<union> set (inbox s')"
  shows "accounted s'"
  using assms unfolding accounted_def by auto

lemma accounted_fetched: "accounted s \<Longrightarrow> accounted (go t p (fetch_missed s))"
  unfolding accounted_def by auto

lemma accounted_start: "in_step s \<Longrightarrow> \<not> renewing s \<Longrightarrow> accounted s \<Longrightarrow> accounted (start s)"
  unfolding accounted_def in_step_def by (cases "pubsub s") auto

lemma accounted_want: "accounted s \<Longrightarrow> accounted (want k s)"
  unfolding accounted_def by (cases "k \<in> subscribed_to s") auto

lemma accounted_subscribe: "accounted s \<Longrightarrow> accounted (subscribe k s)"
  unfolding accounted_def by auto

lemma accounted_step:
  assumes inv: "locked_inv s" "in_step s" "accounted s" and e: "rc_exec e s = Some s'"
  shows "accounted s'"
proof (cases e)
  case (Consume t k)
  then have s': "s' = (if k \<in> subscribed_to s then want k (start s) else subscribe k (want k (start s)))" and "\<not> renewing s"
    using e not_renewing [OF inv(1), of t] by (simp_all split: if_splits)
  then show ?thesis using accounted_start [OF inv(2) _ inv(3)] accounted_want accounted_subscribe by simp
next
  case (ConsumeError t k)
  then have s': "s' = go t (Resubscribing False) (fetch_missed (want k (start s)))" and "\<not> renewing s"
    using e not_renewing [OF inv(1), of t] by (simp_all split: if_splits)
  then show ?thesis using accounted_start [OF inv(2) _ inv(3)] accounted_want accounted_fetched by simp
next
  case (ReadMessage t)
  then obtain k ks where "inbox s = k # ks" "s' = on_state_change {k} (s\<lparr>inbox := ks\<rparr>)" using e by (auto split: if_splits list.splits)
  then show ?thesis by (intro accounted_same [OF inv(3)]) auto
next
  case (ReadError t)
  then show ?thesis using e accounted_fetched [OF inv(3)] by (auto split: if_splits)
next
  case (Resubscribe t)
  then obtain p where "s' = go t p (resubscribe s)" using e by (auto split: pc.splits)
  then show ?thesis by (intro accounted_same [OF inv(3)]) auto
next
  case (GiveUp t)
  then show ?thesis using e by (auto simp: accounted_def split: pc.splits)
next
  case (Unsubscribe t k)
  then show ?thesis using e by (intro accounted_same [OF inv(3)]) (auto split: if_splits)
next
  case (UnsubscribeError t k)
  then have "s' = go t (Resubscribing True) (fetch_missed (unwant k s))" using e by (simp split: if_splits)
  moreover have "accounted (unwant k s)" by (intro accounted_same [OF inv(3)]) auto
  ultimately show ?thesis using accounted_fetched by simp
next
  case (Publish k)
  then have "s' = s\<lparr>stored := insert k (stored s), inbox := (if k \<in> chans s then inbox s @ [k] else inbox s),
     due := (if k \<in> subscribed_to s then insert k (due s) else due s), late := (if renewing s then insert k (late s) else late s)\<rparr>" using e by simp
  then show ?thesis using inv(2,3)
    by (cases "renewing s"; cases "k \<in> subscribed_to s"; cases "k \<in> chans s"; cases "pubsub s") (auto simp: accounted_def in_step_def)
next
  case Disconnect
  then show ?thesis using e inv(3) by (auto simp: accounted_def split: if_splits)
qed (use e in \<open>(intro accounted_same [OF inv(3)]; auto split: if_splits)+\<close>)

definition rc_inv :: "rc \<Rightarrow> bool" where
  "rc_inv s \<longleftrightarrow> locked_inv s \<and> attended s \<and> in_step s \<and> accounted s"

interpretation consumer: invariant_system rc_start rc_step rc_inv
proof unfold_locales
  fix s assume "rc_start s"
  then show "rc_inv s" by (auto simp: rc_start_def rc_inv_def new_rc_def locked_inv_def attended_def in_step_def accounted_def renewing_def)
next
  fix s e s' assume "rc_inv s" and "rc_step s e s'"
  then show "rc_inv s'" using locked_step attended_step in_step_step accounted_step unfolding rc_inv_def rc_step_def by metis
qed

section \<open>Properties\<close>

text \<open>
  the connection is used by one thread at a time: at most one thread is inside a locked block, emptying the pending keys or renewing the connection.
\<close>

theorem one_thread_uses_connection:
  assumes "reach rc_start rc_step s" and "inside (pc s t)" and "inside (pc s u)"
  shows "t = u"
  using consumer.inv_reach [OF assms(1)] assms(2,3) by (auto simp: rc_inv_def locked_inv_def)

text \<open>
  C33: no request to stop listening is lost, although none of them waits for the lock: when all threads are outside, no key is pending and the server
  sends messages for exactly the keys waited for, unless the connection was lost meanwhile or its renewal was given up.
\<close>

theorem no_unsubscribe_lost:
  assumes "reach rc_start rc_step s" and "\<forall>t. pc s t = Idle" and "\<not> gave_up s"
  shows "pending_unsubscribe s = {} \<and> (pubsub s \<and> \<not> down s \<longrightarrow> chans s = subscribed_to s) \<and> (\<not> pubsub s \<longrightarrow> subscribed_to s = {})"
proof -
  have inv: "locked_inv s" "attended s" "in_step s" using consumer.inv_reach [OF assms(1)] by (simp_all add: rc_inv_def)
  have "lck s = None" using inv(1) assms(2) by (cases "lck s") (auto simp: locked_inv_def inside_def)
  then have "\<not> renewing s" by (rule renewing_none)
  then show ?thesis using inv(2,3) assms(2,3) \<open>lck s = None\<close> by (auto simp: attended_def in_step_def split: if_splits)
qed

text \<open>
  no result is missed: one published while its key is waited for was handed on or is in the inbox, unless the connection is lost and not yet renewed, renewal was
  given up, or it was published during a renewal.
\<close>

theorem published_result_not_missed:
  assumes "reach rc_start rc_step s" and "\<not> gave_up s" and "\<not> down s" and "k \<in> due s" and "k \<in> subscribed_to s" and "k \<notin> late s"
  shows "k \<in> delivered s \<or> k \<in> set (inbox s)"
  using consumer.inv_reach [OF assms(1)] assms(2-6) by (auto simp: rc_inv_def accounted_def)

definition sample_run :: "ev list" where
  "sample_run = [Enter 0, Consume 0 ''a'', Consume 0 ''b'', Cancel 1 ''a'', Return 1, Leave 0, Publish ''b'', StartFlush 0, Unsubscribe 0 ''a'', EndFlush 0, Return 0]"

lemma sample_run_result:
  "map_option (\<lambda>s. (pending_unsubscribe s, chans s, subscribed_to s, inbox s, delivered s, lck s)) (run_rc sample_run (new_rc {})) =
     Some ({}, {''b''}, {''b''}, [''b''], {}, None)"
  by code_simp

lemma sample_run_flags:
  "map_option (\<lambda>s. (gave_up s, down s, pubsub s, due s, late s, map (pc s) [0, 1])) (run_rc sample_run (new_rc {})) = Some (False, False, True, {''b''}, {}, [Idle, Idle])"
  by code_simp

lemma sample_run_idle: "map_option pc (run_rc sample_run (new_rc {})) = Some (\<lambda>t. Idle)"
  by (simp add: sample_run_def new_rc_def ops fun_eq_iff)

lemma sample_run_reach:
  obtains s where "run_rc sample_run (new_rc {}) = Some s" "reach rc_start rc_step s" "\<forall>t. pc s t = Idle"
proof -
  obtain s where s: "run_rc sample_run (new_rc {}) = Some s" "pc s = (\<lambda>t. Idle)" using sample_run_idle by auto
  moreover have "reach rc_start rc_step (new_rc {})" by (rule reach_init) (auto simp: rc_start_def)
  ultimately show ?thesis using that run_rc_reach by auto
qed

theorem no_unsubscribe_lost_witness:
  "\<exists>s. run_rc sample_run (new_rc {}) = Some s \<and> pending_unsubscribe s = {} \<and> chans s = subscribed_to s \<and> subscribed_to s = {''b''}"
proof -
  obtain s where s: "run_rc sample_run (new_rc {}) = Some s" "reach rc_start rc_step s" "\<forall>t. pc s t = Idle" by (rule sample_run_reach)
  show ?thesis using no_unsubscribe_lost [OF s(2,3)] s(1) sample_run_result sample_run_flags by auto
qed

theorem published_result_not_missed_witness:
  "\<exists>s. run_rc sample_run (new_rc {}) = Some s \<and> (''b'' \<in> delivered s \<or> ''b'' \<in> set (inbox s))"
proof -
  obtain s where s: "run_rc sample_run (new_rc {}) = Some s" "reach rc_start rc_step s" by (rule sample_run_reach)
  show ?thesis using published_result_not_missed [OF s(2), of "''b''"] s(1) sample_run_result sample_run_flags by auto
qed

theorem one_thread_uses_connection_witness:
  "\<exists>s. run_rc [Enter 0, Consume 0 ''a'', Cancel 1 ''a''] (new_rc {}) = Some s \<and> (\<forall>u. inside (pc s u) \<longrightarrow> u = 0)"
proof -
  obtain s where s: "run_rc [Enter 0, Consume 0 ''a'', Cancel 1 ''a''] (new_rc {}) = Some s" "pc s 0 = Holding" by (simp add: new_rc_def ops)
  moreover have "reach rc_start rc_step (new_rc {})" by (rule reach_init) (auto simp: rc_start_def)
  ultimately have "reach rc_start rc_step s" using run_rc_reach by blast
  then show ?thesis using one_thread_uses_connection [of s _ 0] s by auto
qed

text \<open>
  the exception of the statement before is real. While a connection is renewed, results are read first and channels subscribed to afterwards; a result published in
  between is neither read nor sent as a message, and the one who waits for it is not told, although the connection is up and the channel is subscribed to.
\<close>

theorem result_missed_during_renewal:
  "map_option (\<lambda>s. (chans s, subscribed_to s, stored s, delivered s, inbox s, down s, gave_up s, pc s 0))
     (run_rc [Enter 0, Consume 0 ''a'', Disconnect, ReadError 0, Publish ''a'', Resubscribe 0, Leave 0, Return 0] (new_rc {})) =
   Some ({''a''}, {''a''}, {''a''}, {}, [], False, False, Idle)"
  by code_simp

text \<open>
  after the renewal of a connection was given up, the keys waited for are still listed but the connection is none. The next key makes a new connection which subscribes to
  this key only; for the others nothing is subscribed, even when they are asked for again.
\<close>

theorem giving_up_loses_subscriptions:
  "map_option (\<lambda>s. (chans s, subscribed_to s, pubsub s, down s))
     (run_rc [Enter 0, Consume 0 ''a'', ReadError 0, GiveUp 0, Return 0, Enter 0, Consume 0 ''b'', Consume 0 ''a'', Leave 0, Return 0] (new_rc {})) =
   Some ({''b''}, {''a'', ''b''}, True, False)"
  by code_simp

end
