(* ===== verification/App.thy ===== *)
theory App
  imports Prelude
begin

text \<open>
  Tasks of an application, \<open>Celery\<close> of \<open>celery.app.base\<close>: the decorator that declares a task, lazily by default as a proxy that is evaluated on first use
  (\<open>PromiseProxy\<close> of \<open>celery.local\<close>), finalisation, which evaluates what was declared and creates the shared tasks (\<open>celery._state\<close>), the registration of
  classes, and the registry of names (\<open>celery.app.registry\<close>).

  Functions and tasks have an identity. Options of a task beside its name are one value. What the creation of a task class may raise and the modules loaded are
  arguments. The callbacks for finalisation, a set in the source, come in the order of the list.
\<close>

section \<open>State\<close>

record func =
  fn_id :: nat
  fn_name :: string
  fn_module :: string

record decl =
  d_fun :: func
  d_name :: "string option"
  d_opts :: nat

record task =
  t_ident :: nat
  t_name :: string
  t_fun :: "func option"
  t_opts :: nat
  t_bound :: "nat option"

record promise =
  pr_app :: nat
  pr_decl :: decl
  pr_thing :: "nat option"

record app =
  main :: string
  autofinalize :: bool
  finalized :: bool
  pending :: "nat list"
  tasks :: "(string, task) dict"
  warned :: "string list"
  finalize_signals :: nat

record world =
  apps :: "nat \<Rightarrow> app"
  finalizers :: "decl list"
  promises :: "promise list"
  next_task :: nat

record menv =
  modules :: "string \<Rightarrow> (string \<times> bool) option"
  creation_raises :: "decl \<Rightarrow> exn option"

definition upd_app :: "nat \<Rightarrow> (app \<Rightarrow> app) \<Rightarrow> world \<Rightarrow> world" where
  "upd_app a f w = w\<lparr>apps := (apps w)(a := f (apps w a))\<rparr>"

section \<open>Names\<close>

definition main_module :: string where
  "main_module = ''__main__''"

text \<open>A loaded module counts with its own name, or as the main one if it is the file of the main process.\<close>

definition gen_task_name :: "menv \<Rightarrow> string \<Rightarrow> string \<Rightarrow> string \<Rightarrow> string" where
  "gen_task_name env mn name modl =
     (let m0 = (if modl = [] then main_module else modl);
          m = (case modules env m0 of None \<Rightarrow> m0 | Some (own, is_main_file) \<Rightarrow> if is_main_file then main_module else own) in
      if m = main_module \<and> mn \<noteq> [] then mn @ ''.'' @ name
      else if m = [] then name else if name = [] then m else m @ ''.'' @ name)"

definition name_of :: "menv \<Rightarrow> nat \<Rightarrow> decl \<Rightarrow> world \<Rightarrow> string" where
  "name_of env a d w = (case d_name d of
     Some (ch # cs) \<Rightarrow> ch # cs
   | _ \<Rightarrow> gen_task_name env (main (apps w a)) (fn_name (d_fun d)) (fn_module (d_fun d)))"

section \<open>Creating tasks\<close>

text \<open>There is one warning for each name.\<close>

definition warn_duplicate_task_name :: "nat \<Rightarrow> string \<Rightarrow> world \<Rightarrow> world" where
  "warn_duplicate_task_name a name w = (if name \<in> set (warned (apps w a)) then w else upd_app a (\<lambda>p. p\<lparr>warned := warned p @ [name]\<rparr>) w)"

definition warn_if_duplicate_task_name :: "nat \<Rightarrow> task \<Rightarrow> func \<Rightarrow> string \<Rightarrow> world \<Rightarrow> world" where
  "warn_if_duplicate_task_name a t f name w = (case t_fun t of
     None \<Rightarrow> w
   | Some g \<Rightarrow> if fn_id g = fn_id f then w else warn_duplicate_task_name a name w)"

definition new_task :: "nat \<Rightarrow> string \<Rightarrow> decl \<Rightarrow> world \<Rightarrow> task" where
  "new_task a name d w = \<lparr>t_ident = next_task w, t_name = name, t_fun = Some (d_fun d), t_opts = d_opts d, t_bound = Some a\<rparr>"

definition task_from_fun :: "menv \<Rightarrow> nat \<Rightarrow> decl \<Rightarrow> world \<Rightarrow> task result \<times> world" where
  "task_from_fun env a d w =
     (if \<not> finalized (apps w a) \<and> \<not> autofinalize (apps w a) then (Inl RuntimeError, w)
      else let name = name_of env a d w in
        case dict_get (tasks (apps w a)) name of
          Some t \<Rightarrow> (Inr t, warn_if_duplicate_task_name a t (d_fun d) name w)
        | None \<Rightarrow> (case creation_raises env d of
            Some e \<Rightarrow> (Inl e, w)
          | None \<Rightarrow> (let t = new_task a name d w in
              (Inr t, upd_app a (\<lambda>p. p\<lparr>tasks := dict_set name t (tasks p)\<rparr>) (w\<lparr>next_task := Suc (next_task w)\<rparr>)))))"

section \<open>Proxies\<close>

definition evaluate :: "menv \<Rightarrow> nat \<Rightarrow> world \<Rightarrow> nat result \<times> world" where
  "evaluate env i w =
     (let p = promises w ! i in
      case pr_thing p of
        Some t \<Rightarrow> (Inr t, w)
      | None \<Rightarrow> (case task_from_fun env (pr_app p) (pr_decl p) w of
          (Inl e, w1) \<Rightarrow> (Inl e, w1)
        | (Inr t, w1) \<Rightarrow> (Inr (t_ident t), w1\<lparr>promises := (promises w1)[i := p\<lparr>pr_thing := Some (t_ident t)\<rparr>]\<rparr>)))"

text \<open>\<open>maybe_evaluate\<close> takes an \<open>AttributeError\<close> for the sign of an object that is no promise.\<close>

definition maybe_evaluate :: "menv \<Rightarrow> nat \<Rightarrow> world \<Rightarrow> exn option \<times> world" where
  "maybe_evaluate env i w = (case evaluate env i w of
     (Inr t, w1) \<Rightarrow> (None, w1)
   | (Inl AttributeError, w1) \<Rightarrow> (None, w1)
   | (Inl e, w1) \<Rightarrow> (Some e, w1))"

datatype declared = Task task | Proxy nat

text \<open>The decorator.\<close>

definition app_task :: "menv \<Rightarrow> nat \<Rightarrow> bool \<Rightarrow> bool \<Rightarrow> decl \<Rightarrow> world \<Rightarrow> declared result \<times> world" where
  "app_task env a is_shared lazy d w =
     (let w1 = (if is_shared then w\<lparr>finalizers := finalizers w @ [d]\<rparr> else w) in
      if \<not> lazy \<or> finalized (apps w1 a)
      then (case task_from_fun env a d w1 of (Inl e, w2) \<Rightarrow> (Inl e, w2) | (Inr t, w2) \<Rightarrow> (Inr (Task t), w2))
      else (Inr (Proxy (length (promises w1))),
            upd_app a (\<lambda>p. p\<lparr>pending := pending p @ [length (promises w1)]\<rparr>)
              (w1\<lparr>promises := promises w1 @ [\<lparr>pr_app = a, pr_decl = d, pr_thing = None\<rparr>]\<rparr>)))"

section \<open>Finalisation\<close>

fun announce_app_finalized :: "menv \<Rightarrow> nat \<Rightarrow> decl list \<Rightarrow> world \<Rightarrow> exn option \<times> world" where
  "announce_app_finalized env a [] w = (None, w)"
| "announce_app_finalized env a (d # ds) w = (case task_from_fun env a d w of
     (Inl e, w1) \<Rightarrow> (Some e, w1)
   | (Inr t, w1) \<Rightarrow> announce_app_finalized env a ds w1)"

fun evaluate_pending :: "menv \<Rightarrow> nat \<Rightarrow> nat list \<Rightarrow> world \<Rightarrow> exn option \<times> world" where
  "evaluate_pending env a [] w = (None, w)"
| "evaluate_pending env a (i # is) w = (case maybe_evaluate env i (upd_app a (\<lambda>p. p\<lparr>pending := is\<rparr>) w) of
     (Some e, w1) \<Rightarrow> (Some e, w1)
   | (None, w1) \<Rightarrow> evaluate_pending env a is w1)"

definition bind_all :: "nat \<Rightarrow> world \<Rightarrow> world" where
  "bind_all a = upd_app a (\<lambda>p. p\<lparr>tasks := map (\<lambda>(n, t). (n, t\<lparr>t_bound := Some a\<rparr>)) (tasks p)\<rparr>)"

definition finalize :: "menv \<Rightarrow> bool \<Rightarrow> nat \<Rightarrow> world \<Rightarrow> exn option \<times> world" where
  "finalize env auto a w =
     (if finalized (apps w a) then (None, w)
      else if auto \<and> \<not> autofinalize (apps w a) then (Some RuntimeError, w)
      else (case announce_app_finalized env a (finalizers w) (upd_app a (\<lambda>p. p\<lparr>finalized := True\<rparr>) w) of
          (Some e, w1) \<Rightarrow> (Some e, w1)
        | (None, w1) \<Rightarrow> (case evaluate_pending env a (pending (apps w1 a)) w1 of
            (Some e, w2) \<Rightarrow> (Some e, w2)
          | (None, w2) \<Rightarrow> (None, upd_app a (\<lambda>p. p\<lparr>finalize_signals := Suc (finalize_signals p)\<rparr>) (bind_all a w2)))))"

section \<open>Classes and the registry\<close>

definition register_task :: "menv \<Rightarrow> nat \<Rightarrow> task \<Rightarrow> string \<Rightarrow> string \<Rightarrow> world \<Rightarrow> exn option \<times> world" where
  "register_task env a t cls_name cls_module w =
     (let t1 = (if t_name t = [] then t\<lparr>t_name := gen_task_name env (main (apps w a)) cls_name cls_module\<rparr> else t) in
      case finalize env True a w of
        (Some e, w1) \<Rightarrow> (Some e, w1)
      | (None, w1) \<Rightarrow>
          let w2 = (case dict_get (tasks (apps w1 a)) (t_name t1) of
                None \<Rightarrow> w1
              | Some t0 \<Rightarrow> if t_ident t0 = t_ident t1 then w1 else warn_duplicate_task_name a (t_name t1) w1) in
          (None, upd_app a (\<lambda>p. p\<lparr>tasks := dict_set (t_name t1) (t1\<lparr>t_bound := Some a\<rparr>) (tasks p)\<rparr>) w2))"

definition get_task :: "menv \<Rightarrow> nat \<Rightarrow> string \<Rightarrow> world \<Rightarrow> task result \<times> world" where
  "get_task env a name w = (case finalize env True a w of
     (Some e, w1) \<Rightarrow> (Inl e, w1)
   | (None, w1) \<Rightarrow> ((case dict_get (tasks (apps w1 a)) name of None \<Rightarrow> Inl KeyError | Some t \<Rightarrow> Inr t), w1))"

definition unregister :: "string \<Rightarrow> (string, task) dict \<Rightarrow> (string, task) dict result" where
  "unregister name reg = (if dict_get reg name = None then Inl KeyError else Inr (dict_del name reg))"

section \<open>The registry only grows\<close>

text \<open>The same task: everything but the application it is bound to.\<close>

definition same_task :: "task \<Rightarrow> task \<Rightarrow> bool" where
  "same_task t t' \<longleftrightarrow> t_ident t' = t_ident t \<and> t_name t' = t_name t \<and> t_fun t' = t_fun t \<and> t_opts t' = t_opts t"

definition grows :: "world \<Rightarrow> world \<Rightarrow> bool" where
  "grows w w' \<longleftrightarrow>
     (\<forall>a. main (apps w' a) = main (apps w a) \<and> autofinalize (apps w' a) = autofinalize (apps w a) \<and> (finalized (apps w a) \<longrightarrow> finalized (apps w' a))) \<and>
     (\<forall>a n t. dict_get (tasks (apps w a)) n = Some t \<longrightarrow> (\<exists>t'. dict_get (tasks (apps w' a)) n = Some t' \<and> same_task t t')) \<and>
     length (promises w) \<le> length (promises w') \<and>
     (\<forall>i < length (promises w). pr_app (promises w' ! i) = pr_app (promises w ! i) \<and> pr_decl (promises w' ! i) = pr_decl (promises w ! i) \<and>
        (\<forall>x. pr_thing (promises w ! i) = Some x \<longrightarrow> pr_thing (promises w' ! i) = Some x))"

lemma same_task_refl [simp]: "same_task t t"
  by (simp add: same_task_def)

lemma same_task_trans: "same_task t u \<Longrightarrow> same_task u v \<Longrightarrow> same_task t v"
  by (simp add: same_task_def)

lemma world_grows_refl [simp]: "grows w w"
  by (auto simp: grows_def)

lemma world_grows_trans: "grows u v \<Longrightarrow> grows v w \<Longrightarrow> grows u w"
  unfolding grows_def by (auto, (meson same_task_trans)+)

lemma grows_name: "grows w w' \<Longrightarrow> name_of env a d w' = name_of env a d w"
  by (auto simp: grows_def name_of_def split: option.split list.split)

lemma grows_upd:
  assumes "main (f (apps w a)) = main (apps w a)" "autofinalize (f (apps w a)) = autofinalize (apps w a)" "finalized (apps w a) \<longrightarrow> finalized (f (apps w a))"
    and "\<And>n t. dict_get (tasks (apps w a)) n = Some t \<Longrightarrow> \<exists>t'. dict_get (tasks (f (apps w a))) n = Some t' \<and> same_task t t'"
  shows "grows w (upd_app a f w)"
  using assms unfolding grows_def upd_app_def by auto

lemma grows_warn [simp]: "grows w (warn_duplicate_task_name a n w)" "grows w (warn_if_duplicate_task_name a t f n w)"
proof -
  show g: "grows w (warn_duplicate_task_name a n w)"
    unfolding warn_duplicate_task_name_def by (auto intro!: grows_upd)
  show "grows w (warn_if_duplicate_task_name a t f n w)" using g by (auto simp: warn_if_duplicate_task_name_def split: option.split)
qed

lemma grows_counter: "grows (w\<lparr>next_task := n\<rparr>) v \<longleftrightarrow> grows w v" "grows (w\<lparr>finalizers := fs\<rparr>) v \<longleftrightarrow> grows w v"
  by (simp_all add: grows_def)

lemma grows_task_from_fun: "grows w (snd (task_from_fun env a d w))"
proof (cases "dict_get (tasks (apps w a)) (name_of env a d w)")
  case None
  let ?n = "name_of env a d w"
  have "grows (w\<lparr>next_task := Suc (next_task w)\<rparr>) (upd_app a (\<lambda>p. p\<lparr>tasks := dict_set ?n (new_task a ?n d w) (tasks p)\<rparr>) (w\<lparr>next_task := Suc (next_task w)\<rparr>))"
    using None by (intro grows_upd) (auto simp: dict_simps)
  then show ?thesis using None by (auto simp: task_from_fun_def Let_def grows_counter split: option.split)
next
  case (Some t)
  then show ?thesis by (simp add: task_from_fun_def Let_def)
qed

lemma grows_evaluate: "grows w (snd (evaluate env i w))"
proof (cases "pr_thing (promises w ! i)")
  case None
  obtain r w1 where t: "task_from_fun env (pr_app (promises w ! i)) (pr_decl (promises w ! i)) w = (r, w1)" by fastforce
  have g: "grows w w1" using grows_task_from_fun [of w env "pr_app (promises w ! i)" "pr_decl (promises w ! i)"] t by simp
  have "promises w1 = promises w"
    using t by (auto simp: task_from_fun_def warn_if_duplicate_task_name_def warn_duplicate_task_name_def upd_app_def Let_def split: option.splits if_splits)
  then have "grows w1 (w1\<lparr>promises := (promises w1)[i := (promises w ! i)\<lparr>pr_thing := x\<rparr>]\<rparr>)" for x
    using None by (cases "i < length (promises w)") (auto simp: grows_def nth_list_update)
  then show ?thesis using g world_grows_trans None t by (auto simp: evaluate_def Let_def split: sum.split)
qed (simp add: evaluate_def)

lemma grows_maybe_evaluate: "grows w (snd (maybe_evaluate env i w))"
  using grows_evaluate [of w env i] by (auto simp: maybe_evaluate_def split: prod.split sum.split exn.split)

lemma grows_announce: "grows w (snd (announce_app_finalized env a ds w))"
proof (induction ds arbitrary: w)
  case (Cons d ds)
  obtain r w1 where t: "task_from_fun env a d w = (r, w1)" by fastforce
  then have "grows w w1" using grows_task_from_fun [of w env a d] by simp
  then show ?case using t Cons [of w1] world_grows_trans by (auto split: sum.split)
qed simp

lemma grows_evaluate_pending: "grows w (snd (evaluate_pending env a is w))"
proof (induction "is" arbitrary: w)
  case (Cons i "is")
  let ?w = "upd_app a (\<lambda>p. p\<lparr>pending := is\<rparr>) w"
  obtain r w1 where t: "maybe_evaluate env i ?w = (r, w1)" by fastforce
  have "grows w ?w" by (intro grows_upd) auto
  moreover have "grows ?w w1" using grows_maybe_evaluate [of ?w env i] t by simp
  ultimately have "grows w w1" by (rule world_grows_trans)
  then show ?case using t Cons [of w1] world_grows_trans by (auto split: option.split)
qed simp

lemma dict_get_bind: "dict_get (map (\<lambda>(n, t). (n, f t)) d) n = map_option f (dict_get d n)"
  by (induction d) auto

lemma grows_bind: "grows w (bind_all a w)"
  unfolding bind_all_def by (intro grows_upd) (auto simp: dict_get_bind same_task_def)

lemma grows_finalize: "grows w (snd (finalize env auto a w))"
proof -
  let ?w = "upd_app a (\<lambda>p. p\<lparr>finalized := True\<rparr>) w"
  obtain e1 w1 where 1: "announce_app_finalized env a (finalizers w) ?w = (e1, w1)" by fastforce
  obtain e2 w2 where 2: "evaluate_pending env a (pending (apps w1 a)) w1 = (e2, w2)" by fastforce
  let ?w3 = "upd_app a (\<lambda>p. p\<lparr>finalize_signals := Suc (finalize_signals p)\<rparr>) (bind_all a w2)"
  have "grows w ?w" by (intro grows_upd) auto
  moreover have "grows ?w w1" using grows_announce [of ?w env a "finalizers w"] 1 by simp
  moreover have "grows w1 w2" using grows_evaluate_pending [of w1 env a "pending (apps w1 a)"] 2 by simp
  moreover have "grows w2 ?w3" by (rule world_grows_trans [OF grows_bind [of w2 a]]) (intro grows_upd, auto)
  ultimately have "grows w w1" "grows w w2" "grows w ?w3" using world_grows_trans by blast+
  then show ?thesis using 1 2 by (simp add: finalize_def split: option.split)
qed

lemma grows_app_task: "grows w (snd (app_task env a sh lazy d w))"
proof -
  let ?w = "if sh then w\<lparr>finalizers := finalizers w @ [d]\<rparr> else w"
  have g: "grows ?w v \<longleftrightarrow> grows w v" for v by (simp add: grows_counter)
  have "grows ?w (snd (task_from_fun env a d ?w))" by (rule grows_task_from_fun)
  moreover have "grows ?w (upd_app a (\<lambda>p. p\<lparr>pending := pending p @ [length (promises ?w)]\<rparr>)
      (?w\<lparr>promises := promises ?w @ [\<lparr>pr_app = a, pr_decl = d, pr_thing = None\<rparr>]\<rparr>))"
    by (auto simp: grows_def upd_app_def nth_append)
  ultimately show ?thesis unfolding g by (auto simp: app_task_def Let_def split: prod.split sum.split)
qed

section \<open>Calls\<close>

datatype call = Declare nat bool bool decl | Use nat | Finalize bool nat

fun exec :: "menv \<Rightarrow> call \<Rightarrow> world \<Rightarrow> world" where
  "exec env (Declare a sh lazy d) w = snd (app_task env a sh lazy d w)"
| "exec env (Use i) w = (if i < length (promises w) then snd (evaluate env i w) else w)"
| "exec env (Finalize auto a) w = snd (finalize env auto a w)"

lemma grows_exec: "grows w (exec env c w)"
  by (cases c) (simp_all add: grows_app_task grows_evaluate grows_finalize)

lemma grows_calls: "grows w (fold (exec env) cs w)"
proof (induction cs arbitrary: w)
  case (Cons c cs)
  show ?case using world_grows_trans [OF grows_exec Cons] by simp
qed simp

text \<open>
  a name belongs to the task registered first: whatever is declared, used or finalised later, on whatever applications, the registry keeps the same task under it.
\<close>

theorem first_registration_wins:
  assumes "dict_get (tasks (apps w a)) name = Some t"
  shows "\<exists>t'. dict_get (tasks (apps (fold (exec env) cs w) a)) name = Some t' \<and> t_ident t' = t_ident t \<and> t_fun t' = t_fun t \<and> t_opts t' = t_opts t"
  using grows_calls [of w env cs] assms by (fastforce simp: grows_def same_task_def)

section \<open>Proxies stand for registered tasks\<close>

definition registered :: "menv \<Rightarrow> nat \<Rightarrow> decl \<Rightarrow> nat \<Rightarrow> world \<Rightarrow> bool" where
  "registered env a d x w \<longleftrightarrow> (\<exists>t. dict_get (tasks (apps w a)) (name_of env a d w) = Some t \<and> t_ident t = x)"

lemma name_of_cong: "main (apps w' a) = main (apps w a) \<Longrightarrow> name_of env a d w' = name_of env a d w"
  by (simp only: name_of_def)

lemma registered_promises [simp]: "registered env a d x (w\<lparr>promises := ps\<rparr>) = registered env a d x w"
  using name_of_cong [of "w\<lparr>promises := ps\<rparr>" a w env d] by (simp add: registered_def)

lemma registered_grows: "registered env a d x w \<Longrightarrow> grows w w' \<Longrightarrow> registered env a d x w'"
  unfolding registered_def using grows_name [of w w' env a d] by (fastforce simp: grows_def same_task_def)

text \<open>The parts of the state that creating a task leaves alone.\<close>

definition calm :: "world \<Rightarrow> world \<Rightarrow> bool" where
  "calm w w' \<longleftrightarrow> promises w' = promises w \<and> finalizers w' = finalizers w \<and> (\<forall>b. pending (apps w' b) = pending (apps w b))"

lemma warn_calm: "calm w (warn_duplicate_task_name a n w)" "calm w (warn_if_duplicate_task_name a t f n w)"
proof -
  show c: "calm w (warn_duplicate_task_name a n w)" by (simp add: calm_def warn_duplicate_task_name_def upd_app_def)
  show "calm w (warn_if_duplicate_task_name a t f n w)"
    using c by (auto simp: warn_if_duplicate_task_name_def calm_def split: option.split)
qed

lemma task_from_fun_calm: "calm w (snd (task_from_fun env a d w))"
  using warn_calm(2) by (auto simp: task_from_fun_def Let_def calm_def upd_app_def split: option.split)

lemma task_from_fun_registered:
  assumes "task_from_fun env a d w = (Inr t, w1)"
  shows "registered env a d (t_ident t) w1"
proof (cases "dict_get (tasks (apps w a)) (name_of env a d w)")
  case None
  then show ?thesis using assms
    by (auto simp: task_from_fun_def Let_def registered_def upd_app_def name_of_def dict_simps new_task_def split: if_splits option.splits list.splits)
next
  case (Some t0)
  then have "t = t0" "registered env a d (t_ident t) w" using assms by (auto simp: task_from_fun_def Let_def registered_def split: if_splits)
  moreover have "grows w w1" using grows_task_from_fun [of w env a d] assms by simp
  ultimately show ?thesis using registered_grows by blast
qed

definition proxies_ok :: "menv \<Rightarrow> world \<Rightarrow> bool" where
  "proxies_ok env w \<longleftrightarrow> (\<forall>i < length (promises w). \<forall>x. pr_thing (promises w ! i) = Some x \<longrightarrow>
     registered env (pr_app (promises w ! i)) (pr_decl (promises w ! i)) x w)"

lemma proxies_ok_calm: "proxies_ok env w \<Longrightarrow> grows w w' \<Longrightarrow> promises w' = promises w \<Longrightarrow> proxies_ok env w'"
  unfolding proxies_ok_def using registered_grows by metis

lemma evaluate_spec:
  assumes "proxies_ok env w" and "i < length (promises w)" and "evaluate env i w = (r, w1)"
  shows "proxies_ok env w1 \<and> finalizers w1 = finalizers w \<and> (\<forall>b. pending (apps w1 b) = pending (apps w b)) \<and> length (promises w1) = length (promises w) \<and>
    (\<forall>j. j \<noteq> i \<longrightarrow> promises w1 ! j = promises w ! j) \<and>
    (\<forall>x. r = Inr x \<longrightarrow> pr_thing (promises w1 ! i) = Some x)"
proof (cases "pr_thing (promises w ! i)")
  case None
  let ?p = "promises w ! i"
  obtain r0 w0 where t: "task_from_fun env (pr_app ?p) (pr_decl ?p) w = (r0, w0)" by fastforce
  have g: "grows w w0" and c: "calm w w0" using grows_task_from_fun [of w env "pr_app ?p" "pr_decl ?p"] task_from_fun_calm [of w env "pr_app ?p" "pr_decl ?p"] t by simp_all
  then have ok: "proxies_ok env w0" using proxies_ok_calm [OF assms(1)] by (simp add: calm_def)
  show ?thesis
  proof (cases r0)
    case (Inl e)
    then show ?thesis using assms(3) None t ok c by (auto simp: evaluate_def Let_def calm_def)
  next
    case (Inr tk)
    let ?w1 = "w0\<lparr>promises := (promises w0)[i := ?p\<lparr>pr_thing := Some (t_ident tk)\<rparr>]\<rparr>"
    have w1: "w1 = ?w1" "r = Inr (t_ident tk)" using assms(3) None t Inr by (simp_all add: evaluate_def Let_def)
    have "registered env (pr_app ?p) (pr_decl ?p) (t_ident tk) ?w1"
      using task_from_fun_registered [of env "pr_app ?p" "pr_decl ?p" w tk w0] t Inr by simp
    then have "proxies_ok env ?w1"
      using ok assms(2) c unfolding proxies_ok_def by (auto simp: nth_list_update calm_def)
    then show ?thesis using w1 c assms(2) by (auto simp: calm_def)
  qed
next
  case (Some x)
  then show ?thesis using assms by (auto simp: evaluate_def)
qed

section \<open>Finalisation\<close>

definition pending_ok :: "world \<Rightarrow> bool" where
  "pending_ok w \<longleftrightarrow> (\<forall>a. \<forall>i \<in> set (pending (apps w a)). i < length (promises w) \<and> pr_app (promises w ! i) = a) \<and>
     (\<forall>i < length (promises w). pr_thing (promises w ! i) = None \<longrightarrow> i \<in> set (pending (apps w (pr_app (promises w ! i)))))"

definition creates_all :: "menv \<Rightarrow> bool" where
  "creates_all env \<longleftrightarrow> (\<forall>d. creation_raises env d = None)"

lemma task_from_fun_total:
  assumes "creates_all env" and "finalized (apps w a) \<or> autofinalize (apps w a)"
  shows "\<exists>t w1. task_from_fun env a d w = (Inr t, w1)"
  using assms by (auto simp: task_from_fun_def Let_def creates_all_def split: option.split)

lemma evaluate_total:
  assumes "creates_all env" and "finalized (apps w (pr_app (promises w ! i)))"
  shows "\<exists>x w1. evaluate env i w = (Inr x, w1)"
proof (cases "pr_thing (promises w ! i)")
  case None
  obtain t w0 where "task_from_fun env (pr_app (promises w ! i)) (pr_decl (promises w ! i)) w = (Inr t, w0)"
    using task_from_fun_total [OF assms(1), of w] assms(2) by blast
  then show ?thesis using None by (simp add: evaluate_def Let_def)
qed (simp add: evaluate_def)

lemma announce_total:
  assumes "creates_all env" and "finalized (apps w a)"
  shows "\<exists>w1. announce_app_finalized env a ds w = (None, w1) \<and> calm w w1 \<and> (\<forall>d \<in> set ds. \<exists>x. registered env a d x w1)"
  using assms(2)
proof (induction ds arbitrary: w)
  case (Cons d ds)
  obtain t w0 where t: "task_from_fun env a d w = (Inr t, w0)" using task_from_fun_total [OF assms(1)] Cons.prems by blast
  have c: "calm w w0" "grows w w0" using task_from_fun_calm [of w env a d] grows_task_from_fun [of w env a d] t by simp_all
  then have "finalized (apps w0 a)" using Cons.prems by (simp add: grows_def)
  then obtain w1 where w1: "announce_app_finalized env a ds w0 = (None, w1)" "calm w0 w1" "\<forall>d \<in> set ds. \<exists>x. registered env a d x w1" using Cons.IH by blast
  have "grows w0 w1" using grows_announce [of w0 env a ds] w1(1) by simp
  then have "\<exists>x. registered env a d x w1" using task_from_fun_registered [OF t] registered_grows by blast
  then show ?case using t w1 c(1) by (auto simp: calm_def)
qed (simp add: calm_def)

lemma upd_pending: "proxies_ok env w \<Longrightarrow> proxies_ok env (upd_app a (\<lambda>p. p\<lparr>pending := is\<rparr>) w)"
  by (rule proxies_ok_calm) (auto simp: upd_app_def grows_def)

lemma evaluate_pending_total:
  assumes "creates_all env" and "finalized (apps w a)" and "proxies_ok env w" and "\<forall>i \<in> set is. i < length (promises w) \<and> pr_app (promises w ! i) = a"
    and "pending (apps w a) = is"
  shows "\<exists>w1. evaluate_pending env a is w = (None, w1) \<and> proxies_ok env w1 \<and> finalizers w1 = finalizers w \<and> length (promises w1) = length (promises w) \<and>
    pending (apps w1 a) = [] \<and> (\<forall>b. b \<noteq> a \<longrightarrow> pending (apps w1 b) = pending (apps w b)) \<and>
    (\<forall>j. j \<notin> set is \<longrightarrow> promises w1 ! j = promises w ! j) \<and> (\<forall>j \<in> set is. pr_thing (promises w1 ! j) \<noteq> None)"
  using assms(2-5)
proof (induction "is" arbitrary: w)
  case (Cons i "is")
  let ?w = "upd_app a (\<lambda>p. p\<lparr>pending := is\<rparr>) w"
  have p: "promises ?w = promises w" "finalizers ?w = finalizers w" "finalized (apps ?w a)" using Cons.prems(1) by (simp_all add: upd_app_def)
  have i: "i < length (promises w)" "pr_app (promises w ! i) = a" using Cons.prems(3) by auto
  have ok: "proxies_ok env ?w" using Cons.prems(2) by (rule upd_pending)
  obtain x w0 where e: "evaluate env i ?w = (Inr x, w0)" using evaluate_total [OF assms(1), of ?w i] p i by auto
  have s: "proxies_ok env w0" "finalizers w0 = finalizers w" "length (promises w0) = length (promises w)" "\<forall>j. j \<noteq> i \<longrightarrow> promises w0 ! j = promises w ! j"
      "pr_thing (promises w0 ! i) = Some x" "\<forall>b. pending (apps w0 b) = pending (apps ?w b)"
    using evaluate_spec [OF ok _ e] i(1) p by auto
  have g: "grows ?w w0" using grows_evaluate [of ?w env i] e by simp
  have f: "finalized (apps w0 a)" using g p(3) by (simp add: grows_def)
  have sub: "\<forall>j \<in> set is. j < length (promises w0) \<and> pr_app (promises w0 ! j) = a"
    using Cons.prems(3) g p(1) s(3) by (auto simp: grows_def)
  have "pending (apps w0 a) = is" using s(6) by (simp add: upd_app_def)
  from Cons.IH [OF f s(1) sub this] obtain w1 where w1: "evaluate_pending env a is w0 = (None, w1)" "proxies_ok env w1" "finalizers w1 = finalizers w0"
      "length (promises w1) = length (promises w0)" "pending (apps w1 a) = []" "\<forall>b. b \<noteq> a \<longrightarrow> pending (apps w1 b) = pending (apps w0 b)"
      "\<forall>j. j \<notin> set is \<longrightarrow> promises w1 ! j = promises w0 ! j" "\<forall>j \<in> set is. pr_thing (promises w1 ! j) \<noteq> None" by blast
  have "evaluate_pending env a (i # is) w = (None, w1)" using e w1(1) by (simp add: maybe_evaluate_def)
  moreover have "pr_thing (promises w1 ! i) \<noteq> None" using w1(7,8) s(5) by (cases "i \<in> set is") auto
  moreover have "\<forall>b. b \<noteq> a \<longrightarrow> pending (apps w1 b) = pending (apps w b)" using w1(6) s(6) by (simp add: upd_app_def)
  ultimately show ?case using w1 s by auto
qed simp

lemma finalize_spec:
  assumes "creates_all env" and "\<not> finalized (apps w a)" and "auto \<longrightarrow> autofinalize (apps w a)" and "proxies_ok env w" and "pending_ok w"
  shows "\<exists>w'. finalize env auto a w = (None, w') \<and> finalized (apps w' a) \<and> pending (apps w' a) = [] \<and>
    (\<forall>d \<in> set (finalizers w). \<exists>x. registered env a d x w') \<and> (\<forall>(n, t) \<in> set (tasks (apps w' a)). t_bound t = Some a) \<and>
    proxies_ok env w' \<and> pending_ok w' \<and> length (promises w') = length (promises w) \<and>
    (\<forall>i < length (promises w). pr_app (promises w ! i) = a \<longrightarrow> pr_thing (promises w' ! i) \<noteq> None)"
proof -
  let ?w = "upd_app a (\<lambda>p. p\<lparr>finalized := True\<rparr>) w"
  have g: "grows w ?w" by (intro grows_upd) auto
  have f: "finalized (apps ?w a)" "promises ?w = promises w" "\<forall>b. pending (apps ?w b) = pending (apps w b)" by (simp_all add: upd_app_def)
  have ok: "proxies_ok env ?w" by (rule proxies_ok_calm [OF assms(4) g f(2)])
  obtain w1 where w1: "announce_app_finalized env a (finalizers w) ?w = (None, w1)" "calm ?w w1" "\<forall>d \<in> set (finalizers w). \<exists>x. registered env a d x w1"
    using announce_total [of env ?w a "finalizers w", OF assms(1) f(1)] by blast
  have g1: "grows ?w w1" using grows_announce [of ?w env a "finalizers w"] w1(1) by simp
  have c1: "promises w1 = promises w" "\<forall>b. pending (apps w1 b) = pending (apps w b)" using w1(2) f by (simp_all add: calm_def)
  have ok1: "proxies_ok env w1" by (rule proxies_ok_calm [OF ok g1]) (simp add: c1 f)
  have "\<forall>i \<in> set (pending (apps w1 a)). i < length (promises w1) \<and> pr_app (promises w1 ! i) = a" using assms(5) c1 by (simp add: pending_ok_def)
  moreover have f1: "finalized (apps w1 a)" using g1 f(1) by (simp add: grows_def)
  ultimately obtain w2 where w2: "evaluate_pending env a (pending (apps w1 a)) w1 = (None, w2)" "proxies_ok env w2" "length (promises w2) = length (promises w1)"
      "pending (apps w2 a) = []" "\<forall>b. b \<noteq> a \<longrightarrow> pending (apps w2 b) = pending (apps w1 b)"
      "\<forall>j. j \<notin> set (pending (apps w1 a)) \<longrightarrow> promises w2 ! j = promises w1 ! j" "\<forall>j \<in> set (pending (apps w1 a)). pr_thing (promises w2 ! j) \<noteq> None"
    using evaluate_pending_total [OF assms(1) _ ok1] by blast
  let ?w3 = "upd_app a (\<lambda>p. p\<lparr>finalize_signals := Suc (finalize_signals p)\<rparr>) (bind_all a w2)"
  have g2: "grows w1 w2" using grows_evaluate_pending [of w1 env a "pending (apps w1 a)"] w2(1) by simp
  have g3: "grows w2 ?w3" by (rule world_grows_trans [OF grows_bind [of w2 a]]) (intro grows_upd, auto)
  have p3: "promises ?w3 = promises w2" "\<And>b. pending (apps ?w3 b) = pending (apps w2 b)" by (simp_all add: upd_app_def bind_all_def)
  have "finalize env auto a w = (None, ?w3)" using assms(2,3) w1(1) w2(1) by (simp add: finalize_def)
  moreover have "finalized (apps ?w3 a)" using g2 g3 f1 by (simp add: grows_def)
  moreover have "\<forall>d \<in> set (finalizers w). \<exists>x. registered env a d x ?w3" using w1(3) registered_grows [OF _ world_grows_trans [OF g2 g3]] by blast
  moreover have "\<forall>(n, t) \<in> set (tasks (apps ?w3 a)). t_bound t = Some a" by (auto simp: upd_app_def bind_all_def)
  moreover have "proxies_ok env ?w3" by (rule proxies_ok_calm [OF w2(2) g3 p3(1)])
  moreover have things: "\<forall>i < length (promises w). pr_app (promises w ! i) = a \<longrightarrow> pr_thing (promises ?w3 ! i) \<noteq> None"
    using w2(6,7) assms(5) c1 p3(1) unfolding pending_ok_def by metis
  moreover have pr: "pr_app (promises w2 ! i) = pr_app (promises w ! i)" if "i < length (promises w)" for i using g2 c1(1) that by (simp add: grows_def)
  have "pending_ok ?w3"
    unfolding pending_ok_def p3
  proof (intro conjI allI ballI impI)
    fix b i assume "i \<in> set (pending (apps w2 b))"
    moreover from this have "b \<noteq> a" using w2(4) by auto
    ultimately have "i \<in> set (pending (apps w b))" using w2(5) c1(2) by simp
    then have "i < length (promises w)" "pr_app (promises w ! i) = b" using assms(5) by (auto simp: pending_ok_def)
    then show "i < length (promises w2)" "pr_app (promises w2 ! i) = b" using pr w2(3) c1(1) by simp_all
  next
    fix i assume i: "i < length (promises w2)" and none: "pr_thing (promises w2 ! i) = None"
    then have il: "i < length (promises w)" using w2(3) c1(1) by simp
    with none things have na: "pr_app (promises w ! i) \<noteq> a" using p3(1) by auto
    then have "i \<notin> set (pending (apps w1 a))" using assms(5) c1(2) by (auto simp: pending_ok_def)
    then have "promises w2 ! i = promises w ! i" using w2(6) c1(1) by simp
    then show "i \<in> set (pending (apps w2 (pr_app (promises w2 ! i))))" using assms(5) il none na w2(5) c1(2) by (simp add: pending_ok_def)
  qed
  ultimately show ?thesis using w2(3,4) c1(1) p3 by auto
qed

definition fresh_world :: "world \<Rightarrow> bool" where
  "fresh_world w \<longleftrightarrow> promises w = [] \<and> finalizers w = [] \<and> (\<forall>a. \<not> finalized (apps w a) \<and> pending (apps w a) = [] \<and> tasks (apps w a) = [] \<and> warned (apps w a) = [])"

definition world_step :: "menv \<Rightarrow> world \<Rightarrow> call \<Rightarrow> world \<Rightarrow> bool" where
  "world_step env w c w' \<longleftrightarrow> creates_all env \<and> exec env c w = w'"

definition world_inv :: "menv \<Rightarrow> world \<Rightarrow> bool" where
  "world_inv env w \<longleftrightarrow> proxies_ok env w \<and> pending_ok w"

lemma declare_inv:
  assumes "world_inv env w"
  shows "world_inv env (snd (app_task env a sh lazy d w))"
proof -
  define v where "v = (if sh then w\<lparr>finalizers := finalizers w @ [d]\<rparr> else w)"
  have g: "grows w v" by (auto simp: grows_def v_def)
  have p: "promises v = promises w" "apps v = apps w" by (simp_all add: v_def)
  have w: "proxies_ok env v" "pending_ok v" using assms proxies_ok_calm [OF _ g p(1)] p by (auto simp: world_inv_def pending_ok_def)
  obtain r w1 where t: "task_from_fun env a d v = (r, w1)" by fastforce
  have "calm v w1" "grows v w1" using task_from_fun_calm [of v env a d] grows_task_from_fun [of v env a d] t by simp_all
  then have now: "world_inv env w1" using proxies_ok_calm [OF w(1)] w(2) by (simp add: world_inv_def pending_ok_def calm_def)
  let ?w2 = "upd_app a (\<lambda>p. p\<lparr>pending := pending p @ [length (promises v)]\<rparr>) (v\<lparr>promises := promises v @ [\<lparr>pr_app = a, pr_decl = d, pr_thing = None\<rparr>]\<rparr>)"
  have g2: "grows v ?w2" by (auto simp: grows_def upd_app_def nth_append)
  have pr: "promises ?w2 = promises v @ [\<lparr>pr_app = a, pr_decl = d, pr_thing = None\<rparr>]" by (simp add: upd_app_def)
  have "proxies_ok env ?w2"
    unfolding proxies_ok_def
  proof (intro allI impI)
    fix i x assume "i < length (promises ?w2)" and x: "pr_thing (promises ?w2 ! i) = Some x"
    then have i: "i < length (promises v)" unfolding pr by (auto simp: nth_append split: if_splits)
    then have "registered env (pr_app (promises v ! i)) (pr_decl (promises v ! i)) x v" using w(1) x unfolding pr proxies_ok_def by (simp add: nth_append)
    from registered_grows [OF this g2] show "registered env (pr_app (promises ?w2 ! i)) (pr_decl (promises ?w2 ! i)) x ?w2" using i unfolding pr by (simp add: nth_append)
  qed
  moreover have "pending_ok ?w2" using w(2) unfolding pending_ok_def pr by (auto simp: upd_app_def nth_append less_Suc_eq)
  ultimately have later: "world_inv env ?w2" by (simp add: world_inv_def)
  show ?thesis using t now later unfolding app_task_def v_def [symmetric] by (simp add: Let_def split: sum.split)
qed

lemma use_inv:
  assumes "world_inv env w" and "i < length (promises w)"
  shows "world_inv env (snd (evaluate env i w))"
proof -
  obtain r w1 where e: "evaluate env i w = (r, w1)" by fastforce
  have s: "proxies_ok env w1" "\<forall>b. pending (apps w1 b) = pending (apps w b)" "length (promises w1) = length (promises w)" "\<forall>j. j \<noteq> i \<longrightarrow> promises w1 ! j = promises w ! j"
    using evaluate_spec [OF _ assms(2) e] assms(1) by (auto simp: world_inv_def)
  have g: "grows w w1" using grows_evaluate [of w env i] e by simp
  have app: "pr_app (promises w1 ! j) = pr_app (promises w ! j)" if "j < length (promises w)" for j using g that by (simp add: grows_def)
  have "pr_thing (promises w ! j) = None" if "j < length (promises w)" "pr_thing (promises w1 ! j) = None" for j
    using g that by (cases "pr_thing (promises w ! j)") (auto simp: grows_def)
  then have "pending_ok w1" using assms(1) s(2,3) app by (auto simp: pending_ok_def world_inv_def)
  then show ?thesis using s(1) e by (simp add: world_inv_def)
qed

lemma finalize_inv:
  assumes "creates_all env" and "world_inv env w"
  shows "world_inv env (snd (finalize env auto a w))"
proof (cases "\<not> finalized (apps w a) \<and> (auto \<longrightarrow> autofinalize (apps w a))")
  case True
  then show ?thesis using finalize_spec [OF assms(1), of w a auto] assms(2) by (auto simp: world_inv_def)
next
  case False
  then show ?thesis using assms(2) by (auto simp: finalize_def)
qed

interpretation application: invariant_system fresh_world "world_step env" "world_inv env"
proof unfold_locales
  fix w assume "fresh_world w"
  then show "world_inv env w" by (simp add: fresh_world_def world_inv_def proxies_ok_def pending_ok_def)
next
  fix w c w' assume "world_inv env w" and "world_step env w c w'"
  then show "world_inv env w'" by (cases c) (auto simp: world_step_def declare_inv use_inv finalize_inv)
qed

section \<open>Properties\<close>

text \<open>
  C36: finalising an application that was not finalised succeeds if all declared tasks can be created. Afterwards every shared task and every task
  declared on the application is registered under its name, every proxy stands for the task registered under its name, and all tasks are bound to the application.
\<close>

theorem finalize_registers_all:
  assumes "reach fresh_world (world_step env) w" and "creates_all env" and "\<not> finalized (apps w a)" and "auto \<longrightarrow> autofinalize (apps w a)"
  shows "\<exists>w'. finalize env auto a w = (None, w') \<and> finalized (apps w' a) \<and> pending (apps w' a) = [] \<and>
    (\<forall>d \<in> set (finalizers w). name_of env a d w' \<in> set (keys (tasks (apps w' a)))) \<and>
    (\<forall>i < length (promises w). pr_app (promises w ! i) = a \<longrightarrow> (\<exists>t. dict_get (tasks (apps w' a)) (name_of env a (pr_decl (promises w ! i)) w') = Some t \<and>
        pr_thing (promises w' ! i) = Some (t_ident t))) \<and>
    (\<forall>(n, t) \<in> set (tasks (apps w' a)). t_bound t = Some a)"
proof -
  have "proxies_ok env w" "pending_ok w" using application.inv_reach [OF assms(1)] by (simp_all add: world_inv_def)
  from finalize_spec [OF assms(2-4) this] obtain w' where w': "finalize env auto a w = (None, w')" "finalized (apps w' a)" "pending (apps w' a) = []"
      "\<forall>d \<in> set (finalizers w). \<exists>x. registered env a d x w'" "\<forall>(n, t) \<in> set (tasks (apps w' a)). t_bound t = Some a"
      "proxies_ok env w'" "length (promises w') = length (promises w)"
      "\<forall>i < length (promises w). pr_app (promises w ! i) = a \<longrightarrow> pr_thing (promises w' ! i) \<noteq> None" by blast
  have "grows w w'" using grows_finalize [of w env auto a] w'(1) by simp
  then have "pr_app (promises w' ! i) = pr_app (promises w ! i) \<and> pr_decl (promises w' ! i) = pr_decl (promises w ! i)" if "i < length (promises w)" for i
    using that by (simp add: grows_def)
  then have "\<exists>t. dict_get (tasks (apps w' a)) (name_of env a (pr_decl (promises w ! i)) w') = Some t \<and> pr_thing (promises w' ! i) = Some (t_ident t)"
    if "i < length (promises w)" "pr_app (promises w ! i) = a" for i
    using w'(6,7,8) that by (fastforce simp: proxies_ok_def registered_def)
  moreover have "\<forall>d \<in> set (finalizers w). name_of env a d w' \<in> set (keys (tasks (apps w' a)))"
    using w'(4) dict_get_Some_iff unfolding registered_def by metis
  ultimately show ?thesis using w'(1,2,3,5) by blast
qed

text \<open>
  a proxy that was used stands for the task registered under its name, in every state reached by declaring, using and finalising.
\<close>

theorem proxy_stands_for_registered_task:
  assumes "reach fresh_world (world_step env) w" and "i < length (promises w)" and "pr_thing (promises w ! i) = Some x"
  shows "\<exists>t. dict_get (tasks (apps w (pr_app (promises w ! i)))) (name_of env (pr_app (promises w ! i)) (pr_decl (promises w ! i)) w) = Some t \<and> t_ident t = x"
  using application.inv_reach [OF assms(1)] assms(2,3) by (auto simp: world_inv_def proxies_ok_def registered_def)

lemma finalize_marks: "\<not> auto \<or> autofinalize (apps w a) \<Longrightarrow> finalized (apps (snd (finalize env auto a w)) a)"
proof (cases "finalized (apps w a)")
  case True
  then show ?thesis using grows_finalize [of w env auto a] by (simp add: grows_def)
next
  case False
  assume auto: "\<not> auto \<or> autofinalize (apps w a)"
  let ?w = "upd_app a (\<lambda>p. p\<lparr>finalized := True\<rparr>) w"
  have "finalized (apps ?w a)" by (simp add: upd_app_def)
  obtain e1 w1 where 1: "announce_app_finalized env a (finalizers w) ?w = (e1, w1)" by fastforce
  obtain e2 w2 where 2: "evaluate_pending env a (pending (apps w1 a)) w1 = (e2, w2)" by fastforce
  have f1: "finalized (apps w1 a)" using grows_announce [of ?w env a "finalizers w"] 1 \<open>finalized (apps ?w a)\<close> by (simp add: grows_def)
  have f2: "finalized (apps w2 a)" using grows_evaluate_pending [of w1 env a "pending (apps w1 a)"] 2 f1 by (simp add: grows_def)
  have "finalized (apps (bind_all a w2) a)" using grows_bind [of w2 a] f2 by (simp add: grows_def)
  then show ?thesis using False auto 1 2 f1 f2 by (auto simp: finalize_def upd_app_def split: option.split)
qed

text \<open>
  an application counts as finalised from the start of its finalisation. If creating one of its tasks raises, finalising again does nothing and raises nothing.
\<close>

theorem finalize_not_resumed:
  assumes "finalize env auto a w = (Some e, w')" and "\<not> auto \<or> autofinalize (apps w a)"
  shows "finalize env auto' a w' = (None, w')"
  using finalize_marks [OF assms(2), of env] assms(1) by (simp add: finalize_def)

section \<open>Examples\<close>

definition sample_menv :: menv where
  "sample_menv = \<lparr>modules = (\<lambda>m. Some (m, False)), creation_raises = (\<lambda>d. None)\<rparr>"

definition sample_world :: world where
  "sample_world = \<lparr>apps = (\<lambda>a. \<lparr>main = [], autofinalize = True, finalized = False, pending = [], tasks = [], warned = [], finalize_signals = 0\<rparr>),
     finalizers = [], promises = [], next_task = 0\<rparr>"

definition sample_decl :: "nat \<Rightarrow> string \<Rightarrow> decl" where
  "sample_decl i n = \<lparr>d_fun = \<lparr>fn_id = i, fn_name = n, fn_module = ''proj''\<rparr>, d_name = None, d_opts = 0\<rparr>"

lemmas sample_defs = sample_menv_def sample_world_def sample_decl_def task_from_fun_def name_of_def gen_task_name_def main_module_def app_task_def upd_app_def
  new_task_def evaluate_def maybe_evaluate_def finalize_def bind_all_def warn_if_duplicate_task_name_def warn_duplicate_task_name_def Let_def

lemma sample_calls_reach: "reach fresh_world (world_step sample_menv) (fold (exec sample_menv) cs sample_world)"
proof (induction cs rule: rev_induct)
  case Nil
  show ?case by (rule reach_init) (simp add: fresh_world_def sample_world_def)
next
  case (snoc c cs)
  show ?case by (rule reach_step [OF snoc, of c]) (simp add: world_step_def creates_all_def sample_menv_def)
qed

theorem first_registration_wins_witness:
  "\<exists>t'. dict_get (tasks (apps (fold (exec sample_menv) [Declare 0 False True (sample_decl 2 ''add''), Finalize True 0]
       (exec sample_menv (Declare 0 False False (sample_decl 1 ''add'')) sample_world)) 0)) ''proj.add'' = Some t' \<and> map_option fn_id (t_fun t') = Some 1"
  using first_registration_wins [of "exec sample_menv (Declare 0 False False (sample_decl 1 ''add'')) sample_world" 0 "''proj.add''"
      "\<lparr>t_ident = 0, t_name = ''proj.add'', t_fun = Some \<lparr>fn_id = 1, fn_name = ''add'', fn_module = ''proj''\<rparr>, t_opts = 0, t_bound = Some 0\<rparr>" sample_menv
      "[Declare 0 False True (sample_decl 2 ''add''), Finalize True 0]"]
  by (force simp: sample_defs)

theorem finalize_registers_all_witness:
  "\<exists>w'. finalize sample_menv True 0 (fold (exec sample_menv) [Declare 1 True True (sample_decl 1 ''add''), Declare 0 False True (sample_decl 2 ''mul'')] sample_world) = (None, w') \<and>
     ''proj.add'' \<in> set (keys (tasks (apps w' 0))) \<and> pr_thing (promises w' ! 1) \<noteq> None \<and> pending (apps w' 0) = []"
proof -
  define w where "w = fold (exec sample_menv) [Declare 1 True True (sample_decl 1 ''add''), Declare 0 False True (sample_decl 2 ''mul'')] sample_world"
  have r: "reach fresh_world (world_step sample_menv) w" unfolding w_def by (rule sample_calls_reach)
  have f: "finalizers w = [sample_decl 1 ''add'']" "length (promises w) = 2" "pr_app (promises w ! 1) = 0" "\<not> finalized (apps w 0)" "autofinalize (apps w 0)"
    by (simp_all add: w_def sample_defs)
  have "creates_all sample_menv" by (simp add: creates_all_def sample_menv_def)
  from finalize_registers_all [OF r this f(4), of True] f(5) obtain w' where w': "finalize sample_menv True 0 w = (None, w')" "pending (apps w' 0) = []"
      "\<forall>d \<in> set (finalizers w). name_of sample_menv 0 d w' \<in> set (keys (tasks (apps w' 0)))"
      "\<forall>i < length (promises w). pr_app (promises w ! i) = 0 \<longrightarrow> (\<exists>t. dict_get (tasks (apps w' 0)) (name_of sample_menv 0 (pr_decl (promises w ! i)) w') = Some t \<and>
        pr_thing (promises w' ! i) = Some (t_ident t))" by auto
  have "name_of sample_menv 0 (sample_decl 1 ''add'') w' = ''proj.add''" by (simp add: name_of_def sample_decl_def gen_task_name_def sample_menv_def main_module_def)
  then have "''proj.add'' \<in> set (keys (tasks (apps w' 0)))" using w'(3) f(1) by simp
  moreover have "pr_thing (promises w' ! 1) \<noteq> None" using w'(4) [rule_format, of 1] f(2,3) by auto
  ultimately show ?thesis using w'(1,2) unfolding w_def by blast
qed

theorem proxy_stands_for_registered_task_witness:
  "\<exists>t. dict_get (tasks (apps (fold (exec sample_menv) [Declare 0 False True (sample_decl 1 ''add''), Use 0] sample_world) 0)) ''proj.add'' = Some t \<and> t_ident t = 0"
  using proxy_stands_for_registered_task [OF sample_calls_reach, of 0 "[Declare 0 False True (sample_decl 1 ''add''), Use 0]" 0]
  by (simp add: sample_defs)

theorem finalize_not_resumed_witness:
  "snd (finalize (sample_menv\<lparr>creation_raises := (\<lambda>d. Some TypeError)\<rparr>) True 0 (exec sample_menv (Declare 0 False True (sample_decl 1 ''add'')) sample_world)) =
   snd (finalize (sample_menv\<lparr>creation_raises := (\<lambda>d. Some TypeError)\<rparr>) True 0
     (snd (finalize (sample_menv\<lparr>creation_raises := (\<lambda>d. Some TypeError)\<rparr>) True 0 (exec sample_menv (Declare 0 False True (sample_decl 1 ''add'')) sample_world))))"
proof -
  let ?env = "sample_menv\<lparr>creation_raises := (\<lambda>d. Some TypeError)\<rparr>" and ?w = "exec sample_menv (Declare 0 False True (sample_decl 1 ''add'')) sample_world"
  have "fst (finalize ?env True 0 ?w) = Some TypeError" "autofinalize (apps ?w 0)" by (simp_all add: sample_defs)
  then have "finalize ?env True 0 ?w = (Some TypeError, snd (finalize ?env True 0 ?w))" by (metis prod.collapse)
  from finalize_not_resumed [OF this, of True] \<open>autofinalize (apps ?w 0)\<close> show ?thesis by simp
qed

text \<open>
  a declared task whose creation raises an \<open>AttributeError\<close> is dropped in silence: finalisation takes the error for the sign of an object that is no proxy,
  succeeds, and the task is not in the registry.
\<close>

theorem attribute_error_drops_task:
  "(case finalize (sample_menv\<lparr>creation_raises := (\<lambda>d. Some AttributeError)\<rparr>) True 0 (exec sample_menv (Declare 0 False True (sample_decl 1 ''add'')) sample_world) of
     (e, w') \<Rightarrow> (e, finalized (apps w' 0), pending (apps w' 0), tasks (apps w' 0), finalize_signals (apps w' 0))) = (None, True, [], [], 1)"
  by (simp add: sample_defs)

end
