(* ===== verification/Canvas_Send.thy ===== *)
theory Canvas_Send
  imports Canvas_Prepare
begin

text \<open>
  Sending groups and chords, \<open>celery.canvas\<close>: the unrolling of a group into the tasks to be sent (\<open>group._prepared\<close>), the loop that sends them and tells the backend
  the size of the chord just before the last one (\<open>group._apply_tasks\<close>), and the start of a chord (\<open>_chord.run\<close>).

  What is sent is a list of events in the order in which they happen. Of the options only those that the loop reads matter here. The barrier for
  the results and the producer are left out.
\<close>

section \<open>Operations\<close>

datatype send = SetChordSize string nat | Publish sig nat | BodyCalled

text \<open>The members of nested groups are numbered from zero again.\<close>

function prepared :: "nat \<Rightarrow> sig list \<Rightarrow> (sig \<times> nat) list" where
  "prepared idx [] = []"
| "prepared idx (t # ts) = (case t of
     Group us op \<Rightarrow> prepared 0 us
   | Chain [] op i \<Rightarrow> []
   | _ \<Rightarrow> [(freeze_shape (clone0 t), idx)]) @ prepared (Suc idx) ts"
  by pat_completeness auto
termination
  by (relation "measure (\<lambda>(idx, ts). sum_list (map nodes ts))") (auto split: sig.splits simp: nodes_pos)

text \<open>
  One task is looked at ahead, so that the size can be announced without exhausting a generator. What was sent before a task that cannot be counted stays sent.
\<close>

fun apply_tasks :: "string \<Rightarrow> bool \<Rightarrow> nat \<Rightarrow> (sig \<times> nat) list \<Rightarrow> exn option \<times> send list" where
  "apply_tasks gid ch sz [] = (None, [])"
| "apply_tasks gid ch sz ((s, idx) # rest) = (case descend s of
     Inl e \<Rightarrow> (Some e, [])
   | Inr k \<Rightarrow> (case apply_tasks gid ch (sz + k) rest of
       (err, evs) \<Rightarrow> (err, (if (ch \<or> chord_opt (options s) \<noteq> None) \<and> rest = [] then [SetChordSize gid (sz + k)] else []) @ Publish s idx # evs)))"

definition group_apply_async :: "string \<Rightarrow> bool \<Rightarrow> sig list \<Rightarrow> exn option \<times> send list" where
  "group_apply_async gid ch ts = (if ts = [] then (None, []) else apply_tasks gid ch 0 (prepared 0 ts))"

definition frozen_header :: "sig list \<Rightarrow> sig list" where
  "frozen_header h = tasks (freeze_shape (Group h no_options))"

definition chord_run :: "string \<Rightarrow> sig list \<Rightarrow> exn option \<times> send list" where
  "chord_run gid h = (if frozen_header h = [] then (None, [BodyCalled]) else group_apply_async gid True (frozen_header h))"

section \<open>Counting is not changed by freezing\<close>

definition dval :: "sig \<Rightarrow> nat" where
  "dval s = (case descend s of Inr n \<Rightarrow> n | Inl e \<Rightarrow> 0)"

definition countable :: "sig \<Rightarrow> bool" where
  "countable s \<longleftrightarrow> (\<exists>n. descend s = Inr n)"

lemma countable_dval: "countable s \<longleftrightarrow> descend s = Inr (dval s)"
  by (auto simp: countable_def dval_def)

lemma res_map_Inr: "res_map f xs = Inr ys \<longleftrightarrow> list_all2 (\<lambda>x y. f x = Inr y) xs ys"
  by (induction xs arbitrary: ys) (auto simp: res_bind_Inr_iff list_all2_Cons1)

lemma res_map_images: "(\<And>x. x \<in> set xs \<Longrightarrow> f (g x) = Inr (h x)) \<Longrightarrow> res_map f (map g xs) = Inr (map h xs)"
  by (induction xs) auto

lemma countable_Group: "countable (Group us op) \<longleftrightarrow> (\<forall>u \<in> set us. countable u)"
proof
  assume "countable (Group us op)"
  then show "\<forall>u \<in> set us. countable u" by (auto simp: countable_def res_bind_Inr_iff res_map_Inr list_all2_conv_all_nth in_set_conv_nth)
next
  assume "\<forall>u \<in> set us. countable u"
  then have "res_map descend us = Inr (map dval us)" by (intro res_map_descend) (simp add: countable_dval)
  then show "countable (Group us op)" by (simp add: countable_def)
qed

lemma countable_unroll: "countable t \<Longrightarrow> u \<in> set (unroll_frozen t) \<Longrightarrow> countable u"
  by (induction t rule: unroll_frozen.induct) (auto simp: countable_Group split: if_splits)

lemma first_positive_keeps:
  assumes "\<And>x m. x \<in> set xs \<Longrightarrow> f x = Inr m \<Longrightarrow> g x = Inr m" and "first_positive f xs = Inr n"
  shows "first_positive g xs = Inr n"
  using assms
proof (induction xs)
  case (Cons x xs)
  then obtain k where k: "f x = Inr k" "g x = Inr k" by (auto simp: res_bind_Inr_iff)
  show ?case using Cons k by (cases "k > 0") auto
qed simp

lemma frozen_sum:
  assumes "descend (Group ts op) = Inr n" and "\<And>u. u \<in> set (concat (map unroll_frozen ts)) \<Longrightarrow> countable u \<Longrightarrow> descend (g u) = Inr (dval u)"
  shows "res_bind (res_map descend (map g (concat (map unroll_frozen ts)))) (\<lambda>ns. Inr (sum_list ns)) = Inr n"
proof -
  let ?us = "concat (map unroll_frozen ts)"
  have "countable (Group ts op)" using assms(1) by (simp add: countable_def)
  then have c: "countable u" if "t \<in> set ts" "u \<in> set (unroll_frozen t)" for t u using that countable_Group countable_unroll by blast
  then have "res_map descend (map g ?us) = Inr (map dval ?us)" using assms(2) by (intro res_map_images) auto
  moreover have "descend t = Inr (sum_list (map dval (unroll_frozen t)))" if "t \<in> set ts" for t
    using c [OF that] by (intro unroll_frozen_descend) (simp add: countable_dval)
  then have "res_map descend ts = Inr (map (\<lambda>t. sum_list (map dval (unroll_frozen t))) ts)" by (intro res_map_descend) auto
  then have "n = sum_list (map (\<lambda>t. sum_list (map dval (unroll_frozen t))) ts)" using assms(1) by simp
  moreover have "sum_list (map (\<lambda>t. sum_list (map dval (unroll_frozen t))) ts) = sum_list (map dval ?us)"
    by (induction ts) auto
  ultimately show ?thesis by simp
qed

lemma descend_freeze_shape: "descend s = Inr n \<Longrightarrow> descend (freeze_shape s) = Inr n"
proof (induction s arbitrary: n rule: measure_induct_rule [of nodes])
  case (less s)
  show ?case
  proof (cases s)
    case (Group ts op)
    have "descend (freeze_shape (clone0 u)) = Inr (dval u)" if "u \<in> set (concat (map unroll_frozen ts))" "countable u" for u
      using less.IH [of "clone0 u"] unroll_frozen_member [OF that(1)] that(2) Group by (simp add: countable_dval less_Suc_eq_le)
    then show ?thesis using frozen_sum [of ts op n "\<lambda>t. freeze_shape (clone0 t)"] less.prems Group by simp
  next
    case (Chain ts op i)
    let ?F = "\<lambda>t. case t of Group [u] gop \<Rightarrow> Group [freeze_shape u] gop | _ \<Rightarrow> freeze_shape t"
    have "descend (?F t) = Inr m" if t: "t \<in> set ts" and m: "descend t = Inr m" for t m
    proof (cases "\<exists>u gop. t = Group [u] gop")
      case True
      then obtain u gop where u: "t = Group [u] gop" by blast
      then have "nodes u < nodes s" using member_nodes [OF t] Chain by simp
      then show ?thesis using less.IH [of u m] m descend_single [of u gop] descend_single [of "freeze_shape u" gop] u by simp
    next
      case False
      then have "?F t = freeze_shape t" by (auto split: sig.splits list.splits)
      then show ?thesis using less.IH [of t m] m member_nodes [OF t] Chain by simp
    qed
    then have keep: "\<And>x m. x \<in> set (rev ts) \<Longrightarrow> descend x = Inr m \<Longrightarrow> descend (?F x) = Inr m" unfolding set_rev by blast
    have "first_positive descend (rev ts) = Inr n" using less.prems by (simp only: Chain descend.simps)
    from first_positive_keeps [of "rev ts" descend "\<lambda>t. descend (?F t)", OF keep this] have "first_positive (\<lambda>t. descend (?F t)) (rev ts) = Inr n" .
    then show ?thesis by (simp only: Chain freeze_shape.simps descend.simps rev_map first_positive_map)
  next
    case (Chord h b a k op i)
    then show ?thesis using less by (cases b) auto
  qed (use less.prems in simp)
qed

section \<open>The order of sending\<close>

definition as_published :: "sig \<times> nat \<Rightarrow> send" where
  "as_published p = Publish (fst p) (snd p)"

lemma apply_tasks_events:
  assumes "\<forall>(s, i) \<in> set ps. countable s" and "ps \<noteq> []"
  shows "apply_tasks gid ch n ps = (None, map as_published (butlast ps) @
    (if ch \<or> chord_opt (options (fst (last ps))) \<noteq> None then [SetChordSize gid (n + sum_list (map (dval \<circ> fst) ps))] else []) @ [as_published (last ps)])"
  using assms
proof (induction ps arbitrary: n)
  case (Cons p ps)
  obtain s i where p: "p = (s, i)" by fastforce
  then have d: "descend s = Inr (dval s)" using Cons.prems(1) by (simp add: countable_dval)
  show ?case
  proof (cases "ps = []")
    case True
    then show ?thesis using p d by (simp add: as_published_def)
  next
    case False
    have "\<forall>(s, i) \<in> set ps. countable s" using Cons.prems(1) by simp
    from Cons.IH [OF this False, of "n + dval s"] show ?thesis using False p d by (simp add: as_published_def add.assoc)
  qed
qed simp

text \<open>A header that was frozen is flat, and its tasks are numbered in order.\<close>

definition sendable :: "sig \<Rightarrow> bool" where
  "sendable t \<longleftrightarrow> \<not> is_Group t \<and> (is_Chain t \<longrightarrow> tasks t \<noteq> [])"

lemma unroll_sendable: "u \<in> set (unroll_frozen t) \<Longrightarrow> sendable u"
  by (induction t rule: unroll_frozen.induct) (auto simp: sendable_def split: if_splits)

lemma freeze_sendable: "sendable (freeze_shape (clone0 u)) = sendable u"
  by (cases u) (auto simp: sendable_def)

lemma prepared_flat:
  assumes "\<forall>t \<in> set ts. sendable t"
  shows "prepared i ts = zip (map (\<lambda>t. freeze_shape (clone0 t)) ts) [i..<i + length ts]"
  using assms
proof (induction ts arbitrary: i)
  case (Cons t ts)
  have "prepared i (t # ts) = (freeze_shape (clone0 t), i) # prepared (Suc i) ts"
    using Cons.prems by (cases t) (auto simp: sendable_def split: list.split)
  moreover have "[i..<i + length (t # ts)] = i # [Suc i..<Suc i + length ts]" by (simp add: upt_conv_Cons del: upt_Suc)
  ultimately show ?case using Cons.IH [of "Suc i"] Cons.prems by (simp del: upt_Suc)
qed simp

lemma frozen_header_eq: "frozen_header h = map (\<lambda>t. freeze_shape (clone0 t)) (concat (map unroll_frozen h))"
  by (simp add: frozen_header_def)

lemma frozen_header_sendable: "t \<in> set (frozen_header h) \<Longrightarrow> sendable t"
  by (auto simp: frozen_header_eq freeze_sendable dest: unroll_sendable)

lemma frozen_header_count:
  assumes "length_hint h = Inr n"
  shows "(\<forall>t \<in> set (frozen_header h). countable t) \<and> sum_list (map dval (frozen_header h)) = n"
proof -
  have "descend (Group h no_options) = Inr n" using assms by (simp add: length_hint_def)
  then have f: "descend (freeze_shape (Group h no_options)) = Inr n" by (rule descend_freeze_shape)
  then have g: "descend (Group (frozen_header h) no_options) = Inr n" by (simp add: frozen_header_def)
  then have c: "\<forall>t \<in> set (frozen_header h). countable t" using countable_Group by (auto simp: countable_def)
  then have "res_map descend (frozen_header h) = Inr (map dval (frozen_header h))" by (intro res_map_descend) (simp add: countable_dval)
  then show ?thesis using g c by simp
qed

lemma dval_freeze: "countable t \<Longrightarrow> dval (freeze_shape (clone0 t)) = dval t \<and> countable (freeze_shape (clone0 t))"
  using descend_freeze_shape [of "clone0 t" "dval t"] by (simp add: countable_dval) (simp add: dval_def)

lemma chord_run_events:
  assumes "length_hint h = Inr n"
  shows "chord_run gid h = (None,
    (let ts = map (\<lambda>t. freeze_shape (clone0 t)) (frozen_header h); ps = map as_published (zip ts [0..<length ts]) in
     if ts = [] then [BodyCalled] else butlast ps @ [SetChordSize gid n, last ps]))"
proof (cases "frozen_header h = []")
  case True
  then show ?thesis by (simp add: chord_run_def)
next
  case False
  let ?ts = "map (\<lambda>t. freeze_shape (clone0 t)) (frozen_header h)"
  let ?ps = "zip ?ts [0..<length ?ts]"
  have p: "prepared 0 (frozen_header h) = ?ps" using prepared_flat [of "frozen_header h" 0] frozen_header_sendable by simp
  have c: "\<forall>t \<in> set (frozen_header h). countable t" "sum_list (map dval (frozen_header h)) = n" using frozen_header_count [OF assms] by auto
  have ne: "?ps \<noteq> []" using False by (simp add: zip_eq_Nil_iff)
  have "\<forall>(s, i) \<in> set ?ps. countable s" using c(1) dval_freeze by (auto dest!: set_zip_leftD)
  note apply_tasks_events [OF this ne, of gid True 0]
  moreover have "map (dval \<circ> fst) ?ps = map dval (map fst ?ps)" by (simp only: map_map)
  moreover have "map fst ?ps = ?ts" by (intro map_fst_zip) simp
  moreover have "map dval ?ts = map dval (frozen_header h)" using c(1) dval_freeze by (auto simp only: map_map map_eq_conv comp_apply)
  ultimately have "chord_run gid h = (None, map as_published (butlast ?ps) @ [SetChordSize gid n] @ [as_published (last ?ps)])"
    using False c(2) by (simp only: chord_run_def group_apply_async_def p if_False simp_thms if_True add_0)
  moreover have "butlast (map as_published ?ps) = map as_published (butlast ?ps)" "last (map as_published ?ps) = as_published (last ?ps)"
    using map_butlast [of as_published ?ps] last_map [OF ne, of as_published] by (simp_all only:)
  ultimately show ?thesis using False unfolding Let_def by simp
qed

text \<open>
  starting a chord sends the tasks of its header in order, each with its number, and announces the size of the chord just before the last one: the size is the
  number of completions counted for the header as it was written. With nothing to send the body is called at once.
\<close>

theorem chord_size_announced_before_last:
  assumes "length_hint h = Inr n"
  shows "chord_run gid h = (None,
    (let ts = map (\<lambda>t. freeze_shape (clone0 t)) (frozen_header h); ps = map as_published (zip ts [0..<length ts]) in
     if ts = [] then [BodyCalled] else butlast ps @ [SetChordSize gid n, last ps]))"
  using assms by (rule chord_run_events)

theorem chord_size_announced_before_last_witness:
  "chord_run ''g'' [sample_task ''a'', Group [sample_task ''b'', sample_task ''c''] no_options] =
     (None, [Publish (sample_task ''a'') 0, Publish (sample_task ''c'') 1, SetChordSize ''g'' 3, Publish (sample_task ''b'') 2])"
proof -
  let ?h = "[sample_task ''a'', Group [sample_task ''b'', sample_task ''c''] no_options]"
  have n: "length_hint ?h = Inr 3" by code_simp
  have "map (\<lambda>t. freeze_shape (clone0 t)) (frozen_header ?h) = [sample_task ''a'', sample_task ''c'', sample_task ''b'']" by code_simp
  with chord_size_announced_before_last [OF n, of "''g''"] show ?thesis by (simp add: Let_def as_published_def upt_conv_Cons)
qed

text \<open>
  a group that is sent outside of a chord announces no size, whatever it contains.
\<close>

lemma plain_group_no_size:
  assumes "\<forall>(s, i) \<in> set (prepared 0 ts). chord_opt (options s) = None"
  shows "\<forall>n. SetChordSize gid n \<notin> set (snd (group_apply_async gid False ts))"
proof -
  have "\<forall>(s, i) \<in> set ps. chord_opt (options s) = None \<Longrightarrow> SetChordSize gid n \<notin> set (snd (apply_tasks gid False k ps))" for ps k n
    by (induction gid "False" k ps rule: apply_tasks.induct) (auto split: sum.splits prod.splits)
  then show ?thesis using assms by (simp add: group_apply_async_def)
qed

end
