(* ===== verification/Chord_Protocol.thy ===== *)
theory Chord_Protocol
  imports Canvas_Send Redis_Chord
begin

text \<open>
  A chord from its start to the call of its body: the sender of \<open>celery.canvas\<close>, which announces the size of the chord while it sends, the workers, which run the tasks and
  report them, and the Redis backend, which counts and joins. The three act at the same time; all that is assumed of their order is that a task reports after
  it was sent.
\<close>

datatype pstep = Sent send | Reported part | Joined nat

fun act_of :: "pstep \<Rightarrow> act list" where
  "act_of (Sent (SetChordSize gid n)) = [SetSize gid n]"
| "act_of (Sent _) = []"
| "act_of (Reported p) = [Report p]"
| "act_of (Joined k) = [Join k]"

definition acts_of :: "pstep list \<Rightarrow> act list" where
  "acts_of tr = concat (map act_of tr)"

fun sends :: "pstep list \<Rightarrow> send list" where
  "sends [] = []"
| "sends (Sent e # tr) = e # sends tr"
| "sends (_ # tr) = sends tr"

fun reported :: "pstep list \<Rightarrow> part list" where
  "reported [] = []"
| "reported (Reported p # tr) = p # reported tr"
| "reported (_ # tr) = reported tr"

text \<open>Every report comes after the task of the header it belongs to was sent; \<open>owner\<close> is the number of this task.\<close>

definition causal :: "(part \<Rightarrow> nat) \<Rightarrow> pstep list \<Rightarrow> bool" where
  "causal owner tr \<longleftrightarrow> (\<forall>pre p post. tr = pre @ Reported p # post \<longrightarrow> (\<exists>s. Sent (Publish s (owner p)) \<in> set pre))"

section \<open>Traces\<close>

lemma acts_of_append [simp]: "acts_of (xs @ ys) = acts_of xs @ acts_of ys" "acts_of [] = []" "acts_of (x # xs) = act_of x @ acts_of xs"
  by (simp_all add: acts_of_def)

lemma sends_append [simp]: "sends (xs @ ys) = sends xs @ sends ys"
  by (induction xs rule: sends.induct) auto

lemma reported_append [simp]: "reported (xs @ ys) = reported xs @ reported ys"
  by (induction xs rule: reported.induct) auto

lemma set_sends: "e \<in> set (sends tr) \<longleftrightarrow> Sent e \<in> set tr"
  by (induction tr rule: sends.induct) auto

lemma set_reported: "p \<in> set (reported tr) \<longleftrightarrow> Reported p \<in> set tr"
  by (induction tr rule: reported.induct) auto

lemma reports_acts: "reports (acts_of tr) = reported tr"
proof (induction tr)
  case (Cons x tr)
  then show ?case by (cases x rule: act_of.cases) auto
qed simp

lemma size_in_acts: "SetSize gid n \<in> set (acts_of tr) \<longleftrightarrow> Sent (SetChordSize gid n) \<in> set tr"
proof (induction tr)
  case (Cons x tr)
  then show ?case by (cases x rule: act_of.cases) auto
qed simp

lemma only_joins: "reported tr = [] \<Longrightarrow> sends tr = [] \<Longrightarrow> set (acts_of tr) \<subseteq> range Join"
proof (induction tr)
  case (Cons x tr)
  then show ?case by (cases x rule: act_of.cases) auto
qed simp

lemma last_only:
  assumes "xs @ ys = zs" and "x \<in> set xs" and "x \<notin> set (butlast zs)"
  shows "ys = []"
proof (rule ccontr)
  assume "ys \<noteq> []"
  then have "butlast zs = xs @ butlast ys" using assms(1) by (auto simp: butlast_append)
  then show False using assms(2,3) by simp
qed

text \<open>If something that is sent last comes before the report \<open>z\<close>, nothing is sent after the last report.\<close>

lemma nothing_sent_after:
  assumes "A @ Reported p # B = pre @ Reported z # post" and "reported B = []" and "sends post = []"
  shows "sends B = []"
proof -
  from assms(1) consider us where "A = pre @ us" "us @ Reported p # B = Reported z # post" | us where "pre = A @ us" "Reported p # B = us @ Reported z # post"
    by (auto simp: append_eq_append_conv2)
  then show ?thesis
  proof cases
    case 1
    then show ?thesis using assms(3) by (cases us) auto
  next
    case (2 us)
    then show ?thesis using assms(2,3) by (cases us) auto
  qed
qed

text \<open>A trace in which the last thing sent is a task that reports: everything was sent before the last report.\<close>

lemma all_sent_before_last_report:
  assumes "sends tr = xs @ [Publish s0 m]" and "\<And>s. Publish s m \<notin> set xs" and "causal owner tr" and "z \<in> set (reported tr)" and "owner z = m"
  obtains A p B where "tr = A @ Reported p # B" "reported B = []" "sends B = []" "sends A = sends tr"
proof -
  have z: "Reported z \<in> set tr" using assms(4) by (simp add: set_reported)
  then obtain pre post where pp: "tr = pre @ Reported z # post" by (meson split_list)
  then obtain s where s: "Sent (Publish s m) \<in> set pre" using assms(3,5) unfolding causal_def by metis
  have sp: "sends pre @ sends post = sends tr" by (simp add: pp)
  have post: "sends post = []" using last_only [OF sp, of "Publish s m"] s assms(1,2) by (simp add: set_sends)
  obtain A x B where AB: "tr = A @ x # B" "\<exists>q. x = Reported q" "\<forall>y \<in> set B. \<not> (\<exists>q. y = Reported q)"
    using split_list_last_prop [of tr "\<lambda>x. \<exists>q. x = Reported q"] z by blast
  then obtain p where p: "x = Reported p" by blast
  have B: "reported B = []" using AB(3) set_reported by (metis list.set_intros(1) neq_Nil_conv)
  have "sends B = []" using nothing_sent_after [OF _ B post] AB(1) p pp by blast
  then show ?thesis using that [of A p B] AB(1) p B by simp
qed

text \<open>
  C5: a chord on the Redis backend ends exactly once. However the sending of the header, the reports of its tasks and the joins of the workers interleave, if every task
  reports once and after it was sent, the body is called once with all results in order, or fails once for the first failed task: the announcement of the size can
  neither come too late nor let the body be called too early.
\<close>

theorem sent_chord_ends_once:
  assumes hint: "length_hint h = Inr (length ps)" and "frozen_header h \<noteq> []" and hd: "chord_header e gid ps" and r: "collected e gid [] None r"
    and tr: "sends tr = snd (chord_run gid h)" "mset (reported tr) = mset ps" "causal owner tr"
    and own: "\<forall>p \<in> set ps. owner p < length (frozen_header h)" "\<exists>z \<in> set ps. Suc (owner z) = length (frozen_header h)"
  shows "\<exists>r'. run_acts e (acts_of tr @ [Join 0]) ([], r) = ([], r') \<and> sent r' = sent r @ [chord_outcome e gid ps]"
proof -
  define ts where "ts = map (\<lambda>t. freeze_shape (clone0 t)) (frozen_header h)"
  define pb where "pb = map as_published (zip ts [0..<length ts])"
  have ne: "ts \<noteq> []" "length ts = length (frozen_header h)" using assms(2) by (simp_all add: ts_def)
  have evs: "sends tr = butlast pb @ [SetChordSize gid (length ps), last pb]"
    using tr(1) chord_run_events [OF hint, of gid] ne(1) by (simp add: ts_def pb_def Let_def)
  have pbn: "length pb = length ts" "\<And>i. i < length ts \<Longrightarrow> pb ! i = Publish (ts ! i) i" by (simp_all add: pb_def as_published_def)
  then have lp: "last pb = Publish (last ts) (length ts - 1)" using ne(1) last_conv_nth [of pb] last_conv_nth [of ts] by (cases "pb = []") auto
  have early: "Publish s (length ts - 1) \<notin> set (butlast pb @ [SetChordSize gid (length ps)])" for s
    using pbn ne(1) by (auto simp: in_set_conv_nth nth_butlast)
  have only: "g = gid \<and> m = length ps" if "SetChordSize g m \<in> set (sends tr)" for g m
    using that pbn lp by (auto simp: evs in_set_conv_nth nth_butlast)
  obtain z where z: "z \<in> set (reported tr)" "owner z = length ts - 1" using own(2) ne(2) mset_eq_setD [OF tr(2)] by force
  obtain A p B where AB: "tr = A @ Reported p # B" "reported B = []" "sends B = []" "sends A = sends tr"
    by (rule all_sent_before_last_report [OF _ early tr(3) z]) (simp add: evs lp)
  have "mset (reports (acts_of A) @ [p]) = mset ps" using tr(2) AB(1,2) by (simp add: reports_acts)
  moreover have "size_acts gid (length ps) (acts_of A)" using only AB(4) by (simp add: size_acts_def size_in_acts flip: set_sends)
  moreover have "SetSize gid (length ps) \<in> set (acts_of A)" using AB(4) evs by (simp add: size_in_acts flip: set_sends)
  moreover have "set (acts_of B @ [Join 0]) \<subseteq> range Join" using only_joins [OF AB(2,3)] by simp
  ultimately have "\<exists>r'. run_acts e (acts_of A @ Report p # (acts_of B @ [Join 0])) ([], r) = ([], r') \<and> sent r' = sent r @ [chord_outcome e gid ps]"
    using redis_run_ends [OF hd r] by simp
  then show ?thesis using AB(1) by simp
qed

definition sample_trace :: "pstep list" where
  "sample_trace = [Sent (Publish (sample_task ''a'') 0), Reported (demo_part ''a'' 0 SUCCESS 4), Sent (SetChordSize ''g'' 2), Joined 0, Sent (Publish (sample_task ''b'') 1),
     Reported (demo_part ''b'' 1 SUCCESS 2), Joined 1]"

lemma sample_trace_causal: "causal (\<lambda>p. if p_id p = ''a'' then 0 else 1) sample_trace"
  unfolding causal_def sample_trace_def by (auto simp: Cons_eq_append_conv demo_part_def)

theorem sent_chord_ends_once_witness:
  "\<exists>r'. run_acts (demo_redis True) (acts_of sample_trace @ [Join 0]) ([], empty_redis) = ([], r') \<and> sent r' = [BodySent ''g'' [4, 2]]"
proof -
  let ?h = "[sample_task ''a'', sample_task ''b'']" and ?ps = "[demo_part ''a'' 0 SUCCESS 4, demo_part ''b'' 1 SUCCESS 2]"
  have h: "length_hint ?h = Inr (length ?ps)" "frozen_header ?h \<noteq> []" "length (frozen_header ?h) = 2" "sends sample_trace = snd (chord_run ''g'' ?h)" by code_simp+
  have "mset (reported sample_trace) = mset ?ps" by (simp add: sample_trace_def)
  from sent_chord_ends_once [OF h(1,2) demo_header(1) empty_collected h(4) this sample_trace_causal] h(3) show ?thesis
    by (auto simp: demo_outcomes [unfolded demo_part_def] empty_redis_def demo_part_def)
qed

end
