(* ===== verification/Spec2Isabelle.thy ===== *)
theory Spec2Isabelle
  imports Prelude States Heapq Limited_Set Buffers Graph Bootsteps Worker_State Request Events_State Crontab_Parser Crontab Crontab_Next Beat Backend Chord Canvas Canvas_Compose Canvas_Prepare Config Autoscale Queues Routes Amqp Trace Consumer Prefetch Results Tasks Gossip Dispatcher Control Redis_Chord Redis_Consumer App Canvas_Send Chord_Protocol
begin

text \<open>
  A verification development of the Celery task queue (\<open>src/celery\<close>).

  \<^bold>\<open>The program.\<close> Clients send task messages through a broker; workers take them, run them in a pool
  and store results in a backend; beat sends periodic tasks; monitors follow the events that
  workers emit. The worker is assembled from bootsteps ordered by a dependency graph. A received
  message becomes a request, which is settled with the broker (acknowledged or rejected), entered
  in the worker's global tables and announced by events. Finished tasks report to the result
  backend, which also counts the parts of chords.

  \<^bold>\<open>Theories and sources.\<close>
  \<^item> \<open>Prelude\<close>: results as sums, ordered dictionaries (interface \<open>dict_spec\<close>), transition systems
    (interface \<open>invariant_system\<close>). \<open>Heapq\<close>: Python's heap queue (interface \<open>heap_spec\<close>).
  \<^item> \<open>States\<close>: \<open>states.py\<close>, the precedence of task states.
  \<^item> \<open>Limited_Set\<close>, \<open>Buffers\<close>: \<open>utils/collections.py\<close>, the set with limited size and expiry that
    holds revoked task ids, and the evictable message buffers.
  \<^item> \<open>Graph\<close>: \<open>utils/graph.py\<close>, the dependency graph and its topological sort. \<open>Bootsteps\<close>:
    \<open>bootsteps.py\<close>, the order in which a blueprint includes, starts and stops its steps.
  \<^item> \<open>Worker_State\<close>: \<open>worker/state.py\<close>, the tables of reserved, active and revoked requests and the
    persistent revocation database. \<open>Request\<close>: \<open>worker/request.py\<close>, every handler of a task request.
  \<^item> \<open>Events_State\<close>: \<open>events/state.py\<close>, the monitor's view of workers and tasks.
  \<^item> \<open>Crontab_Parser\<close>, \<open>Crontab\<close>, \<open>Crontab_Next\<close>: \<open>schedules.py\<close> and parts of \<open>utils/time.py\<close>, crontab
    expressions, the next run of a crontab over a model of the calendar, and when it is due.
  \<^item> \<open>Beat\<close>: \<open>beat.py\<close>, schedule entries, the heap of events, a tick, sending, merging of the
    configured schedule and the persistent scheduler's set-up.
  \<^item> \<open>Backend\<close>, \<open>Chord\<close>: \<open>backends/base.py\<close> and \<open>join_native\<close> of \<open>result.py\<close>, retries, keys, storing and
    caching results, waiting loops, completion of tasks, propagation along chains, chords.
  \<^item> \<open>Canvas\<close>, \<open>Canvas_Compose\<close>, \<open>Canvas_Prepare\<close>, \<open>Canvas_Send\<close>: \<open>canvas.py\<close>, signatures, chains, groups and
    chords as a datatype, their merging, cloning, linking and chaining, local evaluation, the chaining
    operator shown to be sequential composition, the preparation of chains (\<open>prepare_steps\<close>), the size of
    chords (\<open>_descend\<close>) and the sending of groups and chords (\<open>_apply_tasks\<close>, \<open>_chord.run\<close>).
  \<^item> \<open>Redis_Chord\<close>, \<open>Redis_Consumer\<close>: \<open>backends/redis.py\<close>, chords counted in sorted sets, and the
    publish/subscribe connection that threads share. \<open>Chord_Protocol\<close>: a chord from its sending to the
    call of its body, with \<open>Canvas_Send\<close> and \<open>Redis_Chord\<close> together.
  \<^item> \<open>Config\<close>: \<open>app/utils.py\<close> and the chained maps of \<open>utils/collections.py\<close>. \<open>Queues\<close>, \<open>Routes\<close>, \<open>Amqp\<close>:
    \<open>app/amqp.py\<close> and \<open>app/routes.py\<close>, the table of queues, routing, and task messages in both versions of the
    protocol. \<open>App\<close>: \<open>app/base.py\<close>, \<open>local.py\<close>, \<open>app/registry.py\<close>, declaring and registering tasks.
  \<^item> \<open>Trace\<close>: \<open>app/trace.py\<close>, running a task and what follows from every way it can end. \<open>Tasks\<close>:
    \<open>app/task.py\<close>, \<open>app/autoretry.py\<close>, calls, retries and local execution. \<open>Results\<close>: \<open>result.py\<close>, result objects, sets and groups.
  \<^item> \<open>Consumer\<close>, \<open>Prefetch\<close>: \<open>worker/consumer/consumer.py\<close>, \<open>worker/strategy.py\<close>, the intake of messages, rate
    limits, waiting for start times, the prefetch count. \<open>Autoscale\<close>: \<open>worker/autoscale.py\<close>.
  \<^item> \<open>Dispatcher\<close>: \<open>events/dispatcher.py\<close>. \<open>Gossip\<close>: \<open>worker/consumer/gossip.py\<close>, elections. \<open>Control\<close>:
    \<open>worker/control.py\<close> and \<open>worker/consumer/mingle.py\<close>, remote control and the exchange of revoked ids.

  \<^bold>\<open>Correspondence.\<close> A class is a record of the attributes its methods use, a method is a function
  from the state to the state with its result, an exception is a left value of a sum, a log of
  events stands for calls into the broker, the pool and user code. Objects that are shared and
  mutated (schedule entries) live in a store indexed by identity. Time is an argument; floats are
  rational numbers.

  \<^bold>\<open>What is shown.\<close> Every component has an invariant or a functional description of its operations.
  The worker: messages are settled at most once whatever handlers run; revoked tasks never run, also when
  revoked by remote control; no received request is lost or handed to the pool twice; the prefetch count comes back
  after a lost connection; the limits of the autoscaler hold; steps start after what they require and stop in reverse order.
  Running: every way a task can end stores and starts exactly what it should, the stacks of
  current tasks are balanced, retries continue the request and their number is bounded along each line of messages.
  Work flows: composed and prepared signatures evaluate in sequence, a chord waits for exactly the tasks that
  report, and its body runs once with the results in order, in the counting backend and, with sending and reporting interleaved, on Redis.
  Results: a success is never overwritten, failures reach the whole chain and nothing else, waiting ends, cached single reads agree with the store,
  no unsubscription is lost between threads. Application: declared tasks are registered and the first registration wins; options
  of the call win over routes; the worker reads the same task from both protocols, apart from the headers the old one loses. Beat and monitors: a crontab's next run is the least matching
  minute; the heap has one event for each entry and overdue entries are all sent; events of one attempt that arrive
  in any order lead to the same task state; the dispatcher loses no event. The error theorems state
  behaviour of the code that its comments or documentation do not announce.

  \<^bold>\<open>Bounds and fuel.\<close> Loops of the source are structural recursions or have a termination proof.
  The crontab search keeps the source's limit of 2000 steps and is shown to find every match of
  the next 165 years; its day loop ends at year 9999. Loops that may run forever (retries without
  a limit, waiting without a time-out) are partial functions whose value is \<open>None\<close> when they do not return,
  and their termination is proved under a limit or a time-out. Python's integers are unbounded.

  \<^bold>\<open>Parameters.\<close> Code outside the repository is an argument: the broker and pool (logs), the clock,
  random draws, time zones (gaps stay within a day), user hooks and task bodies, schedule types in beat, token
  buckets, serialisers, loaded modules, delivery of chord bodies. The commands of a Redis transaction are one step.

  \<^bold>\<open>Interfaces.\<close> Where one part relies on another the laws are a locale with an interpretation on the model:
  ordered dictionaries, heaps, transition systems with an invariant (interpreted for every state machine of the
  development), evictable buffers, precedence of states, weak orders, topological sorting, invariants of request and tracing programs.

  \<^bold>\<open>Not modelled.\<close> Stamping of work flows, which rewrites headers by user-defined visitors; process and
  thread pools (\<open>concurrency\<close>), whose logic is that of the process library they drive; the event loops; connection
  parameters of the concrete backends other than what is named above, and the remaining backends, which call client
  libraries; configuration files, loaders and discovery of modules; command line, daemons, logging and platform code;
  security, contrib and fix-ups. They are glue to third-party libraries or to the operating system, or have no state of their own.
\<close>

end
